(* ===== verification/Bacnet_Prelude.thy ===== *)
theory Bacnet_Prelude
  imports Main "HOL-Library.Word"
begin

text \<open>
  What every component of the development shares: the names of the machine types, the
  result type of fallible Rust functions and its sequencing operator (the \<open>?\<close> operator
  of the source), the byte orders of \<open>u16\<close> and \<open>u32\<close>, and generic facts about lists and
  words.

  Conventions. An octet is an \<open>8 word\<close>; \<open>u16\<close>, \<open>u32\<close> and \<open>u64\<close> are words of their
  width. A \<open>usize\<close> that counts octets of a buffer is a \<open>nat\<close>: it never exceeds the length
  of a slice, so no addition of the modelled code can wrap it. A \<open>&[u8]\<close> is an octet list;
  a \<open>&mut [u8]\<close> is an octet list that the operation returns updated. \<open>Result<T, E>\<close> is the
  sum \<open>E + T\<close>, with \<open>Inl\<close> for \<open>Err\<close> and \<open>Inr\<close> for \<open>Ok\<close>.
\<close>

unbundle bit_operations_syntax

type_synonym octet = "8 word"
type_synonym u16 = "16 word"
type_synonym u32 = "32 word"
type_synonym u64 = "64 word"
type_synonym octets = "octet list"

named_theorems byte_order \<open>reading back what a byte order wrote\<close>
named_theorems codec \<open>unfolding of the codecs' small operations\<close>
named_theorems inv_intro \<open>preservation of the components' invariants\<close>

text \<open>\<open>u32::saturating_add\<close>.\<close>

definition u32_saturating_add :: "u32 \<Rightarrow> u32 \<Rightarrow> u32" where
  "u32_saturating_add a b = (if unat a + unat b < 2 ^ 32 then a + b else - 1)"

section \<open>Results\<close>

text \<open>The \<open>?\<close> operator: go on with the value of \<open>Ok\<close>, return \<open>Err\<close> early.\<close>

definition try_res :: "'e + 'a \<Rightarrow> ('a \<Rightarrow> 'e + 'b) \<Rightarrow> 'e + 'b" where
  "try_res r k = (case r of Inl e \<Rightarrow> Inl e | Inr x \<Rightarrow> k x)"

lemma try_res_simps [simp]:
  "try_res (Inl e) k = Inl e"
  "try_res (Inr x) k = k x"
  by (simp_all add: try_res_def)

lemma try_res_eq_Inr: "try_res r k = Inr y \<longleftrightarrow> (\<exists>x. r = Inr x \<and> k x = Inr y)"
  by (cases r) simp_all

lemma try_res_eq_Inl: "try_res r k = Inl e \<longleftrightarrow> r = Inl e \<or> (\<exists>x. r = Inr x \<and> k x = Inl e)"
  by (cases r) simp_all

text \<open>\<open>Result::map_err\<close> and \<open>Option::ok_or\<close>.\<close>

definition map_err :: "('e \<Rightarrow> 'f) \<Rightarrow> 'e + 'a \<Rightarrow> 'f + 'a" where
  "map_err f r = (case r of Inl e \<Rightarrow> Inl (f e) | Inr x \<Rightarrow> Inr x)"

lemma map_err_simps [simp]:
  "map_err f (Inl e) = Inl (f e)"
  "map_err f (Inr x) = Inr x"
  by (simp_all add: map_err_def)

lemma map_err_eq_Inr [simp]: "map_err f r = Inr y \<longleftrightarrow> r = Inr y"
  by (cases r) simp_all

definition ok_or :: "'e \<Rightarrow> 'a option \<Rightarrow> 'e + 'a" where
  "ok_or e x = (case x of None \<Rightarrow> Inl e | Some y \<Rightarrow> Inr y)"

lemma ok_or_simps [simp]:
  "ok_or e None = Inl e"
  "ok_or e (Some y) = Inr y"
  by (simp_all add: ok_or_def)

lemma ok_or_eq_Inr [simp]: "ok_or e x = Inr y \<longleftrightarrow> x = Some y"
  by (cases x) simp_all

section \<open>Slices\<close>

text \<open>
  \<open>xs.get(i)\<close> and \<open>xs.get(a..b)\<close>: \<open>None\<close> out of range. \<open>subslice xs a b\<close> is \<open>&xs[a..b]\<close>
  where the source has established the range.
\<close>

definition get_at :: "'a list \<Rightarrow> nat \<Rightarrow> 'a option" where
  "get_at xs i = (if i < length xs then Some (xs ! i) else None)"

definition subslice :: "'a list \<Rightarrow> nat \<Rightarrow> nat \<Rightarrow> 'a list" where
  "subslice xs a b = take (b - a) (drop a xs)"

definition get_range :: "'a list \<Rightarrow> nat \<Rightarrow> nat \<Rightarrow> 'a list option" where
  "get_range xs a b = (if a \<le> b \<and> b \<le> length xs then Some (subslice xs a b) else None)"

text \<open>\<open>xs[a..a + ys.len()].copy_from_slice(ys)\<close>, in range.\<close>

definition copy_into :: "'a list \<Rightarrow> nat \<Rightarrow> 'a list \<Rightarrow> 'a list" where
  "copy_into xs a ys = take a xs @ ys @ drop (a + length ys) xs"

lemma get_at_Some: "get_at xs i = Some x \<longleftrightarrow> i < length xs \<and> xs ! i = x"
  by (auto simp: get_at_def)

lemma length_subslice [simp]: "length (subslice xs a b) = min (b - a) (length xs - a)"
  by (simp add: subslice_def)

lemma subslice_all [simp]: "subslice xs 0 (length xs) = xs"
  by (simp add: subslice_def)

lemma subslice_self [simp]: "subslice xs a a = []"
  by (simp add: subslice_def)

lemma take_subslice: "a \<le> n \<Longrightarrow> take n xs = take a xs @ subslice xs a n"
  using take_add [of a "n - a" xs] by (simp add: subslice_def)

lemma subslice_append_mid:
  "length xs = a \<Longrightarrow> a + length ys = b \<Longrightarrow> subslice (xs @ ys @ zs) a b = ys"
  by (auto simp: subslice_def)

lemma subslice_append_end: "length xs = a \<Longrightarrow> a + length ys = b \<Longrightarrow> subslice (xs @ ys) a b = ys"
  by (auto simp: subslice_def)

lemma nth_subslice: "i < b - a \<Longrightarrow> a + i < length xs \<Longrightarrow> subslice xs a b ! i = xs ! (a + i)"
  by (simp add: subslice_def)

lemma nth_subslice_index:
  "a \<le> i \<Longrightarrow> i < b \<Longrightarrow> i < length xs \<Longrightarrow> subslice xs a b ! (i - a) = xs ! i"
  by (simp add: subslice_def)

lemma subslice_snoc: "a \<le> b \<Longrightarrow> b < length xs \<Longrightarrow> subslice xs a (Suc b) = subslice xs a b @ [xs ! b]"
  by (simp add: subslice_def Suc_diff_le take_Suc_conv_app_nth)

lemma subslice_list_update:
  "a \<le> i \<Longrightarrow> subslice (xs[i := x]) a b = (subslice xs a b)[i - a := x]"
  by (simp add: subslice_def drop_update_swap take_update_swap)

lemma subslice_list_update_out:
  "i < a \<or> b \<le> i \<Longrightarrow> subslice (xs[i := x]) a b = subslice xs a b"
  by (cases "a \<le> b") (auto simp: subslice_def drop_update_swap take_update_swap list_update_beyond)

lemma two_last: "2 \<le> length xs \<Longrightarrow> \<exists>ys a b. xs = ys @ [a, b]"
proof -
  assume "2 \<le> length xs"
  then obtain zs b where zs: "xs = zs @ [b]" "zs \<noteq> []" by (cases xs rule: rev_cases) fastforce+
  then obtain ys a where "zs = ys @ [a]" by (cases zs rule: rev_cases) auto
  with zs(1) show ?thesis by auto
qed

lemma length_copy_into [simp]:
  "a + length ys \<le> length xs \<Longrightarrow> length (copy_into xs a ys) = length xs"
  by (simp add: copy_into_def)

lemma subslice_copy_into_same:
  "a + length ys \<le> length xs \<Longrightarrow> subslice (copy_into xs a ys) a (a + length ys) = ys"
  by (simp add: copy_into_def subslice_def)

lemma subslice_copy_into_extend:
  assumes "s \<le> a" "a + length ys \<le> length xs"
  shows "subslice (copy_into xs a ys) s (a + length ys) = subslice xs s a @ ys"
proof -
  have "a + length ys - s = (a - s) + length ys" using assms by simp
  then show ?thesis using assms by (simp add: copy_into_def subslice_def drop_take)
qed

lemma take_copy_into: "a \<le> length xs \<Longrightarrow> take a (copy_into xs a ys) = take a xs"
  by (simp add: copy_into_def)

section \<open>Byte orders\<close>

definition u16_be :: "octet \<Rightarrow> octet \<Rightarrow> u16" where
  "u16_be hi lo = push_bit 8 (ucast hi) OR ucast lo"

definition u16_to_be :: "u16 \<Rightarrow> octets" where
  "u16_to_be w = [ucast (drop_bit 8 w), ucast w]"

definition u16_le :: "octet \<Rightarrow> octet \<Rightarrow> u16" where
  "u16_le lo hi = u16_be hi lo"

definition u16_to_le :: "u16 \<Rightarrow> octets" where
  "u16_to_le w = [ucast w, ucast (drop_bit 8 w)]"

definition u32_be :: "octet \<Rightarrow> octet \<Rightarrow> octet \<Rightarrow> octet \<Rightarrow> u32" where
  "u32_be a b c d = push_bit 24 (ucast a) OR push_bit 16 (ucast b) OR push_bit 8 (ucast c) OR ucast d"

definition u32_to_be :: "u32 \<Rightarrow> octets" where
  "u32_to_be w = [ucast (drop_bit 24 w), ucast (drop_bit 16 w), ucast (drop_bit 8 w), ucast w]"

definition u32_le :: "octet \<Rightarrow> octet \<Rightarrow> octet \<Rightarrow> octet \<Rightarrow> u32" where
  "u32_le a b c d = u32_be d c b a"

definition u32_to_le :: "u32 \<Rightarrow> octets" where
  "u32_to_le w = rev (u32_to_be w)"

lemma octet_bit_ge [simp]: "8 \<le> n \<Longrightarrow> \<not> bit (x :: octet) n"
  using bit_imp_le_length [of x n] by auto

lemma u16_be_to_be [byte_order, simp]: "u16_be (ucast (drop_bit 8 w)) (ucast w) = w"
  by (rule bit_word_eqI) (auto simp: u16_be_def bit_simps)

lemma u16_to_be_be [byte_order, simp]: "u16_to_be (u16_be a b) = [a, b]"
  by (auto simp: u16_to_be_def u16_be_def bit_simps intro!: bit_word_eqI)

lemma u16_le_to_le [byte_order, simp]: "u16_le (ucast w) (ucast (drop_bit 8 w)) = w"
  by (simp add: u16_le_def)

lemma u32_be_to_be [byte_order, simp]:
  "u32_be (ucast (drop_bit 24 w)) (ucast (drop_bit 16 w)) (ucast (drop_bit 8 w)) (ucast w) = w"
proof (rule bit_word_eqI)
  fix n assume "n < LENGTH(32)"
  then consider "n < 8" | "8 \<le> n" "n < 16" | "16 \<le> n" "n < 24" | "24 \<le> n" "n < 32"
    by fastforce
  then show "bit (u32_be (ucast (drop_bit 24 w)) (ucast (drop_bit 16 w)) (ucast (drop_bit 8 w))
      (ucast w)) n = bit w n"
    by cases (auto simp: u32_be_def bit_simps)
qed

lemma u32_to_be_be [byte_order, simp]: "u32_to_be (u32_be a b c d) = [a, b, c, d]"
  by (auto simp: u32_to_be_def u32_be_def bit_simps intro!: bit_word_eqI)

lemma length_byte_orders [simp]:
  "length (u16_to_be w) = 2" "length (u16_to_le w) = 2"
  "length (u32_to_be v) = 4" "length (u32_to_le v) = 4"
  by (simp_all add: u16_to_be_def u16_to_le_def u32_to_be_def u32_to_le_def)

text \<open>A length that fits sixteen bits survives being split in two octets.\<close>

lemma unat_u16_of_nat [simp]: "n < 65536 \<Longrightarrow> unat (of_nat n :: u16) = n"
  by (simp add: unat_of_nat)

lemma unat_octet_of_nat [simp]: "n < 256 \<Longrightarrow> unat (of_nat n :: octet) = n"
  by (simp add: unat_of_nat)

lemma unat_octet_less [simp]: "unat (x :: octet) < 256"
  using unsigned_less [of x] by simp

lemma unat_u16_less [simp]: "unat (x :: u16) < 65536"
  using unsigned_less [of x] by simp

lemma of_nat_unat_id: "of_nat (unat w) = (w :: 'a::len word)"
  by simp

lemma u16_be_of_nat: "u16_be (of_nat (n div 256)) (of_nat n) = of_nat n"
proof -
  have "n div 256 = drop_bit 8 n" by (simp add: drop_bit_eq_div)
  then have "(of_nat (n div 256) :: octet) = ucast (drop_bit 8 (of_nat n :: u16))"
    by (auto intro!: bit_word_eqI simp: bit_simps)
  moreover have "(of_nat n :: octet) = ucast (of_nat n :: u16)"
    by (auto intro!: bit_word_eqI simp: bit_simps)
  ultimately show ?thesis by simp
qed

lemma u16_to_be_of_nat: "[of_nat (unat w div 256), of_nat (unat w)] = u16_to_be w"
proof -
  have "u16_be (of_nat (unat w div 256)) (of_nat (unat w)) = w"
    by (simp only: u16_be_of_nat of_nat_unat_id)
  then show ?thesis by (metis u16_to_be_be)
qed

lemma u16_to_le_le: "u16_to_le (u16_le lo hi) = [lo, hi]"
  using u16_to_be_be [of hi lo] by (simp add: u16_to_le_def u16_le_def u16_to_be_def)

section \<open>Exclusive or\<close>

lemma word_xor_cancel [simp]: "(x XOR m) XOR m = (x :: 'a::len word)"
  by (simp add: xor.assoc)

lemma word_xor_eq_iff [simp]: "(x XOR m = y XOR m) \<longleftrightarrow> x = (y :: 'a::len word)"
  by (metis word_xor_cancel)

lemma word_xor_left_eq_iff [simp]: "(m XOR x = m XOR y) \<longleftrightarrow> x = (y :: 'a::len word)"
  by (metis word_xor_cancel xor.commute)

section \<open>Searching\<close>

text \<open>\<open>Iterator::position\<close>: the index of the first element a test accepts.\<close>

fun position :: "('a \<Rightarrow> bool) \<Rightarrow> 'a list \<Rightarrow> nat option" where
  "position p [] = None"
| "position p (x # xs) = (if p x then Some 0 else map_option Suc (position p xs))"

lemma position_None [simp]: "position p xs = None \<longleftrightarrow> (\<forall>x \<in> set xs. \<not> p x)"
  by (induction xs) auto

lemma position_Some:
  "position p xs = Some i \<Longrightarrow> i < length xs \<and> p (xs ! i) \<and> (\<forall>j < i. \<not> p (xs ! j))"
proof (induction xs arbitrary: i)
  case (Cons x xs)
  then show ?case by (auto split: if_splits simp: nth_Cons less_Suc_eq_0_disj split: nat.splits)
qed simp

end
