(* ===== verification/Network_Priority.thy ===== *)
theory Network_Priority
  imports Bacnet_Prelude
begin

text \<open>
  The network priority (\<open>crates/bacnet-npdu/src/priority.rs\<close>), which the NPDU codec, the MS/TP
  transmit queues and the router share: the two low bits of the control octet, ordered by
  urgency.
\<close>

section \<open>Priority\<close>

datatype network_priority = Normal | Urgent | CriticalEquipment | LifeSafety

definition ALL_PRIORITIES :: "network_priority list" where
  "ALL_PRIORITIES = [Normal, Urgent, CriticalEquipment, LifeSafety]"

definition from_control :: "octet \<Rightarrow> network_priority" where
  "from_control control =
     (let p = control AND 0x03 in
      if p = 0 then Normal else if p = 1 then Urgent
      else if p = 2 then CriticalEquipment else LifeSafety)"

fun priority_to_raw :: "network_priority \<Rightarrow> octet" where
  "priority_to_raw Normal = 0"
| "priority_to_raw Urgent = 1"
| "priority_to_raw CriticalEquipment = 2"
| "priority_to_raw LifeSafety = 3"

datatype priority_error = PriorityError octet

definition priority_try_from :: "octet \<Rightarrow> priority_error + network_priority" where
  "priority_try_from v = (if v > 3 then Inl (PriorityError v) else Inr (from_control v))"

text \<open>The derived order is the numeric one.\<close>

instantiation network_priority :: linorder
begin

definition less_eq_network_priority :: "network_priority \<Rightarrow> network_priority \<Rightarrow> bool" where
  "less_eq_network_priority p q \<longleftrightarrow> priority_to_raw p \<le> priority_to_raw q"

definition less_network_priority :: "network_priority \<Rightarrow> network_priority \<Rightarrow> bool" where
  "less_network_priority p q \<longleftrightarrow> priority_to_raw p < priority_to_raw q"

instance
proof
  fix p q r :: network_priority
  show "(p < q) = (p \<le> q \<and> \<not> q \<le> p)"
    by (auto simp: less_eq_network_priority_def less_network_priority_def)
  show "p \<le> p" by (simp add: less_eq_network_priority_def)
  show "p \<le> q \<Longrightarrow> q \<le> r \<Longrightarrow> p \<le> r" by (auto simp: less_eq_network_priority_def)
  show "p \<le> q \<Longrightarrow> q \<le> p \<Longrightarrow> p = q"
    by (cases p; cases q) (auto simp: less_eq_network_priority_def word_le_nat_alt)
  show "p \<le> q \<or> q \<le> p" by (auto simp: less_eq_network_priority_def)
qed

end

end
