(* ===== verification/Npdu.thy ===== *)
theory Npdu
  imports Network_Priority
begin

text \<open>
  The network layer's protocol data unit (\<open>crates/bacnet-npdu/src\<close>): the codes of
  the control information (\<open>codes.rs\<close>; the priority is in \<open>Network_Priority\<close>), the size limits
  (\<open>limits.rs\<close>), the owned MAC (\<open>mac.rs\<close>), the decoder that borrows from a frame
  (\<open>view.rs\<close>), the encoder into a caller's buffer (\<open>encode.rs\<close>) and the data of a
  Reject-Message-To-Network (\<open>reject.rs\<close>).

  Each stretch of \<open>Npdu::decode\<close> that reads one optional group of fields is a definition of
  its own, which takes and returns the position \<open>at\<close>, and \<open>npdu_decode\<close> runs them in the
  order of the source, so that a frame with several faults reports the first. The lemmas show
  that what the encoder writes decodes to the canonical form of the NPDU, that a decoded
  NPDU encodes to the frame less its reserved control bits, and what each refusal means.
\<close>

section \<open>Constants and codes\<close>

definition VERSION :: octet where "VERSION = 1"
definition GLOBAL_NETWORK :: u16 where "GLOBAL_NETWORK = 0xFFFF"
definition MAX_NPDU :: nat where "MAX_NPDU = 1497"
definition MAX_MAC_LEN :: nat where "MAX_MAC_LEN = 18"

definition NETWORK_MESSAGE :: octet where "NETWORK_MESSAGE = 0x80"
definition DESTINATION :: octet where "DESTINATION = 0x20"
definition SOURCE :: octet where "SOURCE = 0x08"
definition EXPECTING_REPLY :: octet where "EXPECTING_REPLY = 0x04"

text \<open>The newtypes over their wire value.\<close>

datatype network_message_type = NetworkMessageType (nmt_to_raw: octet)
datatype reject_message_reason = RejectMessageReason (rmr_to_raw: octet)

definition WHO_IS_ROUTER_TO_NETWORK :: network_message_type where
  "WHO_IS_ROUTER_TO_NETWORK = NetworkMessageType 0x00"
definition I_AM_ROUTER_TO_NETWORK :: network_message_type where
  "I_AM_ROUTER_TO_NETWORK = NetworkMessageType 0x01"
definition I_COULD_BE_ROUTER_TO_NETWORK :: network_message_type where
  "I_COULD_BE_ROUTER_TO_NETWORK = NetworkMessageType 0x02"
definition REJECT_MESSAGE_TO_NETWORK :: network_message_type where
  "REJECT_MESSAGE_TO_NETWORK = NetworkMessageType 0x03"
definition ROUTER_BUSY_TO_NETWORK :: network_message_type where
  "ROUTER_BUSY_TO_NETWORK = NetworkMessageType 0x04"
definition ROUTER_AVAILABLE_TO_NETWORK :: network_message_type where
  "ROUTER_AVAILABLE_TO_NETWORK = NetworkMessageType 0x05"
definition INITIALIZE_ROUTING_TABLE :: network_message_type where
  "INITIALIZE_ROUTING_TABLE = NetworkMessageType 0x06"
definition INITIALIZE_ROUTING_TABLE_ACK :: network_message_type where
  "INITIALIZE_ROUTING_TABLE_ACK = NetworkMessageType 0x07"
definition ESTABLISH_CONNECTION_TO_NETWORK :: network_message_type where
  "ESTABLISH_CONNECTION_TO_NETWORK = NetworkMessageType 0x08"
definition DISCONNECT_CONNECTION_TO_NETWORK :: network_message_type where
  "DISCONNECT_CONNECTION_TO_NETWORK = NetworkMessageType 0x09"
definition WHAT_IS_NETWORK_NUMBER :: network_message_type where
  "WHAT_IS_NETWORK_NUMBER = NetworkMessageType 0x12"
definition NETWORK_NUMBER_IS :: network_message_type where
  "NETWORK_NUMBER_IS = NetworkMessageType 0x13"

definition nmt_is_proprietary :: "network_message_type \<Rightarrow> bool" where
  "nmt_is_proprietary t \<longleftrightarrow> 0x80 \<le> nmt_to_raw t"

definition is_removed_security :: "network_message_type \<Rightarrow> bool" where
  "is_removed_security t \<longleftrightarrow> 0x0A \<le> nmt_to_raw t \<and> nmt_to_raw t \<le> 0x11"

definition OTHER :: reject_message_reason where "OTHER = RejectMessageReason 0"
definition NOT_DIRECTLY_CONNECTED :: reject_message_reason where
  "NOT_DIRECTLY_CONNECTED = RejectMessageReason 1"
definition ROUTER_BUSY :: reject_message_reason where "ROUTER_BUSY = RejectMessageReason 2"
definition UNKNOWN_MESSAGE_TYPE :: reject_message_reason where
  "UNKNOWN_MESSAGE_TYPE = RejectMessageReason 3"
definition MESSAGE_TOO_LONG :: reject_message_reason where
  "MESSAGE_TOO_LONG = RejectMessageReason 4"
definition ADDRESSING_ERROR :: reject_message_reason where
  "ADDRESSING_ERROR = RejectMessageReason 6"

section \<open>Size limits\<close>

record npdu_limits =
  lim_unicast :: u16
  lim_broadcast :: u16

definition limits_both :: "u16 \<Rightarrow> npdu_limits" where
  "limits_both octets = \<lparr>lim_unicast = octets, lim_broadcast = octets\<rparr>"

definition STANDARD :: npdu_limits where "STANDARD = limits_both (of_nat MAX_NPDU)"

definition limits_get :: "npdu_limits \<Rightarrow> bool \<Rightarrow> nat" where
  "limits_get l broadcast = (if broadcast then unat (lim_broadcast l) else unat (lim_unicast l))"

section \<open>Owned MACs\<close>

record mac =
  mac_len :: octet
  mac_octets :: octets

definition MAC_EMPTY :: mac where
  "MAC_EMPTY = \<lparr>mac_len = 0, mac_octets = replicate MAX_MAC_LEN 0\<rparr>"

text \<open>The copying loop of \<open>from_slice\<close>.\<close>

function mac_copy :: "octets \<Rightarrow> octets \<Rightarrow> nat \<Rightarrow> octets" where
  "mac_copy dst src i =
     (if i < length src then mac_copy (dst[i := src ! i]) src (i + 1) else dst)"
  by pat_completeness auto
termination by (relation "measure (\<lambda>(dst, src, i). length src - i)") auto

declare mac_copy.simps [simp del]

datatype mac_too_long = MacTooLong nat

definition mac_from_slice :: "octets \<Rightarrow> mac_too_long + mac" where
  "mac_from_slice octets =
     (if length octets > MAX_MAC_LEN then Inl (MacTooLong (length octets))
      else Inr (MAC_EMPTY\<lparr>mac_octets := mac_copy (mac_octets MAC_EMPTY) octets 0,
                          mac_len := of_nat (length octets)\<rparr>))"

definition mac_as_slice :: "mac \<Rightarrow> octets" where
  "mac_as_slice m = take (unat (mac_len m)) (mac_octets m)"

definition mac_length :: "mac \<Rightarrow> nat" where "mac_length m = unat (mac_len m)"
definition mac_is_empty :: "mac \<Rightarrow> bool" where "mac_is_empty m \<longleftrightarrow> mac_len m = 0"

definition mac_eq :: "mac \<Rightarrow> mac \<Rightarrow> bool" where
  "mac_eq a b \<longleftrightarrow> mac_as_slice a = mac_as_slice b"

text \<open>The type's invariant: the array has its fixed size and the length fits it.\<close>

definition mac_wf :: "mac \<Rightarrow> bool" where
  "mac_wf m \<longleftrightarrow> length (mac_octets m) = MAX_MAC_LEN \<and> unat (mac_len m) \<le> MAX_MAC_LEN"

section \<open>The borrowed view and its decoder\<close>

record address =
  ad_network :: u16
  ad_mac :: octets

record npdu =
  np_expecting_reply :: bool
  np_priority :: network_priority
  np_destination :: "address option"
  np_source :: "address option"
  np_hop_count :: octet
  np_message_type :: "network_message_type option"
  np_vendor_id :: "u16 option"
  np_payload :: octets
  np_payload_offset :: nat

datatype address_field = DestinationField | SourceField

datatype malformed = Truncated | Version | ReservedNetwork | EmptySource

datatype decode_error =
    AddressTooLong address_field octet "u16 option" "address option"
  | Malformed malformed

definition npdu_apdu :: "octets \<Rightarrow> npdu" where
  "npdu_apdu payload =
     \<lparr>np_expecting_reply = False, np_priority = Normal, np_destination = None,
      np_source = None, np_hop_count = 255, np_message_type = None, np_vendor_id = None,
      np_payload = payload, np_payload_offset = 0\<rparr>"

definition npdu_message :: "network_message_type \<Rightarrow> octets \<Rightarrow> npdu" where
  "npdu_message t payload = (npdu_apdu payload)\<lparr>np_message_type := Some t\<rparr>"

definition is_network_message :: "npdu \<Rightarrow> bool" where
  "is_network_message n \<longleftrightarrow> np_message_type n \<noteq> None"

definition is_global :: "npdu \<Rightarrow> bool" where
  "is_global n = (case np_destination n of None \<Rightarrow> False
                  | Some d \<Rightarrow> ad_network d = GLOBAL_NETWORK)"

definition octets_at :: "octets \<Rightarrow> nat \<Rightarrow> octet \<Rightarrow> malformed + octets" where
  "octets_at frame at len = ok_or Truncated (get_range frame at (at + unat len))"

definition network_and_length :: "octets \<Rightarrow> nat \<Rightarrow> malformed + (u16 \<times> octet)" where
  "network_and_length frame at =
     try_res (octets_at frame at 3) (\<lambda>xs.
       case xs of [high, low, len] \<Rightarrow> Inr (u16_be high low, len) | _ \<Rightarrow> Inl Truncated)"

definition source_behind :: "octets \<Rightarrow> nat \<Rightarrow> address option" where
  "source_behind frame at =
     (case network_and_length frame at of Inl _ \<Rightarrow> None
      | Inr (network, len) \<Rightarrow>
         if network = 0 \<or> network = GLOBAL_NETWORK \<or> len = 0 then None
         else if unat len > MAX_MAC_LEN then None
         else (case octets_at frame (at + 3) len of Inl _ \<Rightarrow> None
               | Inr m \<Rightarrow> Some \<lparr>ad_network = network, ad_mac = m\<rparr>))"

definition decode_destination :: "octets \<Rightarrow> octet \<Rightarrow> nat \<Rightarrow> decode_error + (address option \<times> nat)" where
  "decode_destination frame control at =
     (if control AND DESTINATION = 0 then Inr (None, at)
      else try_res (map_err Malformed (network_and_length frame at)) (\<lambda>(network, len).
        if network = 0 then Inl (Malformed ReservedNetwork)
        else let at = at + 3 in
          if unat len > MAX_MAC_LEN
          then Inl (AddressTooLong DestinationField len (Some network)
                     (if control AND SOURCE \<noteq> 0 then source_behind frame (at + unat len) else None))
          else try_res (map_err Malformed (octets_at frame at len)) (\<lambda>m.
            Inr (Some \<lparr>ad_network = network, ad_mac = m\<rparr>, at + length m))))"

definition decode_source ::
  "octets \<Rightarrow> octet \<Rightarrow> address option \<Rightarrow> nat \<Rightarrow> decode_error + (address option \<times> nat)" where
  "decode_source frame control destination at =
     (if control AND SOURCE = 0 then Inr (None, at)
      else try_res (map_err Malformed (network_and_length frame at)) (\<lambda>(network, len).
        if network = 0 \<or> network = GLOBAL_NETWORK then Inl (Malformed ReservedNetwork)
        else let at = at + 3 in
          if len = 0 then Inl (Malformed EmptySource)
          else if unat len > MAX_MAC_LEN
          then Inl (AddressTooLong SourceField len (map_option ad_network destination) None)
          else try_res (map_err Malformed (octets_at frame at len)) (\<lambda>m.
            Inr (Some \<lparr>ad_network = network, ad_mac = m\<rparr>, at + length m))))"

definition decode_hop_count ::
  "octets \<Rightarrow> address option \<Rightarrow> nat \<Rightarrow> decode_error + (octet \<times> nat)" where
  "decode_hop_count frame destination at =
     (if destination = None then Inr (255, at)
      else try_res (ok_or (Malformed Truncated) (get_at frame at)) (\<lambda>h. Inr (h, at + 1)))"

definition decode_message ::
  "octets \<Rightarrow> octet \<Rightarrow> nat \<Rightarrow>
   decode_error + (network_message_type option \<times> u16 option \<times> nat)" where
  "decode_message frame control at =
     (if control AND NETWORK_MESSAGE = 0 then Inr (None, None, at)
      else try_res (ok_or (Malformed Truncated) (get_at frame at)) (\<lambda>raw.
        let kind = NetworkMessageType raw; at = at + 1 in
        if nmt_is_proprietary kind
        then try_res (map_err Malformed (octets_at frame at 2)) (\<lambda>vendor.
          Inr (Some kind, Some (u16_be (vendor ! 0) (vendor ! 1)), at + 2))
        else Inr (Some kind, None, at)))"

definition npdu_decode :: "octets \<Rightarrow> decode_error + npdu" where
  "npdu_decode frame =
     (case frame of version # control # _ \<Rightarrow>
        if version \<noteq> VERSION then Inl (Malformed Version)
        else try_res (decode_destination frame control 2) (\<lambda>(destination, at).
          try_res (decode_source frame control destination at) (\<lambda>(source, at).
            try_res (decode_hop_count frame destination at) (\<lambda>(hop_count, at).
              try_res (decode_message frame control at) (\<lambda>(message_type, vendor_id, at).
                Inr \<lparr>np_expecting_reply = (control AND EXPECTING_REPLY \<noteq> 0),
                     np_priority = from_control control,
                     np_destination = destination, np_source = source,
                     np_hop_count = hop_count, np_message_type = message_type,
                     np_vendor_id = vendor_id, np_payload = drop at frame,
                     np_payload_offset = at\<rparr>))))
      | _ \<Rightarrow> Inl (Malformed Truncated))"

section \<open>The encoder\<close>

datatype encode_error =
    NoRoom nat nat
  | EncReservedNetwork
  | EncEmptySource
  | EncAddressTooLong

definition address_len :: "address option \<Rightarrow> nat" where
  "address_len a = (case a of None \<Rightarrow> 0 | Some a \<Rightarrow> 3 + length (ad_mac a))"

definition encoded_len :: "npdu \<Rightarrow> nat" where
  "encoded_len n =
     2 + address_len (np_destination n) + address_len (np_source n)
       + of_bool (np_destination n \<noteq> None)
       + (case np_message_type n of Some kind \<Rightarrow> if nmt_is_proprietary kind then 3 else 1
          | None \<Rightarrow> 0)
       + length (np_payload n)"

record cursor =
  cu_out :: octets
  cu_at :: nat

definition cursor_put :: "octets \<Rightarrow> cursor \<Rightarrow> cursor" where
  "cursor_put xs c = \<lparr>cu_out = copy_into (cu_out c) (cu_at c) xs, cu_at = cu_at c + length xs\<rparr>"

definition put_address :: "address \<Rightarrow> cursor \<Rightarrow> cursor" where
  "put_address a c =
     cursor_put (ad_mac a)
       (cursor_put [of_nat (length (ad_mac a))]
         (cursor_put (u16_to_be (ad_network a)) c))"

definition check_addresses :: "npdu \<Rightarrow> encode_error + unit" where
  "check_addresses n =
     try_res
       (case np_destination n of None \<Rightarrow> Inr ()
        | Some d \<Rightarrow>
            if ad_network d = 0 then Inl EncReservedNetwork
            else if length (ad_mac d) > MAX_MAC_LEN then Inl EncAddressTooLong
            else Inr ())
       (\<lambda>_. case np_source n of None \<Rightarrow> Inr ()
        | Some s \<Rightarrow>
            if ad_network s = 0 \<or> ad_network s = GLOBAL_NETWORK then Inl EncReservedNetwork
            else if ad_mac s = [] then Inl EncEmptySource
            else if length (ad_mac s) > MAX_MAC_LEN then Inl EncAddressTooLong
            else Inr ())"

definition control_octet :: "npdu \<Rightarrow> octet" where
  "control_octet n =
     (let control = priority_to_raw (np_priority n);
          control = (if np_message_type n \<noteq> None then control OR NETWORK_MESSAGE else control);
          control = (if np_destination n \<noteq> None then control OR DESTINATION else control);
          control = (if np_source n \<noteq> None then control OR SOURCE else control)
      in if np_expecting_reply n then control OR EXPECTING_REPLY else control)"

definition put_npdu :: "npdu \<Rightarrow> cursor \<Rightarrow> cursor" where
  "put_npdu n c =
     (let c = cursor_put [VERSION, control_octet n] c;
          c = (case np_destination n of None \<Rightarrow> c | Some d \<Rightarrow> put_address d c);
          c = (case np_source n of None \<Rightarrow> c | Some s \<Rightarrow> put_address s c);
          c = (if np_destination n \<noteq> None then cursor_put [np_hop_count n] c else c);
          c = (case np_message_type n of None \<Rightarrow> c
               | Some kind \<Rightarrow>
                   let c = cursor_put [nmt_to_raw kind] c in
                   if nmt_is_proprietary kind
                   then cursor_put (u16_to_be (case np_vendor_id n of None \<Rightarrow> 0 | Some v \<Rightarrow> v)) c
                   else c)
      in cursor_put (np_payload n) c)"

text \<open>
  The buffer as the call leaves it, and the result. The cursor writes in the first
  \<open>needed\<close> octets; the rest of the buffer is not touched.
\<close>

definition npdu_encode_into :: "npdu \<Rightarrow> octets \<Rightarrow> octets \<times> (encode_error + nat)" where
  "npdu_encode_into n out =
     (case check_addresses n of Inl e \<Rightarrow> (out, Inl e)
      | Inr _ \<Rightarrow>
         let needed = encoded_len n; available = length out in
         if needed > available then (out, Inl (NoRoom needed available))
         else (cu_out (put_npdu n \<lparr>cu_out = take needed out, cu_at = 0\<rparr>) @ drop needed out,
               Inr needed))"

section \<open>Reject-Message-To-Network\<close>

record reject_message_to_network =
  rj_reason :: reject_message_reason
  rj_network :: u16

definition REJECT_LEN :: nat where "REJECT_LEN = 3"

datatype reject_length_error = RejectLengthError nat

definition reject_decode :: "octets \<Rightarrow> reject_length_error + reject_message_to_network" where
  "reject_decode payload =
     (case payload of
        [reason, high, low] \<Rightarrow>
          Inr \<lparr>rj_reason = RejectMessageReason reason, rj_network = u16_be high low\<rparr>
      | _ \<Rightarrow> Inl (RejectLengthError (length payload)))"

definition reject_to_bytes :: "reject_message_to_network \<Rightarrow> octets" where
  "reject_to_bytes r = rmr_to_raw (rj_reason r) # u16_to_be (rj_network r)"

section \<open>What the decoder's parts accept\<close>

text \<open>The octets the encoder writes for each part, as lists.\<close>

definition address_octets :: "address \<Rightarrow> octets" where
  "address_octets a = u16_to_be (ad_network a) @ of_nat (length (ad_mac a)) # ad_mac a"

definition opt_address_octets :: "address option \<Rightarrow> octets" where
  "opt_address_octets a = (case a of None \<Rightarrow> [] | Some a \<Rightarrow> address_octets a)"

definition hop_octets :: "npdu \<Rightarrow> octets" where
  "hop_octets n = (if np_destination n = None then [] else [np_hop_count n])"

definition message_octets :: "network_message_type option \<Rightarrow> u16 option \<Rightarrow> octets" where
  "message_octets t v = (case t of None \<Rightarrow> []
     | Some kind \<Rightarrow> nmt_to_raw kind #
         (if nmt_is_proprietary kind then u16_to_be (case v of None \<Rightarrow> 0 | Some v \<Rightarrow> v) else []))"

definition npdu_body :: "npdu \<Rightarrow> octets" where
  "npdu_body n = opt_address_octets (np_destination n) @ opt_address_octets (np_source n)
     @ hop_octets n @ message_octets (np_message_type n) (np_vendor_id n) @ np_payload n"

definition npdu_octets :: "npdu \<Rightarrow> octets" where
  "npdu_octets n = VERSION # control_octet n # npdu_body n"

definition destination_ok :: "address option \<Rightarrow> bool" where
  "destination_ok a = (case a of None \<Rightarrow> True
     | Some d \<Rightarrow> ad_network d \<noteq> 0 \<and> length (ad_mac d) \<le> MAX_MAC_LEN)"

definition source_ok :: "address option \<Rightarrow> bool" where
  "source_ok a = (case a of None \<Rightarrow> True
     | Some s \<Rightarrow> ad_network s \<noteq> 0 \<and> ad_network s \<noteq> GLOBAL_NETWORK
         \<and> ad_mac s \<noteq> [] \<and> length (ad_mac s) \<le> MAX_MAC_LEN)"

lemma octets_at_iff:
  assumes "at \<le> length frame"
  shows "octets_at frame at len = Inr xs
           \<longleftrightarrow> (\<exists>rest. drop at frame = xs @ rest) \<and> length xs = unat len"
proof
  assume "octets_at frame at len = Inr xs"
  then have "at + unat len \<le> length frame" "xs = take (unat len) (drop at frame)"
    by (auto simp: octets_at_def get_range_def subslice_def split: if_splits)
  then show "(\<exists>rest. drop at frame = xs @ rest) \<and> length xs = unat len"
    by (metis append_take_drop_id length_take length_drop le_diff_conv2 add.commute assms min.absorb2)
next
  assume "(\<exists>rest. drop at frame = xs @ rest) \<and> length xs = unat len"
  then obtain rest where r: "drop at frame = xs @ rest" "length xs = unat len" by blast
  from r(1) have "length frame - at = length xs + length rest"
    by (metis length_append length_drop)
  with r assms show "octets_at frame at len = Inr xs"
    by (auto simp: octets_at_def get_range_def subslice_def)
qed

lemma list_length_3: "length xs = 3 \<longleftrightarrow> (\<exists>a b c. xs = [a, b, c])"
  by (auto simp: numeral_3_eq_3 length_Suc_conv)

lemma list_length_2: "length xs = 2 \<longleftrightarrow> (\<exists>a b. xs = [a, b])"
  by (auto simp: numeral_2_eq_2 length_Suc_conv)

lemma network_and_length_iff:
  assumes "at \<le> length frame"
  shows "network_and_length frame at = Inr (network, len)
           \<longleftrightarrow> (\<exists>rest. drop at frame = u16_to_be network @ len # rest)"
proof
  assume "network_and_length frame at = Inr (network, len)"
  then obtain xs where xs: "octets_at frame at 3 = Inr xs"
      "(case xs of [h, l, n] \<Rightarrow> Inr (u16_be h l, n) | _ \<Rightarrow> Inl Truncated) = Inr (network, len)"
    by (auto simp: network_and_length_def try_res_eq_Inr)
  then obtain rest where rest: "drop at frame = xs @ rest" "length xs = 3"
    using octets_at_iff [OF assms] by fastforce
  then obtain h l n where "xs = [h, l, n]" by (auto simp: list_length_3)
  with xs(2) rest(1) show "\<exists>rest. drop at frame = u16_to_be network @ len # rest" by auto
next
  assume "\<exists>rest. drop at frame = u16_to_be network @ len # rest"
  then obtain rest where "drop at frame = (u16_to_be network @ [len]) @ rest" by auto
  then have "octets_at frame at 3 = Inr (u16_to_be network @ [len])"
    using octets_at_iff [OF assms, of 3] by auto
  then show "network_and_length frame at = Inr (network, len)"
    by (simp add: network_and_length_def u16_to_be_def)
qed

lemma drop_more: "drop at xs = ys @ zs \<Longrightarrow> drop (at + length ys) xs = zs"
  by (metis append_eq_conv_conj drop_drop add.commute)

lemma drop_within: "drop at xs = ys @ zs \<Longrightarrow> at \<le> length xs \<Longrightarrow> at + length ys \<le> length xs"
  by (metis length_append length_drop le_add1 le_diff_conv2 add.commute)

lemma length_address_octets [simp]: "length (address_octets a) = 3 + length (ad_mac a)"
  by (simp add: address_octets_def)

text \<open>Reading a network number, a length and that many octets is reading an address.\<close>

lemma address_at_iff:
  assumes "at \<le> length frame"
  shows "(\<exists>len. network_and_length frame at = Inr (network, len)
            \<and> octets_at frame (at + 3) len = Inr m \<and> P len)
         \<longleftrightarrow> (\<exists>rest. drop at frame = address_octets \<lparr>ad_network = network, ad_mac = m\<rparr> @ rest)
             \<and> length m < 256 \<and> P (of_nat (length m))"
proof
  assume "\<exists>len. network_and_length frame at = Inr (network, len)
            \<and> octets_at frame (at + 3) len = Inr m \<and> P len"
  then obtain len where len: "network_and_length frame at = Inr (network, len)"
      "octets_at frame (at + 3) len = Inr m" "P len" by blast
  then obtain rest where r: "drop at frame = (u16_to_be network @ [len]) @ rest"
    using network_and_length_iff [OF assms] by auto
  from drop_more [OF r] drop_within [OF r assms]
  have d: "drop (at + 3) frame = rest" "at + 3 \<le> length frame" by auto
  from len(2) d obtain rest' where "rest = m @ rest'" "length m = unat len"
    using octets_at_iff [OF d(2)] by auto
  then show "(\<exists>rest. drop at frame = address_octets \<lparr>ad_network = network, ad_mac = m\<rparr> @ rest)
             \<and> length m < 256 \<and> P (of_nat (length m))"
    using r len(3) by (auto simp: address_octets_def)
next
  assume a: "(\<exists>rest. drop at frame = address_octets \<lparr>ad_network = network, ad_mac = m\<rparr> @ rest)
             \<and> length m < 256 \<and> P (of_nat (length m))"
  then obtain rest where r: "drop at frame = (u16_to_be network @ [of_nat (length m)]) @ m @ rest"
    by (auto simp: address_octets_def)
  from drop_more [OF r] drop_within [OF r assms]
  have d: "drop (at + 3) frame = m @ rest" "at + 3 \<le> length frame" by auto
  have "octets_at frame (at + 3) (of_nat (length m)) = Inr m"
    using octets_at_iff [OF d(2)] d(1) a by auto
  moreover have "network_and_length frame at = Inr (network, of_nat (length m))"
    using network_and_length_iff [OF assms] r by auto
  ultimately show "\<exists>len. network_and_length frame at = Inr (network, len)
            \<and> octets_at frame (at + 3) len = Inr m \<and> P len" using a by blast
qed

lemma decode_destination_iff:
  assumes "at \<le> length frame"
  shows "decode_destination frame control at = Inr (d, at') \<longleftrightarrow>
           (d = None \<longleftrightarrow> control AND DESTINATION = 0) \<and> destination_ok d
         \<and> (\<exists>rest. drop at frame = opt_address_octets d @ rest)
         \<and> at' = at + length (opt_address_octets d)"
proof (cases d)
  case None
  then show ?thesis
    by (auto simp: decode_destination_def try_res_eq_Inr destination_ok_def opt_address_octets_def
        Let_def split: if_splits)
next
  case (Some a)
  let ?P = "\<lambda>len :: octet. unat len \<le> MAX_MAC_LEN \<and> ad_network a \<noteq> 0"
  have "decode_destination frame control at = Inr (Some a, at') \<longleftrightarrow>
     control AND DESTINATION \<noteq> 0 \<and> at' = at + 3 + length (ad_mac a)
     \<and> (\<exists>len. network_and_length frame at = Inr (ad_network a, len)
            \<and> octets_at frame (at + 3) len = Inr (ad_mac a) \<and> ?P len)"
    by (cases a; cases "network_and_length frame at"; cases "octets_at frame (at + 3) (snd (projr (network_and_length frame at)))")
       (auto simp: decode_destination_def Let_def not_le split: if_splits)
  also have "\<dots> \<longleftrightarrow> control AND DESTINATION \<noteq> 0 \<and> at' = at + 3 + length (ad_mac a)
     \<and> (\<exists>rest. drop at frame = address_octets a @ rest) \<and> length (ad_mac a) < 256
     \<and> ?P (of_nat (length (ad_mac a)))"
    by (subst address_at_iff [OF assms]) (cases a, simp)
  finally show ?thesis using Some
    by (auto simp: destination_ok_def opt_address_octets_def MAX_MAC_LEN_def)
qed

lemma decode_source_iff:
  assumes "at \<le> length frame"
  shows "decode_source frame control d at = Inr (s, at') \<longleftrightarrow>
           (s = None \<longleftrightarrow> control AND SOURCE = 0) \<and> source_ok s
         \<and> (\<exists>rest. drop at frame = opt_address_octets s @ rest)
         \<and> at' = at + length (opt_address_octets s)"
proof (cases s)
  case None
  then show ?thesis
    by (auto simp: decode_source_def try_res_eq_Inr source_ok_def opt_address_octets_def
        Let_def split: if_splits)
next
  case (Some a)
  let ?P = "\<lambda>len :: octet. unat len \<le> MAX_MAC_LEN \<and> len \<noteq> 0
       \<and> ad_network a \<noteq> 0 \<and> ad_network a \<noteq> GLOBAL_NETWORK"
  have "decode_source frame control d at = Inr (Some a, at') \<longleftrightarrow>
     control AND SOURCE \<noteq> 0 \<and> at' = at + 3 + length (ad_mac a)
     \<and> (\<exists>len. network_and_length frame at = Inr (ad_network a, len)
            \<and> octets_at frame (at + 3) len = Inr (ad_mac a) \<and> ?P len)"
    by (cases a; cases "network_and_length frame at"; cases "octets_at frame (at + 3) (snd (projr (network_and_length frame at)))")
       (auto simp: decode_source_def Let_def not_le split: if_splits)
  also have "\<dots> \<longleftrightarrow> control AND SOURCE \<noteq> 0 \<and> at' = at + 3 + length (ad_mac a)
     \<and> (\<exists>rest. drop at frame = address_octets a @ rest) \<and> length (ad_mac a) < 256
     \<and> ?P (of_nat (length (ad_mac a)))"
    by (subst address_at_iff [OF assms]) (cases a, simp)
  also have "\<dots> \<longleftrightarrow> control AND SOURCE \<noteq> 0 \<and> at' = at + 3 + length (ad_mac a)
     \<and> (\<exists>rest. drop at frame = address_octets a @ rest) \<and> source_ok (Some a)"
    by (auto simp: source_ok_def MAX_MAC_LEN_def unat_eq_0 [symmetric] unat_octet_of_nat)
  finally show ?thesis using Some by (auto simp: opt_address_octets_def)
qed

lemma get_at_drop: "at \<le> length xs \<Longrightarrow> get_at xs at = Some x \<longleftrightarrow> (\<exists>rest. drop at xs = x # rest)"
  by (auto simp: get_at_def Cons_nth_drop_Suc [symmetric])

lemma decode_hop_count_iff:
  assumes "at \<le> length frame"
  shows "decode_hop_count frame d at = Inr (h, at') \<longleftrightarrow>
          (if d = None then h = 255 \<and> at' = at
           else (\<exists>rest. drop at frame = h # rest) \<and> at' = at + 1)"
  by (auto simp: decode_hop_count_def try_res_eq_Inr get_at_drop [OF assms])

text \<open>A vendor ID is there exactly for a proprietary message type.\<close>

definition vendor_ok :: "network_message_type option \<Rightarrow> u16 option \<Rightarrow> bool" where
  "vendor_ok t v \<longleftrightarrow> (v \<noteq> None \<longleftrightarrow> (case t of None \<Rightarrow> False | Some kind \<Rightarrow> nmt_is_proprietary kind))"

lemma u16_at_iff:
  assumes "at \<le> length frame"
  shows "(\<exists>xs. octets_at frame at 2 = Inr xs \<and> w = u16_be (xs ! 0) (xs ! 1))
           \<longleftrightarrow> (\<exists>rest. drop at frame = u16_to_be w @ rest)"
proof
  assume "\<exists>xs. octets_at frame at 2 = Inr xs \<and> w = u16_be (xs ! 0) (xs ! 1)"
  then obtain xs where "octets_at frame at 2 = Inr xs" "w = u16_be (xs ! 0) (xs ! 1)" by blast
  then show "\<exists>rest. drop at frame = u16_to_be w @ rest"
    using octets_at_iff [OF assms, of 2] by (auto simp: list_length_2)
next
  assume "\<exists>rest. drop at frame = u16_to_be w @ rest"
  then have "octets_at frame at 2 = Inr (u16_to_be w)"
    using octets_at_iff [OF assms, of 2] by auto
  then show "\<exists>xs. octets_at frame at 2 = Inr xs \<and> w = u16_be (xs ! 0) (xs ! 1)"
    by (intro exI [of _ "u16_to_be w"]) (simp add: u16_to_be_def)
qed

lemma decode_message_iff:
  assumes "at \<le> length frame"
  shows "decode_message frame control at = Inr (t, v, at') \<longleftrightarrow>
           (t = None \<longleftrightarrow> control AND NETWORK_MESSAGE = 0) \<and> vendor_ok t v
         \<and> (\<exists>rest. drop at frame = message_octets t v @ rest)
         \<and> at' = at + length (message_octets t v)"
proof (cases t)
  case None
  then show ?thesis
    by (auto simp: decode_message_def try_res_eq_Inr vendor_ok_def message_octets_def Let_def
        split: if_splits)
next
  case (Some kind)
  show ?thesis
  proof (cases "nmt_is_proprietary kind")
    case True
    have next_at: "at + 1 \<le> length frame" "drop (at + 1) frame = ys" if "drop at frame = x # ys" for x ys
      using drop_more [of at frame "[x]" ys] drop_within [of at frame "[x]" ys] assms that by simp_all
    have "decode_message frame control at = Inr (t, v, at') \<longleftrightarrow>
       control AND NETWORK_MESSAGE \<noteq> 0 \<and> at' = at + 3 \<and> (\<exists>w. v = Some w
       \<and> (\<exists>ys. drop at frame = nmt_to_raw kind # ys
          \<and> (\<exists>xs. octets_at frame (at + 1) 2 = Inr xs \<and> w = u16_be (xs ! 0) (xs ! 1))))"
      using Some True
      by (cases kind) (auto simp: decode_message_def try_res_eq_Inr get_at_drop [OF assms] Let_def
          split: if_splits)
    also have "\<dots> \<longleftrightarrow> control AND NETWORK_MESSAGE \<noteq> 0 \<and> at' = at + 3
       \<and> (\<exists>w. v = Some w \<and> (\<exists>rest. drop at frame = nmt_to_raw kind # u16_to_be w @ rest))"
      using u16_at_iff next_at by (metis (no_types, lifting))
    finally show ?thesis using Some True
      by (auto simp: vendor_ok_def message_octets_def)
  next
    case False
    then show ?thesis using Some
      by (cases kind) (auto simp: decode_message_def try_res_eq_Inr get_at_drop [OF assms] Let_def
          vendor_ok_def message_octets_def split: if_splits)
  qed
qed

section \<open>The control octet\<close>

lemma octet_eqI:
  "(bit x 0 \<longleftrightarrow> bit y 0) \<Longrightarrow> (bit x 1 \<longleftrightarrow> bit y 1) \<Longrightarrow> (bit x 2 \<longleftrightarrow> bit y 2) \<Longrightarrow> (bit x 3 \<longleftrightarrow> bit y 3) \<Longrightarrow>
   (bit x 4 \<longleftrightarrow> bit y 4) \<Longrightarrow> (bit x 5 \<longleftrightarrow> bit y 5) \<Longrightarrow> (bit x 6 \<longleftrightarrow> bit y 6) \<Longrightarrow> (bit x 7 \<longleftrightarrow> bit y 7) \<Longrightarrow>
   x = (y :: octet)"
proof (rule bit_word_eqI)
  fix n
  assume *: "bit x 0 \<longleftrightarrow> bit y 0" "bit x 1 \<longleftrightarrow> bit y 1" "bit x 2 \<longleftrightarrow> bit y 2" "bit x 3 \<longleftrightarrow> bit y 3"
    "bit x 4 \<longleftrightarrow> bit y 4" "bit x 5 \<longleftrightarrow> bit y 5" "bit x 6 \<longleftrightarrow> bit y 6" "bit x 7 \<longleftrightarrow> bit y 7"
  assume "n < LENGTH(8)"
  then have "n \<in> {0, 1, 2, 3, 4, 5, 6, 7}" by auto
  then show "bit x n = bit y n" using * by auto
qed

lemma octet_bit_mask:
  "(x :: octet) AND 0x80 = 0 \<longleftrightarrow> \<not> bit x 7" "x AND 0x20 = 0 \<longleftrightarrow> \<not> bit x 5"
  "x AND 0x08 = 0 \<longleftrightarrow> \<not> bit x 3" "x AND 0x04 = 0 \<longleftrightarrow> \<not> bit x 2"
  by (auto simp: bit_and_iff intro!: octet_eqI dest: arg_cong [of _ _ "\<lambda>w. bit w 7"]
      arg_cong [of _ _ "\<lambda>w. bit w 5"] arg_cong [of _ _ "\<lambda>w. bit w 3"] arg_cong [of _ _ "\<lambda>w. bit w 2"])

lemma priority_bits:
  "\<not> bit (priority_to_raw p) 2" "\<not> bit (priority_to_raw p) 3" "\<not> bit (priority_to_raw p) 4"
  "\<not> bit (priority_to_raw p) 5" "\<not> bit (priority_to_raw p) 6" "\<not> bit (priority_to_raw p) 7"
  by (cases p; simp)+

lemma from_control_raw: "priority_to_raw (from_control c) = c AND 3"
proof -
  have "c AND 3 \<in> {0, 1, 2, 3}"
    by (cases "bit c 0"; cases "bit c 1")
       (auto simp: bit_and_iff intro: octet_eqI)
  then show ?thesis by (auto simp: from_control_def Let_def)
qed

lemma from_control_to_raw: "from_control (priority_to_raw p) = p"
  by (cases p) (simp_all add: from_control_def)

lemma from_control_eq: "from_control c = p \<longleftrightarrow> c AND 3 = priority_to_raw p"
proof
  show "from_control c = p \<Longrightarrow> c AND 3 = priority_to_raw p" using from_control_raw [of c] by simp
  have "from_control (c AND 3) = from_control c" by (simp add: from_control_def and.assoc)
  then show "c AND 3 = priority_to_raw p \<Longrightarrow> from_control c = p"
    using from_control_to_raw by metis
qed

lemmas control_masks = NETWORK_MESSAGE_def DESTINATION_def SOURCE_def EXPECTING_REPLY_def

text \<open>The fields are those of a control octet exactly when it is theirs, reserved bits apart.\<close>

lemma control_octet_iff:
  "control_octet n = c AND 0xAF \<longleftrightarrow>
     (np_message_type n = None \<longleftrightarrow> c AND NETWORK_MESSAGE = 0)
   \<and> (np_destination n = None \<longleftrightarrow> c AND DESTINATION = 0)
   \<and> (np_source n = None \<longleftrightarrow> c AND SOURCE = 0)
   \<and> np_expecting_reply n = (c AND EXPECTING_REPLY \<noteq> 0)
   \<and> np_priority n = from_control c"
  (is "?l \<longleftrightarrow> ?r")
proof -
  have bits: "bit (control_octet n) 7 \<longleftrightarrow> np_message_type n \<noteq> None"
    "bit (control_octet n) 5 \<longleftrightarrow> np_destination n \<noteq> None"
    "bit (control_octet n) 3 \<longleftrightarrow> np_source n \<noteq> None"
    "bit (control_octet n) 2 \<longleftrightarrow> np_expecting_reply n"
    "\<not> bit (control_octet n) 4" "\<not> bit (control_octet n) 6"
    "bit (control_octet n) 0 \<longleftrightarrow> bit (priority_to_raw (np_priority n)) 0"
    "bit (control_octet n) 1 \<longleftrightarrow> bit (priority_to_raw (np_priority n)) 1"
    by (auto simp: control_octet_def Let_def control_masks bit_or_iff priority_bits)
  have r: "?r \<longleftrightarrow> (np_message_type n \<noteq> None \<longleftrightarrow> bit c 7) \<and> (np_destination n \<noteq> None \<longleftrightarrow> bit c 5)
     \<and> (np_source n \<noteq> None \<longleftrightarrow> bit c 3) \<and> (np_expecting_reply n \<longleftrightarrow> bit c 2)
     \<and> c AND 3 = priority_to_raw (np_priority n)"
    unfolding control_masks octet_bit_mask from_control_eq [of c, symmetric] by auto
  have p: "c AND 3 = priority_to_raw p \<longleftrightarrow>
      (bit c 0 \<longleftrightarrow> bit (priority_to_raw p) 0) \<and> (bit c 1 \<longleftrightarrow> bit (priority_to_raw p) 1)" for p
    by (auto intro!: octet_eqI simp: bit_and_iff priority_bits
        dest: arg_cong [of _ _ "\<lambda>w. bit w 0"] arg_cong [of _ _ "\<lambda>w. bit w 1"])
  have "?l \<longleftrightarrow> (\<forall>i \<in> {0, 1, 2, 3, 4, 5, 6, 7}. bit (control_octet n) i = bit (c AND 0xAF) i)"
    by (auto intro: octet_eqI)
  also have "\<dots> \<longleftrightarrow> (np_message_type n \<noteq> None \<longleftrightarrow> bit c 7) \<and> (np_destination n \<noteq> None \<longleftrightarrow> bit c 5)
     \<and> (np_source n \<noteq> None \<longleftrightarrow> bit c 3) \<and> (np_expecting_reply n \<longleftrightarrow> bit c 2)
     \<and> c AND 3 = priority_to_raw (np_priority n)"
    unfolding p by (simp add: bits bit_and_iff del: bit_0 One_nat_def) (auto simp: bits)
  finally show ?thesis unfolding r .
qed

section \<open>What the decoder and the encoder compute\<close>

text \<open>
  An NPDU as the decoder returns it: addresses a decoder accepts, the vendor ID exactly with
  a proprietary type, the hop count 255 without a destination, the payload behind the rest.
\<close>

definition npdu_ok :: "npdu \<Rightarrow> bool" where
  "npdu_ok n \<longleftrightarrow> destination_ok (np_destination n) \<and> source_ok (np_source n)"

definition npdu_canonical :: "npdu \<Rightarrow> bool" where
  "npdu_canonical n \<longleftrightarrow> npdu_ok n
     \<and> vendor_ok (np_message_type n) (np_vendor_id n)
     \<and> (np_destination n = None \<longrightarrow> np_hop_count n = 255)
     \<and> np_payload_offset n + length (np_payload n) = length (npdu_octets n)"

text \<open>The canonical form of any NPDU: the fields its encoding carries.\<close>

definition canonical :: "npdu \<Rightarrow> npdu" where
  "canonical n = n\<lparr>
     np_hop_count := if np_destination n = None then 255 else np_hop_count n,
     np_vendor_id := (case np_message_type n of None \<Rightarrow> None
       | Some kind \<Rightarrow> if nmt_is_proprietary kind
           then Some (case np_vendor_id n of None \<Rightarrow> 0 | Some v \<Rightarrow> v) else None),
     np_payload_offset := encoded_len n - length (np_payload n)\<rparr>"

lemma length_opt_address [simp]: "length (opt_address_octets a) = address_len a"
  by (simp add: opt_address_octets_def address_len_def split: option.splits)

lemma length_npdu_octets: "length (npdu_octets n) = encoded_len n"
  by (auto simp: npdu_octets_def npdu_body_def encoded_len_def hop_octets_def message_octets_def
      split: option.splits)

lemma npdu_decode_imp:
  assumes "npdu_decode frame = Inr n"
  shows "\<exists>c. frame = VERSION # c # npdu_body n \<and> control_octet n = c AND 0xAF \<and> npdu_canonical n"
proof -
  from assms obtain c rest0 d a1 s a2 h a3 t v a4 where frame: "frame = VERSION # c # rest0"
    and d: "decode_destination frame c 2 = Inr (d, a1)"
    and s: "decode_source frame c d a1 = Inr (s, a2)"
    and h: "decode_hop_count frame d a2 = Inr (h, a3)"
    and m: "decode_message frame c a3 = Inr (t, v, a4)"
    and n: "n = \<lparr>np_expecting_reply = (c AND EXPECTING_REPLY \<noteq> 0), np_priority = from_control c,
        np_destination = d, np_source = s, np_hop_count = h, np_message_type = t,
        np_vendor_id = v, np_payload = drop a4 frame, np_payload_offset = a4\<rparr>"
    by (auto simp: npdu_decode_def try_res_eq_Inr split: list.splits if_splits)
  have 1: "2 \<le> length frame" using frame by simp
  note dd = d [unfolded decode_destination_iff [OF 1]]
  then obtain r1 where r1: "drop 2 frame = opt_address_octets d @ r1" and a1: "a1 = 2 + address_len d" by auto
  have 2: "drop a1 frame = r1" "a1 \<le> length frame"
    using drop_more [OF r1] drop_within [OF r1 1] a1 by simp_all
  note ss = s [unfolded decode_source_iff [OF 2(2)]]
  then obtain r2 where r2: "r1 = opt_address_octets s @ r2" and a2: "a2 = a1 + address_len s"
    using 2(1) by auto
  have 3: "drop a2 frame = r2" "a2 \<le> length frame"
    using drop_more [of a1 frame _ r2] drop_within [of a1 frame _ r2] 2 r2 a2 by simp_all
  note hh = h [unfolded decode_hop_count_iff [OF 3(2)]]
  then obtain r3 where r3: "r2 = hop_octets n @ r3" and a3: "a3 = a2 + length (hop_octets n)"
    using 3(1) n by (auto simp: hop_octets_def split: if_splits)
  have 4: "drop a3 frame = r3" "a3 \<le> length frame"
    using drop_more [of a2 frame _ r3] drop_within [of a2 frame _ r3] 3 r3 a3 by simp_all
  note mm = m [unfolded decode_message_iff [OF 4(2)]]
  then obtain r4 where r4: "r3 = message_octets t v @ r4" and a4: "a4 = a3 + length (message_octets t v)"
    using 4(1) by auto
  have 5: "drop a4 frame = r4" "a4 \<le> length frame"
    using drop_more [of a3 frame _ r4] drop_within [of a3 frame _ r4] 4 r4 a4 by simp_all
  have body: "frame = VERSION # c # npdu_body n"
    using frame r1 r2 r3 r4 n 5 by (simp add: npdu_body_def)
  moreover have "control_octet n = c AND 0xAF"
    unfolding control_octet_iff using n dd ss mm by auto
  moreover have "npdu_canonical n"
  proof -
    have "np_payload_offset n + length (np_payload n) = length frame" using n 5(2) by simp
    also have "\<dots> = length (npdu_octets n)" using body by (simp add: npdu_octets_def)
    finally show ?thesis using n dd ss mm hh
      by (auto simp: npdu_canonical_def npdu_ok_def split: if_splits)
  qed
  ultimately show ?thesis by blast
qed

lemma npdu_decode_if:
  assumes can: "npdu_canonical n" and ctl: "control_octet n = c AND 0xAF"
  shows "npdu_decode (VERSION # c # npdu_body n) = Inr n"
proof -
  define frame where "frame = VERSION # c # npdu_body n"
  define a1 where "a1 = 2 + address_len (np_destination n)"
  define a2 where "a2 = a1 + address_len (np_source n)"
  define a3 where "a3 = a2 + length (hop_octets n)"
  define a4 where "a4 = a3 + length (message_octets (np_message_type n) (np_vendor_id n))"
  note can' = can [unfolded npdu_canonical_def npdu_ok_def] and ctl' = ctl [unfolded control_octet_iff]
  let ?m = "message_octets (np_message_type n) (np_vendor_id n)"
  have 1: "2 \<le> length frame" "drop 2 frame = npdu_body n" by (simp_all add: frame_def)
  have 2: "a1 \<le> length frame" "drop a1 frame = opt_address_octets (np_source n) @ hop_octets n @ ?m @ np_payload n"
    using drop_more [of 2 frame "opt_address_octets (np_destination n)"]
      drop_within [of 2 frame "opt_address_octets (np_destination n)"] 1
    by (simp_all add: npdu_body_def a1_def)
  have 3: "a2 \<le> length frame" "drop a2 frame = hop_octets n @ ?m @ np_payload n"
    using drop_more [OF 2(2)] drop_within [OF 2(2,1)] by (simp_all add: a2_def)
  have 4: "a3 \<le> length frame" "drop a3 frame = ?m @ np_payload n"
    using drop_more [OF 3(2)] drop_within [OF 3(2,1)] by (simp_all add: a3_def)
  have 5: "a4 \<le> length frame" "drop a4 frame = np_payload n"
    using drop_more [OF 4(2)] drop_within [OF 4(2,1)] by (simp_all add: a4_def)
  have "decode_destination frame c 2 = Inr (np_destination n, a1)"
    using can' ctl' 1 by (simp add: decode_destination_iff npdu_body_def a1_def)
  moreover have "decode_source frame c (np_destination n) a1 = Inr (np_source n, a2)"
    using can' ctl' 2 by (simp add: decode_source_iff a2_def)
  moreover have "decode_hop_count frame (np_destination n) a2 = Inr (np_hop_count n, a3)"
    using can' 3 by (auto simp: decode_hop_count_iff a3_def hop_octets_def)
  moreover have "decode_message frame c a3 = Inr (np_message_type n, np_vendor_id n, a4)"
    using can' ctl' 4 by (simp add: decode_message_iff a4_def)
  moreover have "np_payload_offset n = a4"
  proof -
    have "length frame = a4 + length (np_payload n)"
      using arg_cong [OF 5(2), of length] 5(1) by simp
    then show ?thesis using can' by (simp add: frame_def npdu_octets_def)
  qed
  ultimately have "npdu_decode frame = Inr \<lparr>np_expecting_reply = (c AND EXPECTING_REPLY \<noteq> 0),
      np_priority = from_control c, np_destination = np_destination n, np_source = np_source n,
      np_hop_count = np_hop_count n, np_message_type = np_message_type n,
      np_vendor_id = np_vendor_id n, np_payload = np_payload n, np_payload_offset = np_payload_offset n\<rparr>"
    using 5(2) by (simp add: npdu_decode_def frame_def)
  then show ?thesis using ctl' unfolding frame_def by (cases n) auto
qed

text \<open>The cursor after it has written \<open>pre\<close>, with \<open>rest\<close> of the buffer to go.\<close>

abbreviation cursor_after :: "octets \<Rightarrow> octets \<Rightarrow> cursor" where
  "cursor_after pre rest \<equiv> \<lparr>cu_out = pre @ rest, cu_at = length pre\<rparr>"

lemma cursor_put_after [codec]:
  "cursor_put xs (cursor_after pre rest) = cursor_after (pre @ xs) (drop (length xs) rest)"
  by (simp add: cursor_put_def copy_into_def)

lemma put_address_after [codec]:
  "put_address a (cursor_after pre rest)
     = cursor_after (pre @ address_octets a) (drop (length (address_octets a)) rest)"
  unfolding put_address_def cursor_put_after by (simp add: address_octets_def add.commute)

lemma put_npdu_after:
  "put_npdu n (cursor_after pre rest)
     = cursor_after (pre @ npdu_octets n) (drop (length (npdu_octets n)) rest)"
proof -
  have msg: "(case np_message_type n of None \<Rightarrow> cursor_after p r
        | Some kind \<Rightarrow> if nmt_is_proprietary kind
            then cursor_put (u16_to_be (case np_vendor_id n of None \<Rightarrow> 0 | Some v \<Rightarrow> v))
                   (cursor_put [nmt_to_raw kind] (cursor_after p r))
            else cursor_put [nmt_to_raw kind] (cursor_after p r))
      = cursor_after (p @ message_octets (np_message_type n) (np_vendor_id n))
          (drop (length (message_octets (np_message_type n) (np_vendor_id n))) r)" for p r
    unfolding cursor_put_after by (simp add: message_octets_def split: option.split)
  have adr: "(case a of None \<Rightarrow> cursor_after p r | Some d \<Rightarrow> put_address d (cursor_after p r))
      = cursor_after (p @ opt_address_octets a) (drop (address_len a) r)" for a p r
    unfolding put_address_after by (cases a) (simp_all add: opt_address_octets_def address_len_def)
  have hop: "(if np_destination n \<noteq> None then cursor_put [np_hop_count n] (cursor_after p r)
        else cursor_after p r)
      = cursor_after (p @ hop_octets n) (drop (length (hop_octets n)) r)" for p r
    unfolding cursor_put_after by (simp add: hop_octets_def)
  show ?thesis
    unfolding put_npdu_def Let_def cursor_put_after adr hop [unfolded cursor_put_after]
      msg [unfolded cursor_put_after] npdu_octets_def npdu_body_def
    by (simp add: ac_simps)
qed

lemma check_addresses_iff: "check_addresses n = Inr () \<longleftrightarrow> npdu_ok n"
  by (auto simp: check_addresses_def npdu_ok_def destination_ok_def source_ok_def
      try_res_eq_Inr split: option.splits if_splits)

lemma npdu_encode_ok:
  "npdu_ok n \<Longrightarrow> encoded_len n \<le> length out \<Longrightarrow>
     npdu_encode_into n out = (npdu_octets n @ drop (encoded_len n) out, Inr (encoded_len n))"
  using put_npdu_after [of n "[]" "take (encoded_len n) out"]
  by (simp add: npdu_encode_into_def check_addresses_iff [THEN iffD2] length_npdu_octets Let_def)

lemma npdu_encode_refused:
  "\<not> npdu_ok n \<Longrightarrow> \<exists>e. npdu_encode_into n out = (out, Inl e) \<and> check_addresses n = Inl e"
  using check_addresses_iff [of n]
  by (cases "check_addresses n") (auto simp: npdu_encode_into_def)

lemma npdu_encode_no_room:
  "npdu_ok n \<Longrightarrow> length out < encoded_len n \<Longrightarrow>
     npdu_encode_into n out = (out, Inl (NoRoom (encoded_len n) (length out)))"
  by (simp add: npdu_encode_into_def check_addresses_iff [THEN iffD2])

lemma npdu_encode_cases:
  obtains e where "npdu_encode_into n out = (out, Inl e)"
  | "npdu_ok n" "encoded_len n \<le> length out"
    "npdu_encode_into n out = (npdu_octets n @ drop (encoded_len n) out, Inr (encoded_len n))"
  by (metis leI npdu_encode_no_room npdu_encode_ok npdu_encode_refused)

lemma canonical_simps [simp]:
  "control_octet (canonical n) = control_octet n"
  "npdu_body (canonical n) = npdu_body n"
  "npdu_octets (canonical n) = npdu_octets n"
  by (simp_all add: canonical_def control_octet_def npdu_body_def npdu_octets_def hop_octets_def
      message_octets_def split: option.splits)

lemma npdu_canonical_canonical: "npdu_ok n \<Longrightarrow> npdu_canonical (canonical n)"
  unfolding npdu_canonical_def canonical_simps length_npdu_octets
  by (auto simp: canonical_def npdu_ok_def vendor_ok_def encoded_len_def split: option.split)

lemma control_octet_reserved: "control_octet n AND 0xAF = control_octet n"
proof -
  have "bit (control_octet n) 4 = False" "bit (control_octet n) 6 = False"
    by (simp_all add: control_octet_def Let_def control_masks bit_or_iff priority_bits)
  then show ?thesis by (intro octet_eqI) (auto simp: bit_and_iff)
qed

lemma npdu_decode_octets: "npdu_ok n \<Longrightarrow> npdu_decode (npdu_octets n) = Inr (canonical n)"
  using npdu_decode_if [OF npdu_canonical_canonical, of n "control_octet n"]
  by (simp add: npdu_octets_def control_octet_reserved)

section \<open>Properties\<close>

text \<open>
  C25: Whatever \<open>encode_into\<close> wrote decodes: the octets it reports hold an NPDU whose fields
  are those encoded, in canonical form (the hop count is 255 without a destination, the
  vendor ID is there exactly for a proprietary message type, 0 when none was given), and the
  rest of the buffer is as it was.
\<close>

theorem npdu_roundtrip:
  assumes "npdu_encode_into n out = (out', Inr k)"
  shows "npdu_decode (take k out') = Inr (canonical n) \<and> k = encoded_len n
       \<and> drop k out' = drop k out \<and> length out' = length out"
  using assms
  by (cases n out rule: npdu_encode_cases)
     (auto simp: npdu_decode_octets length_npdu_octets [symmetric])

text \<open>The example: a routed Who-Is to a remote network, from a node behind a router.\<close>

definition sample_npdu :: npdu where
  "sample_npdu = (npdu_apdu [0x10, 0x08])\<lparr>
     np_destination := Some \<lparr>ad_network = 0xFFFF, ad_mac = []\<rparr>,
     np_source := Some \<lparr>ad_network = 5, ad_mac = [0x07]\<rparr>, np_hop_count := 254\<rparr>"

lemma sample_npdu_encodes:
  "npdu_encode_into sample_npdu (replicate 16 0) =
     ([1, 0x28, 0xFF, 0xFF, 0, 0, 5, 1, 7, 254, 0x10, 8, 0, 0, 0, 0], Inr 12)"
  by code_simp

theorem npdu_roundtrip_witness:
  "npdu_decode (take 12 [1, 0x28, 0xFF, 0xFF, 0, 0, 5, 1, 7, 254, 0x10, 8, 0, 0, 0, 0])
     = Inr (canonical sample_npdu)"
  using npdu_roundtrip [OF sample_npdu_encodes] by blast

text \<open>
  A decoded NPDU encodes to the frame it came from, with the reserved bits of the control
  octet cleared: in a buffer of the frame's size the encoder succeeds and gives those octets.
\<close>

theorem npdu_decode_reencodes:
  assumes "npdu_decode frame = Inr n" and "length out = length frame"
  shows "npdu_encode_into n out = (frame[1 := frame ! 1 AND 0xAF], Inr (length frame))"
proof -
  from npdu_decode_imp [OF assms(1)] obtain c where
    c: "frame = VERSION # c # npdu_body n" "control_octet n = c AND 0xAF" "npdu_canonical n" by blast
  have "length frame = encoded_len n" using c(1) by (simp add: npdu_octets_def flip: length_npdu_octets)
  then show ?thesis using npdu_encode_ok [of n out] c assms(2)
    by (simp add: npdu_canonical_def npdu_octets_def)
qed

theorem npdu_decode_reencodes_witness:
  "\<exists>n. npdu_decode [1, 0x50, 0x10, 8] = Inr n
     \<and> npdu_encode_into n [0, 0, 0, 0] = ([1, 0, 0x10, 8], Inr 4)"
proof -
  have *: "npdu_decode [1, 0x50, 0x10, 8] = Inr ((npdu_apdu [0x10, 8])\<lparr>np_payload_offset := 2\<rparr>)"
    by code_simp
  then show ?thesis using npdu_decode_reencodes [OF *, of "[0, 0, 0, 0]"] by simp
qed

lemma decode_destination_too_long:
  "decode_destination frame c at = Inl (AddressTooLong field len dnet src) \<Longrightarrow>
     MAX_MAC_LEN < unat len \<and> field = DestinationField \<and> (\<exists>d. dnet = Some d \<and> d \<noteq> 0)
     \<and> (\<forall>a. src = Some a \<longrightarrow> source_behind frame (at + 3 + unat len) = Some a)"
  by (cases "network_and_length frame at"; cases "octets_at frame (at + 3) len")
     (auto simp: decode_destination_def try_res_eq_Inl map_err_def Let_def split: if_splits sum.splits)

lemma decode_source_too_long:
  "decode_source frame c d at = Inl (AddressTooLong field len dnet src) \<Longrightarrow>
     MAX_MAC_LEN < unat len \<and> field = SourceField \<and> src = None"
  by (cases "network_and_length frame at"; cases "octets_at frame (at + 3) len")
     (auto simp: decode_source_def try_res_eq_Inl map_err_def Let_def split: if_splits sum.splits)

lemma decode_rest_not_too_long [simp]:
  "decode_hop_count frame d at \<noteq> Inl (AddressTooLong field len dnet src)"
  "decode_message frame c at \<noteq> Inl (AddressTooLong field len dnet src)"
  by (auto simp: decode_hop_count_def decode_message_def try_res_eq_Inl map_err_def ok_or_def Let_def
      split: if_splits sum.splits option.splits)

text \<open>
  \<open>encode_into\<close> is total and all or nothing. It refuses an address no decoder accepts
  (naming the first fault, the destination's before the source's) and a buffer that is too
  short, and then leaves the buffer as it was; otherwise it writes exactly the NPDU's octets
  at the start of the buffer.
\<close>

theorem npdu_encode_into_outcomes:
  "npdu_encode_into n out =
     (if \<not> destination_ok (np_destination n)
      then (out, Inl (if map_option ad_network (np_destination n) = Some 0
                      then EncReservedNetwork else EncAddressTooLong))
      else if \<not> source_ok (np_source n)
      then (out, Inl (if map_option ad_network (np_source n) \<in> {Some 0, Some GLOBAL_NETWORK}
                      then EncReservedNetwork
                      else if map_option ad_mac (np_source n) = Some []
                      then EncEmptySource else EncAddressTooLong))
      else if length out < encoded_len n then (out, Inl (NoRoom (encoded_len n) (length out)))
      else (npdu_octets n @ drop (length (npdu_octets n)) out, Inr (length (npdu_octets n))))"
proof (cases "npdu_ok n")
  case True
  then show ?thesis using npdu_encode_ok [of n out] npdu_encode_no_room [of n out]
    by (auto simp: length_npdu_octets npdu_ok_def)
next
  case False
  then show ?thesis
    by (auto simp: npdu_encode_into_def check_addresses_def npdu_ok_def destination_ok_def
        source_ok_def Let_def split: option.splits)
qed

text \<open>
  The reject a router owes an over-long address goes to a real node. When the decoder
  reports an address too long, the length octet is past the limit; a too long DADR comes with
  its non-zero DNET; and the source handed out with it is a complete address the decoder
  would accept, lying right behind the DADR octets the frame announces.
\<close>

theorem npdu_too_long_source:
  assumes "npdu_decode frame = Inl (AddressTooLong field len dnet src)"
  shows "MAX_MAC_LEN < unat len
       \<and> (field = DestinationField \<longrightarrow> (\<exists>d. dnet = Some d \<and> d \<noteq> 0))
       \<and> (field = SourceField \<longrightarrow> src = None)
       \<and> (\<forall>a. src = Some a \<longrightarrow> source_ok (Some a)
            \<and> (\<exists>rest. drop (5 + unat len) frame = address_octets a @ rest))"
proof -
  have src: "source_ok (Some a) \<and> (\<exists>rest. drop at frame = address_octets a @ rest)"
    if "source_behind frame at = Some a" for a at
  proof -
    from that obtain len where len: "network_and_length frame at = Inr (ad_network a, len)"
        "octets_at frame (at + 3) len = Inr (ad_mac a)" and
      ok: "ad_network a \<noteq> 0" "ad_network a \<noteq> GLOBAL_NETWORK" "len \<noteq> 0" "unat len \<le> MAX_MAC_LEN"
      by (auto simp: source_behind_def split: sum.splits if_splits)
    have within: "at \<le> length frame"
      using len(1) by (auto simp: network_and_length_def octets_at_def get_range_def try_res_eq_Inr
          split: if_splits)
    have "(\<exists>rest. drop at frame = address_octets a @ rest) \<and> length (ad_mac a) < 256
        \<and> len = of_nat (length (ad_mac a))"
      using iffD1 [OF address_at_iff [OF within, of "ad_network a" "ad_mac a" "\<lambda>l. l = len"]] len
      by (cases a) auto
    then show ?thesis using ok by (auto simp: source_ok_def unat_eq_0 [symmetric])
  qed
  show ?thesis using assms src
    by (auto simp: npdu_decode_def try_res_eq_Inl split: list.splits if_splits
        dest: decode_destination_too_long decode_source_too_long)
qed

theorem npdu_too_long_source_witness:
  "MAX_MAC_LEN < unat (19 :: octet) \<and> source_ok (Some \<lparr>ad_network = 5, ad_mac = [7]\<rparr>)
   \<and> (\<exists>rest. drop (5 + unat (19 :: octet)) ([1, 0x28, 0, 9, 19] @ replicate 19 0 @ [0, 5, 1, 7, 255])
          = address_octets \<lparr>ad_network = 5, ad_mac = [7]\<rparr> @ rest)"
proof -
  have "npdu_decode ([1, 0x28, 0, 9, 19] @ replicate 19 0 @ [0, 5, 1, 7, 255])
     = Inl (AddressTooLong DestinationField 19 (Some 9) (Some \<lparr>ad_network = 5, ad_mac = [7]\<rparr>))"
    by code_simp
  from npdu_too_long_source [OF this] show ?thesis by blast
qed

text \<open>Smaller round trips: the MAC, the priority and the reject's data.\<close>

lemma mac_copy_eq:
  "length src \<le> length dst \<Longrightarrow> i \<le> length src \<Longrightarrow> take i dst = take i src \<Longrightarrow>
     mac_copy dst src i = src @ drop (length src) dst"
proof (induction dst src i rule: mac_copy.induct)
  case (1 dst src i)
  show ?case
  proof (cases "i < length src")
    case True
    then have "take (i + 1) (dst[i := src ! i]) = take (i + 1) src"
      using 1(2,4) by (simp add: take_Suc_conv_app_nth)
    then show ?thesis using 1(1) [OF True] True 1(2) by (simp add: mac_copy.simps [of dst src i])
  next
    case False
    with 1(3) have "i = length src" by simp
    with 1(4) show ?thesis
      using append_take_drop_id [of "length src" dst] by (simp add: mac_copy.simps [of dst src "length src"])
  qed
qed

text \<open>
  The fixed-size types keep what they are given: a MAC of at most 18 octets is stored and
  read back whole (and compares by those octets alone) while a longer one is refused; every
  priority is read back from its two bits and no other value is taken; a reject's data
  decodes to the reject that wrote it, and only three octets decode.
\<close>

theorem npdu_fields_roundtrip:
  "(case mac_from_slice xs of
      Inl e \<Rightarrow> e = MacTooLong (length xs) \<and> MAX_MAC_LEN < length xs
    | Inr m \<Rightarrow> mac_wf m \<and> mac_as_slice m = xs \<and> mac_length m = length xs)
   \<and> priority_try_from v = (if v \<le> 3 then Inr (from_control v) else Inl (PriorityError v))
   \<and> priority_try_from (priority_to_raw p) = Inr p
   \<and> reject_decode (reject_to_bytes r) = Inr r
   \<and> (\<forall>ys. (\<exists>q. reject_decode ys = Inr q \<and> reject_to_bytes q = ys) \<longleftrightarrow> length ys = REJECT_LEN)"
proof (intro conjI allI)
  have "mac_copy (replicate MAX_MAC_LEN 0) xs 0 = xs @ replicate (MAX_MAC_LEN - length xs) 0"
    if "length xs \<le> MAX_MAC_LEN"
    using mac_copy_eq [of xs "replicate MAX_MAC_LEN 0" 0] that by simp
  then show "case mac_from_slice xs of
      Inl e \<Rightarrow> e = MacTooLong (length xs) \<and> MAX_MAC_LEN < length xs
    | Inr m \<Rightarrow> mac_wf m \<and> mac_as_slice m = xs \<and> mac_length m = length xs"
    by (auto simp: mac_from_slice_def mac_wf_def mac_as_slice_def mac_length_def MAC_EMPTY_def
        MAX_MAC_LEN_def)
  show "priority_try_from v = (if v \<le> 3 then Inr (from_control v) else Inl (PriorityError v))"
    by (auto simp: priority_try_from_def)
  show "priority_try_from (priority_to_raw p) = Inr p"
    by (cases p) (simp_all add: priority_try_from_def from_control_def)
  show "reject_decode (reject_to_bytes r) = Inr r"
    by (cases r; cases "rj_reason r") (simp add: reject_decode_def reject_to_bytes_def u16_to_be_def)
  show "(\<exists>q. reject_decode ys = Inr q \<and> reject_to_bytes q = ys) \<longleftrightarrow> length ys = REJECT_LEN" for ys
    by (auto simp: reject_decode_def reject_to_bytes_def REJECT_LEN_def list_length_3
        split: list.splits)
qed

end
