(* ===== verification/Mstp_Sink.thy ===== *)
theory Mstp_Sink
  imports Bacnet_Prelude
begin

text \<open>
  Byte sinks (\<open>crates/bacnet-mstp-codec/src/sink.rs\<close>). The trait \<open>FrameSink\<close> is a record of
  its two operations, which generic code takes as an argument, as the compiler passes the
  implementation it picked. The locale \<open>frame_sink\<close> states what the trait documents; it is
  interpreted on the slice sink and on the growable \<open>Vec\<close> sink of the crate, and the facts
  the encoder needs are proved once inside it.
\<close>

datatype sink_full = SinkFull (sf_needed: nat) (sf_available: nat)

record 's sink_ops =
  remaining_capacity :: "'s \<Rightarrow> nat option"
  write_sink :: "octets \<Rightarrow> 's \<Rightarrow> (sink_full + unit) \<times> 's"

text \<open>
  \<open>impl FrameSink for &mut [u8]\<close>: a write goes to the front of the slice, which then moves
  past it. The state keeps the octets already passed and the tail the slice now is.
\<close>

record slice_sink =
  passed :: octets
  tail :: octets

definition slice_write :: "octets \<Rightarrow> slice_sink \<Rightarrow> (sink_full + unit) \<times> slice_sink" where
  "slice_write bytes s =
     (if length (tail s) < length bytes then (Inl (SinkFull (length bytes) (length (tail s))), s)
      else (Inr (), \<lparr>passed = passed s @ bytes, tail = drop (length bytes) (tail s)\<rparr>))"

definition slice_ops :: "slice_sink sink_ops" where
  "slice_ops = \<lparr>remaining_capacity = (\<lambda>s. Some (length (tail s))), write_sink = slice_write\<rparr>"

text \<open>\<open>impl FrameSink for Vec<u8>\<close> (and \<open>BytesMut\<close>): grows, never full.\<close>

definition vec_write :: "octets \<Rightarrow> octets \<Rightarrow> (sink_full + unit) \<times> octets" where
  "vec_write bytes v = (Inr (), v @ bytes)"

definition vec_ops :: "octets sink_ops" where
  "vec_ops = \<lparr>remaining_capacity = (\<lambda>_. None), write_sink = vec_write\<rparr>"

text \<open>
  \<open>impl FrameSink for heapless::Vec<u8, N>\<close>: holds at most \<open>N\<close> octets. \<open>extend_from_slice\<close>
  is all or nothing.
\<close>

definition heapless_write :: "nat \<Rightarrow> octets \<Rightarrow> octets \<Rightarrow> (sink_full + unit) \<times> octets" where
  "heapless_write n bytes v =
     (let available = n - length v in
      if available < length bytes then (Inl (SinkFull (length bytes) available), v)
      else (Inr (), v @ bytes))"

definition heapless_ops :: "nat \<Rightarrow> octets sink_ops" where
  "heapless_ops n = \<lparr>remaining_capacity = (\<lambda>v. Some (n - length v)), write_sink = heapless_write n\<rparr>"

text \<open>Several writes in order, the rest skipped after a failure: the shape of the encoder.\<close>

fun write_all :: "'s sink_ops \<Rightarrow> octets list \<Rightarrow> 's \<Rightarrow> (sink_full + unit) \<times> 's" where
  "write_all ops [] s = (Inr (), s)"
| "write_all ops (b # bs) s =
     (case write_sink ops b s of
        (Inl e, s') \<Rightarrow> (Inl e, s')
      | (Inr _, s') \<Rightarrow> write_all ops bs s')"

lemma write_all_append:
  "write_all ops (bs @ cs) s =
     (case write_all ops bs s of (Inl e, s') \<Rightarrow> (Inl e, s') | (Inr _, s') \<Rightarrow> write_all ops cs s')"
  by (induction bs arbitrary: s) (auto split: prod.splits sum.splits)

section \<open>The contract\<close>

locale frame_sink =
  fixes ops :: "'s sink_ops" and contents :: "'s \<Rightarrow> octets" and ok :: "'s \<Rightarrow> bool"
  assumes write_appends:
      "ok s \<Longrightarrow> write_sink ops bytes s = (Inr (), s') \<Longrightarrow> contents s' = contents s @ bytes \<and> ok s'"
    and write_refuses_whole: "ok s \<Longrightarrow> write_sink ops bytes s = (Inl e, s') \<Longrightarrow> s' = s"
    and write_fits:
      "ok s \<Longrightarrow> remaining_capacity ops s = Some n \<Longrightarrow> length bytes \<le> n \<Longrightarrow>
         \<exists>s'. write_sink ops bytes s = (Inr (), s') \<and> remaining_capacity ops s' = Some (n - length bytes)"
    and write_grows:
      "ok s \<Longrightarrow> remaining_capacity ops s = None \<Longrightarrow>
         write_sink ops bytes s = (Inr (), s') \<Longrightarrow> remaining_capacity ops s' = None"
begin

lemma write_all_appends:
  "ok s \<Longrightarrow> write_all ops bs s = (Inr (), s') \<Longrightarrow> contents s' = contents s @ concat bs \<and> ok s'"
proof (induction bs arbitrary: s)
  case (Cons b bs)
  then obtain s1 where s1: "write_sink ops b s = (Inr (), s1)" "write_all ops bs s1 = (Inr (), s')"
    by (auto split: prod.splits sum.splits)
  with Cons.prems(1) have "contents s1 = contents s @ b" "ok s1"
    using write_appends by blast+
  with Cons.IH [OF this(2) s1(2)] show ?case by simp
qed simp

lemma write_all_fits:
  "ok s \<Longrightarrow> remaining_capacity ops s = Some n \<Longrightarrow> length (concat bs) \<le> n \<Longrightarrow>
     \<exists>s'. write_all ops bs s = (Inr (), s') \<and> remaining_capacity ops s' = Some (n - length (concat bs))"
proof (induction bs arbitrary: s n)
  case (Cons b bs)
  from Cons.prems obtain s1 where s1: "write_sink ops b s = (Inr (), s1)"
      "remaining_capacity ops s1 = Some (n - length b)"
    using write_fits [of s n b] by auto
  from Cons.prems s1 have "ok s1" using write_appends by blast
  moreover from Cons.prems(3) have "length (concat bs) \<le> n - length b" by simp
  ultimately obtain s' where
      "write_all ops bs s1 = (Inr (), s')"
      "remaining_capacity ops s' = Some (n - length b - length (concat bs))"
    using Cons.IH [OF _ s1(2)] by blast
  with s1 show ?case by auto
qed simp

end

interpretation slice_frame_sink: frame_sink slice_ops passed "\<lambda>_. True"
  by unfold_locales (auto simp: slice_ops_def slice_write_def split: if_splits)

interpretation vec_frame_sink: frame_sink vec_ops "\<lambda>v. v" "\<lambda>_. True"
  by unfold_locales (auto simp: vec_ops_def vec_write_def)

interpretation heapless_frame_sink: frame_sink "heapless_ops n" "\<lambda>v. v" "\<lambda>v. length v \<le> n" for n
  by unfold_locales (auto simp: heapless_ops_def heapless_write_def Let_def split: if_splits)

lemma vec_write_all: "write_all vec_ops bs v = (Inr (), v @ concat bs)"
  by (induction bs arbitrary: v) (simp_all add: vec_ops_def vec_write_def)

lemma slice_write_all:
  "length (concat bs) \<le> length (tail s) \<Longrightarrow>
     write_all slice_ops bs s
       = (Inr (), \<lparr>passed = passed s @ concat bs, tail = drop (length (concat bs)) (tail s)\<rparr>)"
  by (induction bs arbitrary: s) (auto simp: slice_ops_def slice_write_def add.commute)

end
