(* ===== verification/Bip_Codec.thy ===== *)
theory Bip_Codec
  imports Mstp_Sink
begin

text \<open>
  BACnet/IP's virtual link layer messages (\<open>crates/bacnet-bip-codec/src\<close>, \<open>function.rs\<close>,
  \<open>table.rs\<close>, \<open>message.rs\<close>, \<open>error.rs\<close>): the function and result codes with their payload
  shapes, addresses and the entries of the two tables, the header check, the reading of a
  payload by its function, and the checked encoder. The crate's \<open>sink.rs\<close> is line for line the
  trait and the implementations of \<open>Mstp_Sink\<close>, whose operations and contract are used here.

  The trait \<open>TableEntry\<close> is a record of its two functions; the locale \<open>table_entry\<close> states
  that they invert each other on ten octets, and is interpreted on the two entry types.
\<close>

section \<open>Constants and codes\<close>

definition BVLC_TYPE_BIP :: octet where "BVLC_TYPE_BIP = 0x81"
definition BVLL_HEADER_LENGTH :: nat where "BVLL_HEADER_LENGTH = 4"
definition MAX_BVLL_LENGTH :: nat where "MAX_BVLL_LENGTH = 65535"
definition BIP_ADDRESS_LENGTH :: nat where "BIP_ADDRESS_LENGTH = 6"
definition BDT_ENTRY_LENGTH :: nat where "BDT_ENTRY_LENGTH = 10"
definition FDT_ENTRY_LENGTH :: nat where "FDT_ENTRY_LENGTH = 10"
definition DEFAULT_PORT :: u16 where "DEFAULT_PORT = 0xBAC0"
definition ENTRY_LENGTH :: nat where "ENTRY_LENGTH = BDT_ENTRY_LENGTH"

datatype bvlc_function = BvlcFunction (bf_to_raw: octet)
datatype bvlc_result_code = BvlcResultCode (rc_to_raw: u16)

definition BVLC_RESULT :: bvlc_function where "BVLC_RESULT = BvlcFunction 0x00"
definition WRITE_BROADCAST_DISTRIBUTION_TABLE :: bvlc_function where
  "WRITE_BROADCAST_DISTRIBUTION_TABLE = BvlcFunction 0x01"
definition READ_BROADCAST_DISTRIBUTION_TABLE :: bvlc_function where
  "READ_BROADCAST_DISTRIBUTION_TABLE = BvlcFunction 0x02"
definition READ_BROADCAST_DISTRIBUTION_TABLE_ACK :: bvlc_function where
  "READ_BROADCAST_DISTRIBUTION_TABLE_ACK = BvlcFunction 0x03"
definition FORWARDED_NPDU :: bvlc_function where "FORWARDED_NPDU = BvlcFunction 0x04"
definition REGISTER_FOREIGN_DEVICE :: bvlc_function where
  "REGISTER_FOREIGN_DEVICE = BvlcFunction 0x05"
definition READ_FOREIGN_DEVICE_TABLE :: bvlc_function where
  "READ_FOREIGN_DEVICE_TABLE = BvlcFunction 0x06"
definition READ_FOREIGN_DEVICE_TABLE_ACK :: bvlc_function where
  "READ_FOREIGN_DEVICE_TABLE_ACK = BvlcFunction 0x07"
definition DELETE_FOREIGN_DEVICE_TABLE_ENTRY :: bvlc_function where
  "DELETE_FOREIGN_DEVICE_TABLE_ENTRY = BvlcFunction 0x08"
definition DISTRIBUTE_BROADCAST_TO_NETWORK :: bvlc_function where
  "DISTRIBUTE_BROADCAST_TO_NETWORK = BvlcFunction 0x09"
definition ORIGINAL_UNICAST_NPDU :: bvlc_function where "ORIGINAL_UNICAST_NPDU = BvlcFunction 0x0A"
definition ORIGINAL_BROADCAST_NPDU :: bvlc_function where "ORIGINAL_BROADCAST_NPDU = BvlcFunction 0x0B"

lemmas bvlc_functions = BVLC_RESULT_def WRITE_BROADCAST_DISTRIBUTION_TABLE_def
  READ_BROADCAST_DISTRIBUTION_TABLE_def READ_BROADCAST_DISTRIBUTION_TABLE_ACK_def
  FORWARDED_NPDU_def REGISTER_FOREIGN_DEVICE_def READ_FOREIGN_DEVICE_TABLE_def
  READ_FOREIGN_DEVICE_TABLE_ACK_def DELETE_FOREIGN_DEVICE_TABLE_ENTRY_def
  DISTRIBUTE_BROADCAST_TO_NETWORK_def ORIGINAL_UNICAST_NPDU_def ORIGINAL_BROADCAST_NPDU_def

definition bvlc_function_is_defined :: "bvlc_function \<Rightarrow> bool" where
  "bvlc_function_is_defined f \<longleftrightarrow>
     f \<in> {BVLC_RESULT, WRITE_BROADCAST_DISTRIBUTION_TABLE, READ_BROADCAST_DISTRIBUTION_TABLE,
          READ_BROADCAST_DISTRIBUTION_TABLE_ACK, FORWARDED_NPDU, REGISTER_FOREIGN_DEVICE,
          READ_FOREIGN_DEVICE_TABLE, READ_FOREIGN_DEVICE_TABLE_ACK,
          DELETE_FOREIGN_DEVICE_TABLE_ENTRY, DISTRIBUTE_BROADCAST_TO_NETWORK,
          ORIGINAL_UNICAST_NPDU, ORIGINAL_BROADCAST_NPDU}"

definition SUCCESSFUL_COMPLETION :: bvlc_result_code where
  "SUCCESSFUL_COMPLETION = BvlcResultCode 0x0000"
definition WRITE_BROADCAST_DISTRIBUTION_TABLE_NAK :: bvlc_result_code where
  "WRITE_BROADCAST_DISTRIBUTION_TABLE_NAK = BvlcResultCode 0x0010"
definition READ_BROADCAST_DISTRIBUTION_TABLE_NAK :: bvlc_result_code where
  "READ_BROADCAST_DISTRIBUTION_TABLE_NAK = BvlcResultCode 0x0020"
definition REGISTER_FOREIGN_DEVICE_NAK :: bvlc_result_code where
  "REGISTER_FOREIGN_DEVICE_NAK = BvlcResultCode 0x0030"
definition READ_FOREIGN_DEVICE_TABLE_NAK :: bvlc_result_code where
  "READ_FOREIGN_DEVICE_TABLE_NAK = BvlcResultCode 0x0040"
definition DELETE_FOREIGN_DEVICE_TABLE_ENTRY_NAK :: bvlc_result_code where
  "DELETE_FOREIGN_DEVICE_TABLE_ENTRY_NAK = BvlcResultCode 0x0050"
definition DISTRIBUTE_BROADCAST_TO_NETWORK_NAK :: bvlc_result_code where
  "DISTRIBUTE_BROADCAST_TO_NETWORK_NAK = BvlcResultCode 0x0060"

definition result_code_is_defined :: "bvlc_result_code \<Rightarrow> bool" where
  "result_code_is_defined c \<longleftrightarrow>
     c \<in> {SUCCESSFUL_COMPLETION, WRITE_BROADCAST_DISTRIBUTION_TABLE_NAK,
          READ_BROADCAST_DISTRIBUTION_TABLE_NAK, REGISTER_FOREIGN_DEVICE_NAK,
          READ_FOREIGN_DEVICE_TABLE_NAK, DELETE_FOREIGN_DEVICE_TABLE_ENTRY_NAK,
          DISTRIBUTE_BROADCAST_TO_NETWORK_NAK}"

datatype payload_shape = Fixed nat | Table nat | NpduShape nat

fun admits :: "payload_shape \<Rightarrow> nat \<Rightarrow> bool" where
  "admits (Fixed fixed) len \<longleftrightarrow> len = fixed"
| "admits (Table entry_length) len \<longleftrightarrow> len mod entry_length = 0"
| "admits (NpduShape prefix) len \<longleftrightarrow> prefix \<le> len"

definition bvlc_payload_shape :: "bvlc_function \<Rightarrow> payload_shape option" where
  "bvlc_payload_shape f =
     (if f = BVLC_RESULT \<or> f = REGISTER_FOREIGN_DEVICE then Some (Fixed 2)
      else if f = READ_BROADCAST_DISTRIBUTION_TABLE \<or> f = READ_FOREIGN_DEVICE_TABLE then Some (Fixed 0)
      else if f = DELETE_FOREIGN_DEVICE_TABLE_ENTRY then Some (Fixed BIP_ADDRESS_LENGTH)
      else if f = WRITE_BROADCAST_DISTRIBUTION_TABLE \<or> f = READ_BROADCAST_DISTRIBUTION_TABLE_ACK
        then Some (Table BDT_ENTRY_LENGTH)
      else if f = READ_FOREIGN_DEVICE_TABLE_ACK then Some (Table FDT_ENTRY_LENGTH)
      else if f = FORWARDED_NPDU then Some (NpduShape BIP_ADDRESS_LENGTH)
      else if f = DISTRIBUTE_BROADCAST_TO_NETWORK \<or> f = ORIGINAL_UNICAST_NPDU
        \<or> f = ORIGINAL_BROADCAST_NPDU then Some (NpduShape 0)
      else None)"

definition function_nak :: "bvlc_function \<Rightarrow> bvlc_result_code option" where
  "function_nak f =
     (if f = WRITE_BROADCAST_DISTRIBUTION_TABLE then Some WRITE_BROADCAST_DISTRIBUTION_TABLE_NAK
      else if f = READ_BROADCAST_DISTRIBUTION_TABLE then Some READ_BROADCAST_DISTRIBUTION_TABLE_NAK
      else if f = REGISTER_FOREIGN_DEVICE then Some REGISTER_FOREIGN_DEVICE_NAK
      else if f = READ_FOREIGN_DEVICE_TABLE then Some READ_FOREIGN_DEVICE_TABLE_NAK
      else if f = DELETE_FOREIGN_DEVICE_TABLE_ENTRY then Some DELETE_FOREIGN_DEVICE_TABLE_ENTRY_NAK
      else if f = DISTRIBUTE_BROADCAST_TO_NETWORK then Some DISTRIBUTE_BROADCAST_TO_NETWORK_NAK
      else None)"

section \<open>Errors\<close>

datatype bvll_error =
    BvllTooShort nat
  | NotBip octet
  | LengthMismatch nat nat
  | UnknownFunction octet
  | PayloadLength bvlc_function nat
  | TableLength nat nat
  | AddressLength nat
  | TooLong nat
  | UndefinedResultCode u16
  | BufferExhausted nat nat

definition bvll_from_sink_full :: "sink_full \<Rightarrow> bvll_error" where
  "bvll_from_sink_full full = BufferExhausted (sf_needed full) (sf_available full)"

section \<open>Addresses and table entries\<close>

datatype ipv4_addr = Ipv4Addr octet octet octet octet

record socket_addr_v4 =
  sa_ip :: ipv4_addr
  sa_port :: u16

definition ip_octets :: "ipv4_addr \<Rightarrow> octets" where
  "ip_octets ip = (case ip of Ipv4Addr a b c d \<Rightarrow> [a, b, c, d])"

definition address_to_octets :: "socket_addr_v4 \<Rightarrow> octets" where
  "address_to_octets a = ip_octets (sa_ip a) @ u16_to_be (sa_port a)"

text \<open>
  Functions of a fixed-size array take a list; on a list of another length, which no caller
  passes, they give a fixed value.
\<close>

definition address_from_octets :: "octets \<Rightarrow> socket_addr_v4" where
  "address_from_octets octets =
     (case octets of [a, b, c, d, high, low] \<Rightarrow>
        \<lparr>sa_ip = Ipv4Addr a b c d, sa_port = u16_be high low\<rparr>
      | _ \<Rightarrow> \<lparr>sa_ip = Ipv4Addr 0 0 0 0, sa_port = 0\<rparr>)"

definition address_from_slice :: "octets \<Rightarrow> bvll_error + socket_addr_v4" where
  "address_from_slice octets =
     (if length octets = BIP_ADDRESS_LENGTH then Inr (address_from_octets octets)
      else Inl (AddressLength (length octets)))"

record bdt_entry =
  be_address :: socket_addr_v4
  be_mask :: ipv4_addr

definition bdt_to_octets :: "bdt_entry \<Rightarrow> octets" where
  "bdt_to_octets e = address_to_octets (be_address e) @ ip_octets (be_mask e)"

definition bdt_from_octets :: "octets \<Rightarrow> bdt_entry" where
  "bdt_from_octets octets =
     (case octets of [a, b, c, d, high, low, m0, m1, m2, m3] \<Rightarrow>
        \<lparr>be_address = address_from_octets [a, b, c, d, high, low], be_mask = Ipv4Addr m0 m1 m2 m3\<rparr>
      | _ \<Rightarrow> \<lparr>be_address = address_from_octets [], be_mask = Ipv4Addr 0 0 0 0\<rparr>)"

record fdt_entry =
  fe_address :: socket_addr_v4
  fe_ttl :: u16
  fe_remaining :: u16

definition fdt_to_octets :: "fdt_entry \<Rightarrow> octets" where
  "fdt_to_octets e = address_to_octets (fe_address e) @ u16_to_be (fe_ttl e) @ u16_to_be (fe_remaining e)"

definition fdt_from_octets :: "octets \<Rightarrow> fdt_entry" where
  "fdt_from_octets octets =
     (case octets of [a, b, c, d, high, low, t0, t1, r0, r1] \<Rightarrow>
        \<lparr>fe_address = address_from_octets [a, b, c, d, high, low],
         fe_ttl = u16_be t0 t1, fe_remaining = u16_be r0 r1\<rparr>
      | _ \<Rightarrow> \<lparr>fe_address = address_from_octets [], fe_ttl = 0, fe_remaining = 0\<rparr>)"

record 't entry_ops =
  from_wire :: "octets \<Rightarrow> 't"
  to_wire :: "'t \<Rightarrow> octets"

definition bdt_ops :: "bdt_entry entry_ops" where
  "bdt_ops = \<lparr>from_wire = bdt_from_octets, to_wire = bdt_to_octets\<rparr>"

definition fdt_ops :: "fdt_entry entry_ops" where
  "fdt_ops = \<lparr>from_wire = fdt_from_octets, to_wire = fdt_to_octets\<rparr>"

section \<open>Tables\<close>

text \<open>A table as received, in whole entries, or as the caller's entries.\<close>

datatype 't entries = Wire "octets list" | Typed "'t list"

text \<open>\<open>as_chunks\<close>: the whole chunks, and what is left.\<close>

function as_chunks :: "nat \<Rightarrow> octets \<Rightarrow> octets list \<times> octets" where
  "as_chunks n xs =
     (if 0 < n \<and> n \<le> length xs
      then let (cs, rest) = as_chunks n (drop n xs) in (take n xs # cs, rest)
      else ([], xs))"
  by pat_completeness auto
termination by (relation "measure (length \<circ> snd)") auto

declare as_chunks.simps [simp del]

definition entries_from_wire :: "octets \<Rightarrow> bvll_error + 't entries" where
  "entries_from_wire octets =
     (case as_chunks ENTRY_LENGTH octets of
        (chunks, []) \<Rightarrow> Inr (Wire chunks)
      | _ \<Rightarrow> Inl (TableLength (length octets) ENTRY_LENGTH))"

fun entries_len :: "'t entries \<Rightarrow> nat" where
  "entries_len (Wire es) = length es"
| "entries_len (Typed es) = length es"

definition entries_is_empty :: "'t entries \<Rightarrow> bool" where
  "entries_is_empty es \<longleftrightarrow> entries_len es = 0"

text \<open>\<open>iter\<close>, and the equality it defines.\<close>

fun entries_iter :: "'t entry_ops \<Rightarrow> 't entries \<Rightarrow> 't list" where
  "entries_iter ops (Wire es) = map (from_wire ops) es"
| "entries_iter ops (Typed es) = es"

definition entries_eq :: "'t entry_ops \<Rightarrow> 't entries \<Rightarrow> 't entries \<Rightarrow> bool" where
  "entries_eq ops a b \<longleftrightarrow> entries_iter ops a = entries_iter ops b"

definition entries_wire_length :: "'t entries \<Rightarrow> nat" where
  "entries_wire_length es = entries_len es * ENTRY_LENGTH"

text \<open>The writes of \<open>write_to\<close>: one of the flattened entries, or one per entry.\<close>

fun entries_writes :: "'t entry_ops \<Rightarrow> 't entries \<Rightarrow> octets list" where
  "entries_writes ops (Wire es) = [concat es]"
| "entries_writes ops (Typed es) = map (to_wire ops) es"

section \<open>Messages\<close>

record bvll_frame =
  bvf_function :: bvlc_function
  bvf_payload :: octets

definition bvll_frame_decode :: "octets \<Rightarrow> bvll_error + bvll_frame" where
  "bvll_frame_decode datagram =
     (case datagram of bvlc_type # function # high # low # payload \<Rightarrow>
        if bvlc_type \<noteq> BVLC_TYPE_BIP then Inl (NotBip bvlc_type)
        else let declared = unat (u16_be high low) in
          if declared \<noteq> length datagram then Inl (LengthMismatch declared (length datagram))
          else Inr \<lparr>bvf_function = BvlcFunction function, bvf_payload = payload\<rparr>
      | _ \<Rightarrow> Inl (BvllTooShort (length datagram)))"

datatype bvll =
    BvlcResult bvlc_result_code
  | WriteBroadcastDistributionTable "bdt_entry entries"
  | ReadBroadcastDistributionTable
  | ReadBroadcastDistributionTableAck "bdt_entry entries"
  | ForwardedNpdu socket_addr_v4 octets
  | RegisterForeignDevice u16
  | ReadForeignDeviceTable
  | ReadForeignDeviceTableAck "fdt_entry entries"
  | DeleteForeignDeviceTableEntry socket_addr_v4
  | DistributeBroadcastToNetwork octets
  | OriginalUnicastNpdu octets
  | OriginalBroadcastNpdu octets

text \<open>
  The match of \<open>BvllFrame::message\<close>: \<open>None\<close> where no arm but the last two, which look only
  at the function, applies.
\<close>

definition bvll_match :: "bvlc_function \<Rightarrow> octets \<Rightarrow> (bvll_error + bvll) option" where
  "bvll_match function payload =
     (let wrong_length = PayloadLength function (length payload) in
      if function = BVLC_RESULT then
        (case payload of [high, low] \<Rightarrow> Some (Inr (BvlcResult (BvlcResultCode (u16_be high low))))
         | _ \<Rightarrow> None)
      else if function = WRITE_BROADCAST_DISTRIBUTION_TABLE then
        Some (try_res (map_err (\<lambda>_. wrong_length) (entries_from_wire payload))
               (\<lambda>t. Inr (WriteBroadcastDistributionTable t)))
      else if function = READ_BROADCAST_DISTRIBUTION_TABLE then
        (case payload of [] \<Rightarrow> Some (Inr ReadBroadcastDistributionTable) | _ \<Rightarrow> None)
      else if function = READ_BROADCAST_DISTRIBUTION_TABLE_ACK then
        Some (try_res (map_err (\<lambda>_. wrong_length) (entries_from_wire payload))
               (\<lambda>t. Inr (ReadBroadcastDistributionTableAck t)))
      else if function = FORWARDED_NPDU then
        (case payload of a # b # c # d # high # low # npdu \<Rightarrow>
           Some (Inr (ForwardedNpdu (address_from_octets [a, b, c, d, high, low]) npdu))
         | _ \<Rightarrow> None)
      else if function = REGISTER_FOREIGN_DEVICE then
        (case payload of [high, low] \<Rightarrow> Some (Inr (RegisterForeignDevice (u16_be high low)))
         | _ \<Rightarrow> None)
      else if function = READ_FOREIGN_DEVICE_TABLE then
        (case payload of [] \<Rightarrow> Some (Inr ReadForeignDeviceTable) | _ \<Rightarrow> None)
      else if function = READ_FOREIGN_DEVICE_TABLE_ACK then
        Some (try_res (map_err (\<lambda>_. wrong_length) (entries_from_wire payload))
               (\<lambda>t. Inr (ReadForeignDeviceTableAck t)))
      else if function = DELETE_FOREIGN_DEVICE_TABLE_ENTRY then
        (case payload of [a, b, c, d, high, low] \<Rightarrow>
           Some (Inr (DeleteForeignDeviceTableEntry (address_from_octets [a, b, c, d, high, low])))
         | _ \<Rightarrow> None)
      else if function = DISTRIBUTE_BROADCAST_TO_NETWORK then
        Some (Inr (DistributeBroadcastToNetwork payload))
      else if function = ORIGINAL_UNICAST_NPDU then Some (Inr (OriginalUnicastNpdu payload))
      else if function = ORIGINAL_BROADCAST_NPDU then Some (Inr (OriginalBroadcastNpdu payload))
      else None)"

definition bvll_frame_message :: "bvll_frame \<Rightarrow> bvll_error + bvll" where
  "bvll_frame_message f =
     (case bvll_match (bvf_function f) (bvf_payload f) of
        Some r \<Rightarrow> r
      | None \<Rightarrow>
          if bvlc_function_is_defined (bvf_function f)
          then Inl (PayloadLength (bvf_function f) (length (bvf_payload f)))
          else Inl (UnknownFunction (bf_to_raw (bvf_function f))))"

definition bvll_decode :: "octets \<Rightarrow> bvll_error + bvll" where
  "bvll_decode datagram = try_res (bvll_frame_decode datagram) bvll_frame_message"

fun bvll_function :: "bvll \<Rightarrow> bvlc_function" where
  "bvll_function (BvlcResult _) = BVLC_RESULT"
| "bvll_function (WriteBroadcastDistributionTable _) = WRITE_BROADCAST_DISTRIBUTION_TABLE"
| "bvll_function ReadBroadcastDistributionTable = READ_BROADCAST_DISTRIBUTION_TABLE"
| "bvll_function (ReadBroadcastDistributionTableAck _) = READ_BROADCAST_DISTRIBUTION_TABLE_ACK"
| "bvll_function (ForwardedNpdu _ _) = FORWARDED_NPDU"
| "bvll_function (RegisterForeignDevice _) = REGISTER_FOREIGN_DEVICE"
| "bvll_function ReadForeignDeviceTable = READ_FOREIGN_DEVICE_TABLE"
| "bvll_function (ReadForeignDeviceTableAck _) = READ_FOREIGN_DEVICE_TABLE_ACK"
| "bvll_function (DeleteForeignDeviceTableEntry _) = DELETE_FOREIGN_DEVICE_TABLE_ENTRY"
| "bvll_function (DistributeBroadcastToNetwork _) = DISTRIBUTE_BROADCAST_TO_NETWORK"
| "bvll_function (OriginalUnicastNpdu _) = ORIGINAL_UNICAST_NPDU"
| "bvll_function (OriginalBroadcastNpdu _) = ORIGINAL_BROADCAST_NPDU"

fun bvll_npdu :: "bvll \<Rightarrow> octets option" where
  "bvll_npdu (ForwardedNpdu _ npdu) = Some npdu"
| "bvll_npdu (DistributeBroadcastToNetwork npdu) = Some npdu"
| "bvll_npdu (OriginalUnicastNpdu npdu) = Some npdu"
| "bvll_npdu (OriginalBroadcastNpdu npdu) = Some npdu"
| "bvll_npdu _ = None"

fun bvll_origin :: "bvll \<Rightarrow> socket_addr_v4 option" where
  "bvll_origin (ForwardedNpdu origin _) = Some origin"
| "bvll_origin _ = None"

fun payload_length :: "bvll \<Rightarrow> nat" where
  "payload_length (BvlcResult _) = 2"
| "payload_length (RegisterForeignDevice _) = 2"
| "payload_length ReadBroadcastDistributionTable = 0"
| "payload_length ReadForeignDeviceTable = 0"
| "payload_length (WriteBroadcastDistributionTable t) = entries_wire_length t"
| "payload_length (ReadBroadcastDistributionTableAck t) = entries_wire_length t"
| "payload_length (ReadForeignDeviceTableAck t) = entries_wire_length t"
| "payload_length (DeleteForeignDeviceTableEntry _) = 6"
| "payload_length (ForwardedNpdu _ npdu) = 6 + length npdu"
| "payload_length (DistributeBroadcastToNetwork npdu) = length npdu"
| "payload_length (OriginalUnicastNpdu npdu) = length npdu"
| "payload_length (OriginalBroadcastNpdu npdu) = length npdu"

definition undefined_result :: "bvll \<Rightarrow> u16 option" where
  "undefined_result m = (case m of
      BvlcResult code \<Rightarrow> if result_code_is_defined code then None else Some (rc_to_raw code)
    | _ \<Rightarrow> None)"

definition bvll_encoded_len :: "bvll \<Rightarrow> bvll_error + nat" where
  "bvll_encoded_len m =
     (case undefined_result m of
        Some code \<Rightarrow> Inl (UndefinedResultCode code)
      | None \<Rightarrow>
          let len = BVLL_HEADER_LENGTH + payload_length m in
          if len > MAX_BVLL_LENGTH then Inl (TooLong len) else Inr len)"

fun payload_writes :: "bvll \<Rightarrow> octets list" where
  "payload_writes (BvlcResult code) = [u16_to_be (rc_to_raw code)]"
| "payload_writes (RegisterForeignDevice ttl) = [u16_to_be ttl]"
| "payload_writes ReadBroadcastDistributionTable = []"
| "payload_writes ReadForeignDeviceTable = []"
| "payload_writes (WriteBroadcastDistributionTable t) = entries_writes bdt_ops t"
| "payload_writes (ReadBroadcastDistributionTableAck t) = entries_writes bdt_ops t"
| "payload_writes (ReadForeignDeviceTableAck t) = entries_writes fdt_ops t"
| "payload_writes (DeleteForeignDeviceTableEntry a) = [address_to_octets a]"
| "payload_writes (ForwardedNpdu origin npdu) = [address_to_octets origin, npdu]"
| "payload_writes (DistributeBroadcastToNetwork npdu) = [npdu]"
| "payload_writes (OriginalUnicastNpdu npdu) = [npdu]"
| "payload_writes (OriginalBroadcastNpdu npdu) = [npdu]"

definition bvll_header :: "bvll \<Rightarrow> nat \<Rightarrow> octets" where
  "bvll_header m len = [BVLC_TYPE_BIP, bf_to_raw (bvll_function m)] @ u16_to_be (of_nat len)"

definition bvll_encode_to_sink :: "'s sink_ops \<Rightarrow> bvll \<Rightarrow> 's \<Rightarrow> (bvll_error + nat) \<times> 's" where
  "bvll_encode_to_sink ops m s =
     (case bvll_encoded_len m of Inl e \<Rightarrow> (Inl e, s)
      | Inr len \<Rightarrow>
          (case remaining_capacity ops s of
             Some available \<Rightarrow>
               if available < len then (Inl (BufferExhausted len available), s)
               else (case write_all ops (bvll_header m len # payload_writes m) s of
                       (Inl e, s') \<Rightarrow> (Inl (bvll_from_sink_full e), s')
                     | (Inr _, s') \<Rightarrow> (Inr len, s'))
           | None \<Rightarrow>
               (case write_all ops (bvll_header m len # payload_writes m) s of
                  (Inl e, s') \<Rightarrow> (Inl (bvll_from_sink_full e), s')
                | (Inr _, s') \<Rightarrow> (Inr len, s'))))"

text \<open>The caller's buffer after \<open>encode_into\<close>, and its result.\<close>

definition bvll_encode_into :: "bvll \<Rightarrow> octets \<Rightarrow> octets \<times> (bvll_error + nat)" where
  "bvll_encode_into m out =
     (case bvll_encode_to_sink slice_ops m \<lparr>passed = [], tail = out\<rparr> of
        (r, s) \<Rightarrow> (passed s @ tail s, r))"

section \<open>The table entries' contract\<close>

locale table_entry =
  fixes ops :: "'t entry_ops"
  assumes to_wire_length: "length (to_wire ops e) = ENTRY_LENGTH"
    and from_to_wire: "from_wire ops (to_wire ops e) = e"
    and to_from_wire: "length xs = ENTRY_LENGTH \<Longrightarrow> to_wire ops (from_wire ops xs) = xs"

text \<open>What the array type of \<open>Repr::Wire\<close> guarantees.\<close>

fun entries_wf :: "'t entries \<Rightarrow> bool" where
  "entries_wf (Wire es) \<longleftrightarrow> (\<forall>e \<in> set es. length e = ENTRY_LENGTH)"
| "entries_wf (Typed es) \<longleftrightarrow> True"

lemma ENTRY_LENGTH_pos [simp]: "0 < ENTRY_LENGTH"
  by (simp add: ENTRY_LENGTH_def BDT_ENTRY_LENGTH_def)

lemma as_chunks_split:
  "0 < n \<Longrightarrow> as_chunks n xs = (cs, rest) \<Longrightarrow>
     xs = concat cs @ rest \<and> (\<forall>c \<in> set cs. length c = n) \<and> length rest < n"
proof (induction n xs arbitrary: cs rest rule: as_chunks.induct)
  case (1 n xs)
  show ?case
  proof (cases "n \<le> length xs")
    case True
    with 1(2,3) obtain cs' where cs': "as_chunks n (drop n xs) = (cs', rest)" "cs = take n xs # cs'"
      by (auto simp: as_chunks.simps [of n xs] Let_def split: prod.splits)
    from 1(1) [OF _ 1(2) cs'(1)] True 1(2) have "drop n xs = concat cs' @ rest"
      "\<forall>c \<in> set cs'. length c = n" "length rest < n" by auto
    then show ?thesis using cs'(2) True append_take_drop_id [of n xs] by auto
  next
    case False
    with 1(3) show ?thesis by (auto simp: as_chunks.simps [of n xs])
  qed
qed

lemma as_chunks_concat:
  "0 < n \<Longrightarrow> \<forall>c \<in> set cs. length c = n \<Longrightarrow> as_chunks n (concat cs) = (cs, [])"
proof (induction cs)
  case Nil
  then show ?case by (simp add: as_chunks.simps [of n "[]"])
next
  case (Cons c cs)
  then show ?case by (simp add: as_chunks.simps [of n "c @ concat cs"])
qed

lemma length_concat_equal: "\<forall>c \<in> set cs. length c = n \<Longrightarrow> length (concat cs) = length cs * n"
  by (induction cs) auto

lemma entries_from_wire_iff:
  "entries_from_wire xs = Inr t \<longleftrightarrow> (\<exists>cs. t = Wire cs \<and> entries_wf t \<and> concat cs = xs)"
proof
  assume "entries_from_wire xs = Inr t"
  then obtain cs where "as_chunks ENTRY_LENGTH xs = (cs, [])" "t = Wire cs"
    by (auto simp: entries_from_wire_def split: prod.splits list.splits)
  then show "\<exists>cs. t = Wire cs \<and> entries_wf t \<and> concat cs = xs"
    using as_chunks_split [of ENTRY_LENGTH xs cs "[]"] by auto
next
  assume "\<exists>cs. t = Wire cs \<and> entries_wf t \<and> concat cs = xs"
  then show "entries_from_wire xs = Inr t"
    using as_chunks_concat [of ENTRY_LENGTH] by (fastforce simp: entries_from_wire_def)
qed

lemma entries_from_wire_accepts:
  "(\<exists>t :: 't entries. entries_from_wire xs = Inr t) \<longleftrightarrow> length xs mod ENTRY_LENGTH = 0"
proof -
  obtain cs rest where cr: "as_chunks ENTRY_LENGTH xs = (cs, rest)" by fastforce
  note sp = as_chunks_split [OF ENTRY_LENGTH_pos cr]
  then have "length xs = length cs * ENTRY_LENGTH + length rest"
    using length_concat_equal [of cs ENTRY_LENGTH] by (metis length_append)
  then have "length xs mod ENTRY_LENGTH = length rest" using sp by simp
  then show ?thesis using cr by (auto simp: entries_from_wire_def split: list.split)
qed

context table_entry
begin

lemma writes_length: "entries_wf t \<Longrightarrow> length (concat (entries_writes ops t)) = entries_wire_length t"
proof (cases t)
  case (Wire es)
  assume "entries_wf t"
  with Wire show ?thesis using length_concat_equal [of es ENTRY_LENGTH]
    by (simp add: entries_wire_length_def)
next
  case (Typed es)
  then show ?thesis using length_concat_equal [of "map (to_wire ops) es" ENTRY_LENGTH]
    by (simp add: entries_wire_length_def to_wire_length)
qed

lemma writes_read_back:
  "entries_wf t \<Longrightarrow> \<exists>t'. entries_from_wire (concat (entries_writes ops t)) = Inr t' \<and> entries_eq ops t' t"
proof (cases t)
  case (Wire es)
  assume "entries_wf t"
  with Wire show ?thesis by (intro exI [of _ t]) (simp add: entries_from_wire_iff entries_eq_def)
next
  case (Typed es)
  then show ?thesis
    by (intro exI [of _ "Wire (map (to_wire ops) es)"])
       (simp add: entries_from_wire_iff entries_eq_def to_wire_length from_to_wire o_def)
qed

lemma read_writes_back: "entries_from_wire xs = Inr t \<Longrightarrow> entries_wf t \<and> concat (entries_writes ops t) = xs"
  by (auto simp: entries_from_wire_iff)

lemma eq_same_octets:
  "entries_wf t \<Longrightarrow> entries_wf u \<Longrightarrow>
     entries_eq ops t u \<longleftrightarrow> concat (entries_writes ops t) = concat (entries_writes ops u)"
proof -
  have w: "concat (entries_writes ops t) = concat (map (to_wire ops) (entries_iter ops t))"
    if "entries_wf t" for t
    using that map_idI [of "case t of Wire es \<Rightarrow> es | _ \<Rightarrow> []" "\<lambda>e. to_wire ops (from_wire ops e)"]
    by (cases t) (simp_all add: o_def to_from_wire)
  have inj: "es = fs" if "concat (map (to_wire ops) es) = concat (map (to_wire ops) fs)" for es fs
  proof -
    have chunks: "as_chunks ENTRY_LENGTH (concat (map (to_wire ops) gs)) = (map (to_wire ops) gs, [])" for gs
      by (rule as_chunks_concat) (simp_all add: to_wire_length)
    have "map (to_wire ops) es = map (to_wire ops) fs" using chunks [of es] unfolding that chunks [of fs] by (simp only: prod.inject)
    then have "map (from_wire ops) (map (to_wire ops) es) = map (from_wire ops) (map (to_wire ops) fs)"
      by simp
    then show ?thesis by (simp add: from_to_wire o_def)
  qed
  assume "entries_wf t" "entries_wf u"
  then show ?thesis using w inj unfolding entries_eq_def by metis
qed

end

lemma ip_octets_length [simp]: "length (ip_octets ip) = 4"
  by (cases ip) (simp add: ip_octets_def)

lemma address_octets_length [simp]: "length (address_to_octets a) = 6"
  by (simp add: address_to_octets_def)

lemma address_from_to [simp]: "address_from_octets (address_to_octets a) = a"
  by (cases a; cases "sa_ip a") (simp add: address_to_octets_def address_from_octets_def ip_octets_def u16_to_be_def)

lemma address_to_from [simp]:
  "address_to_octets (address_from_octets [a, b, c, d, e, f]) = [a, b, c, d, e, f]"
  by (simp add: address_to_octets_def address_from_octets_def ip_octets_def)

lemma address_to_octets_cases:
  obtains a b c d h l where "address_to_octets s = [a, b, c, d, h, l]"
    "address_from_octets [a, b, c, d, h, l] = s"
proof -
  obtain a b c d h l where *: "address_to_octets s = [a, b, c, d, h, l]"
    by (cases "sa_ip s") (simp add: address_to_octets_def ip_octets_def u16_to_be_def)
  with address_from_to [of s] have "address_from_octets [a, b, c, d, h, l] = s" by simp
  with * show ?thesis by (rule that)
qed

lemma list_length_10: "length xs = 10 \<Longrightarrow>
  \<exists>a b c d e f g h i j. xs = [a, b, c, d, e, f, g, h, i, j]"
  by (auto simp: numeral_eq_Suc length_Suc_conv)

interpretation bdt_table: table_entry bdt_ops
proof
  fix e :: bdt_entry and xs :: octets
  show "length (to_wire bdt_ops e) = ENTRY_LENGTH"
    by (simp add: bdt_ops_def bdt_to_octets_def ENTRY_LENGTH_def BDT_ENTRY_LENGTH_def)
  show "from_wire bdt_ops (to_wire bdt_ops e) = e"
    by (cases e; cases "be_mask e"; rule address_to_octets_cases [of "be_address e"])
       (simp add: bdt_ops_def bdt_from_octets_def bdt_to_octets_def ip_octets_def)
  show "to_wire bdt_ops (from_wire bdt_ops xs) = xs" if "length xs = ENTRY_LENGTH"
    using list_length_10 [of xs] that
    by (auto simp: bdt_ops_def bdt_from_octets_def bdt_to_octets_def ip_octets_def
        ENTRY_LENGTH_def BDT_ENTRY_LENGTH_def)
qed

interpretation fdt_table: table_entry fdt_ops
proof
  fix e :: fdt_entry and xs :: octets
  show "length (to_wire fdt_ops e) = ENTRY_LENGTH"
    by (simp add: fdt_ops_def fdt_to_octets_def ENTRY_LENGTH_def BDT_ENTRY_LENGTH_def)
  show "from_wire fdt_ops (to_wire fdt_ops e) = e"
    by (cases e; rule address_to_octets_cases [of "fe_address e"])
       (simp add: fdt_ops_def fdt_from_octets_def fdt_to_octets_def u16_to_be_def)
  show "to_wire fdt_ops (from_wire fdt_ops xs) = xs" if "length xs = ENTRY_LENGTH"
    using list_length_10 [of xs] that
    by (auto simp: fdt_ops_def fdt_from_octets_def fdt_to_octets_def
        ENTRY_LENGTH_def BDT_ENTRY_LENGTH_def)
qed

section \<open>What the message codec computes\<close>

definition bvll_payload :: "bvll \<Rightarrow> octets" where
  "bvll_payload m = concat (payload_writes m)"

definition bvll_octets :: "bvll \<Rightarrow> octets" where
  "bvll_octets m = bvll_header m (BVLL_HEADER_LENGTH + payload_length m) @ bvll_payload m"

fun bvll_wf :: "bvll \<Rightarrow> bool" where
  "bvll_wf (WriteBroadcastDistributionTable t) = entries_wf t"
| "bvll_wf (ReadBroadcastDistributionTableAck t) = entries_wf t"
| "bvll_wf (ReadForeignDeviceTableAck t) = entries_wf t"
| "bvll_wf _ = True"

text \<open>The derived equality: tables are compared by their entries.\<close>

fun bvll_eq :: "bvll \<Rightarrow> bvll \<Rightarrow> bool" where
  "bvll_eq (WriteBroadcastDistributionTable t) (WriteBroadcastDistributionTable u) = entries_eq bdt_ops t u"
| "bvll_eq (ReadBroadcastDistributionTableAck t) (ReadBroadcastDistributionTableAck u) = entries_eq bdt_ops t u"
| "bvll_eq (ReadForeignDeviceTableAck t) (ReadForeignDeviceTableAck u) = entries_eq fdt_ops t u"
| "bvll_eq m n \<longleftrightarrow> m = n"

lemma payload_length_eq: "bvll_wf m \<Longrightarrow> length (bvll_payload m) = payload_length m"
  by (cases m) (simp_all add: bvll_payload_def bdt_table.writes_length fdt_table.writes_length
      del: length_concat)

lemma bvll_match_own:
  assumes "bvll_wf m"
  shows "\<exists>m'. bvll_match (bvll_function m) (bvll_payload m) = Some (Inr m') \<and> bvll_eq m' m"
proof -
  note tables = bdt_table.writes_read_back fdt_table.writes_read_back
  note u16 = u16_to_be_def
  show ?thesis
  proof (cases m)
    case (WriteBroadcastDistributionTable t)
    with assms tables(1) [of t] show ?thesis
      by (auto simp: bvll_match_def bvlc_functions bvll_payload_def)
  next
    case (ReadBroadcastDistributionTableAck t)
    with assms tables(1) [of t] show ?thesis
      by (auto simp: bvll_match_def bvlc_functions bvll_payload_def)
  next
    case (ReadForeignDeviceTableAck t)
    with assms tables(2) [of t] show ?thesis
      by (auto simp: bvll_match_def bvlc_functions bvll_payload_def)
  next
    case (ForwardedNpdu a n)
    then show ?thesis by (rule_tac address_to_octets_cases [of a])
      (simp add: bvll_match_def bvlc_functions bvll_payload_def)
  next
    case (DeleteForeignDeviceTableEntry a)
    then show ?thesis by (rule_tac address_to_octets_cases [of a])
      (simp add: bvll_match_def bvlc_functions bvll_payload_def)
  qed (simp_all add: bvll_match_def bvlc_functions bvll_payload_def u16)
qed

lemma bvll_match_canonical:
  "bvll_match f p = Some (Inr m) \<Longrightarrow> bvll_function m = f \<and> bvll_payload m = p \<and> bvll_wf m"
  by (auto simp: bvll_match_def Let_def try_res_eq_Inr bvll_payload_def
      dest: bdt_table.read_writes_back fdt_table.read_writes_back
      split: if_splits list.splits)

lemma bvll_match_accepts:
  "(\<exists>m. bvll_match f p = Some (Inr m)) \<longleftrightarrow>
     (case bvlc_payload_shape f of None \<Rightarrow> False | Some sh \<Rightarrow> admits sh (length p))"
proof -
  have t: "(\<exists>m. try_res (map_err g (entries_from_wire p)) (\<lambda>t. Inr (k t)) = (Inr m :: bvll_error + bvll))
      \<longleftrightarrow> length p mod 10 = 0" for g :: "bvll_error \<Rightarrow> bvll_error" and k :: "'t entries \<Rightarrow> bvll"
    using entries_from_wire_accepts [of p, where ?'t = 't]
    by (auto simp: try_res_eq_Inr ENTRY_LENGTH_def BDT_ENTRY_LENGTH_def)
  have l2: "(\<exists>m. (case p of [h, l] \<Rightarrow> Some (Inr (k h l)) | _ \<Rightarrow> None) = Some (Inr m :: bvll_error + bvll))
      \<longleftrightarrow> length p = 2" for k
    by (auto split: list.split)
  have l6: "(\<exists>m. (case p of [a, b, c, d, h, l] \<Rightarrow> Some (Inr (k a b c d h l)) | _ \<Rightarrow> None)
       = Some (Inr m :: bvll_error + bvll)) \<longleftrightarrow> length p = 6" for k
    by (auto split: list.split)
  have l6p: "(\<exists>m. (case p of a # b # c # d # h # l # n \<Rightarrow> Some (Inr (k a b c d h l n)) | _ \<Rightarrow> None)
       = Some (Inr m :: bvll_error + bvll)) \<longleftrightarrow> 6 \<le> length p" for k
    by (auto split: list.split)
  have l0: "(\<exists>m. (case p of [] \<Rightarrow> Some (Inr k) | _ \<Rightarrow> None) = Some (Inr m :: bvll_error + bvll))
      \<longleftrightarrow> length p = 0" for k
    by (auto split: list.split)
  show ?thesis
    unfolding bvll_match_def bvlc_payload_shape_def Let_def
    by (simp add: bvlc_functions t l2 l6 l6p l0 BIP_ADDRESS_LENGTH_def BDT_ENTRY_LENGTH_def
        FDT_ENTRY_LENGTH_def)
qed

lemma bvll_frame_decode_iff:
  "bvll_frame_decode d = Inr f \<longleftrightarrow>
     d = [BVLC_TYPE_BIP, bf_to_raw (bvf_function f)] @ u16_to_be (of_nat (length d)) @ bvf_payload f
     \<and> length d \<le> MAX_BVLL_LENGTH"
proof
  assume "bvll_frame_decode d = Inr f"
  then obtain fn h l p where d: "d = BVLC_TYPE_BIP # fn # h # l # p" "unat (u16_be h l) = length d"
      "f = \<lparr>bvf_function = BvlcFunction fn, bvf_payload = p\<rparr>"
    by (auto simp: bvll_frame_decode_def Let_def split: list.splits if_splits)
  have "u16_to_be (of_nat (length d)) = [h, l]"
    unfolding d(2) [symmetric] by (simp del: unat_of_nat)
  moreover have "length d \<le> MAX_BVLL_LENGTH"
    using unat_u16_less [of "u16_be h l"] d(2) by (simp add: MAX_BVLL_LENGTH_def)
  ultimately show "d = [BVLC_TYPE_BIP, bf_to_raw (bvf_function f)] @ u16_to_be (of_nat (length d)) @ bvf_payload f
     \<and> length d \<le> MAX_BVLL_LENGTH" using d by simp
next
  assume *: "d = [BVLC_TYPE_BIP, bf_to_raw (bvf_function f)] @ u16_to_be (of_nat (length d)) @ bvf_payload f
     \<and> length d \<le> MAX_BVLL_LENGTH"
  define w :: u16 where "w = of_nat (length d)"
  have w: "unat w = length d" using * by (simp add: w_def MAX_BVLL_LENGTH_def)
  have d: "d = BVLC_TYPE_BIP # bf_to_raw (bvf_function f) # ucast (drop_bit 8 w) # ucast w # bvf_payload f"
    using * unfolding w_def [symmetric] by (simp add: u16_to_be_def)
  have "bvll_frame_decode d = (if unat w \<noteq> length d then Inl (LengthMismatch (unat w) (length d))
      else Inr \<lparr>bvf_function = bvf_function f, bvf_payload = bvf_payload f\<rparr>)"
    unfolding bvll_frame_decode_def by (subst d, subst list.case, subst list.case, subst list.case, subst list.case)
      (simp add: Let_def d [symmetric])
  then show "bvll_frame_decode d = Inr f" using w by (cases f) simp
qed

lemma bvll_decode_header:
  "bvll_wf m \<Longrightarrow> BVLL_HEADER_LENGTH + payload_length m \<le> MAX_BVLL_LENGTH \<Longrightarrow>
     bvll_frame_decode (bvll_octets m)
       = Inr \<lparr>bvf_function = bvll_function m, bvf_payload = bvll_payload m\<rparr>"
  by (auto simp: bvll_frame_decode_iff bvll_octets_def bvll_header_def BVLL_HEADER_LENGTH_def
      payload_length_eq)

lemma length_bvll_octets: "bvll_wf m \<Longrightarrow> length (bvll_octets m) = BVLL_HEADER_LENGTH + payload_length m"
  by (simp add: bvll_octets_def bvll_header_def BVLL_HEADER_LENGTH_def payload_length_eq)

lemma bvll_encoded_len_iff:
  "bvll_encoded_len m = Inr k \<longleftrightarrow> undefined_result m = None
     \<and> k = BVLL_HEADER_LENGTH + payload_length m \<and> k \<le> MAX_BVLL_LENGTH"
  by (auto simp: bvll_encoded_len_def Let_def split: option.splits)

lemma bvll_decode_octets:
  assumes "bvll_wf m" "bvll_encoded_len m = Inr k"
  shows "\<exists>m'. bvll_decode (bvll_octets m) = Inr m' \<and> bvll_eq m' m"
  using bvll_match_own [OF assms(1)] bvll_decode_header [OF assms(1)] assms(2)
  by (auto simp: bvll_decode_def bvll_frame_message_def bvll_encoded_len_iff)

lemma bvll_decode_imp:
  assumes "bvll_decode d = Inr m"
  shows "bvll_wf m \<and> d = bvll_octets m \<and> length d \<le> MAX_BVLL_LENGTH"
proof -
  from assms obtain f where f: "bvll_frame_decode d = Inr f"
      "bvll_match (bvf_function f) (bvf_payload f) = Some (Inr m)"
    by (auto simp: bvll_decode_def bvll_frame_message_def try_res_eq_Inr split: option.splits if_splits)
  note h = iffD1 [OF bvll_frame_decode_iff f(1)] and m = bvll_match_canonical [OF f(2)]
  have "length d = BVLL_HEADER_LENGTH + payload_length m"
    using arg_cong [OF conjunct1 [OF h], of length] m payload_length_eq [of m]
    by (simp add: BVLL_HEADER_LENGTH_def)
  then show ?thesis using h m by (simp add: bvll_octets_def bvll_header_def)
qed

context frame_sink
begin

lemma bvll_encode_writes:
  assumes "ok s" "bvll_encode_to_sink ops m s = (Inr k, s')"
  shows "contents s' = contents s @ bvll_octets m \<and> bvll_encoded_len m = Inr k"
proof -
  from assms(2) have k: "bvll_encoded_len m = Inr k"
    and w: "write_all ops (bvll_header m k # payload_writes m) s = (Inr (), s')"
    by (auto simp: bvll_encode_to_sink_def split: sum.splits option.splits if_splits prod.splits)
  from write_all_appends [OF assms(1) w] k show ?thesis
    by (auto simp: bvll_octets_def bvll_payload_def bvll_encoded_len_iff)
qed

lemma bvll_encode_all_or_nothing:
  assumes "ok s" "remaining_capacity ops s = Some n" "bvll_wf m"
    and "bvll_encode_to_sink ops m s = (Inl e, s')"
  shows "s' = s \<and> (bvll_encoded_len m = Inl e
           \<or> (\<exists>k. bvll_encoded_len m = Inr k \<and> n < k \<and> e = BufferExhausted k n))"
proof (cases "bvll_encoded_len m")
  case (Inl e')
  with assms(4) show ?thesis by (simp add: bvll_encode_to_sink_def)
next
  case (Inr k)
  have len: "length (concat (bvll_header m k # payload_writes m)) = k"
    using length_bvll_octets [OF assms(3)] Inr
    by (simp add: bvll_octets_def bvll_payload_def bvll_encoded_len_iff)
  show ?thesis
  proof (cases "n < k")
    case True
    with Inr assms(2,4) show ?thesis by (auto simp: bvll_encode_to_sink_def)
  next
    case False
    with len have "length (concat (bvll_header m k # payload_writes m)) \<le> n" by simp
    from write_all_fits [OF assms(1,2) this] show ?thesis
      using Inr False assms(2,4) by (auto simp del: write_all.simps simp: bvll_encode_to_sink_def)
  qed
qed

end

lemma bvll_encode_into_ok:
  assumes "bvll_wf m" "bvll_encoded_len m = Inr k" "k \<le> length out"
  shows "bvll_encode_into m out = (bvll_octets m @ drop k out, Inr k)"
proof -
  have len: "concat (bvll_header m k # payload_writes m) = bvll_octets m" "length (bvll_octets m) = k"
    using length_bvll_octets [OF assms(1)] assms(2)
    by (simp_all add: bvll_octets_def bvll_payload_def bvll_encoded_len_iff)
  have "write_all slice_ops (bvll_header m k # payload_writes m) \<lparr>passed = [], tail = out\<rparr>
      = (Inr (), \<lparr>passed = bvll_octets m, tail = drop k out\<rparr>)"
    by (subst slice_write_all) (simp_all only: len assms(3) slice_sink.simps append_Nil)
  then show ?thesis using assms(2,3)
    by (simp add: bvll_encode_into_def bvll_encode_to_sink_def slice_ops_def del: write_all.simps)
qed

section \<open>Properties\<close>

text \<open>
  C28: What \<open>encode_into\<close> wrote is one BVLL datagram that decodes to an equal message: the
  same message, or for the three that carry a table one with the same entries. The rest of
  the buffer is untouched.
\<close>

theorem bvll_roundtrip:
  assumes "bvll_wf m" and "bvll_encode_into m out = (out', Inr k)"
  shows "(\<exists>m'. bvll_decode (take k out') = Inr m' \<and> bvll_eq m' m)
       \<and> drop k out' = drop k out \<and> length out' = length out"
proof -
  from assms(2) have k: "bvll_encoded_len m = Inr k" "k \<le> length out"
    by (auto simp: bvll_encode_into_def bvll_encode_to_sink_def slice_ops_def
        split: sum.splits prod.splits if_splits)
  have "length (bvll_octets m) = k" using k length_bvll_octets [OF assms(1)] by (simp add: bvll_encoded_len_iff)
  then show ?thesis
    using bvll_encode_into_ok [OF assms(1) k] assms(2) bvll_decode_octets [OF assms(1) k(1)] k(2) by auto
qed

theorem bvll_roundtrip_witness:
  "\<exists>out' m'. bvll_encode_into (RegisterForeignDevice 60) (replicate 8 0) = (out', Inr 6)
     \<and> bvll_decode (take 6 out') = Inr m' \<and> bvll_eq m' (RegisterForeignDevice 60)"
proof -
  have len: "bvll_encoded_len (RegisterForeignDevice 60) = Inr 6"
    by (simp add: bvll_encoded_len_iff undefined_result_def BVLL_HEADER_LENGTH_def MAX_BVLL_LENGTH_def)
  have enc: "bvll_encode_into (RegisterForeignDevice 60) (replicate 8 0)
      = (bvll_octets (RegisterForeignDevice 60) @ drop 6 (replicate 8 0), Inr 6)"
    by (rule bvll_encode_into_ok [OF _ len]) simp_all
  from bvll_roundtrip [OF _ enc] enc show ?thesis by auto
qed

text \<open>
  Decoding loses nothing and accepts nothing else: a datagram that decodes is, octet for
  octet, the encoding of its message, so a message the encoder does not refuse (every decoded
  one but a BVLC-Result of an undefined code) encodes back to the datagram.
\<close>

theorem bvll_decode_canonical:
  assumes "bvll_decode d = Inr m" and "length out = length d"
  shows "bvll_wf m \<and> d = bvll_octets m
       \<and> (case undefined_result m of
            None \<Rightarrow> bvll_encode_into m out = (d, Inr (length d))
          | Some code \<Rightarrow> bvll_encode_into m out = (out, Inl (UndefinedResultCode code)))"
proof -
  note d = bvll_decode_imp [OF assms(1)]
  show ?thesis
  proof (cases "undefined_result m")
    case None
    then have "bvll_encoded_len m = Inr (length d)"
      using d length_bvll_octets [of m] unfolding bvll_encoded_len_iff by auto
    with None d assms(2) bvll_encode_into_ok [of m "length d" out] show ?thesis by simp
  next
    case (Some c)
    with d show ?thesis
      by (simp add: bvll_encode_into_def bvll_encode_to_sink_def bvll_encoded_len_def)
  qed
qed

theorem bvll_decode_canonical_witness:
  "bvll_encode_into (OriginalUnicastNpdu [1, 0]) [0, 0, 0, 0, 0, 0] = ([0x81, 0x0A, 0, 6, 1, 0], Inr 6)"
proof -
  have "bvll_decode [0x81, 0x0A, 0, 6, 1, 0] = Inr (OriginalUnicastNpdu [1, 0])"
    by (simp add: bvll_decode_def bvll_frame_decode_def BVLC_TYPE_BIP_def u16_be_def
        bvll_frame_message_def bvll_match_def bvlc_functions)
  from bvll_decode_canonical [OF this, of "[0, 0, 0, 0, 0, 0]"] show ?thesis
    by (simp add: undefined_result_def)
qed

text \<open>The error of the first check that fails.\<close>

definition bvll_refusal :: "octets \<Rightarrow> bvll_error option" where
  "bvll_refusal d =
     (if length d < 4 then Some (BvllTooShort (length d))
      else if d ! 0 \<noteq> 0x81 then Some (NotBip (d ! 0))
      else if unat (u16_be (d ! 2) (d ! 3)) \<noteq> length d
      then Some (LengthMismatch (unat (u16_be (d ! 2) (d ! 3))) (length d))
      else (case bvlc_payload_shape (BvlcFunction (d ! 1)) of
              None \<Rightarrow> Some (UnknownFunction (d ! 1))
            | Some sh \<Rightarrow> if admits sh (length d - 4) then None
                else Some (PayloadLength (BvlcFunction (d ! 1)) (length d - 4))))"

lemma four_octets: "4 \<le> length d \<Longrightarrow> \<exists>t f h l p. d = t # f # h # l # p"
  by (auto simp: numeral_eq_Suc Suc_le_length_iff)

lemma function_defined_iff: "bvlc_function_is_defined fn \<longleftrightarrow> bvlc_payload_shape fn \<noteq> None"
  by (simp add: bvlc_function_is_defined_def bvlc_payload_shape_def)

lemma try_res_const_error:
  "try_res (map_err (\<lambda>_. w) r) (\<lambda>t. Inr (k t)) = Inl e \<Longrightarrow> e = w"
  by (cases r) simp_all

lemma bvll_match_error: "bvll_match fn p = Some (Inl e) \<Longrightarrow> e = PayloadLength fn (length p)"
  unfolding bvll_match_def Let_def
  by (auto dest: try_res_const_error split: if_split_asm list.split_asm)

lemma bvll_match_defined: "bvll_match fn p = Some r \<Longrightarrow> bvlc_function_is_defined fn"
  unfolding bvll_match_def bvlc_function_is_defined_def Let_def by (simp split: if_split_asm)

lemma bvll_message_refuses:
  "bvll_frame_message \<lparr>bvf_function = fn, bvf_payload = p\<rparr>
     = (case bvlc_payload_shape fn of None \<Rightarrow> Inl (UnknownFunction (bf_to_raw fn))
        | Some sh \<Rightarrow> Inl (PayloadLength fn (length p)))"
  if "case bvlc_payload_shape fn of None \<Rightarrow> True | Some sh \<Rightarrow> \<not> admits sh (length p)"
proof -
  have "\<nexists>m. bvll_match fn p = Some (Inr m)" using that by (simp add: bvll_match_accepts split: option.splits)
  then consider "bvll_match fn p = None" | e where "bvll_match fn p = Some (Inl e)"
    by (metis not_None_eq sum.exhaust)
  then show ?thesis
    by cases (auto simp: bvll_frame_message_def function_defined_iff dest: bvll_match_error bvll_match_defined
        split: option.splits)
qed

lemma bvll_message_accepts:
  "bvlc_payload_shape fn = Some sh \<Longrightarrow> admits sh (length p) \<Longrightarrow>
     \<exists>m. bvll_frame_message \<lparr>bvf_function = fn, bvf_payload = p\<rparr> = Inr m"
  using bvll_match_accepts [of fn p] by (auto simp: bvll_frame_message_def)

text \<open>
  The decoder takes exactly the datagrams the standard's shapes allow: BVLC type 0x81, a
  length field that counts the whole datagram, a function Annex J defines and a payload
  length that the function's \<open>payload_shape\<close> admits. Every other datagram is refused, and
  the error is chosen by the first check that fails.
\<close>

theorem bvll_decode_outcomes:
  "case bvll_refusal d of
     Some e \<Rightarrow> bvll_decode d = Inl e
   | None \<Rightarrow> \<exists>m. bvll_decode d = Inr m \<and> bvll_octets m = d"
proof (cases "length d < 4")
  case True
  then show ?thesis by (auto simp: bvll_refusal_def bvll_decode_def bvll_frame_decode_def split: list.split)
next
  case False
  then obtain t f h l p where d: "d = t # f # h # l # p" using four_octets by (meson not_less)
  then have "bvll_decode d = Inl e" if "bvll_refusal d = Some e" for e
    using that by (auto simp: bvll_refusal_def bvll_decode_def bvll_frame_decode_def BVLC_TYPE_BIP_def
        bvll_message_refuses Let_def split: if_splits option.splits)
  moreover have "\<exists>m. bvll_decode d = Inr m" if "bvll_refusal d = None"
    using that d bvll_message_accepts [of "BvlcFunction f" _ p]
    by (auto simp: bvll_refusal_def bvll_decode_def bvll_frame_decode_def BVLC_TYPE_BIP_def Let_def
        split: if_splits option.splits)
  ultimately show ?thesis using bvll_decode_imp by (fastforce split: option.split)
qed

text \<open>
  Encoding into any of the crate's sinks of fixed size is all or nothing: a refusal
  leaves the sink as it was and is the message's own fault or the lack of room, and a success
  appends the whole datagram; a growable \<open>Vec\<close> takes every message that has an encoding.
\<close>

theorem bvll_encode_sinks:
  assumes "bvll_wf m" "length v \<le> n"
  shows "(case bvll_encode_to_sink (heapless_ops n) m v of
            (Inl e, v') \<Rightarrow> v' = v \<and> (bvll_encoded_len m = Inl e
               \<or> (\<exists>k. bvll_encoded_len m = Inr k \<and> n - length v < k \<and> e = BufferExhausted k (n - length v)))
          | (Inr k, v') \<Rightarrow> v' = v @ bvll_octets m \<and> bvll_encoded_len m = Inr k)
       \<and> bvll_encode_to_sink vec_ops m v =
          (case bvll_encoded_len m of Inl e \<Rightarrow> (Inl e, v) | Inr k \<Rightarrow> (Inr k, v @ bvll_octets m))"
proof
  obtain r v' where rv: "bvll_encode_to_sink (heapless_ops n) m v = (r, v')" by fastforce
  have cap: "remaining_capacity (heapless_ops n) v = Some (n - length v)" by (simp add: heapless_ops_def)
  show "case bvll_encode_to_sink (heapless_ops n) m v of
            (Inl e, v') \<Rightarrow> v' = v \<and> (bvll_encoded_len m = Inl e
               \<or> (\<exists>k. bvll_encoded_len m = Inr k \<and> n - length v < k \<and> e = BufferExhausted k (n - length v)))
          | (Inr k, v') \<Rightarrow> v' = v @ bvll_octets m \<and> bvll_encoded_len m = Inr k"
    using heapless_frame_sink.bvll_encode_writes [OF assms(2), of m _ v']
      heapless_frame_sink.bvll_encode_all_or_nothing [OF assms(2) cap assms(1), of _ v'] rv
    by (cases r) auto
  have "remaining_capacity vec_ops v = None" by (simp add: vec_ops_def)
  then show "bvll_encode_to_sink vec_ops m v =
          (case bvll_encoded_len m of Inl e \<Rightarrow> (Inl e, v) | Inr k \<Rightarrow> (Inr k, v @ bvll_octets m))"
    by (cases "bvll_encoded_len m")
       (auto simp: bvll_encode_to_sink_def vec_write_all bvll_octets_def bvll_payload_def
        simp del: write_all.simps dest: iffD1 [OF bvll_encoded_len_iff])
qed

theorem bvll_encode_sinks_witness:
  "bvll_encode_to_sink vec_ops ReadForeignDeviceTable [] = (Inr 4, [0x81, 6, 0, 4])"
proof -
  have "bvll_encoded_len ReadForeignDeviceTable = Inr 4"
    by (simp add: bvll_encoded_len_iff undefined_result_def BVLL_HEADER_LENGTH_def MAX_BVLL_LENGTH_def)
  with bvll_encode_sinks [of ReadForeignDeviceTable "[]" 4] show ?thesis
    by (simp add: bvll_octets_def bvll_header_def bvll_payload_def BVLL_HEADER_LENGTH_def
        BVLC_TYPE_BIP_def bvlc_functions u16_to_be_def)
qed

end
