(* ===== verification/Bip6_Codec.thy ===== *)
theory Bip6_Codec
  imports Bip_Codec
begin

text \<open>
  BACnet/IPv6's virtual link layer messages (\<open>crates/bacnet-bip-codec/src/ipv6\<close>,
  \<open>function.rs\<close>, \<open>address.rs\<close>, \<open>error.rs\<close>, \<open>message.rs\<close>): codes and payload shapes, the
  three-octet VMAC and the 18-octet address, the header check, the reader that takes a
  payload field by field, and the encoder. The constants and payload shapes shared with
  BACnet/IP are those of \<open>Bip_Codec\<close>. Names that both families have carry a \<open>6\<close> here.
\<close>

section \<open>Constants and codes\<close>

definition BVLC_TYPE_BIP6 :: octet where "BVLC_TYPE_BIP6 = 0x82"
definition VMAC_LENGTH :: nat where "VMAC_LENGTH = 3"
definition BIP6_ADDRESS_LENGTH :: nat where "BIP6_ADDRESS_LENGTH = 18"
definition IPV6_LENGTH :: nat where "IPV6_LENGTH = 16"

datatype bvlc6_function = Bvlc6Function (bf6_to_raw: octet)
datatype bvlc6_result_code = Bvlc6ResultCode (rc6_to_raw: u16)

definition BVLC_RESULT6 :: bvlc6_function where "BVLC_RESULT6 = Bvlc6Function 0x00"
definition ORIGINAL_UNICAST_NPDU6 :: bvlc6_function where "ORIGINAL_UNICAST_NPDU6 = Bvlc6Function 0x01"
definition ORIGINAL_BROADCAST_NPDU6 :: bvlc6_function where "ORIGINAL_BROADCAST_NPDU6 = Bvlc6Function 0x02"
definition ADDRESS_RESOLUTION :: bvlc6_function where "ADDRESS_RESOLUTION = Bvlc6Function 0x03"
definition FORWARDED_ADDRESS_RESOLUTION :: bvlc6_function where
  "FORWARDED_ADDRESS_RESOLUTION = Bvlc6Function 0x04"
definition ADDRESS_RESOLUTION_ACK :: bvlc6_function where "ADDRESS_RESOLUTION_ACK = Bvlc6Function 0x05"
definition VIRTUAL_ADDRESS_RESOLUTION :: bvlc6_function where
  "VIRTUAL_ADDRESS_RESOLUTION = Bvlc6Function 0x06"
definition VIRTUAL_ADDRESS_RESOLUTION_ACK :: bvlc6_function where
  "VIRTUAL_ADDRESS_RESOLUTION_ACK = Bvlc6Function 0x07"
definition FORWARDED_NPDU6 :: bvlc6_function where "FORWARDED_NPDU6 = Bvlc6Function 0x08"
definition REGISTER_FOREIGN_DEVICE6 :: bvlc6_function where
  "REGISTER_FOREIGN_DEVICE6 = Bvlc6Function 0x09"
definition DELETE_FOREIGN_DEVICE_TABLE_ENTRY6 :: bvlc6_function where
  "DELETE_FOREIGN_DEVICE_TABLE_ENTRY6 = Bvlc6Function 0x0A"
definition DISTRIBUTE_BROADCAST_TO_NETWORK6 :: bvlc6_function where
  "DISTRIBUTE_BROADCAST_TO_NETWORK6 = Bvlc6Function 0x0C"

lemmas bvlc6_functions = BVLC_RESULT6_def ORIGINAL_UNICAST_NPDU6_def ORIGINAL_BROADCAST_NPDU6_def
  ADDRESS_RESOLUTION_def FORWARDED_ADDRESS_RESOLUTION_def ADDRESS_RESOLUTION_ACK_def
  VIRTUAL_ADDRESS_RESOLUTION_def VIRTUAL_ADDRESS_RESOLUTION_ACK_def FORWARDED_NPDU6_def
  REGISTER_FOREIGN_DEVICE6_def DELETE_FOREIGN_DEVICE_TABLE_ENTRY6_def
  DISTRIBUTE_BROADCAST_TO_NETWORK6_def

definition bvlc6_function_is_defined :: "bvlc6_function \<Rightarrow> bool" where
  "bvlc6_function_is_defined f \<longleftrightarrow>
     f \<in> {BVLC_RESULT6, ORIGINAL_UNICAST_NPDU6, ORIGINAL_BROADCAST_NPDU6, ADDRESS_RESOLUTION,
          FORWARDED_ADDRESS_RESOLUTION, ADDRESS_RESOLUTION_ACK, VIRTUAL_ADDRESS_RESOLUTION,
          VIRTUAL_ADDRESS_RESOLUTION_ACK, FORWARDED_NPDU6, REGISTER_FOREIGN_DEVICE6,
          DELETE_FOREIGN_DEVICE_TABLE_ENTRY6, DISTRIBUTE_BROADCAST_TO_NETWORK6}"

definition SUCCESSFUL_COMPLETION6 :: bvlc6_result_code where
  "SUCCESSFUL_COMPLETION6 = Bvlc6ResultCode 0x0000"
definition ADDRESS_RESOLUTION_NAK :: bvlc6_result_code where
  "ADDRESS_RESOLUTION_NAK = Bvlc6ResultCode 0x0030"
definition VIRTUAL_ADDRESS_RESOLUTION_NAK :: bvlc6_result_code where
  "VIRTUAL_ADDRESS_RESOLUTION_NAK = Bvlc6ResultCode 0x0060"
definition REGISTER_FOREIGN_DEVICE_NAK6 :: bvlc6_result_code where
  "REGISTER_FOREIGN_DEVICE_NAK6 = Bvlc6ResultCode 0x0090"
definition DELETE_FOREIGN_DEVICE_TABLE_ENTRY_NAK6 :: bvlc6_result_code where
  "DELETE_FOREIGN_DEVICE_TABLE_ENTRY_NAK6 = Bvlc6ResultCode 0x00A0"
definition DISTRIBUTE_BROADCAST_TO_NETWORK_NAK6 :: bvlc6_result_code where
  "DISTRIBUTE_BROADCAST_TO_NETWORK_NAK6 = Bvlc6ResultCode 0x00C0"

definition result_code6_is_defined :: "bvlc6_result_code \<Rightarrow> bool" where
  "result_code6_is_defined c \<longleftrightarrow>
     c \<in> {SUCCESSFUL_COMPLETION6, ADDRESS_RESOLUTION_NAK, VIRTUAL_ADDRESS_RESOLUTION_NAK,
          REGISTER_FOREIGN_DEVICE_NAK6, DELETE_FOREIGN_DEVICE_TABLE_ENTRY_NAK6,
          DISTRIBUTE_BROADCAST_TO_NETWORK_NAK6}"

definition payload_shape6 :: "bvlc6_function \<Rightarrow> payload_shape option" where
  "payload_shape6 f =
     (if f = VIRTUAL_ADDRESS_RESOLUTION then Some (Fixed VMAC_LENGTH)
      else if f = BVLC_RESULT6 \<or> f = REGISTER_FOREIGN_DEVICE6 then Some (Fixed (VMAC_LENGTH + 2))
      else if f = ADDRESS_RESOLUTION \<or> f = ADDRESS_RESOLUTION_ACK \<or> f = VIRTUAL_ADDRESS_RESOLUTION_ACK
        then Some (Fixed (2 * VMAC_LENGTH))
      else if f = DELETE_FOREIGN_DEVICE_TABLE_ENTRY6 then Some (Fixed (VMAC_LENGTH + BIP6_ADDRESS_LENGTH))
      else if f = FORWARDED_ADDRESS_RESOLUTION
        then Some (Fixed (2 * VMAC_LENGTH + BIP6_ADDRESS_LENGTH))
      else if f = ORIGINAL_BROADCAST_NPDU6 \<or> f = DISTRIBUTE_BROADCAST_TO_NETWORK6
        then Some (NpduShape VMAC_LENGTH)
      else if f = ORIGINAL_UNICAST_NPDU6 then Some (NpduShape (2 * VMAC_LENGTH))
      else if f = FORWARDED_NPDU6 then Some (NpduShape (VMAC_LENGTH + BIP6_ADDRESS_LENGTH))
      else None)"

definition function6_nak :: "bvlc6_function \<Rightarrow> bvlc6_result_code option" where
  "function6_nak f =
     (if f = ADDRESS_RESOLUTION then Some ADDRESS_RESOLUTION_NAK
      else if f = VIRTUAL_ADDRESS_RESOLUTION then Some VIRTUAL_ADDRESS_RESOLUTION_NAK
      else if f = REGISTER_FOREIGN_DEVICE6 then Some REGISTER_FOREIGN_DEVICE_NAK6
      else if f = DELETE_FOREIGN_DEVICE_TABLE_ENTRY6 then Some DELETE_FOREIGN_DEVICE_TABLE_ENTRY_NAK6
      else if f = DISTRIBUTE_BROADCAST_TO_NETWORK6 then Some DISTRIBUTE_BROADCAST_TO_NETWORK_NAK6
      else None)"

datatype bvll6_error =
    TooShort6 nat
  | NotBip6 octet
  | LengthMismatch6 nat nat
  | UnknownFunction6 octet
  | PayloadLength6 bvlc6_function nat
  | AddressLength6 nat
  | TooLong6 nat
  | UndefinedResultCode6 u16
  | BufferExhausted6 nat nat

definition bvll6_from_sink_full :: "sink_full \<Rightarrow> bvll6_error" where
  "bvll6_from_sink_full full = BufferExhausted6 (sf_needed full) (sf_available full)"

section \<open>Addresses\<close>

text \<open>The IP address is its sixteen octets, a fixed-size array in the source.\<close>

record bip6_address =
  b6_ip :: octets
  b6_port :: u16

definition bip6_address_wf :: "bip6_address \<Rightarrow> bool" where
  "bip6_address_wf a \<longleftrightarrow> length (b6_ip a) = IPV6_LENGTH"

definition address6_to_octets :: "bip6_address \<Rightarrow> octets" where
  "address6_to_octets a = b6_ip a @ u16_to_be (b6_port a)"

definition address6_from_octets :: "octets \<Rightarrow> bip6_address" where
  "address6_from_octets octets =
     \<lparr>b6_ip = take IPV6_LENGTH octets,
      b6_port = u16_be (octets ! IPV6_LENGTH) (octets ! (IPV6_LENGTH + 1))\<rparr>"

definition address6_from_slice :: "octets \<Rightarrow> bvll6_error + bip6_address" where
  "address6_from_slice octets =
     (if length octets = BIP6_ADDRESS_LENGTH then Inr (address6_from_octets octets)
      else Inl (AddressLength6 (length octets)))"

datatype bip6_vmac = Bip6Vmac octet octet octet

fun vmac_octets :: "bip6_vmac \<Rightarrow> octets" where
  "vmac_octets (Bip6Vmac a b c) = [a, b, c]"

section \<open>Reading a payload\<close>

text \<open>\<open>Fields\<close> is what is left of the payload; each reader gives the field and the rest.\<close>

definition fields_take :: "nat \<Rightarrow> octets \<Rightarrow> (octets \<times> octets) option" where
  "fields_take n xs = (if n \<le> length xs then Some (take n xs, drop n xs) else None)"

definition fields_vmac :: "octets \<Rightarrow> (bip6_vmac \<times> octets) option" where
  "fields_vmac xs = map_option (\<lambda>(f, rest). (Bip6Vmac (f ! 0) (f ! 1) (f ! 2), rest)) (fields_take VMAC_LENGTH xs)"

definition fields_address :: "octets \<Rightarrow> (bip6_address \<times> octets) option" where
  "fields_address xs = map_option (\<lambda>(f, rest). (address6_from_octets f, rest)) (fields_take BIP6_ADDRESS_LENGTH xs)"

definition fields_u16 :: "octets \<Rightarrow> (u16 \<times> octets) option" where
  "fields_u16 xs = map_option (\<lambda>(f, rest). (u16_be (f ! 0) (f ! 1), rest)) (fields_take 2 xs)"

definition fields_end :: "octets \<Rightarrow> 'm \<Rightarrow> 'm option" where
  "fields_end xs m = (if xs = [] then Some m else None)"

datatype bvll6 =
    BvlcResult6 bip6_vmac bvlc6_result_code
  | OriginalUnicastNpdu6 bip6_vmac bip6_vmac octets
  | OriginalBroadcastNpdu6 bip6_vmac octets
  | AddressResolution bip6_vmac bip6_vmac
  | ForwardedAddressResolution bip6_vmac bip6_vmac bip6_address
  | AddressResolutionAck bip6_vmac bip6_vmac
  | VirtualAddressResolution bip6_vmac
  | VirtualAddressResolutionAck bip6_vmac bip6_vmac
  | ForwardedNpdu6 bip6_vmac bip6_address octets
  | RegisterForeignDevice6 bip6_vmac u16
  | DeleteForeignDeviceTableEntry6 bip6_vmac bip6_address
  | DistributeBroadcastToNetwork6 bip6_vmac octets

definition read_bvll6 :: "bvlc6_function \<Rightarrow> octets \<Rightarrow> bvll6 option" where
  "read_bvll6 function payload =
     Option.bind (fields_vmac payload) (\<lambda>(source, xs).
       if function = BVLC_RESULT6 then
         Option.bind (fields_u16 xs) (\<lambda>(code, xs). fields_end xs (BvlcResult6 source (Bvlc6ResultCode code)))
       else if function = ORIGINAL_UNICAST_NPDU6 then
         Option.bind (fields_vmac xs) (\<lambda>(destination, xs). Some (OriginalUnicastNpdu6 source destination xs))
       else if function = ORIGINAL_BROADCAST_NPDU6 then Some (OriginalBroadcastNpdu6 source xs)
       else if function = ADDRESS_RESOLUTION then
         Option.bind (fields_vmac xs) (\<lambda>(target, xs). fields_end xs (AddressResolution source target))
       else if function = FORWARDED_ADDRESS_RESOLUTION then
         Option.bind (fields_vmac xs) (\<lambda>(target, xs).
           Option.bind (fields_address xs) (\<lambda>(a, xs). fields_end xs (ForwardedAddressResolution source target a)))
       else if function = ADDRESS_RESOLUTION_ACK then
         Option.bind (fields_vmac xs) (\<lambda>(destination, xs). fields_end xs (AddressResolutionAck source destination))
       else if function = VIRTUAL_ADDRESS_RESOLUTION then fields_end xs (VirtualAddressResolution source)
       else if function = VIRTUAL_ADDRESS_RESOLUTION_ACK then
         Option.bind (fields_vmac xs) (\<lambda>(destination, xs).
           fields_end xs (VirtualAddressResolutionAck source destination))
       else if function = FORWARDED_NPDU6 then
         Option.bind (fields_address xs) (\<lambda>(a, xs). Some (ForwardedNpdu6 source a xs))
       else if function = REGISTER_FOREIGN_DEVICE6 then
         Option.bind (fields_u16 xs) (\<lambda>(ttl, xs). fields_end xs (RegisterForeignDevice6 source ttl))
       else if function = DELETE_FOREIGN_DEVICE_TABLE_ENTRY6 then
         Option.bind (fields_address xs) (\<lambda>(entry, xs). fields_end xs (DeleteForeignDeviceTableEntry6 source entry))
       else if function = DISTRIBUTE_BROADCAST_TO_NETWORK6 then Some (DistributeBroadcastToNetwork6 source xs)
       else None)"

record bvll6_frame =
  bv6_function :: bvlc6_function
  bv6_payload :: octets

definition bvll6_frame_decode :: "octets \<Rightarrow> bvll6_error + bvll6_frame" where
  "bvll6_frame_decode datagram =
     (case datagram of bvlc_type # function # high # low # payload \<Rightarrow>
        if bvlc_type \<noteq> BVLC_TYPE_BIP6 then Inl (NotBip6 bvlc_type)
        else let declared = unat (u16_be high low) in
          if declared \<noteq> length datagram then Inl (LengthMismatch6 declared (length datagram))
          else Inr \<lparr>bv6_function = Bvlc6Function function, bv6_payload = payload\<rparr>
      | _ \<Rightarrow> Inl (TooShort6 (length datagram)))"

definition bvll6_frame_message :: "bvll6_frame \<Rightarrow> bvll6_error + bvll6" where
  "bvll6_frame_message f =
     (case read_bvll6 (bv6_function f) (bv6_payload f) of
        Some m \<Rightarrow> Inr m
      | None \<Rightarrow>
          if bvlc6_function_is_defined (bv6_function f)
          then Inl (PayloadLength6 (bv6_function f) (length (bv6_payload f)))
          else Inl (UnknownFunction6 (bf6_to_raw (bv6_function f))))"

definition bvll6_decode :: "octets \<Rightarrow> bvll6_error + bvll6" where
  "bvll6_decode datagram = try_res (bvll6_frame_decode datagram) bvll6_frame_message"

section \<open>Encoding\<close>

fun bvll6_function :: "bvll6 \<Rightarrow> bvlc6_function" where
  "bvll6_function (BvlcResult6 _ _) = BVLC_RESULT6"
| "bvll6_function (OriginalUnicastNpdu6 _ _ _) = ORIGINAL_UNICAST_NPDU6"
| "bvll6_function (OriginalBroadcastNpdu6 _ _) = ORIGINAL_BROADCAST_NPDU6"
| "bvll6_function (AddressResolution _ _) = ADDRESS_RESOLUTION"
| "bvll6_function (ForwardedAddressResolution _ _ _) = FORWARDED_ADDRESS_RESOLUTION"
| "bvll6_function (AddressResolutionAck _ _) = ADDRESS_RESOLUTION_ACK"
| "bvll6_function (VirtualAddressResolution _) = VIRTUAL_ADDRESS_RESOLUTION"
| "bvll6_function (VirtualAddressResolutionAck _ _) = VIRTUAL_ADDRESS_RESOLUTION_ACK"
| "bvll6_function (ForwardedNpdu6 _ _ _) = FORWARDED_NPDU6"
| "bvll6_function (RegisterForeignDevice6 _ _) = REGISTER_FOREIGN_DEVICE6"
| "bvll6_function (DeleteForeignDeviceTableEntry6 _ _) = DELETE_FOREIGN_DEVICE_TABLE_ENTRY6"
| "bvll6_function (DistributeBroadcastToNetwork6 _ _) = DISTRIBUTE_BROADCAST_TO_NETWORK6"

fun source_vmac :: "bvll6 \<Rightarrow> bip6_vmac" where
  "source_vmac (BvlcResult6 s _) = s"
| "source_vmac (OriginalUnicastNpdu6 s _ _) = s"
| "source_vmac (OriginalBroadcastNpdu6 s _) = s"
| "source_vmac (AddressResolution s _) = s"
| "source_vmac (ForwardedAddressResolution s _ _) = s"
| "source_vmac (AddressResolutionAck s _) = s"
| "source_vmac (VirtualAddressResolution s) = s"
| "source_vmac (VirtualAddressResolutionAck s _) = s"
| "source_vmac (ForwardedNpdu6 s _ _) = s"
| "source_vmac (RegisterForeignDevice6 s _) = s"
| "source_vmac (DeleteForeignDeviceTableEntry6 s _) = s"
| "source_vmac (DistributeBroadcastToNetwork6 s _) = s"

fun destination_vmac :: "bvll6 \<Rightarrow> bip6_vmac option" where
  "destination_vmac (OriginalUnicastNpdu6 _ d _) = Some d"
| "destination_vmac (AddressResolutionAck _ d) = Some d"
| "destination_vmac (VirtualAddressResolutionAck _ d) = Some d"
| "destination_vmac _ = None"

fun bvll6_npdu :: "bvll6 \<Rightarrow> octets option" where
  "bvll6_npdu (OriginalUnicastNpdu6 _ _ npdu) = Some npdu"
| "bvll6_npdu (OriginalBroadcastNpdu6 _ npdu) = Some npdu"
| "bvll6_npdu (ForwardedNpdu6 _ _ npdu) = Some npdu"
| "bvll6_npdu (DistributeBroadcastToNetwork6 _ npdu) = Some npdu"
| "bvll6_npdu _ = None"

fun bvll6_origin :: "bvll6 \<Rightarrow> bip6_address option" where
  "bvll6_origin (ForwardedNpdu6 _ a _) = Some a"
| "bvll6_origin (ForwardedAddressResolution _ _ a) = Some a"
| "bvll6_origin _ = None"

definition payload_length6 :: "bvll6 \<Rightarrow> nat" where
  "payload_length6 m =
     (let fixed = (case payload_shape6 (bvll6_function m) of
          Some (Fixed n) \<Rightarrow> n | Some (NpduShape n) \<Rightarrow> n | Some (Table _) \<Rightarrow> 0 | None \<Rightarrow> 0)
      in case bvll6_npdu m of Some npdu \<Rightarrow> fixed + length npdu | None \<Rightarrow> fixed)"

definition undefined_result6 :: "bvll6 \<Rightarrow> u16 option" where
  "undefined_result6 m = (case m of
      BvlcResult6 _ code \<Rightarrow> if result_code6_is_defined code then None else Some (rc6_to_raw code)
    | _ \<Rightarrow> None)"

definition bvll6_encoded_len :: "bvll6 \<Rightarrow> bvll6_error + nat" where
  "bvll6_encoded_len m =
     (case undefined_result6 m of
        Some code \<Rightarrow> Inl (UndefinedResultCode6 code)
      | None \<Rightarrow>
          let len = BVLL_HEADER_LENGTH + payload_length6 m in
          if len > MAX_BVLL_LENGTH then Inl (TooLong6 len) else Inr len)"

definition bvll6_header :: "bvll6 \<Rightarrow> nat \<Rightarrow> octets" where
  "bvll6_header m len =
     [BVLC_TYPE_BIP6, bf6_to_raw (bvll6_function m)] @ u16_to_be (of_nat len) @ vmac_octets (source_vmac m)"

fun payload6_writes :: "bvll6 \<Rightarrow> octets list" where
  "payload6_writes (VirtualAddressResolution _) = []"
| "payload6_writes (BvlcResult6 _ code) = [u16_to_be (rc6_to_raw code)]"
| "payload6_writes (RegisterForeignDevice6 _ ttl) = [u16_to_be ttl]"
| "payload6_writes (AddressResolution _ second) = [vmac_octets second]"
| "payload6_writes (AddressResolutionAck _ second) = [vmac_octets second]"
| "payload6_writes (VirtualAddressResolutionAck _ second) = [vmac_octets second]"
| "payload6_writes (ForwardedAddressResolution _ target a) = [vmac_octets target, address6_to_octets a]"
| "payload6_writes (DeleteForeignDeviceTableEntry6 _ entry) = [address6_to_octets entry]"
| "payload6_writes (OriginalUnicastNpdu6 _ destination npdu) = [vmac_octets destination, npdu]"
| "payload6_writes (ForwardedNpdu6 _ a npdu) = [address6_to_octets a, npdu]"
| "payload6_writes (OriginalBroadcastNpdu6 _ npdu) = [npdu]"
| "payload6_writes (DistributeBroadcastToNetwork6 _ npdu) = [npdu]"

definition bvll6_encode_to_sink :: "'s sink_ops \<Rightarrow> bvll6 \<Rightarrow> 's \<Rightarrow> (bvll6_error + nat) \<times> 's" where
  "bvll6_encode_to_sink ops m s =
     (case bvll6_encoded_len m of Inl e \<Rightarrow> (Inl e, s)
      | Inr len \<Rightarrow>
          if (case remaining_capacity ops s of Some available \<Rightarrow> available < len | None \<Rightarrow> False)
          then (Inl (BufferExhausted6 len (the (remaining_capacity ops s))), s)
          else (case write_all ops (bvll6_header m len # payload6_writes m) s of
                  (Inl e, s') \<Rightarrow> (Inl (bvll6_from_sink_full e), s')
                | (Inr _, s') \<Rightarrow> (Inr len, s')))"

definition bvll6_encode_into :: "bvll6 \<Rightarrow> octets \<Rightarrow> octets \<times> (bvll6_error + nat)" where
  "bvll6_encode_into m out =
     (case bvll6_encode_to_sink slice_ops m \<lparr>passed = [], tail = out\<rparr> of
        (r, s) \<Rightarrow> (passed s @ tail s, r))"

section \<open>What the codec computes\<close>

fun bvll6_wf :: "bvll6 \<Rightarrow> bool" where
  "bvll6_wf (ForwardedAddressResolution _ _ a) = bip6_address_wf a"
| "bvll6_wf (ForwardedNpdu6 _ a _) = bip6_address_wf a"
| "bvll6_wf (DeleteForeignDeviceTableEntry6 _ a) = bip6_address_wf a"
| "bvll6_wf _ = True"

definition bvll6_payload :: "bvll6 \<Rightarrow> octets" where
  "bvll6_payload m = vmac_octets (source_vmac m) @ concat (payload6_writes m)"

definition bvll6_octets :: "bvll6 \<Rightarrow> octets" where
  "bvll6_octets m = bvll6_header m (BVLL_HEADER_LENGTH + payload_length6 m) @ concat (payload6_writes m)"

lemma vmac_octets_length [simp]: "length (vmac_octets v) = 3" by (cases v) simp

lemma fields_vmac_iff: "fields_vmac xs = Some (v, rest) \<longleftrightarrow> xs = vmac_octets v @ rest"
proof
  assume "fields_vmac xs = Some (v, rest)"
  then have "3 \<le> length xs" "v = Bip6Vmac (xs ! 0) (xs ! 1) (xs ! 2)" "rest = drop 3 xs"
    by (auto simp: fields_vmac_def fields_take_def VMAC_LENGTH_def split: if_splits)
  then show "xs = vmac_octets v @ rest" by (auto simp: numeral_eq_Suc Suc_le_length_iff)
next
  assume "xs = vmac_octets v @ rest"
  then show "fields_vmac xs = Some (v, rest)"
    by (cases v) (simp add: fields_vmac_def fields_take_def VMAC_LENGTH_def numeral_eq_Suc)
qed

lemma fields_u16_iff: "fields_u16 xs = Some (w, rest) \<longleftrightarrow> xs = u16_to_be w @ rest"
proof
  assume "fields_u16 xs = Some (w, rest)"
  then have "2 \<le> length xs" "w = u16_be (xs ! 0) (xs ! 1)" "rest = drop 2 xs"
    by (auto simp: fields_u16_def fields_take_def split: if_splits)
  then show "xs = u16_to_be w @ rest" by (auto simp: numeral_eq_Suc Suc_le_length_iff)
next
  assume "xs = u16_to_be w @ rest"
  then show "fields_u16 xs = Some (w, rest)"
    by (simp add: fields_u16_def fields_take_def u16_to_be_def)
qed

lemma address6_to_from:
  "length xs = 18 \<Longrightarrow> address6_to_octets (address6_from_octets xs) = xs \<and> bip6_address_wf (address6_from_octets xs)"
proof -
  assume l: "length xs = 18"
  have "drop 16 xs = [xs ! 16, xs ! 17]"
    using l Cons_nth_drop_Suc [of 16 xs] Cons_nth_drop_Suc [of 17 xs] by simp
  then have "take 16 xs @ [xs ! 16, xs ! 17] = xs" by (metis append_take_drop_id)
  then show ?thesis using l
    by (simp add: address6_to_octets_def address6_from_octets_def IPV6_LENGTH_def bip6_address_wf_def)
qed

lemma address6_from_to: "bip6_address_wf a \<Longrightarrow> address6_from_octets (address6_to_octets a) = a"
  by (cases a) (simp add: address6_to_octets_def address6_from_octets_def bip6_address_wf_def
      u16_to_be_def nth_append)

lemma length_address6 [simp]: "bip6_address_wf a \<Longrightarrow> length (address6_to_octets a) = 18"
  by (simp add: address6_to_octets_def bip6_address_wf_def IPV6_LENGTH_def)

lemma fields_address_iff:
  "fields_address xs = Some (a, rest) \<longleftrightarrow> bip6_address_wf a \<and> xs = address6_to_octets a @ rest"
proof
  assume "fields_address xs = Some (a, rest)"
  then have "18 \<le> length xs" "a = address6_from_octets (take 18 xs)" "rest = drop 18 xs"
    by (auto simp: fields_address_def fields_take_def BIP6_ADDRESS_LENGTH_def split: if_splits)
  then show "bip6_address_wf a \<and> xs = address6_to_octets a @ rest"
    using address6_to_from [of "take 18 xs"] by simp
next
  assume "bip6_address_wf a \<and> xs = address6_to_octets a @ rest"
  then show "fields_address xs = Some (a, rest)"
    by (simp add: fields_address_def fields_take_def BIP6_ADDRESS_LENGTH_def address6_from_to)
qed

lemma bind_fields: "Option.bind m (\<lambda>(v, rest). k v rest) = Some y \<longleftrightarrow>
  (\<exists>v rest. m = Some (v, rest) \<and> k v rest = Some y)"
  by (cases m) auto

lemma fields_end_iff: "fields_end xs m = Some y \<longleftrightarrow> xs = [] \<and> m = y"
  by (simp add: fields_end_def)

text \<open>The reader accepts exactly the payload that the message's encoding has.\<close>

lemma read_bvll6_iff:
  "read_bvll6 f p = Some m \<longleftrightarrow> bvll6_wf m \<and> f = bvll6_function m \<and> p = bvll6_payload m"
proof
  assume "read_bvll6 f p = Some m"
  then show "bvll6_wf m \<and> f = bvll6_function m \<and> p = bvll6_payload m"
    unfolding read_bvll6_def bind_fields fields_vmac_iff
    by (auto simp: bind_fields fields_vmac_iff fields_u16_iff fields_address_iff fields_end_iff
        bvll6_payload_def split: if_split_asm)
next
  assume "bvll6_wf m \<and> f = bvll6_function m \<and> p = bvll6_payload m"
  then show "read_bvll6 f p = Some m"
    unfolding read_bvll6_def bind_fields fields_vmac_iff
    by (cases m) (auto simp: bind_fields fields_vmac_iff fields_u16_iff fields_address_iff
        fields_end_iff bvll6_payload_def bvlc6_functions, metis bvlc6_result_code.collapse)
qed

lemma payload_length6_eq: "bvll6_wf m \<Longrightarrow> length (bvll6_payload m) = payload_length6 m"
  by (cases m) (simp_all add: bvll6_payload_def payload_length6_def payload_shape6_def bvlc6_functions
      VMAC_LENGTH_def BIP6_ADDRESS_LENGTH_def)

lemma bvll6_octets_eq:
  "bvll6_octets m = [BVLC_TYPE_BIP6, bf6_to_raw (bvll6_function m)]
     @ u16_to_be (of_nat (BVLL_HEADER_LENGTH + payload_length6 m)) @ bvll6_payload m"
  by (simp add: bvll6_octets_def bvll6_header_def bvll6_payload_def)

lemma length_bvll6_octets: "bvll6_wf m \<Longrightarrow> length (bvll6_octets m) = BVLL_HEADER_LENGTH + payload_length6 m"
  by (simp add: bvll6_octets_eq BVLL_HEADER_LENGTH_def payload_length6_eq)

lemma bvll6_encoded_len_iff:
  "bvll6_encoded_len m = Inr k \<longleftrightarrow> undefined_result6 m = None
     \<and> k = BVLL_HEADER_LENGTH + payload_length6 m \<and> k \<le> MAX_BVLL_LENGTH"
  by (auto simp: bvll6_encoded_len_def Let_def split: option.splits)

lemma bvll6_frame_decode_Cons:
  "bvll6_frame_decode (t # f # h # l # p) =
     (if t \<noteq> BVLC_TYPE_BIP6 then Inl (NotBip6 t)
      else if unat (u16_be h l) \<noteq> 4 + length p then Inl (LengthMismatch6 (unat (u16_be h l)) (4 + length p))
      else Inr \<lparr>bv6_function = Bvlc6Function f, bv6_payload = p\<rparr>)"
  by (simp add: bvll6_frame_decode_def Let_def)

lemma bvll6_decode_iff:
  "bvll6_decode d = Inr m \<longleftrightarrow> bvll6_wf m \<and> d = bvll6_octets m \<and> length d \<le> MAX_BVLL_LENGTH"
proof
  assume "bvll6_decode d = Inr m"
  then obtain f h l p where d: "d = BVLC_TYPE_BIP6 # f # h # l # p" "unat (u16_be h l) = 4 + length p"
      "read_bvll6 (Bvlc6Function f) p = Some m"
    by (auto simp: bvll6_decode_def bvll6_frame_decode_def bvll6_frame_message_def try_res_eq_Inr Let_def
        split: option.splits if_splits list.splits)
  from d(3) have m: "bvll6_wf m" "f = bf6_to_raw (bvll6_function m)" "p = bvll6_payload m"
    by (auto simp: read_bvll6_iff) (metis bvlc6_function.sel)
  have n: "unat (u16_be h l) = BVLL_HEADER_LENGTH + payload_length6 m"
    using d(2) m payload_length6_eq [of m] by (simp add: BVLL_HEADER_LENGTH_def)
  have "u16_to_be (of_nat (BVLL_HEADER_LENGTH + payload_length6 m)) = [h, l]"
    unfolding n [symmetric] by (simp del: unat_of_nat)
  then show "bvll6_wf m \<and> d = bvll6_octets m \<and> length d \<le> MAX_BVLL_LENGTH"
    using d(1,2) m unat_u16_less [of "u16_be h l"] by (simp add: bvll6_octets_eq MAX_BVLL_LENGTH_def)
next
  assume *: "bvll6_wf m \<and> d = bvll6_octets m \<and> length d \<le> MAX_BVLL_LENGTH"
  define w :: u16 where "w = of_nat (BVLL_HEADER_LENGTH + payload_length6 m)"
  have fits: "BVLL_HEADER_LENGTH + payload_length6 m < 65536"
    using * length_bvll6_octets [of m] unfolding MAX_BVLL_LENGTH_def by auto
  have w: "unat w = 4 + length (bvll6_payload m)"
    unfolding w_def unat_u16_of_nat [OF fits] using * payload_length6_eq [of m]
    by (simp add: BVLL_HEADER_LENGTH_def)
  have "d = BVLC_TYPE_BIP6 # bf6_to_raw (bvll6_function m) # ucast (drop_bit 8 w) # ucast w # bvll6_payload m"
    using * unfolding bvll6_octets_eq w_def [symmetric] by (simp add: u16_to_be_def)
  moreover have "read_bvll6 (bvll6_function m) (bvll6_payload m) = Some m"
    using * by (simp add: read_bvll6_iff)
  ultimately show "bvll6_decode d = Inr m"
    using w by (simp add: bvll6_decode_def bvll6_frame_decode_Cons bvll6_frame_message_def)
qed

lemma bvll6_encode_into_cases:
  assumes "bvll6_wf m"
  shows "bvll6_encode_into m out =
     (case bvll6_encoded_len m of Inl e \<Rightarrow> (out, Inl e)
      | Inr k \<Rightarrow> if length out < k then (out, Inl (BufferExhausted6 k (length out)))
          else (bvll6_octets m @ drop k out, Inr k))"
proof (cases "bvll6_encoded_len m")
  case (Inl e)
  then show ?thesis by (simp add: bvll6_encode_into_def bvll6_encode_to_sink_def)
next
  case (Inr k)
  have len: "concat (bvll6_header m k # payload6_writes m) = bvll6_octets m" "length (bvll6_octets m) = k"
    using length_bvll6_octets [OF assms] Inr by (auto simp: bvll6_octets_def bvll6_encoded_len_iff)
  have "write_all slice_ops (bvll6_header m k # payload6_writes m) \<lparr>passed = [], tail = out\<rparr>
      = (Inr (), \<lparr>passed = bvll6_octets m, tail = drop k out\<rparr>)" if "k \<le> length out"
    by (subst slice_write_all) (simp_all only: len that slice_sink.simps append_Nil)
  moreover have "remaining_capacity slice_ops \<lparr>passed = [], tail = out\<rparr> = Some (length out)"
    by (simp add: slice_ops_def)
  ultimately show ?thesis using Inr
    by (auto simp: bvll6_encode_into_def bvll6_encode_to_sink_def simp del: write_all.simps)
qed

section \<open>Properties\<close>

text \<open>
  C29: The B/IPv6 codec is a round trip. Encoding a message into a buffer gives the message's
  own error, a lack of room with the buffer untouched, or the datagram followed by the rest of
  the buffer; and a datagram decodes to a message exactly when it is that message's octets,
  so what was encoded decodes to the same message and what was decoded encodes to the same
  datagram.
\<close>

theorem bvll6_roundtrip:
  assumes "bvll6_wf m"
  shows "(case bvll6_encode_into m out of
            (out', Inl e) \<Rightarrow> out' = out
              \<and> (bvll6_encoded_len m = Inl e \<or> (\<exists>k. bvll6_encoded_len m = Inr k \<and> length out < k
                   \<and> e = BufferExhausted6 k (length out)))
          | (out', Inr k) \<Rightarrow> bvll6_decode (take k out') = Inr m
              \<and> drop k out' = drop k out \<and> length out' = length out)
       \<and> (\<forall>d. bvll6_decode d = Inr m \<longleftrightarrow> d = bvll6_octets m \<and> length d \<le> MAX_BVLL_LENGTH)"
proof
  have "length (bvll6_octets m) = k" "length (bvll6_octets m) \<le> MAX_BVLL_LENGTH"
    if "bvll6_encoded_len m = Inr k" for k
    using that length_bvll6_octets [OF assms] by (auto simp: bvll6_encoded_len_iff)
  moreover have "bvll6_decode (bvll6_octets m) = Inr m" if "length (bvll6_octets m) \<le> MAX_BVLL_LENGTH"
    using that assms by (simp add: bvll6_decode_iff)
  ultimately show "case bvll6_encode_into m out of
            (out', Inl e) \<Rightarrow> out' = out
              \<and> (bvll6_encoded_len m = Inl e \<or> (\<exists>k. bvll6_encoded_len m = Inr k \<and> length out < k
                   \<and> e = BufferExhausted6 k (length out)))
          | (out', Inr k) \<Rightarrow> bvll6_decode (take k out') = Inr m
              \<and> drop k out' = drop k out \<and> length out' = length out"
    by (auto simp: bvll6_encode_into_cases [OF assms] split: sum.split)
  show "\<forall>d. bvll6_decode d = Inr m \<longleftrightarrow> d = bvll6_octets m \<and> length d \<le> MAX_BVLL_LENGTH"
    using assms by (auto simp: bvll6_decode_iff)
qed

theorem bvll6_roundtrip_witness:
  "bvll6_decode [0x82, 3, 0, 10, 1, 2, 3, 4, 5, 6] = Inr (AddressResolution (Bip6Vmac 1 2 3) (Bip6Vmac 4 5 6))"
proof -
  let ?m = "AddressResolution (Bip6Vmac 1 2 3) (Bip6Vmac 4 5 6)"
  have "bvll6_octets ?m = [0x82, 3, 0, 10, 1, 2, 3, 4, 5, 6]"
    by (simp add: bvll6_octets_def bvll6_header_def BVLC_TYPE_BIP6_def bvlc6_functions u16_to_be_def
        payload_length6_def payload_shape6_def VMAC_LENGTH_def BVLL_HEADER_LENGTH_def)
  then show ?thesis using bvll6_roundtrip [of ?m "[]"] by (simp add: MAX_BVLL_LENGTH_def)
qed

end
