(* ===== verification/Mstp_Crc.thy ===== *)
theory Mstp_Crc
  imports Bacnet_Prelude
begin

text \<open>
  The CRCs of MS/TP frames (\<open>crates/bacnet-mstp-codec/src/crc.rs\<close>): the header CRC-8, the
  data CRC-16 and the CRC-32K of extended frames, each computed by table as the code does
  it. The theory proves that every table gives what eight plain register shifts give, for
  every register value (so the two CRC-32K tables the crate can be built with agree), and
  that each check sees a change confined to one octet.
\<close>

unbundle bit_operations_syntax

section \<open>The register\<close>

text \<open>
  One shift of a reflected CRC register with no new input, and \<open>bits\<close> of them: the inner
  loop that the three table constants and \<open>crc32k_shift\<close> share.
\<close>

definition crc_shift1 :: "'a::len word \<Rightarrow> 'a word \<Rightarrow> 'a word" where
  "crc_shift1 poly crc = (if crc AND 1 \<noteq> 0 then drop_bit 1 crc XOR poly else drop_bit 1 crc)"

fun crc_shift :: "'a::len word \<Rightarrow> nat \<Rightarrow> 'a word \<Rightarrow> 'a word" where
  "crc_shift poly 0 crc = crc"
| "crc_shift poly (Suc bits) crc = crc_shift poly bits (crc_shift1 poly crc)"

section \<open>Tables and checksums\<close>

definition CRC8_TABLE :: "octet list" where
  "CRC8_TABLE = map (\<lambda>i. crc_shift 0x81 8 (of_nat i)) [0..<256]"

definition CRC16_TABLE :: "u16 list" where
  "CRC16_TABLE = map (\<lambda>i. crc_shift 0x8408 8 (of_nat i)) [0..<256]"

definition crc8_octet :: "octet \<Rightarrow> octet \<Rightarrow> octet" where
  "crc8_octet byte crc = CRC8_TABLE ! unat (crc XOR byte)"

definition crc8 :: "octets \<Rightarrow> octet" where
  "crc8 data = NOT (fold crc8_octet data 0xFF)"

definition crc8_valid :: "octets \<Rightarrow> bool" where
  "crc8_valid data_with_crc \<longleftrightarrow> data_with_crc \<noteq> [] \<and>
     crc8 (take (length data_with_crc - 1) data_with_crc) = data_with_crc ! (length data_with_crc - 1)"

definition crc16_octet :: "octet \<Rightarrow> u16 \<Rightarrow> u16" where
  "crc16_octet byte crc = drop_bit 8 crc XOR CRC16_TABLE ! unat ((crc XOR ucast byte) AND 0xFF)"

definition crc16 :: "octets \<Rightarrow> u16" where
  "crc16 data = NOT (fold crc16_octet data 0xFFFF)"

definition crc16_valid :: "octets \<Rightarrow> bool" where
  "crc16_valid data_with_crc \<longleftrightarrow>
     (if length data_with_crc < 3 then False
      else let split = length data_with_crc - 2;
               stored = u16_le (data_with_crc ! split) (data_with_crc ! (split + 1))
           in crc16 (take split data_with_crc) = stored)"

definition CRC32K_POLYNOMIAL :: u32 where
  "CRC32K_POLYNOMIAL = 0xEB31D82E"

definition crc32k_shift :: "u32 \<Rightarrow> nat \<Rightarrow> u32" where
  "crc32k_shift crc bits = crc_shift CRC32K_POLYNOMIAL bits crc"

definition CRC32K_TABLE :: "u32 list" where
  "CRC32K_TABLE = map (\<lambda>i. crc32k_shift (of_nat i) 8) [0..<256]"

definition CRC32K_NIBBLES :: "u32 list" where
  "CRC32K_NIBBLES = map (\<lambda>i. crc32k_shift (of_nat i) 4) [0..<16]"

definition crc32k_octet_by_table :: "u32 \<Rightarrow> octet \<Rightarrow> u32" where
  "crc32k_octet_by_table crc byte = drop_bit 8 crc XOR CRC32K_TABLE ! unat ((crc XOR ucast byte) AND 0xFF)"

definition crc32k_octet_by_nibbles :: "u32 \<Rightarrow> octet \<Rightarrow> u32" where
  "crc32k_octet_by_nibbles crc0 byte =
     (let crc1 = crc0 XOR ucast byte;
          crc2 = drop_bit 4 crc1 XOR CRC32K_NIBBLES ! unat (crc1 AND 0x0F)
      in drop_bit 4 crc2 XOR CRC32K_NIBBLES ! unat (crc2 AND 0x0F))"

text \<open>The build without the feature \<open>crc32k-table\<close>, the default, folds with the nibble table.\<close>

definition crc32k_update :: "u32 \<Rightarrow> octets \<Rightarrow> u32" where
  "crc32k_update crc data = fold (\<lambda>byte crc. crc32k_octet_by_nibbles crc byte) data crc"

definition crc32k :: "octets \<Rightarrow> u32" where
  "crc32k data = NOT (crc32k_update (-1) data)"

section \<open>The shift is linear and injective\<close>

lemma and_one_neq_0: "(x AND 1 \<noteq> (0 :: 'a::len word)) \<longleftrightarrow> bit x 0"
  by (simp add: and_one_eq mod_2_eq_odd bit_0 split: if_splits)

lemma bit_crc_shift1:
  "bit (crc_shift1 poly crc) n \<longleftrightarrow> bit crc (Suc n) \<noteq> (bit crc 0 \<and> bit poly n)"
  by (auto simp: crc_shift1_def and_one_neq_0 bit_simps)

lemma crc_shift1_xor: "crc_shift1 poly (a XOR b) = crc_shift1 poly a XOR crc_shift1 poly b"
  by (rule bit_eqI) (auto simp: bit_crc_shift1 bit_simps)

lemma crc_shift_xor: "crc_shift poly n (a XOR b) = crc_shift poly n a XOR crc_shift poly n b"
  by (induction n arbitrary: a b) (simp_all add: crc_shift1_xor)

lemma crc_shift_add: "crc_shift poly (m + n) a = crc_shift poly n (crc_shift poly m a)"
  by (induction m arbitrary: a) simp_all

text \<open>A register whose low \<open>n\<close> bits are clear only moves right.\<close>

lemma crc_shift_clear:
  "(\<And>k. k < n \<Longrightarrow> \<not> bit a k) \<Longrightarrow> crc_shift poly n a = drop_bit n a"
proof (induction n arbitrary: a)
  case (Suc n)
  then have "crc_shift1 poly a = drop_bit 1 a"
    by (auto simp: crc_shift1_def and_one_neq_0)
  with Suc.prems have "crc_shift poly n (crc_shift1 poly a) = drop_bit n (drop_bit 1 a)"
    by (subst Suc.IH) (auto simp: bit_simps)
  then show ?case by (simp add: drop_bit_drop_bit)
qed simp

text \<open>
  So shifting a register by \<open>n\<close> bits is looking up its low \<open>n\<close> bits and moving the rest:
  the identity the tables rest on.
\<close>

lemma crc_shift_split:
  "crc_shift poly n a = drop_bit n a XOR crc_shift poly n (a AND mask n)"
proof -
  have "a = (a AND NOT (mask n)) XOR (a AND mask n)"
    by (rule bit_eqI) (auto simp: bit_simps)
  then have "crc_shift poly n a =
      crc_shift poly n (a AND NOT (mask n)) XOR crc_shift poly n (a AND mask n)"
    by (metis crc_shift_xor)
  also have "crc_shift poly n (a AND NOT (mask n)) = drop_bit n (a AND NOT (mask n))"
    by (rule crc_shift_clear) (auto simp: bit_simps)
  also have "\<dots> = drop_bit n a"
    by (rule bit_eqI) (auto simp: bit_simps dest: bit_imp_le_length)
  finally show ?thesis .
qed

text \<open>
  A polynomial with its top bit set makes the shift invertible: the top bit of the result
  is the bit that was shifted out.
\<close>

lemma crc_shift1_inj:
  fixes poly :: "'a::len word"
  assumes "bit poly (LENGTH('a) - 1)"
  shows "crc_shift1 poly a = crc_shift1 poly b \<longleftrightarrow> a = b"
proof
  assume eq: "crc_shift1 poly a = crc_shift1 poly b"
  have top: "\<not> bit x (Suc (LENGTH('a) - 1))" for x :: "'a word"
    using bit_imp_le_length [of x] by fastforce
  from eq have "bit (crc_shift1 poly a) (LENGTH('a) - 1) = bit (crc_shift1 poly b) (LENGTH('a) - 1)"
    by simp
  with assms top have low: "bit a 0 = bit b 0" by (simp add: bit_crc_shift1)
  show "a = b"
  proof (rule bit_eqI)
    fix n
    show "bit a n = bit b n"
    proof (cases n)
      case (Suc m)
      from eq have "bit (crc_shift1 poly a) m = bit (crc_shift1 poly b) m" by simp
      with low Suc show ?thesis by (auto simp: bit_crc_shift1)
    qed (simp add: low)
  qed
qed simp

lemma crc_shift_inj:
  fixes poly :: "'a::len word"
  assumes "bit poly (LENGTH('a) - 1)"
  shows "crc_shift poly n a = crc_shift poly n b \<longleftrightarrow> a = b"
  by (induction n arbitrary: a b) (simp_all add: crc_shift1_inj [OF assms])

section \<open>The tables agree with the register\<close>

lemma unat_and_mask_less: "unat (x AND mask n :: 'a::len word) < 2 ^ n"
  by (simp add: unsigned_take_bit_eq flip: take_bit_eq_mask)

lemma nth_shift_table:
  "k \<le> 8 \<Longrightarrow> map (\<lambda>i. f (of_nat i :: 'a::len word)) [0..<2 ^ k] ! unat (x AND mask k) = f (x AND mask k)"
  using unat_and_mask_less [of x k] by simp

lemma mask_numerals: "(0xFF :: 'a::len word) = mask 8" "(0x0F :: 'a::len word) = mask 4"
  by (simp_all add: mask_eq_exp_minus_1)

lemma crc8_octet_shift: "crc8_octet byte crc = crc_shift 0x81 8 (crc XOR byte)"
  by (simp add: crc8_octet_def CRC8_TABLE_def)

lemma crc16_octet_shift: "crc16_octet byte crc = crc_shift 0x8408 8 (crc XOR ucast byte)"
proof -
  have "crc16_octet byte crc = drop_bit 8 crc XOR crc_shift 0x8408 8 ((crc XOR ucast byte) AND mask 8)"
    using nth_shift_table [of 8 "crc_shift 0x8408 8" "crc XOR ucast byte"]
    by (simp add: crc16_octet_def CRC16_TABLE_def mask_numerals)
  also have "drop_bit 8 crc = drop_bit 8 (crc XOR ucast byte)"
    by (rule bit_eqI) (auto simp: bit_simps)
  finally show ?thesis by (simp only: crc_shift_split [symmetric])
qed

lemma crc32k_nibble: "drop_bit 4 crc XOR CRC32K_NIBBLES ! unat (crc AND 0x0F) = crc32k_shift crc 4"
proof -
  have "CRC32K_NIBBLES ! unat (crc AND 0x0F) = crc32k_shift (crc AND mask 4) 4"
    using nth_shift_table [of 4 "\<lambda>r. crc32k_shift r 4" crc]
    by (simp add: CRC32K_NIBBLES_def mask_numerals)
  then show ?thesis by (simp add: crc32k_shift_def flip: crc_shift_split)
qed

lemma crc32k_nibbles_shift:
  "crc32k_octet_by_nibbles crc byte = crc32k_shift (crc XOR ucast byte) 8"
  using crc_shift_add [of CRC32K_POLYNOMIAL 4 4]
  by (simp add: crc32k_octet_by_nibbles_def Let_def crc32k_nibble)
    (simp add: crc32k_shift_def)

lemma crc32k_table_shift:
  "crc32k_octet_by_table crc byte = crc32k_shift (crc XOR ucast byte) 8"
proof -
  have "CRC32K_TABLE ! unat ((crc XOR ucast byte) AND 0xFF) =
      crc32k_shift ((crc XOR ucast byte) AND mask 8) 8"
    using nth_shift_table [of 8 "\<lambda>r. crc32k_shift r 8" "crc XOR ucast byte"]
    by (simp add: CRC32K_TABLE_def mask_numerals)
  moreover have "drop_bit 8 crc = drop_bit 8 (crc XOR ucast byte)"
    by (rule bit_eqI) (auto simp: bit_simps)
  ultimately show ?thesis
    unfolding crc32k_octet_by_table_def crc32k_shift_def by (metis crc_shift_split)
qed

text \<open>Executable forms: the tables are never built when a checksum is evaluated.\<close>

lemma crc8_code [code]: "crc8 data = NOT (fold (\<lambda>byte crc. crc_shift 0x81 8 (crc XOR byte)) data 0xFF)"
  by (simp add: crc8_def crc8_octet_shift [abs_def])

lemma crc16_code [code]:
  "crc16 data = NOT (fold (\<lambda>byte crc. crc_shift 0x8408 8 (crc XOR ucast byte)) data 0xFFFF)"
  by (simp add: crc16_def crc16_octet_shift [abs_def])

lemma crc32k_update_code [code]:
  "crc32k_update crc data = fold (\<lambda>byte crc. crc32k_shift (crc XOR ucast byte) 8) data crc"
  by (simp add: crc32k_update_def crc32k_nibbles_shift [abs_def])

section \<open>Checksums see a change in one octet\<close>

text \<open>
  The shared argument: a checksum that folds an octet step over its data, where the step
  is injective in the register and in the octet.
\<close>

lemma fold_step_inj:
  assumes "\<And>x c d. step x c = step x d \<longleftrightarrow> c = d"
  shows "fold step xs c = fold step xs d \<longleftrightarrow> c = d"
  by (induction xs arbitrary: c d) (simp_all add: assms)

locale octet_checksum =
  fixes step :: "octet \<Rightarrow> 'r \<Rightarrow> 'r"
  assumes step_register: "step x c = step x d \<longleftrightarrow> c = d"
    and step_octet: "step x c = step y c \<longleftrightarrow> x = y"
begin

lemma one_octet_changes:
  "fold step (xs @ x # ys) c = fold step (xs @ y # ys) c \<longleftrightarrow> x = y"
  by (simp add: fold_step_inj [OF step_register] step_octet)

lemma same_suffix: "fold step (xs @ zs) c = fold step (ys @ zs) c \<longleftrightarrow> fold step xs c = fold step ys c"
  by (simp add: fold_step_inj [OF step_register])

end

lemma crc_polynomials_inj:
  "crc_shift (0x81 :: octet) n a = crc_shift 0x81 n b \<longleftrightarrow> a = b"
  "crc_shift (0x8408 :: u16) n c = crc_shift 0x8408 n d \<longleftrightarrow> c = d"
  "crc_shift CRC32K_POLYNOMIAL n e = crc_shift CRC32K_POLYNOMIAL n f \<longleftrightarrow> e = f"
  by (rule crc_shift_inj, simp add: CRC32K_POLYNOMIAL_def)+

lemma ucast_octet_inj:
  "(ucast (x :: octet) :: u16) = ucast y \<longleftrightarrow> x = y"
  "(ucast (x :: octet) :: u32) = ucast y \<longleftrightarrow> x = y"
proof -
  have "ucast (ucast z :: u16) = z" "ucast (ucast z :: u32) = z" for z :: octet
    by (auto intro!: bit_word_eqI simp: bit_simps)
  then show "(ucast x :: u16) = ucast y \<longleftrightarrow> x = y" "(ucast x :: u32) = ucast y \<longleftrightarrow> x = y"
    by metis+
qed

interpretation crc8_sum: octet_checksum crc8_octet
  by unfold_locales (simp_all only: crc8_octet_shift crc_polynomials_inj word_xor_eq_iff word_xor_left_eq_iff)

interpretation crc16_sum: octet_checksum crc16_octet
  by unfold_locales
    (simp_all only: crc16_octet_shift crc_polynomials_inj word_xor_eq_iff word_xor_left_eq_iff ucast_octet_inj)

interpretation crc32k_sum: octet_checksum "\<lambda>byte crc. crc32k_octet_by_nibbles crc byte"
  by unfold_locales
    (simp_all only: crc32k_nibbles_shift crc32k_shift_def crc_polynomials_inj word_xor_eq_iff
      word_xor_left_eq_iff ucast_octet_inj)

section \<open>Checking a field against its checksum\<close>

lemma crc8_valid_snoc: "crc8_valid (data @ [c]) \<longleftrightarrow> crc8 data = c"
  by (simp add: crc8_valid_def)

lemma not_word_eq_iff: "(NOT a = NOT (b :: 'a::len word)) \<longleftrightarrow> a = b"
  by (metis bit.double_compl)

lemma crc8_one_octet: "crc8 (xs @ x # ys) = crc8 (xs @ y # ys) \<longleftrightarrow> x = y"
  unfolding crc8_def not_word_eq_iff by (rule crc8_sum.one_octet_changes)

lemma crc16_one_octet: "crc16 (xs @ x # ys) = crc16 (xs @ y # ys) \<longleftrightarrow> x = y"
  unfolding crc16_def not_word_eq_iff by (rule crc16_sum.one_octet_changes)

lemma crc32k_one_octet: "crc32k (xs @ x # ys) = crc32k (xs @ y # ys) \<longleftrightarrow> x = y"
  unfolding crc32k_def crc32k_update_def not_word_eq_iff by (rule crc32k_sum.one_octet_changes)

lemma crc16_valid_append:
  "crc16_valid (data @ [lo, hi]) \<longleftrightarrow> data \<noteq> [] \<and> crc16 data = u16_le lo hi"
  by (cases data) (simp_all add: crc16_valid_def nth_append)

lemma crc16_valid_encoded: "crc16_valid (data @ u16_to_le (crc16 data)) \<longleftrightarrow> data \<noteq> []"
  by (simp add: u16_to_le_def crc16_valid_append)

text \<open>A field that passes its check fails it with any one octet changed, checksum octets included.\<close>

lemma split_at_index: "i < length xs \<Longrightarrow> xs = take i xs @ xs ! i # drop (Suc i) xs"
  by (simp add: id_take_nth_drop)

lemma crc8_valid_changed:
  assumes "crc8_valid xs" "i < length xs" "x \<noteq> xs ! i"
  shows "\<not> crc8_valid (xs[i := x])"
proof -
  from assms(1) obtain ys c where xs: "xs = ys @ [c]" by (metis crc8_valid_def rev_exhaust)
  with assms(1) have c: "crc8 ys = c" by (simp add: crc8_valid_snoc)
  show ?thesis
  proof (cases "i < length ys")
    case True
    then have "x \<noteq> ys ! i" using assms(3) xs by (simp add: nth_append)
    then have "crc8 (ys[i := x]) \<noteq> crc8 ys"
      using crc8_one_octet [of "take i ys" x "drop (Suc i) ys" "ys ! i"] split_at_index [OF True]
      by (simp add: upd_conv_take_nth_drop True)
    with True c show ?thesis by (simp add: xs list_update_append crc8_valid_snoc)
  next
    case False
    with assms xs have "i = length ys" by simp
    with assms c xs show ?thesis by (simp add: crc8_valid_snoc)
  qed
qed

lemma u16_le_inj: "u16_le a b = u16_le c d \<longleftrightarrow> a = c \<and> b = d"
  by (metis u16_le_def u16_to_be_be list.inject)

lemma crc16_valid_changed:
  assumes "crc16_valid xs" "i < length xs" "x \<noteq> xs ! i"
  shows "\<not> crc16_valid (xs[i := x])"
proof -
  from assms(1) have "3 \<le> length xs" by (auto simp: crc16_valid_def split: if_splits)
  then obtain ys lo hi where xs: "xs = ys @ [lo, hi]"
    using two_last [of xs] by auto
  with assms(1) have c: "ys \<noteq> []" "crc16 ys = u16_le lo hi" by (simp_all add: crc16_valid_append)
  show ?thesis
  proof (cases "i < length ys")
    case True
    then have "x \<noteq> ys ! i" using assms(3) xs by (simp add: nth_append)
    then have "crc16 (ys[i := x]) \<noteq> crc16 ys"
      using crc16_one_octet [of "take i ys" x "drop (Suc i) ys" "ys ! i"] split_at_index [OF True]
      by (simp add: upd_conv_take_nth_drop True)
    with True c show ?thesis by (simp add: xs list_update_append crc16_valid_append)
  next
    case False
    with assms(2) xs have "i = length ys \<or> i = Suc (length ys)" by auto
    with assms(3) c xs show ?thesis
      by (auto simp: crc16_valid_append list_update_append u16_le_inj nth_append)
  qed
qed

lemma crc32k_update_append: "crc32k_update c (xs @ ys) = crc32k_update (crc32k_update c xs) ys"
  by (simp add: crc32k_update_def)

lemma crc32k_update_Nil [simp]: "crc32k_update c [] = c"
  by (simp add: crc32k_update_def)

section \<open>Properties\<close>

text \<open>
  whichever table the crate is built with, accumulating one octet into the CRC-32K
  register gives the eight plain shifts of Clause 9.6.3, for every register value and every
  octet; so the two builds always agree.
\<close>

theorem crc32k_tables_agree:
  "crc32k_octet_by_table crc byte = crc32k_shift (crc XOR ucast byte) 8 \<and>
   crc32k_octet_by_nibbles crc byte = crc32k_shift (crc XOR ucast byte) 8"
  by (simp add: crc32k_table_shift crc32k_nibbles_shift)

text \<open>
  none of the three checksums stays the same when exactly one octet of the data it
  covers changes, wherever that octet is.
\<close>

theorem checksums_see_one_octet:
  "(crc8 (xs @ x # ys) = crc8 (xs @ y # ys) \<longleftrightarrow> x = y) \<and>
   (crc16 (xs @ x # ys) = crc16 (xs @ y # ys) \<longleftrightarrow> x = y) \<and>
   (crc32k (xs @ x # ys) = crc32k (xs @ y # ys) \<longleftrightarrow> x = y)"
  by (simp add: crc8_one_octet crc16_one_octet crc32k_one_octet)

end
