(* ===== verification/Mstp_Cobs.thy ===== *)
theory Mstp_Cobs
  imports Mstp_Crc Mstp_Sink
begin

text \<open>
  The two encoded fields of an extended frame (\<open>crates/bacnet-mstp-codec/src/cobs.rs\<close>):
  consistent overhead byte stuffing, masked, with its CRC-32K. The encoder is modelled
  block by block and then through the chunked output it writes with; the decoder as it is
  written, over its own input by two indices. The theory proves the round trip, the bounds
  on the encoded length, that no encoded octet is the first preamble octet, and that the
  decoder in place computes the plain functional decoder.
\<close>

unbundle bit_operations_syntax

definition MASK :: octet where "MASK = 0x55"
definition MAX_RUN :: nat where "MAX_RUN = 254"
definition ENCODED_CRC_LENGTH :: nat where "ENCODED_CRC_LENGTH = 5"
definition LENGTH_ADJUSTMENT :: nat where "LENGTH_ADJUSTMENT = 2"
definition CHUNK :: nat where "CHUNK = 32"

lemmas cobs_consts = MASK_def MAX_RUN_def ENCODED_CRC_LENGTH_def LENGTH_ADJUSTMENT_def CHUNK_def

section \<open>Encoding\<close>

text \<open>The code blocks in the order the callback sees them.\<close>

definition block_run :: "octets \<Rightarrow> nat" where
  "block_run rest = length (takeWhile (\<lambda>octet. octet \<noteq> 0) (take MAX_RUN rest))"

function for_each_block :: "octets \<Rightarrow> (octet \<times> octets) list" where
  "for_each_block rest =
     (let run = block_run rest; octets = take run rest; tail = drop run rest
      in (of_nat run + 1, octets) #
        (if run = MAX_RUN then (if tail = [] then [] else for_each_block tail)
         else (case tail of [] \<Rightarrow> [] | _ # after_zero \<Rightarrow> for_each_block after_zero)))"
  by pat_completeness auto
termination
proof (relation "measure length", goal_cases)
  case (3 rest run oct tail x after_zero)
  then have "length (drop run rest) = Suc (length after_zero)" by (metis length_Cons)
  then show ?case by simp
qed (auto simp: MAX_RUN_def)

declare for_each_block.simps [simp del]

definition block_octets :: "octet \<times> octets \<Rightarrow> octets" where
  "block_octets b = fst b # snd b"

text \<open>What the blocks amount to, unmasked.\<close>

definition cobs_encode :: "octets \<Rightarrow> octets" where
  "cobs_encode data = concat (map block_octets (for_each_block data))"

definition frame_length :: "octets \<Rightarrow> nat" where
  "frame_length data =
     sum_list (map (\<lambda>(_, octets). 1 + length octets) (for_each_block data))
       + ENCODED_CRC_LENGTH - LENGTH_ADJUSTMENT"

record 's cobs_output =
  out_sink :: 's
  out_chunk :: octets
  out_used :: nat
  out_crc :: u32
  out_result :: "sink_full + unit"

definition output_flush :: "'s sink_ops \<Rightarrow> 's cobs_output \<Rightarrow> 's cobs_output" where
  "output_flush ops out =
     (let chunk = take (out_used out) (out_chunk out);
          out1 = out\<lparr>out_crc := crc32k_update (out_crc out) chunk\<rparr>;
          out2 = (case out_result out1 of
              Inl _ \<Rightarrow> out1
            | Inr _ \<Rightarrow> (let (r, s) = write_sink ops chunk (out_sink out1)
                       in out1\<lparr>out_result := r, out_sink := s\<rparr>))
      in out2\<lparr>out_used := 0\<rparr>)"

definition output_push :: "'s sink_ops \<Rightarrow> octet \<Rightarrow> 's cobs_output \<Rightarrow> 's cobs_output" where
  "output_push ops octet out =
     (let out1 = (if out_used out = CHUNK then output_flush ops out else out)
      in out1\<lparr>out_chunk := (out_chunk out1)[out_used out1 := octet XOR MASK],
              out_used := out_used out1 + 1\<rparr>)"

definition output_blocks :: "'s sink_ops \<Rightarrow> octets \<Rightarrow> 's cobs_output \<Rightarrow> 's cobs_output" where
  "output_blocks ops data out =
     fold (\<lambda>(code, octets) out. fold (output_push ops) octets (output_push ops code out))
       (for_each_block data) out"

definition write_fields :: "'s sink_ops \<Rightarrow> octets \<Rightarrow> 's \<Rightarrow> (sink_full + unit) \<times> 's" where
  "write_fields ops data sink =
     (let out = \<lparr>out_sink = sink, out_chunk = replicate CHUNK 0, out_used = 0, out_crc = -1,
            out_result = Inr ()\<rparr>;
          out = output_flush ops (output_blocks ops data out);
          crc = NOT (out_crc out);
          out = output_flush ops (output_blocks ops (u32_to_le crc) out)
      in (out_result out, out_sink out))"

section \<open>Decoding\<close>

function decoded_length_from :: "octets \<Rightarrow> nat \<Rightarrow> nat \<Rightarrow> nat option" where
  "decoded_length_from field read len =
     (case get_at field read of
        None \<Rightarrow> Some len
      | Some octet \<Rightarrow>
          (let code = unat (octet XOR MASK) in
           if code = 0 \<or> code > length field - read then None
           else let read' = read + code; len' = len + (code - 1)
                in decoded_length_from field read'
                     (if code \<noteq> 0xFF \<and> read' < length field then len' + 1 else len')))"
  by pat_completeness auto
termination
  by (relation "measure (\<lambda>(field, read, len). length field - read)") (auto simp: get_at_Some)

definition decoded_length :: "octets \<Rightarrow> nat option" where
  "decoded_length field = decoded_length_from field 0 0"

text \<open>The inner loop of the decoder: one run, copied down over itself.\<close>

function copy_run :: "octets \<Rightarrow> nat \<Rightarrow> nat \<Rightarrow> nat \<Rightarrow> octets \<times> nat \<times> nat" where
  "copy_run field read wr stop =
     (if read < stop
      then copy_run (field[wr := field ! read XOR MASK]) (read + 1) (wr + 1) stop
      else (field, read, wr))"
  by pat_completeness auto
termination
  by (relation "measure (\<lambda>(field, read, wr, stop). stop - read)") auto

declare decoded_length_from.simps [simp del] copy_run.simps [simp del]

lemma copy_run_indices:
  "copy_run field read wr stop = (field', read', wr') \<Longrightarrow>
     length field' = length field \<and> read' = max read stop \<and> wr' = wr + (stop - read)"
proof (induction field read wr stop rule: copy_run.induct)
  case (1 field read wr stop)
  show ?case
  proof (cases "read < stop")
    case True
    with "1.prems" have "copy_run (field[wr := field ! read XOR MASK]) (read + 1) (wr + 1) stop
        = (field', read', wr')" by (simp add: copy_run.simps [of field])
    from "1.IH" [OF True this] True show ?thesis by auto
  next
    case False
    with "1.prems" show ?thesis by (auto simp: copy_run.simps [of field])
  qed
qed

function decode_loop :: "octets \<Rightarrow> nat \<Rightarrow> nat \<Rightarrow> octets \<times> nat" where
  "decode_loop field read wr =
     (if read < length field
      then (let code = unat (field ! read XOR MASK);
                read1 = read + 1;
                stop = min (read1 + (code - 1)) (length field)
            in case copy_run field read1 wr stop of
                 (field', read', wr') \<Rightarrow>
                   if code \<noteq> 0xFF \<and> read' < length field'
                   then decode_loop (field'[wr' := 0]) read' (wr' + 1)
                   else decode_loop field' read' wr')
      else (field, wr))"
  by pat_completeness auto
termination
  by (relation "measure (\<lambda>(field, read, wr). length field - read)")
    (auto split: prod.splits dest!: copy_run_indices copy_run_indices [OF sym])

declare decode_loop.simps [simp del]

definition decode_in_place :: "octets \<Rightarrow> octets \<times> nat" where
  "decode_in_place field = decode_loop field 0 0"

definition check_fields :: "octets \<Rightarrow> nat option" where
  "check_fields enc =
     (if length enc < ENCODED_CRC_LENGTH then None
      else let split = length enc - ENCODED_CRC_LENGTH;
               data = take split enc; crc_field = drop split enc
           in case decoded_length data of None \<Rightarrow> None
              | Some len \<Rightarrow>
                  (case decoded_length crc_field of None \<Rightarrow> None
                   | Some _ \<Rightarrow>
                       (let crc = fst (decode_in_place crc_field);
                            received = u32_le (crc ! 0) (crc ! 1) (crc ! 2) (crc ! 3)
                        in if received = NOT (crc32k_update (-1) data) then Some len else None)))"

definition decode_data_in_place :: "octets \<Rightarrow> octets \<times> nat" where
  "decode_data_in_place enc =
     (let encoded = length enc - ENCODED_CRC_LENGTH;
          (field, n) = decode_in_place (take encoded enc)
      in (field @ drop encoded enc, n))"

section \<open>The functional decoder\<close>

text \<open>What a field of code blocks stands for, with no indices: the specification.\<close>

function cobs_decode :: "octets \<Rightarrow> octets option" where
  "cobs_decode [] = Some []"
| "cobs_decode (c # rest) =
     (let n = unat c - 1 in
      if c = 0 \<or> n > length rest then None
      else map_option (\<lambda>d. take n rest @ (if c \<noteq> 0xFF \<and> drop n rest \<noteq> [] then [0] else []) @ d)
             (cobs_decode (drop n rest)))"
  by pat_completeness auto
termination
  by (relation "measure length") auto

declare cobs_decode.simps(2) [simp del]

definition unmask :: "octets \<Rightarrow> octets" where
  "unmask = map (\<lambda>octet. octet XOR MASK)"

lemma unmask_simps [simp]:
  "unmask [] = []" "unmask (x # xs) = (x XOR MASK) # unmask xs"
  "unmask (xs @ ys) = unmask xs @ unmask ys" "length (unmask xs) = length xs"
  "unmask (unmask xs) = xs" "unmask xs = [] \<longleftrightarrow> xs = []"
  by (simp_all add: unmask_def o_def)

lemma unmask_take_drop: "unmask (take n xs) = take n (unmask xs)" "unmask (drop n xs) = drop n (unmask xs)"
  by (simp_all add: unmask_def take_map drop_map)

lemma masked_eq_preamble: "x XOR MASK = 0x55 \<longleftrightarrow> x = 0"
  using word_xor_eq_iff [of x MASK 0] by (simp add: MASK_def)

lemma unmask_not_preamble: "0x55 \<in> set (unmask xs) \<longleftrightarrow> 0 \<in> set xs"
proof -
  have "0x55 \<in> set (unmask xs) \<longleftrightarrow> (\<exists>x\<in>set xs. x XOR MASK = 0x55)" by (auto simp: unmask_def)
  then show ?thesis by (simp add: masked_eq_preamble)
qed

section \<open>The encoder's blocks\<close>

lemma block_run_bounds: "block_run rest \<le> 254" "block_run rest \<le> length rest"
  using length_takeWhile_le [of "\<lambda>octet. octet \<noteq> 0" "take MAX_RUN rest"]
  by (simp_all add: block_run_def MAX_RUN_def)

lemma block_run_nonzero: "0 \<notin> set (take (block_run rest) rest)"
proof -
  have "take (block_run rest) rest = takeWhile (\<lambda>octet. octet \<noteq> 0) (take MAX_RUN rest)"
    using block_run_bounds(1) [of rest] takeWhile_eq_take [of "\<lambda>octet. octet \<noteq> 0" "take MAX_RUN rest"]
    by (simp add: MAX_RUN_def flip: block_run_def [unfolded MAX_RUN_def])
  then show ?thesis by (metis (mono_tags, lifting) set_takeWhileD)
qed

lemma block_run_stops:
  assumes "block_run rest \<noteq> 254" "drop (block_run rest) rest = z # after"
  shows "z = 0"
proof -
  let ?r = "block_run rest"
  have lt: "?r < length rest" using assms(2) by (metis drop_eq_Nil linorder_not_less list.discI)
  with assms block_run_bounds(1) [of rest] have "?r < length (take MAX_RUN rest)"
    by (simp add: MAX_RUN_def)
  then have "take MAX_RUN rest ! ?r = 0"
    using nth_length_takeWhile [of "\<lambda>octet. octet \<noteq> 0" "take MAX_RUN rest"] by (simp add: block_run_def)
  moreover have "take MAX_RUN rest ! ?r = z"
    using assms(2) \<open>?r < length (take MAX_RUN rest)\<close> Cons_nth_drop_Suc [OF lt] by simp
  ultimately show ?thesis by simp
qed

lemma block_code [simp]: "unat (of_nat (block_run rest) + 1 :: octet) = block_run rest + 1"
proof -
  have "of_nat (block_run rest) + 1 = (of_nat (block_run rest + 1) :: octet)" by simp
  then show ?thesis using block_run_bounds(1) [of rest] by (simp only: unat_octet_of_nat)
qed

lemma cobs_encode_unfold:
  "cobs_encode rest = (of_nat (block_run rest) + 1) # take (block_run rest) rest @
     (if block_run rest = 254
      then (if drop (block_run rest) rest = [] then [] else cobs_encode (drop (block_run rest) rest))
      else (case drop (block_run rest) rest of [] \<Rightarrow> [] | _ # after \<Rightarrow> cobs_encode after))"
  by (auto simp: cobs_encode_def for_each_block.simps [of rest] block_octets_def Let_def MAX_RUN_def
      split: list.split)

text \<open>
  The four ways a block ends, as equations of the encoder and as an induction rule: the
  form in which every fact about the encoding below is proved.
\<close>

lemma takeWhile_nonzero [simp]: "0 \<notin> set xs \<Longrightarrow> takeWhile (\<lambda>octet. octet \<noteq> (0 :: octet)) xs = xs"
  by (auto simp: takeWhile_eq_all_conv)

lemma block_run_eqs:
  "length xs = 254 \<Longrightarrow> 0 \<notin> set xs \<Longrightarrow> block_run (xs @ ys) = 254"
  "length xs < 254 \<Longrightarrow> 0 \<notin> set xs \<Longrightarrow> block_run (xs @ 0 # ys) = length xs"
  "length xs < 254 \<Longrightarrow> 0 \<notin> set xs \<Longrightarrow> block_run xs = length xs"
  by (auto simp: block_run_def MAX_RUN_def takeWhile_append take_Cons')

lemma cobs_encode_full [simp]:
  "length xs = 254 \<Longrightarrow> 0 \<notin> set xs \<Longrightarrow> cobs_encode xs = 0xFF # xs"
  "length xs = 254 \<Longrightarrow> 0 \<notin> set xs \<Longrightarrow> ys \<noteq> [] \<Longrightarrow> cobs_encode (xs @ ys) = 0xFF # xs @ cobs_encode ys"
  using block_run_eqs(1) [of xs "[]"] block_run_eqs(1) [of xs ys]
  by (simp_all add: cobs_encode_unfold [of xs] cobs_encode_unfold [of "xs @ ys"])

lemma cobs_encode_short:
  "length xs < 254 \<Longrightarrow> 0 \<notin> set xs \<Longrightarrow> cobs_encode xs = (of_nat (length xs) + 1) # xs"
  "length xs < 254 \<Longrightarrow> 0 \<notin> set xs \<Longrightarrow>
     cobs_encode (xs @ 0 # ys) = (of_nat (length xs) + 1) # xs @ cobs_encode ys"
  by (simp_all add: cobs_encode_unfold [of xs] cobs_encode_unfold [of "xs @ 0 # ys"] block_run_eqs)

lemma short_code: "length xs < 254 \<Longrightarrow> unat (of_nat (length xs) + 1 :: octet) = length xs + 1"
  using unat_octet_of_nat [of "length xs + 1"] by (simp add: add.commute)

lemma cobs_induct [case_names full_end full zero last]:
  fixes P :: "octets \<Rightarrow> bool"
  assumes full_end: "\<And>xs. length xs = 254 \<Longrightarrow> 0 \<notin> set xs \<Longrightarrow> P xs"
    and full: "\<And>xs ys. length xs = 254 \<Longrightarrow> 0 \<notin> set xs \<Longrightarrow> ys \<noteq> [] \<Longrightarrow> P ys \<Longrightarrow> P (xs @ ys)"
    and zero: "\<And>xs ys. length xs < 254 \<Longrightarrow> 0 \<notin> set xs \<Longrightarrow> P ys \<Longrightarrow> P (xs @ 0 # ys)"
    and last: "\<And>xs. length xs < 254 \<Longrightarrow> 0 \<notin> set xs \<Longrightarrow> P xs"
  shows "P data"
proof (induction data rule: length_induct)
  case (1 data)
  let ?n = "block_run data"
  have split: "data = take ?n data @ drop ?n data" by simp
  note nz = block_run_nonzero [of data] and le = block_run_bounds [of data]
  show ?case
  proof (cases "?n = 254")
    case True
    with le have len: "length (take ?n data) = 254" by simp
    show ?thesis
    proof (cases "drop ?n data = []")
      case True
      with full_end [OF len nz] split show ?thesis by (metis append.right_neutral)
    next
      case False
      have "length (drop ?n data) < length data" using \<open>?n = 254\<close> le(2) by simp
      with "1.IH" have "P (drop ?n data)" by blast
      with False full [OF len nz] have "P (take ?n data @ drop ?n data)" by blast
      then show ?thesis by simp
    qed
  next
    case False
    with le have len: "length (take ?n data) < 254" by simp
    show ?thesis
    proof (cases "drop ?n data")
      case Nil
      with last [OF len nz] show ?thesis by simp
    next
      case (Cons z after)
      with block_run_stops [OF False] have z: "drop ?n data = 0 # after" by simp
      then have "length (drop ?n data) = Suc (length after)" by simp
      then have "length after < length data" by simp
      with "1.IH" have "P after" by blast
      with zero [OF len nz] z split show ?thesis by metis
    qed
  qed
qed

section \<open>The round trip and the size of the encoding\<close>

lemma cobs_encode_ne [simp]: "cobs_encode xs \<noteq> []"
  by (subst cobs_encode_unfold) simp

lemma cobs_decode_block:
  "c \<noteq> 0 \<Longrightarrow> unat c = length xs + 1 \<Longrightarrow>
   cobs_decode (c # xs @ ys) =
     map_option (\<lambda>d. xs @ (if c \<noteq> 0xFF \<and> ys \<noteq> [] then [0] else []) @ d) (cobs_decode ys)"
  by (simp add: cobs_decode.simps)

lemma short_code_cases:
  assumes "length xs < 254"
  shows "of_nat (length xs) + 1 \<noteq> (0 :: octet)" "of_nat (length xs) + 1 \<noteq> (0xFF :: octet)"
  using short_code [OF assms] assms by auto

lemma cobs_roundtrip: "cobs_decode (cobs_encode data) = Some data"
proof (induction data rule: cobs_induct)
  case (full_end xs)
  then show ?case using cobs_decode_block [of "0xFF" xs "[]"] by simp
next
  case (full xs ys)
  then show ?case using cobs_decode_block [of "0xFF" xs "cobs_encode ys"] by simp
next
  case (zero xs ys)
  with short_code_cases [of xs] short_code [of xs] show ?case
    by (simp add: cobs_encode_short cobs_decode_block)
next
  case (last xs)
  with short_code_cases [of xs] short_code [of xs] show ?case
    using cobs_decode_block [of "of_nat (length xs) + 1" xs "[]"] by (simp add: cobs_encode_short)
qed

lemma cobs_encode_nonzero: "0 \<notin> set (cobs_encode data)"
  by (induction data rule: cobs_induct) (auto simp: cobs_encode_short dest: short_code_cases)

lemma cobs_encode_longer: "length data < length (cobs_encode data)"
  by (induction data rule: cobs_induct) (auto simp: cobs_encode_short)

lemma cobs_encode_overhead:
  "length (cobs_encode data) \<le> length data + max 1 ((length data + 253) div 254)"
proof (induction data rule: cobs_induct)
  case (full xs ys)
  have "(length (xs @ ys) + 253) div 254 = (length ys + 253) div 254 + 1" using full(1) by simp
  with full show ?case by (cases ys) auto
qed (auto simp: cobs_encode_short)

lemma frame_length_eq: "frame_length data = length (cobs_encode data) + 3"
proof -
  have "sum_list (map (\<lambda>(_, octets). 1 + length octets) bs) = length (concat (map block_octets bs))"
    for bs by (induction bs) (auto simp: block_octets_def)
  then show ?thesis by (simp add: frame_length_def cobs_encode_def cobs_consts)
qed

section \<open>The decoder in place computes the functional decoder\<close>

lemma octet_unat_eqs: "(c :: octet) = 0 \<longleftrightarrow> unat c = 0" "(c :: octet) = 0xFF \<longleftrightarrow> unat c = 0xFF"
  by (simp_all add: word_unat_eq_iff)

lemma unmask_drop_Cons:
  "read < length field \<Longrightarrow> unmask (drop read field) = (field ! read XOR MASK) # unmask (drop (read + 1) field)"
  by (simp flip: Cons_nth_drop_Suc)

lemma cobs_decode_drop_None:
  assumes "read < length field"
    and "unat (field ! read XOR MASK) = 0 \<or> unat (field ! read XOR MASK) > length field - read"
  shows "cobs_decode (unmask (drop read field)) = None"
  using assms by (auto simp: unmask_drop_Cons cobs_decode.simps Let_def octet_unat_eqs simp del: unat_eq_zero)

lemma cobs_decode_drop_block:
  assumes "read < length field" and code: "code = unat (field ! read XOR MASK)" "code \<noteq> 0" "code \<le> length field - read"
  shows "cobs_decode (unmask (drop read field)) =
    map_option (\<lambda>d. unmask (subslice field (read + 1) (read + code)) @
        (if code \<noteq> 0xFF \<and> read + code < length field then [0] else []) @ d)
      (cobs_decode (unmask (drop (read + code) field)))"
proof -
  have "drop (code - 1) (unmask (drop (read + 1) field)) = unmask (drop (read + code) field)"
    using code(2) by (simp flip: unmask_take_drop add: add.commute)
  moreover have "take (code - 1) (unmask (drop (read + 1) field)) = unmask (subslice field (read + 1) (read + code))"
    by (simp add: subslice_def flip: unmask_take_drop)
  moreover have "\<not> code - 1 > length (unmask (drop (read + 1) field))"
      "unmask (drop (read + code) field) \<noteq> [] \<longleftrightarrow> read + code < length field"
    using assms by auto
  ultimately show ?thesis
    using code(2) unfolding unmask_drop_Cons [OF assms(1)] cobs_decode.simps Let_def octet_unat_eqs code(1) [symmetric]
    by simp
qed

lemma decoded_length_from_eq:
  "decoded_length_from field read len =
     map_option (\<lambda>d. len + length d) (cobs_decode (unmask (drop read field)))"
proof (induction field read len rule: decoded_length_from.induct)
  case (1 field read len)
  show ?case
  proof (cases "read < length field")
    case False
    then show ?thesis by (simp add: decoded_length_from.simps [of field read len] get_at_def)
  next
    case True
    let ?code = "unat (field ! read XOR MASK)"
    have get: "get_at field read = Some (field ! read)" using True by (simp add: get_at_def)
    show ?thesis
    proof (cases "?code = 0 \<or> ?code > length field - read")
      case True
      with \<open>read < length field\<close> show ?thesis
        unfolding decoded_length_from.simps [of field read len] get cobs_decode_drop_None [OF \<open>read < length field\<close> True]
        by (simp add: Let_def)
    next
      case False
      define code where code: "code = ?code"
      note IH = "1.IH" [OF get refl False refl refl, folded code]
      from False have ok: "code \<noteq> 0" "code \<le> length field - read" by (auto simp: code)
      have "decoded_length_from field read len = decoded_length_from field (read + code)
          (if code \<noteq> 0xFF \<and> read + code < length field then len + (code - 1) + 1 else len + (code - 1))"
        using ok unfolding decoded_length_from.simps [of field read len] get option.case Let_def code [symmetric]
        by simp
      then show ?thesis
        unfolding IH cobs_decode_drop_block [OF True code ok]
        using ok by (cases "cobs_decode (unmask (drop (read + code) field))") auto
    qed
  qed
qed

lemma decoded_length_eq: "decoded_length field = map_option length (cobs_decode (unmask field))"
  by (simp add: decoded_length_def decoded_length_from_eq)

text \<open>
  One copied run: the octets behind the write index are the ones read, and nothing from
  the end of the run on has changed.
\<close>

lemma copy_run_spec:
  assumes "copy_run field read wr stop = (field', read', wr')" "wr \<le> read" "stop \<le> length field" "read \<le> stop"
  shows "take wr' field' = take wr field @ unmask (subslice field read stop) \<and> drop stop field' = drop stop field"
  using assms
proof (induction field read wr stop rule: copy_run.induct)
  case (1 field read wr stop)
  show ?case
  proof (cases "read < stop")
    case True
    let ?field = "field[wr := field ! read XOR MASK]"
    from True "1.prems"(1) have rec: "copy_run ?field (read + 1) (wr + 1) stop = (field', read', wr')"
      by (simp add: copy_run.simps [of field])
    with True "1.prems" have IH: "take wr' field' = take (wr + 1) ?field @ unmask (subslice ?field (read + 1) stop)"
        "drop stop field' = drop stop ?field"
      using "1.IH" [OF True rec] by simp_all
    have "take (wr + 1) ?field = take wr field @ [field ! read XOR MASK]"
      using True "1.prems" by (simp add: take_Suc_conv_app_nth)
    moreover have "subslice ?field (read + 1) stop = subslice field (read + 1) stop"
      using "1.prems"(2) by (simp add: subslice_def)
    moreover have "subslice field read stop = field ! read # subslice field (read + 1) stop"
    proof -
      have "drop read field = field ! read # drop (read + 1) field"
        using True "1.prems"(3) by (simp flip: Cons_nth_drop_Suc)
      moreover have "stop - read = Suc (stop - (read + 1))" using True by simp
      ultimately show ?thesis by (simp add: subslice_def)
    qed
    moreover have "drop stop ?field = drop stop field" using True "1.prems"(2) by simp
    ultimately show ?thesis using IH by simp
  next
    case False
    with "1.prems" show ?thesis by (auto simp: copy_run.simps [of field] subslice_def)
  qed
qed

lemma decode_loop_spec:
  assumes "cobs_decode (unmask (drop read field)) = Some d" "wr \<le> read"
    "decode_loop field read wr = (field', n)"
  shows "n = wr + length d \<and> take n field' = take wr field @ d \<and> length field' = length field"
  using assms
proof (induction field read wr arbitrary: d rule: decode_loop.induct)
  case (1 field read wr)
  show ?case
  proof (cases "read < length field")
    case False
    with "1.prems" show ?thesis by (simp add: decode_loop.simps [of field])
  next
    case True
    define code where code: "code = unat (field ! read XOR MASK)"
    from True "1.prems"(1) have ok: "code \<noteq> 0" "code \<le> length field - read"
      using cobs_decode_drop_None [of read field] by (fastforce simp: code)+
    then have stop: "min (read + 1 + (code - 1)) (length field) = read + code" using True by auto
    obtain f r w where run: "copy_run field (read + 1) wr (read + code) = (f, r, w)"
      by (metis prod_cases3)
    note idx = copy_run_indices [OF run]
    then have r: "r = read + code" and w: "w = wr + (code - 1)" and len: "length f = length field"
      using ok by auto
    have spec: "take w f = take wr field @ unmask (subslice field (read + 1) (read + code))"
        "drop (read + code) f = drop (read + code) field"
      using copy_run_spec [OF run] "1.prems"(2) ok True by auto
    obtain d' where
        d': "cobs_decode (unmask (drop (read + code) field)) = Some d'"
        "unmask (subslice field (read + 1) (read + code)) @
          (if code \<noteq> 0xFF \<and> read + code < length field then [0] else []) @ d' = d"
      using "1.prems"(1) unfolding cobs_decode_drop_block [OF True code ok] map_option_eq_Some by blast
    have step: "decode_loop field read wr =
        (if code \<noteq> 0xFF \<and> r < length f then decode_loop (f[w := 0]) r (w + 1) else decode_loop f r w)"
      unfolding decode_loop.simps [of field read wr] Let_def code [symmetric] stop run using True by simp
    note IHs = "1.IH" [OF True code refl refl, unfolded stop, OF run [symmetric] refl]
    have lt: "w < r" using "1.prems"(2) w r ok by simp
    show ?thesis
    proof (cases "code \<noteq> 0xFF \<and> r < length f")
      case True
      from "1.prems"(3) step True have rec: "decode_loop (f[w := 0]) r (w + 1) = (field', n)" by simp
      have "cobs_decode (unmask (drop r (f[w := 0]))) = Some d'" using d'(1) spec(2) r lt by simp
      from IHs(1) [OF True this _ rec] lt have "n = w + 1 + length d'"
          "take n field' = take (w + 1) (f[w := 0]) @ d'" "length field' = length field"
        by (auto simp: len)
      moreover have "take (w + 1) (f[w := 0]) = take w f @ [0]"
        using True lt by (simp add: take_Suc_conv_app_nth)
      ultimately show ?thesis using spec(1) True len r w ok by (auto simp flip: d'(2))
    next
      case False
      from "1.prems"(3) step False have rec: "decode_loop f r w = (field', n)" by simp
      have "cobs_decode (unmask (drop r f)) = Some d'" using d'(1) spec(2) r by simp
      from IHs(2) [OF False this _ rec] lt have "n = w + length d'"
          "take n field' = take w f @ d'" "length field' = length field"
        by (auto simp: len)
      then show ?thesis using spec(1) False len r w ok by (auto simp flip: d'(2))
    qed
  qed
qed

lemma decode_in_place_spec:
  assumes "cobs_decode (unmask field) = Some d"
  shows "snd (decode_in_place field) = length d \<and>
    take (length d) (fst (decode_in_place field)) = d \<and> length (fst (decode_in_place field)) = length field"
proof -
  obtain f n where dec: "decode_loop field 0 0 = (f, n)" by (metis surj_pair)
  from decode_loop_spec [OF _ _ dec, of d] assms show ?thesis by (auto simp: decode_in_place_def dec)
qed

section \<open>Writing through the chunk\<close>

text \<open>
  The fields an extended frame carries for \<open>data\<close>, as octets: what \<open>write_fields\<close> gives the
  sink, however the chunk splits it.
\<close>

definition encoded_fields :: "octets \<Rightarrow> octets" where
  "encoded_fields data =
     (let field = unmask (cobs_encode data)
      in field @ unmask (cobs_encode (u32_to_le (crc32k field))))"

text \<open>
  The state of the chunked output after \<open>done\<close> masked octets: some chunks were handed to the
  sink in order (none after a failure), the rest waits in the chunk, and the CRC covers what
  was handed over.
\<close>

definition output_rel :: "'s sink_ops \<Rightarrow> 's \<Rightarrow> 's cobs_output \<Rightarrow> octets \<Rightarrow> octets \<Rightarrow> bool" where
  "output_rel ops s0 out flushed rest \<longleftrightarrow>
     length (out_chunk out) = CHUNK \<and> out_used out \<le> CHUNK \<and>
     rest = take (out_used out) (out_chunk out) \<and>
     (\<exists>bs. write_all ops bs s0 = (out_result out, out_sink out) \<and> concat bs = flushed) \<and>
     out_crc out = crc32k_update (-1) flushed"

lemma output_flush_rel:
  assumes "output_rel ops s0 out flushed rest"
  shows "output_rel ops s0 (output_flush ops out) (flushed @ rest) []"
proof -
  from assms obtain bs where bs: "write_all ops bs s0 = (out_result out, out_sink out)" "concat bs = flushed"
    and rest: "rest = take (out_used out) (out_chunk out)"
    by (auto simp: output_rel_def)
  have "write_all ops (bs @ [rest]) s0 = (out_result (output_flush ops out), out_sink (output_flush ops out))"
    by (auto simp: write_all_append bs rest output_flush_def Let_def split: sum.splits prod.splits)
  moreover have "concat (bs @ [rest]) = flushed @ rest" using bs by simp
  ultimately have "\<exists>bs. write_all ops bs s0 =
      (out_result (output_flush ops out), out_sink (output_flush ops out)) \<and> concat bs = flushed @ rest"
    by blast
  then show ?thesis
    using assms by (auto simp: output_rel_def output_flush_def Let_def crc32k_update_append
        split: sum.splits prod.splits)
qed

lemma output_push_rel:
  assumes "output_rel ops s0 out flushed rest"
  shows "\<exists>flushed' rest'. output_rel ops s0 (output_push ops octet out) flushed' rest' \<and>
    flushed' @ rest' = flushed @ rest @ [octet XOR MASK]"
proof -
  have put: "output_rel ops s0 (o1\<lparr>out_chunk := (out_chunk o1)[out_used o1 := octet XOR MASK],
        out_used := out_used o1 + 1\<rparr>) f (r @ [octet XOR MASK])"
    if "output_rel ops s0 o1 f r" "out_used o1 < CHUNK" for o1 f r
    using that by (auto simp: output_rel_def take_Suc_conv_app_nth)
  show ?thesis
  proof (cases "out_used out = CHUNK")
    case True
    have "out_used (output_flush ops out) < CHUNK"
      by (auto simp: output_flush_def Let_def CHUNK_def split: sum.splits prod.splits)
    from put [OF output_flush_rel [OF assms] this] True show ?thesis
      by (intro exI [of _ "flushed @ rest"] exI [of _ "[octet XOR MASK]"]) (simp add: output_push_def Let_def)
  next
    case False
    with assms have "out_used out < CHUNK" by (simp add: output_rel_def)
    from put [OF assms this] False show ?thesis
      by (intro exI [of _ flushed] exI [of _ "rest @ [octet XOR MASK]"]) (simp add: output_push_def Let_def)
  qed
qed

lemma fold_push_rel:
  "output_rel ops s0 out flushed rest \<Longrightarrow>
     \<exists>flushed' rest'. output_rel ops s0 (fold (output_push ops) xs out) flushed' rest' \<and>
       flushed' @ rest' = flushed @ rest @ unmask xs"
proof (induction xs arbitrary: out flushed rest)
  case (Cons x xs)
  from output_push_rel [OF Cons.prems, of x] obtain f r where
    "output_rel ops s0 (output_push ops x out) f r" "f @ r = flushed @ rest @ [x XOR MASK]" by blast
  from Cons.IH [OF this(1)] this(2) show ?case by (metis append.assoc append_Cons append_Nil fold_simps(2) unmask_simps(2))
qed auto

lemma output_blocks_fold: "output_blocks ops data out = fold (output_push ops) (cobs_encode data) out"
proof -
  have "fold (\<lambda>(code, octets) out. fold (output_push ops) octets (output_push ops code out)) bs out =
      fold (output_push ops) (concat (map block_octets bs)) out" for bs
    by (induction bs arbitrary: out) (auto simp: block_octets_def)
  then show ?thesis by (simp add: output_blocks_def cobs_encode_def)
qed

lemma output_blocks_flush_rel:
  assumes "output_rel ops s0 out flushed []"
  shows "output_rel ops s0 (output_flush ops (output_blocks ops data out)) (flushed @ unmask (cobs_encode data)) []"
  using fold_push_rel [OF assms, of "cobs_encode data"] output_flush_rel
  by (fastforce simp: output_blocks_fold)

lemma write_fields_spec:
  "\<exists>bs. write_fields ops data s = write_all ops bs s \<and> concat bs = encoded_fields data"
proof -
  let ?o0 = "\<lparr>out_sink = s, out_chunk = replicate CHUNK 0, out_used = 0, out_crc = -1, out_result = Inr ()\<rparr>"
  let ?o1 = "output_flush ops (output_blocks ops data ?o0)"
  let ?o2 = "output_flush ops (output_blocks ops (u32_to_le (NOT (out_crc ?o1))) ?o1)"
  have "output_rel ops s ?o0 [] []"
    by (auto simp: output_rel_def intro!: exI [of _ "[]"])
  from output_blocks_flush_rel [OF this, of data] have 1: "output_rel ops s ?o1 (unmask (cobs_encode data)) []"
    by simp
  then have "NOT (out_crc ?o1) = crc32k (unmask (cobs_encode data))"
    by (simp add: output_rel_def crc32k_def)
  with output_blocks_flush_rel [OF 1] have "output_rel ops s ?o2 (encoded_fields data) []"
    by (simp add: encoded_fields_def Let_def)
  then obtain bs where "write_all ops bs s = (out_result ?o2, out_sink ?o2)" "concat bs = encoded_fields data"
    by (auto simp: output_rel_def)
  then show ?thesis by (intro exI [of _ bs]) (simp add: write_fields_def Let_def)
qed

section \<open>Checking and decoding what was written\<close>

lemma length_encoded_crc: "length (cobs_encode (u32_to_le v)) = 5"
  using cobs_encode_longer [of "u32_to_le v"] cobs_encode_overhead [of "u32_to_le v"] by simp

lemma length_encoded_fields: "length (encoded_fields data) = length (cobs_encode data) + 5"
  by (simp add: encoded_fields_def Let_def length_encoded_crc)

lemma check_fields_encoded: "check_fields (encoded_fields data) = Some (length data)"
proof -
  let ?field = "unmask (cobs_encode data)" and ?v = "crc32k (unmask (cobs_encode data))"
  let ?crc = "unmask (cobs_encode (u32_to_le ?v))"
  have "take 4 (fst (decode_in_place ?crc)) = u32_to_le ?v"
    using decode_in_place_spec [of ?crc "u32_to_le ?v"] by (simp add: cobs_roundtrip)
  then have "fst (decode_in_place ?crc) ! i = u32_to_le ?v ! i" if "i < 4" for i
    using that by (metis nth_take)
  then have "u32_le (fst (decode_in_place ?crc) ! 0) (fst (decode_in_place ?crc) ! 1)
      (fst (decode_in_place ?crc) ! 2) (fst (decode_in_place ?crc) ! 3) = ?v"
    by (simp add: u32_to_le_def u32_to_be_def u32_le_def)
  then show ?thesis
    by (simp add: check_fields_def encoded_fields_def Let_def length_encoded_crc ENCODED_CRC_LENGTH_def
        decoded_length_eq cobs_roundtrip crc32k_def)
qed

lemma decode_data_encoded:
  "take (length data) (fst (decode_data_in_place (encoded_fields data))) = data"
  using decode_in_place_spec [of "unmask (cobs_encode data)" data] cobs_encode_longer [of data]
  by (simp add: decode_data_in_place_def encoded_fields_def Let_def length_encoded_crc
      ENCODED_CRC_LENGTH_def cobs_roundtrip case_prod_unfold)

text \<open>
  A field that passes the check is what some data encodes to, as far as decoding can tell:
  the length reported is the length of the decoded data, and the data is what the decoder
  leaves in front.
\<close>

lemma check_fields_Some:
  assumes "check_fields enc = Some n"
  shows "\<exists>d. cobs_decode (unmask (take (length enc - 5) enc)) = Some d \<and> n = length d \<and>
    take n (fst (decode_data_in_place enc)) = d \<and> length (fst (decode_data_in_place enc)) = length enc \<and> 5 \<le> length enc"
proof -
  let ?data = "take (length enc - 5) enc"
  from assms have five: "5 \<le> length enc" and "decoded_length ?data = Some n"
    by (auto simp: check_fields_def ENCODED_CRC_LENGTH_def Let_def split: if_splits option.splits)
  then obtain d where d: "cobs_decode (unmask ?data) = Some d" "n = length d"
    by (auto simp: decoded_length_eq)
  from decode_in_place_spec [OF d(1)] have "length d \<le> length (fst (decode_in_place ?data))"
    by (metis length_take min.absorb_iff2 nat_le_linear)
  with decode_in_place_spec [OF d(1)] d five show ?thesis
    by (auto simp: decode_data_in_place_def ENCODED_CRC_LENGTH_def Let_def split: prod.splits)
qed

section \<open>Properties\<close>

text \<open>
  the encoded fields of any data pass the receiver's check, which reports the data's
  length, and decoding them in place leaves exactly that data in front: the COBS round trip,
  CRC-32K included.
\<close>

theorem cobs_fields_roundtrip:
  "check_fields (encoded_fields data) = Some (length data) \<and>
   take (length data) (fst (decode_data_in_place (encoded_fields data))) = data"
  by (simp add: check_fields_encoded decode_data_encoded)

text \<open>
  neither encoded field holds the first preamble octet 0x55; their length is the frame's
  Length field plus two, and exceeds the data by the five CRC octets and one octet per 254
  octets of data (one for no data).
\<close>

theorem cobs_fields_size:
  "0x55 \<notin> set (encoded_fields data) \<and>
   length (encoded_fields data) = frame_length data + LENGTH_ADJUSTMENT \<and>
   length (encoded_fields data) \<le> length data + max 1 ((length data + 253) div 254) + ENCODED_CRC_LENGTH"
proof -
  have "0x55 \<notin> set (encoded_fields data)"
    by (simp add: encoded_fields_def Let_def unmask_not_preamble cobs_encode_nonzero)
  moreover have "length (encoded_fields data) = frame_length data + LENGTH_ADJUSTMENT"
    by (simp add: length_encoded_fields frame_length_eq LENGTH_ADJUSTMENT_def)
  ultimately show ?thesis
    using cobs_encode_overhead [of data] by (simp add: length_encoded_fields ENCODED_CRC_LENGTH_def)
qed

text \<open>
  C27: the decoder that works over its own input agrees with the plain functional decoder on
  every field: \<open>decoded_length\<close> refuses exactly the fields that have no decoding and gives the
  decoding's length otherwise, and then \<open>decode_in_place\<close> reports that length and leaves the
  decoding in front of a buffer of the same size.
\<close>

theorem decode_in_place_refines:
  "decoded_length field = map_option length (cobs_decode (unmask field)) \<and>
   (case cobs_decode (unmask field) of
      None \<Rightarrow> True
    | Some d \<Rightarrow> snd (decode_in_place field) = length d \<and>
        take (length d) (fst (decode_in_place field)) = d \<and>
        length (fst (decode_in_place field)) = length field)"
  using decode_in_place_spec [of field] by (simp add: decoded_length_eq split: option.split)

end
