(* ===== verification/Mstp_Frame.thy ===== *)
theory Mstp_Frame
  imports Mstp_Cobs
begin

text \<open>
  MS/TP frames (\<open>crates/bacnet-mstp-codec/src/frame.rs\<close>, \<open>decode.rs\<close>, \<open>error.rs\<close> and the
  constants of \<open>lib.rs\<close>): frame types, the header checks both directions share, encoding
  into a sink or a buffer, and one-shot decoding, borrowed or in place. The theory proves
  the round trip for every frame the encoder takes, that a refused encode leaves a fixed
  buffer untouched, what an accepted input guarantees, and that changing any one octet of
  an accepted standard frame makes it refused.
\<close>

unbundle bit_operations_syntax

section \<open>Constants and errors\<close>

definition PREAMBLE :: octets where "PREAMBLE = [0x55, 0xFF]"
definition HEADER_LENGTH :: nat where "HEADER_LENGTH = 6"
definition MAX_STANDARD_MPDU_DATA :: nat where "MAX_STANDARD_MPDU_DATA = 501"
definition MAX_MASTER :: octet where "MAX_MASTER = 127"
definition BROADCAST_MAC :: octet where "BROADCAST_MAC = 0xFF"
definition MAX_STANDARD_FRAME_LENGTH :: nat where
  "MAX_STANDARD_FRAME_LENGTH = length PREAMBLE + HEADER_LENGTH + MAX_STANDARD_MPDU_DATA + 2"
definition MIN_COBS_LENGTH :: nat where "MIN_COBS_LENGTH = 5"
definition MAX_COBS_LENGTH :: nat where "MAX_COBS_LENGTH = 2043"
definition MAX_EXTENDED_MPDU_DATA :: nat where "MAX_EXTENDED_MPDU_DATA = 1497"
definition MAX_EXTENDED_FRAME_LENGTH :: nat where
  "MAX_EXTENDED_FRAME_LENGTH = length PREAMBLE + HEADER_LENGTH + MAX_EXTENDED_MPDU_DATA
     + (MAX_EXTENDED_MPDU_DATA + 253) div 254 + ENCODED_CRC_LENGTH"
definition MAX_COBS_FRAME_LENGTH :: nat where
  "MAX_COBS_FRAME_LENGTH = length PREAMBLE + HEADER_LENGTH + MAX_COBS_LENGTH + LENGTH_ADJUSTMENT"
definition DATA_OFFSET :: nat where "DATA_OFFSET = length PREAMBLE + HEADER_LENGTH"
definition TRAILER_LENGTH :: nat where "TRAILER_LENGTH = 2"

lemmas frame_consts [codec] = PREAMBLE_def HEADER_LENGTH_def MAX_STANDARD_MPDU_DATA_def BROADCAST_MAC_def
  MAX_STANDARD_FRAME_LENGTH_def MIN_COBS_LENGTH_def MAX_COBS_LENGTH_def MAX_EXTENDED_MPDU_DATA_def
  MAX_EXTENDED_FRAME_LENGTH_def MAX_COBS_FRAME_LENGTH_def DATA_OFFSET_def TRAILER_LENGTH_def
  ENCODED_CRC_LENGTH_def LENGTH_ADJUSTMENT_def

lemma frame_offsets [simp]: "length PREAMBLE = 2" "DATA_OFFSET = 8"
  by (simp_all add: DATA_OFFSET_def PREAMBLE_def HEADER_LENGTH_def)

datatype frame_error =
    TooShort nat nat
  | InvalidPreamble octet octet
  | HeaderCrcMismatch
  | UnsupportedCobsFrame octet
  | BroadcastSource
  | InvalidCobsLength nat
  | ExtendedFrame octet
  | Oversize nat nat
  | UnexpectedData octet nat
  | MissingVendorId octet nat
  | Truncated nat nat
  | DataCrcMismatch nat
  | FrameTooLong nat nat
  | BufferExhausted nat nat

definition from_sink_full :: "sink_full \<Rightarrow> frame_error" where
  "from_sink_full full = BufferExhausted (sf_needed full) (sf_available full)"

section \<open>Frame types and headers\<close>

datatype frame_type = FrameType (to_raw: octet)

definition from_raw :: "octet \<Rightarrow> frame_type" where
  "from_raw value = FrameType value"

definition TOKEN :: frame_type where "TOKEN = FrameType 0"
definition POLL_FOR_MASTER :: frame_type where "POLL_FOR_MASTER = FrameType 1"
definition REPLY_TO_POLL_FOR_MASTER :: frame_type where "REPLY_TO_POLL_FOR_MASTER = FrameType 2"
definition TEST_REQUEST :: frame_type where "TEST_REQUEST = FrameType 3"
definition TEST_RESPONSE :: frame_type where "TEST_RESPONSE = FrameType 4"
definition BACNET_DATA_EXPECTING_REPLY :: frame_type where "BACNET_DATA_EXPECTING_REPLY = FrameType 5"
definition BACNET_DATA_NOT_EXPECTING_REPLY :: frame_type where "BACNET_DATA_NOT_EXPECTING_REPLY = FrameType 6"
definition REPLY_POSTPONED :: frame_type where "REPLY_POSTPONED = FrameType 7"
definition BACNET_EXTENDED_DATA_EXPECTING_REPLY :: frame_type where
  "BACNET_EXTENDED_DATA_EXPECTING_REPLY = FrameType 32"
definition BACNET_EXTENDED_DATA_NOT_EXPECTING_REPLY :: frame_type where
  "BACNET_EXTENDED_DATA_NOT_EXPECTING_REPLY = FrameType 33"

lemmas frame_type_consts = TOKEN_def POLL_FOR_MASTER_def REPLY_TO_POLL_FOR_MASTER_def TEST_REQUEST_def
  TEST_RESPONSE_def BACNET_DATA_EXPECTING_REPLY_def BACNET_DATA_NOT_EXPECTING_REPLY_def REPLY_POSTPONED_def
  BACNET_EXTENDED_DATA_EXPECTING_REPLY_def BACNET_EXTENDED_DATA_NOT_EXPECTING_REPLY_def

text \<open>\<open>FrameType::is_defined\<close>: the value is one of the named constants.\<close>

definition is_defined :: "frame_type \<Rightarrow> bool" where
  "is_defined t \<longleftrightarrow> t \<in> set [TOKEN, POLL_FOR_MASTER, REPLY_TO_POLL_FOR_MASTER, TEST_REQUEST, TEST_RESPONSE,
     BACNET_DATA_EXPECTING_REPLY, BACNET_DATA_NOT_EXPECTING_REPLY, REPLY_POSTPONED,
     BACNET_EXTENDED_DATA_EXPECTING_REPLY, BACNET_EXTENDED_DATA_NOT_EXPECTING_REPLY]"

definition allows_data :: "frame_type \<Rightarrow> bool" where
  "allows_data t \<longleftrightarrow> \<not> (to_raw t = 0 \<or> to_raw t = 1 \<or> to_raw t = 2 \<or> to_raw t = 7)"

definition is_cobs :: "frame_type \<Rightarrow> bool" where
  "is_cobs t \<longleftrightarrow> to_raw t \<ge> 32 \<and> to_raw t \<le> 127"

definition is_extended_data :: "frame_type \<Rightarrow> bool" where
  "is_extended_data t \<longleftrightarrow> to_raw t = 32 \<or> to_raw t = 33"

definition is_proprietary :: "frame_type \<Rightarrow> bool" where
  "is_proprietary t \<longleftrightarrow> to_raw t \<ge> 128"

record frame_header =
  fh_type :: frame_type
  fh_destination :: octet
  fh_source :: octet

record frame =
  fr_header :: frame_header
  fr_data :: octets

definition new_frame :: "frame_type \<Rightarrow> octet \<Rightarrow> octet \<Rightarrow> octets \<Rightarrow> frame" where
  "new_frame t dst src d = \<lparr>fr_header = \<lparr>fh_type = t, fh_destination = dst, fh_source = src\<rparr>, fr_data = d\<rparr>"

definition wire_length :: "nat \<Rightarrow> nat" where
  "wire_length len = (if len = 0 then DATA_OFFSET else DATA_OFFSET + len + TRAILER_LENGTH)"

definition check_header_fields :: "frame_type \<Rightarrow> octet \<Rightarrow> nat \<Rightarrow> frame_error + unit" where
  "check_header_fields t src len =
     (if src = BROADCAST_MAC then Inl BroadcastSource
      else if is_cobs t then
        (if \<not> (MIN_COBS_LENGTH \<le> len \<and> len \<le> MAX_COBS_LENGTH) then Inl (InvalidCobsLength len)
         else if \<not> is_extended_data t then Inl (UnsupportedCobsFrame (to_raw t))
         else Inr ())
      else if len > MAX_STANDARD_MPDU_DATA then Inl (Oversize len MAX_STANDARD_MPDU_DATA)
      else Inr ())"

section \<open>Encoding\<close>

definition checked_length :: "frame \<Rightarrow> frame_error + nat" where
  "checked_length f =
     (let t = fh_type (fr_header f);
          len = (if is_cobs t then frame_length (fr_data f) else length (fr_data f))
      in try_res (check_header_fields t (fh_source (fr_header f)) len) (\<lambda>_.
         if len \<noteq> 0 \<and> \<not> allows_data t then Inl (UnexpectedData (to_raw t) len)
         else if len < 2 \<and> is_proprietary t then Inl (MissingVendorId (to_raw t) len)
         else Inr len))"

definition head_octets :: "frame_header \<Rightarrow> nat \<Rightarrow> octets" where
  "head_octets h len =
     (let fields = [to_raw (fh_type h), fh_destination h, fh_source h, of_nat (len div 256), of_nat len]
      in PREAMBLE @ fields @ [crc8 fields])"

text \<open>What the three writes of a frame amount to once its capacity check has passed.\<close>

definition write_frame :: "'s sink_ops \<Rightarrow> frame \<Rightarrow> nat \<Rightarrow> 's \<Rightarrow> (sink_full + unit) \<times> 's" where
  "write_frame ops f len sink =
     (case write_sink ops (head_octets (fr_header f) len) sink of
        (Inl full, s1) \<Rightarrow> (Inl full, s1)
      | (Inr _, s1) \<Rightarrow>
          if is_cobs (fh_type (fr_header f)) then write_fields ops (fr_data f) s1
          else if len \<noteq> 0 then
            (case write_sink ops (fr_data f) s1 of
               (Inl full, s2) \<Rightarrow> (Inl full, s2)
             | (Inr _, s2) \<Rightarrow> write_sink ops (u16_to_le (crc16 (fr_data f))) s2)
          else (Inr (), s1))"

definition encode_to_sink :: "'s sink_ops \<Rightarrow> frame \<Rightarrow> 's \<Rightarrow> (frame_error + nat) \<times> 's" where
  "encode_to_sink ops f sink =
     (case checked_length f of
        Inl e \<Rightarrow> (Inl e, sink)
      | Inr len \<Rightarrow>
          (let total = wire_length len;
               refused = (case remaining_capacity ops sink of
                   None \<Rightarrow> None
                 | Some available \<Rightarrow>
                     if available < total then Some (BufferExhausted total available) else None)
           in case refused of
                Some e \<Rightarrow> (Inl e, sink)
              | None \<Rightarrow> (case write_frame ops f len sink of
                   (Inl full, s) \<Rightarrow> (Inl (from_sink_full full), s)
                 | (Inr _, s) \<Rightarrow> (Inr total, s))))"

definition encode_into :: "frame \<Rightarrow> octets \<Rightarrow> (frame_error + nat) \<times> octets" where
  "encode_into f buffer =
     (case encode_to_sink slice_ops f \<lparr>passed = [], tail = buffer\<rparr> of
        (r, s) \<Rightarrow> (r, passed s @ tail s))"

section \<open>Decoding\<close>

record good_header =
  gh_header :: frame_header
  gh_length :: nat

record valid_frame =
  vf_header :: frame_header
  vf_data_length :: nat
  vf_consumed :: nat

definition check_header :: "octets \<Rightarrow> bool \<Rightarrow> frame_error + good_header" where
  "check_header input reserved_cobs =
     (if length input < DATA_OFFSET then Inl (TooShort DATA_OFFSET (length input))
      else if take (length PREAMBLE) input \<noteq> PREAMBLE then Inl (InvalidPreamble (input ! 0) (input ! 1))
      else if \<not> crc8_valid (subslice input (length PREAMBLE) DATA_OFFSET) then Inl HeaderCrcMismatch
      else let t = from_raw (input ! 2); dst = input ! 3; src = input ! 4;
               len = unat (u16_be (input ! 5) (input ! 6));
               good = \<lparr>gh_header = \<lparr>fh_type = t, fh_destination = dst, fh_source = src\<rparr>, gh_length = len\<rparr>
           in case check_header_fields t src len of
                Inl (UnsupportedCobsFrame raw) \<Rightarrow>
                  if reserved_cobs then Inr good else Inl (UnsupportedCobsFrame raw)
              | Inl e \<Rightarrow> Inl e
              | Inr _ \<Rightarrow> Inr good)"

definition check_frame :: "octets \<Rightarrow> bool \<Rightarrow> frame_error + valid_frame" where
  "check_frame input reserved_cobs =
     try_res (check_header input reserved_cobs) (\<lambda>g.
       let h = gh_header g; len = gh_length g; consumed = wire_length len in
       if length input < consumed then Inl (Truncated len (length input - DATA_OFFSET))
       else let body = subslice input DATA_OFFSET consumed in
         try_res
           (if is_cobs (fh_type h) then ok_or (DataCrcMismatch len) (check_fields body)
            else if len \<noteq> 0 \<and> \<not> crc16_valid body then Inl (DataCrcMismatch len)
            else Inr len)
           (\<lambda>data_length. Inr \<lparr>vf_header = h, vf_data_length = data_length, vf_consumed = consumed\<rparr>))"

definition decode_extended_in_place :: "octets \<Rightarrow> valid_frame \<Rightarrow> octets" where
  "decode_extended_in_place input valid =
     (if is_cobs (fh_type (vf_header valid))
      then take DATA_OFFSET input
             @ fst (decode_data_in_place (subslice input DATA_OFFSET (vf_consumed valid)))
             @ drop (vf_consumed valid) input
      else input)"

definition decode_frame :: "octets \<Rightarrow> frame_error + frame \<times> nat" where
  "decode_frame input =
     try_res (check_header input False) (\<lambda>g.
       let t = fh_type (gh_header g) in
       if is_cobs t then Inl (ExtendedFrame (to_raw t))
       else try_res (check_frame input False) (\<lambda>valid.
         Inr (\<lparr>fr_header = vf_header valid,
               fr_data = subslice input DATA_OFFSET (DATA_OFFSET + vf_data_length valid)\<rparr>, vf_consumed valid)))"

definition decode_frame_in_place :: "octets \<Rightarrow> (frame_error + frame \<times> nat) \<times> octets" where
  "decode_frame_in_place input =
     (case check_frame input False of
        Inl e \<Rightarrow> (Inl e, input)
      | Inr valid \<Rightarrow>
          (let input' = decode_extended_in_place input valid
           in (Inr (\<lparr>fr_header = vf_header valid,
                     fr_data = subslice input' DATA_OFFSET (DATA_OFFSET + vf_data_length valid)\<rparr>,
                    vf_consumed valid), input')))"

fun find_preamble :: "octets \<Rightarrow> nat option" where
  "find_preamble (a # b # rest) =
     (if [a, b] = PREAMBLE then Some 0 else map_option Suc (find_preamble (b # rest)))"
| "find_preamble _ = None"

section \<open>The octets of a frame\<close>

definition declared_length_of :: "frame \<Rightarrow> nat" where
  "declared_length_of f = (if is_cobs (fh_type (fr_header f)) then frame_length (fr_data f) else length (fr_data f))"

definition frame_octets :: "frame \<Rightarrow> octets" where
  "frame_octets f =
     head_octets (fr_header f) (declared_length_of f) @
       (if is_cobs (fh_type (fr_header f)) then encoded_fields (fr_data f)
        else if fr_data f \<noteq> [] then fr_data f @ u16_to_le (crc16 (fr_data f)) else [])"

lemma checked_length_eq: "checked_length f = Inr len \<Longrightarrow> len = declared_length_of f"
  by (auto simp: checked_length_def declared_length_of_def Let_def try_res_eq_Inr split: if_splits)

lemma frame_length_pos: "frame_length d \<ge> 4"
  using cobs_encode_longer [of d] by (simp add: frame_length_eq)

lemma length_head_octets [simp]: "length (head_octets h len) = 8"
  by (simp add: head_octets_def PREAMBLE_def)

lemma length_frame_octets: "length (frame_octets f) = wire_length (declared_length_of f)"
  using frame_length_pos [of "fr_data f"]
  by (auto simp: frame_octets_def declared_length_of_def wire_length_def length_encoded_fields frame_length_eq codec)

lemma write_frame_spec:
  "\<exists>bs. write_frame ops f (declared_length_of f) s = write_all ops bs s \<and> concat bs = frame_octets f"
proof (cases "is_cobs (fh_type (fr_header f))")
  case True
  let ?head = "head_octets (fr_header f) (declared_length_of f)"
  obtain bs where bs: "write_fields ops (fr_data f) (snd (write_sink ops ?head s)) =
      write_all ops bs (snd (write_sink ops ?head s))" "concat bs = encoded_fields (fr_data f)"
    using write_fields_spec by metis
  have "write_frame ops f (declared_length_of f) s = write_all ops (?head # bs) s"
    using bs(1) True by (auto simp: write_frame_def split: prod.splits sum.splits)
  moreover have "concat (?head # bs) = frame_octets f" using True bs(2) by (simp add: frame_octets_def)
  ultimately show ?thesis by blast
next
  case False
  let ?bs = "head_octets (fr_header f) (declared_length_of f) #
    (if fr_data f \<noteq> [] then [fr_data f, u16_to_le (crc16 (fr_data f))] else [])"
  have "write_frame ops f (declared_length_of f) s = write_all ops ?bs s"
    using False by (auto simp: write_frame_def declared_length_of_def split: prod.splits sum.splits)
  moreover have "concat ?bs = frame_octets f" using False by (simp add: frame_octets_def)
  ultimately show ?thesis by blast
qed

lemma write_frame_checked:
  "checked_length f = Inr len \<Longrightarrow>
     \<exists>bs. write_frame ops f len s = write_all ops bs s \<and> concat bs = frame_octets f"
  by (metis checked_length_eq write_frame_spec)

text \<open>
  Over any lawful sink an encode either leaves the sink's contents alone and reports why, or
  appends the frame's octets and reports their number; only a growable sink's own failure
  can leave part of a frame behind.
\<close>

context frame_sink
begin

lemma encode_appends:
  assumes "ok s" "encode_to_sink ops f s = (Inr n, s')"
  shows "contents s' = contents s @ frame_octets f \<and> n = length (frame_octets f)"
proof -
  from assms(2) obtain len where len: "checked_length f = Inr len"
    and wr: "write_frame ops f len s = (Inr (), s')" "n = wire_length len"
    by (auto simp: encode_to_sink_def Let_def split: sum.splits option.splits prod.splits)
  obtain bs where "write_frame ops f len s = write_all ops bs s" "concat bs = frame_octets f"
    using write_frame_checked [OF len] by metis
  with wr write_all_appends [OF assms(1), of bs s'] checked_length_eq [OF len] show ?thesis
    by (simp add: length_frame_octets)
qed

lemma encode_fixed_refuses:
  assumes "ok s" "remaining_capacity ops s = Some room" "encode_to_sink ops f s = (Inl e, s')"
  shows "s' = s"
proof -
  have False if chk: "checked_length f = Inr len" "\<not> room < wire_length len" "write_frame ops f len s = (Inl full, s'')"
    for len full s''
  proof -
    obtain bs where bs: "write_frame ops f len s = write_all ops bs s" "concat bs = frame_octets f"
      using write_frame_checked [OF chk(1)] by metis
    then have "length (concat bs) \<le> room"
      using chk(2) checked_length_eq [OF chk(1)] by (simp add: length_frame_octets)
    from write_all_fits [OF assms(1,2) this] bs(1) chk(3) show False by auto
  qed
  with assms show ?thesis
    by (fastforce simp: encode_to_sink_def Let_def split: sum.splits option.splits prod.splits if_splits)
qed

lemma encode_fits:
  assumes "ok s" "remaining_capacity ops s = Some room" "checked_length f = Inr len" "wire_length len \<le> room"
  shows "\<exists>s'. encode_to_sink ops f s = (Inr (wire_length len), s')"
proof -
  obtain bs where bs: "write_frame ops f len s = write_all ops bs s" "concat bs = frame_octets f"
    using write_frame_checked [OF assms(3)] by metis
  then have "length (concat bs) \<le> room"
    using assms checked_length_eq [OF assms(3)] by (simp add: length_frame_octets)
  from write_all_fits [OF assms(1,2) this] bs(1) obtain s' where "write_frame ops f len s = (Inr (), s')"
    by auto
  with assms show ?thesis by (simp add: encode_to_sink_def)
qed

end

section \<open>Decoding what was encoded\<close>

lemma slice_head:
  "subslice (head_octets h len @ body) 2 8 =
     [to_raw (fh_type h), fh_destination h, fh_source h, of_nat (len div 256), of_nat len] @
     [crc8 [to_raw (fh_type h), fh_destination h, fh_source h, of_nat (len div 256), of_nat len]]"
  by (simp add: head_octets_def PREAMBLE_def subslice_def Let_def)

lemma nth_head:
  "(head_octets h len @ body) ! 2 = to_raw (fh_type h)" "(head_octets h len @ body) ! 3 = fh_destination h"
  "(head_octets h len @ body) ! 4 = fh_source h" "(head_octets h len @ body) ! 5 = of_nat (len div 256)"
  "(head_octets h len @ body) ! 6 = of_nat len" "take 2 (head_octets h len @ body) = PREAMBLE"
  by (simp_all add: head_octets_def PREAMBLE_def Let_def)

lemma check_header_head:
  assumes "len < 65536" "check_header_fields (fh_type h) (fh_source h) len = Inr ()"
  shows "check_header (head_octets h len @ body) reserved = Inr \<lparr>gh_header = h, gh_length = len\<rparr>"
proof -
  have "length (head_octets h len @ body) \<ge> 8" by simp
  moreover have "crc8_valid (subslice (head_octets h len @ body) 2 8)"
    unfolding slice_head crc8_valid_snoc ..
  moreover have "from_raw (to_raw (fh_type h)) = fh_type h" by (simp add: from_raw_def)
  moreover have "unat (u16_be (of_nat (len div 256)) (of_nat len)) = len"
    using assms(1) by (simp add: u16_be_of_nat)
  ultimately show ?thesis
    using assms(2) unfolding check_header_def frame_offsets by (simp add: nth_head Let_def del: take_append)
qed

lemma checked_length_header:
  assumes "checked_length f = Inr len"
  shows "check_header_fields (fh_type (fr_header f)) (fh_source (fr_header f)) len = Inr ()"
  using assms by (auto simp: checked_length_def Let_def try_res_eq_Inr split: if_splits)

lemma check_header_fields_bound: "check_header_fields t src len = Inr () \<Longrightarrow> len \<le> 2043"
  by (auto simp: check_header_fields_def codec split: if_splits)

lemma check_frame_octets:
  assumes "checked_length f = Inr len"
  shows "check_frame (frame_octets f @ rest) reserved =
    Inr \<lparr>vf_header = fr_header f, vf_data_length = length (fr_data f), vf_consumed = wire_length len\<rparr>"
proof -
  note len = checked_length_eq [OF assms]
  define body where "body = (if is_cobs (fh_type (fr_header f)) then encoded_fields (fr_data f)
    else if fr_data f \<noteq> [] then fr_data f @ u16_to_le (crc16 (fr_data f)) else [])"
  have oct: "frame_octets f = head_octets (fr_header f) len @ body"
    by (simp add: frame_octets_def body_def len)
  have hdr: "check_header (frame_octets f @ rest) reserved = Inr \<lparr>gh_header = fr_header f, gh_length = len\<rparr>"
    using check_header_head [OF _ checked_length_header [OF assms]]
      check_header_fields_bound [OF checked_length_header [OF assms]] by (simp add: oct)
  have total: "length (frame_octets f) = wire_length len" by (simp add: length_frame_octets len)
  then have body: "subslice (frame_octets f @ rest) DATA_OFFSET (wire_length len) = body"
    by (simp add: oct subslice_append_mid)
  show ?thesis
    using total len unfolding check_frame_def hdr try_res_simps Let_def good_header.simps body
    by (auto simp: body_def declared_length_of_def check_fields_encoded crc16_valid_encoded)
qed

lemma decode_extended_octets:
  assumes "checked_length f = Inr len"
    "valid = \<lparr>vf_header = fr_header f, vf_data_length = length (fr_data f), vf_consumed = wire_length len\<rparr>"
  shows "subslice (decode_extended_in_place (frame_octets f @ rest) valid) DATA_OFFSET
    (DATA_OFFSET + length (fr_data f)) = fr_data f"
proof (cases "is_cobs (fh_type (fr_header f))")
  case True
  note len = checked_length_eq [OF assms(1)]
  have oct: "frame_octets f = head_octets (fr_header f) len @ encoded_fields (fr_data f)"
    using True by (simp add: frame_octets_def len)
  have total: "length (frame_octets f) = wire_length len" by (simp add: length_frame_octets len)
  then have body: "subslice (frame_octets f @ rest) DATA_OFFSET (wire_length len) = encoded_fields (fr_data f)"
    by (simp add: oct subslice_append_mid)
  have "length (fst (decode_data_in_place (encoded_fields (fr_data f)))) \<ge> length (fr_data f)"
    using decode_data_encoded [of "fr_data f"] by (metis length_take min.cobounded1 min.commute)
  with decode_data_encoded [of "fr_data f"] True assms(2) body show ?thesis
    by (simp add: decode_extended_in_place_def subslice_def oct)
next
  case False
  with assms(2) show ?thesis
    by (auto simp: decode_extended_in_place_def frame_octets_def subslice_def)
qed

section \<open>What an accepted input is\<close>

lemma check_header_Inr:
  assumes "check_header input reserved = Inr g"
  shows "8 \<le> length input \<and> take 2 input = PREAMBLE \<and> crc8_valid (subslice input 2 8) \<and>
    gh_header g = \<lparr>fh_type = FrameType (input ! 2), fh_destination = input ! 3, fh_source = input ! 4\<rparr> \<and>
    gh_length g = unat (u16_be (input ! 5) (input ! 6)) \<and> gh_length g \<le> 2043 \<and>
    fh_source (gh_header g) \<noteq> 0xFF \<and> (\<not> is_cobs (fh_type (gh_header g)) \<longrightarrow> gh_length g \<le> 501) \<and>
    (is_cobs (fh_type (gh_header g)) \<longrightarrow> 5 \<le> gh_length g \<and> (reserved \<or> is_extended_data (fh_type (gh_header g))))"
  using assms
  by (auto simp: check_header_def check_header_fields_def from_raw_def Let_def
      MAX_STANDARD_MPDU_DATA_def MIN_COBS_LENGTH_def MAX_COBS_LENGTH_def BROADCAST_MAC_def
      split: if_splits)

lemma check_header_update: "8 \<le> i \<Longrightarrow> check_header (input[i := x]) reserved = check_header input reserved"
  unfolding check_header_def frame_offsets by (simp add: subslice_list_update_out)

lemma take8_of_header:
  assumes "8 \<le> length input" "take 2 input = PREAMBLE" "crc8_valid (subslice input 2 8)"
  shows "take 8 input = head_octets \<lparr>fh_type = FrameType (input ! 2), fh_destination = input ! 3,
    fh_source = input ! 4\<rparr> (unat (u16_be (input ! 5) (input ! 6)))"
proof -
  let ?len = "unat (u16_be (input ! 5) (input ! 6))"
  have five: "subslice input 2 8 = [input ! 2, input ! 3, input ! 4, input ! 5, input ! 6] @ [input ! 7]"
    using assms(1) by (intro nth_equalityI) (auto simp: nth_subslice less_Suc_eq numeral_eq_Suc)
  have "[of_nat (?len div 256), of_nat ?len] = [input ! 5, input ! 6]"
    using u16_to_be_of_nat [of "u16_be (input ! 5) (input ! 6)"] by (simp only: u16_to_be_be)
  moreover have "take 8 input = PREAMBLE @ subslice input 2 8"
    using assms(2) take_subslice [of 2 8 input] by simp
  ultimately show ?thesis
    using assms(3) five unfolding five crc8_valid_snoc by (simp add: head_octets_def Let_def)
qed

lemma decode_frame_Inr:
  assumes "decode_frame input = Inr (f, n)"
  shows "n = length (frame_octets f) \<and> n \<le> length input \<and> take n input = frame_octets f \<and>
    fh_source (fr_header f) \<noteq> 0xFF \<and> length (fr_data f) \<le> 501 \<and> \<not> is_cobs (fh_type (fr_header f))"
proof -
  from assms obtain g where g: "check_header input False = Inr g" "\<not> is_cobs (fh_type (gh_header g))"
    and len: "wire_length (gh_length g) \<le> length input"
    and crc: "gh_length g \<noteq> 0 \<longrightarrow> crc16_valid (subslice input 8 (wire_length (gh_length g)))"
    and f: "f = \<lparr>fr_header = gh_header g, fr_data = subslice input 8 (8 + gh_length g)\<rparr>" "n = wire_length (gh_length g)"
    by (auto simp: decode_frame_def check_frame_def try_res_eq_Inr Let_def split: if_splits)
  note h = check_header_Inr [OF g(1)]
  have data_len: "length (fr_data f) = gh_length g" using len f by (auto simp: wire_length_def TRAILER_LENGTH_def split: if_splits)
  have head: "take 8 input = head_octets (fr_header f) (length (fr_data f))"
    using h take8_of_header [of input] data_len f by auto
  have oct: "frame_octets f = head_octets (fr_header f) (length (fr_data f)) @
      (if fr_data f \<noteq> [] then fr_data f @ u16_to_le (crc16 (fr_data f)) else [])"
    using g(2) f by (simp add: frame_octets_def declared_length_of_def)
  have "take n input = frame_octets f"
  proof (cases "gh_length g = 0")
    case True
    then show ?thesis using head data_len f oct by (auto simp: wire_length_def)
  next
    case False
    let ?body = "subslice input 8 n"
    have n: "n = 8 + gh_length g + 2" using False f by (simp add: wire_length_def TRAILER_LENGTH_def)
    then obtain lo hi where tail: "drop (gh_length g) ?body = [lo, hi]"
      using len f(2) by (cases "drop (gh_length g) ?body"; cases "tl (drop (gh_length g) ?body)") (auto dest: arg_cong [where f = length])
    have front: "take (gh_length g) ?body = fr_data f" using n f(1) by (simp add: subslice_def)
    have body: "?body = fr_data f @ [lo, hi]" using tail front by (metis append_take_drop_id)
    with crc False f have "u16_le lo hi = crc16 (fr_data f)" "fr_data f \<noteq> []"
      by (auto simp: crc16_valid_append)
    then have "[lo, hi] = u16_to_le (crc16 (fr_data f))"
      using u16_to_le_le [of lo hi] by simp
    moreover have "take n input = take 8 input @ ?body"
      using n take_subslice [of 8 n input] by simp
    ultimately show ?thesis using head body oct \<open>fr_data f \<noteq> []\<close> by simp
  qed
  moreover have "n = length (frame_octets f)"
    using f g(2) data_len by (simp add: length_frame_octets declared_length_of_def)
  ultimately show ?thesis using h g(2) f data_len len by auto
qed

section \<open>Encoding into a buffer\<close>

lemma slice_write_all_tail:
  "write_all slice_ops bs s = (Inr (), s') \<Longrightarrow> tail s' = drop (length (concat bs)) (tail s)"
  by (induction bs arbitrary: s)
    (auto simp: slice_ops_def slice_write_def add.commute split: if_splits prod.splits sum.splits)

lemma encode_into_eq:
  "encode_into f buffer =
    (case checked_length f of
       Inl e \<Rightarrow> (Inl e, buffer)
     | Inr len \<Rightarrow>
         if length buffer < wire_length len
         then (Inl (BufferExhausted (wire_length len) (length buffer)), buffer)
         else (Inr (wire_length len), frame_octets f @ drop (wire_length len) buffer))"
proof (cases "checked_length f")
  case (Inr len)
  let ?s = "\<lparr>passed = [], tail = buffer\<rparr>"
  have cap: "remaining_capacity slice_ops ?s = Some (length buffer)" by (simp add: slice_ops_def)
  show ?thesis
  proof (cases "length buffer < wire_length len")
    case False
    then obtain s' where enc: "encode_to_sink slice_ops f ?s = (Inr (wire_length len), s')"
      using slice_frame_sink.encode_fits [OF _ cap Inr] by auto
    then have "write_frame slice_ops f len ?s = (Inr (), s')"
      using Inr cap False by (auto simp: encode_to_sink_def Let_def split: prod.splits sum.splits)
    moreover obtain bs where bs: "write_frame slice_ops f len ?s = write_all slice_ops bs ?s"
        "concat bs = frame_octets f"
      using write_frame_checked [OF Inr] by metis
    ultimately have "tail s' = drop (length (frame_octets f)) buffer"
      using slice_write_all_tail [of bs ?s s'] by (simp del: length_concat)
    with slice_frame_sink.encode_appends [OF _ enc] Inr False enc show ?thesis
      by (simp add: encode_into_def)
  qed (simp add: encode_into_def encode_to_sink_def Inr cap)
qed (simp add: encode_into_def encode_to_sink_def)

text \<open>The octets the encoder wrote, decoded with anything behind them.\<close>

lemma octets_decode:
  assumes "checked_length f = Inr len"
  shows "fst (decode_frame_in_place (frame_octets f @ rest)) = Inr (f, wire_length len)"
    and "\<not> is_cobs (fh_type (fr_header f)) \<Longrightarrow> decode_frame (frame_octets f @ rest) = Inr (f, wire_length len)"
proof -
  note chk = check_frame_octets [OF assms, of rest False] and data = decode_extended_octets [OF assms refl, of rest]
  show "fst (decode_frame_in_place (frame_octets f @ rest)) = Inr (f, wire_length len)"
    using data by (simp add: decode_frame_in_place_def chk Let_def)
  assume std: "\<not> is_cobs (fh_type (fr_header f))"
  from chk obtain g where "check_header (frame_octets f @ rest) False = Inr g" "gh_header g = fr_header f"
    by (auto simp: check_frame_def try_res_eq_Inr Let_def split: if_splits)
  with std data chk show "decode_frame (frame_octets f @ rest) = Inr (f, wire_length len)"
    by (simp add: decode_frame_def decode_extended_in_place_def Let_def)
qed

section \<open>Properties\<close>

text \<open>
  encoding into a buffer has exactly three outcomes. A frame that fails its checks, or
  does not fit, is refused with the reason and the buffer is returned as it was; otherwise
  the frame's octets are written at its start, their number is returned, and the rest of
  the buffer is untouched.
\<close>

theorem encode_into_outcomes:
  "encode_into f buffer =
    (case checked_length f of
       Inl e \<Rightarrow> (Inl e, buffer)
     | Inr len \<Rightarrow>
         if length buffer < wire_length len
         then (Inl (BufferExhausted (wire_length len) (length buffer)), buffer)
         else (Inr (wire_length len), frame_octets f @ drop (wire_length len) buffer)) \<and>
   length (snd (encode_into f buffer)) = length buffer"
  by (auto simp: encode_into_eq length_frame_octets dest!: checked_length_eq split: sum.split)

text \<open>
  C23: whatever the encoder wrote decodes back. The in-place decoder returns the frame and the
  number of octets it took, whatever follows it, for standard and extended frames alike; the
  borrowing decoder does the same for a standard frame.
\<close>

theorem frame_roundtrip:
  assumes "encode_into f buffer = (Inr n, wire)"
  shows "fst (decode_frame_in_place (take n wire @ rest)) = Inr (f, n) \<and>
    (is_cobs (fh_type (fr_header f)) \<or> decode_frame (take n wire @ rest) = Inr (f, n))"
proof -
  from assms obtain len where len: "checked_length f = Inr len" "n = wire_length len"
      "wire = frame_octets f @ drop n buffer"
    by (auto simp: encode_into_eq split: sum.splits if_splits)
  then have wire: "take n wire = frame_octets f"
    using checked_length_eq [OF len(1)] by (simp add: length_frame_octets)
  show ?thesis
    unfolding wire using octets_decode [OF len(1), of rest] by (auto simp: len(2))
qed

text \<open>
  the borrowing decoder accepts only canonical octets: what it consumed is exactly what
  encoding the returned frame produces, and the frame satisfies the header rules (a source
  other than broadcast, at most 501 octets of data, a type that is not COBS-encoded).
\<close>

theorem decode_frame_canonical:
  assumes "decode_frame input = Inr (f, n)"
  shows "n \<le> length input \<and> take n input = frame_octets f \<and>
    fh_source (fr_header f) \<noteq> BROADCAST_MAC \<and> length (fr_data f) \<le> MAX_STANDARD_MPDU_DATA \<and>
    \<not> is_cobs (fh_type (fr_header f))"
  unfolding BROADCAST_MAC_def MAX_STANDARD_MPDU_DATA_def using decode_frame_Inr [OF assms] by blast

text \<open>
  C26: a receiver refuses a standard frame in which any single octet was changed on the way,
  wherever it is: preamble, header, header CRC, data or data CRC.
\<close>

theorem one_octet_corruption_refused:
  assumes "decode_frame wire = Inr (f, length wire)" "i < length wire" "x \<noteq> wire ! i"
  shows "\<exists>e. decode_frame (wire[i := x]) = Inl e"
proof -
  let ?w = "wire[i := x]"
  from assms(1) obtain g where g: "check_header wire False = Inr g" "\<not> is_cobs (fh_type (gh_header g))"
      "wire_length (gh_length g) = length wire"
    and crc: "gh_length g \<noteq> 0 \<longrightarrow> crc16_valid (subslice wire 8 (length wire))"
    by (auto simp: decode_frame_def check_frame_def try_res_eq_Inr Let_def split: if_splits)
  note h = check_header_Inr [OF g(1)]
  consider "i < 2" | "2 \<le> i" "i < 8" | "8 \<le> i" by linarith
  then have "\<not> (\<exists>r. decode_frame ?w = Inr r)"
  proof cases
    case 1
    then have "take 2 ?w ! i \<noteq> take 2 wire ! i" using assms(2,3) by simp
    then have "take 2 ?w \<noteq> PREAMBLE" using h by metis
    then show ?thesis by (auto simp: decode_frame_def try_res_eq_Inr dest!: check_header_Inr)
  next
    case 2
    then have "i - 2 < length (subslice wire 2 8)" "x \<noteq> subslice wire 2 8 ! (i - 2)"
      using assms(2,3) nth_subslice_index [of 2 i 8 wire] by auto
    with h 2 have "\<not> crc8_valid (subslice ?w 2 8)"
      using crc8_valid_changed [of "subslice wire 2 8"] by (simp add: subslice_list_update)
    then show ?thesis by (auto simp: decode_frame_def try_res_eq_Inr dest!: check_header_Inr)
  next
    case 3
    with g(3) assms(2) have "gh_length g \<noteq> 0" by (auto simp: wire_length_def split: if_splits)
    with crc 3 assms(2,3) have "\<not> crc16_valid (subslice ?w 8 (length wire))"
      using crc16_valid_changed [of "subslice wire 8 (length wire)" "i - 8" x]
        nth_subslice_index [of 8 i "length wire" wire]
      by (simp add: subslice_list_update)
    moreover have "check_header ?w False = Inr g"
      using check_header_update [OF 3] g(1) by metis
    ultimately show ?thesis
      using g \<open>gh_length g \<noteq> 0\<close> by (auto simp: decode_frame_def check_frame_def try_res_eq_Inr Let_def)
  qed
  then show ?thesis by (metis sum.exhaust)
qed

section \<open>Witnesses\<close>

text \<open>Data Not Expecting Reply from station 200 to station 1, the example of \<open>decode_frame\<close>'s documentation.\<close>

definition sample_frame :: frame where
  "sample_frame = new_frame BACNET_DATA_NOT_EXPECTING_REPLY 1 200 [1, 0]"

lemma sample_checked: "checked_length sample_frame = Inr 2" "\<not> is_cobs (fh_type (fr_header sample_frame))"
  by (simp_all add: sample_frame_def new_frame_def checked_length_def check_header_fields_def allows_data_def
      is_cobs_def is_proprietary_def BACNET_DATA_NOT_EXPECTING_REPLY_def Let_def codec)

lemma sample_length: "length (frame_octets sample_frame) = 12"
  using checked_length_eq [OF sample_checked(1)] by (simp add: length_frame_octets wire_length_def TRAILER_LENGTH_def)

lemma sample_decodes: "decode_frame (frame_octets sample_frame) = Inr (sample_frame, length (frame_octets sample_frame))"
  using octets_decode(2) [OF sample_checked, of "[]"] by (simp add: sample_length wire_length_def TRAILER_LENGTH_def)

lemma frame_roundtrip_witness:
  "fst (decode_frame_in_place (take 12 (frame_octets sample_frame) @ [7])) = Inr (sample_frame, 12)"
proof -
  have "encode_into sample_frame (replicate 12 0) = (Inr 12, frame_octets sample_frame)"
    by (simp add: encode_into_eq sample_checked wire_length_def TRAILER_LENGTH_def)
  from frame_roundtrip [OF this, of "[7]"] show ?thesis by simp
qed

lemma decode_frame_canonical_witness:
  "take 12 (frame_octets sample_frame) = frame_octets sample_frame \<and> fh_source (fr_header sample_frame) \<noteq> BROADCAST_MAC"
  using decode_frame_canonical [OF sample_decodes] by (simp add: sample_length)

lemma one_octet_corruption_refused_witness:
  "\<exists>e. decode_frame ((frame_octets sample_frame)[0 := 0]) = Inl e"
proof -
  have "frame_octets sample_frame ! 0 = 0x55"
    by (simp add: frame_octets_def head_octets_def PREAMBLE_def Let_def)
  then show ?thesis
    using one_octet_corruption_refused [OF sample_decodes, of 0 0] by (simp add: sample_length)
qed

end
