(* ===== verification/Bacnet_Time.thy ===== *)
theory Bacnet_Time
  imports Bacnet_Prelude "HOL-Library.Log_Nat"
begin

text \<open>
  The clock types every core takes its time in (\<open>crates/bacnet-time/src\<close>): durations and
  instants of 64-bit nanoseconds with saturating and checked arithmetic (\<open>duration.rs\<close>,
  \<open>instant.rs\<close>), the division the conversions use, by shift and subtract so that a 32-bit
  target needs no 64-bit division (\<open>divide.rs\<close>), the conversions from and to the standard
  library's durations (\<open>convert.rs\<close>) and the earliest of several deadlines (\<open>deadline.rs\<close>).

  \<open>div_rem\<close> is proved equal to the native quotient and remainder, and the arithmetic is
  related to unbounded numbers cut off at the type's bounds.
\<close>

section \<open>Saturating and checked arithmetic of \<open>u64\<close>\<close>

definition u64_checked_add :: "u64 \<Rightarrow> u64 \<Rightarrow> u64 option" where
  "u64_checked_add a b = (if unat a + unat b < 2 ^ 64 then Some (a + b) else None)"

definition u64_checked_sub :: "u64 \<Rightarrow> u64 \<Rightarrow> u64 option" where
  "u64_checked_sub a b = (if b \<le> a then Some (a - b) else None)"

definition u64_checked_mul :: "u64 \<Rightarrow> u64 \<Rightarrow> u64 option" where
  "u64_checked_mul a b = (if unat a * unat b < 2 ^ 64 then Some (a * b) else None)"

definition u64_saturating_add :: "u64 \<Rightarrow> u64 \<Rightarrow> u64" where
  "u64_saturating_add a b = (case u64_checked_add a b of Some c \<Rightarrow> c | None \<Rightarrow> - 1)"

definition u64_saturating_sub :: "u64 \<Rightarrow> u64 \<Rightarrow> u64" where
  "u64_saturating_sub a b = (case u64_checked_sub a b of Some c \<Rightarrow> c | None \<Rightarrow> 0)"

definition u64_saturating_mul :: "u64 \<Rightarrow> u64 \<Rightarrow> u64" where
  "u64_saturating_mul a b = (case u64_checked_mul a b of Some c \<Rightarrow> c | None \<Rightarrow> - 1)"

lemma unat_u64_less [simp]: "unat (x :: u64) < 2 ^ 64"
  using unsigned_less [of x] by simp

lemma unat_u64_max [simp]: "unat (- 1 :: u64) = 2 ^ 64 - 1"
  by (simp add: unsigned_minus_1_eq_mask mask_eq_exp_minus_1)

lemma unat_saturating_add: "unat (u64_saturating_add a b) = min (unat a + unat b) (2 ^ 64 - 1)"
proof (cases "unat a + unat b < 2 ^ 64")
  case True
  then have "unat (a + b) = unat a + unat b" by (simp add: unat_word_ariths)
  with True show ?thesis by (simp add: u64_saturating_add_def u64_checked_add_def)
next
  case False
  then show ?thesis by (simp add: u64_saturating_add_def u64_checked_add_def)
qed

lemma unat_saturating_sub: "unat (u64_saturating_sub a b) = unat a - unat b"
  by (auto simp: u64_saturating_sub_def u64_checked_sub_def unat_sub word_le_nat_alt)

lemma unat_saturating_mul: "unat (u64_saturating_mul a b) = min (unat a * unat b) (2 ^ 64 - 1)"
proof (cases "unat a * unat b < 2 ^ 64")
  case True
  then have "unat (a * b) = unat a * unat b" by (simp add: unat_word_ariths)
  with True show ?thesis by (simp add: u64_saturating_mul_def u64_checked_mul_def)
next
  case False
  then show ?thesis by (simp add: u64_saturating_mul_def u64_checked_mul_def)
qed

section \<open>Division by shift and subtract\<close>

definition leading_zeros :: "u64 \<Rightarrow> nat" where
  "leading_zeros w = 64 - floorlog 2 (unat w)"

fun div_rem_loop :: "nat \<Rightarrow> u64 \<Rightarrow> u64 \<Rightarrow> u64 \<Rightarrow> u64 \<times> u64" where
  "div_rem_loop 0 step rest quo = (quo, rest)"
| "div_rem_loop (Suc steps) step rest quo =
     (let quo = push_bit 1 quo in
      if rest \<ge> step
      then div_rem_loop steps (drop_bit 1 step) (rest - step) (quo OR 1)
      else div_rem_loop steps (drop_bit 1 step) rest quo)"

definition div_rem :: "u64 \<Rightarrow> u64 \<Rightarrow> u64 \<times> u64" where
  "div_rem n d =
     (if d = 0 \<or> n < d then (0, n)
      else let shift = leading_zeros d - leading_zeros n in
        div_rem_loop (shift + 1) (push_bit shift d) n 0)"

text \<open>
  The loop's invariant: what was subtracted is the quotient so far at the weight of the
  steps left, and the rest is below the next power.
\<close>

lemma div_rem_loop_correct:
  assumes "unat step = (if steps = 0 then unat step else unat d * 2 ^ (steps - 1))"
    and "unat rest < unat d * 2 ^ steps"
    and "unat quo * 2 ^ steps * unat d + unat rest = n" and "n < 2 ^ 64"
    and "div_rem_loop steps step rest quo = (q, r)"
  shows "unat q = n div unat d \<and> unat r = n mod unat d"
  using assms
proof (induction steps arbitrary: step rest quo)
  case 0
  then have "n = unat r + unat q * unat d" "unat r < unat d" by simp_all
  then show ?case by simp
next
  case (Suc steps)
  have step: "unat step = unat d * 2 ^ steps" using Suc.prems(1) by simp
  have dpos: "0 < unat d" using Suc.prems(2) by (cases "unat d = 0") auto
  have half: "unat (drop_bit 1 step) = (if steps = 0 then unat (drop_bit 1 step) else unat d * 2 ^ (steps - 1))"
    by (cases steps) (simp_all add: unat_drop_bit_eq unat_div_distrib step drop_bit_eq_div)
  have "unat quo * 2 \<le> unat quo * 2 ^ Suc steps * unat d"
  proof -
    have "(2 :: nat) * 1 * 1 \<le> 2 * 2 ^ steps * unat d" using dpos by (intro mult_le_mono) auto
    then have "unat quo * 2 \<le> unat quo * (2 * 2 ^ steps * unat d)" by (intro mult_le_mono) auto
    then show ?thesis by (simp add: ac_simps)
  qed
  with Suc.prems(3,4) have q2: "2 * unat quo < 2 ^ 64" by linarith
  then have pq: "unat (push_bit 1 quo) = 2 * unat quo"
    by (simp add: unat_word_ariths push_bit_eq_mult)
  have odd: "unat (push_bit 1 quo OR 1) = 2 * unat quo + 1"
  proof -
    have "push_bit 1 quo OR 1 = push_bit 1 quo + (1 :: u64)"
      by (rule disjunctive_add [symmetric]) (unfold bit_push_bit_iff bit_1_iff, auto)
    moreover have "2 * unat quo + 1 < 2 ^ 64" using q2 by simp
    ultimately show ?thesis using pq by (simp add: unat_word_ariths)
  qed
  show ?case
  proof (cases "rest \<ge> step")
    case True
    then have ge: "unat step \<le> unat rest" by (simp add: word_le_nat_alt)
    have sub: "unat (rest - step) = unat rest - unat step" using True by (simp add: unat_sub)
    have "unat (rest - step) < unat d * 2 ^ steps"
      using Suc.prems(2) ge by (simp add: sub step)
    moreover have "unat (push_bit 1 quo OR 1) * 2 ^ steps * unat d + unat (rest - step) = n"
      using Suc.prems(3) ge unfolding odd sub step by (simp add: algebra_simps)
    ultimately show ?thesis
      using Suc.IH [OF half] Suc.prems(4,5) True by (simp add: Let_def)
  next
    case False
    then have "unat rest < unat d * 2 ^ steps" by (simp add: word_le_nat_alt step)
    moreover have "unat (push_bit 1 quo) * 2 ^ steps * unat d + unat rest = n"
      using Suc.prems(3) unfolding pq by (simp add: algebra_simps)
    ultimately show ?thesis
      using Suc.IH [OF half] Suc.prems(4,5) False by (simp add: Let_def)
  qed
qed

lemma floorlog_u64: "floorlog 2 (unat (w :: u64)) \<le> 64"
  by (rule floorlog_leI) (use unsigned_less [of w] in simp_all)

text \<open>Shifting the divisor as far left as the dividend loses no bit and passes half of it.\<close>

lemma div_rem_shift:
  assumes "d \<noteq> 0" "d \<le> n" "shift = leading_zeros d - leading_zeros n"
  shows "unat (push_bit shift d) = unat d * 2 ^ shift" "unat n < unat d * 2 ^ (shift + 1)"
proof -
  have pos: "0 < unat d" "unat d \<le> unat n" "0 < unat n"
    using assms(1,2) by (auto simp: word_le_nat_alt word_unat_eq_iff)
  let ?fd = "floorlog 2 (unat d)" and ?fn = "floorlog 2 (unat n)"
  have le: "?fd \<le> ?fn" using pos by (intro floorlog_mono) auto
  have shift: "shift = ?fn - ?fd"
    using assms(3) le floorlog_u64 [of n] by (simp add: leading_zeros_def)
  note bd = floorlog_bounds [of "unat d" 2] and bn = floorlog_bounds [of "unat n" 2]
  have fd: "2 ^ (?fd - 1) \<le> unat d" "unat d < 2 ^ ?fd" using bd pos by auto
  have fn: "unat n < 2 ^ ?fn" using bn pos by auto
  have fdpos: "0 < ?fd" using pos fd by (cases "?fd = 0") auto
  have "unat d * 2 ^ shift < 2 ^ ?fd * 2 ^ shift" using fd by simp
  also have "\<dots> = 2 ^ ?fn" using le shift by (simp flip: power_add)
  also have "\<dots> \<le> (2 :: nat) ^ 64" using floorlog_u64 [of n] by (intro power_increasing) auto
  finally have "unat d * 2 ^ shift < 2 ^ 64" .
  then show "unat (push_bit shift d) = unat d * 2 ^ shift"
    unfolding unsigned_push_bit_eq by (simp add: take_bit_eq_mod push_bit_eq_mult)
  have "?fd - 1 + (shift + 1) = ?fn" using le shift fdpos by simp
  then have "unat n < 2 ^ (?fd - 1) * 2 ^ (shift + 1)"
    unfolding power_add [symmetric] using fn by simp
  also have "\<dots> \<le> unat d * 2 ^ (shift + 1)" using fd by simp
  finally show "unat n < unat d * 2 ^ (shift + 1)" .
qed

lemma div_rem_native: "d \<noteq> 0 \<Longrightarrow> div_rem n d = (n div d, n mod d)"
proof (cases "n < d")
  case True
  assume "d \<noteq> 0"
  from True have "n div d = 0" "n mod d = n"
    by (simp_all add: word_unat_eq_iff unat_div_distrib unat_mod_distrib
        word_less_nat_alt)
  with True show ?thesis by (simp add: div_rem_def)
next
  case False
  assume d: "d \<noteq> 0"
  define shift where "shift = leading_zeros d - leading_zeros n"
  note sh = div_rem_shift [OF d leI [OF False] shift_def]
  obtain q r where qr: "div_rem_loop (shift + 1) (push_bit shift d) n 0 = (q, r)" by fastforce
  have "unat q = unat n div unat d \<and> unat r = unat n mod unat d"
    by (rule div_rem_loop_correct [OF _ _ _ _ qr]) (use sh unsigned_less [of n] in simp_all)
  then have "q = n div d" "r = n mod d"
    by (simp_all add: word_unat_eq_iff unat_div_distrib unat_mod_distrib)
  with qr False d show ?thesis by (simp add: div_rem_def shift_def)
qed

section \<open>Durations\<close>

definition NANOS_PER_MICRO :: u64 where "NANOS_PER_MICRO = 1000"
definition NANOS_PER_MILLI :: u64 where "NANOS_PER_MILLI = 1000000"
definition NANOS_PER_SEC :: u64 where "NANOS_PER_SEC = 1000000000"

datatype duration = Duration (as_nanos: u64)

definition DURATION_ZERO :: duration where "DURATION_ZERO = Duration 0"
definition DURATION_MAX :: duration where "DURATION_MAX = Duration (- 1)"
definition from_micros :: "u64 \<Rightarrow> duration" where
  "from_micros micros = Duration (u64_saturating_mul micros NANOS_PER_MICRO)"
definition from_millis :: "u64 \<Rightarrow> duration" where
  "from_millis millis = Duration (u64_saturating_mul millis NANOS_PER_MILLI)"
definition from_secs :: "u64 \<Rightarrow> duration" where
  "from_secs secs = Duration (u64_saturating_mul secs NANOS_PER_SEC)"
definition try_from_micros :: "u64 \<Rightarrow> duration option" where
  "try_from_micros micros = map_option Duration (u64_checked_mul micros NANOS_PER_MICRO)"
definition try_from_millis :: "u64 \<Rightarrow> duration option" where
  "try_from_millis millis = map_option Duration (u64_checked_mul millis NANOS_PER_MILLI)"
definition try_from_secs :: "u64 \<Rightarrow> duration option" where
  "try_from_secs secs = map_option Duration (u64_checked_mul secs NANOS_PER_SEC)"
definition duration_is_zero :: "duration \<Rightarrow> bool" where
  "duration_is_zero d \<longleftrightarrow> as_nanos d = 0"
definition as_micros :: "duration \<Rightarrow> u64" where
  "as_micros d = fst (div_rem (as_nanos d) NANOS_PER_MICRO)"
definition as_millis :: "duration \<Rightarrow> u64" where
  "as_millis d = fst (div_rem (as_nanos d) NANOS_PER_MILLI)"
definition as_secs :: "duration \<Rightarrow> u64" where
  "as_secs d = fst (div_rem (as_nanos d) NANOS_PER_SEC)"

definition duration_checked_add :: "duration \<Rightarrow> duration \<Rightarrow> duration option" where
  "duration_checked_add a b = map_option Duration (u64_checked_add (as_nanos a) (as_nanos b))"
definition duration_saturating_add :: "duration \<Rightarrow> duration \<Rightarrow> duration" where
  "duration_saturating_add a b = Duration (u64_saturating_add (as_nanos a) (as_nanos b))"
definition duration_checked_sub :: "duration \<Rightarrow> duration \<Rightarrow> duration option" where
  "duration_checked_sub a b = map_option Duration (u64_checked_sub (as_nanos a) (as_nanos b))"
definition duration_saturating_sub :: "duration \<Rightarrow> duration \<Rightarrow> duration" where
  "duration_saturating_sub a b = Duration (u64_saturating_sub (as_nanos a) (as_nanos b))"
definition duration_checked_mul :: "duration \<Rightarrow> u32 \<Rightarrow> duration option" where
  "duration_checked_mul a factor = map_option Duration (u64_checked_mul (as_nanos a) (ucast factor))"
definition duration_saturating_mul :: "duration \<Rightarrow> u32 \<Rightarrow> duration" where
  "duration_saturating_mul a factor = Duration (u64_saturating_mul (as_nanos a) (ucast factor))"
definition duration_checked_rem :: "duration \<Rightarrow> duration \<Rightarrow> duration option" where
  "duration_checked_rem a divisor =
     (if as_nanos divisor = 0 then None
      else Some (Duration (snd (div_rem (as_nanos a) (as_nanos divisor)))))"

text \<open>The derived orders compare nanoseconds; \<open>min\<close> and \<open>max\<close> of the source are the class's.\<close>

instantiation duration :: linorder
begin
definition less_eq_duration :: "duration \<Rightarrow> duration \<Rightarrow> bool" where
  "less_eq_duration a b \<longleftrightarrow> as_nanos a \<le> as_nanos b"
definition less_duration :: "duration \<Rightarrow> duration \<Rightarrow> bool" where
  "less_duration a b \<longleftrightarrow> as_nanos a < as_nanos b"
instance
  by standard (auto simp: less_eq_duration_def less_duration_def duration.expand)
end

section \<open>Instants\<close>

datatype instant = Instant (inst_nanos: u64)

definition INSTANT_ZERO :: instant where "INSTANT_ZERO = Instant 0"
definition INSTANT_MAX :: instant where "INSTANT_MAX = Instant (- 1)"
definition instant_from_millis :: "u64 \<Rightarrow> instant" where
  "instant_from_millis millis = Instant (u64_saturating_mul millis NANOS_PER_MILLI)"
definition instant_from_secs :: "u64 \<Rightarrow> instant" where
  "instant_from_secs secs = Instant (u64_saturating_mul secs NANOS_PER_SEC)"
definition since_epoch :: "instant \<Rightarrow> duration" where
  "since_epoch t = Duration (inst_nanos t)"
definition instant_as_millis :: "instant \<Rightarrow> u64" where
  "instant_as_millis t = as_millis (since_epoch t)"
definition instant_as_secs :: "instant \<Rightarrow> u64" where
  "instant_as_secs t = as_secs (since_epoch t)"
definition instant_checked_add :: "instant \<Rightarrow> duration \<Rightarrow> instant option" where
  "instant_checked_add t d = map_option Instant (u64_checked_add (inst_nanos t) (as_nanos d))"
definition instant_saturating_add :: "instant \<Rightarrow> duration \<Rightarrow> instant" where
  "instant_saturating_add t d = Instant (u64_saturating_add (inst_nanos t) (as_nanos d))"
definition instant_checked_sub :: "instant \<Rightarrow> duration \<Rightarrow> instant option" where
  "instant_checked_sub t d = map_option Instant (u64_checked_sub (inst_nanos t) (as_nanos d))"
definition instant_saturating_sub :: "instant \<Rightarrow> duration \<Rightarrow> instant" where
  "instant_saturating_sub t d = Instant (u64_saturating_sub (inst_nanos t) (as_nanos d))"
definition checked_duration_since :: "instant \<Rightarrow> instant \<Rightarrow> duration option" where
  "checked_duration_since t earlier = map_option Duration (u64_checked_sub (inst_nanos t) (inst_nanos earlier))"
definition saturating_duration_since :: "instant \<Rightarrow> instant \<Rightarrow> duration" where
  "saturating_duration_since t earlier = Duration (u64_saturating_sub (inst_nanos t) (inst_nanos earlier))"

instantiation instant :: linorder
begin
definition less_eq_instant :: "instant \<Rightarrow> instant \<Rightarrow> bool" where
  "less_eq_instant a b \<longleftrightarrow> inst_nanos a \<le> inst_nanos b"
definition less_instant :: "instant \<Rightarrow> instant \<Rightarrow> bool" where
  "less_instant a b \<longleftrightarrow> inst_nanos a < inst_nanos b"
instance
  by standard (auto simp: less_eq_instant_def less_instant_def instant.expand)
end

text \<open>\<open>earliest\<close>: the least of the deadlines that are set.\<close>

definition earliest :: "'t::linorder option list \<Rightarrow> 't option" where
  "earliest deadlines =
     (case List.map_filter (\<lambda>d. d) deadlines of
        [] \<Rightarrow> None
      | t # ts \<Rightarrow> Some (foldl min t ts))"

section \<open>The standard library's durations\<close>

text \<open>Whole seconds and the nanoseconds below one second.\<close>

record core_duration =
  cd_secs :: u64
  cd_subsec_nanos :: u32

datatype duration_too_long = DurationTooLong

definition checked_from_core :: "core_duration \<Rightarrow> duration option" where
  "checked_from_core d =
     (case u64_checked_mul (cd_secs d) NANOS_PER_SEC of
        Some whole \<Rightarrow> map_option Duration (u64_checked_add whole (ucast (cd_subsec_nanos d)))
      | None \<Rightarrow> None)"

definition saturating_from_core :: "core_duration \<Rightarrow> duration" where
  "saturating_from_core d = (case checked_from_core d of Some x \<Rightarrow> x | None \<Rightarrow> DURATION_MAX)"

definition duration_try_from :: "core_duration \<Rightarrow> duration_too_long + duration" where
  "duration_try_from d = ok_or DurationTooLong (checked_from_core d)"

definition core_from_duration :: "duration \<Rightarrow> core_duration" where
  "core_from_duration d =
     (let (secs, nanos) = div_rem (as_nanos d) NANOS_PER_SEC
      in \<lparr>cd_secs = secs, cd_subsec_nanos = ucast nanos\<rparr>)"

section \<open>Properties\<close>

text \<open>
  C30: The shift-and-subtract division is the native one: for every dividend and every
  divisor but zero it gives quotient and remainder, and for a zero divisor it leaves the
  dividend. It always ends, after one step per bit of the difference in magnitude.
\<close>

theorem div_rem_correct:
  "div_rem n d = (if d = 0 then (0, n) else (n div d, n mod d))"
  using div_rem_native by (simp add: div_rem_def)

lemma core_roundtrip: "duration_try_from (core_from_duration d) = Inr d"
proof -
  let ?n = "as_nanos d"
  let ?q = "?n div NANOS_PER_SEC" and ?r = "?n mod NANOS_PER_SEC"
  have dr: "div_rem ?n NANOS_PER_SEC = (?q, ?r)"
    by (rule div_rem_native) (simp add: NANOS_PER_SEC_def)
  have sec: "unat NANOS_PER_SEC = 1000000000" by (simp add: NANOS_PER_SEC_def)
  have uq: "unat ?q = unat ?n div 1000000000" and ur: "unat ?r = unat ?n mod 1000000000"
    by (simp_all add: unat_div_distrib unat_mod_distrib sec)
  have again: "ucast (ucast ?r :: u32) = ?r"
  proof -
    have "unat ?r < 2 ^ 32" unfolding ur by (rule order.strict_trans [OF mod_less_divisor]) simp_all
    then show ?thesis by (simp add: word_unat_eq_iff unsigned_ucast_eq unsigned_take_bit_eq take_bit_nat_eq_self)
  qed
  have mul: "unat ?q * unat NANOS_PER_SEC < 2 ^ 64"
    unfolding uq sec
    by (rule order.strict_trans1 [OF div_times_less_eq_dividend unat_u64_less])
  have prod: "unat (?q * NANOS_PER_SEC) = unat ?n div 1000000000 * 1000000000"
    using mul unat_mult_lem [of ?q NANOS_PER_SEC] unfolding uq sec by simp
  have add: "unat (?q * NANOS_PER_SEC) + unat ?r = unat ?n" unfolding prod ur by simp
  have "?q * NANOS_PER_SEC + ?r = ?n" by (fact div_mult_mod_eq)
  then show ?thesis using mul add unat_u64_less [of ?n]
    by (simp add: duration_try_from_def core_from_duration_def dr checked_from_core_def
        u64_checked_mul_def u64_checked_add_def again)
qed

text \<open>
  The clock arithmetic is that of the naturals, cut off at the bounds of 64 bits: sums
  saturate at the latest instant, differences at zero, so a deadline computed from any
  instant is never before it, and comparing with it decides whether the time has passed.
  The checked forms answer exactly when no cut-off happened; a duration survives the
  conversion to the standard library's type and back.
\<close>

theorem time_arithmetic:
  "unat (inst_nanos (instant_saturating_add t d)) = min (unat (inst_nanos t) + unat (as_nanos d)) (2 ^ 64 - 1)
   \<and> unat (as_nanos (saturating_duration_since t u)) = unat (inst_nanos t) - unat (inst_nanos u)
   \<and> t \<le> instant_saturating_add t d
   \<and> (instant_checked_add t d = Some (instant_saturating_add t d)
        \<longleftrightarrow> unat (inst_nanos t) + unat (as_nanos d) < 2 ^ 64)
   \<and> (instant_checked_add t d = None \<longleftrightarrow> 2 ^ 64 \<le> unat (inst_nanos t) + unat (as_nanos d))
   \<and> (checked_duration_since t u = Some (saturating_duration_since t u) \<longleftrightarrow> u \<le> t)
   \<and> duration_try_from (core_from_duration d) = Inr d"
proof (intro conjI)
  show "unat (inst_nanos (instant_saturating_add t d))
      = min (unat (inst_nanos t) + unat (as_nanos d)) (2 ^ 64 - 1)"
    by (simp add: instant_saturating_add_def unat_saturating_add)
  show "unat (as_nanos (saturating_duration_since t u)) = unat (inst_nanos t) - unat (inst_nanos u)"
    by (simp add: saturating_duration_since_def unat_saturating_sub)
  show "t \<le> instant_saturating_add t d"
    using unat_u64_less [of "inst_nanos t"]
    by (simp add: less_eq_instant_def instant_saturating_add_def word_le_nat_alt unat_saturating_add)
  show "duration_try_from (core_from_duration d) = Inr d" by (rule core_roundtrip)
qed (auto simp: instant_saturating_add_def saturating_duration_since_def unat_saturating_add
    unat_saturating_sub instant_checked_add_def checked_duration_since_def u64_checked_add_def
    u64_checked_sub_def u64_saturating_add_def u64_saturating_sub_def less_eq_instant_def)

lemma foldl_min_mem: "foldl min t ts \<in> insert (t :: 't::linorder) (set ts)"
  by (induction ts arbitrary: t) (auto simp: min_def split: if_splits)

lemma foldl_min_le: "u \<in> insert t (set ts) \<Longrightarrow> foldl min (t :: 't::linorder) ts \<le> u"
proof (induction ts arbitrary: t u)
  case (Cons a ts)
  then consider "u = t" | "u = a" | "u \<in> set ts" by auto
  then show ?case
  proof cases
    case 3
    with Cons.IH [of u "min t a"] show ?thesis by simp
  next
    case 1
    with Cons.IH [of "min t a" "min t a"] show ?thesis by (auto intro: order.trans)
  next
    case 2
    with Cons.IH [of "min t a" "min t a"] show ?thesis by (auto intro: order.trans)
  qed
qed simp

lemma set_map_filter_id: "set (List.map_filter (\<lambda>d. d) ds) = {t. Some t \<in> set ds}"
  by (induction ds) (auto simp: List.map_filter_simps split: option.split)

text \<open>The deadline taken is one of those set and no later than any; none is set when it is none.\<close>

lemma earliest_Some: "earliest ds = Some t \<Longrightarrow> Some t \<in> set ds \<and> (\<forall>u. Some u \<in> set ds \<longrightarrow> t \<le> u)"
proof -
  assume "earliest ds = Some t"
  then obtain x xs where x: "List.map_filter (\<lambda>d. d) ds = x # xs" "t = foldl min x xs"
    by (auto simp: earliest_def split: list.splits)
  then have "insert x (set xs) = {t. Some t \<in> set ds}" using set_map_filter_id [of ds] by simp
  then show ?thesis using foldl_min_mem [of x xs] foldl_min_le [of _ x xs] x(2) by blast
qed

lemma earliest_None: "earliest ds = None \<longleftrightarrow> (\<forall>u. Some u \<notin> set ds)"
  using set_map_filter_id [of ds] by (auto simp: earliest_def split: list.splits)

end
