(* ===== verification/Mstp_Config.thy ===== *)
theory Mstp_Config
  imports Mstp_Frame Bacnet_Time
begin

text \<open>
  What the MS/TP master core is configured with and what it counts
  (\<open>crates/bacnet-mstp-core/src\<close>, \<open>config.rs\<close>, \<open>counters.rs\<close>, \<open>errors.rs\<close>): the timing
  parameters of Clause 9.5.3 with their bounds, the configuration and its validation, the
  defaults for a baud rate, and the saturating counters of the core and of its queues. The
  lemmas give what a validated configuration guarantees to the state machine.
\<close>

section \<open>Parameters\<close>

definition DEFAULT_BAUD_RATE :: u32 where "DEFAULT_BAUD_RATE = 9600"
definition N_POLL :: octet where "N_POLL = 50"
definition N_RETRY_TOKEN :: octet where "N_RETRY_TOKEN = 1"
definition N_MIN_OCTETS :: octet where "N_MIN_OCTETS = 4"
definition T_NO_TOKEN :: duration where "T_NO_TOKEN = from_millis 500"
definition T_SLOT :: duration where "T_SLOT = from_millis 10"
definition MAX_FRAME_ABORT :: duration where "MAX_FRAME_ABORT = from_millis 100"
definition MIN_REPLY_TIMEOUT :: duration where "MIN_REPLY_TIMEOUT = from_millis 255"
definition MAX_REPLY_TIMEOUT :: duration where "MAX_REPLY_TIMEOUT = from_millis 300"
definition MIN_USAGE_TIMEOUT :: duration where "MIN_USAGE_TIMEOUT = from_millis 20"
definition MAX_USAGE_TIMEOUT :: duration where "MAX_USAGE_TIMEOUT = from_millis 35"
definition MAX_REPLY_DELAY :: duration where "MAX_REPLY_DELAY = from_millis 250"
definition MAX_USAGE_DELAY :: duration where "MAX_USAGE_DELAY = from_millis 15"
definition DEFAULT_STARVATION_LIMIT :: octet where "DEFAULT_STARVATION_LIMIT = 8"
definition DEFAULT_REPLY_TRANSMIT_MARGIN :: duration where "DEFAULT_REPLY_TRANSMIT_MARGIN = from_millis 25"
definition DEFAULT_TRANSMIT_WATCHDOG :: duration where "DEFAULT_TRANSMIT_WATCHDOG = from_secs 1"
definition WATCHDOG_COMPLETION_MARGIN :: duration where "WATCHDOG_COMPLETION_MARGIN = from_millis 1"
definition DEFAULT_LATE_DEADLINE :: duration where "DEFAULT_LATE_DEADLINE = from_millis 1"

section \<open>The configuration\<close>

datatype core_buffer = ReceiveStorage | TransmitFrame | DeliverySlotBuffer | QueueSlotBuffer
datatype local_duration_field = QueueMaxAge | TransmitWatchdog
datatype local_limit_field = BroadcastUnicastRatio | MultipleFrameRatio | StarvationLimit

datatype config_error =
    ZeroBaudRate
  | TimingOverflow
  | MaxMasterOutOfRange octet
  | StationExceedsMaxMaster octet octet
  | MaxInfoFramesOutOfRange octet
  | FrameAbortOutOfRange duration duration duration
  | FrameGapTooLong duration duration
  | PostdriveTooLong duration duration
  | ReplyDelayTooLong duration duration
  | ReplyMarginTooLong duration duration
  | ReplyTimeoutOutOfRange duration duration duration
  | TurnaroundTooShort duration duration
  | TurnaroundExceedsUsageDelay duration duration
  | UsageDelayTooLong duration duration
  | UsageTimeoutOutOfRange duration duration duration
  | ZeroLocalDuration local_duration_field
  | ZeroLocalLimit local_limit_field
  | MultipleFrameRatioOutOfRange octet
  | TransmitWatchdogTooShort duration duration
  | ExtendedStorageTooSmall core_buffer nat nat
  | ReceiveStorageTooSmall nat nat

record mstp_core_config =
  cf_station :: octet
  cf_max_master :: octet
  cf_max_info_frames :: octet
  cf_baud_rate :: u32
  cf_t_frame_abort :: duration
  cf_t_frame_gap :: duration
  cf_t_postdrive :: duration
  cf_t_reply_delay :: duration
  cf_t_reply_timeout :: duration
  cf_t_turnaround :: duration
  cf_t_usage_delay :: duration
  cf_t_usage_timeout :: duration
  cf_reply_transmit_margin :: duration
  cf_late_deadline :: duration
  cf_queue_max_age :: duration
  cf_broadcast_unicast_ratio :: octet
  cf_multiple_frame_ratio :: octet
  cf_starvation_limit :: octet
  cf_transmit_watchdog :: duration
  cf_extended_frames :: bool

definition ceil_bit_times :: "u32 \<Rightarrow> u32 \<Rightarrow> duration option" where
  "ceil_bit_times baud_rate bits =
     (let numerator = unat bits * 1000000 in
      if numerator < 2 ^ 32 \<and> baud_rate \<noteq> 0
      then Some (from_micros (of_nat ((numerator + unat baud_rate - 1) div unat baud_rate)))
      else None)"

definition floor_bit_times :: "u32 \<Rightarrow> u32 \<Rightarrow> duration option" where
  "floor_bit_times baud_rate bits =
     (let numerator = unat bits * 1000000 in
      if numerator < 2 ^ 32 \<and> baud_rate \<noteq> 0
      then Some (from_micros (of_nat (numerator div unat baud_rate)))
      else None)"

definition shorter :: "duration \<Rightarrow> duration \<Rightarrow> bool" where
  "shorter value bound \<longleftrightarrow> as_nanos value < as_nanos bound"

definition longer :: "duration \<Rightarrow> duration \<Rightarrow> bool" where
  "longer value bound \<longleftrightarrow> as_nanos value > as_nanos bound"

definition or_max :: "duration option \<Rightarrow> duration" where
  "or_max d = (case d of Some x \<Rightarrow> x | None \<Rightarrow> DURATION_MAX)"

definition octet_time :: "mstp_core_config \<Rightarrow> duration" where
  "octet_time c = or_max (ceil_bit_times (cf_baud_rate c) 10)"

definition max_npdu :: "mstp_core_config \<Rightarrow> nat" where
  "max_npdu c = (if cf_extended_frames c then MAX_EXTENDED_MPDU_DATA else MAX_STANDARD_MPDU_DATA)"

definition longest_frame_time :: "mstp_core_config \<Rightarrow> duration" where
  "longest_frame_time c =
     duration_saturating_mul (octet_time c)
       (of_nat (if cf_extended_frames c then MAX_EXTENDED_FRAME_LENGTH else MAX_STANDARD_FRAME_LENGTH))"

definition minimum_transmit_watchdog :: "mstp_core_config \<Rightarrow> duration" where
  "minimum_transmit_watchdog c =
     duration_saturating_add (duration_saturating_add (longest_frame_time c) (cf_t_postdrive c))
       WATCHDOG_COMPLETION_MARGIN"

definition with_covering_watchdog :: "mstp_core_config \<Rightarrow> mstp_core_config" where
  "with_covering_watchdog c =
     (if as_nanos (cf_transmit_watchdog c) < as_nanos (minimum_transmit_watchdog c)
      then c\<lparr>cf_transmit_watchdog := duration_saturating_add (longest_frame_time c) DEFAULT_TRANSMIT_WATCHDOG\<rparr>
      else c)"

definition with_extended_frames :: "mstp_core_config \<Rightarrow> mstp_core_config" where
  "with_extended_frames c = with_covering_watchdog (c\<lparr>cf_extended_frames := True\<rparr>)"

definition validate :: "mstp_core_config \<Rightarrow> config_error + unit" where
  "validate c =
     (if cf_baud_rate c = 0 then Inl ZeroBaudRate
      else if cf_max_master c > MAX_MASTER then Inl (MaxMasterOutOfRange (cf_max_master c))
      else if cf_station c > cf_max_master c
      then Inl (StationExceedsMaxMaster (cf_station c) (cf_max_master c))
      else if cf_max_info_frames c = 0 then Inl (MaxInfoFramesOutOfRange (cf_max_info_frames c))
      else (case (ceil_bit_times (cf_baud_rate c) 60, floor_bit_times (cf_baud_rate c) 20,
                  floor_bit_times (cf_baud_rate c) 15, ceil_bit_times (cf_baud_rate c) 40) of
        (Some frame_abort_min, Some frame_gap_max, Some postdrive_max, Some turnaround_min) \<Rightarrow>
          if shorter (cf_t_frame_abort c) frame_abort_min \<or> longer (cf_t_frame_abort c) MAX_FRAME_ABORT
          then Inl (FrameAbortOutOfRange (cf_t_frame_abort c) frame_abort_min MAX_FRAME_ABORT)
          else if longer (cf_t_frame_gap c) frame_gap_max
          then Inl (FrameGapTooLong (cf_t_frame_gap c) frame_gap_max)
          else if longer (cf_t_postdrive c) postdrive_max
          then Inl (PostdriveTooLong (cf_t_postdrive c) postdrive_max)
          else if longer (cf_t_reply_delay c) MAX_REPLY_DELAY
          then Inl (ReplyDelayTooLong (cf_t_reply_delay c) MAX_REPLY_DELAY)
          else if \<not> shorter (cf_reply_transmit_margin c) (cf_t_reply_delay c)
          then Inl (ReplyMarginTooLong (cf_reply_transmit_margin c) (cf_t_reply_delay c))
          else if shorter (cf_t_reply_timeout c) MIN_REPLY_TIMEOUT \<or> longer (cf_t_reply_timeout c) MAX_REPLY_TIMEOUT
          then Inl (ReplyTimeoutOutOfRange (cf_t_reply_timeout c) MIN_REPLY_TIMEOUT MAX_REPLY_TIMEOUT)
          else if shorter (cf_t_turnaround c) turnaround_min
          then Inl (TurnaroundTooShort (cf_t_turnaround c) turnaround_min)
          else if longer (cf_t_turnaround c) (cf_t_usage_delay c)
          then Inl (TurnaroundExceedsUsageDelay (cf_t_turnaround c) (cf_t_usage_delay c))
          else if longer (cf_t_usage_delay c) MAX_USAGE_DELAY
          then Inl (UsageDelayTooLong (cf_t_usage_delay c) MAX_USAGE_DELAY)
          else if shorter (cf_t_usage_timeout c) MIN_USAGE_TIMEOUT \<or> longer (cf_t_usage_timeout c) MAX_USAGE_TIMEOUT
          then Inl (UsageTimeoutOutOfRange (cf_t_usage_timeout c) MIN_USAGE_TIMEOUT MAX_USAGE_TIMEOUT)
          else if duration_is_zero (cf_queue_max_age c) then Inl (ZeroLocalDuration QueueMaxAge)
          else if duration_is_zero (cf_transmit_watchdog c) then Inl (ZeroLocalDuration TransmitWatchdog)
          else if shorter (cf_transmit_watchdog c) (minimum_transmit_watchdog c)
          then Inl (TransmitWatchdogTooShort (cf_transmit_watchdog c) (minimum_transmit_watchdog c))
          else if cf_broadcast_unicast_ratio c = 0 then Inl (ZeroLocalLimit BroadcastUnicastRatio)
          else if cf_multiple_frame_ratio c = 0 then Inl (ZeroLocalLimit MultipleFrameRatio)
          else if cf_multiple_frame_ratio c > 100
          then Inl (MultipleFrameRatioOutOfRange (cf_multiple_frame_ratio c))
          else if cf_starvation_limit c = 0 then Inl (ZeroLocalLimit StarvationLimit)
          else Inr ()
      | _ \<Rightarrow> Inl TimingOverflow))"

definition for_baud_rate_unchecked :: "u32 \<Rightarrow> mstp_core_config" where
  "for_baud_rate_unchecked baud_rate = with_covering_watchdog
     \<lparr>cf_station = 0, cf_max_master = MAX_MASTER, cf_max_info_frames = 1, cf_baud_rate = baud_rate,
      cf_t_frame_abort = or_max (ceil_bit_times baud_rate 60),
      cf_t_frame_gap = or_max (floor_bit_times baud_rate 20),
      cf_t_postdrive = or_max (floor_bit_times baud_rate 15),
      cf_t_reply_delay = MAX_REPLY_DELAY, cf_t_reply_timeout = MIN_REPLY_TIMEOUT,
      cf_t_turnaround = or_max (ceil_bit_times baud_rate 40),
      cf_t_usage_delay = MAX_USAGE_DELAY, cf_t_usage_timeout = MIN_USAGE_TIMEOUT,
      cf_reply_transmit_margin = DEFAULT_REPLY_TRANSMIT_MARGIN, cf_late_deadline = DEFAULT_LATE_DEADLINE,
      cf_queue_max_age = from_secs 5, cf_broadcast_unicast_ratio = 1, cf_multiple_frame_ratio = 100,
      cf_starvation_limit = DEFAULT_STARVATION_LIMIT, cf_transmit_watchdog = DEFAULT_TRANSMIT_WATCHDOG,
      cf_extended_frames = False\<rparr>"

definition STANDARD_CONFIG :: mstp_core_config where
  "STANDARD_CONFIG = for_baud_rate_unchecked DEFAULT_BAUD_RATE"

definition for_baud_rate :: "u32 \<Rightarrow> config_error + mstp_core_config" where
  "for_baud_rate baud_rate =
     (if baud_rate = 0 then Inl ZeroBaudRate
      else let config = for_baud_rate_unchecked baud_rate in
        (case validate config of Inr _ \<Rightarrow> Inr config | Inl e \<Rightarrow> Inl e))"

section \<open>Counters\<close>

definition increment :: "u32 \<Rightarrow> u32" where
  "increment value = (if value = - 1 then value else value + 1)"

record queue_counters =
  qc_depth :: u32
  qc_high_water :: u32
  qc_enqueued :: u32
  qc_dequeued :: u32
  qc_drops_full :: u32
  qc_drops_oversize :: u32
  qc_drops_expired :: u32

definition QUEUE_COUNTERS_EMPTY :: queue_counters where
  "QUEUE_COUNTERS_EMPTY = \<lparr>qc_depth = 0, qc_high_water = 0, qc_enqueued = 0, qc_dequeued = 0,
     qc_drops_full = 0, qc_drops_oversize = 0, qc_drops_expired = 0\<rparr>"

definition set_depth :: "nat \<Rightarrow> queue_counters \<Rightarrow> queue_counters" where
  "set_depth depth c =
     (let depth = (if depth < 2 ^ 32 then of_nat depth else - 1);
          c = c\<lparr>qc_depth := depth\<rparr>
      in if depth > qc_high_water c then c\<lparr>qc_high_water := depth\<rparr> else c)"

definition counters_record_enqueue :: "nat \<Rightarrow> queue_counters \<Rightarrow> queue_counters" where
  "counters_record_enqueue depth c = set_depth depth (c\<lparr>qc_enqueued := increment (qc_enqueued c)\<rparr>)"

definition counters_record_dequeue :: "nat \<Rightarrow> queue_counters \<Rightarrow> queue_counters" where
  "counters_record_dequeue depth c = set_depth depth (c\<lparr>qc_dequeued := increment (qc_dequeued c)\<rparr>)"

definition record_drop_full :: "queue_counters \<Rightarrow> queue_counters" where
  "record_drop_full c = c\<lparr>qc_drops_full := increment (qc_drops_full c)\<rparr>"

definition record_drop_oversize :: "queue_counters \<Rightarrow> queue_counters" where
  "record_drop_oversize c = c\<lparr>qc_drops_oversize := increment (qc_drops_oversize c)\<rparr>"

definition record_drop_expired :: "queue_counters \<Rightarrow> queue_counters" where
  "record_drop_expired c = c\<lparr>qc_drops_expired := increment (qc_drops_expired c)\<rparr>"

definition take_queue_counters :: "queue_counters \<Rightarrow> queue_counters \<times> queue_counters" where
  "take_queue_counters c =
     (c, QUEUE_COUNTERS_EMPTY\<lparr>qc_depth := qc_depth c, qc_high_water := qc_depth c\<rparr>)"

definition LATENESS_BUCKETS :: nat where "LATENESS_BUCKETS = 6"

record lateness_histogram =
  lh_buckets :: "u32 list"
  lh_max :: duration

definition LATENESS_EMPTY :: lateness_histogram where
  "LATENESS_EMPTY = \<lparr>lh_buckets = replicate LATENESS_BUCKETS 0, lh_max = DURATION_ZERO\<rparr>"

definition EDGES :: "duration list" where
  "EDGES = [from_millis 1, from_millis 2, from_millis 5, from_millis 10, from_millis 25]"

definition bucket :: "duration \<Rightarrow> nat" where
  "bucket lateness = length (filter (\<lambda>edge. lateness \<ge> edge) EDGES)"

definition lateness_record :: "duration \<Rightarrow> lateness_histogram \<Rightarrow> lateness_histogram" where
  "lateness_record lateness h =
     \<lparr>lh_buckets = (lh_buckets h)[bucket lateness := increment (lh_buckets h ! bucket lateness)],
      lh_max = max (lh_max h) lateness\<rparr>"

record mstp_counters =
  ct_state_transitions :: u32
  ct_late_deadlines :: u32
  ct_deadline_lateness :: lateness_histogram
  ct_token_rotations :: u32
  ct_token_regenerations :: u32
  ct_missed_generation_slots :: u32
  ct_token_retries :: u32
  ct_parser_errors :: u32
  ct_late_replies :: u32
  ct_expired_requests :: u32
  ct_cancelled_sends :: u32
  ct_deferred_starts :: u32
  ct_adapter_errors :: u32
  ct_internal_errors :: u32
  ct_discarded_while_busy :: u32
  ct_frame_aborts :: u32
  ct_frames_received :: u32
  ct_own_address_frames :: u32
  ct_npdus_delivered :: u32
  ct_frames_delivered :: u32
  ct_frames_transmitted :: u32
  ct_delivery_drops :: u32
  ct_framing_errors :: u32
  ct_overrun_errors :: u32
  ct_parity_errors :: u32
  ct_break_errors :: u32
  ct_transmit_aborts :: u32
  ct_transmit_timeouts :: u32
  ct_transmit_io_errors :: u32
  ct_transmit_rejections :: u32
  ct_de_assertion :: duration
  ct_unicast :: queue_counters
  ct_broadcast :: queue_counters

definition MSTP_COUNTERS_EMPTY :: mstp_counters where
  "MSTP_COUNTERS_EMPTY = \<lparr>
     ct_state_transitions = 0,
     ct_late_deadlines = 0,
     ct_deadline_lateness = LATENESS_EMPTY,
     ct_token_rotations = 0,
     ct_token_regenerations = 0,
     ct_missed_generation_slots = 0,
     ct_token_retries = 0,
     ct_parser_errors = 0,
     ct_late_replies = 0,
     ct_expired_requests = 0,
     ct_cancelled_sends = 0,
     ct_deferred_starts = 0,
     ct_adapter_errors = 0,
     ct_internal_errors = 0,
     ct_discarded_while_busy = 0,
     ct_frame_aborts = 0,
     ct_frames_received = 0,
     ct_own_address_frames = 0,
     ct_npdus_delivered = 0,
     ct_frames_delivered = 0,
     ct_frames_transmitted = 0,
     ct_delivery_drops = 0,
     ct_framing_errors = 0,
     ct_overrun_errors = 0,
     ct_parity_errors = 0,
     ct_break_errors = 0,
     ct_transmit_aborts = 0,
     ct_transmit_timeouts = 0,
     ct_transmit_io_errors = 0,
     ct_transmit_rejections = 0,
     ct_de_assertion = DURATION_ZERO,
     ct_unicast = QUEUE_COUNTERS_EMPTY,
     ct_broadcast = QUEUE_COUNTERS_EMPTY\<rparr>"

definition record_transition :: "mstp_counters \<Rightarrow> mstp_counters" where
  "record_transition c = c\<lparr>ct_state_transitions := increment (ct_state_transitions c)\<rparr>"
definition record_late_reply :: "mstp_counters \<Rightarrow> mstp_counters" where
  "record_late_reply c = c\<lparr>ct_late_replies := increment (ct_late_replies c)\<rparr>"
definition record_expired_request :: "mstp_counters \<Rightarrow> mstp_counters" where
  "record_expired_request c = c\<lparr>ct_expired_requests := increment (ct_expired_requests c)\<rparr>"
definition record_cancelled_send :: "mstp_counters \<Rightarrow> mstp_counters" where
  "record_cancelled_send c = c\<lparr>ct_cancelled_sends := increment (ct_cancelled_sends c)\<rparr>"
definition record_deferred_start :: "mstp_counters \<Rightarrow> mstp_counters" where
  "record_deferred_start c = c\<lparr>ct_deferred_starts := increment (ct_deferred_starts c)\<rparr>"
definition record_discarded_while_busy :: "mstp_counters \<Rightarrow> mstp_counters" where
  "record_discarded_while_busy c = c\<lparr>ct_discarded_while_busy := increment (ct_discarded_while_busy c)\<rparr>"
definition record_adapter_error :: "mstp_counters \<Rightarrow> mstp_counters" where
  "record_adapter_error c = c\<lparr>ct_adapter_errors := increment (ct_adapter_errors c)\<rparr>"
definition record_internal_error :: "mstp_counters \<Rightarrow> mstp_counters" where
  "record_internal_error c = c\<lparr>ct_internal_errors := increment (ct_internal_errors c)\<rparr>"
definition record_token_rotation :: "mstp_counters \<Rightarrow> mstp_counters" where
  "record_token_rotation c = c\<lparr>ct_token_rotations := increment (ct_token_rotations c)\<rparr>"
definition record_token_regeneration :: "mstp_counters \<Rightarrow> mstp_counters" where
  "record_token_regeneration c = c\<lparr>ct_token_regenerations := increment (ct_token_regenerations c)\<rparr>"
definition record_missed_generation_slot :: "mstp_counters \<Rightarrow> mstp_counters" where
  "record_missed_generation_slot c = c\<lparr>ct_missed_generation_slots := increment (ct_missed_generation_slots c)\<rparr>"
definition record_token_retry :: "mstp_counters \<Rightarrow> mstp_counters" where
  "record_token_retry c = c\<lparr>ct_token_retries := increment (ct_token_retries c)\<rparr>"
definition record_parser_error :: "mstp_counters \<Rightarrow> mstp_counters" where
  "record_parser_error c = c\<lparr>ct_parser_errors := increment (ct_parser_errors c)\<rparr>"
definition record_frame_abort :: "mstp_counters \<Rightarrow> mstp_counters" where
  "record_frame_abort c = c\<lparr>ct_frame_aborts := increment (ct_frame_aborts c)\<rparr>"
definition record_frame_received :: "mstp_counters \<Rightarrow> mstp_counters" where
  "record_frame_received c = c\<lparr>ct_frames_received := increment (ct_frames_received c)\<rparr>"
definition record_own_address_frame :: "mstp_counters \<Rightarrow> mstp_counters" where
  "record_own_address_frame c = c\<lparr>ct_own_address_frames := increment (ct_own_address_frames c)\<rparr>"
definition record_npdu_delivered :: "mstp_counters \<Rightarrow> mstp_counters" where
  "record_npdu_delivered c = c\<lparr>ct_npdus_delivered := increment (ct_npdus_delivered c)\<rparr>"
definition record_frame_delivered :: "mstp_counters \<Rightarrow> mstp_counters" where
  "record_frame_delivered c = c\<lparr>ct_frames_delivered := increment (ct_frames_delivered c)\<rparr>"
definition record_frame_transmitted :: "mstp_counters \<Rightarrow> mstp_counters" where
  "record_frame_transmitted c = c\<lparr>ct_frames_transmitted := increment (ct_frames_transmitted c)\<rparr>"
definition record_delivery_drop :: "mstp_counters \<Rightarrow> mstp_counters" where
  "record_delivery_drop c = c\<lparr>ct_delivery_drops := increment (ct_delivery_drops c)\<rparr>"

definition record_deadline :: "duration \<Rightarrow> duration \<Rightarrow> mstp_counters \<Rightarrow> mstp_counters" where
  "record_deadline lateness late_deadline c =
     (let c = c\<lparr>ct_deadline_lateness := lateness_record lateness (ct_deadline_lateness c)\<rparr>
      in if lateness \<ge> late_deadline then c\<lparr>ct_late_deadlines := increment (ct_late_deadlines c)\<rparr> else c)"

definition record_de_assertion :: "duration \<Rightarrow> mstp_counters \<Rightarrow> mstp_counters" where
  "record_de_assertion d c = c\<lparr>ct_de_assertion := duration_saturating_add (ct_de_assertion c) d\<rparr>"

datatype receive_error = Framing | Overrun | Parity | Break

definition record_receive_error :: "receive_error \<Rightarrow> mstp_counters \<Rightarrow> mstp_counters" where
  "record_receive_error error c =
     (case error of
        Framing \<Rightarrow> c\<lparr>ct_framing_errors := increment (ct_framing_errors c)\<rparr>
      | Overrun \<Rightarrow> c\<lparr>ct_overrun_errors := increment (ct_overrun_errors c)\<rparr>
      | Parity \<Rightarrow> c\<lparr>ct_parity_errors := increment (ct_parity_errors c)\<rparr>
      | Break \<Rightarrow> c\<lparr>ct_break_errors := increment (ct_break_errors c)\<rparr>)"

datatype transmit_failure = Aborted | Timeout | Io | Rejected

definition record_transmit_failure :: "transmit_failure \<Rightarrow> mstp_counters \<Rightarrow> mstp_counters" where
  "record_transmit_failure reason c =
     (case reason of
        Aborted \<Rightarrow> c\<lparr>ct_transmit_aborts := increment (ct_transmit_aborts c)\<rparr>
      | Timeout \<Rightarrow> c\<lparr>ct_transmit_timeouts := increment (ct_transmit_timeouts c)\<rparr>
      | Io \<Rightarrow> c\<lparr>ct_transmit_io_errors := increment (ct_transmit_io_errors c)\<rparr>
      | Rejected \<Rightarrow> c\<lparr>ct_transmit_rejections := increment (ct_transmit_rejections c)\<rparr>)"

section \<open>Errors of the core's calls\<close>

datatype transmit_error = TxStale | TxDeferred | TxExpired | TxAlreadyStarted | TxNotPolled
datatype request_error = ReqNoPending | ReqStale | ReqExpired | ReqOversize nat nat

end
