(* ===== verification/Mstp_Queue.thy ===== *)
theory Mstp_Queue
  imports Mstp_Config Network_Priority "HOL-Library.Multiset"
begin

text \<open>
  The MS/TP core's transmit queues (\<open>crates/bacnet-mstp-core/src/queue.rs\<close> and \<open>queue/\<close>):
  slots and lanes with the selection policy (\<open>slots.rs\<close>), the fixed-capacity queues
  (\<open>fixed.rs\<close>) and the allocated ones (\<open>alloc.rs\<close>). The trait \<open>QueueStorage\<close> is a record of
  its operations; the contract is in \<open>Mstp_Queue_Contract\<close>. The slot capacity \<open>N\<close> is an argument \<open>n\<close>.
\<close>

section \<open>Interface types\<close>

datatype queue_kind = Unicast | Broadcast

definition from_destination :: "octet \<Rightarrow> queue_kind" where
  "from_destination destination = (if destination = BROADCAST_MAC then Broadcast else Unicast)"

datatype queue_refusal = QueueFull | QueueOversize | QueueExpired

record dequeued_npdu =
  dq_destination :: octet
  dq_kind :: queue_kind
  dq_priority :: network_priority
  dq_sequence :: u64
  dq_npdu :: octets

record queue_item_info =
  qi_destination :: octet
  qi_kind :: queue_kind
  qi_priority :: network_priority
  qi_len :: nat
  qi_enqueued_at :: instant
  qi_expires_at :: "instant option"
  qi_sequence :: u64
  qi_service_wait :: octet

record 'q queue_ops =
  q_set_starvation_limit :: "octet \<Rightarrow> 'q \<Rightarrow> 'q"
  q_max_npdu :: "'q \<Rightarrow> nat"
  q_enqueue_npdu :: "octet \<Rightarrow> octets \<Rightarrow> network_priority \<Rightarrow> instant \<Rightarrow> instant option \<Rightarrow> 'q
      \<Rightarrow> (queue_refusal + unit) \<times> 'q"
  q_expire :: "instant \<Rightarrow> 'q \<Rightarrow> nat \<times> 'q"
  q_peek :: "instant \<Rightarrow> 'q \<Rightarrow> queue_item_info option"
  q_peek_kind :: "queue_kind \<Rightarrow> instant \<Rightarrow> 'q \<Rightarrow> queue_item_info option"
  q_dequeue_kind :: "queue_kind \<Rightarrow> instant \<Rightarrow> nat \<Rightarrow> 'q
      \<Rightarrow> (queue_refusal + dequeued_npdu option) \<times> 'q"
  q_depth :: "queue_kind \<Rightarrow> 'q \<Rightarrow> nat"
  q_counters :: "queue_kind \<Rightarrow> 'q \<Rightarrow> queue_counters"
  q_take_counters :: "queue_kind \<Rightarrow> 'q \<Rightarrow> queue_counters \<times> 'q"

text \<open>The trait's provided methods.\<close>

definition queue_dequeue :: "'q queue_ops \<Rightarrow> instant \<Rightarrow> nat \<Rightarrow> 'q
    \<Rightarrow> (queue_refusal + dequeued_npdu option) \<times> 'q" where
  "queue_dequeue ops now max_len q =
     (case q_peek ops now q of
        None \<Rightarrow> (Inr None, q)
      | Some info \<Rightarrow> q_dequeue_kind ops (qi_kind info) now max_len q)"

definition total_depth :: "'q queue_ops \<Rightarrow> 'q \<Rightarrow> nat" where
  "total_depth ops q = q_depth ops Unicast q + q_depth ops Broadcast q"

section \<open>Slots and lanes\<close>

record slot =
  sl_occupied :: bool
  sl_destination :: octet
  sl_priority :: network_priority
  sl_service_wait :: octet
  sl_len :: u16
  sl_enqueued_at :: instant
  sl_expires_at :: "instant option"
  sl_sequence :: u64
  sl_payload :: octets

definition SLOT_LONGEST :: nat where "SLOT_LONGEST = 65535"

definition SLOT_EMPTY :: "nat \<Rightarrow> slot" where
  "SLOT_EMPTY n = \<lparr>sl_occupied = False, sl_destination = 0, sl_priority = Normal, sl_service_wait = 0,
     sl_len = 0, sl_enqueued_at = INSTANT_ZERO, sl_expires_at = None, sl_sequence = 0,
     sl_payload = replicate n 0\<rparr>"

definition is_free :: "slot \<Rightarrow> bool" where
  "is_free s \<longleftrightarrow> \<not> sl_occupied s"

definition slot_fill :: "octet \<Rightarrow> octets \<Rightarrow> network_priority \<Rightarrow> instant \<Rightarrow> instant option \<Rightarrow> u64
    \<Rightarrow> slot \<Rightarrow> slot" where
  "slot_fill destination payload priority now expires_at sequence s =
     \<lparr>sl_occupied = True, sl_destination = destination, sl_priority = priority, sl_service_wait = 0,
      sl_len = of_nat (length payload), sl_enqueued_at = now, sl_expires_at = expires_at,
      sl_sequence = sequence, sl_payload = copy_into (sl_payload s) 0 payload\<rparr>"

definition slot_info :: "queue_kind \<Rightarrow> slot \<Rightarrow> queue_item_info" where
  "slot_info kind s = \<lparr>qi_destination = sl_destination s, qi_kind = kind, qi_priority = sl_priority s,
     qi_len = unat (sl_len s), qi_enqueued_at = sl_enqueued_at s, qi_expires_at = sl_expires_at s,
     qi_sequence = sl_sequence s, qi_service_wait = sl_service_wait s\<rparr>"

definition slot_payload :: "slot \<Rightarrow> octets" where
  "slot_payload s = take (unat (sl_len s)) (sl_payload s)"

definition expired :: "instant option \<Rightarrow> instant \<Rightarrow> bool" where
  "expired expires_at now = (case expires_at of None \<Rightarrow> False | Some deadline \<Rightarrow> now \<ge> deadline)"

definition is_older :: "u64 \<Rightarrow> u64 \<Rightarrow> bool" where
  "is_older left right \<longleftrightarrow> left \<noteq> right \<and> left - right > (- 1) div 2"

definition better :: "queue_item_info \<Rightarrow> queue_item_info option \<Rightarrow> octet \<Rightarrow> bool" where
  "better candidate current starvation_limit =
     (case current of None \<Rightarrow> True
      | Some current \<Rightarrow>
         (case (qi_service_wait candidate \<ge> starvation_limit, qi_service_wait current \<ge> starvation_limit) of
            (True, False) \<Rightarrow> True
          | (False, True) \<Rightarrow> False
          | (True, True) \<Rightarrow> is_older (qi_sequence candidate) (qi_sequence current)
          | (False, False) \<Rightarrow>
              if qi_priority candidate > qi_priority current then True
              else if qi_priority candidate < qi_priority current then False
              else is_older (qi_sequence candidate) (qi_sequence current)))"

type_synonym selected = "queue_kind \<times> nat \<times> queue_item_info"

record lane =
  ln_slots :: "slot list"
  ln_depth :: nat
  ln_counters :: queue_counters

definition lane_new :: "slot list \<Rightarrow> queue_counters \<Rightarrow> lane" where
  "lane_new slots counters = \<lparr>ln_slots = slots, ln_depth = 0, ln_counters = counters\<rparr>"

text \<open>The scan of \<open>Lane::select\<close>, from slot \<open>i\<close> on.\<close>

fun select_from :: "queue_kind \<Rightarrow> instant \<Rightarrow> octet \<Rightarrow> nat \<Rightarrow> slot list \<Rightarrow> selected option \<Rightarrow> selected option" where
  "select_from kind now limit i [] best = best"
| "select_from kind now limit i (s # ss) best =
     (if is_free s \<or> expired (sl_expires_at s) now then select_from kind now limit (Suc i) ss best
      else let info = slot_info kind s in
        select_from kind now limit (Suc i) ss
          (if better info (map_option (\<lambda>sel. snd (snd sel)) best) limit then Some (kind, i, info) else best))"

definition lane_select :: "queue_kind \<Rightarrow> instant \<Rightarrow> octet \<Rightarrow> selected option \<Rightarrow> lane \<Rightarrow> selected option" where
  "lane_select kind now limit best l = select_from kind now limit 0 (ln_slots l) best"

definition lane_remove :: "nat \<Rightarrow> lane \<Rightarrow> lane" where
  "lane_remove i l =
     (let depth = ln_depth l - 1 in
      \<lparr>ln_slots = (ln_slots l)[i := (ln_slots l ! i)\<lparr>sl_occupied := False\<rparr>],
       ln_depth = depth, ln_counters = counters_record_dequeue depth (ln_counters l)\<rparr>)"

definition lane_expire_at :: "instant \<Rightarrow> nat \<Rightarrow> nat \<times> lane \<Rightarrow> nat \<times> lane" where
  "lane_expire_at now i st =
     (case st of (removed, l) \<Rightarrow>
       let s = ln_slots l ! i in
       if \<not> is_free s \<and> expired (sl_expires_at s) now
       then let l = lane_remove i l in
         (removed + 1, l\<lparr>ln_counters := record_drop_expired (ln_counters l)\<rparr>)
       else (removed, l))"

definition lane_expire :: "instant \<Rightarrow> lane \<Rightarrow> nat \<times> lane" where
  "lane_expire now l = fold (lane_expire_at now) [0..<length (ln_slots l)] (0, l)"

definition bump_slot :: "slot \<Rightarrow> slot" where
  "bump_slot s = (if is_free s then s
     else s\<lparr>sl_service_wait := (if sl_service_wait s = - 1 then sl_service_wait s
                                else sl_service_wait s + 1)\<rparr>)"

definition bump_waits :: "lane \<Rightarrow> lane" where
  "bump_waits l = l\<lparr>ln_slots := map bump_slot (ln_slots l)\<rparr>"

text \<open>The index of the first free slot.\<close>

fun first_free :: "slot list \<Rightarrow> nat option" where
  "first_free [] = None"
| "first_free (s # ss) = (if is_free s then Some 0 else map_option Suc (first_free ss))"

definition lane_record_enqueue :: "lane \<Rightarrow> lane" where
  "lane_record_enqueue l =
     (let depth = ln_depth l + 1 in
      l\<lparr>ln_depth := depth, ln_counters := counters_record_enqueue depth (ln_counters l)\<rparr>)"

section \<open>Fixed-capacity queues\<close>

record fixed_queues =
  fq_unicast :: lane
  fq_broadcast :: lane
  fq_sequence :: u64
  fq_starvation_limit :: "octet option"

definition fixed_new :: "nat \<Rightarrow> nat \<Rightarrow> nat \<Rightarrow> fixed_queues" where
  "fixed_new u b n =
     \<lparr>fq_unicast = lane_new (replicate u (SLOT_EMPTY n)) QUEUE_COUNTERS_EMPTY,
      fq_broadcast = lane_new (replicate b (SLOT_EMPTY n)) QUEUE_COUNTERS_EMPTY,
      fq_sequence = 0, fq_starvation_limit = None\<rparr>"

definition fixed_limit :: "fixed_queues \<Rightarrow> octet" where
  "fixed_limit q = (case fq_starvation_limit q of None \<Rightarrow> DEFAULT_STARVATION_LIMIT | Some l \<Rightarrow> l)"

definition fixed_lane :: "queue_kind \<Rightarrow> fixed_queues \<Rightarrow> lane" where
  "fixed_lane kind q = (case kind of Unicast \<Rightarrow> fq_unicast q | Broadcast \<Rightarrow> fq_broadcast q)"

definition fixed_set_lane :: "queue_kind \<Rightarrow> lane \<Rightarrow> fixed_queues \<Rightarrow> fixed_queues" where
  "fixed_set_lane kind l q =
     (case kind of Unicast \<Rightarrow> q\<lparr>fq_unicast := l\<rparr> | Broadcast \<Rightarrow> q\<lparr>fq_broadcast := l\<rparr>)"

definition fixed_count :: "(queue_counters \<Rightarrow> queue_counters) \<Rightarrow> queue_kind \<Rightarrow> fixed_queues \<Rightarrow> fixed_queues" where
  "fixed_count f kind q =
     (let l = fixed_lane kind q in fixed_set_lane kind (l\<lparr>ln_counters := f (ln_counters l)\<rparr>) q)"

definition fixed_select :: "instant \<Rightarrow> fixed_queues \<Rightarrow> selected option" where
  "fixed_select now q =
     (let limit = fixed_limit q; unicast = lane_select Unicast now limit None (fq_unicast q)
      in lane_select Broadcast now limit unicast (fq_broadcast q))"

definition fixed_select_kind :: "queue_kind \<Rightarrow> instant \<Rightarrow> fixed_queues \<Rightarrow> selected option" where
  "fixed_select_kind kind now q = lane_select kind now (fixed_limit q) None (fixed_lane kind q)"

definition fixed_enqueue_npdu :: "nat \<Rightarrow> octet \<Rightarrow> octets \<Rightarrow> network_priority \<Rightarrow> instant \<Rightarrow> instant option
    \<Rightarrow> fixed_queues \<Rightarrow> (queue_refusal + unit) \<times> fixed_queues" where
  "fixed_enqueue_npdu n destination payload priority now expires_at q =
     (let kind = from_destination destination in
      if length payload > n then (Inl QueueOversize, fixed_count record_drop_oversize kind q)
      else if expired expires_at now then (Inl QueueExpired, fixed_count record_drop_expired kind q)
      else
        let sequence = fq_sequence q; q = q\<lparr>fq_sequence := fq_sequence q + 1\<rparr>; l = fixed_lane kind q in
        (case first_free (ln_slots l) of
           None \<Rightarrow> (Inl QueueFull, fixed_count record_drop_full kind q)
         | Some i \<Rightarrow>
             let l = l\<lparr>ln_slots := (ln_slots l)[i := slot_fill destination payload priority now expires_at
                        sequence (ln_slots l ! i)]\<rparr>
             in (Inr (), fixed_set_lane kind (lane_record_enqueue l) q)))"

definition fixed_expire :: "instant \<Rightarrow> fixed_queues \<Rightarrow> nat \<times> fixed_queues" where
  "fixed_expire now q =
     (let (a, u) = lane_expire now (fq_unicast q); (b, br) = lane_expire now (fq_broadcast q)
      in (a + b, q\<lparr>fq_unicast := u, fq_broadcast := br\<rparr>))"

definition fixed_peek :: "instant \<Rightarrow> fixed_queues \<Rightarrow> queue_item_info option" where
  "fixed_peek now q = map_option (\<lambda>sel. snd (snd sel)) (fixed_select now q)"

definition fixed_peek_kind :: "queue_kind \<Rightarrow> instant \<Rightarrow> fixed_queues \<Rightarrow> queue_item_info option" where
  "fixed_peek_kind kind now q = map_option (\<lambda>sel. snd (snd sel)) (fixed_select_kind kind now q)"

definition fixed_dequeue_kind :: "queue_kind \<Rightarrow> instant \<Rightarrow> nat \<Rightarrow> fixed_queues
    \<Rightarrow> (queue_refusal + dequeued_npdu option) \<times> fixed_queues" where
  "fixed_dequeue_kind kind now max_len q =
     (let q = snd (fixed_expire now q) in
      case fixed_select_kind kind now q of
        None \<Rightarrow> (Inr None, q)
      | Some (_, index, info) \<Rightarrow>
          let q = fixed_set_lane kind (lane_remove index (fixed_lane kind q)) q in
          if qi_len info > max_len then (Inl QueueOversize, fixed_count record_drop_oversize kind q)
          else
            let q = q\<lparr>fq_unicast := bump_waits (fq_unicast q), fq_broadcast := bump_waits (fq_broadcast q)\<rparr>
            in (Inr (Some \<lparr>dq_destination = qi_destination info, dq_kind = kind,
                  dq_priority = qi_priority info, dq_sequence = qi_sequence info,
                  dq_npdu = slot_payload (ln_slots (fixed_lane kind q) ! index)\<rparr>), q))"

definition fixed_depth :: "queue_kind \<Rightarrow> fixed_queues \<Rightarrow> nat" where
  "fixed_depth kind q = ln_depth (fixed_lane kind q)"

definition fixed_counters :: "queue_kind \<Rightarrow> fixed_queues \<Rightarrow> queue_counters" where
  "fixed_counters kind q = ln_counters (fixed_lane kind q)"

definition fixed_take_counters :: "queue_kind \<Rightarrow> fixed_queues \<Rightarrow> queue_counters \<times> fixed_queues" where
  "fixed_take_counters kind q =
     (fst (take_queue_counters (fixed_counters kind q)), fixed_count (snd \<circ> take_queue_counters) kind q)"

definition fixed_set_starvation_limit :: "octet \<Rightarrow> fixed_queues \<Rightarrow> fixed_queues" where
  "fixed_set_starvation_limit limit q = q\<lparr>fq_starvation_limit := Some limit\<rparr>"

definition fixed_ops :: "nat \<Rightarrow> fixed_queues queue_ops" where
  "fixed_ops n = \<lparr>q_set_starvation_limit = fixed_set_starvation_limit, q_max_npdu = (\<lambda>_. n),
     q_enqueue_npdu = fixed_enqueue_npdu n, q_expire = fixed_expire, q_peek = fixed_peek,
     q_peek_kind = fixed_peek_kind, q_dequeue_kind = fixed_dequeue_kind, q_depth = fixed_depth,
     q_counters = fixed_counters, q_take_counters = fixed_take_counters\<rparr>"

section \<open>Allocated queues\<close>

record alloc_queues =
  aq_unicast :: lane
  aq_broadcast :: lane
  aq_unicast_capacity :: nat
  aq_broadcast_capacity :: nat
  aq_sequence :: u64
  aq_starvation_limit :: octet

definition alloc_new :: "nat \<Rightarrow> nat \<Rightarrow> alloc_queues" where
  "alloc_new unicast_capacity broadcast_capacity =
     \<lparr>aq_unicast = lane_new [] QUEUE_COUNTERS_EMPTY, aq_broadcast = lane_new [] QUEUE_COUNTERS_EMPTY,
      aq_unicast_capacity = unicast_capacity, aq_broadcast_capacity = broadcast_capacity,
      aq_sequence = 0, aq_starvation_limit = DEFAULT_STARVATION_LIMIT\<rparr>"

definition alloc_lane :: "queue_kind \<Rightarrow> alloc_queues \<Rightarrow> lane" where
  "alloc_lane kind q = (case kind of Unicast \<Rightarrow> aq_unicast q | Broadcast \<Rightarrow> aq_broadcast q)"

definition alloc_set_lane :: "queue_kind \<Rightarrow> lane \<Rightarrow> alloc_queues \<Rightarrow> alloc_queues" where
  "alloc_set_lane kind l q =
     (case kind of Unicast \<Rightarrow> q\<lparr>aq_unicast := l\<rparr> | Broadcast \<Rightarrow> q\<lparr>aq_broadcast := l\<rparr>)"

definition alloc_count :: "(queue_counters \<Rightarrow> queue_counters) \<Rightarrow> queue_kind \<Rightarrow> alloc_queues \<Rightarrow> alloc_queues" where
  "alloc_count f kind q =
     (let l = alloc_lane kind q in alloc_set_lane kind (l\<lparr>ln_counters := f (ln_counters l)\<rparr>) q)"

definition alloc_select :: "instant \<Rightarrow> alloc_queues \<Rightarrow> selected option" where
  "alloc_select now q =
     (let limit = aq_starvation_limit q; unicast = lane_select Unicast now limit None (aq_unicast q)
      in lane_select Broadcast now limit unicast (aq_broadcast q))"

definition alloc_select_kind :: "queue_kind \<Rightarrow> instant \<Rightarrow> alloc_queues \<Rightarrow> selected option" where
  "alloc_select_kind kind now q = lane_select kind now (aq_starvation_limit q) None (alloc_lane kind q)"

definition alloc_enqueue_npdu :: "nat \<Rightarrow> octet \<Rightarrow> octets \<Rightarrow> network_priority \<Rightarrow> instant \<Rightarrow> instant option
    \<Rightarrow> alloc_queues \<Rightarrow> (queue_refusal + unit) \<times> alloc_queues" where
  "alloc_enqueue_npdu n destination payload priority now expires_at q =
     (let kind = from_destination destination;
          capacity = (case kind of Unicast \<Rightarrow> aq_unicast_capacity q | Broadcast \<Rightarrow> aq_broadcast_capacity q);
          sequence = aq_sequence q; l = alloc_lane kind q in
      if length payload > n then (Inl QueueOversize, alloc_count record_drop_oversize kind q)
      else if expired expires_at now then (Inl QueueExpired, alloc_count record_drop_expired kind q)
      else if ln_depth l \<ge> capacity then (Inl QueueFull, alloc_count record_drop_full kind q)
      else
        let (index, slots) = (case first_free (ln_slots l) of
               Some i \<Rightarrow> (i, ln_slots l)
             | None \<Rightarrow> (length (ln_slots l), ln_slots l @ [SLOT_EMPTY n]));
            l = l\<lparr>ln_slots := slots[index := slot_fill destination payload priority now expires_at
                   sequence (slots ! index)]\<rparr>
        in (Inr (), (alloc_set_lane kind (lane_record_enqueue l) q)\<lparr>aq_sequence := sequence + 1\<rparr>))"

definition alloc_expire :: "instant \<Rightarrow> alloc_queues \<Rightarrow> nat \<times> alloc_queues" where
  "alloc_expire now q =
     (let (a, u) = lane_expire now (aq_unicast q); (b, br) = lane_expire now (aq_broadcast q)
      in (a + b, q\<lparr>aq_unicast := u, aq_broadcast := br\<rparr>))"

definition alloc_dequeue_kind :: "queue_kind \<Rightarrow> instant \<Rightarrow> nat \<Rightarrow> alloc_queues
    \<Rightarrow> (queue_refusal + dequeued_npdu option) \<times> alloc_queues" where
  "alloc_dequeue_kind kind now max_len q =
     (let q = snd (alloc_expire now q) in
      case alloc_select_kind kind now q of
        None \<Rightarrow> (Inr None, q)
      | Some (_, index, info) \<Rightarrow>
          let q = alloc_set_lane kind (lane_remove index (alloc_lane kind q)) q in
          if qi_len info > max_len then (Inl QueueOversize, alloc_count record_drop_oversize kind q)
          else
            let q = q\<lparr>aq_unicast := bump_waits (aq_unicast q), aq_broadcast := bump_waits (aq_broadcast q)\<rparr>
            in (Inr (Some \<lparr>dq_destination = qi_destination info, dq_kind = kind,
                  dq_priority = qi_priority info, dq_sequence = qi_sequence info,
                  dq_npdu = slot_payload (ln_slots (alloc_lane kind q) ! index)\<rparr>), q))"

definition alloc_ops :: "nat \<Rightarrow> alloc_queues queue_ops" where
  "alloc_ops n = \<lparr>q_set_starvation_limit = (\<lambda>limit q. q\<lparr>aq_starvation_limit := limit\<rparr>),
     q_max_npdu = (\<lambda>_. n), q_enqueue_npdu = alloc_enqueue_npdu n, q_expire = alloc_expire,
     q_peek = (\<lambda>now q. map_option (\<lambda>sel. snd (snd sel)) (alloc_select now q)),
     q_peek_kind = (\<lambda>kind now q. map_option (\<lambda>sel. snd (snd sel)) (alloc_select_kind kind now q)),
     q_dequeue_kind = alloc_dequeue_kind, q_depth = (\<lambda>kind q. ln_depth (alloc_lane kind q)),
     q_counters = (\<lambda>kind q. ln_counters (alloc_lane kind q)),
     q_take_counters = (\<lambda>kind q. (fst (take_queue_counters (ln_counters (alloc_lane kind q))),
        alloc_count (snd \<circ> take_queue_counters) kind q))\<rparr>"

section \<open>What a lane holds\<close>

text \<open>An NPDU waiting in a lane, without the bookkeeping of its slot.\<close>

record queue_item =
  it_destination :: octet
  it_priority :: network_priority
  it_enqueued_at :: instant
  it_expires_at :: "instant option"
  it_sequence :: u64
  it_npdu :: octets

definition slot_item :: "slot \<Rightarrow> queue_item" where
  "slot_item s = \<lparr>it_destination = sl_destination s, it_priority = sl_priority s,
     it_enqueued_at = sl_enqueued_at s, it_expires_at = sl_expires_at s,
     it_sequence = sl_sequence s, it_npdu = slot_payload s\<rparr>"

definition slots_items :: "slot list \<Rightarrow> queue_item multiset" where
  "slots_items ss = image_mset slot_item (filter_mset (\<lambda>s. \<not> is_free s) (mset ss))"

definition lane_items :: "lane \<Rightarrow> queue_item multiset" where
  "lane_items l = slots_items (ln_slots l)"

definition slot_wf :: "nat \<Rightarrow> slot \<Rightarrow> bool" where
  "slot_wf n s \<longleftrightarrow> length (sl_payload s) = n \<and> unat (sl_len s) \<le> n"

definition lane_wf :: "nat \<Rightarrow> lane \<Rightarrow> bool" where
  "lane_wf n l \<longleftrightarrow> (\<forall>s \<in> set (ln_slots l). slot_wf n s) \<and> ln_depth l = size (lane_items l)"

abbreviation item_expired :: "instant \<Rightarrow> queue_item \<Rightarrow> bool" where
  "item_expired now it \<equiv> expired (it_expires_at it) now"

lemma is_free_update [simp]: "is_free (s\<lparr>sl_occupied := b\<rparr>) = (\<not> b)" "is_free (slot_fill d p pr t e q s) = False"
  by (simp_all add: is_free_def slot_fill_def)

lemma slot_item_occupied [simp]: "slot_item (s\<lparr>sl_occupied := b\<rparr>) = slot_item s"
  by (simp add: slot_item_def slot_payload_def)

lemma slots_items_Cons:
  "slots_items (s # ss) = (if is_free s then slots_items ss else add_mset (slot_item s) (slots_items ss))"
  by (simp add: slots_items_def)

lemma slots_items_Nil [simp]: "slots_items [] = {#}"
  by (simp add: slots_items_def)

lemma slots_items_append: "slots_items (xs @ ys) = slots_items xs + slots_items ys"
  by (simp add: slots_items_def)

lemma slots_items_update:
  "i < length ss \<Longrightarrow> slots_items (ss[i := s]) + (if is_free (ss ! i) then {#} else {#slot_item (ss ! i)#})
     = slots_items ss + (if is_free s then {#} else {#slot_item s#})"
proof (induction ss arbitrary: i)
  case (Cons a ss)
  show ?case
  proof (cases i)
    case (Suc j)
    with Cons.IH [of j] Cons.prems show ?thesis by (auto simp: slots_items_Cons split: if_splits)
  qed (simp add: slots_items_Cons)
qed simp

lemma slot_item_mem: "i < length ss \<Longrightarrow> \<not> is_free (ss ! i) \<Longrightarrow> slot_item (ss ! i) \<in># slots_items ss"
  by (auto simp: slots_items_def)

lemma in_slots_items: "it \<in># slots_items ss \<longleftrightarrow> (\<exists>s \<in> set ss. \<not> is_free s \<and> it = slot_item s)"
  by (auto simp: slots_items_def)

lemma lane_remove_items:
  assumes "lane_wf n l" "i < length (ln_slots l)" "\<not> is_free (ln_slots l ! i)"
  shows "lane_wf n (lane_remove i l)
       \<and> lane_items l = add_mset (slot_item (ln_slots l ! i)) (lane_items (lane_remove i l))
       \<and> ln_slots (lane_remove i l) = (ln_slots l)[i := (ln_slots l ! i)\<lparr>sl_occupied := False\<rparr>]"
proof -
  have "slots_items ((ln_slots l)[i := (ln_slots l ! i)\<lparr>sl_occupied := False\<rparr>]) + {#slot_item (ln_slots l ! i)#}
      = slots_items (ln_slots l)"
    using slots_items_update [OF assms(2), of "(ln_slots l ! i)\<lparr>sl_occupied := False\<rparr>"] assms(3) by simp
  then have items: "lane_items l = add_mset (slot_item (ln_slots l ! i)) (lane_items (lane_remove i l))"
    by (simp add: lane_items_def lane_remove_def Let_def)
  have "slot_wf n ((ln_slots l ! i)\<lparr>sl_occupied := False\<rparr>)"
    using assms(1,2) by (auto simp: lane_wf_def slot_wf_def)
  then have "\<forall>s \<in> set (ln_slots (lane_remove i l)). slot_wf n s"
    using assms(1) by (auto simp: lane_wf_def lane_remove_def Let_def dest!: set_update_subset_insert [THEN subsetD])
  moreover have "ln_depth (lane_remove i l) = size (lane_items (lane_remove i l))"
  proof -
    have "ln_depth (lane_remove i l) = ln_depth l - 1" by (simp add: lane_remove_def Let_def)
    then show ?thesis using assms(1) items by (simp add: lane_wf_def)
  qed
  ultimately show ?thesis using items by (simp add: lane_wf_def lane_remove_def Let_def)
qed

text \<open>Expiring one index keeps the lane well formed and drops its item if it is due.\<close>

definition expire_slot :: "instant \<Rightarrow> slot \<Rightarrow> slot" where
  "expire_slot now s = (if \<not> is_free s \<and> expired (sl_expires_at s) now then s\<lparr>sl_occupied := False\<rparr> else s)"

lemma lane_expire_at_step:
  assumes "lane_wf n l" "i < length (ln_slots l)" "lane_expire_at now i (r, l) = (r', l')"
  shows "lane_wf n l' \<and> ln_slots l' = (ln_slots l)[i := expire_slot now (ln_slots l ! i)]"
proof (cases "\<not> is_free (ln_slots l ! i) \<and> expired (sl_expires_at (ln_slots l ! i)) now")
  case True
  then have l': "l' = (lane_remove i l)\<lparr>ln_counters := record_drop_expired (ln_counters (lane_remove i l))\<rparr>"
    using assms(3) by (simp add: lane_expire_at_def Let_def)
  from lane_remove_items [OF assms(1,2)] True show ?thesis
    by (simp add: l' lane_wf_def lane_items_def expire_slot_def)
next
  case False
  then show ?thesis using assms by (auto simp: lane_expire_at_def Let_def expire_slot_def)
qed

lemma lane_expire_upto:
  "lane_wf n l \<Longrightarrow> k \<le> length (ln_slots l) \<Longrightarrow>
     \<exists>r l'. fold (lane_expire_at now) [0..<k] (0, l) = (r, l') \<and> lane_wf n l'
       \<and> ln_slots l' = map (expire_slot now) (take k (ln_slots l)) @ drop k (ln_slots l)"
proof (induction k)
  case (Suc k)
  then obtain r l1 where l1: "fold (lane_expire_at now) [0..<k] (0, l) = (r, l1)" "lane_wf n l1"
      "ln_slots l1 = map (expire_slot now) (take k (ln_slots l)) @ drop k (ln_slots l)" by fastforce
  have k: "k < length (ln_slots l1)" "ln_slots l1 ! k = ln_slots l ! k"
    using l1(3) Suc.prems(2) by (simp_all add: nth_append)
  obtain r2 l2 where l2: "lane_expire_at now k (r, l1) = (r2, l2)" by fastforce
  from lane_expire_at_step [OF l1(2) k(1) l2] have "lane_wf n l2"
    "ln_slots l2 = (ln_slots l1)[k := expire_slot now (ln_slots l ! k)]" using k(2) by auto
  moreover have "(ln_slots l1)[k := x] = map (expire_slot now) (take k (ln_slots l)) @ x # drop (Suc k) (ln_slots l)" for x
    unfolding l1(3) using Suc.prems(2)
    by (simp add: list_update_append Cons_nth_drop_Suc [of k "ln_slots l", symmetric])
  ultimately show ?case using l1(1) l2 Suc.prems(2)
    by (simp add: take_Suc_conv_app_nth)
qed simp

lemma expire_slots_items:
  "slots_items (map (expire_slot now) ss) = filter_mset (\<lambda>it. \<not> item_expired now it) (slots_items ss)"
proof (induction ss)
  case (Cons s ss)
  then show ?case
    by (auto simp: slots_items_Cons expire_slot_def slot_item_def split: if_splits)
qed simp

lemma lane_expire_spec:
  assumes "lane_wf n l"
  shows "lane_wf n (snd (lane_expire now l))
       \<and> ln_slots (snd (lane_expire now l)) = map (expire_slot now) (ln_slots l)
       \<and> lane_items (snd (lane_expire now l)) = filter_mset (\<lambda>it. \<not> item_expired now it) (lane_items l)"
  using lane_expire_upto [OF assms order.refl, of now]
  by (auto simp: lane_expire_def lane_items_def expire_slots_items)

lemma bump_slot_simps [simp]:
  "is_free (bump_slot s) = is_free s" "slot_item (bump_slot s) = slot_item s"
  "slot_wf n (bump_slot s) = slot_wf n s" "slot_payload (bump_slot s) = slot_payload s"
  by (simp_all add: bump_slot_def is_free_def slot_item_def slot_payload_def slot_wf_def)

lemma bump_waits_items [simp]: "lane_items (bump_waits l) = lane_items l"
proof -
  have "slots_items (map bump_slot ss) = slots_items ss" for ss
    by (induction ss) (simp_all add: slots_items_Cons)
  then show ?thesis by (simp add: lane_items_def bump_waits_def)
qed

lemma bump_waits_wf [simp]: "lane_wf n (bump_waits l) = lane_wf n l"
  unfolding lane_wf_def bump_waits_items by (simp add: bump_waits_def)

lemma first_free_Some:
  "first_free ss = Some i \<Longrightarrow> i < length ss \<and> is_free (ss ! i)"
  by (induction ss arbitrary: i) (auto split: if_splits)

lemma first_free_None: "first_free ss = None \<longleftrightarrow> (\<forall>s \<in> set ss. \<not> is_free s)"
  by (induction ss) auto

lemma slot_fill_item:
  assumes "slot_wf n s" "length payload \<le> n" "n \<le> SLOT_LONGEST"
  shows "slot_wf n (slot_fill dst payload pr now ex q s)
       \<and> slot_item (slot_fill dst payload pr now ex q s)
          = \<lparr>it_destination = dst, it_priority = pr, it_enqueued_at = now, it_expires_at = ex,
             it_sequence = q, it_npdu = payload\<rparr>"
proof -
  have "length payload < 65536" using assms by (simp add: SLOT_LONGEST_def)
  then have "unat (of_nat (length payload) :: u16) = length payload" by simp
  then show ?thesis using assms
    by (simp add: slot_fill_def slot_wf_def slot_item_def slot_payload_def copy_into_def)
qed

text \<open>Filling a free slot adds its item.\<close>

lemma lane_fill_items:
  assumes "lane_wf n l" "i < length (ln_slots l)" "is_free (ln_slots l ! i)"
    "length payload \<le> n" "n \<le> SLOT_LONGEST"
  shows "let l' = lane_record_enqueue (l\<lparr>ln_slots := (ln_slots l)[i := slot_fill dst payload pr now ex q (ln_slots l ! i)]\<rparr>)
         in lane_wf n l' \<and> lane_items l' = add_mset \<lparr>it_destination = dst, it_priority = pr,
              it_enqueued_at = now, it_expires_at = ex, it_sequence = q, it_npdu = payload\<rparr> (lane_items l)"
proof -
  let ?s = "slot_fill dst payload pr now ex q (ln_slots l ! i)"
  have wf: "slot_wf n (ln_slots l ! i)" using assms(1,2) by (auto simp: lane_wf_def)
  note fill = slot_fill_item [OF wf assms(4,5), of dst pr now ex q]
  have "slots_items ((ln_slots l)[i := ?s]) = add_mset (slot_item ?s) (slots_items (ln_slots l))"
    using slots_items_update [OF assms(2), of ?s] assms(3) by simp
  moreover have "\<forall>s \<in> set ((ln_slots l)[i := ?s]). slot_wf n s"
    using assms(1) fill set_update_subset_insert [of "ln_slots l" i ?s] by (auto simp: lane_wf_def)
  ultimately show ?thesis using assms(1) fill
    by (simp add: lane_wf_def lane_items_def lane_record_enqueue_def Let_def)
qed

lemma lane_grow_wf:
  "lane_wf n l \<Longrightarrow> lane_wf n (l\<lparr>ln_slots := ln_slots l @ [SLOT_EMPTY n]\<rparr>)
     \<and> lane_items (l\<lparr>ln_slots := ln_slots l @ [SLOT_EMPTY n]\<rparr>) = lane_items l"
  by (auto simp: lane_wf_def lane_items_def slots_items_append slots_items_Cons SLOT_EMPTY_def
      is_free_def slot_wf_def)

lemma lane_counters_wf [simp]:
  "lane_items (l\<lparr>ln_counters := c\<rparr>) = lane_items l" "lane_wf n (l\<lparr>ln_counters := c\<rparr>) = lane_wf n l"
  by (simp_all add: lane_items_def lane_wf_def)

section \<open>The selection policy\<close>

abbreviation live_at :: "instant \<Rightarrow> slot \<Rightarrow> bool" where
  "live_at now s \<equiv> \<not> is_free s \<and> \<not> expired (sl_expires_at s) now"

lemma select_from_sound:
  "select_from kind now limit i ss best = Some (k, j, info) \<Longrightarrow>
     best = Some (k, j, info)
   \<or> (k = kind \<and> i \<le> j \<and> j < i + length ss \<and> live_at now (ss ! (j - i)) \<and> info = slot_info kind (ss ! (j - i)))"
proof (induction ss arbitrary: i best)
  case (Cons s ss)
  show ?case
  proof (cases "is_free s \<or> expired (sl_expires_at s) now")
    case True
    with Cons.prems have "select_from kind now limit (Suc i) ss best = Some (k, j, info)" by simp
    from Cons.IH [OF this] show ?thesis by (auto simp: nth_Cons' Suc_le_eq)
  next
    case False
    define best' where "best' = (if better (slot_info kind s) (map_option (\<lambda>sel. snd (snd sel)) best) limit
      then Some (kind, i, slot_info kind s) else best)"
    with Cons.prems False have "select_from kind now limit (Suc i) ss best' = Some (k, j, info)"
      by (simp add: Let_def)
    from Cons.IH [OF this] show ?thesis
    proof
      assume "best' = Some (k, j, info)"
      then show ?thesis using False by (auto simp: best'_def split: if_splits)
    next
      assume "k = kind \<and> Suc i \<le> j \<and> j < Suc i + length ss \<and> live_at now (ss ! (j - Suc i))
          \<and> info = slot_info kind (ss ! (j - Suc i))"
      then show ?thesis by (auto simp: nth_Cons' Suc_le_eq)
    qed
  qed
qed simp

lemma select_from_None:
  "select_from kind now limit i ss best = None \<longleftrightarrow> best = None \<and> (\<forall>s \<in> set ss. \<not> live_at now s)"
proof (induction ss arbitrary: i best)
  case (Cons s ss)
  show ?case
  proof (cases "is_free s \<or> expired (sl_expires_at s) now")
    case False
    then show ?thesis using Cons.IH [of "Suc i"] by (cases best) (auto simp: better_def Let_def)
  qed (use Cons.IH [of "Suc i"] in auto)
qed simp

lemma lane_select_sound:
  "lane_select kind now limit None l = Some (k, j, info) \<Longrightarrow>
     k = kind \<and> j < length (ln_slots l) \<and> live_at now (ln_slots l ! j) \<and> info = slot_info kind (ln_slots l ! j)"
  using select_from_sound [of kind now limit 0 "ln_slots l" None k j info] by (auto simp: lane_select_def)

lemma lane_select_None:
  "lane_select kind now limit None l = None \<longleftrightarrow> (\<forall>it \<in># lane_items l. item_expired now it)"
  unfolding lane_select_def select_from_None lane_items_def
  by (auto simp: slots_items_def slot_item_def)

end
