(* ===== verification/Mstp_Queue_Contract.thy ===== *)
theory Mstp_Queue_Contract
  imports Mstp_Queue
begin

text \<open>
  What the transmit queues promise. The locale \<open>queue_storage\<close> states the trait's contract in
  terms of the multiset of NPDUs each lane holds, and that no NPDU is made up, altered or handed out
  twice is proved once in it. The locale \<open>lane_pair\<close> holds what the two backends share, and both
  backends interpret both locales.
\<close>

section \<open>The contract of the queues\<close>

locale queue_storage =
  fixes ops :: "'q queue_ops" and inv :: "'q \<Rightarrow> bool" and items :: "'q \<Rightarrow> queue_kind \<Rightarrow> queue_item multiset"
  assumes enqueue_accepts:
      "inv q \<Longrightarrow> q_enqueue_npdu ops dst npdu pr now ex q = (Inr (), q') \<Longrightarrow>
         inv q' \<and> \<not> expired ex now \<and> (\<exists>seq. \<forall>k. items q' k =
           (if k = from_destination dst
            then add_mset \<lparr>it_destination = dst, it_priority = pr, it_enqueued_at = now,
                   it_expires_at = ex, it_sequence = seq, it_npdu = npdu\<rparr> (items q k)
            else items q k))"
    and enqueue_refuses:
      "inv q \<Longrightarrow> q_enqueue_npdu ops dst npdu pr now ex q = (Inl e, q') \<Longrightarrow> inv q' \<and> items q' = items q"
    and expire_drops:
      "inv q \<Longrightarrow> q_expire ops now q = (r, q') \<Longrightarrow>
         inv q' \<and> (\<forall>k. items q' k = filter_mset (\<lambda>it. \<not> item_expired now it) (items q k))"
    and peek_some:
      "inv q \<Longrightarrow> q_peek_kind ops k now q = None \<longleftrightarrow> (\<forall>it \<in># items q k. item_expired now it)"
    and dequeue_serves:
      "inv q \<Longrightarrow> q_dequeue_kind ops k now max_len q = (Inr (Some d), q') \<Longrightarrow>
         inv q' \<and> dq_kind d = k \<and> length (dq_npdu d) \<le> max_len
         \<and> (\<exists>it. \<not> item_expired now it \<and> it_destination it = dq_destination d \<and> it_npdu it = dq_npdu d
              \<and> it_priority it = dq_priority d \<and> it_sequence it = dq_sequence d
              \<and> (\<forall>k'. filter_mset (\<lambda>it. \<not> item_expired now it) (items q k')
                    = (if k' = k then add_mset it (items q' k') else items q' k')))"
    and dequeue_empty:
      "inv q \<Longrightarrow> q_dequeue_kind ops k now max_len q = (Inr None, q') \<Longrightarrow>
         inv q' \<and> items q' k = {#} \<and> (\<forall>k'. items q' k' = filter_mset (\<lambda>it. \<not> item_expired now it) (items q k'))"
    and dequeue_oversize:
      "inv q \<Longrightarrow> q_dequeue_kind ops k now max_len q = (Inl e, q') \<Longrightarrow>
         inv q' \<and> (\<exists>it. max_len < length (it_npdu it) \<and>
           (\<forall>k'. filter_mset (\<lambda>it. \<not> item_expired now it) (items q k')
              = (if k' = k then add_mset it (items q' k') else items q' k')))"
    and depth_items: "inv q \<Longrightarrow> q_depth ops k q = size (items q k)"
    and set_limit_keeps: "inv q \<Longrightarrow> inv (q_set_starvation_limit ops l q) \<and> items (q_set_starvation_limit ops l q) = items q"
    and take_counters_keeps:
      "inv q \<Longrightarrow> q_take_counters ops k q = (c, q') \<Longrightarrow> inv q' \<and> items q' = items q"

text \<open>The calls a core makes on its queues, and a run of them.\<close>

datatype queue_call =
    CallEnqueue octet octets network_priority instant "instant option"
  | CallExpire instant
  | CallDequeue queue_kind instant nat

text \<open>What identifies an NPDU: where it goes, its priority and its octets.\<close>

type_synonym npdu_key = "octet \<times> network_priority \<times> octets"

definition item_key :: "queue_item \<Rightarrow> npdu_key" where
  "item_key it = (it_destination it, it_priority it, it_npdu it)"

text \<open>An NPDU and the deadline it was queued with.\<close>

type_synonym queued_npdu = "npdu_key \<times> instant option"

definition item_entry :: "queue_item \<Rightarrow> queued_npdu" where
  "item_entry it = (item_key it, it_expires_at it)"

text \<open>
  What a run shows its caller: the NPDUs accepted, the NPDUs handed out, and the limits of the
  dequeues answered with an oversize error; and the queue after it.
\<close>

fun queue_run :: "'q queue_ops \<Rightarrow> queue_call list \<Rightarrow> 'q \<Rightarrow> queued_npdu multiset \<times> npdu_key multiset \<times> nat list \<times> 'q" where
  "queue_run ops [] q = ({#}, {#}, [], q)"
| "queue_run ops (CallEnqueue dst npdu pr now ex # cs) q =
     (case q_enqueue_npdu ops dst npdu pr now ex q of
        (Inr _, q') \<Rightarrow> (case queue_run ops cs q' of (acc, out, big, q'') \<Rightarrow> (add_mset ((dst, pr, npdu), ex) acc, out, big, q''))
      | (Inl _, q') \<Rightarrow> queue_run ops cs q')"
| "queue_run ops (CallExpire now # cs) q = queue_run ops cs (snd (q_expire ops now q))"
| "queue_run ops (CallDequeue k now max_len # cs) q =
     (case q_dequeue_kind ops k now max_len q of
        (Inr (Some d), q') \<Rightarrow> (case queue_run ops cs q' of
            (acc, out, big, q'') \<Rightarrow> (acc, add_mset (dq_destination d, dq_priority d, dq_npdu d) out, big, q''))
      | (Inr None, q') \<Rightarrow> queue_run ops cs q'
      | (Inl _, q') \<Rightarrow> (case queue_run ops cs q' of (acc, out, big, q'') \<Rightarrow> (acc, out, max_len # big, q'')))"

text \<open>The times of the calls that look at deadlines.\<close>

fun call_times :: "queue_call list \<Rightarrow> instant set" where
  "call_times [] = {}"
| "call_times (CallEnqueue dst npdu pr now ex # cs) = call_times cs"
| "call_times (CallExpire now # cs) = insert now (call_times cs)"
| "call_times (CallDequeue k now max_len # cs) = insert now (call_times cs)"

definition waiting :: "('q \<Rightarrow> queue_kind \<Rightarrow> queue_item multiset) \<Rightarrow> 'q \<Rightarrow> queued_npdu multiset" where
  "waiting items q = image_mset item_entry (items q Unicast + items q Broadcast)"

text \<open>
  The balance of a run: every NPDU that was waiting or was accepted has been handed out, has
  expired by the time of a call, has been dropped by one oversize answer, or is waiting.
\<close>

definition balanced :: "queue_call list \<Rightarrow> queued_npdu multiset \<Rightarrow> npdu_key multiset \<Rightarrow> nat list \<Rightarrow> queued_npdu multiset \<Rightarrow> bool" where
  "balanced cs before out big after \<longleftrightarrow>
     (\<exists>taken late dropped. before = taken + late + dropped + after \<and> image_mset fst taken = out
        \<and> (\<forall>x \<in># late. \<exists>t \<in> call_times cs. expired (snd x) t)
        \<and> size dropped = length big \<and> (\<forall>x \<in># dropped. \<exists>m \<in> set big. m < length (snd (snd (fst x)))))"

lemma balanced_grow:
  assumes "balanced cs before out big after" "call_times cs \<subseteq> call_times cs'"
    and "\<forall>x \<in># late. \<exists>t \<in> call_times cs'. expired (snd x) t"
  shows "balanced cs' (late + before) out big after"
proof -
  obtain taken late' dropped where b: "before = taken + late' + dropped + after" "image_mset fst taken = out"
      "\<forall>x \<in># late'. \<exists>t \<in> call_times cs. expired (snd x) t" "size dropped = length big"
      "\<forall>x \<in># dropped. \<exists>m \<in> set big. m < length (snd (snd (fst x)))"
    using assms(1) unfolding balanced_def by blast
  have "late + before = taken + (late + late') + dropped + after" by (simp add: b(1) ac_simps)
  moreover have "\<forall>x \<in># late + late'. \<exists>t \<in> call_times cs'. expired (snd x) t" using assms(2,3) b(3) unfolding set_mset_union by blast
  ultimately show ?thesis unfolding balanced_def using b(2,4,5) by blast
qed

lemma balanced_take:
  assumes "balanced cs before out big after"
  shows "balanced cs (add_mset x before) (add_mset (fst x) out) big after"
proof -
  obtain taken late dropped where b: "before = taken + late + dropped + after" "image_mset fst taken = out"
      "\<forall>x \<in># late. \<exists>t \<in> call_times cs. expired (snd x) t" "size dropped = length big"
      "\<forall>x \<in># dropped. \<exists>m \<in> set big. m < length (snd (snd (fst x)))"
    using assms unfolding balanced_def by blast
  have "add_mset x before = add_mset x taken + late + dropped + after" "image_mset fst (add_mset x taken) = add_mset (fst x) out"
    by (simp_all add: b(1,2))
  then show ?thesis unfolding balanced_def using b(3-5) by blast
qed

lemma balanced_drop:
  assumes "balanced cs before out big after" "m < length (snd (snd (fst x)))"
  shows "balanced cs (add_mset x before) out (m # big) after"
proof -
  obtain taken late dropped where b: "before = taken + late + dropped + after" "image_mset fst taken = out"
      "\<forall>x \<in># late. \<exists>t \<in> call_times cs. expired (snd x) t" "size dropped = length big"
      "\<forall>x \<in># dropped. \<exists>m \<in> set big. m < length (snd (snd (fst x)))"
    using assms(1) unfolding balanced_def by blast
  have "add_mset x before = taken + late + add_mset x dropped + after" "size (add_mset x dropped) = length (m # big)"
    "\<forall>y \<in># add_mset x dropped. \<exists>k \<in> set (m # big). k < length (snd (snd (fst y)))"
    using b assms(2) by auto
  then show ?thesis unfolding balanced_def using b(2,3) by blast
qed

text \<open>What waits is what has expired by \<open>now\<close> and what has not.\<close>

definition late_at :: "('q \<Rightarrow> queue_kind \<Rightarrow> queue_item multiset) \<Rightarrow> instant \<Rightarrow> 'q \<Rightarrow> queued_npdu multiset" where
  "late_at items now q = image_mset item_entry (filter_mset (item_expired now) (items q Unicast + items q Broadcast))"

lemma late_expired: "x \<in># late_at items now q \<Longrightarrow> expired (snd x) now"
  by (auto simp: late_at_def item_entry_def)

lemma waiting_splits:
  "waiting items q = late_at items now q
     + image_mset item_entry (filter_mset (\<lambda>it. \<not> item_expired now it) (items q Unicast + items q Broadcast))"
  unfolding waiting_def late_at_def by (metis image_mset_union multiset_partition)

lemma waiting_filter:
  assumes "\<And>k. items q' k = filter_mset (\<lambda>it. \<not> item_expired now it) (items q k)"
  shows "waiting items q = late_at items now q + waiting items q'"
  unfolding waiting_splits [of items q now] by (simp add: waiting_def assms)

lemma waiting_remove:
  assumes "\<And>k'. filter_mset (\<lambda>it. \<not> item_expired now it) (items q k') = (if k' = k then add_mset it (items q' k') else items q' k')"
  shows "waiting items q = late_at items now q + add_mset (item_entry it) (waiting items q')"
  unfolding waiting_splits [of items q now] by (cases k) (simp_all add: waiting_def assms)

context queue_storage
begin

lemma run_accounts:
  "inv q \<Longrightarrow> queue_run ops cs q = (acc, out, big, q') \<Longrightarrow> inv q' \<and> balanced cs (acc + waiting items q) out big (waiting items q')"
proof (induction cs arbitrary: q acc out big)
  case Nil
  then show ?case by (auto simp: balanced_def)
next
  case (Cons c cs)
  show ?case
  proof (cases c)
    case (CallEnqueue dst npdu pr now ex)
    obtain r q1 where e: "q_enqueue_npdu ops dst npdu pr now ex q = (r, q1)" by fastforce
    have times: "balanced (c # cs) = balanced cs" by (simp add: CallEnqueue balanced_def fun_eq_iff)
    show ?thesis
    proof (cases r)
      case (Inl err)
      with enqueue_refuses [OF Cons.prems(1)] e have "inv q1" "items q1 = items q" by auto
      with Cons.IH [of q1 acc out big] Cons.prems(2) CallEnqueue e Inl times show ?thesis by (simp add: waiting_def)
    next
      case (Inr u)
      from enqueue_accepts [OF Cons.prems(1)] e Inr obtain seq where q1: "inv q1" "\<And>k. items q1 k =
           (if k = from_destination dst
            then add_mset \<lparr>it_destination = dst, it_priority = pr, it_enqueued_at = now,
                   it_expires_at = ex, it_sequence = seq, it_npdu = npdu\<rparr> (items q k)
            else items q k)" by (metis (full_types) old.unit.exhaust)
      then have w: "waiting items q1 = add_mset ((dst, pr, npdu), ex) (waiting items q)"
        by (cases "from_destination dst") (simp_all add: waiting_def item_entry_def item_key_def)
      obtain acc1 where acc1: "queue_run ops cs q1 = (acc1, out, big, q')" "acc = add_mset ((dst, pr, npdu), ex) acc1"
        using Cons.prems(2) CallEnqueue e Inr by (auto split: prod.splits)
      show ?thesis using Cons.IH [OF q1(1) acc1(1)] w acc1(2) unfolding times by simp
    qed
  next
    case (CallExpire now)
    obtain r q1 where e: "q_expire ops now q = (r, q1)" by fastforce
    with expire_drops [OF Cons.prems(1)] have q1: "inv q1" "waiting items q = late_at items now q + waiting items q1"
      by (auto intro!: waiting_filter)
    have "inv q' \<and> balanced cs (acc + waiting items q1) out big (waiting items q')"
      using Cons.IH [OF q1(1)] Cons.prems(2) CallExpire e by simp
    then have "inv q'" "balanced (c # cs) (late_at items now q + (acc + waiting items q1)) out big (waiting items q')"
      by (auto intro!: balanced_grow [of cs] dest: late_expired simp: CallExpire)
    then show ?thesis by (simp add: q1(2) ac_simps)
  next
    case (CallDequeue k now max_len)
    obtain r q1 where d: "q_dequeue_kind ops k now max_len q = (r, q1)" by fastforce
    have grow: "balanced (c # cs) (late_at items now q + before) out' big' after" if "balanced cs before out' big' after" for before out' big' after
      using that by (auto intro!: balanced_grow [of cs] dest: late_expired simp: CallDequeue)
    consider (served) x where "r = Inr (Some x)" | (empty) "r = Inr None" | (over) e where "r = Inl e"
      by (metis option.exhaust sum.exhaust)
    then show ?thesis
    proof cases
      case served
      note sv = dequeue_serves [OF Cons.prems(1) d [unfolded served]]
      then obtain it where it: "it_destination it = dq_destination x" "it_npdu it = dq_npdu x" "it_priority it = dq_priority x"
          "\<forall>k'. filter_mset (\<lambda>it. \<not> item_expired now it) (items q k')
             = (if k' = k then add_mset it (items q1 k') else items q1 k')" by blast
      have key: "(dq_destination x, dq_priority x, dq_npdu x) = fst (item_entry it)"
        using it by (simp add: item_entry_def item_key_def)
      obtain out1 where out1: "queue_run ops cs q1 = (acc, out1, big, q')" "out = add_mset (fst (item_entry it)) out1"
        using Cons.prems(2) CallDequeue d served key by (auto split: prod.splits)
      have "inv q'" "balanced cs (add_mset (item_entry it) (acc + waiting items q1)) out big (waiting items q')"
        using Cons.IH [OF conjunct1 [OF sv] out1(1)] unfolding out1(2) by (auto intro: balanced_take)
      from this(1) grow [OF this(2)] show ?thesis unfolding waiting_remove [OF spec [OF it(4)]] by (simp add: ac_simps)
    next
      case empty
      from dequeue_empty [OF Cons.prems(1)] d empty have q1: "inv q1" "waiting items q = late_at items now q + waiting items q1"
        by (auto intro!: waiting_filter)
      have "inv q' \<and> balanced cs (acc + waiting items q1) out big (waiting items q')"
        using Cons.IH [OF q1(1)] Cons.prems(2) CallDequeue d empty by simp
      from conjunct1 [OF this] grow [OF conjunct2 [OF this]] show ?thesis unfolding q1(2) by (simp add: ac_simps)
    next
      case over
      from dequeue_oversize [OF Cons.prems(1)] d over obtain it where it: "inv q1" "max_len < length (it_npdu it)"
          "\<And>k'. filter_mset (\<lambda>it. \<not> item_expired now it) (items q k')
             = (if k' = k then add_mset it (items q1 k') else items q1 k')" by fast
      obtain big1 where big1: "queue_run ops cs q1 = (acc, out, big1, q')" "big = max_len # big1"
        using Cons.prems(2) CallDequeue d over by (auto split: prod.splits)
      have "inv q'" "balanced cs (add_mset (item_entry it) (acc + waiting items q1)) out big (waiting items q')"
        using Cons.IH [OF it(1) big1(1)] it(2) unfolding big1(2) by (auto intro!: balanced_drop simp: item_entry_def item_key_def)
      from this(1) grow [OF this(2)] show ?thesis unfolding waiting_remove [OF it(3)] by (simp add: ac_simps)
    qed
  qed
qed

end

section \<open>What the backends share\<close>

text \<open>
  A backend is a pair of lanes and a starvation limit. Expiry and dequeueing written over
  these alone; both backends' operations are instances.
\<close>

definition pair_expire :: "(queue_kind \<Rightarrow> 'q \<Rightarrow> lane) \<Rightarrow> (queue_kind \<Rightarrow> lane \<Rightarrow> 'q \<Rightarrow> 'q) \<Rightarrow> instant \<Rightarrow> 'q \<Rightarrow> 'q" where
  "pair_expire lane_of put now q =
     put Broadcast (snd (lane_expire now (lane_of Broadcast q))) (put Unicast (snd (lane_expire now (lane_of Unicast q))) q)"

definition pair_bump :: "(queue_kind \<Rightarrow> 'q \<Rightarrow> lane) \<Rightarrow> (queue_kind \<Rightarrow> lane \<Rightarrow> 'q \<Rightarrow> 'q) \<Rightarrow> 'q \<Rightarrow> 'q" where
  "pair_bump lane_of put q = put Broadcast (bump_waits (lane_of Broadcast q)) (put Unicast (bump_waits (lane_of Unicast q)) q)"

definition pair_count :: "(queue_kind \<Rightarrow> 'q \<Rightarrow> lane) \<Rightarrow> (queue_kind \<Rightarrow> lane \<Rightarrow> 'q \<Rightarrow> 'q)
    \<Rightarrow> (queue_counters \<Rightarrow> queue_counters) \<Rightarrow> queue_kind \<Rightarrow> 'q \<Rightarrow> 'q" where
  "pair_count lane_of put f k q = (let l = lane_of k q in put k (l\<lparr>ln_counters := f (ln_counters l)\<rparr>) q)"

definition pair_dequeue :: "(queue_kind \<Rightarrow> 'q \<Rightarrow> lane) \<Rightarrow> (queue_kind \<Rightarrow> lane \<Rightarrow> 'q \<Rightarrow> 'q) \<Rightarrow> ('q \<Rightarrow> octet)
    \<Rightarrow> queue_kind \<Rightarrow> instant \<Rightarrow> nat \<Rightarrow> 'q \<Rightarrow> (queue_refusal + dequeued_npdu option) \<times> 'q" where
  "pair_dequeue lane_of put limit k now max_len q =
     (let q = pair_expire lane_of put now q in
      case lane_select k now (limit q) None (lane_of k q) of
        None \<Rightarrow> (Inr None, q)
      | Some (_, index, info) \<Rightarrow>
          let q = put k (lane_remove index (lane_of k q)) q in
          if qi_len info > max_len then (Inl QueueOversize, pair_count lane_of put record_drop_oversize k q)
          else let q = pair_bump lane_of put q
            in (Inr (Some \<lparr>dq_destination = qi_destination info, dq_kind = k,
                  dq_priority = qi_priority info, dq_sequence = qi_sequence info,
                  dq_npdu = slot_payload (ln_slots (lane_of k q) ! index)\<rparr>), q))"

definition pair_inv :: "(queue_kind \<Rightarrow> 'q \<Rightarrow> lane) \<Rightarrow> nat \<Rightarrow> 'q \<Rightarrow> bool" where
  "pair_inv lane_of n q \<longleftrightarrow> n \<le> SLOT_LONGEST \<and> (\<forall>k. lane_wf n (lane_of k q))"

definition pair_items :: "(queue_kind \<Rightarrow> 'q \<Rightarrow> lane) \<Rightarrow> 'q \<Rightarrow> queue_kind \<Rightarrow> queue_item multiset" where
  "pair_items lane_of q k = lane_items (lane_of k q)"

locale lane_pair =
  fixes lane_of :: "queue_kind \<Rightarrow> 'q \<Rightarrow> lane" and put :: "queue_kind \<Rightarrow> lane \<Rightarrow> 'q \<Rightarrow> 'q"
    and limit :: "'q \<Rightarrow> octet"
  assumes ln_set: "lane_of k (put k' l q) = (if k = k' then l else lane_of k q)"
    and limit_set: "limit (put k l q) = limit q"
begin

lemma pair_count_keeps:
  "pair_inv lane_of n (pair_count lane_of put f k q) = pair_inv lane_of n q"
  "pair_items lane_of (pair_count lane_of put f k q) = pair_items lane_of q"
proof -
  have "lane_wf n (lane_of k' (pair_count lane_of put f k q)) = lane_wf n (lane_of k' q)"
       "lane_items (lane_of k' (pair_count lane_of put f k q)) = lane_items (lane_of k' q)" for k'
    by (simp_all add: pair_count_def Let_def ln_set)
  then show "pair_inv lane_of n (pair_count lane_of put f k q) = pair_inv lane_of n q"
    and "pair_items lane_of (pair_count lane_of put f k q) = pair_items lane_of q"
    by (simp_all add: pair_inv_def pair_items_def fun_eq_iff)
qed

lemma ln_expire: "lane_of k (pair_expire lane_of put now q) = snd (lane_expire now (lane_of k q))"
  by (cases k) (simp_all add: pair_expire_def ln_set)

lemma ln_bump: "lane_of k (pair_bump lane_of put q) = bump_waits (lane_of k q)"
  by (cases k) (simp_all add: pair_bump_def ln_set)

lemma pair_bump_keeps:
  "pair_inv lane_of n (pair_bump lane_of put q) = pair_inv lane_of n q"
  "pair_items lane_of (pair_bump lane_of put q) = pair_items lane_of q"
  by (simp_all add: pair_inv_def pair_items_def ln_bump fun_eq_iff)

lemma pair_expire_spec:
  assumes "pair_inv lane_of n q"
  shows "pair_inv lane_of n (pair_expire lane_of put now q)
       \<and> (\<forall>k. pair_items lane_of (pair_expire lane_of put now q) k
            = filter_mset (\<lambda>it. \<not> item_expired now it) (pair_items lane_of q k))"
proof -
  have "lane_wf n (lane_of k q)" for k using assms by (simp add: pair_inv_def)
  note ex = lane_expire_spec [OF this, of now]
  show ?thesis using assms ex by (simp add: pair_inv_def pair_items_def ln_expire)
qed

end

section \<open>Which NPDU is served next\<close>

text \<open>
  A waiting NPDU is starved once \<open>limit\<close> others have been served ahead of it. Sequence numbers
  wrap, so ages are counted from a base \<open>b\<close> that the live sequences follow by less than half the
  counter's range.
\<close>

definition seq_age :: "u64 \<Rightarrow> u64 \<Rightarrow> nat" where
  "seq_age b x = unat (x - b)"

definition serves_before :: "octet \<Rightarrow> u64 \<Rightarrow> queue_item_info \<Rightarrow> queue_item_info \<Rightarrow> bool" where
  "serves_before limit b x y \<longleftrightarrow>
     (if qi_service_wait x \<ge> limit
      then qi_service_wait y \<ge> limit \<longrightarrow> seq_age b (qi_sequence x) \<le> seq_age b (qi_sequence y)
      else qi_service_wait y < limit \<and> qi_priority y \<le> qi_priority x \<and>
        (qi_priority x = qi_priority y \<longrightarrow> seq_age b (qi_sequence x) \<le> seq_age b (qi_sequence y)))"

lemma u64_wrap_sub: "unat ((x :: u64) - y) = (if unat y \<le> unat x then unat x - unat y else unat x + 2 ^ 64 - unat y)"
  unfolding unat_sub_if_size word_size word_le_nat_alt by simp

lemma is_older_age:
  assumes "seq_age b x < 2 ^ 63" "seq_age b y < 2 ^ 63"
  shows "is_older x y \<longleftrightarrow> seq_age b x < seq_age b y"
proof -
  have half: "unat ((- 1 :: u64) div 2) = 2 ^ 63 - 1" by simp
  have d: "x - y = (x - b) - (y - b)" by simp
  have "is_older x y \<longleftrightarrow> x \<noteq> y \<and> 2 ^ 63 - 1 < unat (x - y)"
    unfolding is_older_def word_less_nat_alt half by simp
  also have "unat (x - y) = (if unat (y - b) \<le> unat (x - b) then unat (x - b) - unat (y - b)
      else unat (x - b) + 2 ^ 64 - unat (y - b))"
    unfolding d by (rule u64_wrap_sub)
  finally show ?thesis using assms unfolding seq_age_def by (auto split: if_splits)
qed

lemma serves_before_refl: "serves_before limit b x x"
  by (simp add: serves_before_def linorder_not_le)

lemma serves_before_trans:
  "serves_before limit b x y \<Longrightarrow> serves_before limit b y z \<Longrightarrow> serves_before limit b x z"
  unfolding serves_before_def by (auto split: if_splits simp: linorder_not_le)

lemma better_serves:
  assumes "seq_age b (qi_sequence x) < 2 ^ 63" "seq_age b (qi_sequence y) < 2 ^ 63"
  shows "better x (Some y) limit \<Longrightarrow> serves_before limit b x y"
    and "\<not> better x (Some y) limit \<Longrightarrow> serves_before limit b y x"
  by (cases "limit \<le> qi_service_wait x"; cases "limit \<le> qi_service_wait y";
      auto simp: better_def serves_before_def is_older_age [OF assms] linorder_not_le linorder_not_less
        split: if_splits)+

text \<open>The scan keeps, of what it has seen, one that is served before all the others.\<close>

lemma select_from_policy:
  "select_from kind now limit i ss best = Some (k, j, info) \<Longrightarrow>
   (\<forall>s \<in> set ss. live_at now s \<longrightarrow> seq_age b (sl_sequence s) < 2 ^ 63) \<Longrightarrow>
   (\<forall>x. best = Some x \<longrightarrow> seq_age b (qi_sequence (snd (snd x))) < 2 ^ 63) \<Longrightarrow>
     (\<forall>s \<in> set ss. live_at now s \<longrightarrow> serves_before limit b info (slot_info kind s))
   \<and> (\<forall>x. best = Some x \<longrightarrow> serves_before limit b info (snd (snd x)))"
proof (induction ss arbitrary: i best)
  case Nil
  then show ?case by (auto simp: serves_before_refl)
next
  case (Cons s ss)
  show ?case
  proof (cases "live_at now s")
    case False
    with Cons.prems Cons.IH [of "Suc i" best] show ?thesis by auto
  next
    case True
    define best' where "best' = (if better (slot_info kind s) (map_option (\<lambda>sel. snd (snd sel)) best) limit
      then Some (kind, i, slot_info kind s) else best)"
    have age: "seq_age b (qi_sequence (slot_info kind s)) < 2 ^ 63"
      using Cons.prems(2) True by (simp add: slot_info_def)
    have "select_from kind now limit (Suc i) ss best' = Some (k, j, info)"
      using Cons.prems(1) True by (simp add: best'_def Let_def)
    from Cons.IH [OF this] Cons.prems(2,3) age
    have ih: "\<forall>s \<in> set ss. live_at now s \<longrightarrow> serves_before limit b info (slot_info kind s)"
        "\<forall>x. best' = Some x \<longrightarrow> serves_before limit b info (snd (snd x))"
      by (auto simp: best'_def split: if_splits)
    have "serves_before limit b info (slot_info kind s)
        \<and> (\<forall>x. best = Some x \<longrightarrow> serves_before limit b info (snd (snd x)))"
    proof (cases best)
      case None
      then show ?thesis using ih(2) by (simp add: best'_def better_def)
    next
      case (Some y)
      with Cons.prems(3) have y: "seq_age b (qi_sequence (snd (snd y))) < 2 ^ 63" by simp
      show ?thesis
      proof (cases "better (slot_info kind s) (Some (snd (snd y))) limit")
        case True
        then have "serves_before limit b info (slot_info kind s)" using ih(2) Some by (simp add: best'_def)
        with better_serves(1) [OF age y True] Some show ?thesis by (auto intro: serves_before_trans)
      next
        case False
        then have "serves_before limit b info (snd (snd y))" using ih(2) Some by (simp add: best'_def)
        with better_serves(2) [OF age y False] Some show ?thesis by (auto intro: serves_before_trans)
      qed
    qed
    then show ?thesis using ih(1) by auto
  qed
qed

lemma expire_slot_live: "live_at now (expire_slot now s) \<longleftrightarrow> live_at now s"
  and expire_slot_same: "live_at now s \<Longrightarrow> expire_slot now s = s"
  by (auto simp: expire_slot_def)

lemma bump_waits_payload:
  "i < length (ln_slots l) \<Longrightarrow> slot_payload (ln_slots (bump_waits l) ! i) = slot_payload (ln_slots l ! i)"
  by (simp add: bump_waits_def)

lemma slot_payload_occupied [simp]: "slot_payload (s\<lparr>sl_occupied := b\<rparr>) = slot_payload s"
  by (simp add: slot_payload_def)

context lane_pair
begin

text \<open>The slot a dequeue takes, in terms of the lanes before expiry.\<close>

lemma pair_selected:
  assumes inv: "pair_inv lane_of n q"
    and sel: "lane_select k now lm None (lane_of k (pair_expire lane_of put now q)) = Some (k2, i, info)"
  defines "s \<equiv> ln_slots (lane_of k q) ! i"
  shows "i < length (ln_slots (lane_of k q)) \<and> live_at now s \<and> info = slot_info k s
       \<and> ln_slots (lane_of k (pair_expire lane_of put now q)) ! i = s"
proof -
  have wf: "lane_wf n (lane_of k q)" using inv by (simp add: pair_inv_def)
  have slots: "ln_slots (lane_of k (pair_expire lane_of put now q)) = map (expire_slot now) (ln_slots (lane_of k q))"
    using lane_expire_spec [OF wf, of now] by (simp add: ln_expire)
  from lane_select_sound [OF sel] slots
  have i: "i < length (ln_slots (lane_of k q))" "live_at now (expire_slot now s)"
      "info = slot_info k (expire_slot now s)" by (auto simp: s_def)
  then have "expire_slot now s = s" using expire_slot_live expire_slot_same by blast
  with i slots show ?thesis by (simp add: s_def)
qed

lemma pair_removed:
  assumes inv: "pair_inv lane_of n q"
    and sel: "lane_select k now lm None (lane_of k (pair_expire lane_of put now q)) = Some (k2, i, info)"
  defines "q1 \<equiv> pair_expire lane_of put now q" and "s \<equiv> ln_slots (lane_of k q) ! i"
  defines "q2 \<equiv> put k (lane_remove i (lane_of k q1)) q1"
  shows "pair_inv lane_of n q2 \<and> i < length (ln_slots (lane_of k q2)) \<and> ln_slots (lane_of k q2) ! i = s\<lparr>sl_occupied := False\<rparr>
       \<and> (\<forall>k'. filter_mset (\<lambda>it. \<not> item_expired now it) (pair_items lane_of q k')
            = (if k' = k then add_mset (slot_item s) (pair_items lane_of q2 k') else pair_items lane_of q2 k'))"
proof -
  note sd = pair_selected [OF inv sel, folded q1_def s_def]
  note ex = pair_expire_spec [OF inv, of now, folded q1_def]
  have len: "i < length (ln_slots (lane_of k q1))"
    using lane_select_sound [OF sel] by (simp add: q1_def)
  have "lane_wf n (lane_of k q1)" using ex by (simp add: pair_inv_def)
  note rm = lane_remove_items [OF this len]
  have "lane_of k' q2 = (if k' = k then lane_remove i (lane_of k q1) else lane_of k' q1)" for k'
    by (simp add: q2_def ln_set)
  with rm ex sd len show ?thesis by (auto simp: pair_inv_def pair_items_def)
qed

lemma pair_dequeue_served:
  assumes inv: "pair_inv lane_of n q" and dq: "pair_dequeue lane_of put limit k now max_len q = (Inr (Some d), q')"
    and window: "\<forall>s \<in> set (ln_slots (lane_of k q)). live_at now s \<longrightarrow> seq_age b (sl_sequence s) < 2 ^ 63"
  shows "\<exists>s \<in> set (ln_slots (lane_of k q)). live_at now s \<and> dq_kind d = k \<and> dq_destination d = sl_destination s
       \<and> dq_priority d = sl_priority s \<and> dq_sequence d = sl_sequence s \<and> dq_npdu d = slot_payload s
       \<and> (\<forall>t \<in> set (ln_slots (lane_of k q)). live_at now t \<longrightarrow>
            serves_before (limit q) b (slot_info k s) (slot_info k t))"
proof -
  let ?q1 = "pair_expire lane_of put now q"
  have lim: "limit ?q1 = limit q" by (simp add: pair_expire_def limit_set)
  from dq obtain k2 i info where sel: "lane_select k now (limit q) None (lane_of k ?q1) = Some (k2, i, info)"
    by (auto simp: pair_dequeue_def Let_def lim split: option.splits prod.splits if_splits)
  define s where "s = ln_slots (lane_of k q) ! i"
  note sd = pair_selected [OF inv sel, folded s_def] and rm = pair_removed [OF inv sel, folded s_def]
  have payload: "slot_payload (ln_slots (lane_of k (pair_bump lane_of put
      (put k (lane_remove i (lane_of k ?q1)) ?q1))) ! i) = slot_payload s"
    using rm by (simp add: ln_bump bump_waits_payload)
  from dq have d: "d = \<lparr>dq_destination = qi_destination info, dq_kind = k, dq_priority = qi_priority info,
      dq_sequence = qi_sequence info, dq_npdu = slot_payload s\<rparr>"
    by (simp add: pair_dequeue_def Let_def lim sel payload split: if_splits)
  have wf: "lane_wf n (lane_of k q)" using inv by (simp add: pair_inv_def)
  have slots: "ln_slots (lane_of k ?q1) = map (expire_slot now) (ln_slots (lane_of k q))"
    using lane_expire_spec [OF wf, of now] by (simp add: ln_expire)
  have "\<forall>t \<in> set (ln_slots (lane_of k ?q1)). live_at now t \<longrightarrow> seq_age b (sl_sequence t) < 2 ^ 63"
    using window by (auto simp: slots expire_slot_def)
  from select_from_policy [OF sel [unfolded lane_select_def] this]
  have "\<forall>t \<in> set (ln_slots (lane_of k q)). live_at now t \<longrightarrow> serves_before (limit q) b info (slot_info k t)"
    by (auto simp: slots expire_slot_same)
  moreover have "s \<in> set (ln_slots (lane_of k q))" using sd by (simp add: s_def)
  ultimately show ?thesis using sd by (intro bexI [of _ s]) (simp_all add: d, simp_all add: slot_info_def)
qed

lemma pair_dequeue_cases:
  assumes inv: "pair_inv lane_of n q" and dq: "pair_dequeue lane_of put limit k now max_len q = (r, q')"
  defines "live \<equiv> \<lambda>k'. filter_mset (\<lambda>it. \<not> item_expired now it) (pair_items lane_of q k')"
  shows "pair_inv lane_of n q' \<and>
    (case r of
       Inr None \<Rightarrow> live k = {#} \<and> (\<forall>k'. pair_items lane_of q' k' = live k')
     | Inr (Some d) \<Rightarrow> dq_kind d = k \<and> length (dq_npdu d) \<le> max_len \<and>
         (\<exists>it. \<not> item_expired now it \<and> it_destination it = dq_destination d \<and> it_npdu it = dq_npdu d
            \<and> it_priority it = dq_priority d \<and> it_sequence it = dq_sequence d
            \<and> (\<forall>k'. live k' = (if k' = k then add_mset it (pair_items lane_of q' k') else pair_items lane_of q' k')))
     | Inl e \<Rightarrow> (\<exists>it. max_len < length (it_npdu it) \<and>
            (\<forall>k'. live k' = (if k' = k then add_mset it (pair_items lane_of q' k') else pair_items lane_of q' k'))))"
proof (cases "lane_select k now (limit (pair_expire lane_of put now q)) None (lane_of k (pair_expire lane_of put now q))")
  case None
  then have "\<forall>it \<in># live k. item_expired now it"
    using pair_expire_spec [OF inv, of now] by (simp add: lane_select_None live_def pair_items_def)
  then have "live k = {#}" by (auto simp: live_def filter_mset_eq_conv)
  with None dq pair_expire_spec [OF inv, of now] show ?thesis
    by (auto simp: pair_dequeue_def Let_def live_def)
next
  case (Some sel)
  obtain k2 i info where sel: "lane_select k now (limit (pair_expire lane_of put now q)) None
      (lane_of k (pair_expire lane_of put now q)) = Some (k2, i, info)" using Some by (cases sel) auto
  define q2 where "q2 = put k (lane_remove i (lane_of k (pair_expire lane_of put now q))) (pair_expire lane_of put now q)"
  define s where "s = ln_slots (lane_of k q) ! i"
  note sd = pair_selected [OF inv sel, folded s_def] and rm = pair_removed [OF inv sel, folded s_def q2_def]
  have "slot_wf n s" using inv sd nth_mem unfolding pair_inv_def lane_wf_def s_def by blast
  then have len: "length (slot_payload s) = qi_len info"
    using sd by (simp add: slot_payload_def slot_info_def slot_wf_def)
  have payload: "slot_payload (ln_slots (lane_of k (pair_bump lane_of put q2)) ! i) = slot_payload s"
    using rm by (simp add: ln_bump bump_waits_payload)
  have live: "\<forall>k'. live k' = (if k' = k then add_mset (slot_item s) (pair_items lane_of q2 k') else pair_items lane_of q2 k')"
    using rm by (simp add: live_def)
  have item: "it_npdu (slot_item s) = slot_payload s" "it_destination (slot_item s) = qi_destination info"
      "it_priority (slot_item s) = qi_priority info" "it_sequence (slot_item s) = qi_sequence info"
      "\<not> item_expired now (slot_item s)"
    using sd by (simp_all add: slot_item_def slot_info_def)
  show ?thesis
  proof (cases "qi_len info > max_len")
    case True
    then have "r = Inl QueueOversize" "q' = pair_count lane_of put record_drop_oversize k q2"
      using dq sel by (simp_all add: pair_dequeue_def q2_def Let_def)
    with rm live len item True show ?thesis by (auto simp: pair_count_keeps intro!: exI [of _ "slot_item s"])
  next
    case False
    then have "r = Inr (Some \<lparr>dq_destination = qi_destination info, dq_kind = k, dq_priority = qi_priority info,
        dq_sequence = qi_sequence info, dq_npdu = slot_payload s\<rparr>)" "q' = pair_bump lane_of put q2"
      using dq sel payload by (simp_all add: pair_dequeue_def q2_def [symmetric] Let_def)
    with rm live len item False show ?thesis
      by (auto simp: pair_bump_keeps intro!: exI [of _ "slot_item s"])
  qed
qed

end

section \<open>The fixed-capacity queues keep the contract\<close>

interpretation fixed_lanes: lane_pair fixed_lane fixed_set_lane fixed_limit
proof
  show "fixed_lane k (fixed_set_lane k' l q) = (if k = k' then l else fixed_lane k q)" for k k' l q
    by (cases k; cases k'; simp add: fixed_lane_def fixed_set_lane_def)
  show "fixed_limit (fixed_set_lane k l q) = fixed_limit q" for k l q
    by (cases k; simp add: fixed_limit_def fixed_set_lane_def)
qed

abbreviation fixed_inv :: "nat \<Rightarrow> fixed_queues \<Rightarrow> bool" where
  "fixed_inv \<equiv> pair_inv fixed_lane"

abbreviation fixed_items :: "fixed_queues \<Rightarrow> queue_kind \<Rightarrow> queue_item multiset" where
  "fixed_items \<equiv> pair_items fixed_lane"

lemma fixed_lane_other [simp]:
  "fixed_lane k (q\<lparr>fq_sequence := s\<rparr>) = fixed_lane k q"
  "fixed_lane k (q\<lparr>fq_starvation_limit := x\<rparr>) = fixed_lane k q"
  by (cases k; simp add: fixed_lane_def)+

lemma fixed_expire_pair: "snd (fixed_expire now q) = pair_expire fixed_lane fixed_set_lane now q"
  by (simp add: fixed_expire_def pair_expire_def fixed_lane_def fixed_set_lane_def case_prod_unfold Let_def)

lemma fixed_count_pair: "fixed_count = pair_count fixed_lane fixed_set_lane"
  by (simp add: fun_eq_iff fixed_count_def pair_count_def)

lemma fixed_dequeue_pair:
  "fixed_dequeue_kind k now max_len q = pair_dequeue fixed_lane fixed_set_lane fixed_limit k now max_len q"
proof -
  have bump: "q\<lparr>fq_unicast := bump_waits (fq_unicast q), fq_broadcast := bump_waits (fq_broadcast q)\<rparr>
      = pair_bump fixed_lane fixed_set_lane q" for q
    by (simp add: pair_bump_def fixed_lane_def fixed_set_lane_def)
  show ?thesis
    by (simp add: fixed_dequeue_kind_def pair_dequeue_def fixed_expire_pair fixed_select_kind_def
        fixed_count_pair bump Let_def split: option.split prod.split)
qed

lemma fixed_enqueue_accepted:
  assumes inv: "fixed_inv n q" and enq: "fixed_enqueue_npdu n dst npdu pr now ex q = (Inr (), q')"
  shows "fixed_inv n q' \<and> \<not> expired ex now \<and> (\<exists>seq. \<forall>k. fixed_items q' k =
         (if k = from_destination dst
          then add_mset \<lparr>it_destination = dst, it_priority = pr, it_enqueued_at = now, it_expires_at = ex,
                 it_sequence = seq, it_npdu = npdu\<rparr> (fixed_items q k)
          else fixed_items q k))"
proof -
  let ?k = "from_destination dst"
  let ?l = "fixed_lane ?k q"
  from enq obtain i where ok: "length npdu \<le> n" "\<not> expired ex now" "first_free (ln_slots ?l) = Some i"
    and q': "q' = fixed_set_lane ?k (lane_record_enqueue (?l\<lparr>ln_slots := (ln_slots ?l)[i :=
        slot_fill dst npdu pr now ex (fq_sequence q) (ln_slots ?l ! i)]\<rparr>)) (q\<lparr>fq_sequence := fq_sequence q + 1\<rparr>)"
    by (auto simp: fixed_enqueue_npdu_def Let_def split: if_splits option.splits)
  have wf: "lane_wf n ?l" "n \<le> SLOT_LONGEST" using inv by (simp_all add: pair_inv_def)
  from first_free_Some [OF ok(3)] have i: "i < length (ln_slots ?l)" "is_free (ln_slots ?l ! i)" by auto
  note fill = lane_fill_items [OF wf(1) i ok(1) wf(2), of dst pr now ex "fq_sequence q", unfolded Let_def]
  then show ?thesis using inv ok(2)
    by (auto simp: q' pair_inv_def pair_items_def fixed_lanes.ln_set intro!: exI [of _ "fq_sequence q"])
qed

lemma fixed_enqueue_refused:
  assumes "fixed_inv n q" "fixed_enqueue_npdu n dst npdu pr now ex q = (Inl e, q')"
  shows "fixed_inv n q' \<and> fixed_items q' = fixed_items q"
proof -
  have "fixed_inv n (q\<lparr>fq_sequence := s\<rparr>) = fixed_inv n q" "fixed_items (q\<lparr>fq_sequence := s\<rparr>) = fixed_items q" for s
    by (simp_all add: pair_inv_def pair_items_def fun_eq_iff)
  then show ?thesis using assms
    by (auto simp: fixed_enqueue_npdu_def Let_def fixed_count_pair fixed_lanes.pair_count_keeps
        split: if_splits option.splits)
qed

interpretation fixed_storage: queue_storage "fixed_ops n" "fixed_inv n" fixed_items for n
proof (unfold_locales, unfold fixed_ops_def queue_ops.simps)
  fix q q' :: fixed_queues and dst npdu pr now ex k max_len d e r l c
  assume inv: "fixed_inv n q"
  show "fixed_inv n q' \<and> \<not> expired ex now \<and> (\<exists>seq. \<forall>k. fixed_items q' k =
         (if k = from_destination dst
          then add_mset \<lparr>it_destination = dst, it_priority = pr, it_enqueued_at = now, it_expires_at = ex,
                 it_sequence = seq, it_npdu = npdu\<rparr> (fixed_items q k)
          else fixed_items q k))"
    if "fixed_enqueue_npdu n dst npdu pr now ex q = (Inr (), q')"
    using fixed_enqueue_accepted [OF inv that] .
  show "fixed_inv n q' \<and> fixed_items q' = fixed_items q"
    if "fixed_enqueue_npdu n dst npdu pr now ex q = (Inl e, q')"
    using fixed_enqueue_refused [OF inv that] .
  show "fixed_inv n q' \<and> (\<forall>k. fixed_items q' k = filter_mset (\<lambda>it. \<not> item_expired now it) (fixed_items q k))"
    if "fixed_expire now q = (r, q')"
    using fixed_lanes.pair_expire_spec [OF inv, of now, folded fixed_expire_pair] that by simp
  show "(fixed_peek_kind k now q = None) = (\<forall>it \<in># fixed_items q k. item_expired now it)"
    by (simp add: fixed_peek_kind_def fixed_select_kind_def lane_select_None pair_items_def)
  note dq = fixed_lanes.pair_dequeue_cases [OF inv, folded fixed_dequeue_pair]
  show "fixed_inv n q' \<and> dq_kind d = k \<and> length (dq_npdu d) \<le> max_len
         \<and> (\<exists>it. \<not> item_expired now it \<and> it_destination it = dq_destination d \<and> it_npdu it = dq_npdu d
              \<and> it_priority it = dq_priority d \<and> it_sequence it = dq_sequence d
              \<and> (\<forall>k'. filter_mset (\<lambda>it. \<not> item_expired now it) (fixed_items q k')
                    = (if k' = k then add_mset it (fixed_items q' k') else fixed_items q' k')))"
    if "fixed_dequeue_kind k now max_len q = (Inr (Some d), q')"
    using dq [OF that] by simp
  show "fixed_inv n q' \<and> fixed_items q' k = {#}
         \<and> (\<forall>k'. fixed_items q' k' = filter_mset (\<lambda>it. \<not> item_expired now it) (fixed_items q k'))"
    if "fixed_dequeue_kind k now max_len q = (Inr None, q')"
    using dq [OF that] by simp
  show "fixed_inv n q' \<and> (\<exists>it. max_len < length (it_npdu it) \<and>
           (\<forall>k'. filter_mset (\<lambda>it. \<not> item_expired now it) (fixed_items q k')
              = (if k' = k then add_mset it (fixed_items q' k') else fixed_items q' k')))"
    if "fixed_dequeue_kind k now max_len q = (Inl e, q')"
    using dq [OF that] by simp
  show "fixed_depth k q = size (fixed_items q k)"
    using inv by (auto simp: fixed_depth_def pair_items_def pair_inv_def lane_wf_def)
  show "fixed_inv n (fixed_set_starvation_limit l q) \<and> fixed_items (fixed_set_starvation_limit l q) = fixed_items q"
    using inv by (auto simp: fixed_set_starvation_limit_def pair_inv_def pair_items_def fun_eq_iff)
  show "fixed_inv n q' \<and> fixed_items q' = fixed_items q" if "fixed_take_counters k q = (c, q')"
    using that inv by (auto simp: fixed_take_counters_def fixed_count_pair fixed_lanes.pair_count_keeps)
qed

section \<open>The allocated queues keep the contract\<close>

interpretation alloc_lanes: lane_pair alloc_lane alloc_set_lane aq_starvation_limit
proof
  show "alloc_lane k (alloc_set_lane k' l q) = (if k = k' then l else alloc_lane k q)" for k k' l q
    by (cases k; cases k'; simp add: alloc_lane_def alloc_set_lane_def)
  show "aq_starvation_limit (alloc_set_lane k l q) = aq_starvation_limit q" for k l q
    by (cases k; simp add: alloc_set_lane_def)
qed

definition alloc_capacity :: "queue_kind \<Rightarrow> alloc_queues \<Rightarrow> nat" where
  "alloc_capacity k q = (case k of Unicast \<Rightarrow> aq_unicast_capacity q | Broadcast \<Rightarrow> aq_broadcast_capacity q)"

abbreviation alloc_items :: "alloc_queues \<Rightarrow> queue_kind \<Rightarrow> queue_item multiset" where
  "alloc_items \<equiv> pair_items alloc_lane"

text \<open>The capacities stay as configured, and no lane grows past its own.\<close>

definition alloc_inv :: "nat \<Rightarrow> (queue_kind \<Rightarrow> nat) \<Rightarrow> alloc_queues \<Rightarrow> bool" where
  "alloc_inv n cap q \<longleftrightarrow> pair_inv alloc_lane n q \<and> (\<forall>k. alloc_capacity k q = cap k \<and> size (alloc_items q k) \<le> cap k)"

lemma alloc_capacity_simps [simp]:
  "alloc_capacity k (alloc_set_lane k' l q) = alloc_capacity k q"
  "alloc_capacity k (q\<lparr>aq_sequence := s\<rparr>) = alloc_capacity k q"
  "alloc_capacity k (q\<lparr>aq_starvation_limit := x\<rparr>) = alloc_capacity k q"
  by (cases k; cases k'; simp add: alloc_capacity_def alloc_set_lane_def)+

lemma alloc_lane_other [simp]:
  "alloc_lane k (q\<lparr>aq_sequence := s\<rparr>) = alloc_lane k q"
  "alloc_lane k (q\<lparr>aq_starvation_limit := x\<rparr>) = alloc_lane k q"
  by (cases k; simp add: alloc_lane_def)+

lemma alloc_expire_pair: "snd (alloc_expire now q) = pair_expire alloc_lane alloc_set_lane now q"
  by (simp add: alloc_expire_def pair_expire_def alloc_lane_def alloc_set_lane_def case_prod_unfold Let_def)

lemma alloc_count_pair: "alloc_count = pair_count alloc_lane alloc_set_lane"
  by (simp add: fun_eq_iff alloc_count_def pair_count_def)

lemma alloc_dequeue_pair:
  "alloc_dequeue_kind k now max_len q = pair_dequeue alloc_lane alloc_set_lane aq_starvation_limit k now max_len q"
proof -
  have bump: "q\<lparr>aq_unicast := bump_waits (aq_unicast q), aq_broadcast := bump_waits (aq_broadcast q)\<rparr>
      = pair_bump alloc_lane alloc_set_lane q" for q
    by (simp add: pair_bump_def alloc_lane_def alloc_set_lane_def)
  show ?thesis
    by (simp add: alloc_dequeue_kind_def pair_dequeue_def alloc_expire_pair alloc_select_kind_def
        alloc_count_pair bump Let_def split: option.split prod.split)
qed

lemma alloc_capacity_pair [simp]:
  "alloc_capacity k' (pair_count alloc_lane alloc_set_lane f k q) = alloc_capacity k' q"
  "alloc_capacity k' (pair_expire alloc_lane alloc_set_lane now q) = alloc_capacity k' q"
  "alloc_capacity k' (pair_bump alloc_lane alloc_set_lane q) = alloc_capacity k' q"
  "alloc_capacity k' (snd (pair_dequeue alloc_lane alloc_set_lane aq_starvation_limit k now max_len q))
     = alloc_capacity k' q"
  by (simp_all add: pair_count_def pair_expire_def pair_bump_def pair_dequeue_def Let_def
      split: option.split prod.split)

lemma alloc_inv_shrinks:
  assumes "alloc_inv n cap q" "pair_inv alloc_lane n q'" "\<And>k. alloc_capacity k q' = alloc_capacity k q"
    "\<And>k. alloc_items q' k \<subseteq># alloc_items q k"
  shows "alloc_inv n cap q'"
  using assms size_mset_mono order_trans unfolding alloc_inv_def by metis

lemma alloc_enqueue_accepted:
  assumes inv: "alloc_inv n cap q" and enq: "alloc_enqueue_npdu n dst npdu pr now ex q = (Inr (), q')"
  shows "alloc_inv n cap q' \<and> \<not> expired ex now \<and> (\<exists>seq. \<forall>k. alloc_items q' k =
         (if k = from_destination dst
          then add_mset \<lparr>it_destination = dst, it_priority = pr, it_enqueued_at = now, it_expires_at = ex,
                 it_sequence = seq, it_npdu = npdu\<rparr> (alloc_items q k)
          else alloc_items q k))"
proof -
  let ?k = "from_destination dst"
  let ?l = "alloc_lane ?k q"
  obtain i l0 where il: "(case first_free (ln_slots ?l) of Some i \<Rightarrow> (i, ln_slots ?l)
      | None \<Rightarrow> (length (ln_slots ?l), ln_slots ?l @ [SLOT_EMPTY n])) = (i, ln_slots l0)"
      "l0 = ?l\<lparr>ln_slots := ln_slots l0\<rparr>"
    by (cases "first_free (ln_slots ?l)")
       (metis (no_types, lifting) lane.select_convs(1) lane.surjective lane.update_convs(1) option.simps(4,5))+
  have wf: "lane_wf n ?l" "n \<le> SLOT_LONGEST" using inv by (simp_all add: alloc_inv_def pair_inv_def)
  have l0: "lane_wf n l0" "lane_items l0 = lane_items ?l" "i < length (ln_slots l0)" "is_free (ln_slots l0 ! i)"
  proof -
    have "lane_wf n l0 \<and> lane_items l0 = lane_items ?l \<and> i < length (ln_slots l0) \<and> is_free (ln_slots l0 ! i)"
    proof (cases "first_free (ln_slots ?l)")
      case None
      then have "ln_slots l0 = ln_slots ?l @ [SLOT_EMPTY n]" "i = length (ln_slots ?l)" using il(1) by auto
      with lane_grow_wf [OF wf(1)] il(2) show ?thesis by (simp add: is_free_def SLOT_EMPTY_def)
    next
      case (Some j)
      then have "ln_slots l0 = ln_slots ?l" "i = j" using il(1) by auto
      with first_free_Some [OF Some] il(2) wf(1) show ?thesis by simp
    qed
    then show "lane_wf n l0" "lane_items l0 = lane_items ?l" "i < length (ln_slots l0)" "is_free (ln_slots l0 ! i)"
      by auto
  qed
  have ok: "length npdu \<le> n" "\<not> expired ex now" "ln_depth ?l < alloc_capacity ?k q"
    using enq by (auto simp: alloc_enqueue_npdu_def alloc_capacity_def Let_def split: if_splits)
  have "q' = (alloc_set_lane ?k (lane_record_enqueue (?l\<lparr>ln_slots := (ln_slots l0)[i := slot_fill dst npdu pr now ex
      (aq_sequence q) (ln_slots l0 ! i)]\<rparr>)) q)\<lparr>aq_sequence := aq_sequence q + 1\<rparr>"
    using enq unfolding alloc_enqueue_npdu_def Let_def il(1) by (auto split: if_splits)
  moreover have "?l\<lparr>ln_slots := x\<rparr> = l0\<lparr>ln_slots := x\<rparr>" for x by (subst il(2)) simp
  ultimately have q': "q' = (alloc_set_lane ?k (lane_record_enqueue (l0\<lparr>ln_slots := (ln_slots l0)[i := slot_fill dst npdu pr
      now ex (aq_sequence q) (ln_slots l0 ! i)]\<rparr>)) q)\<lparr>aq_sequence := aq_sequence q + 1\<rparr>" by simp
  note fill = lane_fill_items [OF l0(1,3,4) ok(1) wf(2), of dst pr now ex "aq_sequence q", unfolded Let_def l0(2)]
  have items: "\<forall>k. alloc_items q' k =
         (if k = ?k
          then add_mset \<lparr>it_destination = dst, it_priority = pr, it_enqueued_at = now, it_expires_at = ex,
                 it_sequence = aq_sequence q, it_npdu = npdu\<rparr> (alloc_items q k)
          else alloc_items q k)"
    using fill by (simp add: q' pair_items_def alloc_lanes.ln_set)
  have "size (alloc_items q ?k) < alloc_capacity ?k q"
    using ok(3) wf(1) by (simp add: lane_wf_def pair_items_def)
  then have "\<forall>k. alloc_capacity k q' = cap k \<and> size (alloc_items q' k) \<le> cap k"
    using inv items by (auto simp: q' alloc_inv_def)
  moreover have "pair_inv alloc_lane n q'" using inv fill
    by (simp add: q' alloc_inv_def pair_inv_def alloc_lanes.ln_set)
  ultimately show ?thesis using items ok(2) by (auto simp: alloc_inv_def)
qed

lemma alloc_enqueue_refused:
  assumes "alloc_inv n cap q" "alloc_enqueue_npdu n dst npdu pr now ex q = (Inl e, q')"
  shows "alloc_inv n cap q' \<and> alloc_items q' = alloc_items q"
proof -
  from assms(2) obtain f k where "q' = pair_count alloc_lane alloc_set_lane f k q"
    by (auto simp: alloc_enqueue_npdu_def Let_def alloc_count_pair split: if_splits prod.splits)
  with assms(1) show ?thesis by (simp add: alloc_inv_def alloc_lanes.pair_count_keeps)
qed

lemma alloc_dequeue_inv:
  assumes inv: "alloc_inv n cap q" and dq: "alloc_dequeue_kind k now max_len q = (r, q')"
  shows "alloc_inv n cap q'"
proof (rule alloc_inv_shrinks [OF inv])
  note cases = alloc_lanes.pair_dequeue_cases [OF conjunct1 [OF inv [unfolded alloc_inv_def]]
      dq [unfolded alloc_dequeue_pair]]
  then show "pair_inv alloc_lane n q'" by blast
  show "alloc_capacity k' q' = alloc_capacity k' q" for k'
    by (metis alloc_capacity_pair(4) alloc_dequeue_pair dq snd_conv)
  have "alloc_items q' k' \<subseteq># filter_mset (\<lambda>it. \<not> item_expired now it) (alloc_items q k')" for k'
    using cases by (cases r) (auto split: option.splits)
  then show "alloc_items q' k' \<subseteq># alloc_items q k'" for k'
    using multiset_filter_subset subset_mset.order_trans by blast
qed

interpretation alloc_storage: queue_storage "alloc_ops n" "alloc_inv n cap" alloc_items for n cap
proof (unfold_locales, unfold alloc_ops_def queue_ops.simps)
  fix q q' :: alloc_queues and dst npdu pr now ex k max_len d e r l c
  assume inv: "alloc_inv n cap q"
  then have pinv: "pair_inv alloc_lane n q" by (simp add: alloc_inv_def)
  show "alloc_inv n cap q' \<and> \<not> expired ex now \<and> (\<exists>seq. \<forall>k. alloc_items q' k =
         (if k = from_destination dst
          then add_mset \<lparr>it_destination = dst, it_priority = pr, it_enqueued_at = now, it_expires_at = ex,
                 it_sequence = seq, it_npdu = npdu\<rparr> (alloc_items q k)
          else alloc_items q k))"
    if "alloc_enqueue_npdu n dst npdu pr now ex q = (Inr (), q')"
    using alloc_enqueue_accepted [OF inv that] .
  show "alloc_inv n cap q' \<and> alloc_items q' = alloc_items q"
    if "alloc_enqueue_npdu n dst npdu pr now ex q = (Inl e, q')"
    using alloc_enqueue_refused [OF inv that] .
  show "alloc_inv n cap q' \<and> (\<forall>k. alloc_items q' k = filter_mset (\<lambda>it. \<not> item_expired now it) (alloc_items q k))"
    if "alloc_expire now q = (r, q')"
    using alloc_lanes.pair_expire_spec [OF pinv, of now] alloc_expire_pair [of now q] that
    by (auto intro!: alloc_inv_shrinks [OF inv])
  show "(map_option (\<lambda>sel. snd (snd sel)) (alloc_select_kind k now q) = None)
      = (\<forall>it \<in># alloc_items q k. item_expired now it)"
    by (simp add: alloc_select_kind_def lane_select_None pair_items_def)
  note dq = alloc_lanes.pair_dequeue_cases [OF pinv, folded alloc_dequeue_pair]
  show "alloc_inv n cap q' \<and> dq_kind d = k \<and> length (dq_npdu d) \<le> max_len
         \<and> (\<exists>it. \<not> item_expired now it \<and> it_destination it = dq_destination d \<and> it_npdu it = dq_npdu d
              \<and> it_priority it = dq_priority d \<and> it_sequence it = dq_sequence d
              \<and> (\<forall>k'. filter_mset (\<lambda>it. \<not> item_expired now it) (alloc_items q k')
                    = (if k' = k then add_mset it (alloc_items q' k') else alloc_items q' k')))"
    if "alloc_dequeue_kind k now max_len q = (Inr (Some d), q')"
    using dq [OF that] alloc_dequeue_inv [OF inv that] by simp
  show "alloc_inv n cap q' \<and> alloc_items q' k = {#}
         \<and> (\<forall>k'. alloc_items q' k' = filter_mset (\<lambda>it. \<not> item_expired now it) (alloc_items q k'))"
    if "alloc_dequeue_kind k now max_len q = (Inr None, q')"
    using dq [OF that] alloc_dequeue_inv [OF inv that] by simp
  show "alloc_inv n cap q' \<and> (\<exists>it. max_len < length (it_npdu it) \<and>
           (\<forall>k'. filter_mset (\<lambda>it. \<not> item_expired now it) (alloc_items q k')
              = (if k' = k then add_mset it (alloc_items q' k') else alloc_items q' k')))"
    if "alloc_dequeue_kind k now max_len q = (Inl e, q')"
    using dq [OF that] alloc_dequeue_inv [OF inv that] by simp
  show "ln_depth (alloc_lane k q) = size (alloc_items q k)"
    using pinv by (auto simp: pair_items_def pair_inv_def lane_wf_def)
  show "alloc_inv n cap (q\<lparr>aq_starvation_limit := l\<rparr>) \<and> alloc_items (q\<lparr>aq_starvation_limit := l\<rparr>) = alloc_items q"
    using inv by (auto simp: alloc_inv_def pair_inv_def pair_items_def fun_eq_iff)
  show "alloc_inv n cap q' \<and> alloc_items q' = alloc_items q"
    if "(fst (take_queue_counters (ln_counters (alloc_lane k q))),
        alloc_count (snd \<circ> take_queue_counters) k q) = (c, q')"
    using that inv by (auto simp: alloc_inv_def alloc_count_pair alloc_lanes.pair_count_keeps)
qed

section \<open>The queues from their first call on\<close>

lemma lane_new_wf: "lane_wf n (lane_new (replicate m (SLOT_EMPTY n)) c)"
  and lane_new_items: "lane_items (lane_new (replicate m (SLOT_EMPTY n)) c) = {#}"
proof -
  have "slots_items (replicate m (SLOT_EMPTY n)) = {#}"
    by (induction m) (simp_all add: slots_items_Cons is_free_def SLOT_EMPTY_def)
  then show "lane_wf n (lane_new (replicate m (SLOT_EMPTY n)) c)"
    and "lane_items (lane_new (replicate m (SLOT_EMPTY n)) c) = {#}"
    by (simp_all add: lane_wf_def lane_items_def lane_new_def) (simp add: slot_wf_def SLOT_EMPTY_def)
qed

lemma fixed_new_inv: "n \<le> SLOT_LONGEST \<Longrightarrow> fixed_inv n (fixed_new u b n) \<and> (\<forall>k. fixed_items (fixed_new u b n) k = {#})"
  unfolding pair_inv_def pair_items_def
  by (auto simp: fixed_new_def fixed_lane_def lane_new_wf lane_new_items split: queue_kind.split)

lemma alloc_new_inv: "n \<le> SLOT_LONGEST \<Longrightarrow> alloc_inv n (case_queue_kind u b) (alloc_new u b) \<and> (\<forall>k. alloc_items (alloc_new u b) k = {#})"
  unfolding alloc_inv_def pair_inv_def pair_items_def using lane_new_wf [of n 0] lane_new_items [of 0 n]
  by (auto simp: alloc_new_def alloc_lane_def alloc_capacity_def split: queue_kind.split)

text \<open>
  C6: The queues lose nothing silently. From empty queues of either backend, whatever the calls
  and their times, the accepted NPDUs are exactly the sum of four: those handed out, with the
  destination, priority and octets they came with; those whose deadline had passed at the time of
  an expiry or dequeue call of the run; those dropped as oversize, one for each dequeue that was
  answered with that error and each longer than such a dequeue's limit; and those still waiting.
  The sum counts multiplicity, so none is made up, altered or handed out twice. The allocated
  queues never hold more than their capacity.
\<close>

theorem queues_account:
  assumes "n \<le> SLOT_LONGEST"
  shows "(case queue_run (fixed_ops n) cs (fixed_new u b n) of (acc, out, big, q) \<Rightarrow>
           \<exists>taken late dropped. acc = taken + late + dropped + waiting fixed_items q \<and> image_mset fst taken = out
             \<and> (\<forall>x \<in># late. \<exists>t \<in> call_times cs. expired (snd x) t)
             \<and> size dropped = length big \<and> (\<forall>x \<in># dropped. \<exists>m \<in> set big. m < length (snd (snd (fst x)))))
       \<and> (case queue_run (alloc_ops n) cs (alloc_new u b) of (acc, out, big, q) \<Rightarrow>
           (\<exists>taken late dropped. acc = taken + late + dropped + waiting alloc_items q \<and> image_mset fst taken = out
             \<and> (\<forall>x \<in># late. \<exists>t \<in> call_times cs. expired (snd x) t)
             \<and> size dropped = length big \<and> (\<forall>x \<in># dropped. \<exists>m \<in> set big. m < length (snd (snd (fst x)))))
           \<and> ln_depth (aq_unicast q) \<le> u \<and> ln_depth (aq_broadcast q) \<le> b)"
proof
  obtain acc out big q where r: "queue_run (fixed_ops n) cs (fixed_new u b n) = (acc, out, big, q)" by (metis surj_pair)
  have "waiting fixed_items (fixed_new u b n) = {#}" using fixed_new_inv [OF assms] by (simp add: waiting_def)
  with fixed_storage.run_accounts [OF conjunct1 [OF fixed_new_inv [OF assms]] r]
  show "case queue_run (fixed_ops n) cs (fixed_new u b n) of (acc, out, big, q) \<Rightarrow>
      \<exists>taken late dropped. acc = taken + late + dropped + waiting fixed_items q \<and> image_mset fst taken = out
        \<and> (\<forall>x \<in># late. \<exists>t \<in> call_times cs. expired (snd x) t)
        \<and> size dropped = length big \<and> (\<forall>x \<in># dropped. \<exists>m \<in> set big. m < length (snd (snd (fst x))))"
    by (simp add: r balanced_def)
next
  obtain acc out big q where r: "queue_run (alloc_ops n) cs (alloc_new u b) = (acc, out, big, q)" by (metis surj_pair)
  note ac = alloc_storage.run_accounts [OF conjunct1 [OF alloc_new_inv [OF assms]] r]
  then have "\<forall>k. ln_depth (alloc_lane k q) \<le> case_queue_kind u b k"
    by (auto simp: alloc_inv_def pair_inv_def lane_wf_def pair_items_def)
  then have depth: "ln_depth (aq_unicast q) \<le> u \<and> ln_depth (aq_broadcast q) \<le> b"
    by (metis alloc_lane_def queue_kind.simps(3,4))
  have "waiting alloc_items (alloc_new u b) = {#}" using alloc_new_inv [OF assms] by (simp add: waiting_def)
  with ac depth show "case queue_run (alloc_ops n) cs (alloc_new u b) of (acc, out, big, q) \<Rightarrow>
      (\<exists>taken late dropped. acc = taken + late + dropped + waiting alloc_items q \<and> image_mset fst taken = out
        \<and> (\<forall>x \<in># late. \<exists>t \<in> call_times cs. expired (snd x) t)
        \<and> size dropped = length big \<and> (\<forall>x \<in># dropped. \<exists>m \<in> set big. m < length (snd (snd (fst x)))))
      \<and> ln_depth (aq_unicast q) \<le> u \<and> ln_depth (aq_broadcast q) \<le> b"
    by (simp add: r balanced_def)
qed

lemmas fixed_eval = fixed_dequeue_kind_def fixed_enqueue_npdu_def fixed_new_def lane_new_def fixed_lane_def
  fixed_set_lane_def fixed_expire_def fixed_select_kind_def lane_select_def lane_expire_def lane_expire_at_def
  lane_remove_def lane_record_enqueue_def slot_info_def slot_fill_def SLOT_EMPTY_def is_free_def expired_def
  from_destination_def BROADCAST_MAC_def better_def copy_into_def fixed_limit_def
  DEFAULT_STARVATION_LIMIT_def less_network_priority_def Let_def

text \<open>
  The example: two NPDUs are accepted, one with a deadline; a dequeue after the deadline hands out
  the other, and the first is the one that has expired.
\<close>

theorem queues_account_witness:
  "\<exists>q late. queue_run (fixed_ops 2) [CallEnqueue 5 [7] Normal INSTANT_ZERO None, CallEnqueue 5 [8] Normal INSTANT_ZERO (Some (Instant 1)),
        CallDequeue Unicast (Instant 1) 2] (fixed_new 2 1 2)
      = ({#((5, Normal, [7]), None), ((5, Normal, [8]), Some (Instant 1))#}, {#(5, Normal, [7])#}, [], q)
     \<and> (\<forall>x \<in># late. expired (snd x) (Instant 1))
     \<and> (\<exists>taken. {#((5, Normal, [7]), None), ((5, Normal, [8]), Some (Instant 1))#} = taken + late + waiting fixed_items q
          \<and> image_mset fst taken = {#(5, Normal, [7])#})"
proof -
  let ?cs = "[CallEnqueue 5 [7] Normal INSTANT_ZERO None, CallEnqueue 5 [8] Normal INSTANT_ZERO (Some (Instant 1)),
        CallDequeue Unicast (Instant 1) 2]"
  have two: "replicate 2 x = [x, x]" for x :: 'x by (simp add: numeral_2_eq_2)
  have "\<exists>q. queue_run (fixed_ops 2) ?cs (fixed_new 2 1 2)
      = ({#((5, Normal, [7]), None), ((5, Normal, [8]), Some (Instant 1))#}, {#(5, Normal, [7])#}, [], q)"
    by (simp add: fixed_ops_def fixed_eval two INSTANT_ZERO_def less_eq_instant_def bump_waits_def slot_payload_def bump_slot_def)
  then obtain q where q: "queue_run (fixed_ops 2) ?cs (fixed_new 2 1 2)
      = ({#((5, Normal, [7]), None), ((5, Normal, [8]), Some (Instant 1))#}, {#(5, Normal, [7])#}, [], q)" by blast
  have "(2 :: nat) \<le> SLOT_LONGEST" by (simp add: SLOT_LONGEST_def)
  from conjunct1 [OF queues_account [OF this, of ?cs 2 1], unfolded q prod.case]
  obtain taken late dropped where r: "{#((5, Normal, [7]), None), ((5, Normal, [8]), Some (Instant 1))#} = taken + late + dropped + waiting fixed_items q"
      "image_mset fst taken = {#(5, Normal, [7])#}" "\<forall>x \<in># late. \<exists>t \<in> call_times ?cs. expired (snd x) t" "size dropped = length ([] :: nat list)" by blast
  then have "{#((5, Normal, [7]), None), ((5, Normal, [8]), Some (Instant 1))#} = taken + late + waiting fixed_items q"
      "\<forall>x \<in># late. expired (snd x) (Instant 1)" by simp_all
  with q r(2) show ?thesis by blast
qed

lemma alloc_dequeue_policy:
  assumes "alloc_inv n cap q" "alloc_dequeue_kind k now max_len q = (Inr (Some d), q')"
    and "\<forall>s \<in> set (ln_slots (alloc_lane k q)). live_at now s \<longrightarrow> seq_age b (sl_sequence s) < 2 ^ 63"
  shows "\<exists>s \<in> set (ln_slots (alloc_lane k q)). live_at now s \<and> dq_kind d = k \<and> dq_destination d = sl_destination s
       \<and> dq_priority d = sl_priority s \<and> dq_sequence d = sl_sequence s \<and> dq_npdu d = slot_payload s
       \<and> (\<forall>t \<in> set (ln_slots (alloc_lane k q)). live_at now t \<longrightarrow>
            serves_before (aq_starvation_limit q) b (slot_info k s) (slot_info k t))"
  using alloc_lanes.pair_dequeue_served [of n q k now max_len d q' b, folded alloc_dequeue_pair] assms
  unfolding alloc_inv_def by blast

text \<open>
  C20: Dequeueing serves, of the live NPDUs of the asked lane, an NPDU that is before every other:
  once some have been passed over \<open>limit\<close> times, the oldest of those; otherwise the one of highest
  priority, the oldest where priorities are equal. Ages follow the wrapping sequence numbers, as
  long as the live ones lie within half their range. (\<open>alloc_dequeue_policy\<close> is the same for the
  allocated queues.)
\<close>

theorem dequeue_policy:
  assumes "fixed_inv n q" "fixed_dequeue_kind k now max_len q = (Inr (Some d), q')"
    and "\<forall>s \<in> set (ln_slots (fixed_lane k q)). live_at now s \<longrightarrow> seq_age b (sl_sequence s) < 2 ^ 63"
  shows "\<exists>s \<in> set (ln_slots (fixed_lane k q)). live_at now s \<and> dq_kind d = k \<and> dq_destination d = sl_destination s
       \<and> dq_priority d = sl_priority s \<and> dq_sequence d = sl_sequence s \<and> dq_npdu d = slot_payload s
       \<and> (\<forall>t \<in> set (ln_slots (fixed_lane k q)). live_at now t \<longrightarrow>
            serves_before (fixed_limit q) b (slot_info k s) (slot_info k t))"
  using fixed_lanes.pair_dequeue_served [of n q k now max_len d q' b, folded fixed_dequeue_pair] assms by blast

theorem dequeue_policy_witness:
  "\<exists>q d q'. fixed_dequeue_kind Unicast INSTANT_ZERO 2 q = (Inr (Some d), q') \<and> dq_sequence d = 1 \<and>
     (\<exists>s \<in> set (ln_slots (fixed_lane Unicast q)). dq_npdu d = slot_payload s
       \<and> (\<forall>t \<in> set (ln_slots (fixed_lane Unicast q)). live_at INSTANT_ZERO t \<longrightarrow>
            serves_before (fixed_limit q) 0 (slot_info Unicast s) (slot_info Unicast t)))"
proof -
  have two: "replicate 2 x = [x, x]" for x :: 'x by (simp add: numeral_2_eq_2)
  define q1 where "q1 = snd (fixed_enqueue_npdu 2 5 [7] Normal INSTANT_ZERO None (fixed_new 2 1 2))"
  define q where "q = snd (fixed_enqueue_npdu 2 6 [8, 9] Urgent INSTANT_ZERO None q1)"
  have e1: "fixed_enqueue_npdu 2 5 [7] Normal INSTANT_ZERO None (fixed_new 2 1 2) = (Inr (), q1)"
    by (simp add: q1_def fixed_eval two)
  have e2: "fixed_enqueue_npdu 2 6 [8, 9] Urgent INSTANT_ZERO None q1 = (Inr (), q)"
    by (simp add: q_def q1_def fixed_eval two)
  have inv: "fixed_inv 2 q"
    using fixed_enqueue_accepted [OF conjunct1 [OF fixed_enqueue_accepted [OF conjunct1 [OF fixed_new_inv] e1]] e2]
    by (simp add: SLOT_LONGEST_def)
  obtain d q' where dq: "fixed_dequeue_kind Unicast INSTANT_ZERO 2 q = (Inr (Some d), q')" "dq_sequence d = 1"
    by (simp add: q_def q1_def fixed_eval two)
  have "\<forall>s \<in> set (ln_slots (fixed_lane Unicast q)). live_at INSTANT_ZERO s \<longrightarrow> seq_age 0 (sl_sequence s) < 2 ^ 63"
    by (simp add: q_def q1_def fixed_eval two seq_age_def)
  from dequeue_policy [OF inv dq(1) this] dq show ?thesis by blast
qed

end
