(* ===== verification/Mstp_Stream.thy ===== *)
theory Mstp_Stream
  imports Mstp_Frame
begin

text \<open>
  The incremental decoder (\<open>crates/bacnet-mstp-codec/src/stream.rs\<close>) over a buffer the caller
  lends it: a window of buffered octets that moves up the storage and is compacted when it
  reaches the end, a delivered frame that the next push commits, and a count of octets of a
  dropped frame still to be skipped. The theory gives a specification of the decoder over a
  plain octet list and proves that the code implements it, that the window invariant is
  kept, that the decoder never wedges, and that a frame comes out whole however its octets
  are cut into pushes.
\<close>

unbundle bit_operations_syntax

datatype decode_event =
    NeedMore
  | FrameEvent frame nat
  | Invalid nat
  | Malformed nat frame_error "octet option"
  | ErrorEvent frame_error

datatype stream_phase = Sync | Preamble | Header | Data

datatype internal_event =
    IntNeedMore
  | IntFrame frame_header nat nat
  | IntInvalid nat
  | IntMalformed nat frame_error "octet option"

record stream_decoder =
  sd_storage :: octets
  sd_start :: nat
  sd_len :: nat
  sd_pending :: nat
  sd_skip :: nat
  sd_reserved_cobs :: bool

definition DESTINATION_INDEX :: nat where "DESTINATION_INDEX = length PREAMBLE + 1"
definition LENGTH_INDEX :: nat where "LENGTH_INDEX = length PREAMBLE + 3"

definition new_decoder :: "octets \<Rightarrow> stream_decoder" where
  "new_decoder st = \<lparr>sd_storage = st, sd_start = 0, sd_len = 0, sd_pending = 0, sd_skip = 0, sd_reserved_cobs = False\<rparr>"

definition with_reserved_cobs :: "stream_decoder \<Rightarrow> stream_decoder" where
  "with_reserved_cobs d = d\<lparr>sd_reserved_cobs := True\<rparr>"

definition buffered_len :: "stream_decoder \<Rightarrow> nat" where
  "buffered_len d = sd_len d"

definition capacity :: "stream_decoder \<Rightarrow> nat" where
  "capacity d = length (sd_storage d)"

definition buffered :: "stream_decoder \<Rightarrow> octets" where
  "buffered d = subslice (sd_storage d) (sd_start d) (sd_start d + sd_len d)"

definition phase :: "stream_decoder \<Rightarrow> stream_phase" where
  "phase d =
     (if sd_skip d \<noteq> 0 then Data
      else let b = buffered d in
        if sd_pending d \<noteq> 0 \<or> get_at b 0 \<noteq> Some (PREAMBLE ! 0) then Sync
        else if sd_len d = 1 then Preamble
        else if b ! 1 \<noteq> PREAMBLE ! 1 then Sync
        else if sd_len d < DATA_OFFSET then Header else Data)"

definition reset :: "stream_decoder \<Rightarrow> stream_decoder" where
  "reset d = d\<lparr>sd_start := 0, sd_len := 0, sd_pending := 0, sd_skip := 0\<rparr>"

definition discard :: "nat \<Rightarrow> stream_decoder \<Rightarrow> stream_decoder" where
  "discard n d =
     (let count = min n (sd_len d);
          d1 = d\<lparr>sd_start := sd_start d + count, sd_len := sd_len d - count\<rparr>
      in if sd_len d1 = 0 then d1\<lparr>sd_start := 0\<rparr> else d1)"

definition commit_pending :: "stream_decoder \<Rightarrow> stream_decoder" where
  "commit_pending d = (if sd_pending d = 0 then d else (discard (sd_pending d) d)\<lparr>sd_pending := 0\<rparr>)"

text \<open>The loop of \<open>compact\<close>; the early return for an empty gap is its guard's second half.\<close>

function compact_loop :: "octets \<Rightarrow> nat \<Rightarrow> nat \<Rightarrow> nat \<Rightarrow> octets" where
  "compact_loop st gap from stop =
     (if from < stop \<and> gap \<noteq> 0
      then let count = min gap (stop - from)
           in compact_loop (copy_into st (from - gap) (subslice st from (from + count))) gap (from + count) stop
      else st)"
  by pat_completeness auto
termination
  by (relation "measure (\<lambda>(st, gap, from, stop). stop - from)") auto

declare compact_loop.simps [simp del]

definition compact :: "stream_decoder \<Rightarrow> stream_decoder" where
  "compact d =
     (let gap = sd_start d in
      if gap = 0 then d
      else d\<lparr>sd_storage := compact_loop (sd_storage d) gap gap (sd_start d + sd_len d), sd_start := 0\<rparr>)"

definition declared_length :: "stream_decoder \<Rightarrow> nat" where
  "declared_length d = unat (u16_be (buffered d ! LENGTH_INDEX) (buffered d ! (LENGTH_INDEX + 1)))"

definition skip_frame ::
  "nat \<Rightarrow> frame_error \<Rightarrow> octet option \<Rightarrow> stream_decoder \<Rightarrow> internal_event \<times> stream_decoder" where
  "skip_frame whole error dest d =
     (IntMalformed whole error dest,
      if whole \<le> sd_len d then discard whole d
      else d\<lparr>sd_skip := whole - sd_len d, sd_start := 0, sd_len := 0\<rparr>)"

definition wait_for_header :: "nat \<Rightarrow> stream_decoder \<Rightarrow> internal_event \<times> stream_decoder" where
  "wait_for_header needed d =
     (if needed \<le> capacity d then (IntNeedMore, d)
      else (IntMalformed 1 (FrameTooLong needed (capacity d)) None, discard 1 d))"

text \<open>Which errors come with a trusted destination octet.\<close>

definition error_destination :: "frame_error \<Rightarrow> octets \<Rightarrow> octet option" where
  "error_destination error b =
     (case error of
        TooShort _ _ \<Rightarrow> None | InvalidPreamble _ _ \<Rightarrow> None | HeaderCrcMismatch \<Rightarrow> None
      | BroadcastSource \<Rightarrow> Some (b ! DESTINATION_INDEX)
      | InvalidCobsLength _ \<Rightarrow> Some (b ! DESTINATION_INDEX)
      | Oversize _ _ \<Rightarrow> Some (b ! DESTINATION_INDEX)
      | UnsupportedCobsFrame _ \<Rightarrow> Some (b ! DESTINATION_INDEX)
      | Truncated _ _ \<Rightarrow> Some (b ! DESTINATION_INDEX)
      | DataCrcMismatch _ \<Rightarrow> Some (b ! DESTINATION_INDEX)
      | ExtendedFrame _ \<Rightarrow> None | UnexpectedData _ _ \<Rightarrow> None | MissingVendorId _ _ \<Rightarrow> None
      | FrameTooLong _ _ \<Rightarrow> None | BufferExhausted _ _ \<Rightarrow> None)"

text \<open>Whether the buffered octets may start a preamble, and the noise in front of the next one that may.\<close>

definition may_start_preamble :: "octets \<Rightarrow> bool" where
  "may_start_preamble b \<longleftrightarrow>
     b ! 0 = PREAMBLE ! 0 \<and> (case get_at b 1 of None \<Rightarrow> True | Some second \<Rightarrow> second = PREAMBLE ! 1)"

definition noise_length :: "octets \<Rightarrow> nat" where
  "noise_length b = Suc (length (takeWhile (\<lambda>octet. octet \<noteq> PREAMBLE ! 0) (drop 1 b)))"

definition try_decode :: "stream_decoder \<Rightarrow> internal_event \<times> stream_decoder" where
  "try_decode d =
     (let b = buffered d in
      if b = [] then (IntNeedMore, d)
      else if \<not> may_start_preamble b then
        (IntInvalid (noise_length b), discard (noise_length b) d)
      else case check_frame b (sd_reserved_cobs d) of
          Inr valid \<Rightarrow>
            (IntFrame (vf_header valid) (vf_data_length valid) (vf_consumed valid),
             d\<lparr>sd_storage := take (sd_start d) (sd_storage d) @ decode_extended_in_place b valid
                  @ drop (sd_start d + sd_len d) (sd_storage d),
               sd_pending := vf_consumed valid\<rparr>)
        | Inl error \<Rightarrow>
            (let dest = error_destination error b in
             case error of
               TooShort needed _ \<Rightarrow> wait_for_header needed d
             | Truncated n _ \<Rightarrow>
                 (let needed = wire_length n in
                  if needed \<le> capacity d then (IntNeedMore, d)
                  else skip_frame needed (FrameTooLong needed (capacity d)) dest d)
             | UnsupportedCobsFrame _ \<Rightarrow> skip_frame (wire_length (declared_length d)) error dest d
             | DataCrcMismatch n \<Rightarrow> skip_frame (wire_length n) error dest d
             | _ \<Rightarrow> (IntMalformed 1 error dest, discard 1 d)))"

text \<open>The public form of an internal event, as the end of \<open>push_slice\<close> builds it.\<close>

definition public_event :: "internal_event \<times> stream_decoder \<Rightarrow> decode_event" where
  "public_event r =
     (case r of
        (IntNeedMore, d) \<Rightarrow> NeedMore
      | (IntFrame h n consumed, d) \<Rightarrow>
          FrameEvent \<lparr>fr_header = h, fr_data = subslice (buffered d) DATA_OFFSET (DATA_OFFSET + n)\<rparr> consumed
      | (IntInvalid n, d) \<Rightarrow> Invalid n
      | (IntMalformed n error dest, d) \<Rightarrow> Malformed n error dest)"

definition push_slice :: "octets \<Rightarrow> stream_decoder \<Rightarrow> decode_event \<times> stream_decoder" where
  "push_slice input d0 =
     (let d = commit_pending d0;
          skipped = min (sd_skip d) (length input);
          rest = drop skipped input;
          free = length (sd_storage d) - sd_len d
      in if length rest > free then (ErrorEvent (BufferExhausted (length rest) free), d)
         else let d1 = d\<lparr>sd_skip := sd_skip d - skipped\<rparr>;
                  d2 = (if sd_start d1 + sd_len d1 + length rest > length (sd_storage d1) then compact d1 else d1);
                  d3 = d2\<lparr>sd_storage := copy_into (sd_storage d2) (sd_start d2 + sd_len d2) rest,
                          sd_len := sd_len d2 + length rest\<rparr>
              in (public_event (try_decode d3), snd (try_decode d3)))"

definition push :: "octet \<Rightarrow> stream_decoder \<Rightarrow> decode_event \<times> stream_decoder" where
  "push byte = push_slice [byte]"

section \<open>The specification\<close>

text \<open>
  The same decoder without a storage: a capacity, the octets still to be skipped and the
  octets buffered, a delivered frame already gone.
\<close>

definition spec_decode :: "nat \<Rightarrow> bool \<Rightarrow> nat \<Rightarrow> octets \<Rightarrow> decode_event \<times> nat \<times> octets" where
  "spec_decode cap rc sk b =
     (if b = [] then (NeedMore, sk, b)
      else if \<not> may_start_preamble b then (Invalid (noise_length b), sk, drop (noise_length b) b)
      else case check_frame b rc of
          Inr valid \<Rightarrow>
            (FrameEvent \<lparr>fr_header = vf_header valid,
                fr_data = subslice (decode_extended_in_place b valid) 8 (8 + vf_data_length valid)\<rparr>
               (vf_consumed valid), sk, drop (vf_consumed valid) b)
        | Inl error \<Rightarrow>
            (let dest = error_destination error b;
                 drop_by = (\<lambda>whole e. (Malformed whole e dest, (if whole \<le> length b then sk else whole - length b),
                    drop whole b))
             in case error of
               TooShort needed _ \<Rightarrow>
                 if needed \<le> cap then (NeedMore, sk, b)
                 else (Malformed 1 (FrameTooLong needed cap) None, sk, drop 1 b)
             | Truncated n _ \<Rightarrow>
                 if wire_length n \<le> cap then (NeedMore, sk, b)
                 else drop_by (wire_length n) (FrameTooLong (wire_length n) cap)
             | UnsupportedCobsFrame _ \<Rightarrow> drop_by (wire_length (unat (u16_be (b ! 5) (b ! 6)))) error
             | DataCrcMismatch n \<Rightarrow> drop_by (wire_length n) error
             | _ \<Rightarrow> (Malformed 1 error dest, sk, drop 1 b)))"

definition spec_push :: "nat \<Rightarrow> bool \<Rightarrow> octets \<Rightarrow> nat \<times> octets \<Rightarrow> decode_event \<times> nat \<times> octets" where
  "spec_push cap rc input s =
     (case s of (sk, b) \<Rightarrow>
       (let skipped = min sk (length input); rest = drop skipped input in
        if length rest > cap - length b
        then (ErrorEvent (BufferExhausted (length rest) (cap - length b)), sk, b)
        else spec_decode cap rc (sk - skipped) (b @ rest)))"

definition abs_state :: "stream_decoder \<Rightarrow> nat \<times> octets" where
  "abs_state d = (sd_skip d, drop (sd_pending d) (buffered d))"

definition stream_inv :: "stream_decoder \<Rightarrow> bool" where
  "stream_inv d \<longleftrightarrow> sd_start d + sd_len d \<le> length (sd_storage d) \<and> sd_pending d \<le> sd_len d \<and>
     (sd_skip d \<noteq> 0 \<longrightarrow> sd_len d = 0) \<and> (sd_len d = 0 \<longrightarrow> sd_start d = 0)"

section \<open>The window\<close>

lemma length_buffered: "sd_start d + sd_len d \<le> length (sd_storage d) \<Longrightarrow> length (buffered d) = sd_len d"
  by (simp add: buffered_def)

lemma discard_fields [simp]:
  "sd_storage (discard n d) = sd_storage d" "sd_pending (discard n d) = sd_pending d"
  "sd_skip (discard n d) = sd_skip d" "sd_reserved_cobs (discard n d) = sd_reserved_cobs d"
  "sd_len (discard n d) = sd_len d - n" "capacity (discard n d) = capacity d"
  by (auto simp: discard_def Let_def capacity_def)

lemma discard_buffered: "buffered (discard n d) = drop n (buffered d)"
  by (auto simp: discard_def Let_def buffered_def subslice_def drop_take min_def add.commute)

lemma discard_inv:
  "stream_inv d \<Longrightarrow> sd_pending d = 0 \<Longrightarrow> stream_inv (discard n d)"
  by (auto simp: stream_inv_def discard_def Let_def)

lemma compact_loop_spec:
  assumes "gap \<le> from" "from \<le> stop" "stop \<le> length st" "0 < gap"
  shows "length (compact_loop st gap from stop) = length st \<and>
    take (stop - gap) (compact_loop st gap from stop) = take (from - gap) st @ subslice st from stop"
  using assms
proof (induction st gap "from" stop rule: compact_loop.induct)
  case (1 st gap "from" stop)
  show ?case
  proof (cases "from < stop")
    case False
    with "1.prems" show ?thesis by (auto simp: compact_loop.simps [of st])
  next
    case True
    define count where count: "count = min gap (stop - from)"
    define piece where piece: "piece = subslice st from (from + count)"
    define st1 where st1: "st1 = copy_into st (from - gap) piece"
    have count_le: "count \<le> gap" "from + count \<le> stop" using True by (auto simp: count)
    have piece_len: "length piece = count" using count_le "1.prems" by (simp add: piece)
    have len1: "length st1 = length st" using "1.prems" count_le piece_len by (simp add: st1)
    have eq: "compact_loop st gap from stop = compact_loop st1 gap (from + count) stop"
      using True "1.prems" by (simp add: compact_loop.simps [of st] Let_def count st1 piece)
    have "length (compact_loop st1 gap (from + count) stop) = length st1 \<and>
        take (stop - gap) (compact_loop st1 gap (from + count) stop) =
          take (from + count - gap) st1 @ subslice st1 (from + count) stop"
      using "1.IH" [OF _ count] True "1.prems" count_le len1 by (simp add: st1 piece)
    moreover have "take (from + count - gap) st1 = take (from - gap) st @ piece"
    proof -
      have "from + count - gap = (from - gap) + length piece" using "1.prems"(1) piece_len by simp
      then show ?thesis using "1.prems" by (simp add: st1 copy_into_def)
    qed
    moreover have "subslice st1 (from + count) stop = subslice st (from + count) stop"
      using "1.prems" count_le piece_len
      by (simp add: st1 copy_into_def subslice_def)
    moreover have "piece @ subslice st (from + count) stop = subslice st from stop"
      using take_subslice [of count "stop - from" "drop from st"] count_le
      by (simp add: piece subslice_def add.commute)
    ultimately show ?thesis using len1 eq by simp
  qed
qed

lemma compact_buffered:
  assumes "sd_start d + sd_len d \<le> length (sd_storage d)"
  shows "buffered (compact d) = buffered d \<and> length (sd_storage (compact d)) = length (sd_storage d)"
proof (cases "sd_start d = 0")
  case False
  with assms compact_loop_spec [of "sd_start d" "sd_start d" "sd_start d + sd_len d" "sd_storage d"]
  show ?thesis by (simp add: compact_def buffered_def Let_def subslice_def)
qed (simp add: compact_def)

lemma compact_fields [simp]:
  "sd_len (compact d) = sd_len d" "sd_pending (compact d) = sd_pending d" "sd_start (compact d) = 0"
  "sd_skip (compact d) = sd_skip d" "sd_reserved_cobs (compact d) = sd_reserved_cobs d"
  by (auto simp: compact_def Let_def)

lemma commit_pending_spec:
  assumes "stream_inv d"
  shows "stream_inv (commit_pending d) \<and> sd_pending (commit_pending d) = 0 \<and>
    abs_state (commit_pending d) = abs_state d \<and> capacity (commit_pending d) = capacity d \<and>
    sd_reserved_cobs (commit_pending d) = sd_reserved_cobs d"
proof (cases "sd_pending d = 0")
  case False
  have "stream_inv ((discard (sd_pending d) d)\<lparr>sd_pending := 0\<rparr>)"
    using assms by (auto simp: stream_inv_def discard_def Let_def)
  moreover have "buffered ((discard n d)\<lparr>sd_pending := 0\<rparr>) = drop n (buffered d)" for n
    using discard_buffered [of n d] by (simp add: buffered_def)
  ultimately show ?thesis using False by (simp add: commit_pending_def abs_state_def capacity_def)
qed (use assms in \<open>simp add: commit_pending_def\<close>)

section \<open>The decoder implements its specification\<close>

lemma check_frame_Inr:
  assumes "check_frame b rc = Inr v"
  shows "8 \<le> vf_consumed v \<and> vf_consumed v \<le> length b \<and>
    length (decode_extended_in_place b v) = length b \<and>
    drop (vf_consumed v) (decode_extended_in_place b v) = drop (vf_consumed v) b"
proof -
  from assms have g: "\<exists>n. vf_consumed v = wire_length n" "vf_consumed v \<le> length b"
      "is_cobs (fh_type (vf_header v)) \<longrightarrow> (\<exists>n. check_fields (subslice b 8 (vf_consumed v)) = Some n)"
    by (auto simp: check_frame_def try_res_eq_Inr Let_def not_less split: if_splits)
  then have eight: "8 \<le> vf_consumed v" by (auto simp: wire_length_def)
  show ?thesis
  proof (cases "is_cobs (fh_type (vf_header v))")
    case True
    with g(3) obtain n where "check_fields (subslice b 8 (vf_consumed v)) = Some n" by blast
    then have "length (fst (decode_data_in_place (subslice b 8 (vf_consumed v)))) = vf_consumed v - 8"
      using check_fields_Some g(2) by fastforce
    with True g(2) eight show ?thesis by (simp add: decode_extended_in_place_def)
  qed (use g(2) eight in \<open>simp add: decode_extended_in_place_def\<close>)
qed

definition decodes_as :: "stream_decoder \<Rightarrow> internal_event \<times> stream_decoder \<Rightarrow> decode_event \<times> nat \<times> octets \<Rightarrow> bool" where
  "decodes_as d r spec \<longleftrightarrow> public_event r = fst spec \<and> abs_state (snd r) = snd spec \<and> stream_inv (snd r) \<and>
     capacity (snd r) = capacity d \<and> sd_reserved_cobs (snd r) = sd_reserved_cobs d"

lemma decodes_as_stay: "stream_inv d \<Longrightarrow> sd_pending d = 0 \<Longrightarrow> decodes_as d (IntNeedMore, d) (NeedMore, sd_skip d, buffered d)"
  by (simp add: decodes_as_def public_event_def abs_state_def)

lemma decodes_as_drop:
  "stream_inv d \<Longrightarrow> sd_pending d = 0 \<Longrightarrow>
     decodes_as d (IntMalformed k e dest, discard n d) (Malformed k e dest, sd_skip d, drop n (buffered d))"
  "stream_inv d \<Longrightarrow> sd_pending d = 0 \<Longrightarrow>
     decodes_as d (IntInvalid k, discard n d) (Invalid k, sd_skip d, drop n (buffered d))"
  by (simp_all add: decodes_as_def public_event_def abs_state_def discard_buffered discard_inv)

lemma decodes_as_skip:
  assumes "stream_inv d" "sd_pending d = 0"
  shows "decodes_as d (skip_frame whole e dest d)
    (Malformed whole e dest, (if whole \<le> length (buffered d) then sd_skip d else whole - length (buffered d)),
     drop whole (buffered d))"
proof -
  have len: "length (buffered d) = sd_len d" using assms(1) by (simp add: stream_inv_def length_buffered)
  show ?thesis
  proof (cases "whole \<le> sd_len d")
    case True
    with decodes_as_drop(1) [OF assms] len show ?thesis by (simp add: skip_frame_def)
  next
    case False
    with assms len show ?thesis
      by (simp add: skip_frame_def decodes_as_def public_event_def abs_state_def
          stream_inv_def capacity_def) (simp add: buffered_def)
  qed
qed

lemma decodes_as_frame:
  assumes inv: "stream_inv d" "sd_pending d = 0" and ok: "check_frame (buffered d) (sd_reserved_cobs d) = Inr v"
  shows "decodes_as d
    (IntFrame (vf_header v) (vf_data_length v) (vf_consumed v),
     d\<lparr>sd_storage := take (sd_start d) (sd_storage d) @ decode_extended_in_place (buffered d) v
         @ drop (sd_start d + sd_len d) (sd_storage d), sd_pending := vf_consumed v\<rparr>)
    (FrameEvent \<lparr>fr_header = vf_header v,
        fr_data = subslice (decode_extended_in_place (buffered d) v) 8 (8 + vf_data_length v)\<rparr> (vf_consumed v),
     sd_skip d, drop (vf_consumed v) (buffered d))"
    (is "decodes_as d (_, ?d) _")
proof -
  let ?dec = "decode_extended_in_place (buffered d) v"
  have len: "length (buffered d) = sd_len d" using inv(1) by (simp add: stream_inv_def length_buffered)
  note v = check_frame_Inr [OF ok]
  have buf: "buffered ?d = ?dec"
    using inv(1) v len by (simp add: buffered_def stream_inv_def subslice_append_mid)
  have "stream_inv ?d" using inv v len by (auto simp: stream_inv_def)
  with buf v show ?thesis
    using inv(1) len by (simp add: decodes_as_def public_event_def abs_state_def capacity_def stream_inv_def)
qed

lemma try_decode_spec:
  assumes "stream_inv d" "sd_pending d = 0"
  shows "decodes_as d (try_decode d) (spec_decode (capacity d) (sd_reserved_cobs d) (sd_skip d) (buffered d))"
proof (cases "buffered d = [] \<or> \<not> may_start_preamble (buffered d)")
  case True
  then show ?thesis
    using decodes_as_stay [OF assms] decodes_as_drop(2) [OF assms]
    by (cases "buffered d = []") (simp_all add: try_decode_def spec_decode_def Let_def)
next
  case False
  show ?thesis
  proof (cases "check_frame (buffered d) (sd_reserved_cobs d)")
    case (Inr v)
    with False assms show ?thesis
      by (simp add: try_decode_def spec_decode_def decodes_as_frame)
  next
    case (Inl e)
    with False assms show ?thesis
      by (cases e) (simp_all add: try_decode_def spec_decode_def Let_def wait_for_header_def decodes_as_stay
          decodes_as_drop decodes_as_skip declared_length_def LENGTH_INDEX_def)
  qed
qed

text \<open>Appending to the window, after a compaction when it is needed.\<close>

lemma append_window:
  assumes "stream_inv d" "sd_pending d = 0" "length rest \<le> length (sd_storage d) - sd_len d"
    "rest \<noteq> [] \<Longrightarrow> sd_skip d = 0"
    "d2 = (if sd_start d + sd_len d + length rest > length (sd_storage d) then compact d else d)"
    "d3 = d2\<lparr>sd_storage := copy_into (sd_storage d2) (sd_start d2 + sd_len d2) rest, sd_len := sd_len d2 + length rest\<rparr>"
  shows "stream_inv d3 \<and> sd_pending d3 = 0 \<and> buffered d3 = buffered d @ rest \<and>
    sd_skip d3 = sd_skip d \<and> capacity d3 = capacity d \<and> sd_reserved_cobs d3 = sd_reserved_cobs d"
proof -
  have win: "sd_start d + sd_len d \<le> length (sd_storage d)" using assms(1) by (simp add: stream_inv_def)
  have d2: "buffered d2 = buffered d" "length (sd_storage d2) = length (sd_storage d)" "sd_len d2 = sd_len d"
      "sd_pending d2 = 0" "sd_skip d2 = sd_skip d" "sd_reserved_cobs d2 = sd_reserved_cobs d"
      "sd_start d2 + sd_len d2 + length rest \<le> length (sd_storage d2)" "sd_len d2 = 0 \<longrightarrow> sd_start d2 = 0"
    using compact_buffered [OF win] assms by (auto simp: stream_inv_def)
  then have "buffered d3 = subslice (sd_storage d2) (sd_start d2) (sd_start d2 + sd_len d2) @ rest"
    using subslice_copy_into_extend [of "sd_start d2" "sd_start d2 + sd_len d2" rest "sd_storage d2"]
    by (simp add: assms(6) buffered_def add.assoc)
  moreover have "stream_inv d3"
    using d2 assms by (cases "rest = []") (auto simp: stream_inv_def copy_into_def)
  ultimately show ?thesis using d2 by (simp add: assms(6) capacity_def) (simp add: buffered_def)
qed

lemma push_slice_spec:
  assumes "stream_inv d"
  shows "(fst (push_slice input d), abs_state (snd (push_slice input d))) =
      spec_push (capacity d) (sd_reserved_cobs d) input (abs_state d) \<and>
    stream_inv (snd (push_slice input d)) \<and> capacity (snd (push_slice input d)) = capacity d \<and>
    sd_reserved_cobs (snd (push_slice input d)) = sd_reserved_cobs d"
proof -
  define c where c: "c = commit_pending d"
  note com = commit_pending_spec [OF assms, folded c]
  have abs: "abs_state d = (sd_skip c, buffered c)" using com by (metis abs_state_def drop0)
  have lenb: "length (buffered c) = sd_len c" using com by (simp add: stream_inv_def length_buffered)
  define rest where rest: "rest = drop (min (sd_skip c) (length input)) input"
  show ?thesis
  proof (cases "length rest > length (sd_storage c) - sd_len c")
    case True
    then have "push_slice input d = (ErrorEvent (BufferExhausted (length rest) (length (sd_storage c) - sd_len c)), c)"
      unfolding push_slice_def Let_def c [symmetric] rest [symmetric] by simp
    moreover have "spec_push (capacity d) (sd_reserved_cobs d) input (abs_state d) =
        (ErrorEvent (BufferExhausted (length rest) (length (sd_storage c) - sd_len c)), sd_skip c, buffered c)"
      unfolding abs spec_push_def Let_def prod.case rest [symmetric] using True com lenb by (simp add: capacity_def)
    ultimately show ?thesis using com by (metis abs fst_conv snd_conv)
  next
    case False
    define c1 where c1: "c1 = c\<lparr>sd_skip := sd_skip c - min (sd_skip c) (length input)\<rparr>"
    define c2 where c2: "c2 = (if sd_start c1 + sd_len c1 + length rest > length (sd_storage c1) then compact c1 else c1)"
    define c3 where c3: "c3 = c2\<lparr>sd_storage := copy_into (sd_storage c2) (sd_start c2 + sd_len c2) rest,
        sd_len := sd_len c2 + length rest\<rparr>"
    have inv1: "stream_inv c1" "sd_pending c1 = 0" "length rest \<le> length (sd_storage c1) - sd_len c1"
        "rest \<noteq> [] \<Longrightarrow> sd_skip c1 = 0"
      using com False by (auto simp: c1 stream_inv_def rest)
    note win = append_window [OF inv1 c2 c3]
    have buf1: "buffered c1 = buffered c" "capacity c1 = capacity c" "sd_reserved_cobs c1 = sd_reserved_cobs c"
      by (simp_all add: c1 buffered_def capacity_def)
    have "push_slice input d = (public_event (try_decode c3), snd (try_decode c3))"
      using False unfolding push_slice_def Let_def c [symmetric] rest [symmetric] c1 [symmetric] c2 [symmetric] c3 [symmetric]
      by simp
    moreover have "spec_push (capacity d) (sd_reserved_cobs d) input (abs_state d) =
        spec_decode (capacity c3) (sd_reserved_cobs c3) (sd_skip c3) (buffered c3)"
      unfolding abs spec_push_def Let_def prod.case rest [symmetric]
      using False win buf1 com lenb by (simp add: capacity_def) (simp add: c1)
    ultimately show ?thesis
      using try_decode_spec [of c3] win buf1 com by (simp add: decodes_as_def)
  qed
qed

section \<open>Progress\<close>

lemma noise_length_pos: "0 < noise_length b"
  by (simp add: noise_length_def)

lemma check_frame_errors:
  "check_frame b rc = Inl (TooShort n k) \<Longrightarrow> n = 8 \<and> k = length b \<and> length b < 8"
  "check_frame b rc = Inl (Truncated m k) \<Longrightarrow> length b < wire_length m"
  by (auto simp: check_frame_def check_header_def check_header_fields_def try_res_eq_Inl Let_def ok_or_def
      split: if_splits option.splits sum.splits frame_error.splits)

text \<open>
  Each event other than \<open>NeedMore\<close> takes octets out of the buffer; \<open>NeedMore\<close> leaves room for
  at least one more.
\<close>

lemma spec_decode_progress:
  assumes "spec_decode cap rc sk b = (ev, sk', b')" "0 < cap" "length b \<le> cap"
  shows "(ev = NeedMore \<and> b' = b \<and> length b < cap) \<or> (ev \<noteq> NeedMore \<and> length b' < length b)"
proof (cases "b = [] \<or> \<not> may_start_preamble b")
  case True
  with assms noise_length_pos [of b] show ?thesis
    by (cases "b = []") (auto simp: spec_decode_def)
next
  case False
  then have "0 < length b" by simp
  show ?thesis
  proof (cases "check_frame b rc")
    case (Inr v)
    with assms(1) False check_frame_Inr [OF Inr] show ?thesis by (auto simp: spec_decode_def)
  next
    case (Inl e)
    with assms(1) False \<open>0 < length b\<close> show ?thesis
      by (cases e) (auto simp: spec_decode_def Let_def wire_length_def split: if_splits
          dest!: check_frame_errors)
  qed
qed

text \<open>Draining, as the type's documentation tells its user to: empty pushes until \<open>NeedMore\<close>.\<close>

fun drain :: "nat \<Rightarrow> stream_decoder \<Rightarrow> (decode_event list \<times> stream_decoder) option" where
  "drain 0 d = None"
| "drain (Suc fuel) d =
     (case push_slice [] d of
        (NeedMore, d') \<Rightarrow> Some ([], d')
      | (ev, d') \<Rightarrow> map_option (\<lambda>(evs, d''). (ev # evs, d'')) (drain fuel d'))"

lemma abs_length_le: "stream_inv d \<Longrightarrow> length (snd (abs_state d)) \<le> sd_len d \<and> sd_len d \<le> capacity d"
  by (simp add: abs_state_def stream_inv_def length_buffered capacity_def)

lemma push_nothing:
  assumes "stream_inv d" "0 < capacity d" "push_slice [] d = (ev, d')"
  shows "stream_inv d' \<and> capacity d' = capacity d \<and>
    ((ev = NeedMore \<and> abs_state d' = abs_state d \<and> length (snd (abs_state d)) < capacity d) \<or>
     (ev \<noteq> NeedMore \<and> length (snd (abs_state d')) < length (snd (abs_state d))))"
proof -
  obtain sk b where abs: "abs_state d = (sk, b)" by fastforce
  obtain sk' b' where abs': "abs_state d' = (sk', b')" by fastforce
  have "spec_decode (capacity d) (sd_reserved_cobs d) sk b = (ev, sk', b')"
    using push_slice_spec [OF assms(1), of "[]"] assms(3) abs abs' by (simp add: spec_push_def)
  moreover from this have "ev = NeedMore \<Longrightarrow> sk' = sk"
    by (auto simp: spec_decode_def Let_def split: if_splits sum.splits frame_error.splits)
  ultimately show ?thesis
    using spec_decode_progress [of "capacity d" "sd_reserved_cobs d" sk b ev sk' b']
      push_slice_spec [OF assms(1), of "[]"] assms abs abs' abs_length_le [OF assms(1)] by auto
qed

lemma drain_ends:
  "stream_inv d \<Longrightarrow> 0 < capacity d \<Longrightarrow> length (snd (abs_state d)) < fuel \<Longrightarrow>
     \<exists>evs d'. drain fuel d = Some (evs, d') \<and> stream_inv d' \<and> capacity d' = capacity d \<and>
       length (snd (abs_state d')) < capacity d' \<and> NeedMore \<notin> set evs \<and> length evs \<le> length (snd (abs_state d))"
proof (induction fuel arbitrary: d)
  case (Suc fuel)
  obtain ev d1 where push: "push_slice [] d = (ev, d1)" by fastforce
  note step = push_nothing [OF Suc.prems(1,2) push]
  show ?case
  proof (cases "ev = NeedMore")
    case True
    with step push show ?thesis by auto
  next
    case False
    with step have less: "length (snd (abs_state d1)) < length (snd (abs_state d))" by simp
    with Suc.IH [of d1] Suc.prems step obtain evs d' where
        IH: "drain fuel d1 = Some (evs, d')" "stream_inv d'" "capacity d' = capacity d"
        "length (snd (abs_state d')) < capacity d'" "NeedMore \<notin> set evs"
        "length evs \<le> length (snd (abs_state d1))"
      by auto
    have "drain (Suc fuel) d = Some (ev # evs, d')"
      using push IH(1) False by (cases ev) simp_all
    with IH less False show ?thesis by auto
  qed
qed simp

section \<open>A frame arrives however it is cut up\<close>

lemma frame_octets_start: "take 2 (frame_octets f) = PREAMBLE" "8 \<le> length (frame_octets f)"
  by (simp_all add: frame_octets_def head_octets_def Let_def)

lemma nth_frame_octets: "frame_octets f ! 0 = PREAMBLE ! 0" "frame_octets f ! 1 = PREAMBLE ! 1"
  by (simp_all add: frame_octets_def head_octets_def Let_def PREAMBLE_def)

lemma prefix_may_start: "0 < k \<Longrightarrow> may_start_preamble (take k (frame_octets f @ rest))"
  using nth_frame_octets [of f] frame_octets_start(2) [of f]
  by (auto simp: may_start_preamble_def get_at_def nth_append split: option.split)

lemma check_frame_prefix:
  assumes "checked_length f = Inr n" "k < wire_length n"
  shows "check_frame (take k (frame_octets f)) rc =
    (if k < 8 then Inl (TooShort 8 k) else Inl (Truncated n (k - 8)))"
proof -
  have total: "length (frame_octets f) = wire_length n"
    by (simp add: length_frame_octets checked_length_eq [OF assms(1)])
  show ?thesis
  proof (cases "k < 8")
    case True
    with total assms(2) show ?thesis by (simp add: check_frame_def check_header_def)
  next
    case False
    obtain body where "frame_octets f = head_octets (fr_header f) n @ body"
      by (simp add: frame_octets_def checked_length_eq [OF assms(1)])
    with False have "take k (frame_octets f) = head_octets (fr_header f) n @ take (k - 8) body" by simp
    then have "check_header (take k (frame_octets f)) rc = Inr \<lparr>gh_header = fr_header f, gh_length = n\<rparr>"
      using check_header_head [OF _ checked_length_header [OF assms(1)]]
        check_header_fields_bound [OF checked_length_header [OF assms(1)]] by simp
    with total assms(2) False show ?thesis by (simp add: check_frame_def Let_def)
  qed
qed

lemma spec_decode_prefix:
  assumes "checked_length f = Inr n" "wire_length n \<le> cap" "k < wire_length n"
  shows "spec_decode cap rc 0 (take k (frame_octets f)) = (NeedMore, 0, take k (frame_octets f))"
proof (cases "k = 0")
  case False
  moreover have "8 \<le> cap" using assms(2) by (auto simp: wire_length_def split: if_splits)
  ultimately show ?thesis
    using prefix_may_start [of k f "[]"] frame_octets_start(2) [of f] assms
    by (auto simp: spec_decode_def check_frame_prefix)
qed (simp add: spec_decode_def)

lemma spec_decode_whole:
  assumes "checked_length f = Inr n"
  shows "spec_decode cap rc 0 (frame_octets f @ rest) = (FrameEvent f (wire_length n), 0, rest)"
proof -
  have "length (frame_octets f) = wire_length n"
    by (simp add: length_frame_octets checked_length_eq [OF assms(1)])
  moreover have "may_start_preamble (frame_octets f @ rest)"
    using prefix_may_start [of "length (frame_octets f @ rest)" f rest] frame_octets_start(2) [of f]
    by (cases "frame_octets f") auto
  ultimately show ?thesis
    using check_frame_octets [OF assms] decode_extended_octets [OF assms refl, of rest] frame_octets_start(2) [of f]
    by (auto simp: spec_decode_def)
qed

text \<open>Pushing a sequence of slices, with the event of each.\<close>

fun feed :: "octets list \<Rightarrow> stream_decoder \<Rightarrow> decode_event list \<times> stream_decoder" where
  "feed [] d = ([], d)"
| "feed (c # cs) d = (let (ev, d1) = push_slice c d; (evs, d2) = feed cs d1 in (ev # evs, d2))"

lemma push_fits:
  assumes "stream_inv d" "abs_state d = (0, b)" "length b + length c \<le> capacity d"
  shows "(fst (push_slice c d), abs_state (snd (push_slice c d))) =
      spec_decode (capacity d) (sd_reserved_cobs d) 0 (b @ c)"
proof -
  have "\<not> capacity d - length b < length c" using assms(3) by simp
  then show ?thesis using push_slice_spec [OF assms(1), of c] by (simp add: spec_push_def Let_def assms(2))
qed

lemma feed_prefix:
  assumes "checked_length f = Inr n" "stream_inv d" "wire_length n \<le> capacity d" "c \<noteq> []"
    "abs_state d = (0, take k (frame_octets f))" "drop k (frame_octets f) = concat cs @ c" "k \<le> wire_length n"
  shows "fst (feed (cs @ [c]) d) = replicate (length cs) NeedMore @ [FrameEvent f (wire_length n)]"
  using assms(2-)
proof (induction cs arbitrary: d k)
  case Nil
  have total: "length (frame_octets f) = wire_length n"
    by (simp add: length_frame_octets checked_length_eq [OF assms(1)])
  have "take k (frame_octets f) @ c = frame_octets f" using Nil.prems by (metis append_take_drop_id concat.simps(1) append_Nil)
  moreover have "length c = wire_length n - k" using Nil.prems(5) total by (metis append_Nil concat.simps(1) length_drop)
  ultimately show ?case
    using push_fits [OF Nil.prems(1,4), of c] Nil.prems spec_decode_whole [OF assms(1), of _ _ "[]"] total
    by (simp add: case_prod_unfold)
next
  case (Cons b cs)
  have total: "length (frame_octets f) = wire_length n"
    by (simp add: length_frame_octets checked_length_eq [OF assms(1)])
  let ?k = "k + length b"
  have drop: "drop k (frame_octets f) = b @ concat cs @ c" using Cons.prems(5) by simp
  then have room: "?k < wire_length n" using total Cons.prems(3,6)
    by (metis add.commute append_is_Nil_conv drop_all drop_drop length_0_conv leI append_eq_conv_conj)
  have pre: "take k (frame_octets f) @ b = take ?k (frame_octets f)" using drop by (simp add: take_add)
  obtain ev d1 where push: "push_slice b d = (ev, d1)" by fastforce
  have "ev = NeedMore" "abs_state d1 = (0, take ?k (frame_octets f))" "stream_inv d1" "capacity d1 = capacity d"
    using push_fits [OF Cons.prems(1,4), of b] push_slice_spec [OF Cons.prems(1), of b] push Cons.prems(2,6)
      total room spec_decode_prefix [OF assms(1) Cons.prems(2) room] pre
    by simp_all
  moreover have "drop ?k (frame_octets f) = concat cs @ c"
    using drop by (metis add.commute append_eq_conv_conj drop_drop)
  ultimately show ?case
    using Cons.IH [of d1 ?k] Cons.prems(2,3) room push by (auto split: prod.splits)
qed

section \<open>Properties\<close>

text \<open>
  C15: the stream decoder implements its specification. From any state of the invariant, a push
  gives the event that the specification gives for the octets buffered and still to be
  skipped, and leaves the octets it says, whatever compaction, lazy commit and in-place
  decoding the code did; and the invariant, the capacity and the mode are kept.
\<close>

theorem push_slice_refines:
  assumes "stream_inv d"
  shows "(fst (push_slice input d), abs_state (snd (push_slice input d))) =
      spec_push (capacity d) (sd_reserved_cobs d) input (abs_state d) \<and>
    stream_inv (snd (push_slice input d)) \<and> capacity (snd (push_slice input d)) = capacity d \<and>
    sd_reserved_cobs (snd (push_slice input d)) = sd_reserved_cobs d"
  using push_slice_spec [OF assms] .

text \<open>
  the decoder never wedges. Draining it with empty pushes ends, after at most as many
  events as octets were buffered, in a state with room for at least one more octet.
\<close>

theorem drain_terminates:
  assumes "stream_inv d" "0 < capacity d"
  shows "\<exists>evs d'. drain (Suc (sd_len d)) d = Some (evs, d') \<and> stream_inv d' \<and>
    length (snd (abs_state d')) < capacity d' \<and> length evs \<le> sd_len d"
proof -
  have "length (snd (abs_state d)) \<le> sd_len d" using abs_length_le [OF assms(1)] by simp
  with drain_ends [OF assms, of "Suc (sd_len d)"] show ?thesis by fastforce
qed

text \<open>
  C22: a frame the encoder took comes out of the decoder exactly once and intact, however its
  octets are cut into pushes: every push before the last answers \<open>NeedMore\<close> and the last one
  delivers the frame, when the decoder is drained and the frame fits its storage.
\<close>

theorem stream_delivers_frame:
  assumes "checked_length f = Inr n" "stream_inv d" "wire_length n \<le> capacity d"
    "abs_state d = (0, [])" "frame_octets f = concat cs @ c" "c \<noteq> []"
  shows "fst (feed (cs @ [c]) d) = replicate (length cs) NeedMore @ [FrameEvent f (wire_length n)]"
  using feed_prefix [of f n d c 0 cs] assms by simp

section \<open>Witnesses\<close>

definition sample_decoder :: stream_decoder where
  "sample_decoder = new_decoder (replicate 64 0)"

lemma sample_decoder_ok:
  "stream_inv sample_decoder" "capacity sample_decoder = 64" "abs_state sample_decoder = (0, [])"
  "sd_len sample_decoder = 0" "sd_reserved_cobs sample_decoder = False"
  by (simp_all add: sample_decoder_def new_decoder_def stream_inv_def capacity_def abs_state_def buffered_def)

lemma push_slice_refines_witness:
  "(fst (push_slice [7, 7] sample_decoder), abs_state (snd (push_slice [7, 7] sample_decoder))) =
     spec_push 64 False [7, 7] (0, [])"
  using push_slice_refines [OF sample_decoder_ok(1), of "[7, 7]"] by (simp add: sample_decoder_ok)

lemma drain_terminates_witness:
  "\<exists>evs d'. drain 1 sample_decoder = Some (evs, d') \<and> length evs = 0"
  using drain_terminates [OF sample_decoder_ok(1)] by (auto simp: sample_decoder_ok)

lemma stream_delivers_frame_witness:
  "fst (feed ([take 5 (frame_octets sample_frame)] @ [drop 5 (frame_octets sample_frame)]) sample_decoder) =
     [NeedMore, FrameEvent sample_frame 12]"
  using stream_delivers_frame [OF sample_checked(1) sample_decoder_ok(1), of
      "[take 5 (frame_octets sample_frame)]" "drop 5 (frame_octets sample_frame)"]
  by (simp add: sample_decoder_ok sample_length wire_length_def TRAILER_LENGTH_def)

end
