(* ===== verification/Mstp_Actions.thy ===== *)
theory Mstp_Actions
  imports Mstp_Config
begin

text \<open>
  The actions the MS/TP core hands its adapter
  (\<open>crates/bacnet-mstp-core/src\<close>, \<open>actions.rs\<close> and \<open>storage.rs\<close>): the one frame buffer, the
  switch to receive and the one queued transmit, and the ring of delivery slots. The
  specification is a plain list of waiting actions: polling takes its head, a delivery goes
  to its end, and the ring's indices never show. The slot capacity \<open>NPDU\<close> is an argument \<open>n\<close>.
\<close>

section \<open>Actions\<close>

datatype direction = DirReceive | DirTransmit

datatype action =
    SetDirection direction
  | Transmit u32 frame_header nat
  | DeliverNpdu octet octet octets "u32 option"
  | DeliverFrame frame_type octet octet octets
  | ActionIdle

definition DEFAULT_DELIVERY_SLOTS :: nat where "DEFAULT_DELIVERY_SLOTS = 8"

definition frame_room :: "nat \<Rightarrow> nat" where
  "frame_room npdu =
     (if npdu \<le> MAX_STANDARD_MPDU_DATA then MAX_STANDARD_FRAME_LENGTH
      else length PREAMBLE + HEADER_LENGTH + npdu + (npdu + 253) div 254 + 5)"

record delivery_slot =
  ds_request_id :: "u32 option"
  ds_frame_type :: octet
  ds_source :: octet
  ds_destination :: octet
  ds_length :: u16
  ds_data :: octets

definition DELIVERY_SLOT_EMPTY :: "nat \<Rightarrow> delivery_slot" where
  "DELIVERY_SLOT_EMPTY n = \<lparr>ds_request_id = None, ds_frame_type = 0, ds_source = 0, ds_destination = 0,
     ds_length = 0, ds_data = replicate n 0\<rparr>"

record action_buffers =
  ab_frame :: octets
  ab_deliveries :: "delivery_slot list"

definition action_buffers_new :: "nat \<Rightarrow> nat \<Rightarrow> nat \<Rightarrow> action_buffers" where
  "action_buffers_new deliveries n frm =
     \<lparr>ab_frame = replicate frm 0, ab_deliveries = replicate deliveries (DELIVERY_SLOT_EMPTY n)\<rparr>"

text \<open>The two constant assertions of \<open>ActionBuffers::new\<close>.\<close>

definition action_buffers_sizes :: "nat \<Rightarrow> nat \<Rightarrow> nat \<Rightarrow> bool" where
  "action_buffers_sizes deliveries n frm \<longleftrightarrow> deliveries > 0 \<and> frm \<ge> frame_room n"

datatype delivery_refused = DeliveryRefused

record queued_transmit =
  qt_id :: u32
  qt_direction_polled :: bool

record action_queue =
  ac_receive :: bool
  ac_transmit :: "queued_transmit option"
  ac_frame :: octets
  ac_frame_length :: nat
  ac_deliveries :: "delivery_slot list"
  ac_head :: nat
  ac_waiting :: nat

definition actions_new :: "action_buffers \<Rightarrow> action_queue" where
  "actions_new buffers = \<lparr>ac_receive = False, ac_transmit = None, ac_frame = ab_frame buffers,
     ac_frame_length = 0, ac_deliveries = ab_deliveries buffers, ac_head = 0, ac_waiting = 0\<rparr>"

definition encode_frame :: "frame \<Rightarrow> action_queue \<Rightarrow> (frame_error + unit) \<times> action_queue" where
  "encode_frame f q =
     (case encode_into f (ac_frame q) of
        (Inl e, buffer) \<Rightarrow> (Inl e, q\<lparr>ac_frame := buffer\<rparr>)
      | (Inr len, buffer) \<Rightarrow> (Inr (), q\<lparr>ac_frame := buffer, ac_frame_length := len\<rparr>))"

definition queue_receive :: "action_queue \<Rightarrow> action_queue" where
  "queue_receive q = q\<lparr>ac_receive := True\<rparr>"

definition queued_frame :: "action_queue \<Rightarrow> octets" where
  "queued_frame q = take (ac_frame_length q) (ac_frame q)"

definition queued_header :: "action_queue \<Rightarrow> frame_header" where
  "queued_header q =
     (let preamble = length PREAMBLE in
      \<lparr>fh_type = from_raw (ac_frame q ! preamble), fh_destination = ac_frame q ! (preamble + 1),
       fh_source = ac_frame q ! (preamble + 2)\<rparr>)"

definition queue_transmit :: "u32 \<Rightarrow> action_queue \<Rightarrow> action_queue" where
  "queue_transmit tid q = q\<lparr>ac_transmit := Some \<lparr>qt_id = tid, qt_direction_polled = False\<rparr>\<rparr>"

definition transmit_queued :: "u32 \<Rightarrow> action_queue \<Rightarrow> bool" where
  "transmit_queued tid q = (case ac_transmit q of None \<Rightarrow> False | Some transmit \<Rightarrow> qt_id transmit = tid)"

definition purge_transmit :: "u32 \<Rightarrow> action_queue \<Rightarrow> action_queue" where
  "purge_transmit tid q = (if transmit_queued tid q then q\<lparr>ac_transmit := None\<rparr> else q)"

definition wrap_index :: "nat \<Rightarrow> nat \<Rightarrow> nat" where
  "wrap_index index len = (if index \<ge> len then index - len else index)"

definition carries_npdu :: "frame_type \<Rightarrow> bool" where
  "carries_npdu t \<longleftrightarrow> t = BACNET_DATA_EXPECTING_REPLY \<or> t = BACNET_DATA_NOT_EXPECTING_REPLY
     \<or> t = BACNET_EXTENDED_DATA_EXPECTING_REPLY \<or> t = BACNET_EXTENDED_DATA_NOT_EXPECTING_REPLY"

definition enqueue_delivery :: "nat \<Rightarrow> frame_header \<Rightarrow> octets \<Rightarrow> u32 option \<Rightarrow> action_queue
    \<Rightarrow> (delivery_refused + unit) \<times> action_queue" where
  "enqueue_delivery n header data request_id q =
     (if length data > 65535 then (Inl DeliveryRefused, q)
      else if length data > n \<or> ac_waiting q = length (ac_deliveries q) then (Inl DeliveryRefused, q)
      else
        let index = wrap_index (ac_head q + ac_waiting q) (length (ac_deliveries q));
            old = ac_deliveries q ! index;
            new = \<lparr>ds_request_id = request_id, ds_frame_type = to_raw (fh_type header),
                   ds_source = fh_source header, ds_destination = fh_destination header,
                   ds_length = of_nat (length data), ds_data = copy_into (ds_data old) 0 data\<rparr>
        in (Inr (), q\<lparr>ac_deliveries := (ac_deliveries q)[index := new], ac_waiting := ac_waiting q + 1\<rparr>))"

definition slot_action :: "delivery_slot \<Rightarrow> action" where
  "slot_action s =
     (let data = take (unat (ds_length s)) (ds_data s); frame_type = from_raw (ds_frame_type s) in
      if carries_npdu frame_type then DeliverNpdu (ds_source s) (ds_destination s) data (ds_request_id s)
      else DeliverFrame frame_type (ds_source s) (ds_destination s) data)"

definition poll :: "action_queue \<Rightarrow> action \<times> action_queue" where
  "poll q =
     (if ac_receive q then (SetDirection DirReceive, q\<lparr>ac_receive := False\<rparr>)
      else case ac_transmit q of
        Some transmit \<Rightarrow>
          if \<not> qt_direction_polled transmit
          then (SetDirection DirTransmit, q\<lparr>ac_transmit := Some (transmit\<lparr>qt_direction_polled := True\<rparr>)\<rparr>)
          else (Transmit (qt_id transmit) (queued_header q) (ac_frame_length q), q\<lparr>ac_transmit := None\<rparr>)
      | None \<Rightarrow>
          if ac_waiting q = 0 then (ActionIdle, q)
          else (slot_action (ac_deliveries q ! ac_head q),
                q\<lparr>ac_head := wrap_index (ac_head q + 1) (length (ac_deliveries q)),
                  ac_waiting := ac_waiting q - 1\<rparr>))"

definition receive_window :: "bool \<Rightarrow> nat \<Rightarrow> nat" where
  "receive_window extended frm =
     (let wanted = (if extended then MAX_EXTENDED_FRAME_LENGTH else MAX_STANDARD_FRAME_LENGTH)
      in if wanted < frm then wanted else frm)"

section \<open>The list of waiting actions\<close>

definition ring_slots :: "action_queue \<Rightarrow> delivery_slot list" where
  "ring_slots q = map (\<lambda>i. ac_deliveries q ! wrap_index (ac_head q + i) (length (ac_deliveries q))) [0..<ac_waiting q]"

definition waiting_actions :: "action_queue \<Rightarrow> action list" where
  "waiting_actions q =
     (if ac_receive q then [SetDirection DirReceive] else [])
   @ (case ac_transmit q of None \<Rightarrow> []
      | Some t \<Rightarrow> (if qt_direction_polled t then [] else [SetDirection DirTransmit])
          @ [Transmit (qt_id t) (queued_header q) (ac_frame_length q)])
   @ map slot_action (ring_slots q)"

definition ring_wf :: "nat \<Rightarrow> action_queue \<Rightarrow> bool" where
  "ring_wf n q \<longleftrightarrow> ac_head q < length (ac_deliveries q) \<and> ac_waiting q \<le> length (ac_deliveries q)
     \<and> (\<forall>s \<in> set (ac_deliveries q). length (ds_data s) = n)"

text \<open>What is handed up for a frame.\<close>

definition delivery_action :: "frame_header \<Rightarrow> octets \<Rightarrow> u32 option \<Rightarrow> action" where
  "delivery_action header data request_id =
     (if carries_npdu (fh_type header) then DeliverNpdu (fh_source header) (fh_destination header) data request_id
      else DeliverFrame (fh_type header) (fh_source header) (fh_destination header) data)"

lemma wrap_index_less: "i < 2 * len \<Longrightarrow> 0 < len \<Longrightarrow> wrap_index i len < len"
  unfolding wrap_index_def by (cases "len \<le> i") auto

lemma wrap_index_inj:
  "h < len \<Longrightarrow> i < len \<Longrightarrow> j < len \<Longrightarrow> wrap_index (h + i) len = wrap_index (h + j) len \<Longrightarrow> i = j"
  by (auto simp: wrap_index_def split: if_splits)

lemma ring_slots_ops [simp]:
  "ring_slots (q\<lparr>ac_receive := b\<rparr>) = ring_slots q" "ring_slots (q\<lparr>ac_transmit := t\<rparr>) = ring_slots q"
  "ring_slots (q\<lparr>ac_frame := f\<rparr>) = ring_slots q" "ring_slots (q\<lparr>ac_frame_length := k\<rparr>) = ring_slots q"
  by (simp_all add: ring_slots_def)

lemma ring_wf_ops [simp]:
  "ring_wf n (q\<lparr>ac_receive := b\<rparr>) = ring_wf n q" "ring_wf n (q\<lparr>ac_transmit := t\<rparr>) = ring_wf n q"
  "ring_wf n (q\<lparr>ac_frame := f\<rparr>) = ring_wf n q" "ring_wf n (q\<lparr>ac_frame_length := k\<rparr>) = ring_wf n q"
  by (simp_all add: ring_wf_def)

lemma ring_slots_poll:
  assumes "ring_wf n q" "ac_waiting q \<noteq> 0"
  shows "ring_slots q = ac_deliveries q ! ac_head q
      # ring_slots (q\<lparr>ac_head := wrap_index (ac_head q + 1) (length (ac_deliveries q)), ac_waiting := ac_waiting q - 1\<rparr>)"
proof -
  obtain w where w: "ac_waiting q = Suc w" using assms(2) by (cases "ac_waiting q") auto
  let ?len = "length (ac_deliveries q)"
  have "wrap_index (ac_head q + Suc i) ?len = wrap_index (wrap_index (Suc (ac_head q)) ?len + i) ?len" if "i < w" for i
    using assms(1) that w by (auto simp: ring_wf_def wrap_index_def)
  then have "map (\<lambda>i. ac_deliveries q ! wrap_index (ac_head q + Suc i) ?len) [0..<w]
      = map (\<lambda>i. ac_deliveries q ! wrap_index (wrap_index (Suc (ac_head q)) ?len + i) ?len) [0..<w]"
    by (intro map_cong refl) simp
  moreover have "wrap_index (ac_head q) ?len = ac_head q" using assms(1) by (simp add: ring_wf_def wrap_index_def)
  ultimately show ?thesis
    by (simp add: ring_slots_def w upt_conv_Cons map_Suc_upt [symmetric] comp_def del: upt_Suc)
qed

lemma poll_wf: "ring_wf n q \<Longrightarrow> ring_wf n (snd (poll q))"
  by (auto simp: poll_def ring_wf_def wrap_index_def split: option.splits)

lemma enqueue_delivery_wf: "ring_wf n q \<Longrightarrow> ring_wf n (snd (enqueue_delivery n h d r q))"
proof (cases "length d > 65535 \<or> length d > n \<or> ac_waiting q = length (ac_deliveries q)")
  case False
  assume wf: "ring_wf n q"
  let ?index = "wrap_index (ac_head q + ac_waiting q) (length (ac_deliveries q))"
  have "?index < length (ac_deliveries q)" using wf False by (auto simp: ring_wf_def intro!: wrap_index_less)
  then have "length (ds_data (ac_deliveries q ! ?index)) = n" using wf by (auto simp: ring_wf_def)
  then show ?thesis using wf False
    by (auto simp: enqueue_delivery_def Let_def ring_wf_def dest!: set_update_subset_insert [THEN subsetD])
qed (auto simp: enqueue_delivery_def)

lemma enqueue_delivery_slots:
  assumes wf: "ring_wf n q" and fits: "length data \<le> n" "length data \<le> 65535" "ac_waiting q < length (ac_deliveries q)"
  shows "\<exists>q'. enqueue_delivery n header data r q = (Inr (), q')
       \<and> map slot_action (ring_slots q') = map slot_action (ring_slots q) @ [delivery_action header data r]"
proof -
  let ?len = "length (ac_deliveries q)"
  let ?index = "wrap_index (ac_head q + ac_waiting q) ?len"
  let ?new = "\<lparr>ds_request_id = r, ds_frame_type = to_raw (fh_type header), ds_source = fh_source header,
      ds_destination = fh_destination header, ds_length = of_nat (length data),
      ds_data = copy_into (ds_data (ac_deliveries q ! ?index)) 0 data\<rparr>"
  have idx: "?index < ?len" using wf fits(3) by (auto simp: ring_wf_def intro!: wrap_index_less)
  then have "length (ds_data (ac_deliveries q ! ?index)) = n" using wf by (auto simp: ring_wf_def)
  then have new: "slot_action ?new = delivery_action header data r"
    using fits by (simp add: slot_action_def delivery_action_def copy_into_def from_raw_def Let_def)
  have "(ac_deliveries q)[?index := x] ! wrap_index (ac_head q + i) ?len = ac_deliveries q ! wrap_index (ac_head q + i) ?len"
    if "i < ac_waiting q" for i x
  proof -
    have "wrap_index (ac_head q + i) ?len \<noteq> ?index"
      using that wf fits(3) wrap_index_inj [of "ac_head q" ?len i "ac_waiting q"] by (auto simp: ring_wf_def)
    then show ?thesis by (metis nth_list_update_neq)
  qed
  then have "ring_slots (q\<lparr>ac_deliveries := (ac_deliveries q)[?index := ?new], ac_waiting := ac_waiting q + 1\<rparr>)
      = ring_slots q @ [?new]"
    using idx by (simp add: ring_slots_def)
  then show ?thesis using fits new by (simp add: enqueue_delivery_def Let_def)
qed

text \<open>
  C21: The action queue is a list of waiting actions, with the ring of delivery slots nowhere to be
  seen. Polling returns the head, or \<open>Idle\<close> when there is none, and leaves the tail; what comes
  out first is always a switch to receive, then the transmit's two actions, then the
  deliveries in the order they came.
\<close>

theorem poll_refines:
  assumes "ring_wf n q"
  shows "(case waiting_actions q of
            [] \<Rightarrow> poll q = (ActionIdle, q)
          | a # as \<Rightarrow> fst (poll q) = a \<and> waiting_actions (snd (poll q)) = as \<and> ring_wf n (snd (poll q)))"
proof (cases "ac_receive q \<or> ac_transmit q \<noteq> None")
  case True
  then show ?thesis using poll_wf [OF assms]
    by (auto simp: waiting_actions_def poll_def queued_header_def Let_def split: option.splits if_splits)
next
  case False
  show ?thesis
  proof (cases "ac_waiting q = 0")
    case True
    with False show ?thesis by (simp add: waiting_actions_def poll_def ring_slots_def)
  next
    case w: False
    from ring_slots_poll [OF assms w] False w poll_wf [OF assms] show ?thesis
      by (auto simp: waiting_actions_def poll_def)
  qed
qed

theorem poll_refines_witness:
  "\<exists>q. ring_wf 2 q \<and> waiting_actions q = [SetDirection DirReceive, DeliverFrame (FrameType 4) 5 1 [9, 8]]
     \<and> fst (poll q) = SetDirection DirReceive
     \<and> waiting_actions (snd (poll q)) = [DeliverFrame (FrameType 4) 5 1 [9, 8]]"
proof -
  define q where "q = \<lparr>ac_receive = True, ac_transmit = None, ac_frame = [], ac_frame_length = 0, ac_deliveries =
    [\<lparr>ds_request_id = None, ds_frame_type = 4, ds_source = 5, ds_destination = 1, ds_length = 2, ds_data = [9, 8]\<rparr>],
    ac_head = 0, ac_waiting = 1\<rparr>"
  have wf: "ring_wf 2 q" by (simp add: q_def ring_wf_def)
  have w: "waiting_actions q = [SetDirection DirReceive, DeliverFrame (FrameType 4) 5 1 [9, 8]]"
    by (simp add: q_def waiting_actions_def ring_slots_def slot_action_def wrap_index_def carries_npdu_def
        frame_type_consts from_raw_def)
  from poll_refines [OF wf] wf w show ?thesis by auto
qed

text \<open>
  A delivery is refused exactly when its data is longer than a slot or every slot is taken, and
  then nothing changes; otherwise it joins the end of the waiting actions with the frame's
  addresses and its data as they were, whatever the ring's position.
\<close>

theorem enqueue_delivery_refines:
  assumes "ring_wf n q" "n \<le> 65535"
  shows "enqueue_delivery n header data r q = (Inl DeliveryRefused, q)
           \<and> (n < length data \<or> length (ring_slots q) = length (ac_deliveries q))
       \<or> (\<exists>q'. enqueue_delivery n header data r q = (Inr (), q') \<and> ring_wf n q'
           \<and> waiting_actions q' = waiting_actions q @ [delivery_action header data r])"
proof (cases "length data > n \<or> ac_waiting q = length (ac_deliveries q)")
  case True
  with assms(2) show ?thesis by (auto simp: enqueue_delivery_def ring_slots_def)
next
  case False
  then have fits: "length data \<le> n" "length data \<le> 65535" "ac_waiting q < length (ac_deliveries q)"
    using assms by (auto simp: ring_wf_def)
  from enqueue_delivery_slots [OF assms(1) fits] obtain q' where q': "enqueue_delivery n header data r q = (Inr (), q')"
      "map slot_action (ring_slots q') = map slot_action (ring_slots q) @ [delivery_action header data r]" by blast
  moreover have "ac_receive q' = ac_receive q" "ac_transmit q' = ac_transmit q" "queued_header q' = queued_header q"
      "ac_frame_length q' = ac_frame_length q"
    using q'(1) by (auto simp: enqueue_delivery_def queued_header_def Let_def split: if_splits)
  ultimately show ?thesis using enqueue_delivery_wf [OF assms(1), of header data r]
    by (auto simp: waiting_actions_def split: option.split)
qed

theorem enqueue_delivery_refines_witness:
  "\<exists>q q'. enqueue_delivery 2 \<lparr>fh_type = FrameType 6, fh_destination = 1, fh_source = 5\<rparr> [9] None q = (Inr (), q')
     \<and> waiting_actions q' = waiting_actions q @ [DeliverNpdu 5 1 [9] None]"
proof -
  define q where "q = actions_new (action_buffers_new 1 2 0)"
  have wf: "ring_wf 2 q"
    by (simp add: q_def ring_wf_def actions_new_def action_buffers_new_def DELIVERY_SLOT_EMPTY_def)
  have "enqueue_delivery 2 h [9] None q \<noteq> (Inl DeliveryRefused, q)" for h
    by (simp add: q_def enqueue_delivery_def actions_new_def action_buffers_new_def Let_def)
  with enqueue_delivery_refines [OF wf, of "\<lparr>fh_type = FrameType 6, fh_destination = 1, fh_source = 5\<rparr>" "[9]" None]
  show ?thesis by (auto simp: delivery_action_def carries_npdu_def frame_type_consts)
qed

end
