(* ===== verification/Mstp_Master.thy ===== *)
theory Mstp_Master
  imports Mstp_Stream Mstp_Queue Mstp_Actions
begin

text \<open>
  The MS/TP master state machine of Clause 9.5.6
  (\<open>crates/bacnet-mstp-core/src\<close>, \<open>state.rs\<close> and \<open>state/\<close>): the core's state as a record and
  every call into it as a function on that record. The queue storage is a \<open>queue_ops\<close> record
  \<open>ops\<close>, and the constant parameter \<open>NPDU\<close> an argument \<open>n\<close>.

  Giving up a frame ends in \<open>enter_idle\<close>, which takes up a remembered Token, which may make a
  frame, which may be given up at once. The remembered Token is cleared as it is taken, so
  \<open>enter_idle\<close> is entered at most twice. The functions on that cycle take what happens on
  giving a frame up as an argument \<open>idle\<close> and have names ending in \<open>_with\<close>; \<open>enter_idle\<close>
  closes the cycle, and \<open>enter_idle_unfold\<close> is the recursive equation of the code.
\<close>

unbundle bit_operations_syntax

section \<open>State\<close>

definition MIN_RX_STORAGE :: nat where "MIN_RX_STORAGE = length PREAMBLE + HEADER_LENGTH"

datatype master_state =
    Idle | NoToken | UseToken | DoneWithToken | PassToken | WaitForReply | PollForMaster | AnswerDataRequest

datatype reply_decision = ReplyData octets | ReplyPostponed | ReplyAbandoned

record reply_window =
  rw_send_by :: instant
  rw_give_up :: instant

record pending_request =
  pr_id :: u32
  pr_source :: octet
  pr_decide_by :: instant
  pr_window :: reply_window

datatype post_transmit = PostIdle | PostContinueToken | PostWaitForReply | PostPassToken | PostPollForMaster

record active_transmit =
  tx_id :: u32
  tx_asserted_at :: instant
  tx_started :: bool
  tx_post :: post_transmit

datatype origin = OriginAnswer reply_window | OriginHolder | OriginNextPoll | OriginPassToken | OriginNoToken

record pending_send =
  ps_post :: post_transmit
  ps_origin :: origin
  ps_earliest :: instant
  ps_limit :: instant

record 'q master_core =
  mc_config :: mstp_core_config
  mc_queues :: 'q
  mc_decoder :: stream_decoder
  mc_actions :: action_queue
  mc_state :: master_state
  mc_next_station :: octet
  mc_poll_station :: octet
  mc_token_count :: octet
  mc_frame_count :: octet
  mc_retry_token_count :: octet
  mc_event_count :: u32
  mc_sole_master :: bool
  mc_pending_token :: bool
  mc_pending_request :: "pending_request option"
  mc_next_request_generation :: u32
  mc_active_transmit :: "active_transmit option"
  mc_pending_send :: "pending_send option"
  mc_next_transmit_generation :: u32
  mc_protocol_deadline :: "instant option"
  mc_last_activity :: instant
  mc_last_octet :: "instant option"
  mc_parser_partial :: bool
  mc_last_now :: instant
  mc_consecutive_broadcast :: octet
  mc_counters :: mstp_counters

record master_snapshot =
  sn_state :: master_state
  sn_next_station :: octet
  sn_poll_station :: octet
  sn_frame_count :: octet
  sn_token_count :: octet
  sn_sole_master :: bool
  sn_transmit_id :: "u32 option"
  sn_request_id :: "u32 option"

text \<open>The operators on times, which saturate.\<close>

abbreviation after :: "instant \<Rightarrow> duration \<Rightarrow> instant" where
  "after t d \<equiv> instant_saturating_add t d"

abbreviation before :: "instant \<Rightarrow> duration \<Rightarrow> instant" where
  "before t d \<equiv> instant_saturating_sub t d"

abbreviation tally :: "(mstp_counters \<Rightarrow> mstp_counters) \<Rightarrow> 'q master_core \<Rightarrow> 'q master_core" where
  "tally f c \<equiv> c\<lparr>mc_counters := f (mc_counters c)\<rparr>"

definition u8_saturating_add :: "octet \<Rightarrow> octet \<Rightarrow> octet" where
  "u8_saturating_add a b = (if unat a + unat b < 256 then a + b else 255)"

section \<open>Construction and reading\<close>

text \<open>The four buffers an extended-frame core checks, in the order of the code.\<close>

fun first_too_small :: "(core_buffer \<times> nat \<times> nat) list \<Rightarrow> config_error option" where
  "first_too_small [] = None"
| "first_too_small ((buffer, len, minimum) # rest) =
     (if len < minimum then Some (ExtendedStorageTooSmall buffer len minimum) else first_too_small rest)"

definition from_parts :: "'q queue_ops \<Rightarrow> nat \<Rightarrow> mstp_core_config \<Rightarrow> 'q \<Rightarrow> octets \<Rightarrow> action_buffers \<Rightarrow> instant
    \<Rightarrow> config_error + 'q master_core" where
  "from_parts ops n config queues rx_storage buffers now =
     (case validate config of
        Inl e \<Rightarrow> Inl e
      | Inr _ \<Rightarrow>
          if length rx_storage < MIN_RX_STORAGE
          then Inl (ReceiveStorageTooSmall (length rx_storage) MIN_RX_STORAGE)
          else case (if cf_extended_frames config
                 then first_too_small
                   [(ReceiveStorage, length rx_storage, MAX_EXTENDED_FRAME_LENGTH),
                    (TransmitFrame, length (ab_frame buffers), MAX_EXTENDED_FRAME_LENGTH),
                    (DeliverySlotBuffer, n, MAX_EXTENDED_MPDU_DATA),
                    (QueueSlotBuffer, q_max_npdu ops queues, MAX_EXTENDED_MPDU_DATA)]
                 else None) of
            Some e \<Rightarrow> Inl e
          | None \<Rightarrow> Inr
             \<lparr>mc_config = config,
              mc_queues = q_set_starvation_limit ops (cf_starvation_limit config) queues,
              mc_decoder = (if cf_extended_frames config then with_reserved_cobs (new_decoder rx_storage)
                            else new_decoder rx_storage),
              mc_actions = actions_new buffers, mc_state = Idle,
              mc_next_station = cf_station config, mc_poll_station = cf_station config,
              mc_token_count = N_POLL, mc_frame_count = 0, mc_retry_token_count = 0, mc_event_count = 0,
              mc_sole_master = False, mc_pending_token = False, mc_pending_request = None,
              mc_next_request_generation = 0, mc_active_transmit = None, mc_pending_send = None,
              mc_next_transmit_generation = 0, mc_protocol_deadline = Some (after now T_NO_TOKEN),
              mc_last_activity = now, mc_last_octet = None, mc_parser_partial = False, mc_last_now = now,
              mc_consecutive_broadcast = 0, mc_counters = MSTP_COUNTERS_EMPTY\<rparr>)"

text \<open>A \<open>Storage\<close> bundle: its buffers and queues, sized together.\<close>

record 'q storage =
  st_rx :: octets
  st_queues :: 'q
  st_actions :: action_buffers

definition with_queues :: "nat \<Rightarrow> nat \<Rightarrow> nat \<Rightarrow> 'q \<Rightarrow> 'q storage" where
  "with_queues deliveries n frm queues =
     \<lparr>st_rx = replicate frm 0, st_queues = queues, st_actions = action_buffers_new deliveries n frm\<rparr>"

definition master_new :: "'q queue_ops \<Rightarrow> nat \<Rightarrow> mstp_core_config \<Rightarrow> 'q storage \<Rightarrow> instant
    \<Rightarrow> config_error + 'q master_core" where
  "master_new ops n config storage now =
     (let window = receive_window (cf_extended_frames config) (length (st_rx storage)) in
      from_parts ops n config (st_queues storage) (take window (st_rx storage)) (st_actions storage) now)"

definition snapshot :: "'q master_core \<Rightarrow> master_snapshot" where
  "snapshot c = \<lparr>sn_state = mc_state c, sn_next_station = mc_next_station c, sn_poll_station = mc_poll_station c,
     sn_frame_count = mc_frame_count c, sn_token_count = mc_token_count c, sn_sole_master = mc_sole_master c,
     sn_transmit_id = map_option tx_id (mc_active_transmit c),
     sn_request_id = map_option pr_id (mc_pending_request c)\<rparr>"

definition merge_queue :: "queue_counters \<Rightarrow> queue_counters \<Rightarrow> queue_counters" where
  "merge_queue queue own =
     queue\<lparr>qc_drops_oversize := u32_saturating_add (qc_drops_oversize queue) (qc_drops_oversize own)\<rparr>"

definition merge_queues :: "mstp_counters \<Rightarrow> queue_counters \<Rightarrow> queue_counters \<Rightarrow> mstp_counters" where
  "merge_queues core unicast broadcast =
     core\<lparr>ct_unicast := merge_queue unicast (ct_unicast core), ct_broadcast := merge_queue broadcast (ct_broadcast core)\<rparr>"

definition take_counters :: "'q queue_ops \<Rightarrow> 'q master_core \<Rightarrow> mstp_counters \<times> 'q master_core" where
  "take_counters ops c =
     (let core = mc_counters c;
          (unicast, q) = q_take_counters ops Unicast (mc_queues c);
          (broadcast, q) = q_take_counters ops Broadcast q
      in (merge_queues core unicast broadcast, c\<lparr>mc_counters := MSTP_COUNTERS_EMPTY, mc_queues := q\<rparr>))"

definition master_counters :: "'q queue_ops \<Rightarrow> 'q master_core \<Rightarrow> mstp_counters" where
  "master_counters ops c =
     merge_queues (mc_counters c) (q_counters ops Unicast (mc_queues c)) (q_counters ops Broadcast (mc_queues c))"

definition next_deadline :: "'q master_core \<Rightarrow> instant option" where
  "next_deadline c =
     (let parser = (if mc_parser_partial c
            then map_option (\<lambda>last_octet. after (after last_octet (cf_t_frame_abort (mc_config c))) (from_micros 1)) (mc_last_octet c)
            else None);
          watchdog = map_option (\<lambda>tx. after (tx_asserted_at tx) (cf_transmit_watchdog (mc_config c))) (mc_active_transmit c)
      in earliest [mc_protocol_deadline c, parser, watchdog])"

definition observe_time :: "instant \<Rightarrow> 'q master_core \<Rightarrow> instant \<times> 'q master_core" where
  "observe_time now c = (let t = max (mc_last_now c) now in (t, c\<lparr>mc_last_now := t\<rparr>))"

definition set_state :: "master_state \<Rightarrow> 'q master_core \<Rightarrow> 'q master_core" where
  "set_state s c = (if mc_state c \<noteq> s then tally record_transition (c\<lparr>mc_state := s\<rparr>) else c)"

abbreviation set_deadline :: "instant \<Rightarrow> 'q master_core \<Rightarrow> 'q master_core" where
  "set_deadline t c \<equiv> c\<lparr>mc_protocol_deadline := Some t\<rparr>"

definition record_oversize_npdu :: "queue_kind \<Rightarrow> 'q master_core \<Rightarrow> 'q master_core" where
  "record_oversize_npdu kind c =
     (case kind of
        Unicast \<Rightarrow> tally (\<lambda>k. k\<lparr>ct_unicast := record_drop_oversize (ct_unicast k)\<rparr>) c
      | Broadcast \<Rightarrow> tally (\<lambda>k. k\<lparr>ct_broadcast := record_drop_oversize (ct_broadcast k)\<rparr>) c)"

definition next_addr :: "octet \<Rightarrow> octet \<Rightarrow> octet" where
  "next_addr current max_master =
     (if current < max_master then current + 1
      else if current = max_master then 0
      else of_nat ((unat current + 1) mod (unat max_master + 1)))"

section \<open>Frames that wait\<close>

text \<open>Whether the adapter is sending a frame whose start it confirmed.\<close>

definition transmitting :: "'q master_core \<Rightarrow> bool" where
  "transmitting c = (case mc_active_transmit c of None \<Rightarrow> False | Some tx \<Rightarrow> tx_started tx)"

definition dispatch_frame :: "post_transmit \<Rightarrow> instant \<Rightarrow> 'q master_core \<Rightarrow> 'q master_core" where
  "dispatch_frame post now c =
     (let tid = mc_next_transmit_generation c in
      c\<lparr>mc_next_transmit_generation := tid + 1, mc_actions := queue_transmit tid (mc_actions c),
        mc_active_transmit := Some \<lparr>tx_id = tid, tx_asserted_at = now, tx_started = False, tx_post = post\<rparr>,
        mc_protocol_deadline := None\<rparr>)"

definition withdraw_transmit :: "u32 \<Rightarrow> 'q master_core \<Rightarrow> 'q master_core" where
  "withdraw_transmit tid c =
     c\<lparr>mc_actions := queue_receive (purge_transmit tid (mc_actions c)), mc_active_transmit := None\<rparr>"

definition pending_deadline :: "pending_send \<Rightarrow> instant" where
  "pending_deadline p = min (ps_earliest p) (ps_limit p)"

definition encode :: "frame \<Rightarrow> 'q master_core \<Rightarrow> bool \<times> 'q master_core" where
  "encode f c =
     (case encode_frame f (mc_actions c) of
        (Inr _, a) \<Rightarrow> (True, c\<lparr>mc_actions := a\<rparr>)
      | (Inl _, a) \<Rightarrow> (False, tally record_internal_error (c\<lparr>mc_actions := a\<rparr>)))"

definition forget_pending :: "'q master_core \<Rightarrow> 'q master_core" where
  "forget_pending c =
     (case mc_pending_send c of
        None \<Rightarrow> c
      | Some p \<Rightarrow>
          let c = c\<lparr>mc_pending_send := None\<rparr> in
          (case ps_origin p of
             OriginAnswer _ \<Rightarrow> tally record_expired_request c
           | _ \<Rightarrow> tally record_cancelled_send c))"

definition discard_pending :: "'q master_core \<Rightarrow> 'q master_core" where
  "discard_pending c =
     forget_pending (case mc_active_transmit c of
        Some tx \<Rightarrow> if \<not> tx_started tx then withdraw_transmit (tx_id tx) c else c
      | None \<Rightarrow> c)"

definition drop_pending_with :: "(instant \<Rightarrow> 'q master_core \<Rightarrow> 'q master_core) \<Rightarrow> instant
    \<Rightarrow> 'q master_core \<Rightarrow> 'q master_core" where
  "drop_pending_with idle now c = idle now (discard_pending c)"

definition dispatch_pending_send_with :: "(instant \<Rightarrow> 'q master_core \<Rightarrow> 'q master_core) \<Rightarrow> instant
    \<Rightarrow> 'q master_core \<Rightarrow> 'q master_core" where
  "dispatch_pending_send_with idle now c =
     (case mc_pending_send c of
        None \<Rightarrow> c
      | Some p \<Rightarrow>
          if now \<ge> ps_limit p then drop_pending_with idle now c
          else if now < ps_earliest p then set_deadline (pending_deadline p) c
          else dispatch_frame (ps_post p) now c)"

definition send_encoded_with :: "(instant \<Rightarrow> 'q master_core \<Rightarrow> 'q master_core) \<Rightarrow> post_transmit \<Rightarrow> origin
    \<Rightarrow> instant \<Rightarrow> 'q master_core \<Rightarrow> 'q master_core" where
  "send_encoded_with idle post org now c =
     (let limit = (case org of
            OriginAnswer window \<Rightarrow> rw_give_up window
          | OriginPassToken \<Rightarrow> after now (cf_t_usage_timeout (mc_config c))
          | _ \<Rightarrow> after now T_NO_TOKEN)
      in dispatch_pending_send_with idle now
           (c\<lparr>mc_pending_send := Some \<lparr>ps_post = post, ps_origin = org,
                ps_earliest = after (mc_last_activity c) (cf_t_turnaround (mc_config c)), ps_limit = limit\<rparr>\<rparr>))"

definition queue_frame_with :: "(instant \<Rightarrow> 'q master_core \<Rightarrow> 'q master_core) \<Rightarrow> frame_type \<Rightarrow> octet \<Rightarrow> octets
    \<Rightarrow> post_transmit \<Rightarrow> origin \<Rightarrow> instant \<Rightarrow> 'q master_core \<Rightarrow> 'q master_core" where
  "queue_frame_with idle t destination data post org now c =
     (case encode (new_frame t destination (cf_station (mc_config c)) data) c of
        (True, c) \<Rightarrow> send_encoded_with idle post org now c
      | (False, c) \<Rightarrow> c)"

section \<open>Using the token\<close>

definition queue_poll_with :: "(instant \<Rightarrow> 'q master_core \<Rightarrow> 'q master_core) \<Rightarrow> origin \<Rightarrow> instant
    \<Rightarrow> 'q master_core \<Rightarrow> 'q master_core" where
  "queue_poll_with idle org now c =
     set_state PollForMaster
       (queue_frame_with idle POLL_FOR_MASTER (mc_poll_station c) [] PostPollForMaster org now c)"

definition queue_token_with :: "(instant \<Rightarrow> 'q master_core \<Rightarrow> 'q master_core) \<Rightarrow> octet \<Rightarrow> origin \<Rightarrow> instant
    \<Rightarrow> 'q master_core \<Rightarrow> 'q master_core" where
  "queue_token_with idle destination org now c =
     (if destination = cf_station (mc_config c)
      then queue_poll_with idle org now
             (c\<lparr>mc_poll_station := next_addr (cf_station (mc_config c)) (cf_max_master (mc_config c))\<rparr>)
      else (set_state PassToken (queue_frame_with idle TOKEN destination [] PostPassToken org now c))
             \<lparr>mc_event_count := 0\<rparr>)"

definition next_queue_kind :: "'q queue_ops \<Rightarrow> instant \<Rightarrow> 'q master_core \<Rightarrow> queue_kind option" where
  "next_queue_kind ops now c =
     (let has_u = q_peek_kind ops Unicast now (mc_queues c) \<noteq> None;
          has_b = q_peek_kind ops Broadcast now (mc_queues c) \<noteq> None
      in if \<not> has_u \<and> \<not> has_b then None
         else if has_u \<and> \<not> has_b then Some Unicast
         else if \<not> has_u \<and> has_b then Some Broadcast
         else if mc_consecutive_broadcast c < cf_broadcast_unicast_ratio (mc_config c) then Some Broadcast
         else Some Unicast)"

definition npdu_frame_type :: "bool \<Rightarrow> bool \<Rightarrow> frame_type \<times> post_transmit" where
  "npdu_frame_type expecting extended =
     (case (expecting, extended) of
        (True, False) \<Rightarrow> (BACNET_DATA_EXPECTING_REPLY, PostWaitForReply)
      | (True, True) \<Rightarrow> (BACNET_EXTENDED_DATA_EXPECTING_REPLY, PostWaitForReply)
      | (False, False) \<Rightarrow> (BACNET_DATA_NOT_EXPECTING_REPLY, PostContinueToken)
      | (False, True) \<Rightarrow> (BACNET_EXTENDED_DATA_NOT_EXPECTING_REPLY, PostContinueToken))"

text \<open>The attempts of \<open>dequeue_and_send\<close>, at most \<open>tries\<close> of them.\<close>

fun dequeue_tries_with :: "(instant \<Rightarrow> 'q master_core \<Rightarrow> 'q master_core) \<Rightarrow> 'q queue_ops \<Rightarrow> nat \<Rightarrow> instant
    \<Rightarrow> nat \<Rightarrow> 'q master_core \<Rightarrow> bool \<times> 'q master_core" where
  "dequeue_tries_with idle ops n now 0 c = (False, c)"
| "dequeue_tries_with idle ops n now (Suc tries) c =
     (case next_queue_kind ops now c of
        None \<Rightarrow> (False, c)
      | Some kind \<Rightarrow>
          (case q_dequeue_kind ops kind now n (mc_queues c) of
             (Inr None, q) \<Rightarrow> (False, c\<lparr>mc_queues := q\<rparr>)
           | (Inl _, q) \<Rightarrow> dequeue_tries_with idle ops n now tries (c\<lparr>mc_queues := q\<rparr>)
           | (Inr (Some item), q) \<Rightarrow>
               let c = c\<lparr>mc_queues := q\<rparr>; data = dq_npdu item in
               if length data > n \<or> length data > max_npdu (mc_config c)
               then dequeue_tries_with idle ops n now tries (record_oversize_npdu kind c)
               else
                 let c = c\<lparr>mc_consecutive_broadcast := (if kind = Broadcast
                             then u8_saturating_add (mc_consecutive_broadcast c) 1 else 0),
                           mc_frame_count := u8_saturating_add (mc_frame_count c) 1\<rparr>;
                     expecting = (kind = Unicast \<and> length data \<ge> 2 \<and> data ! 1 AND 0x04 \<noteq> 0);
                     extended = (length data > MAX_STANDARD_MPDU_DATA);
                     (t, post) = npdu_frame_type expecting extended
                 in (case encode (new_frame t (dq_destination item) (cf_station (mc_config c)) data) c of
                       (False, c) \<Rightarrow> dequeue_tries_with idle ops n now tries c
                     | (True, c) \<Rightarrow> (True, send_encoded_with idle post OriginHolder now c))))"

definition dequeue_and_send_with :: "(instant \<Rightarrow> 'q master_core \<Rightarrow> 'q master_core) \<Rightarrow> 'q queue_ops \<Rightarrow> nat
    \<Rightarrow> instant \<Rightarrow> 'q master_core \<Rightarrow> bool \<times> 'q master_core" where
  "dequeue_and_send_with idle ops n now c =
     (let c = c\<lparr>mc_queues := snd (q_expire ops now (mc_queues c))\<rparr> in
      dequeue_tries_with idle ops n now (Suc (total_depth ops (mc_queues c))) c)"

lemma dequeue_tries_False:
  "dequeue_tries_with idle ops n now tries c = (False, c') \<Longrightarrow> mc_token_count c' = mc_token_count c"
proof (induction tries arbitrary: c)
  case (Suc tries)
  have enc: "encode f d = (b, d') \<Longrightarrow> mc_token_count d' = mc_token_count d" for f b and d d' :: "'a master_core"
    by (auto simp: encode_def split: prod.splits sum.splits)
  from Suc.prems show ?case
    by (auto simp: Let_def record_oversize_npdu_def split: option.splits prod.splits sum.splits if_splits
        bool.splits queue_kind.splits dest!: Suc.IH enc)
qed simp

lemma dequeue_and_send_False:
  "dequeue_and_send_with idle ops n now c = (False, c') \<Longrightarrow> mc_token_count c' = mc_token_count c"
  by (auto simp: dequeue_and_send_with_def Let_def simp del: dequeue_tries_with.simps dest: dequeue_tries_False)

lemma set_state_token_count [simp]: "mc_token_count (set_state s c) = mc_token_count c"
  by (simp add: set_state_def)

function done_with_token_with :: "(instant \<Rightarrow> 'q master_core \<Rightarrow> 'q master_core) \<Rightarrow> 'q queue_ops \<Rightarrow> nat
    \<Rightarrow> instant \<Rightarrow> 'q master_core \<Rightarrow> 'q master_core" where
  "done_with_token_with idle ops n now c =
     (let station = cf_station (mc_config c); max_master = cf_max_master (mc_config c);
          next_ts = next_addr station max_master; next_ps = next_addr (mc_poll_station c) max_master in
      if \<not> mc_sole_master c \<and> mc_next_station c = station
      then queue_poll_with idle OriginHolder now (c\<lparr>mc_poll_station := next_ts\<rparr>)
      else if mc_token_count c < N_POLL
      then let c = c\<lparr>mc_token_count := u8_saturating_add (mc_token_count c) 1\<rparr> in
        if mc_sole_master c
        then (case dequeue_and_send_with idle ops n now (set_state UseToken (c\<lparr>mc_frame_count := 0\<rparr>)) of
                (True, c) \<Rightarrow> c
              | (False, c) \<Rightarrow> done_with_token_with idle ops n now c)
        else queue_token_with idle (mc_next_station c) OriginHolder now (c\<lparr>mc_retry_token_count := 0\<rparr>)
      else if next_ps = mc_next_station c \<or> next_ps = station
      then let c = c\<lparr>mc_poll_station := station, mc_token_count := 1\<rparr> in
        if mc_sole_master c
        then queue_poll_with idle OriginHolder now (c\<lparr>mc_next_station := station, mc_poll_station := next_ts\<rparr>)
        else queue_token_with idle (mc_next_station c) OriginHolder now (c\<lparr>mc_retry_token_count := 0\<rparr>)
      else queue_poll_with idle OriginHolder now (c\<lparr>mc_poll_station := next_ps\<rparr>))"
  by pat_completeness auto
termination
proof (relation "measure (\<lambda>(idle, ops, n, now, c). 50 - unat (mc_token_count c))", goal_cases)
  case (2 idle ops n now c station max_master next_ts next_ps d sent c')
  then have "dequeue_and_send_with idle ops n now (set_state UseToken (d\<lparr>mc_frame_count := 0\<rparr>)) = (False, c')"
    by simp
  from dequeue_and_send_False [OF this] 2 have "mc_token_count c' = u8_saturating_add (mc_token_count c) 1" by simp
  moreover have "unat (mc_token_count c) < 50" using 2 by (simp add: N_POLL_def word_less_nat_alt)
  ultimately show ?case by (simp add: u8_saturating_add_def unat_word_ariths)
qed simp

declare done_with_token_with.simps [simp del]

definition frame_limit :: "mstp_core_config \<Rightarrow> octet" where
  "frame_limit cfg =
     (let product = min (unat (cf_max_info_frames cfg) * unat (cf_multiple_frame_ratio cfg)) 65535
      in of_nat (min (max ((product + 99) div 100) 1) (unat (cf_max_info_frames cfg))))"

definition drive_token_with :: "(instant \<Rightarrow> 'q master_core \<Rightarrow> 'q master_core) \<Rightarrow> 'q queue_ops \<Rightarrow> nat
    \<Rightarrow> instant \<Rightarrow> 'q master_core \<Rightarrow> 'q master_core" where
  "drive_token_with idle ops n now c =
     (if mc_active_transmit c \<noteq> None \<or> mc_pending_send c \<noteq> None then c
      else
        let (sent, c) = (if mc_frame_count c < frame_limit (mc_config c)
                         then dequeue_and_send_with idle ops n now c else (False, c))
        in if sent then c else done_with_token_with idle ops n now (set_state DoneWithToken c))"

definition use_received_token_with :: "(instant \<Rightarrow> 'q master_core \<Rightarrow> 'q master_core) \<Rightarrow> 'q queue_ops \<Rightarrow> nat
    \<Rightarrow> instant \<Rightarrow> 'q master_core \<Rightarrow> 'q master_core" where
  "use_received_token_with idle ops n now c =
     drive_token_with idle ops n now
       (set_state UseToken (c\<lparr>mc_sole_master := False, mc_frame_count := 0, mc_retry_token_count := 0\<rparr>))"

text \<open>\<open>enter_idle\<close> without a remembered Token, and with one.\<close>

definition settle_idle :: "instant \<Rightarrow> 'q master_core \<Rightarrow> 'q master_core" where
  "settle_idle now c = set_deadline (after (mc_last_activity c) T_NO_TOKEN) (set_state Idle c)"

definition take_pending_token :: "'q queue_ops \<Rightarrow> nat \<Rightarrow> instant \<Rightarrow> 'q master_core \<Rightarrow> 'q master_core" where
  "take_pending_token ops n now c =
     (if mc_pending_token c
      then use_received_token_with settle_idle ops n now (c\<lparr>mc_pending_token := False\<rparr>)
      else c)"

definition enter_idle :: "'q queue_ops \<Rightarrow> nat \<Rightarrow> instant \<Rightarrow> 'q master_core \<Rightarrow> 'q master_core" where
  "enter_idle ops n now c = take_pending_token ops n now (settle_idle now c)"

text \<open>The cycle closed.\<close>

abbreviation drop_pending :: "'q queue_ops \<Rightarrow> nat \<Rightarrow> instant \<Rightarrow> 'q master_core \<Rightarrow> 'q master_core" where
  "drop_pending ops n \<equiv> drop_pending_with (enter_idle ops n)"

abbreviation dispatch_pending_send :: "'q queue_ops \<Rightarrow> nat \<Rightarrow> instant \<Rightarrow> 'q master_core \<Rightarrow> 'q master_core" where
  "dispatch_pending_send ops n \<equiv> dispatch_pending_send_with (enter_idle ops n)"

abbreviation queue_frame :: "'q queue_ops \<Rightarrow> nat \<Rightarrow> frame_type \<Rightarrow> octet \<Rightarrow> octets \<Rightarrow> post_transmit \<Rightarrow> origin
    \<Rightarrow> instant \<Rightarrow> 'q master_core \<Rightarrow> 'q master_core" where
  "queue_frame ops n \<equiv> queue_frame_with (enter_idle ops n)"

abbreviation queue_poll :: "'q queue_ops \<Rightarrow> nat \<Rightarrow> origin \<Rightarrow> instant \<Rightarrow> 'q master_core \<Rightarrow> 'q master_core" where
  "queue_poll ops n \<equiv> queue_poll_with (enter_idle ops n)"

abbreviation queue_token :: "'q queue_ops \<Rightarrow> nat \<Rightarrow> octet \<Rightarrow> origin \<Rightarrow> instant \<Rightarrow> 'q master_core \<Rightarrow> 'q master_core" where
  "queue_token ops n \<equiv> queue_token_with (enter_idle ops n)"

abbreviation drive_token :: "'q queue_ops \<Rightarrow> nat \<Rightarrow> instant \<Rightarrow> 'q master_core \<Rightarrow> 'q master_core" where
  "drive_token ops n \<equiv> drive_token_with (enter_idle ops n) ops n"

abbreviation use_received_token :: "'q queue_ops \<Rightarrow> nat \<Rightarrow> instant \<Rightarrow> 'q master_core \<Rightarrow> 'q master_core" where
  "use_received_token ops n \<equiv> use_received_token_with (enter_idle ops n) ops n"

section \<open>Losing and passing the token\<close>

text \<open>Where the station's generation window that \<open>now\<close> falls in, or the next one, starts.\<close>

definition generation_cycle :: "mstp_core_config \<Rightarrow> duration" where
  "generation_cycle cfg = duration_saturating_mul T_SLOT (ucast (cf_max_master cfg) + 1)"

definition generation_first :: "mstp_core_config \<Rightarrow> instant \<Rightarrow> instant" where
  "generation_first cfg last_activity =
     after (after last_activity T_NO_TOKEN) (duration_saturating_mul T_SLOT (ucast (cf_station cfg)))"

definition generation_start :: "mstp_core_config \<Rightarrow> instant \<Rightarrow> instant \<Rightarrow> instant" where
  "generation_start cfg last_activity now =
     (let cycle = generation_cycle cfg; first = generation_first cfg last_activity in
      if now \<ge> after first T_SLOT
      then (case duration_checked_rem (saturating_duration_since now first) cycle of
              None \<Rightarrow> first
            | Some offset \<Rightarrow>
                let start = before now offset in
                if offset \<ge> T_SLOT then after start cycle else start)
      else first)"

definition generate_token_if_in_slot :: "'q queue_ops \<Rightarrow> nat \<Rightarrow> instant \<Rightarrow> 'q master_core \<Rightarrow> 'q master_core" where
  "generate_token_if_in_slot ops n now c =
     (let start = generation_start (mc_config c) (mc_last_activity c) now in
      if now < start then set_deadline start c
      else
        let c = (if start \<noteq> generation_first (mc_config c) (mc_last_activity c)
                 then tally record_missed_generation_slot c else c);
            c = tally record_token_regeneration c;
            station = cf_station (mc_config c)
        in queue_poll ops n OriginNoToken now
             (c\<lparr>mc_next_station := station, mc_token_count := 0,
                mc_poll_station := next_addr station (cf_max_master (mc_config c))\<rparr>))"

definition enter_no_token :: "'q queue_ops \<Rightarrow> nat \<Rightarrow> instant \<Rightarrow> 'q master_core \<Rightarrow> 'q master_core" where
  "enter_no_token ops n now c =
     generate_token_if_in_slot ops n now ((set_state NoToken c)\<lparr>mc_retry_token_count := 0, mc_event_count := 0\<rparr>)"

definition pass_token_timeout :: "'q queue_ops \<Rightarrow> nat \<Rightarrow> instant \<Rightarrow> 'q master_core \<Rightarrow> 'q master_core" where
  "pass_token_timeout ops n now c =
     (if mc_event_count c > ucast N_MIN_OCTETS then set_deadline (after now T_NO_TOKEN) (set_state Idle c)
      else if mc_retry_token_count c < N_RETRY_TOKEN
      then queue_token ops n (mc_next_station c) OriginPassToken now
             (tally record_token_retry (c\<lparr>mc_retry_token_count := u8_saturating_add (mc_retry_token_count c) 1\<rparr>))
      else
        let failed = mc_next_station c; station = cf_station (mc_config c);
            max_master = cf_max_master (mc_config c); next = next_addr failed max_master;
            poll = (if next = station then next_addr station max_master else next)
        in queue_poll ops n OriginPassToken now
             (c\<lparr>mc_next_station := station, mc_poll_station := poll, mc_retry_token_count := 0, mc_token_count := 0\<rparr>))"

definition poll_timeout :: "'q queue_ops \<Rightarrow> nat \<Rightarrow> instant \<Rightarrow> 'q master_core \<Rightarrow> 'q master_core" where
  "poll_timeout ops n now c =
     (let station = cf_station (mc_config c) in
      if mc_sole_master c then drive_token ops n now (set_state UseToken (c\<lparr>mc_frame_count := 0\<rparr>))
      else if mc_next_station c \<noteq> station
      then queue_token ops n (mc_next_station c) OriginHolder now (c\<lparr>mc_retry_token_count := 0\<rparr>)
      else
        let next = next_addr (mc_poll_station c) (cf_max_master (mc_config c)) in
        if next = station
        then drive_token ops n now (set_state UseToken (c\<lparr>mc_sole_master := True, mc_frame_count := 0\<rparr>))
        else queue_poll ops n OriginNextPoll now (c\<lparr>mc_poll_station := next\<rparr>))"

definition take_successor :: "'q queue_ops \<Rightarrow> nat \<Rightarrow> octet \<Rightarrow> instant \<Rightarrow> 'q master_core \<Rightarrow> 'q master_core" where
  "take_successor ops n source now c =
     queue_token ops n source OriginHolder now
       (c\<lparr>mc_next_station := source, mc_poll_station := cf_station (mc_config c), mc_token_count := 0,
          mc_retry_token_count := 0, mc_sole_master := False\<rparr>)"

section \<open>Activity on the line\<close>

definition pending_activity :: "'q queue_ops \<Rightarrow> nat \<Rightarrow> instant \<Rightarrow> 'q master_core \<Rightarrow> 'q master_core" where
  "pending_activity ops n now c =
     (case mc_pending_send c of
        None \<Rightarrow> c
      | Some p \<Rightarrow>
          let evidence = (ps_origin p = OriginPassToken \<or> ps_origin p = OriginNoToken)
                \<and> mc_event_count c > ucast N_MIN_OCTETS in
          if now \<ge> ps_limit p \<or> evidence then drop_pending ops n now c
          else
            let p = p\<lparr>ps_earliest := after (mc_last_activity c) (cf_t_turnaround (mc_config c))\<rparr>;
                c = c\<lparr>mc_pending_send := Some p\<rparr>
            in if mc_active_transmit c = None then set_deadline (pending_deadline p) c else c)"

definition note_bus_activity :: "'q queue_ops \<Rightarrow> nat \<Rightarrow> instant \<Rightarrow> u32 \<Rightarrow> 'q master_core \<Rightarrow> 'q master_core" where
  "note_bus_activity ops n now events c0 =
     (let c = c0\<lparr>mc_last_activity := now, mc_event_count := u32_saturating_add (mc_event_count c0) events\<rparr> in
      if mc_pending_send c \<noteq> None then pending_activity ops n now c
      else case mc_state c of
        NoToken \<Rightarrow> set_deadline (after now T_NO_TOKEN) (set_state Idle c)
      | Idle \<Rightarrow> set_deadline (after now T_NO_TOKEN) c
      | PassToken \<Rightarrow>
          if mc_event_count c > ucast N_MIN_OCTETS then set_deadline (after now T_NO_TOKEN) (set_state Idle c)
          else set_deadline (after now (cf_t_usage_timeout (mc_config c))) c
      | PollForMaster \<Rightarrow> set_deadline (after now (cf_t_usage_timeout (mc_config c))) c
      | WaitForReply \<Rightarrow> set_deadline (after now (cf_t_reply_timeout (mc_config c))) c
      | _ \<Rightarrow> c)"

definition abort_partial_if_late :: "instant \<Rightarrow> 'q master_core \<Rightarrow> bool \<times> 'q master_core" where
  "abort_partial_if_late now c =
     (if mc_parser_partial c \<and> (case mc_last_octet c of None \<Rightarrow> False
          | Some last_octet \<Rightarrow> saturating_duration_since now last_octet > cf_t_frame_abort (mc_config c))
      then
        let invalid_candidate = (phase (mc_decoder c) = Header \<or> phase (mc_decoder c) = Data);
            c = tally record_frame_abort (c\<lparr>mc_decoder := reset (mc_decoder c), mc_parser_partial := False\<rparr>)
        in (invalid_candidate, if invalid_candidate then tally record_parser_error c else c)
      else (False, c))"

definition invalid_frame_event :: "'q queue_ops \<Rightarrow> nat \<Rightarrow> instant \<Rightarrow> 'q master_core \<Rightarrow> 'q master_core" where
  "invalid_frame_event ops n now c =
     (if mc_pending_send c \<noteq> None \<or> mc_active_transmit c \<noteq> None then c
      else if mc_state c = WaitForReply then drive_token ops n now (set_state DoneWithToken c)
      else if mc_state c = PollForMaster then poll_timeout ops n now c
      else c)"

section \<open>Received frames\<close>

definition is_data_expecting_reply :: "frame_type \<Rightarrow> bool" where
  "is_data_expecting_reply t \<longleftrightarrow> t = BACNET_DATA_EXPECTING_REPLY \<or> t = BACNET_EXTENDED_DATA_EXPECTING_REPLY"

definition is_data_not_expecting_reply :: "frame_type \<Rightarrow> bool" where
  "is_data_not_expecting_reply t \<longleftrightarrow>
     t = BACNET_DATA_NOT_EXPECTING_REPLY \<or> t = BACNET_EXTENDED_DATA_NOT_EXPECTING_REPLY"

definition deliver :: "nat \<Rightarrow> frame \<Rightarrow> u32 option \<Rightarrow> 'q master_core \<Rightarrow> bool \<times> 'q master_core" where
  "deliver n f request_id c =
     (case enqueue_delivery n (fr_header f) (fr_data f) request_id (mc_actions c) of
        (Inr _, a) \<Rightarrow> (True, tally (if carries_npdu (fh_type (fr_header f)) then record_npdu_delivered
                                   else record_frame_delivered) (c\<lparr>mc_actions := a\<rparr>))
      | (Inl _, a) \<Rightarrow> (False, tally record_delivery_drop (c\<lparr>mc_actions := a\<rparr>)))"

definition goes_up_whole :: "frame \<Rightarrow> 'q master_core \<Rightarrow> bool" where
  "goes_up_whole f c =
     (let header = fr_header f;
          for_us = fh_destination header = cf_station (mc_config c) \<or> fh_destination header = BROADCAST_MAC
      in for_us \<and> (fh_type header = TEST_RESPONSE
           \<or> (is_proprietary (fh_type header) \<and> length (fr_data f) \<ge> 2)))"

definition frame_while_busy :: "nat \<Rightarrow> frame \<Rightarrow> bool \<Rightarrow> 'q master_core \<Rightarrow> 'q master_core" where
  "frame_while_busy n f keep_token c =
     (let header = fr_header f; t = fh_type header;
          for_us = (fh_destination header = cf_station (mc_config c));
          broadcast = (fh_destination header = BROADCAST_MAC) in
      if is_data_not_expecting_reply t \<and> (for_us \<or> broadcast) then snd (deliver n f None c)
      else if is_data_expecting_reply t \<and> broadcast then snd (deliver n f None c)
      else if goes_up_whole f c then snd (deliver n f None c)
      else if t = TOKEN \<and> for_us \<and> keep_token then c\<lparr>mc_pending_token := True\<rparr>
      else if (t = TOKEN \<or> t = POLL_FOR_MASTER \<or> t = BACNET_DATA_EXPECTING_REPLY
               \<or> t = BACNET_EXTENDED_DATA_EXPECTING_REPLY \<or> t = TEST_REQUEST
               \<or> t = REPLY_TO_POLL_FOR_MASTER) \<and> for_us
      then tally record_discarded_while_busy (c\<lparr>mc_pending_token := False\<rparr>)
      else c\<lparr>mc_pending_token := False\<rparr>)"

definition frame_while_pending :: "'q queue_ops \<Rightarrow> nat \<Rightarrow> frame \<Rightarrow> instant \<Rightarrow> 'q master_core
    \<Rightarrow> bool \<times> 'q master_core" where
  "frame_while_pending ops n f now c =
     (case mc_pending_send c of
        None \<Rightarrow> (False, c)
      | Some p \<Rightarrow>
          let header = fr_header f;
              late_poll_reply = (fh_type header = REPLY_TO_POLL_FOR_MASTER
                \<and> fh_destination header = cf_station (mc_config c))
          in (case ps_origin p of
                OriginAnswer _ \<Rightarrow> (True, frame_while_busy n f True c)
              | OriginNextPoll \<Rightarrow>
                  if late_poll_reply then (True, take_successor ops n (fh_source header) now (discard_pending c))
                  else (True, frame_while_busy n f False c)
              | OriginHolder \<Rightarrow> (True, frame_while_busy n f False c)
              | _ \<Rightarrow> (False, drop_pending ops n now c)))"

definition REPLY_GUARD :: duration where "REPLY_GUARD = from_millis 1"

definition reply_window_from :: "instant \<Rightarrow> 'q master_core \<Rightarrow> reply_window" where
  "reply_window_from now c =
     (let send_by = after now (cf_t_reply_delay (mc_config c)) in
      \<lparr>rw_send_by = send_by,
       rw_give_up = max (before (before (after now MIN_REPLY_TIMEOUT) (octet_time (mc_config c))) REPLY_GUARD) send_by\<rparr>)"

definition poll_reply_window :: "instant \<Rightarrow> 'q master_core \<Rightarrow> reply_window" where
  "poll_reply_window now c =
     (let send_by = after now (cf_t_usage_delay (mc_config c)) in
      \<lparr>rw_send_by = send_by,
       rw_give_up = max (before (before (after now MIN_USAGE_TIMEOUT) (octet_time (mc_config c))) REPLY_GUARD) send_by\<rparr>)"

definition release_unanswered_request :: "'q queue_ops \<Rightarrow> nat \<Rightarrow> instant \<Rightarrow> 'q master_core \<Rightarrow> 'q master_core" where
  "release_unanswered_request ops n now c =
     enter_idle ops n now (tally record_expired_request (c\<lparr>mc_pending_request := None\<rparr>))"

definition complete_request :: "'q queue_ops \<Rightarrow> nat \<Rightarrow> u32 \<Rightarrow> reply_decision \<Rightarrow> instant \<Rightarrow> 'q master_core
    \<Rightarrow> (request_error + unit) \<times> 'q master_core" where
  "complete_request ops n rid decision now0 c0 =
     (case observe_time now0 c0 of (now, c) \<Rightarrow>
       (case mc_pending_request c of
          None \<Rightarrow> (Inl ReqNoPending, c)
        | Some request \<Rightarrow>
            if pr_id request \<noteq> rid then (Inl ReqStale, c)
            else if now \<ge> rw_give_up (pr_window request)
            then (Inl ReqExpired, release_unanswered_request ops n now c)
            else
              let reply = (\<lambda>t payload. (Inr (), (queue_frame ops n t (pr_source request) payload PostIdle
                    (OriginAnswer (pr_window request)) now c)\<lparr>mc_pending_request := None\<rparr>))
              in (case decision of
                    ReplyData data \<Rightarrow>
                      if now \<ge> pr_decide_by request then (Inl ReqExpired, c)
                      else if length data > max_npdu (mc_config c)
                      then (Inl (ReqOversize (length data) (max_npdu (mc_config c))), c)
                      else if length data > MAX_STANDARD_MPDU_DATA
                      then reply BACNET_EXTENDED_DATA_NOT_EXPECTING_REPLY data
                      else reply BACNET_DATA_NOT_EXPECTING_REPLY data
                  | ReplyPostponed \<Rightarrow> reply REPLY_POSTPONED []
                  | ReplyAbandoned \<Rightarrow> (Inr (), enter_idle ops n now (c\<lparr>mc_pending_request := None\<rparr>)))))"

definition reply_deadline :: "'q queue_ops \<Rightarrow> nat \<Rightarrow> instant \<Rightarrow> 'q master_core \<Rightarrow> 'q master_core" where
  "reply_deadline ops n now c =
     (case mc_pending_request c of
        None \<Rightarrow> enter_idle ops n now c
      | Some request \<Rightarrow> snd (complete_request ops n (pr_id request) ReplyPostponed now c))"

definition begin_request :: "'q queue_ops \<Rightarrow> nat \<Rightarrow> frame \<Rightarrow> instant \<Rightarrow> 'q master_core \<Rightarrow> 'q master_core" where
  "begin_request ops n f now c =
     (let rid = mc_next_request_generation c; window = reply_window_from now c;
          request = \<lparr>pr_id = rid, pr_source = fh_source (fr_header f),
            pr_decide_by = before (rw_send_by window) (cf_reply_transmit_margin (mc_config c)), pr_window = window\<rparr>;
          c = set_state AnswerDataRequest
                (c\<lparr>mc_next_request_generation := rid + 1, mc_pending_request := Some request\<rparr>);
          c = set_deadline (pr_decide_by request) c
      in (case deliver n f (Some rid) c of
            (True, c) \<Rightarrow> c
          | (False, c) \<Rightarrow> snd (complete_request ops n rid ReplyPostponed now c)))"

definition process_wait_for_reply :: "'q queue_ops \<Rightarrow> nat \<Rightarrow> frame \<Rightarrow> instant \<Rightarrow> 'q master_core \<Rightarrow> 'q master_core" where
  "process_wait_for_reply ops n f now c =
     (let t = fh_type (fr_header f);
          is_reply = fh_destination (fr_header f) = cf_station (mc_config c)
            \<and> (is_data_not_expecting_reply t \<or> t = TEST_RESPONSE \<or> t = REPLY_POSTPONED) in
      if \<not> is_reply then set_deadline (after now T_NO_TOKEN) (set_state Idle c)
      else
        let c = (if t \<noteq> REPLY_POSTPONED then snd (deliver n f None c) else c)
        in drive_token ops n now (set_state DoneWithToken c))"

text \<open>The \<open>match\<close> on the frame type at the end of \<open>process_frame\<close>, in IDLE.\<close>

definition process_in_idle :: "'q queue_ops \<Rightarrow> nat \<Rightarrow> frame \<Rightarrow> instant \<Rightarrow> 'q master_core \<Rightarrow> 'q master_core" where
  "process_in_idle ops n f now c =
     (let header = fr_header f; t = fh_type header;
          for_us = (fh_destination header = cf_station (mc_config c));
          broadcast = (fh_destination header = BROADCAST_MAC) in
      if t = TOKEN \<and> for_us then use_received_token ops n now c
      else if t = POLL_FOR_MASTER \<and> for_us
      then queue_frame ops n REPLY_TO_POLL_FOR_MASTER (fh_source header) [] PostIdle
             (OriginAnswer (poll_reply_window now c)) now c
      else if is_data_not_expecting_reply t \<and> (for_us \<or> broadcast) then snd (deliver n f None c)
      else if is_data_expecting_reply t \<and> broadcast then snd (deliver n f None c)
      else if is_data_expecting_reply t \<and> for_us then begin_request ops n f now c
      else if t = TEST_REQUEST \<and> for_us
      then queue_frame ops n TEST_RESPONSE (fh_source header) (fr_data f) PostIdle
             (OriginAnswer (reply_window_from now c)) now c
      else if goes_up_whole f c then snd (deliver n f None c)
      else c)"

definition process_frame :: "'q queue_ops \<Rightarrow> nat \<Rightarrow> frame \<Rightarrow> instant \<Rightarrow> 'q master_core \<Rightarrow> 'q master_core" where
  "process_frame ops n f now c =
     (let c = tally record_frame_received c;
          c = (if fh_source (fr_header f) = cf_station (mc_config c) then tally record_own_address_frame c else c)
      in case frame_while_pending ops n f now c of
        (True, c) \<Rightarrow> c
      | (False, c) \<Rightarrow>
          if mc_pending_request c \<noteq> None \<or> mc_state c = AnswerDataRequest then frame_while_busy n f True c
          else
            let c = (if mc_state c = PassToken then set_deadline (after now T_NO_TOKEN) (set_state Idle c) else c)
            in if mc_state c = WaitForReply then process_wait_for_reply ops n f now c
               else if mc_state c = PollForMaster
               then (if fh_type (fr_header f) = REPLY_TO_POLL_FOR_MASTER
                        \<and> fh_destination (fr_header f) = cf_station (mc_config c)
                     then take_successor ops n (fh_source (fr_header f)) now c
                     else set_deadline (after now T_NO_TOKEN) (set_state Idle c))
               else process_in_idle ops n f now c)"

section \<open>The octet path\<close>

definition dropped_candidate_is_invalid :: "frame_error \<Rightarrow> octet option \<Rightarrow> 'q master_core \<Rightarrow> bool" where
  "dropped_candidate_is_invalid error destination c =
     (case error of
        FrameTooLong _ _ \<Rightarrow> (case destination of None \<Rightarrow> True
          | Some address \<Rightarrow> address = cf_station (mc_config c) \<or> address = BROADCAST_MAC)
      | UnsupportedCobsFrame _ \<Rightarrow> (case destination of None \<Rightarrow> True
          | Some address \<Rightarrow> address = cf_station (mc_config c) \<or> address = BROADCAST_MAC)
      | DataCrcMismatch _ \<Rightarrow> (case destination of None \<Rightarrow> True
          | Some address \<Rightarrow> address = cf_station (mc_config c) \<or> address = BROADCAST_MAC)
      | _ \<Rightarrow> True)"

text \<open>One event of the drain: the candidate it dropped, if any, and the core after a frame it brought.\<close>

definition drain_event :: "'q queue_ops \<Rightarrow> nat \<Rightarrow> decode_event \<Rightarrow> instant \<Rightarrow> 'q master_core \<Rightarrow> 'q master_core" where
  "drain_event ops n ev now c =
     (let (dropped, c) = (case ev of
            FrameEvent f _ \<Rightarrow>
              if is_cobs (fh_type (fr_header f)) \<and> \<not> cf_extended_frames (mc_config c)
              then (Some (UnsupportedCobsFrame (to_raw (fh_type (fr_header f))), Some (fh_destination (fr_header f))), c)
              else (None, process_frame ops n f now c)
          | Malformed _ error destination \<Rightarrow> (Some (error, destination), c)
          | ErrorEvent error \<Rightarrow> (Some (error, None), c)
          | _ \<Rightarrow> (None, c))
      in case dropped of
           Some (error, destination) \<Rightarrow>
             if dropped_candidate_is_invalid error destination c
             then invalid_frame_event ops n now (tally record_parser_error c) else c
         | None \<Rightarrow> c)"

text \<open>The drain loop; \<open>None\<close> when \<open>fuel\<close> pushes do not end it.\<close>

fun drain_decoder :: "'q queue_ops \<Rightarrow> nat \<Rightarrow> nat \<Rightarrow> stream_decoder \<Rightarrow> octets \<Rightarrow> instant \<Rightarrow> 'q master_core
    \<Rightarrow> (stream_decoder \<times> 'q master_core) option" where
  "drain_decoder ops n 0 decoder input now c = None"
| "drain_decoder ops n (Suc fuel) decoder input now c =
     (case push_slice input decoder of
        (NeedMore, decoder) \<Rightarrow> Some (decoder, c)
      | (ev, decoder) \<Rightarrow> drain_decoder ops n fuel decoder [] now (drain_event ops n ev now c))"

definition decode_octet :: "'q queue_ops \<Rightarrow> nat \<Rightarrow> octet \<Rightarrow> instant \<Rightarrow> 'q master_core \<Rightarrow> 'q master_core option" where
  "decode_octet ops n byte now c =
     (let decoder = mc_decoder c in
      map_option (\<lambda>(decoder, c). c\<lparr>mc_decoder := decoder\<rparr>)
        (drain_decoder ops n (capacity decoder + 3) decoder [byte] now (c\<lparr>mc_decoder := new_decoder []\<rparr>)))"

section \<open>Calls into the core\<close>

definition enqueue_npdu :: "'q queue_ops \<Rightarrow> octet \<Rightarrow> octets \<Rightarrow> network_priority \<Rightarrow> instant \<Rightarrow> 'q master_core
    \<Rightarrow> (queue_refusal + unit) \<times> 'q master_core" where
  "enqueue_npdu ops destination npdu priority now c =
     (let now = max now (mc_last_now c) in
      if length npdu > max_npdu (mc_config c)
      then (Inl QueueOversize, record_oversize_npdu (from_destination destination) c)
      else
        let (r, q) = q_enqueue_npdu ops destination npdu priority now
              (Some (instant_saturating_add now (cf_queue_max_age (mc_config c)))) (mc_queues c)
        in (r, c\<lparr>mc_queues := q\<rparr>))"

definition on_octet :: "'q queue_ops \<Rightarrow> nat \<Rightarrow> octet \<Rightarrow> instant \<Rightarrow> 'q master_core \<Rightarrow> 'q master_core option" where
  "on_octet ops n byte now0 c0 =
     (case observe_time now0 c0 of (now, c) \<Rightarrow>
       if transmitting c then Some c
       else
         let (timed_out_candidate, c) = abort_partial_if_late now c;
             c = note_bus_activity ops n now 1 c;
             c = (if timed_out_candidate then invalid_frame_event ops n now c else c)
         in map_option (\<lambda>c. c\<lparr>mc_parser_partial := (phase (mc_decoder c) \<noteq> Sync)\<rparr>)
              (decode_octet ops n byte now (c\<lparr>mc_last_octet := Some now\<rparr>)))"

definition on_validated_frame :: "'q queue_ops \<Rightarrow> nat \<Rightarrow> frame \<Rightarrow> instant \<Rightarrow> 'q master_core \<Rightarrow> 'q master_core" where
  "on_validated_frame ops n f now0 c0 =
     (let header = fr_header f;
          extended = (cf_extended_frames (mc_config c0) \<and> is_cobs (fh_type header));
          too_long = (if \<not> extended then length (fr_data f) > MAX_STANDARD_MPDU_DATA
                      else if is_extended_data (fh_type header) then length (fr_data f) > MAX_EXTENDED_MPDU_DATA
                      else False);
          undecodable = too_long \<or> fh_source header = BROADCAST_MAC \<or> (is_cobs (fh_type header) \<and> \<not> extended)
      in if undecodable then tally record_adapter_error c0
         else case observe_time now0 c0 of (now, c) \<Rightarrow>
           if transmitting c then c
           else process_frame ops n f now (note_bus_activity ops n now 1 c))"

definition on_invalid_frame :: "'q queue_ops \<Rightarrow> nat \<Rightarrow> instant \<Rightarrow> 'q master_core \<Rightarrow> 'q master_core" where
  "on_invalid_frame ops n now0 c0 =
     (case observe_time now0 c0 of (now, c) \<Rightarrow>
       if transmitting c then c
       else invalid_frame_event ops n now (tally record_parser_error (note_bus_activity ops n now 1 c)))"

definition on_host_activity :: "'q queue_ops \<Rightarrow> nat \<Rightarrow> nat \<Rightarrow> instant \<Rightarrow> 'q master_core \<Rightarrow> 'q master_core" where
  "on_host_activity ops n octets now0 c0 =
     (case observe_time now0 c0 of (now, c) \<Rightarrow>
       if transmitting c \<or> octets = 0 then c
       else note_bus_activity ops n now (if octets < 2 ^ 32 then of_nat octets else - 1) c)"

definition on_receive_error :: "'q queue_ops \<Rightarrow> nat \<Rightarrow> receive_error \<Rightarrow> instant \<Rightarrow> 'q master_core \<Rightarrow> 'q master_core" where
  "on_receive_error ops n error now0 c0 =
     (case observe_time now0 c0 of (now, c) \<Rightarrow>
       if transmitting c then c
       else
         let c = note_bus_activity ops n now 1 (tally (record_receive_error error) c);
             invalid_candidate = (phase (mc_decoder c) = Header \<or> phase (mc_decoder c) = Data);
             c = c\<lparr>mc_decoder := reset (mc_decoder c), mc_parser_partial := False\<rparr>
         in if invalid_candidate then invalid_frame_event ops n now (tally record_parser_error c) else c)"

definition on_silence :: "'q queue_ops \<Rightarrow> nat \<Rightarrow> instant \<Rightarrow> 'q master_core \<Rightarrow> 'q master_core" where
  "on_silence ops n now0 c0 =
     (case observe_time now0 c0 of (now, c) \<Rightarrow>
       (case abort_partial_if_late now c of
          (True, c) \<Rightarrow> invalid_frame_event ops n now c
        | (False, c) \<Rightarrow> c))"

definition on_transmit_started :: "'q queue_ops \<Rightarrow> nat \<Rightarrow> u32 \<Rightarrow> instant \<Rightarrow> 'q master_core
    \<Rightarrow> (transmit_error + octets) \<times> 'q master_core" where
  "on_transmit_started ops n tid now0 c0 =
     (case observe_time now0 c0 of (now, c) \<Rightarrow>
       (case mc_active_transmit c of
          None \<Rightarrow> (Inl TxStale, c)
        | Some tx \<Rightarrow>
            if tx_id tx \<noteq> tid then (Inl TxStale, c)
            else if tx_started tx then (Inl TxAlreadyStarted, tally record_adapter_error c)
            else if transmit_queued tid (mc_actions c) then (Inl TxNotPolled, tally record_adapter_error c)
            else (case mc_pending_send c of
              None \<Rightarrow> (Inl TxStale, c)
            | Some p \<Rightarrow>
                let window = (case ps_origin p of OriginAnswer w \<Rightarrow> Some w | _ \<Rightarrow> None) in
                if (case window of Some w \<Rightarrow> now \<ge> rw_give_up w | None \<Rightarrow> False)
                then (Inl TxExpired, drop_pending ops n now c)
                else if now < ps_earliest p
                then
                  let c = tally record_deferred_start (withdraw_transmit tid c)
                  in (Inl TxDeferred, if now \<ge> ps_limit p then drop_pending ops n now c
                                      else set_deadline (pending_deadline p) c)
                else
                  let c = (if (case window of Some w \<Rightarrow> now > rw_send_by w | None \<Rightarrow> False)
                           then tally record_late_reply c else c);
                      c = snd (abort_partial_if_late now c);
                      c = (if mc_parser_partial c
                           then tally record_frame_abort (c\<lparr>mc_decoder := reset (mc_decoder c), mc_parser_partial := False\<rparr>)
                           else c);
                      c = c\<lparr>mc_pending_send := None,
                            mc_active_transmit := Some (tx\<lparr>tx_started := True, tx_asserted_at := now\<rparr>)\<rparr>
                  in (Inr (queued_frame (mc_actions c)), c))))"

definition on_transmit_complete :: "'q queue_ops \<Rightarrow> nat \<Rightarrow> u32 \<Rightarrow> instant \<Rightarrow> 'q master_core \<Rightarrow> 'q master_core" where
  "on_transmit_complete ops n tid now0 c0 =
     (case observe_time now0 c0 of (now, c) \<Rightarrow>
       (case mc_active_transmit c of
          None \<Rightarrow> c
        | Some tx \<Rightarrow>
            if tx_id tx \<noteq> tid then c
            else if \<not> tx_started tx then tally record_adapter_error c
            else
              let c = c\<lparr>mc_actions := queue_receive (mc_actions c), mc_active_transmit := None, mc_last_activity := now\<rparr>;
                  c = tally record_frame_transmitted
                        (tally (record_de_assertion (saturating_duration_since now (tx_asserted_at tx))) c)
              in (case tx_post tx of
                    PostIdle \<Rightarrow> enter_idle ops n now c
                  | PostContinueToken \<Rightarrow> drive_token ops n now (set_state UseToken c)
                  | PostWaitForReply \<Rightarrow>
                      set_deadline (after now (cf_t_reply_timeout (mc_config c))) (set_state WaitForReply c)
                  | PostPassToken \<Rightarrow>
                      tally record_token_rotation (set_deadline (after now (cf_t_usage_timeout (mc_config c)))
                        ((set_state PassToken c)\<lparr>mc_event_count := 0\<rparr>))
                  | PostPollForMaster \<Rightarrow>
                      set_deadline (after now (cf_t_usage_timeout (mc_config c))) (set_state PollForMaster c))))"

definition on_transmit_aborted :: "'q queue_ops \<Rightarrow> nat \<Rightarrow> u32 \<Rightarrow> transmit_failure \<Rightarrow> instant
    \<Rightarrow> 'q master_core \<Rightarrow> 'q master_core" where
  "on_transmit_aborted ops n tid reason now0 c0 =
     (case observe_time now0 c0 of (now, c) \<Rightarrow>
       (case mc_active_transmit c of
          None \<Rightarrow> c
        | Some tx \<Rightarrow>
            if tx_id tx \<noteq> tid then c
            else
              let c = forget_pending (withdraw_transmit tid (tally (record_transmit_failure reason) c));
                  c = (if tx_started tx
                       then tally (record_de_assertion (saturating_duration_since now (tx_asserted_at tx)))
                              (c\<lparr>mc_last_activity := now\<rparr>)
                       else c)
              in take_pending_token ops n now (set_deadline (after now T_NO_TOKEN) (set_state Idle c))))"

definition on_deadline :: "'q queue_ops \<Rightarrow> nat \<Rightarrow> instant \<Rightarrow> 'q master_core \<Rightarrow> 'q master_core" where
  "on_deadline ops n now0 c0 =
     (case observe_time now0 c0 of (now, c) \<Rightarrow>
       let (late, c) = abort_partial_if_late now c;
           c = (if late then invalid_frame_event ops n now c else c)
       in (case next_deadline c of
             None \<Rightarrow> c
           | Some deadline \<Rightarrow>
               if now < deadline then c
               else
                 let c = tally (record_deadline (saturating_duration_since now deadline) (cf_late_deadline (mc_config c))) c in
                 (case mc_active_transmit c of
                    Some tx \<Rightarrow>
                      if now \<ge> after (tx_asserted_at tx) (cf_transmit_watchdog (mc_config c))
                      then on_transmit_aborted ops n (tx_id tx) Timeout now c else c
                  | None \<Rightarrow>
                      if mc_pending_send c \<noteq> None then dispatch_pending_send ops n now c
                      else (case mc_state c of
                          Idle \<Rightarrow> enter_no_token ops n now c
                        | NoToken \<Rightarrow> generate_token_if_in_slot ops n now c
                        | WaitForReply \<Rightarrow>
                            drive_token ops n now
                              (set_state DoneWithToken (c\<lparr>mc_frame_count := cf_max_info_frames (mc_config c)\<rparr>))
                        | AnswerDataRequest \<Rightarrow> reply_deadline ops n now c
                        | PassToken \<Rightarrow> pass_token_timeout ops n now c
                        | PollForMaster \<Rightarrow> poll_timeout ops n now c
                        | _ \<Rightarrow> drive_token ops n now c))))"

definition poll_action :: "'q master_core \<Rightarrow> action \<times> 'q master_core" where
  "poll_action c = (let (a, q) = poll (mc_actions c) in (a, c\<lparr>mc_actions := q\<rparr>))"

section \<open>The cycle is the code's recursion\<close>

text \<open>
  Two ways of going idle that agree where no Token is remembered make the same of every
  operation that starts there: the operations never remember one.
\<close>

lemma discard_token [simp]: "mc_pending_token (discard_pending c) = mc_pending_token c"
  by (simp add: discard_pending_def forget_pending_def withdraw_transmit_def Let_def
      split: option.split origin.split)

lemma encode_token: "encode f c = (b, d) \<Longrightarrow> mc_pending_token d = mc_pending_token c"
  by (auto simp: encode_def split: prod.splits sum.splits)

lemma set_state_token [simp]: "mc_pending_token (set_state s c) = mc_pending_token c"
  by (simp add: set_state_def)

locale agreeing_idle =
  fixes i j :: "instant \<Rightarrow> 'q master_core \<Rightarrow> 'q master_core"
  assumes agree: "\<not> mc_pending_token c \<Longrightarrow> i now c = j now c"
begin

lemma send_encoded_agree:
  "\<not> mc_pending_token c \<Longrightarrow> send_encoded_with i post org now c = send_encoded_with j post org now c"
  by (simp add: send_encoded_with_def dispatch_pending_send_with_def drop_pending_with_def agree Let_def)

lemma queue_frame_agree:
  "\<not> mc_pending_token c \<Longrightarrow>
     queue_frame_with i t dst data post org now c = queue_frame_with j t dst data post org now c"
  by (auto simp: queue_frame_with_def dest: encode_token intro!: send_encoded_agree split: prod.split bool.split)

lemma queue_poll_agree:
  "\<not> mc_pending_token c \<Longrightarrow> queue_poll_with i org now c = queue_poll_with j org now c"
  by (auto simp: queue_poll_with_def queue_frame_agree)

lemma queue_token_agree:
  "\<not> mc_pending_token c \<Longrightarrow> queue_token_with i dst org now c = queue_token_with j dst org now c"
  by (auto simp: queue_token_with_def queue_frame_agree queue_poll_agree)

lemma dequeue_tries_agree:
  "\<not> mc_pending_token c \<Longrightarrow>
     dequeue_tries_with i ops n now tries c = dequeue_tries_with j ops n now tries c
     \<and> (\<forall>c'. dequeue_tries_with i ops n now tries c = (False, c') \<longrightarrow> \<not> mc_pending_token c')"
proof (induction tries arbitrary: c)
  case (Suc tries)
  have ih: "dequeue_tries_with i ops n now tries d = dequeue_tries_with j ops n now tries d
     \<and> (\<forall>c'. dequeue_tries_with i ops n now tries d = (False, c') \<longrightarrow> \<not> mc_pending_token c')"
    if "\<not> mc_pending_token d" for d using Suc.IH that by blast
  have over: "mc_pending_token (record_oversize_npdu k d) = mc_pending_token d" for k and d :: "'q master_core"
    by (simp add: record_oversize_npdu_def split: queue_kind.split)
  show ?case
  proof (cases "next_queue_kind ops now c")
    case (Some kind)
    obtain r q where d: "q_dequeue_kind ops kind now n (mc_queues c) = (r, q)" by fastforce
    consider (empty) "r = Inr None" | (refused) e where "r = Inl e" | (item) x where "r = Inr (Some x)"
      by (metis option.exhaust sum.exhaust)
    then show ?thesis
    proof cases
      case item
      let ?c1 = "c\<lparr>mc_queues := q, mc_consecutive_broadcast := (if kind = Broadcast
                      then u8_saturating_add (mc_consecutive_broadcast c) 1 else 0),
                    mc_frame_count := u8_saturating_add (mc_frame_count c) 1\<rparr>"
      obtain t post where tp: "npdu_frame_type (kind = Unicast \<and> length (dq_npdu x) \<ge> 2 \<and> dq_npdu x ! 1 AND 0x04 \<noteq> 0)
            (length (dq_npdu x) > MAX_STANDARD_MPDU_DATA) = (t, post)" by fastforce
      obtain b c2 where e: "encode (new_frame t (dq_destination x) (cf_station (mc_config c)) (dq_npdu x)) ?c1 = (b, c2)"
        by fastforce
      have c2: "\<not> mc_pending_token c2" using encode_token [OF e] Suc.prems(1) by simp
      show ?thesis
      proof (cases "length (dq_npdu x) > n \<or> length (dq_npdu x) > max_npdu (mc_config c)")
        case True
        then have "dequeue_tries_with k ops n now (Suc tries) c
            = dequeue_tries_with k ops n now tries (record_oversize_npdu kind (c\<lparr>mc_queues := q\<rparr>))" for k
          using Some d item by (auto simp: Let_def)
        with ih [of "record_oversize_npdu kind (c\<lparr>mc_queues := q\<rparr>)"] over Suc.prems(1) show ?thesis by simp
      next
        case False
        have "dequeue_tries_with k ops n now (Suc tries) c
            = (if b then (True, send_encoded_with k post OriginHolder now c2) else dequeue_tries_with k ops n now tries c2)" for k
          using Some d item False tp e
          by (cases b) (simp_all add: Let_def split del: if_split cong: if_cong)
        with send_encoded_agree [OF c2] ih [OF c2] show ?thesis by (cases b) auto
      qed
    next
      case refused
      then have "dequeue_tries_with k ops n now (Suc tries) c = dequeue_tries_with k ops n now tries (c\<lparr>mc_queues := q\<rparr>)" for k
        using Some d by simp
      with ih [of "c\<lparr>mc_queues := q\<rparr>"] Suc.prems show ?thesis by simp
    qed (use Some d Suc.prems in auto)
  qed (use Suc.prems in simp)
qed simp

lemma dequeue_and_send_agree:
  assumes "\<not> mc_pending_token c"
  shows "dequeue_and_send_with i ops n now c = dequeue_and_send_with j ops n now c
     \<and> (\<forall>c'. dequeue_and_send_with i ops n now c = (False, c') \<longrightarrow> \<not> mc_pending_token c')"
  using dequeue_tries_agree [of "c\<lparr>mc_queues := snd (q_expire ops now (mc_queues c))\<rparr>" ops n now] assms
  unfolding dequeue_and_send_with_def Let_def by (simp del: dequeue_tries_with.simps)

lemma done_agree:
  "\<not> mc_pending_token c \<Longrightarrow> done_with_token_with i ops n now c = done_with_token_with j ops n now c"
proof (induction "50 - unat (mc_token_count c)" arbitrary: c rule: less_induct)
  case less
  let ?d = "set_state UseToken (c\<lparr>mc_token_count := u8_saturating_add (mc_token_count c) 1, mc_frame_count := 0\<rparr>)"
  note dq = dequeue_and_send_agree [of ?d ops n now]
  obtain sent c' where d: "dequeue_and_send_with i ops n now ?d = (sent, c')" by fastforce
  have again: "done_with_token_with i ops n now c' = done_with_token_with j ops n now c'"
    if "mc_token_count c < N_POLL" "\<not> sent"
  proof (rule less.hyps )
    have "mc_token_count c' = u8_saturating_add (mc_token_count c) 1"
      using dequeue_and_send_False [of i ops n now ?d c'] d that by simp
    then show "50 - unat (mc_token_count c') < 50 - unat (mc_token_count c)"
      using that(1) by (simp add: u8_saturating_add_def unat_word_ariths N_POLL_def word_less_nat_alt)
    have "\<not> mc_pending_token ?d" using less.prems by simp
    from conjunct2 [OF dq [OF this]] d that show "\<not> mc_pending_token c'" by simp
  qed
  have free: "\<not> mc_pending_token ?d" using less.prems by simp
  note di = d and dj = trans [OF sym [OF conjunct1 [OF dq [OF free]]] d]
  have sole: "done_with_token_with k ops n now c = (if sent then c' else done_with_token_with k ops n now c')"
    if "mc_sole_master c" "mc_token_count c < N_POLL" "dequeue_and_send_with k ops n now (set_state UseToken
        (c\<lparr>mc_token_count := u8_saturating_add (mc_token_count c) 1\<rparr>\<lparr>mc_frame_count := 0\<rparr>)) = (sent, c')" for k
    using that unfolding done_with_token_with.simps [of k ops n now c] Let_def by (cases sent) simp_all
  show ?case
  proof (cases "mc_sole_master c \<and> mc_token_count c < N_POLL")
    case True
    then show ?thesis using sole [OF _ _ di] sole [OF _ _ dj] again by (cases sent) simp_all
  next
    case False
    with less.prems show ?thesis
      unfolding done_with_token_with.simps [of i ops n now c] done_with_token_with.simps [of j ops n now c] Let_def
      by (auto simp: queue_poll_agree queue_token_agree)
  qed
qed

lemma drive_agree:
  assumes "\<not> mc_pending_token c"
  shows "drive_token_with i ops n now c = drive_token_with j ops n now c"
proof -
  obtain sent c' where d: "dequeue_and_send_with i ops n now c = (sent, c')" by fastforce
  then show ?thesis
    using dequeue_and_send_agree [OF assms, of ops n now] assms
    by (simp add: drive_token_with_def done_agree)
qed

end

interpretation idling: agreeing_idle settle_idle "enter_idle ops n" for ops n
  by unfold_locales (simp add: enter_idle_def take_pending_token_def settle_idle_def)

lemma enter_idle_unfold:
  "enter_idle ops n now c =
     (let c = set_deadline (after (mc_last_activity c) T_NO_TOKEN) (set_state Idle c) in
      if mc_pending_token c then use_received_token ops n now (c\<lparr>mc_pending_token := False\<rparr>) else c)"
  unfolding enter_idle_def [of ops n now c] take_pending_token_def use_received_token_with_def
  using idling.drive_agree [where ops = ops and n = n] by (simp add: settle_idle_def set_state_def)

end
