(* ===== verification/Mstp_Master_Inv.thy ===== *)
theory Mstp_Master_Inv
  imports Mstp_Master
begin

text \<open>
  What the MS/TP master core keeps from call to call: at most one frame of its own waits or is
  on the wire, its waiting frame starts no sooner than \<open>T_turnaround\<close> after the last
  activity, the frame buffer holds that frame whole, a deadline is always set, and a remembered
  Token belongs to an answer. The functions on the cycle through \<open>enter_idle\<close> are handled
  once, in the locale \<open>giving_up\<close>, which is interpreted on both ways of going idle.
\<close>

unbundle bit_operations_syntax

section \<open>What validation gives\<close>

lemma validate_station:
  assumes "validate cfg = Inr ()"
  shows "cf_station cfg \<le> cf_max_master cfg \<and> cf_max_master cfg \<le> 127 \<and> cf_max_info_frames cfg \<noteq> 0"
  using assms by (auto simp: validate_def MAX_MASTER_def linorder_not_less split: if_splits)

lemma station_not_broadcast: "validate cfg = Inr () \<Longrightarrow> cf_station cfg \<noteq> BROADCAST_MAC"
  using validate_station [of cfg] by (auto simp: BROADCAST_MAC_def word_le_nat_alt)

section \<open>Frames this station builds\<close>

definition sendable :: "mstp_core_config \<Rightarrow> frame_type \<Rightarrow> octets \<Rightarrow> bool" where
  "sendable cfg t data \<longleftrightarrow>
     t \<in> {TOKEN, POLL_FOR_MASTER, REPLY_TO_POLL_FOR_MASTER, REPLY_POSTPONED} \<and> data = []
   \<or> t \<in> {TEST_RESPONSE, BACNET_DATA_EXPECTING_REPLY, BACNET_DATA_NOT_EXPECTING_REPLY}
       \<and> length data \<le> MAX_STANDARD_MPDU_DATA
   \<or> t \<in> {BACNET_EXTENDED_DATA_EXPECTING_REPLY, BACNET_EXTENDED_DATA_NOT_EXPECTING_REPLY}
       \<and> cf_extended_frames cfg \<and> length data \<le> MAX_EXTENDED_MPDU_DATA \<and> MAX_STANDARD_MPDU_DATA < length data"

definition room_for :: "mstp_core_config \<Rightarrow> nat \<Rightarrow> bool" where
  "room_for cfg len \<longleftrightarrow> MAX_STANDARD_FRAME_LENGTH \<le> len \<and> (cf_extended_frames cfg \<longrightarrow> MAX_EXTENDED_FRAME_LENGTH \<le> len)"

lemma sendable_checked:
  assumes "sendable cfg t data" "src \<noteq> BROADCAST_MAC" "room_for cfg len"
  shows "\<exists>k. checked_length (new_frame t dst src data) = Inr k \<and> wire_length k \<le> len"
proof (cases "is_extended_data t")
  case True
  then have len: "length data \<le> 1497" "501 < length data" "1516 \<le> len" "is_cobs t"
    using assms by (auto simp: sendable_def frame_type_consts is_extended_data_def room_for_def is_cobs_def
        frame_consts MAX_EXTENDED_MPDU_DATA_def MAX_EXTENDED_FRAME_LENGTH_def)
  have "length (cobs_encode data) \<le> 1503" "501 < length (cobs_encode data)"
    using cobs_encode_overhead [of data] cobs_encode_longer [of data] len by linarith+
  then have fl: "frame_length data \<le> 1506" "504 < frame_length data" by (simp_all add: frame_length_eq)
  have "allows_data t" "\<not> is_proprietary t" using True by (auto simp: allows_data_def is_extended_data_def is_proprietary_def)
  then have "checked_length (new_frame t dst src data) = Inr (frame_length data)"
    using fl True len(4) assms(2)
    by (simp add: checked_length_def check_header_fields_def new_frame_def MIN_COBS_LENGTH_def MAX_COBS_LENGTH_def)
  moreover have "wire_length (frame_length data) \<le> len" using fl len(3) by (simp add: wire_length_def TRAILER_LENGTH_def)
  ultimately show ?thesis by blast
next
  case False
  then have t: "to_raw t \<in> {0, 1, 2, 7} \<and> data = [] \<or> to_raw t \<in> {4, 5, 6}" "length data \<le> 501"
    using assms(1) by (auto simp: sendable_def frame_type_consts is_extended_data_def MAX_STANDARD_MPDU_DATA_def)
  then have "\<not> is_cobs t" "\<not> is_proprietary t" "data = [] \<or> allows_data t"
    by (auto simp: is_cobs_def is_proprietary_def allows_data_def word_le_nat_alt)
  then have "checked_length (new_frame t dst src data) = Inr (length data)"
    using t(2) assms(2) by (simp add: checked_length_def check_header_fields_def new_frame_def MAX_STANDARD_MPDU_DATA_def Let_def)
  moreover have "wire_length (length data) \<le> len" using t(2) assms(3)
    by (simp add: wire_length_def TRAILER_LENGTH_def room_for_def MAX_STANDARD_FRAME_LENGTH_def frame_consts)
  ultimately show ?thesis by blast
qed

text \<open>The frame buffer holds, whole, a frame that came from this station.\<close>

definition holds_frame :: "'q master_core \<Rightarrow> bool" where
  "holds_frame c \<longleftrightarrow> (\<exists>f k. checked_length f = Inr k \<and> fh_source (fr_header f) = cf_station (mc_config c)
     \<and> queued_frame (mc_actions c) = frame_octets f)"

lemma encode_holds:
  assumes "sendable (mc_config c) t data" "validate (mc_config c) = Inr ()"
    "room_for (mc_config c) (length (ac_frame (mc_actions c)))"
  shows "\<exists>a. encode (new_frame t dst (cf_station (mc_config c)) data) c = (True, c\<lparr>mc_actions := a\<rparr>)
       \<and> holds_frame (c\<lparr>mc_actions := a\<rparr>) \<and> queued_frame a = frame_octets (new_frame t dst (cf_station (mc_config c)) data)
       \<and> length (ac_frame a) = length (ac_frame (mc_actions c)) \<and> ac_transmit a = ac_transmit (mc_actions c)
       \<and> ac_receive a = ac_receive (mc_actions c)
       \<and> ac_deliveries a = ac_deliveries (mc_actions c) \<and> ac_head a = ac_head (mc_actions c)
       \<and> ac_waiting a = ac_waiting (mc_actions c)"
proof -
  let ?f = "new_frame t dst (cf_station (mc_config c)) data"
  obtain k where k: "checked_length ?f = Inr k" "wire_length k \<le> length (ac_frame (mc_actions c))"
    using sendable_checked [OF assms(1) station_not_broadcast [OF assms(2)] assms(3)] by blast
  have len: "length (frame_octets ?f) = wire_length k"
    by (simp add: length_frame_octets checked_length_eq [OF k(1)])
  have enc: "encode_into ?f (ac_frame (mc_actions c))
      = (Inr (wire_length k), frame_octets ?f @ drop (wire_length k) (ac_frame (mc_actions c)))"
    using k by (simp add: encode_into_eq)
  let ?a = "(mc_actions c)\<lparr>ac_frame := frame_octets ?f @ drop (wire_length k) (ac_frame (mc_actions c)),
      ac_frame_length := wire_length k\<rparr>"
  have q: "queued_frame ?a = frame_octets ?f" using len by (simp add: queued_frame_def)
  moreover have "holds_frame (c\<lparr>mc_actions := ?a\<rparr>)"
    unfolding holds_frame_def using q k(1) by (intro exI [of _ ?f] exI [of _ k]) (simp add: new_frame_def)
  ultimately show ?thesis using enc k(2) len
    by (intro exI [of _ ?a]) (simp add: encode_def encode_frame_def)
qed

section \<open>The invariant\<close>

text \<open>What the configuration and buffers keep whatever happens.\<close>

definition base :: "nat \<Rightarrow> 'q master_core \<Rightarrow> bool" where
  "base n c \<longleftrightarrow> validate (mc_config c) = Inr () \<and> room_for (mc_config c) (length (ac_frame (mc_actions c)))
     \<and> ring_wf n (mc_actions c) \<and> ct_internal_errors (mc_counters c) = 0
     \<and> mc_frame_count c \<le> cf_max_info_frames (mc_config c)"

text \<open>No frame of this station's waits or is on the wire.\<close>

definition quiet :: "nat \<Rightarrow> 'q master_core \<Rightarrow> bool" where
  "quiet n c \<longleftrightarrow> base n c \<and> mc_active_transmit c = None \<and> mc_pending_send c = None \<and> ac_transmit (mc_actions c) = None"

text \<open>At most one does, and the actions waiting to be polled are its own.\<close>

definition one_frame :: "'q master_core \<Rightarrow> bool" where
  "one_frame c \<longleftrightarrow>
     (mc_active_transmit c = None \<longrightarrow> ac_transmit (mc_actions c) = None)
   \<and> (\<forall>tx. mc_active_transmit c = Some tx \<longrightarrow>
        (if tx_started tx then mc_pending_send c = None \<and> ac_transmit (mc_actions c) = None
         else \<exists>p. mc_pending_send c = Some p \<and> ps_post p = tx_post tx)
        \<and> (\<forall>t. ac_transmit (mc_actions c) = Some t \<longrightarrow> qt_id t = tx_id tx))"

text \<open>The waiting frame starts no sooner than the line has been quiet for \<open>T_turnaround\<close>.\<close>

definition waits_turnaround :: "'q master_core \<Rightarrow> bool" where
  "waits_turnaround c \<longleftrightarrow> (\<forall>p. mc_pending_send c = Some p \<longrightarrow>
     ps_earliest p = after (mc_last_activity c) (cf_t_turnaround (mc_config c))
     \<and> (\<forall>w. ps_origin p = OriginAnswer w \<longrightarrow> ps_limit p = rw_give_up w \<and> ps_post p = PostIdle))"

definition frame_kept :: "'q master_core \<Rightarrow> bool" where
  "frame_kept c \<longleftrightarrow> (mc_active_transmit c \<noteq> None \<or> mc_pending_send c \<noteq> None \<longrightarrow> holds_frame c)"

definition deadline_set :: "'q master_core \<Rightarrow> bool" where
  "deadline_set c \<longleftrightarrow> (mc_protocol_deadline c = None \<longrightarrow> mc_active_transmit c \<noteq> None)"

definition sends_well :: "nat \<Rightarrow> 'q master_core \<Rightarrow> bool" where
  "sends_well n c \<longleftrightarrow> base n c \<and> one_frame c \<and> waits_turnaround c \<and> frame_kept c \<and> deadline_set c"

text \<open>Not on the way to answering a request.\<close>

definition unasked :: "'q master_core \<Rightarrow> bool" where
  "unasked c \<longleftrightarrow> \<not> mc_pending_token c \<and> mc_state c \<noteq> AnswerDataRequest"

text \<open>What going idle, and everything on the cycle through it, leaves as it was.\<close>

definition kept :: "'q master_core \<Rightarrow> 'q master_core \<Rightarrow> bool" where
  "kept c d \<longleftrightarrow> mc_config d = mc_config c \<and> mc_pending_request d = mc_pending_request c
     \<and> mc_last_now d = mc_last_now c \<and> mc_last_activity d = mc_last_activity c
     \<and> mc_decoder d = mc_decoder c \<and> mc_last_octet d = mc_last_octet c
     \<and> mc_parser_partial d = mc_parser_partial c
     \<and> mc_next_request_generation d = mc_next_request_generation c"

lemma kept_refl [simp]: "kept c c"
  by (simp add: kept_def)

lemma kept_trans: "kept c d \<Longrightarrow> kept d e \<Longrightarrow> kept c e"
  by (simp add: kept_def)

lemma kept_updates [simp]:
  "kept (c\<lparr>mc_queues := q\<rparr>) d = kept c d" "kept c (d\<lparr>mc_queues := q\<rparr>) = kept c d"
  "kept (c\<lparr>mc_actions := a\<rparr>) d = kept c d" "kept c (d\<lparr>mc_actions := a\<rparr>) = kept c d"
  "kept (c\<lparr>mc_counters := k\<rparr>) d = kept c d" "kept c (d\<lparr>mc_counters := k\<rparr>) = kept c d"
  "kept (c\<lparr>mc_frame_count := x\<rparr>) d = kept c d" "kept c (d\<lparr>mc_frame_count := x\<rparr>) = kept c d"
  "kept (c\<lparr>mc_token_count := x\<rparr>) d = kept c d" "kept c (d\<lparr>mc_token_count := x\<rparr>) = kept c d"
  "kept (set_state s c) d = kept c d" "kept c (set_state s d) = kept c d"
  by (simp_all add: kept_def set_state_def)

lemma set_state_fields [simp]:
  "mc_state (set_state s c) = s" "mc_config (set_state s c) = mc_config c" "mc_queues (set_state s c) = mc_queues c"
  "mc_decoder (set_state s c) = mc_decoder c" "mc_actions (set_state s c) = mc_actions c"
  "mc_next_station (set_state s c) = mc_next_station c" "mc_poll_station (set_state s c) = mc_poll_station c"
  "mc_frame_count (set_state s c) = mc_frame_count c"
  "mc_retry_token_count (set_state s c) = mc_retry_token_count c" "mc_event_count (set_state s c) = mc_event_count c"
  "mc_sole_master (set_state s c) = mc_sole_master c" "mc_pending_token (set_state s c) = mc_pending_token c"
  "mc_pending_request (set_state s c) = mc_pending_request c"
  "mc_next_request_generation (set_state s c) = mc_next_request_generation c"
  "mc_active_transmit (set_state s c) = mc_active_transmit c" "mc_pending_send (set_state s c) = mc_pending_send c"
  "mc_next_transmit_generation (set_state s c) = mc_next_transmit_generation c"
  "mc_protocol_deadline (set_state s c) = mc_protocol_deadline c" "mc_last_activity (set_state s c) = mc_last_activity c"
  "mc_last_octet (set_state s c) = mc_last_octet c" "mc_parser_partial (set_state s c) = mc_parser_partial c"
  "mc_last_now (set_state s c) = mc_last_now c" "mc_consecutive_broadcast (set_state s c) = mc_consecutive_broadcast c"
  "ct_internal_errors (mc_counters (set_state s c)) = ct_internal_errors (mc_counters c)"
  by (simp_all add: set_state_def record_transition_def)

lemma tally_internal [simp]:
  "ct_internal_errors (record_expired_request k) = ct_internal_errors k"
  "ct_internal_errors (record_cancelled_send k) = ct_internal_errors k"
  "ct_internal_errors (record_deferred_start k) = ct_internal_errors k"
  "ct_internal_errors (record_discarded_while_busy k) = ct_internal_errors k"
  "ct_internal_errors (record_adapter_error k) = ct_internal_errors k"
  "ct_internal_errors (record_token_rotation k) = ct_internal_errors k"
  "ct_internal_errors (record_token_regeneration k) = ct_internal_errors k"
  "ct_internal_errors (record_missed_generation_slot k) = ct_internal_errors k"
  "ct_internal_errors (record_token_retry k) = ct_internal_errors k"
  "ct_internal_errors (record_parser_error k) = ct_internal_errors k"
  "ct_internal_errors (record_frame_abort k) = ct_internal_errors k"
  "ct_internal_errors (record_frame_received k) = ct_internal_errors k"
  "ct_internal_errors (record_own_address_frame k) = ct_internal_errors k"
  "ct_internal_errors (record_npdu_delivered k) = ct_internal_errors k"
  "ct_internal_errors (record_frame_delivered k) = ct_internal_errors k"
  "ct_internal_errors (record_frame_transmitted k) = ct_internal_errors k"
  "ct_internal_errors (record_delivery_drop k) = ct_internal_errors k"
  "ct_internal_errors (record_late_reply k) = ct_internal_errors k"
  "ct_internal_errors (record_de_assertion d k) = ct_internal_errors k"
  "ct_internal_errors (record_deadline d l k) = ct_internal_errors k"
  "ct_internal_errors (record_receive_error e k) = ct_internal_errors k"
  "ct_internal_errors (record_transmit_failure r k) = ct_internal_errors k"
  unfolding record_expired_request_def record_cancelled_send_def record_deferred_start_def
    record_discarded_while_busy_def record_adapter_error_def record_token_rotation_def
    record_token_regeneration_def record_missed_generation_slot_def record_token_retry_def
    record_parser_error_def record_frame_abort_def record_frame_received_def record_own_address_frame_def
    record_npdu_delivered_def record_frame_delivered_def record_frame_transmitted_def
    record_delivery_drop_def record_late_reply_def record_de_assertion_def record_deadline_def
    record_receive_error_def record_transmit_failure_def Let_def
  by (simp_all split: receive_error.split transmit_failure.split)

lemmas parts = base_def one_frame_def waits_turnaround_def frame_kept_def deadline_set_def holds_frame_def

lemma quiet_sends: "quiet n c \<Longrightarrow> mc_protocol_deadline c \<noteq> None \<Longrightarrow> sends_well n c"
  by (simp add: quiet_def sends_well_def one_frame_def waits_turnaround_def frame_kept_def deadline_set_def)

lemma sends_quiet: "sends_well n c \<Longrightarrow> mc_active_transmit c = None \<Longrightarrow> mc_pending_send c = None \<Longrightarrow> quiet n c"
  by (simp add: quiet_def sends_well_def one_frame_def)

section \<open>The cycle through going idle\<close>

text \<open>A frame just encoded, about to be sent: nothing waits, and the buffer holds the frame.\<close>

definition loaded :: "nat \<Rightarrow> 'q master_core \<Rightarrow> bool" where
  "loaded n c \<longleftrightarrow> quiet n c \<and> holds_frame c"

lemma discard_quiet:
  assumes "base n c" "mc_active_transmit c = None" "ac_transmit (mc_actions c) = None"
  shows "quiet n (discard_pending c) \<and> kept c (discard_pending c)
       \<and> mc_pending_token (discard_pending c) = mc_pending_token c \<and> mc_state (discard_pending c) = mc_state c"
  using assms by (auto simp: discard_pending_def forget_pending_def quiet_def base_def kept_def Let_def
      split: option.splits origin.splits)

lemma settle_quiet:
  "quiet n c \<Longrightarrow> quiet n (settle_idle now c) \<and> sends_well n (settle_idle now c) \<and> kept c (settle_idle now c)
     \<and> \<not> transmitting (settle_idle now c)
     \<and> mc_pending_token (settle_idle now c) = mc_pending_token c \<and> mc_state (settle_idle now c) = Idle"
  by (auto intro!: quiet_sends) (simp_all add: settle_idle_def quiet_def base_def kept_def transmitting_def)

text \<open>The result of an operation on the cycle that started with nothing to answer.\<close>

definition settled :: "nat \<Rightarrow> 'q master_core \<Rightarrow> 'q master_core \<Rightarrow> bool" where
  "settled n c d \<longleftrightarrow> sends_well n d \<and> unasked d \<and> \<not> transmitting d \<and> kept c d"

lemma settled_kept: "kept b c \<Longrightarrow> settled n c d \<Longrightarrow> settled n b d"
  by (auto simp: settled_def dest: kept_trans)

locale giving_up =
  fixes idle :: "instant \<Rightarrow> 'q master_core \<Rightarrow> 'q master_core" and n :: nat
  assumes idle_settles: "quiet n c \<Longrightarrow> \<not> mc_pending_token c \<Longrightarrow> settled n c (idle now c)"
begin

lemma dispatch_settles:
  assumes "base n c" "mc_active_transmit c = None" "ac_transmit (mc_actions c) = None"
    "mc_pending_send c \<noteq> None" "waits_turnaround c" "holds_frame c" "unasked c"
  shows "settled n c (dispatch_pending_send_with idle now c)"
proof -
  obtain p where p: "mc_pending_send c = Some p" using assms(4) by auto
  consider (drop) "ps_limit p \<le> now" | (wait) "\<not> ps_limit p \<le> now" "now < ps_earliest p"
    | (go) "\<not> ps_limit p \<le> now" "\<not> now < ps_earliest p" by blast
  then show ?thesis
  proof cases
    case drop
    note q = discard_quiet [OF assms(1-3)]
    then have "settled n (discard_pending c) (idle now (discard_pending c))"
      using assms(7) by (intro idle_settles) (auto simp: unasked_def)
    with q drop p show ?thesis
      by (auto simp: dispatch_pending_send_with_def drop_pending_with_def intro: settled_kept)
  next
    case wait
    with p assms show ?thesis
      by (simp add: dispatch_pending_send_with_def settled_def sends_well_def parts unasked_def kept_def
          transmitting_def)
  next
    case go
    with p assms show ?thesis
      by (simp add: dispatch_pending_send_with_def dispatch_frame_def queue_transmit_def settled_def sends_well_def
          parts unasked_def kept_def queued_frame_def transmitting_def Let_def)
  qed
qed

lemma send_settles:
  assumes "loaded n c" "unasked c" "\<And>w. org = OriginAnswer w \<Longrightarrow> post = PostIdle"
  shows "settled n c (send_encoded_with idle post org now c)"
proof -
  let ?limit = "case org of OriginAnswer window \<Rightarrow> rw_give_up window
          | OriginPassToken \<Rightarrow> after now (cf_t_usage_timeout (mc_config c)) | _ \<Rightarrow> after now T_NO_TOKEN"
  let ?c = "c\<lparr>mc_pending_send := Some \<lparr>ps_post = post, ps_origin = org,
                ps_earliest = after (mc_last_activity c) (cf_t_turnaround (mc_config c)), ps_limit = ?limit\<rparr>\<rparr>"
  have "settled n ?c (dispatch_pending_send_with idle now ?c)"
    using assms by (intro dispatch_settles)
      (auto simp: loaded_def quiet_def base_def waits_turnaround_def holds_frame_def unasked_def)
  moreover have "kept c ?c" by (simp add: kept_def)
  ultimately show ?thesis by (simp add: send_encoded_with_def Let_def settled_kept)
qed

lemma queue_frame_settles:
  assumes "quiet n c" "unasked c" "sendable (mc_config c) t data" "\<And>w. org = OriginAnswer w \<Longrightarrow> post = PostIdle"
  shows "settled n c (queue_frame_with idle t dst data post org now c)"
proof -
  obtain a where a: "encode (new_frame t dst (cf_station (mc_config c)) data) c = (True, c\<lparr>mc_actions := a\<rparr>)"
      "holds_frame (c\<lparr>mc_actions := a\<rparr>)" "length (ac_frame a) = length (ac_frame (mc_actions c))"
      "ac_transmit a = ac_transmit (mc_actions c)" "ac_deliveries a = ac_deliveries (mc_actions c)"
      "ac_head a = ac_head (mc_actions c)" "ac_waiting a = ac_waiting (mc_actions c)"
    using encode_holds [of c t data dst] assms(1,3) by (auto simp: quiet_def base_def)
  have "settled n (c\<lparr>mc_actions := a\<rparr>) (send_encoded_with idle post org now (c\<lparr>mc_actions := a\<rparr>))"
    using a assms by (intro send_settles)
      (auto simp: loaded_def quiet_def base_def unasked_def ring_wf_def)
  moreover have "kept c (c\<lparr>mc_actions := a\<rparr>)" by (simp add: kept_def)
  ultimately have "settled n c (send_encoded_with idle post org now (c\<lparr>mc_actions := a\<rparr>))"
    using settled_kept by blast
  then show ?thesis by (simp add: queue_frame_with_def a(1))
qed

end

lemma sendable_control [simp]:
  "sendable cfg TOKEN []" "sendable cfg POLL_FOR_MASTER []" "sendable cfg REPLY_TO_POLL_FOR_MASTER []"
  "sendable cfg REPLY_POSTPONED []"
  by (simp_all add: sendable_def)

lemma sendable_npdu:
  assumes "length data \<le> max_npdu cfg" "npdu_frame_type e (length data > MAX_STANDARD_MPDU_DATA) = (t, post)"
  shows "sendable cfg t data \<and> (post = PostContinueToken \<or> post = PostWaitForReply)"
  using assms by (cases e; cases "length data > MAX_STANDARD_MPDU_DATA")
    (auto simp: npdu_frame_type_def sendable_def max_npdu_def split: if_splits)

lemma transmitting_keeps [simp]:
  "transmitting (set_state s c) = transmitting c" "transmitting (c\<lparr>mc_event_count := e\<rparr>) = transmitting c"
  by (simp_all add: transmitting_def)

lemma sends_well_keeps [simp]:
  "sends_well n (set_state s c) = sends_well n c" "sends_well n (c\<lparr>mc_event_count := e\<rparr>) = sends_well n c"
  "sends_well n (c\<lparr>mc_pending_token := b\<rparr>) = sends_well n c"
  "sends_well n (c\<lparr>mc_pending_request := r\<rparr>) = sends_well n c" "sends_well n (c\<lparr>mc_queues := q\<rparr>) = sends_well n c"
  "sends_well n (c\<lparr>mc_last_now := t\<rparr>) = sends_well n c" "sends_well n (c\<lparr>mc_last_octet := ot\<rparr>) = sends_well n c"
  "sends_well n (c\<lparr>mc_decoder := dec\<rparr>) = sends_well n c" "sends_well n (c\<lparr>mc_parser_partial := b\<rparr>) = sends_well n c"
  "sends_well n (c\<lparr>mc_next_request_generation := g\<rparr>) = sends_well n c"
  by (simp_all add: sends_well_def parts)

lemma sends_well_deadline: "sends_well n c \<Longrightarrow> sends_well n (set_deadline t c)"
  by (simp add: sends_well_def parts)

lemma sends_well_tally:
  "ct_internal_errors k = ct_internal_errors (mc_counters c) \<Longrightarrow> sends_well n (c\<lparr>mc_counters := k\<rparr>) = sends_well n c"
  by (simp add: sends_well_def parts)

lemma set_state_settled:
  "settled n c d \<Longrightarrow> s \<noteq> AnswerDataRequest \<Longrightarrow> settled n c (set_state s d)"
  by (simp add: settled_def unasked_def kept_def)

lemma event_count_settled: "settled n c d \<Longrightarrow> settled n c (d\<lparr>mc_event_count := k\<rparr>)"
  by (simp add: settled_def unasked_def kept_def)

text \<open>Updates of the token bookkeeping change nothing the invariant reads.\<close>

lemma bookkeeping [simp]:
  "quiet n (c\<lparr>mc_poll_station := x\<rparr>) = quiet n c" "quiet n (c\<lparr>mc_token_count := x\<rparr>) = quiet n c"
  "quiet n (c\<lparr>mc_retry_token_count := x\<rparr>) = quiet n c" "quiet n (c\<lparr>mc_next_station := x\<rparr>) = quiet n c"
  "quiet n (c\<lparr>mc_sole_master := b\<rparr>) = quiet n c" "quiet n (c\<lparr>mc_event_count := e\<rparr>) = quiet n c"
  "quiet n (c\<lparr>mc_queues := q\<rparr>) = quiet n c" "quiet n (set_state s c) = quiet n c"
  "quiet n (c\<lparr>mc_consecutive_broadcast := x\<rparr>) = quiet n c" "quiet n (c\<lparr>mc_pending_token := b\<rparr>) = quiet n c"
  "unasked (c\<lparr>mc_poll_station := x\<rparr>) = unasked c" "unasked (c\<lparr>mc_token_count := x\<rparr>) = unasked c"
  "unasked (c\<lparr>mc_retry_token_count := x\<rparr>) = unasked c" "unasked (c\<lparr>mc_next_station := x\<rparr>) = unasked c"
  "unasked (c\<lparr>mc_sole_master := b\<rparr>) = unasked c" "unasked (c\<lparr>mc_event_count := e\<rparr>) = unasked c"
  "unasked (c\<lparr>mc_queues := q\<rparr>) = unasked c" "unasked (c\<lparr>mc_frame_count := x\<rparr>) = unasked c"
  "unasked (c\<lparr>mc_consecutive_broadcast := x\<rparr>) = unasked c" "unasked (c\<lparr>mc_counters := k\<rparr>) = unasked c"
  "unasked (c\<lparr>mc_actions := a\<rparr>) = unasked c"
  "settled n (c\<lparr>mc_poll_station := x\<rparr>) d = settled n c d" "settled n (c\<lparr>mc_token_count := x\<rparr>) d = settled n c d"
  "settled n (c\<lparr>mc_retry_token_count := x\<rparr>) d = settled n c d" "settled n (c\<lparr>mc_next_station := x\<rparr>) d = settled n c d"
  "settled n (c\<lparr>mc_sole_master := b\<rparr>) d = settled n c d" "settled n (c\<lparr>mc_event_count := e\<rparr>) d = settled n c d"
  "settled n (c\<lparr>mc_queues := q\<rparr>) d = settled n c d" "settled n (c\<lparr>mc_frame_count := x\<rparr>) d = settled n c d"
  "settled n (c\<lparr>mc_consecutive_broadcast := x\<rparr>) d = settled n c d" "settled n (set_state s c) d = settled n c d"
  "settled n (c\<lparr>mc_counters := k\<rparr>) d = settled n c d" "settled n (c\<lparr>mc_actions := a\<rparr>) d = settled n c d"
  "settled n (c\<lparr>mc_pending_token := b\<rparr>) d = settled n c d"
  by (simp_all add: quiet_def base_def unasked_def settled_def kept_def)

lemma unasked_set_state [simp]: "unasked (set_state s c) \<longleftrightarrow> \<not> mc_pending_token c \<and> s \<noteq> AnswerDataRequest"
  by (simp add: unasked_def)

lemma record_oversize_fields [simp]:
  "quiet n (record_oversize_npdu k c) = quiet n c" "unasked (record_oversize_npdu k c) = unasked c"
  "settled n (record_oversize_npdu k c) d = settled n c d" "mc_config (record_oversize_npdu k c) = mc_config c"
  "mc_frame_count (record_oversize_npdu k c) = mc_frame_count c" "kept b (record_oversize_npdu k c) = kept b c"
  "kept (record_oversize_npdu k c) d = kept c d"
  by (simp_all add: record_oversize_npdu_def quiet_def base_def unasked_def settled_def kept_def split: queue_kind.split)

context giving_up
begin

lemma queue_poll_settles:
  "quiet n c \<Longrightarrow> unasked c \<Longrightarrow> (\<And>w. org \<noteq> OriginAnswer w) \<Longrightarrow> settled n c (queue_poll_with idle org now c)"
  unfolding queue_poll_with_def by (intro set_state_settled queue_frame_settles) auto

lemma queue_token_settles:
  assumes "quiet n c" "unasked c" "\<And>w. org \<noteq> OriginAnswer w"
  shows "settled n c (queue_token_with idle dst org now c)"
proof (cases "dst = cf_station (mc_config c)")
  case True
  then show ?thesis unfolding queue_token_with_def
    using queue_poll_settles [of "c\<lparr>mc_poll_station := x\<rparr>" for x] assms by simp
next
  case False
  then show ?thesis unfolding queue_token_with_def
    using assms by (auto intro!: event_count_settled set_state_settled queue_frame_settles)
qed

text \<open>An attempt to send either sends, or leaves the core as quiet as it was.\<close>

lemma dequeue_tries_settles:
  assumes "quiet n c" "unasked c" "mc_frame_count c < cf_max_info_frames (mc_config c)"
    "dequeue_tries_with idle ops n' now tries c = (sent, c')"
  shows "if sent then settled n c c'
         else quiet n c' \<and> unasked c' \<and> kept c c' \<and> mc_frame_count c' = mc_frame_count c"
  using assms
proof (induction tries arbitrary: c)
  case (Suc tries)
  show ?case
  proof (cases "next_queue_kind ops now c")
    case None
    with Suc.prems show ?thesis by auto
  next
    case (Some kind)
    obtain r q where d: "q_dequeue_kind ops kind now n' (mc_queues c) = (r, q)" by fastforce
    note again = Suc.IH [of "c\<lparr>mc_queues := q\<rparr>"] Suc.IH [of "record_oversize_npdu kind (c\<lparr>mc_queues := q\<rparr>)"]
    consider (empty) "r = Inr None" | (refused) e where "r = Inl e" | (item) x where "r = Inr (Some x)"
      by (metis option.exhaust sum.exhaust)
    then show ?thesis
    proof cases
      case empty
      with Suc.prems Some d show ?thesis by auto
    next
      case refused
      with Suc.prems Some d again(1) show ?thesis by auto
    next
      case item
      show ?thesis
      proof (cases "length (dq_npdu x) > n' \<or> length (dq_npdu x) > max_npdu (mc_config c)")
        case True
        with Suc.prems Some d item again(2) show ?thesis by (auto simp: Let_def)
      next
        case False
        let ?c = "c\<lparr>mc_queues := q, mc_consecutive_broadcast := (if kind = Broadcast
                      then u8_saturating_add (mc_consecutive_broadcast c) 1 else 0),
                    mc_frame_count := u8_saturating_add (mc_frame_count c) 1\<rparr>"
        obtain t post where tp: "npdu_frame_type (kind = Unicast \<and> length (dq_npdu x) \<ge> 2 \<and> dq_npdu x ! 1 AND 0x04 \<noteq> 0)
            (length (dq_npdu x) > MAX_STANDARD_MPDU_DATA) = (t, post)" by fastforce
        have send: "sendable (mc_config c) t (dq_npdu x)" "\<And>w. OriginHolder = OriginAnswer w \<Longrightarrow> post = PostIdle"
          using False sendable_npdu [OF _ tp, of "mc_config c"] by auto
        have fc: "u8_saturating_add (mc_frame_count c) 1 \<le> cf_max_info_frames (mc_config c)"
          using Suc.prems(3) by (simp add: u8_saturating_add_def word_less_nat_alt word_le_nat_alt unat_word_ariths)
        then have quiet: "quiet n ?c" "unasked ?c" using Suc.prems(1,2) by (auto simp: quiet_def base_def unasked_def)
        have room: "validate (mc_config ?c) = Inr ()" "room_for (mc_config ?c) (length (ac_frame (mc_actions ?c)))"
          using quiet by (auto simp: quiet_def base_def)
        from encode_holds [of ?c t "dq_npdu x" "dq_destination x"] send room
        obtain a where a: "encode (new_frame t (dq_destination x) (cf_station (mc_config c)) (dq_npdu x)) ?c
              = (True, ?c\<lparr>mc_actions := a\<rparr>)"
          by fastforce
        have s: "settled n ?c (queue_frame_with idle t (dq_destination x) (dq_npdu x) post OriginHolder now ?c)"
          by (rule queue_frame_settles [OF quiet]) (use send in auto)
        then have "settled n ?c (send_encoded_with idle post OriginHolder now (?c\<lparr>mc_actions := a\<rparr>))"
          using a by (simp add: queue_frame_with_def)
        then have "settled n c (send_encoded_with idle post OriginHolder now (?c\<lparr>mc_actions := a\<rparr>))" by simp
        moreover have "dequeue_tries_with idle ops n' now (Suc tries) c
            = (True, send_encoded_with idle post OriginHolder now (?c\<lparr>mc_actions := a\<rparr>))"
          using Some d item False tp a by (simp add: Let_def split del: if_split cong: if_cong)
        ultimately show ?thesis using Suc.prems(4) by simp
      qed
    qed
  qed
qed simp

lemma dequeue_and_send_settles:
  assumes "quiet n c" "unasked c" "mc_frame_count c < cf_max_info_frames (mc_config c)"
    "dequeue_and_send_with idle ops n' now c = (sent, c')"
  shows "if sent then settled n c c'
         else quiet n c' \<and> unasked c' \<and> kept c c' \<and> mc_frame_count c' = mc_frame_count c"
proof -
  let ?c = "c\<lparr>mc_queues := snd (q_expire ops now (mc_queues c))\<rparr>"
  have eq: "dequeue_tries_with idle ops n' now (Suc (total_depth ops (mc_queues ?c))) ?c = (sent, c')"
    using assms(4) unfolding dequeue_and_send_with_def Let_def .
  have "quiet n ?c" "unasked ?c" "mc_frame_count ?c < cf_max_info_frames (mc_config ?c)" using assms by simp_all
  from dequeue_tries_settles [OF this eq] show ?thesis by (auto split: if_splits)
qed

end

lemma frame_limit_bounds:
  assumes "validate cfg = Inr ()"
  shows "0 < frame_limit cfg \<and> frame_limit cfg \<le> cf_max_info_frames cfg"
proof -
  let ?m = "unat (cf_max_info_frames cfg)"
  let ?p = "min (?m * unat (cf_multiple_frame_ratio cfg)) 65535"
  have m: "0 < ?m" "?m < 256" using validate_station [OF assms] by (auto simp: unat_gt_0)
  have "min (max ((?p + 99) div 100) 1) ?m < 256" using m(2) by (meson min.strict_coboundedI2)
  then have "unat (frame_limit cfg) = min (max ((?p + 99) div 100) 1) ?m"
    unfolding frame_limit_def Let_def by (rule unat_octet_of_nat)
  then have "0 < unat (frame_limit cfg) \<and> unat (frame_limit cfg) \<le> ?m" using m by simp
  then show ?thesis by (auto simp: word_le_nat_alt word_less_nat_alt)
qed

lemma quiet_frame_count:
  "quiet n c \<Longrightarrow> quiet n (c\<lparr>mc_frame_count := 0\<rparr>) \<and> 0 < cf_max_info_frames (mc_config c)"
  using validate_station [of "mc_config c"] by (auto simp: quiet_def base_def word_gt_0)

context giving_up
begin

lemma done_settles: "quiet n c \<Longrightarrow> unasked c \<Longrightarrow> settled n c (done_with_token_with idle ops n' now c)"
proof (induction "50 - unat (mc_token_count c)" arbitrary: c rule: less_induct)
  case less
  let ?station = "cf_station (mc_config c)"
  let ?next_ps = "next_addr (mc_poll_station c) (cf_max_master (mc_config c))"
  let ?c1 = "c\<lparr>mc_token_count := u8_saturating_add (mc_token_count c) 1\<rparr>"
  note poll = queue_poll_settles and token = queue_token_settles
  consider (none) "\<not> mc_sole_master c \<and> mc_next_station c = ?station"
    | (sole) "mc_sole_master c" "mc_token_count c < N_POLL"
    | (pass) "\<not> mc_sole_master c" "mc_next_station c \<noteq> ?station" "mc_token_count c < N_POLL"
    | (maintain) "mc_sole_master c \<or> mc_next_station c \<noteq> ?station" "\<not> mc_token_count c < N_POLL"
    by blast
  then show ?case
  proof cases
    case none
    have "settled n c (queue_poll_with idle OriginHolder now (c\<lparr>mc_poll_station := x\<rparr>))" for x
      using poll [of "c\<lparr>mc_poll_station := x\<rparr>" OriginHolder] less.prems by simp
    with none show ?thesis
      unfolding done_with_token_with.simps [of idle ops n' now c] Let_def by simp
  next
    case sole
    let ?c2 = "set_state UseToken (?c1\<lparr>mc_frame_count := 0\<rparr>)"
    obtain sent c' where d: "dequeue_and_send_with idle ops n' now ?c2 = (sent, c')" by fastforce
    have c2: "quiet n ?c2" "unasked ?c2" "mc_frame_count ?c2 < cf_max_info_frames (mc_config ?c2)"
      using less.prems quiet_frame_count [of n ?c1] by (auto simp: unasked_def)
    have eq: "done_with_token_with idle ops n' now c = (if sent then c' else done_with_token_with idle ops n' now c')"
      using sole d unfolding done_with_token_with.simps [of idle ops n' now c] Let_def by simp
    show ?thesis
    proof (cases sent)
      case True
      with dequeue_and_send_settles [OF c2 d] eq show ?thesis by simp
    next
      case False
      have c': "quiet n c'" "unasked c'" "kept c c'" using dequeue_and_send_settles [OF c2 d] False by auto
      have "mc_token_count c' = u8_saturating_add (mc_token_count c) 1"
        using dequeue_and_send_False [of idle ops n' now ?c2 c'] d False by simp
      moreover have "unat (mc_token_count c) < 50" using sole(2) by (simp add: N_POLL_def word_less_nat_alt)
      ultimately have "50 - unat (mc_token_count c') < 50 - unat (mc_token_count c)"
        by (simp add: u8_saturating_add_def unat_word_ariths)
      from less.hyps [OF this c'(1,2)] c'(3) eq False show ?thesis by (auto intro: settled_kept)
    qed
  next
    case pass
    have "settled n c (queue_token_with idle (mc_next_station c) OriginHolder now (?c1\<lparr>mc_retry_token_count := 0\<rparr>))"
      using token [of "?c1\<lparr>mc_retry_token_count := 0\<rparr>" OriginHolder] less.prems by simp
    with pass show ?thesis unfolding done_with_token_with.simps [of idle ops n' now c] Let_def by simp
  next
    case maintain
    let ?c3 = "c\<lparr>mc_poll_station := ?station, mc_token_count := 1\<rparr>"
    have "settled n c (queue_token_with idle (mc_next_station c) OriginHolder now (?c3\<lparr>mc_retry_token_count := 0\<rparr>))"
      "settled n c (queue_poll_with idle OriginHolder now (?c3\<lparr>mc_next_station := ?station, mc_poll_station := x\<rparr>))"
      "settled n c (queue_poll_with idle OriginHolder now (c\<lparr>mc_poll_station := x\<rparr>))" for x
      using token [of "?c3\<lparr>mc_retry_token_count := 0\<rparr>" OriginHolder]
        poll [of "?c3\<lparr>mc_next_station := ?station, mc_poll_station := x\<rparr>" OriginHolder]
        poll [of "c\<lparr>mc_poll_station := x\<rparr>" OriginHolder] less.prems by simp_all
    with maintain show ?thesis unfolding done_with_token_with.simps [of idle ops n' now c] Let_def by auto
  qed
qed

lemma drive_settles:
  assumes "quiet n c" "unasked c"
  shows "settled n c (drive_token_with idle ops n' now c)"
proof -
  have free: "mc_active_transmit c = None" "mc_pending_send c = None" using assms by (simp_all add: quiet_def)
  obtain sent c' where d: "(if mc_frame_count c < frame_limit (mc_config c) then dequeue_and_send_with idle ops n' now c
      else (False, c)) = (sent, c')" by fastforce
  have lim: "frame_limit (mc_config c) \<le> cf_max_info_frames (mc_config c)"
    using frame_limit_bounds assms(1) by (auto simp: quiet_def base_def)
  have "if sent then settled n c c' else quiet n c' \<and> unasked c' \<and> kept c c'"
    using d dequeue_and_send_settles [OF assms, of ops n' now sent c'] assms lim by (auto split: if_splits)
  then have "settled n c (if sent then c' else done_with_token_with idle ops n' now (set_state DoneWithToken c'))"
    using done_settles [of "set_state DoneWithToken c'" ops n' now] by (auto simp: unasked_def intro: settled_kept)
  then show ?thesis using free d by (simp add: drive_token_with_def)
qed

lemma use_token_settles:
  assumes "quiet n c" "\<not> mc_pending_token c"
  shows "settled n c (use_received_token_with idle ops n' now c)"
proof -
  let ?c = "set_state UseToken (c\<lparr>mc_sole_master := False, mc_frame_count := 0, mc_retry_token_count := 0\<rparr>)"
  have "quiet n ?c" "unasked ?c" using assms quiet_frame_count [OF assms(1)] by (auto simp: quiet_def base_def)
  from drive_settles [OF this] show ?thesis by (simp add: use_received_token_with_def)
qed

end

interpretation settling: giving_up settle_idle n for n
  by unfold_locales (use settle_quiet in \<open>auto simp: settled_def unasked_def\<close>)

lemma take_token_settles:
  assumes "quiet n c" "mc_protocol_deadline c \<noteq> None" "mc_state c = Idle"
  shows "settled n c (take_pending_token ops n' now c)"
proof (cases "mc_pending_token c")
  case True
  have "settled n (c\<lparr>mc_pending_token := False\<rparr>) (take_pending_token ops n' now c)"
    using settling.use_token_settles [of n "c\<lparr>mc_pending_token := False\<rparr>"] assms True
    by (simp add: take_pending_token_def)
  then show ?thesis by simp
next
  case False
  with assms show ?thesis by (auto simp: take_pending_token_def settled_def unasked_def transmitting_def quiet_def
        intro: quiet_sends [unfolded quiet_def])
qed

lemma enter_idle_settles:
  assumes "quiet n c"
  shows "settled n c (enter_idle ops n' now c)"
proof -
  note s = settle_quiet [OF assms, of now]
  then have "settled n (settle_idle now c) (enter_idle ops n' now c)"
    unfolding enter_idle_def by (intro take_token_settles) (auto simp: settle_idle_def)
  with s show ?thesis by (blast intro: settled_kept)
qed

interpretation going_idle: giving_up "enter_idle ops n'" n for ops n' n
  by unfold_locales (rule enter_idle_settles)

section \<open>The whole invariant\<close>

text \<open>This station owes an answer: the application's, or one made and not yet out.\<close>

definition answering :: "'q master_core \<Rightarrow> bool" where
  "answering c \<longleftrightarrow> mc_pending_request c \<noteq> None
     \<or> (\<exists>p w. mc_pending_send c = Some p \<and> ps_origin p = OriginAnswer w)
     \<or> (\<exists>tx. mc_active_transmit c = Some tx \<and> tx_started tx \<and> tx_post tx = PostIdle)"

definition answers_well :: "'q master_core \<Rightarrow> bool" where
  "answers_well c \<longleftrightarrow>
     (mc_pending_request c \<noteq> None \<longrightarrow>
        mc_pending_send c = None \<and> mc_active_transmit c = None \<and> mc_state c = AnswerDataRequest)
   \<and> (mc_pending_token c \<or> mc_state c = AnswerDataRequest \<longrightarrow> answering c)"

definition core_inv :: "nat \<Rightarrow> 'q master_core \<Rightarrow> bool" where
  "core_inv n c \<longleftrightarrow> sends_well n c \<and> answers_well c"

lemma settled_inv: "settled n c d \<Longrightarrow> mc_pending_request c = None \<Longrightarrow> core_inv n d"
  by (auto simp: settled_def core_inv_def answers_well_def unasked_def kept_def)

lemma unasked_quiet:
  assumes "core_inv n c" "mc_active_transmit c = None" "mc_pending_send c = None" "mc_pending_request c = None"
  shows "quiet n c \<and> unasked c"
  using assms by (auto simp: core_inv_def answers_well_def answering_def unasked_def intro: sends_quiet)

lemma core_inv_keeps [simp]:
  "core_inv n (c\<lparr>mc_queues := q\<rparr>) = core_inv n c" "core_inv n (c\<lparr>mc_event_count := e\<rparr>) = core_inv n c"
  "core_inv n (c\<lparr>mc_last_now := t\<rparr>) = core_inv n c" "core_inv n (c\<lparr>mc_last_octet := ot\<rparr>) = core_inv n c"
  "core_inv n (c\<lparr>mc_decoder := dec\<rparr>) = core_inv n c" "core_inv n (c\<lparr>mc_parser_partial := b\<rparr>) = core_inv n c"
  by (simp_all add: core_inv_def answers_well_def answering_def)

lemma core_inv_tally:
  "ct_internal_errors k = ct_internal_errors (mc_counters c) \<Longrightarrow> core_inv n (c\<lparr>mc_counters := k\<rparr>) = core_inv n c"
  by (simp add: core_inv_def answers_well_def answering_def sends_well_tally)

text \<open>The tallies of the code, one by one, for the simplifier.\<close>

lemma core_inv_tallies [simp]:
  "core_inv n (tally record_parser_error c) = core_inv n c" "core_inv n (tally record_frame_abort c) = core_inv n c"
  "core_inv n (tally record_frame_received c) = core_inv n c" "core_inv n (tally record_own_address_frame c) = core_inv n c"
  "core_inv n (tally record_adapter_error c) = core_inv n c" "core_inv n (tally record_late_reply c) = core_inv n c"
  "core_inv n (tally record_deferred_start c) = core_inv n c"
  "core_inv n (tally (record_receive_error e) c) = core_inv n c" "core_inv n (tally (record_deadline d l) c) = core_inv n c"
  "core_inv n (record_oversize_npdu k c) = core_inv n c"
  by (simp_all add: core_inv_tally record_oversize_npdu_def split: queue_kind.split)

lemma core_inv_idle:
  assumes "core_inv n c" "mc_active_transmit c = None" "mc_pending_send c = None" "mc_pending_request c = None"
    "s \<noteq> AnswerDataRequest"
  shows "core_inv n (set_deadline t (set_state s c))"
proof -
  note u = unasked_quiet [OF assms(1-4)]
  then have "sends_well n (set_deadline t (set_state s c))" using assms(1) by (simp add: core_inv_def sends_well_deadline)
  moreover have "answers_well (set_deadline t (set_state s c))"
    using u assms by (simp add: answers_well_def unasked_def)
  ultimately show ?thesis by (simp add: core_inv_def)
qed

lemma core_inv_deadline:
  "core_inv n c \<Longrightarrow> core_inv n (set_deadline t c)"
  by (simp add: core_inv_def sends_well_deadline answers_well_def answering_def)

text \<open>Giving up the waiting frame from any state that has one.\<close>

lemma discard_one:
  assumes "base n c" "one_frame c" "mc_pending_send c \<noteq> None"
  shows "quiet n (discard_pending c) \<and> kept c (discard_pending c)
       \<and> mc_pending_token (discard_pending c) = mc_pending_token c \<and> mc_state (discard_pending c) = mc_state c"
proof -
  obtain p where p: "mc_pending_send c = Some p" using assms(3) by auto
  have "quiet n (discard_pending c)"
  proof (cases "mc_active_transmit c")
    case None
    then show ?thesis using discard_quiet [of n c] assms by (auto simp: one_frame_def)
  next
    case (Some tx)
    then have "\<not> tx_started tx" "\<And>t. ac_transmit (mc_actions c) = Some t \<Longrightarrow> qt_id t = tx_id tx"
      using assms p by (auto simp: one_frame_def split: if_splits)
    with Some p assms(1) show ?thesis
      by (cases "ac_transmit (mc_actions c)") (auto simp: discard_pending_def withdraw_transmit_def forget_pending_def quiet_def
          base_def purge_transmit_def transmit_queued_def queue_receive_def Let_def split: origin.split)
  qed
  moreover have "kept c (discard_pending c)" "mc_state (discard_pending c) = mc_state c"
    by (simp_all add: discard_pending_def withdraw_transmit_def forget_pending_def kept_def Let_def
        split: option.split origin.split)
  ultimately show ?thesis by simp
qed

lemma discard_core_inv:
  assumes "core_inv n c" "mc_pending_send c \<noteq> None"
  shows "quiet n (discard_pending c) \<and> kept c (discard_pending c) \<and> mc_pending_request c = None
       \<and> mc_pending_token (discard_pending c) = mc_pending_token c \<and> mc_state (discard_pending c) = mc_state c"
  using discard_one [of n c] assms by (auto simp: core_inv_def sends_well_def answers_well_def)

lemma drop_pending_inv:
  assumes "core_inv n c" "mc_pending_send c \<noteq> None"
  shows "settled n c (drop_pending ops n' now c)"
  using discard_core_inv [OF assms] enter_idle_settles [of n "discard_pending c" ops n' now]
  by (auto simp: drop_pending_with_def intro: settled_kept)

lemma pending_origin_unasked:
  assumes "core_inv n c" "mc_pending_send c = Some p" "\<And>w. ps_origin p \<noteq> OriginAnswer w"
  shows "unasked c"
  using assms by (auto simp: core_inv_def answers_well_def answering_def unasked_def sends_well_def one_frame_def
      split: if_splits)

end
