(* ===== verification/Mstp_Master_Safety.thy ===== *)
theory Mstp_Master_Safety
  imports Mstp_Master_Inv
begin

text \<open>
  Every call into the MS/TP master core keeps its invariant. The calls are the steps of a
  relation between cores; what holds of every reachable core, and what a confirmed start
  guarantees, are the theorems at the end.
\<close>

section \<open>What each part of a call keeps\<close>

text \<open>A core that is not sending: what it hears is not its own echo.\<close>

definition listening :: "nat \<Rightarrow> 'q master_core \<Rightarrow> bool" where
  "listening n c \<longleftrightarrow> core_inv n c \<and> \<not> transmitting c"

lemma settled_listening: "settled n c d \<Longrightarrow> mc_pending_request c = None \<Longrightarrow> listening n d"
  using settled_inv by (auto simp: listening_def settled_def)

lemma listening_cases:
  assumes "listening n c"
  obtains (waits) p where "mc_pending_send c = Some p" "mc_pending_request c = None"
  | (asked) r where "mc_pending_send c = None" "mc_active_transmit c = None" "mc_pending_request c = Some r" "quiet n c"
  | (free) "mc_pending_send c = None" "mc_active_transmit c = None" "mc_pending_request c = None" "quiet n c" "unasked c"
proof (cases "mc_pending_send c")
  case None
  then have "mc_active_transmit c = None"
    using assms by (auto simp: listening_def transmitting_def core_inv_def sends_well_def one_frame_def split: option.splits if_splits)
  with None assms asked free unasked_quiet [of n c] show ?thesis
    by (cases "mc_pending_request c") (auto simp: listening_def core_inv_def intro: sends_quiet)
next
  case (Some p)
  then show ?thesis using assms waits by (auto simp: listening_def core_inv_def answers_well_def)
qed

lemma core_inv_actions:
  assumes "core_inv n c" "ring_wf n a" "ac_transmit a = ac_transmit (mc_actions c)"
    "ac_frame a = ac_frame (mc_actions c)" "ac_frame_length a = ac_frame_length (mc_actions c)"
  shows "core_inv n (c\<lparr>mc_actions := a\<rparr>)"
  using assms by (simp add: core_inv_def sends_well_def parts answers_well_def answering_def queued_frame_def)

lemma deliver_keeps:
  assumes "core_inv n c" "deliver n f r c = (b, d)"
  shows "core_inv n d \<and> kept c d \<and> mc_state d = mc_state c \<and> mc_pending_send d = mc_pending_send c
       \<and> mc_active_transmit d = mc_active_transmit c \<and> mc_pending_token d = mc_pending_token c
       \<and> mc_protocol_deadline d = mc_protocol_deadline c"
proof -
  obtain x a where e: "enqueue_delivery n (fr_header f) (fr_data f) r (mc_actions c) = (x, a)" by fastforce
  have "ring_wf n (mc_actions c)" using assms(1) by (simp add: core_inv_def sends_well_def base_def)
  from enqueue_delivery_wf [OF this, of "fr_header f" "fr_data f" r] e have "ring_wf n a" by simp
  moreover have "ac_transmit a = ac_transmit (mc_actions c)" "ac_frame a = ac_frame (mc_actions c)"
      "ac_frame_length a = ac_frame_length (mc_actions c)"
    using e by (auto simp: enqueue_delivery_def Let_def split: if_splits)
  ultimately have "core_inv n (c\<lparr>mc_actions := a\<rparr>)" using core_inv_actions assms(1) by blast
  moreover obtain k where k: "d = c\<lparr>mc_actions := a, mc_counters := k\<rparr>"
      "ct_internal_errors k = ct_internal_errors (mc_counters c)"
    using assms(2) e by (cases x) (auto simp: deliver_def split: if_splits)
  ultimately show ?thesis using core_inv_tally [of k "c\<lparr>mc_actions := a\<rparr>" n] by (simp add: kept_def)
qed

lemma deliver_listening: "listening n c \<Longrightarrow> listening n (snd (deliver n f r c))"
  using deliver_keeps [of n c f r] by (cases "deliver n f r c") (auto simp: listening_def transmitting_def)

lemma token_listening:
  "listening n c \<Longrightarrow> b \<longrightarrow> answering c \<Longrightarrow> listening n (c\<lparr>mc_pending_token := b\<rparr>)"
  by (auto simp: listening_def transmitting_def core_inv_def answers_well_def answering_def)

lemma tally_listening:
  "ct_internal_errors k = ct_internal_errors (mc_counters c) \<Longrightarrow> listening n (c\<lparr>mc_counters := k\<rparr>) = listening n c"
  by (simp add: listening_def transmitting_def core_inv_tally)

lemma busy_listening:
  assumes "listening n c" "keep \<longrightarrow> answering c"
  shows "listening n (frame_while_busy n f keep c)"
proof -
  have "listening n (tally record_discarded_while_busy (c\<lparr>mc_pending_token := False\<rparr>))"
    using token_listening [OF assms(1), of False] by (simp add: tally_listening)
  moreover have "listening n (c\<lparr>mc_pending_token := False\<rparr>)" using token_listening [OF assms(1), of False] by simp
  moreover have "keep \<Longrightarrow> listening n (c\<lparr>mc_pending_token := True\<rparr>)" using token_listening [OF assms(1)] assms(2) by simp
  ultimately show ?thesis using deliver_listening [OF assms(1)]
    unfolding frame_while_busy_def Let_def by (auto simp del: master_core.update_convs)
qed

subsection \<open>Token timeouts\<close>

lemma take_successor_settles: "quiet n c \<Longrightarrow> unasked c \<Longrightarrow> settled n c (take_successor ops n' s now c)"
  using going_idle.queue_token_settles [of n "c\<lparr>mc_next_station := s, mc_poll_station := cf_station (mc_config c),
      mc_token_count := 0, mc_retry_token_count := 0, mc_sole_master := False\<rparr>" OriginHolder]
  by (simp add: take_successor_def)

lemma poll_timeout_settles:
  assumes "quiet n c" "unasked c"
  shows "settled n c (poll_timeout ops n' now c)"
proof -
  have drive: "settled n c (drive_token ops n' now (set_state UseToken (c\<lparr>mc_sole_master := b, mc_frame_count := 0\<rparr>)))" for b
    using going_idle.drive_settles [of n "set_state UseToken (c\<lparr>mc_sole_master := b, mc_frame_count := 0\<rparr>)"]
      quiet_frame_count [OF assms(1)] assms(2) by (simp add: unasked_def quiet_def base_def)
  have drive': "settled n c (drive_token ops n' now (set_state UseToken (c\<lparr>mc_frame_count := 0\<rparr>)))"
    using going_idle.drive_settles [of n "set_state UseToken (c\<lparr>mc_frame_count := 0\<rparr>)"]
      quiet_frame_count [OF assms(1)] assms(2) by (simp add: unasked_def quiet_def base_def)
  have "settled n c (queue_token ops n' dst OriginHolder now (c\<lparr>mc_retry_token_count := 0\<rparr>))" for dst
    using going_idle.queue_token_settles [of n "c\<lparr>mc_retry_token_count := 0\<rparr>" OriginHolder] assms by simp
  moreover have "settled n c (queue_poll ops n' OriginNextPoll now (c\<lparr>mc_poll_station := x\<rparr>))" for x
    using going_idle.queue_poll_settles [of n "c\<lparr>mc_poll_station := x\<rparr>" OriginNextPoll] assms by simp
  ultimately show ?thesis using drive drive' by (simp add: poll_timeout_def Let_def)
qed

lemma quiet_deadline:
  "quiet n c \<Longrightarrow> unasked c \<Longrightarrow> s \<noteq> AnswerDataRequest \<Longrightarrow> settled n c (set_deadline t (set_state s c))"
  unfolding settled_def
  by (auto intro!: quiet_sends) (simp_all add: quiet_def base_def unasked_def transmitting_def kept_def)

lemma quiet_tally:
  "ct_internal_errors k = ct_internal_errors (mc_counters c) \<Longrightarrow> quiet n (c\<lparr>mc_counters := k\<rparr>) = quiet n c"
  by (simp add: quiet_def base_def)

lemma pass_token_timeout_settles:
  assumes "quiet n c" "unasked c"
  shows "settled n c (pass_token_timeout ops n' now c)"
proof -
  have "settled n c (queue_token ops n' dst OriginPassToken now
      (tally record_token_retry (c\<lparr>mc_retry_token_count := x\<rparr>)))" for dst x
    using going_idle.queue_token_settles [of n "tally record_token_retry (c\<lparr>mc_retry_token_count := x\<rparr>)" OriginPassToken]
      assms by (simp add: quiet_tally)
  moreover have "settled n c (queue_poll ops n' OriginPassToken now (c\<lparr>mc_next_station := st, mc_poll_station := p,
      mc_retry_token_count := 0, mc_token_count := 0\<rparr>))" for st p
    using going_idle.queue_poll_settles [of n "c\<lparr>mc_next_station := st, mc_poll_station := p,
      mc_retry_token_count := 0, mc_token_count := 0\<rparr>" OriginPassToken] assms by simp
  ultimately show ?thesis using quiet_deadline [OF assms, of Idle] by (simp add: pass_token_timeout_def Let_def)
qed

lemma generate_token_settles:
  assumes "quiet n c" "unasked c"
  shows "settled n c (generate_token_if_in_slot ops n' now c)"
proof -
  have poll: "settled n d (queue_poll ops n' OriginNoToken now (d\<lparr>mc_next_station := st, mc_token_count := 0, mc_poll_station := p\<rparr>))"
    if "quiet n d" "unasked d" for d :: "'a master_core" and st p
    using going_idle.queue_poll_settles [of n "d\<lparr>mc_next_station := st, mc_token_count := 0, mc_poll_station := p\<rparr>"
        OriginNoToken] that by simp
  have "settled n c (set_deadline t c)" for t
    using quiet_deadline [OF assms, of "mc_state c" t] assms(2) by (simp add: set_state_def unasked_def)
  with assms poll [of "tally record_token_regeneration c"]
    poll [of "tally record_token_regeneration (tally record_missed_generation_slot c)"]
  show ?thesis by (simp add: generate_token_if_in_slot_def Let_def quiet_tally)
qed

lemma enter_no_token_settles:
  assumes "quiet n c" "unasked c"
  shows "settled n c (enter_no_token ops n' now c)"
  using generate_token_settles [of n "(set_state NoToken c)\<lparr>mc_retry_token_count := 0, mc_event_count := 0\<rparr>"] assms
  by (simp add: enter_no_token_def unasked_def)

subsection \<open>Activity\<close>

lemma pending_activity_listening:
  assumes inv: "base n c" "one_frame c" "frame_kept c" "deadline_set c" "answers_well c" "\<not> transmitting c"
    and pend: "mc_pending_send c \<noteq> None"
    and answers: "\<And>p w. mc_pending_send c = Some p \<Longrightarrow> ps_origin p = OriginAnswer w \<Longrightarrow>
        ps_limit p = rw_give_up w \<and> ps_post p = PostIdle"
  shows "listening n (pending_activity ops n' now c)"
proof -
  obtain p where p: "mc_pending_send c = Some p" using pend by auto
  have req: "mc_pending_request c = None" using inv(5) p by (auto simp: answers_well_def)
  have "settled n c (drop_pending ops n' now c)"
    using discard_one [OF inv(1,2) pend] enter_idle_settles [of n "discard_pending c" ops n' now]
    by (auto simp: drop_pending_with_def intro: settled_kept)
  then have drop: "listening n (drop_pending ops n' now c)" using req by (rule settled_listening)
  let ?p = "p\<lparr>ps_earliest := after (mc_last_activity c) (cf_t_turnaround (mc_config c))\<rparr>"
  let ?c = "c\<lparr>mc_pending_send := Some ?p\<rparr>"
  have "sends_well n ?c" using inv p answers by (auto simp: sends_well_def parts)
  moreover have "answers_well ?c" using inv(5) p by (auto simp: answers_well_def answering_def)
  ultimately have "listening n ?c" "listening n (set_deadline t ?c)" for t
    using inv(6) sends_well_deadline [of n ?c]
    by (auto simp: listening_def core_inv_def transmitting_def answers_well_def answering_def)
  with drop p show ?thesis by (simp add: pending_activity_def Let_def)
qed

lemma note_listening:
  assumes "listening n c"
  shows "listening n (note_bus_activity ops n' now events c)"
proof -
  let ?c = "c\<lparr>mc_last_activity := now, mc_event_count := u32_saturating_add (mc_event_count c) events\<rparr>"
  show ?thesis using assms
  proof (cases rule: listening_cases)
    case (waits p)
    have "listening n (pending_activity ops n' now ?c)"
      by (rule pending_activity_listening)
        (use assms waits in \<open>auto simp: listening_def core_inv_def sends_well_def parts transmitting_def
            answers_well_def answering_def\<close>)
    with waits show ?thesis by (simp add: note_bus_activity_def Let_def)
  next
    case (asked r)
    then have "mc_state c = AnswerDataRequest" using assms by (auto simp: listening_def core_inv_def answers_well_def)
    moreover have "listening n ?c" using assms asked
      by (auto simp: listening_def core_inv_def sends_well_def parts transmitting_def answers_well_def answering_def)
    ultimately show ?thesis using asked by (simp add: note_bus_activity_def Let_def)
  next
    case free
    have c: "quiet n ?c" "unasked ?c" using free by (auto simp: quiet_def base_def unasked_def)
    have "listening n ?c" using assms free
      by (auto simp: listening_def core_inv_def sends_well_def parts transmitting_def answers_well_def answering_def)
    moreover have "listening n (set_deadline t (set_state s ?c))" if "s \<noteq> AnswerDataRequest" for t s
      using settled_listening [OF quiet_deadline [OF c that]] free by simp
    moreover have "listening n (set_deadline t ?c)" for t
      using settled_listening [OF quiet_deadline [OF c, of "mc_state c" t]] free c by (simp add: set_state_def unasked_def)
    ultimately show ?thesis using free
      by (auto simp: note_bus_activity_def Let_def split: master_state.split)
  qed
qed

lemma abort_partial_keeps:
  assumes "abort_partial_if_late now c = (b, d)"
  shows "listening n d = listening n c \<and> core_inv n d = core_inv n c \<and> mc_active_transmit d = mc_active_transmit c
       \<and> mc_pending_send d = mc_pending_send c \<and> mc_last_activity d = mc_last_activity c
       \<and> mc_config d = mc_config c \<and> mc_last_now d = mc_last_now c \<and> mc_actions d = mc_actions c
       \<and> mc_decoder d \<in> {mc_decoder c, reset (mc_decoder c)}"
  using assms by (auto simp: abort_partial_if_late_def Let_def listening_def transmitting_def core_inv_tally
      split: if_splits)

lemma invalid_event_listening:
  assumes "listening n c"
  shows "listening n (invalid_frame_event ops n' now c)"
  using assms
proof (cases rule: listening_cases)
  case (asked r)
  then have "mc_state c = AnswerDataRequest" using assms by (auto simp: listening_def core_inv_def answers_well_def)
  with assms show ?thesis by (simp add: invalid_frame_event_def)
next
  case free
  then have "settled n c (drive_token ops n' now (set_state DoneWithToken c))"
    using going_idle.drive_settles [of n "set_state DoneWithToken c"] by (simp add: unasked_def)
  with poll_timeout_settles [OF free(4,5), of ops n' now] free assms settled_listening show ?thesis
    by (auto simp: invalid_frame_event_def)
qed (use assms in \<open>simp add: invalid_frame_event_def\<close>)

subsection \<open>Answers\<close>

text \<open>A frame sent as an answer either waits or goes out, or the core has gone idle.\<close>

lemma answer_frame:
  assumes "quiet n c" "sendable (mc_config c) t data"
    and d_def: "d = queue_frame ops n' t dst data PostIdle (OriginAnswer w) now c"
  shows "sends_well n d \<and> \<not> transmitting d \<and> kept c d
       \<and> (unasked d \<or> (\<exists>p. mc_pending_send d = Some p \<and> ps_origin p = OriginAnswer w))"
proof -
  obtain a where a: "encode (new_frame t dst (cf_station (mc_config c)) data) c = (True, c\<lparr>mc_actions := a\<rparr>)"
      "holds_frame (c\<lparr>mc_actions := a\<rparr>)" "length (ac_frame a) = length (ac_frame (mc_actions c))"
      "ac_transmit a = ac_transmit (mc_actions c)" "ac_deliveries a = ac_deliveries (mc_actions c)"
      "ac_head a = ac_head (mc_actions c)" "ac_waiting a = ac_waiting (mc_actions c)"
    using encode_holds [of c t data dst] assms(1,2) by (auto simp: quiet_def base_def)
  let ?p = "\<lparr>ps_post = PostIdle, ps_origin = OriginAnswer w,
      ps_earliest = after (mc_last_activity c) (cf_t_turnaround (mc_config c)), ps_limit = rw_give_up w\<rparr>"
  let ?c = "c\<lparr>mc_actions := a, mc_pending_send := Some ?p\<rparr>"
  have d: "d = dispatch_pending_send ops n' now ?c"
    by (simp add: d_def queue_frame_with_def a(1) send_encoded_with_def)
  have base: "base n ?c" "mc_active_transmit ?c = None" "ac_transmit (mc_actions ?c) = None" "holds_frame ?c"
    using assms(1) a by (auto simp: quiet_def base_def ring_wf_def holds_frame_def)
  consider (drop) "rw_give_up w \<le> now" | (wait) "\<not> rw_give_up w \<le> now" "now < ps_earliest ?p"
    | (go) "\<not> rw_give_up w \<le> now" "\<not> now < ps_earliest ?p" by blast
  then show ?thesis
  proof cases
    case drop
    have "settled n ?c d"
      using discard_quiet [OF base(1-3)] enter_idle_settles [of n "discard_pending ?c" ops n' now] drop
      by (auto simp: d dispatch_pending_send_with_def drop_pending_with_def intro: settled_kept)
    then show ?thesis by (auto simp: settled_def kept_def)
  next
    case wait
    then have "d = set_deadline (pending_deadline ?p) ?c" by (simp add: d dispatch_pending_send_with_def)
    with base show ?thesis by (simp add: sends_well_def parts transmitting_def kept_def)
  next
    case go
    then have "d = dispatch_frame PostIdle now ?c" by (simp add: d dispatch_pending_send_with_def)
    with base show ?thesis
      by (simp add: sends_well_def parts transmitting_def kept_def dispatch_frame_def queue_transmit_def
          queued_frame_def Let_def)
  qed
qed

lemma answer_listening:
  assumes "quiet n c" "sendable (mc_config c) t data"
  shows "listening n ((queue_frame ops n' t dst data PostIdle (OriginAnswer w) now c)\<lparr>mc_pending_request := None\<rparr>)"
  using answer_frame [OF assms refl, of ops n' dst w now]
  by (auto simp: listening_def core_inv_def answers_well_def answering_def unasked_def transmitting_def)

lemma observe_fields [simp]:
  "observe_time now c = (t, d) \<Longrightarrow> listening n d = listening n c"
  by (auto simp: observe_time_def listening_def transmitting_def Let_def)

lemma release_listening:
  "quiet n c \<Longrightarrow> listening n (release_unanswered_request ops n' now c)"
  using settled_listening [OF enter_idle_settles, of n "tally record_expired_request (c\<lparr>mc_pending_request := None\<rparr>)" ops n' now]
  by (simp add: release_unanswered_request_def quiet_def base_def)

lemma abandon_listening:
  "quiet n c \<Longrightarrow> listening n (enter_idle ops n' now (c\<lparr>mc_pending_request := None\<rparr>))"
  using settled_listening [OF enter_idle_settles, of n "c\<lparr>mc_pending_request := None\<rparr>" ops n' now]
  by (simp add: quiet_def base_def)

lemma complete_request_listening:
  assumes "listening n c"
  shows "listening n (snd (complete_request ops n' rid decision now c))"
proof -
  obtain t d where o: "observe_time now c = (t, d)" by fastforce
  then have d: "listening n d" using assms by simp
  show ?thesis
  proof (cases "mc_pending_request d")
    case None
    then show ?thesis using d o by (simp add: complete_request_def)
  next
    case (Some r)
    have q: "quiet n d" by (rule listening_cases [OF d]) (use Some in auto)
    have "sendable (mc_config d) BACNET_EXTENDED_DATA_NOT_EXPECTING_REPLY data"
      if "length data \<le> max_npdu (mc_config d)" "MAX_STANDARD_MPDU_DATA < length data" for data
      using that by (auto simp: sendable_def max_npdu_def split: if_splits)
    moreover have "sendable (mc_config d) BACNET_DATA_NOT_EXPECTING_REPLY data"
      if "length data \<le> MAX_STANDARD_MPDU_DATA" for data using that by (auto simp: sendable_def)
    ultimately show ?thesis
      using o Some d answer_listening [OF q] release_listening [OF q, of ops n' t] abandon_listening [OF q, of ops n' t]
      by (cases decision) (auto simp: complete_request_def Let_def linorder_not_less)
  qed
qed

subsection \<open>Received frames\<close>

text \<open>A Test_Request fits the answer that carries its data back.\<close>

definition echo_fits :: "frame \<Rightarrow> bool" where
  "echo_fits f \<longleftrightarrow> (fh_type (fr_header f) = TEST_REQUEST \<longrightarrow> length (fr_data f) \<le> MAX_STANDARD_MPDU_DATA)"

lemma begin_request_listening:
  assumes "quiet n c" "unasked c" "mc_pending_request c = None"
  shows "listening n (begin_request ops n f now c)"
proof -
  let ?w = "reply_window_from now c"
  let ?r = "\<lparr>pr_id = mc_next_request_generation c, pr_source = fh_source (fr_header f),
      pr_decide_by = before (rw_send_by ?w) (cf_reply_transmit_margin (mc_config c)), pr_window = ?w\<rparr>"
  let ?c = "set_deadline (pr_decide_by ?r) (set_state AnswerDataRequest
      (c\<lparr>mc_next_request_generation := mc_next_request_generation c + 1, mc_pending_request := Some ?r\<rparr>))"
  have "quiet n ?c" using assms(1) by (simp add: quiet_def base_def)
  then have c: "listening n ?c"
    using quiet_sends [of n ?c] assms
    by (simp add: listening_def core_inv_def answers_well_def answering_def transmitting_def quiet_def)
  obtain b d where d: "deliver n f (Some (mc_next_request_generation c)) ?c = (b, d)" by fastforce
  then have "listening n d" using deliver_listening [OF c, of f "Some (mc_next_request_generation c)"] by simp
  with d complete_request_listening [of n d] show ?thesis
    by (cases b) (simp_all add: begin_request_def Let_def)
qed

lemma frame_while_pending_listening:
  assumes "listening n c" "frame_while_pending ops n f now c = (handled, d)"
  shows "listening n d \<and> (\<not> handled \<longrightarrow> mc_pending_send d = None)"
proof (cases "mc_pending_send c")
  case None
  with assms show ?thesis by (simp add: frame_while_pending_def)
next
  case (Some p)
  have inv: "core_inv n c" "mc_pending_request c = None"
    using assms(1) Some by (auto simp: listening_def core_inv_def answers_well_def)
  have ans: "answering c" if "ps_origin p = OriginAnswer w" for w using Some that by (auto simp: answering_def)
  have pend: "mc_pending_send c \<noteq> None" using Some by simp
  note disc = discard_core_inv [OF inv(1) pend]
  have late: "listening n (take_successor ops n src now (discard_pending c))"
    if "\<And>w. ps_origin p \<noteq> OriginAnswer w" for src
  proof -
    have "unasked (discard_pending c)"
      using pending_origin_unasked [OF inv(1) Some that] disc by (simp add: unasked_def)
    with disc take_successor_settles [of n "discard_pending c" ops n src now] inv(2) settled_listening
    show ?thesis by (auto simp: kept_def)
  qed
  have drop: "listening n (drop_pending ops n now c) \<and> mc_pending_send (drop_pending ops n now c) = None"
    if "\<And>w. ps_origin p \<noteq> OriginAnswer w"
  proof -
    have "unasked (discard_pending c)"
      using pending_origin_unasked [OF inv(1) Some that] disc by (simp add: unasked_def)
    then have "drop_pending ops n now c = settle_idle now (discard_pending c)"
      by (simp add: drop_pending_with_def enter_idle_def take_pending_token_def settle_idle_def unasked_def)
    moreover have "listening n (drop_pending ops n now c)"
      using settled_listening [OF drop_pending_inv [OF inv(1) pend] inv(2)] .
    ultimately show ?thesis using disc settle_quiet [of n "discard_pending c" now] by (simp add: quiet_def)
  qed
  show ?thesis
    using assms Some late drop busy_listening [OF assms(1), of True f] busy_listening [OF assms(1), of False f] ans
    by (cases "ps_origin p") (auto simp: frame_while_pending_def Let_def split: if_splits)
qed

lemma process_wait_for_reply_listening:
  assumes "listening n c" "quiet n c" "unasked c" "mc_pending_request c = None"
  shows "listening n (process_wait_for_reply ops n f now c)"
proof -
  have drive: "listening n (drive_token ops n now (set_state DoneWithToken d))"
    if "quiet n d" "unasked d" "mc_pending_request d = None" for d :: "'a master_core"
    using settled_listening [of n d] going_idle.drive_settles [of n "set_state DoneWithToken d"] that
    by (simp add: unasked_def)
  define d where "d = snd (deliver n f None c)"
  have dk: "core_inv n d" "kept c d" "mc_state d = mc_state c" "mc_pending_send d = None" "mc_active_transmit d = None"
      "mc_pending_token d = mc_pending_token c"
    using deliver_keeps [of n c f None "fst (deliver n f None c)" d] assms(1,2) by (auto simp: d_def listening_def quiet_def)
  then have "quiet n (snd (deliver n f None c)) \<and> unasked (snd (deliver n f None c))
      \<and> mc_pending_request (snd (deliver n f None c)) = None"
    using unasked_quiet [of n d] assms(4) by (auto simp: kept_def d_def)
  then show ?thesis
    using drive assms settled_listening [OF quiet_deadline [OF assms(2,3), of Idle] assms(4)]
    by (simp add: process_wait_for_reply_def Let_def)
qed

lemma process_in_idle_listening:
  assumes "listening n c" "quiet n c" "unasked c" "mc_pending_request c = None" "echo_fits f"
  shows "listening n (process_in_idle ops n f now c)"
proof -
  have answer: "listening n (queue_frame ops n t dst data PostIdle (OriginAnswer w) now c)"
    if "sendable (mc_config c) t data" for t dst data w
    using settled_listening [OF going_idle.queue_frame_settles [OF assms(2,3) that] assms(4)] by simp
  have "sendable (mc_config c) TEST_RESPONSE (fr_data f)" if "fh_type (fr_header f) = TEST_REQUEST"
    using assms(5) that by (simp add: echo_fits_def sendable_def)
  moreover have "listening n (use_received_token ops n now c)"
    using settled_listening [OF going_idle.use_token_settles [OF assms(2)] assms(4)] assms(3) by (simp add: unasked_def)
  ultimately show ?thesis
    using answer begin_request_listening [OF assms(2-4)] deliver_listening [OF assms(1)] assms(1)
    by (auto simp: process_in_idle_def Let_def)
qed

lemma process_frame_listening:
  assumes "listening n c" "echo_fits f"
  shows "listening n (process_frame ops n f now c)"
proof -
  define c1 where "c1 = (if fh_source (fr_header f) = cf_station (mc_config (tally record_frame_received c))
      then tally record_own_address_frame (tally record_frame_received c) else tally record_frame_received c)"
  have c1: "listening n c1" using assms(1) by (simp add: c1_def tally_listening)
  obtain handled d where d: "frame_while_pending ops n f now c1 = (handled, d)" by fastforce
  note dl = frame_while_pending_listening [OF c1 d]
  show ?thesis
  proof (cases handled)
    case True
    with d dl show ?thesis unfolding process_frame_def Let_def c1_def [symmetric] by simp
  next
    case nh: False
    then have dn: "listening n d" "mc_pending_send d = None" using dl by auto
    show ?thesis
    proof (cases "mc_pending_request d \<noteq> None \<or> mc_state d = AnswerDataRequest")
      case True
      then have "answering d" using dn(1) by (auto simp: listening_def core_inv_def answers_well_def answering_def)
      with busy_listening [OF dn(1), of True f] d nh True show ?thesis
        unfolding process_frame_def Let_def c1_def [symmetric] by simp
    next
      case False
      have f: "mc_active_transmit d = None" "mc_pending_request d = None" "quiet n d" "unasked d"
        using dn(2) False by (rule_tac listening_cases [OF dn(1)]; auto)+
      define e where "e = (if mc_state d = PassToken then set_deadline (after now T_NO_TOKEN) (set_state Idle d) else d)"
      have "settled n d (set_deadline t (set_state s d))" if "s \<noteq> AnswerDataRequest" for t s
        using quiet_deadline [OF f(3,4) that] .
      then have e: "listening n e" "quiet n e" "unasked e" "mc_pending_request e = None"
        using dn f settled_listening [of n d] by (auto simp: e_def quiet_def base_def unasked_def)
      have "listening n (set_deadline t (set_state Idle e))" for t
        using settled_listening [OF quiet_deadline [OF e(2,3), of Idle t] e(4)] by simp
      moreover have "listening n (take_successor ops n s now e)" for s
        using settled_listening [OF take_successor_settles [OF e(2,3)] e(4)] .
      ultimately show ?thesis
        using d nh False process_wait_for_reply_listening [OF e, of ops f now] process_in_idle_listening [OF e assms(2), of ops now]
        unfolding process_frame_def Let_def c1_def [symmetric] by (simp add: e_def [symmetric])
    qed
  qed
qed

subsection \<open>The octet path\<close>

text \<open>The decoder has room for another octet between calls.\<close>

definition decoder_ready :: "stream_decoder \<Rightarrow> bool" where
  "decoder_ready d \<longleftrightarrow> stream_inv d \<and> MIN_RX_STORAGE \<le> capacity d \<and> length (snd (abs_state d)) < capacity d"

lemma reset_ready: "stream_inv d \<Longrightarrow> MIN_RX_STORAGE \<le> capacity d \<Longrightarrow> decoder_ready (reset d)"
  by (auto simp: decoder_ready_def reset_def stream_inv_def capacity_def abs_state_def buffered_def
      MIN_RX_STORAGE_def HEADER_LENGTH_def)

lemma spec_decode_frame:
  assumes "spec_decode cap rc sk b = (FrameEvent f k, s)"
  shows "echo_fits f"
proof -
  from assms obtain v where v: "check_frame b rc = Inr v" "f = \<lparr>fr_header = vf_header v,
      fr_data = subslice (decode_extended_in_place b v) 8 (8 + vf_data_length v)\<rparr>"
    by (auto simp: spec_decode_def Let_def split: if_splits sum.splits frame_error.splits)
  from v(1) obtain g where g: "check_header b rc = Inr g" "vf_header v = gh_header g"
      "\<not> is_cobs (fh_type (gh_header g)) \<longrightarrow> vf_data_length v = gh_length g"
    by (auto simp: check_frame_def try_res_eq_Inr Let_def split: if_splits)
  have "\<not> is_cobs TEST_REQUEST" by (simp add: is_cobs_def TEST_REQUEST_def word_le_nat_alt)
  with check_header_Inr [OF g(1)] g v(2) show ?thesis by (auto simp: echo_fits_def MAX_STANDARD_MPDU_DATA_def)
qed

lemma push_step:
  assumes "stream_inv d" "0 < capacity d" "length (snd (abs_state d)) + length input \<le> capacity d"
    "push_slice input d = (ev, d')"
  shows "stream_inv d' \<and> capacity d' = capacity d \<and> (\<forall>f k. ev = FrameEvent f k \<longrightarrow> echo_fits f)
       \<and> (ev = NeedMore \<longrightarrow> length (snd (abs_state d')) < capacity d)
       \<and> (ev \<noteq> NeedMore \<longrightarrow> length (snd (abs_state d')) < length (snd (abs_state d)) + length input)
       \<and> (\<forall>e. ev \<noteq> ErrorEvent e)"
proof -
  obtain sk b where abs: "abs_state d = (sk, b)" by fastforce
  obtain sk' b' where abs': "abs_state d' = (sk', b')" by fastforce
  let ?rest = "drop (min sk (length input)) input"
  have len: "length b + length ?rest \<le> length b + length input" "length (b @ ?rest) \<le> capacity d"
    using assms(3) abs by simp_all
  note spec = push_slice_spec [OF assms(1), of input]
  have dec: "spec_decode (capacity d) (sd_reserved_cobs d) (sk - min sk (length input)) (b @ ?rest) = (ev, sk', b')"
    using spec assms(3,4) abs abs' by (auto simp: spec_push_def Let_def split: if_splits)
  then have "\<forall>e. ev \<noteq> ErrorEvent e"
    by (auto simp: spec_decode_def Let_def split: if_splits sum.splits frame_error.splits)
  with spec_decode_progress [OF dec assms(2) len(2)] spec assms(4) abs abs' len dec show ?thesis
    using spec_decode_frame by fastforce
qed

lemma drain_event_listening:
  assumes "listening n c" "\<forall>f k. ev = FrameEvent f k \<longrightarrow> echo_fits f"
  shows "listening n (drain_event ops n ev now c)"
  using assms process_frame_listening [OF assms(1)] invalid_event_listening [of n "tally record_parser_error c" ops n now]
  by (cases ev) (auto simp: drain_event_def tally_listening)

lemma drain_decoder_listening:
  assumes "stream_inv d" "MIN_RX_STORAGE \<le> capacity d" "length (snd (abs_state d)) + length input \<le> capacity d"
    "length (snd (abs_state d)) + length input < fuel" "listening n c"
  shows "\<exists>d' c'. drain_decoder ops n fuel d input now c = Some (d', c') \<and> decoder_ready d' \<and> capacity d' = capacity d
       \<and> listening n c'"
  using assms
proof (induction fuel arbitrary: d input c)
  case (Suc fuel)
  obtain ev d1 where push: "push_slice input d = (ev, d1)" by fastforce
  have cap: "0 < capacity d" using Suc.prems(2) by (simp add: MIN_RX_STORAGE_def HEADER_LENGTH_def)
  note step = push_step [OF Suc.prems(1) cap Suc.prems(3) push]
  show ?case
  proof (cases "ev = NeedMore")
    case True
    with push step Suc.prems show ?thesis by (auto simp: decoder_ready_def)
  next
    case False
    have "\<exists>d' c'. drain_decoder ops n fuel d1 [] now (drain_event ops n ev now c) = Some (d', c') \<and> decoder_ready d'
        \<and> capacity d' = capacity d1 \<and> listening n c'"
      using step False Suc.prems drain_event_listening [OF Suc.prems(5), of ev ops now] by (intro Suc.IH) auto
    with push False step show ?thesis by (cases ev) auto
  qed
qed simp

section \<open>Calls\<close>

definition core_ok :: "nat \<Rightarrow> 'q master_core \<Rightarrow> bool" where
  "core_ok n c \<longleftrightarrow> core_inv n c \<and> decoder_ready (mc_decoder c)"

text \<open>Nothing a received frame leads to touches the decoder.\<close>

lemma settled_decoder: "settled n c d \<Longrightarrow> mc_decoder d = mc_decoder c"
  by (simp add: settled_def kept_def)

lemma decode_octet_ok:
  assumes "listening n c" "decoder_ready (mc_decoder c)"
  shows "\<exists>c'. decode_octet ops n byte now c = Some c' \<and> listening n c' \<and> decoder_ready (mc_decoder c')"
proof -
  have "listening n (c\<lparr>mc_decoder := new_decoder []\<rparr>)" using assms(1) by (simp add: listening_def transmitting_def)
  from drain_decoder_listening [of "mc_decoder c" "[byte]" "capacity (mc_decoder c) + 3", OF _ _ _ _ this, of ops now] assms(2)
  obtain d' c' where "drain_decoder ops n (capacity (mc_decoder c) + 3) (mc_decoder c) [byte] now
      (c\<lparr>mc_decoder := new_decoder []\<rparr>) = Some (d', c')" "decoder_ready d'" "listening n c'"
    by (auto simp: decoder_ready_def)
  then show ?thesis by (auto simp: decode_octet_def listening_def transmitting_def)
qed

end
