(* ===== verification/Mstp_Master_Steady.thy ===== *)
theory Mstp_Master_Steady
  imports Mstp_Master_Inv
begin

text \<open>
  What no handler of the MS/TP master core touches: the configuration, and the octets the
  stream decoder has gathered. Only the calls that feed or reset the decoder change it
  (\<open>on_octet\<close>, \<open>on_receive_error\<close>, \<open>abort_partial_if_late\<close>, \<open>on_transmit_started\<close>).
\<close>

definition fixture :: "'q master_core \<Rightarrow> mstp_core_config \<times> stream_decoder" where
  "fixture c = (mc_config c, mc_decoder c)"

lemma fixture_updates [simp]:
  "fixture (c\<lparr>mc_queues := q\<rparr>) = fixture c" "fixture (c\<lparr>mc_actions := a\<rparr>) = fixture c"
  "fixture (c\<lparr>mc_state := s\<rparr>) = fixture c" "fixture (c\<lparr>mc_next_station := x\<rparr>) = fixture c"
  "fixture (c\<lparr>mc_poll_station := x\<rparr>) = fixture c" "fixture (c\<lparr>mc_token_count := x\<rparr>) = fixture c"
  "fixture (c\<lparr>mc_frame_count := x\<rparr>) = fixture c" "fixture (c\<lparr>mc_retry_token_count := x\<rparr>) = fixture c"
  "fixture (c\<lparr>mc_event_count := e\<rparr>) = fixture c" "fixture (c\<lparr>mc_sole_master := b\<rparr>) = fixture c"
  "fixture (c\<lparr>mc_pending_token := b\<rparr>) = fixture c" "fixture (c\<lparr>mc_pending_request := r\<rparr>) = fixture c"
  "fixture (c\<lparr>mc_next_request_generation := e\<rparr>) = fixture c" "fixture (c\<lparr>mc_active_transmit := t\<rparr>) = fixture c"
  "fixture (c\<lparr>mc_pending_send := p\<rparr>) = fixture c" "fixture (c\<lparr>mc_next_transmit_generation := e\<rparr>) = fixture c"
  "fixture (c\<lparr>mc_protocol_deadline := d\<rparr>) = fixture c" "fixture (c\<lparr>mc_last_activity := i\<rparr>) = fixture c"
  "fixture (c\<lparr>mc_last_octet := d\<rparr>) = fixture c" "fixture (c\<lparr>mc_parser_partial := b\<rparr>) = fixture c"
  "fixture (c\<lparr>mc_last_now := i\<rparr>) = fixture c" "fixture (c\<lparr>mc_consecutive_broadcast := x\<rparr>) = fixture c"
  "fixture (c\<lparr>mc_counters := k\<rparr>) = fixture c"
  by (simp_all add: fixture_def)

lemma fixture_small [simp]:
  "fixture (set_state s c) = fixture c" "fixture (record_oversize_npdu k c) = fixture c"
  "fixture (dispatch_frame post now c) = fixture c" "fixture (withdraw_transmit tid c) = fixture c"
  "fixture (forget_pending c) = fixture c" "fixture (discard_pending c) = fixture c"
  "fixture (settle_idle now c) = fixture c"
  by (simp_all add: set_state_def record_oversize_npdu_def dispatch_frame_def withdraw_transmit_def
      forget_pending_def discard_pending_def settle_idle_def Let_def split: queue_kind.split option.split origin.split)

lemma encode_steady: "encode f c = (b, d) \<Longrightarrow> fixture d = fixture c"
  by (auto simp: encode_def split: prod.splits sum.splits)

lemma deliver_steady [simp]: "fixture (snd (deliver n f r c)) = fixture c"
  by (simp add: deliver_def split: prod.split sum.split)

lemma observe_steady: "observe_time now c = (t, d) \<Longrightarrow> fixture d = fixture c"
  by (auto simp: observe_time_def Let_def)

locale steady_idle =
  fixes idle :: "instant \<Rightarrow> 'q master_core \<Rightarrow> 'q master_core"
  assumes idle_steady: "fixture (idle now c) = fixture c"
begin

lemma drop_steady: "fixture (drop_pending_with idle now c) = fixture c"
  by (simp add: drop_pending_with_def idle_steady)

lemma dispatch_steady: "fixture (dispatch_pending_send_with idle now c) = fixture c"
  by (simp add: dispatch_pending_send_with_def drop_steady split: option.split)

lemma send_steady: "fixture (send_encoded_with idle post org now c) = fixture c"
  by (simp add: send_encoded_with_def dispatch_steady Let_def)

lemma queue_frame_steady: "fixture (queue_frame_with idle t dst data post org now c) = fixture c"
  by (auto simp: queue_frame_with_def send_steady dest: encode_steady split: prod.split bool.split)

lemma queue_poll_steady: "fixture (queue_poll_with idle org now c) = fixture c"
  by (simp add: queue_poll_with_def queue_frame_steady)

lemma queue_token_steady: "fixture (queue_token_with idle dst org now c) = fixture c"
  by (simp add: queue_token_with_def queue_poll_steady queue_frame_steady)

lemma dequeue_tries_steady: "fixture (snd (dequeue_tries_with idle ops n now tries c)) = fixture c"
  by (induction tries arbitrary: c)
    (auto simp: Let_def send_steady dest!: encode_steady split: option.split prod.split sum.split bool.split)

lemma dequeue_and_send_steady: "fixture (snd (dequeue_and_send_with idle ops n now c)) = fixture c"
  by (simp add: dequeue_and_send_with_def Let_def dequeue_tries_steady del: dequeue_tries_with.simps)

lemma done_steady: "fixture (done_with_token_with idle ops n now c) = fixture c"
proof (induction "50 - unat (mc_token_count c)" arbitrary: c rule: less_induct)
  case less
  let ?d = "set_state UseToken (c\<lparr>mc_token_count := u8_saturating_add (mc_token_count c) 1, mc_frame_count := 0\<rparr>)"
  obtain b d where d: "dequeue_and_send_with idle ops n now ?d = (b, d)" by fastforce
  then have fd: "fixture d = fixture c" using dequeue_and_send_steady [of ops n now ?d] by simp
  have "fixture (done_with_token_with idle ops n now d) = fixture c" if "\<not> b" "mc_token_count c < N_POLL"
  proof -
    have "unat (mc_token_count d) = unat (u8_saturating_add (mc_token_count c) 1)"
      using dequeue_and_send_False [of idle ops n now ?d d] d that(1) by simp
    moreover have "unat (mc_token_count c) < 50" using that(2) by (simp add: N_POLL_def word_less_nat_alt)
    ultimately have "50 - unat (mc_token_count d) < 50 - unat (mc_token_count c)"
      by (simp add: u8_saturating_add_def unat_word_ariths)
    from less.hyps [OF this] fd show ?thesis by simp
  qed
  with d fd show ?case
    by (subst done_with_token_with.simps)
      (auto simp: Let_def queue_poll_steady queue_token_steady split: bool.split)
qed

lemma drive_steady: "fixture (drive_token_with idle ops n now c) = fixture c"
  using dequeue_and_send_steady [of ops n now c]
  by (auto simp: drive_token_with_def Let_def done_steady split: prod.split)

lemma use_token_steady: "fixture (use_received_token_with idle ops n now c) = fixture c"
  by (simp add: use_received_token_with_def drive_steady)

end

interpretation steady_settle: steady_idle settle_idle
  by unfold_locales simp

lemma take_pending_steady [simp]: "fixture (take_pending_token ops n now c) = fixture c"
  by (simp add: take_pending_token_def steady_settle.use_token_steady)

interpretation steady: steady_idle "enter_idle ops n" for ops n
  by unfold_locales (simp add: enter_idle_def)

lemmas steady_cycle [simp] = steady.idle_steady steady.drop_steady steady.dispatch_steady steady.queue_frame_steady
  steady.queue_poll_steady steady.queue_token_steady steady.drive_steady steady.use_token_steady

lemma steady_token [simp]:
  "fixture (generate_token_if_in_slot ops n now c) = fixture c" "fixture (enter_no_token ops n now c) = fixture c"
  "fixture (pass_token_timeout ops n now c) = fixture c" "fixture (poll_timeout ops n now c) = fixture c"
  "fixture (take_successor ops n src now c) = fixture c"
  by (simp_all add: generate_token_if_in_slot_def enter_no_token_def pass_token_timeout_def poll_timeout_def
      take_successor_def Let_def)

lemma steady_activity [simp]:
  "fixture (pending_activity ops n now c) = fixture c" "fixture (note_bus_activity ops n now e c) = fixture c"
  "fixture (invalid_frame_event ops n now c) = fixture c"
  by (simp_all add: pending_activity_def note_bus_activity_def invalid_frame_event_def Let_def
      split: option.split master_state.split)

lemma steady_reply [simp]:
  "fixture (snd (complete_request ops n rid decision now c)) = fixture c"
  by (auto simp: complete_request_def release_unanswered_request_def Let_def dest!: observe_steady
      split: prod.split option.split reply_decision.split)

lemma steady_requests [simp]:
  "fixture (reply_deadline ops n now c) = fixture c" "fixture (begin_request ops n f now c) = fixture c"
proof -
  show "fixture (reply_deadline ops n now c) = fixture c" by (simp add: reply_deadline_def split: option.split)
  have "deliver n f r d = (b, e) \<Longrightarrow> fixture e = fixture d" for r d b and e :: "'a master_core"
    using deliver_steady [of n f r d] by simp
  then show "fixture (begin_request ops n f now c) = fixture c"
    by (auto simp: begin_request_def Let_def split: prod.split bool.split)
qed

lemma steady_frames [simp]:
  "fixture (frame_while_busy n f keep c) = fixture c" "fixture (snd (frame_while_pending ops n f now c)) = fixture c"
  "fixture (process_wait_for_reply ops n f now c) = fixture c" "fixture (process_in_idle ops n f now c) = fixture c"
proof -
  show busy: "fixture (frame_while_busy n f keep c) = fixture c" for keep by (simp add: frame_while_busy_def Let_def)
  then show "fixture (snd (frame_while_pending ops n f now c)) = fixture c"
    by (simp add: frame_while_pending_def Let_def split: option.split origin.split)
qed (simp_all add: process_wait_for_reply_def process_in_idle_def Let_def)

lemma steady_process [simp]: "fixture (process_frame ops n f now c) = fixture c"
proof -
  define d where "d = (if fh_source (fr_header f) = cf_station (mc_config c)
      then tally record_own_address_frame (tally record_frame_received c) else tally record_frame_received c)"
  obtain b e where e: "frame_while_pending ops n f now d = (b, e)" by fastforce
  then have "fixture e = fixture c" using steady_frames(2) [of ops n f now d] by (simp add: d_def)
  moreover have "process_frame ops n f now c = (if b then e
      else if mc_pending_request e \<noteq> None \<or> mc_state e = AnswerDataRequest then frame_while_busy n f True e
      else let e = (if mc_state e = PassToken then set_deadline (after now T_NO_TOKEN) (set_state Idle e) else e)
        in if mc_state e = WaitForReply then process_wait_for_reply ops n f now e
           else if mc_state e = PollForMaster
           then (if fh_type (fr_header f) = REPLY_TO_POLL_FOR_MASTER
                    \<and> fh_destination (fr_header f) = cf_station (mc_config e)
                 then take_successor ops n (fh_source (fr_header f)) now e
                 else set_deadline (after now T_NO_TOKEN) (set_state Idle e))
           else process_in_idle ops n f now e)"
    using e by (cases b) (simp_all add: process_frame_def d_def Let_def del: master_core.update_convs)
  ultimately show ?thesis by (simp add: Let_def)
qed

lemma fixture_eqD: "fixture d = fixture c \<Longrightarrow> mc_config d = mc_config c \<and> mc_decoder d = mc_decoder c"
  by (simp add: fixture_def)

end
