(* ===== verification/Mstp_Master_Calls.thy ===== *)
theory Mstp_Master_Calls
  imports Mstp_Master_Safety Mstp_Master_Steady
begin

text \<open>
  The calls into the MS/TP master core, each keeping \<open>core_ok\<close>; the relation whose steps
  they are; and what holds of every core it reaches.
\<close>

section \<open>Received events\<close>

lemma ok_listening: "core_ok n c \<Longrightarrow> \<not> transmitting c \<Longrightarrow> listening n c"
  by (simp add: core_ok_def listening_def)

lemma steady_ok: "core_inv n d \<Longrightarrow> core_ok n c \<Longrightarrow> fixture d = fixture c \<Longrightarrow> core_ok n d"
  by (auto simp: core_ok_def dest: fixture_eqD)

lemma listening_ok: "listening n d \<Longrightarrow> core_ok n c \<Longrightarrow> fixture d = fixture c \<Longrightarrow> core_ok n d \<and> \<not> transmitting d"
  by (auto simp: listening_def intro: steady_ok)

lemma core_ok_updates [simp]:
  "core_ok n (c\<lparr>mc_queues := q\<rparr>) = core_ok n c" "core_ok n (c\<lparr>mc_last_now := t\<rparr>) = core_ok n c"
  "core_ok n (c\<lparr>mc_last_octet := ot\<rparr>) = core_ok n c" "core_ok n (c\<lparr>mc_parser_partial := b\<rparr>) = core_ok n c"
  by (simp_all add: core_ok_def)

lemma transmitting_updates [simp]:
  "transmitting (c\<lparr>mc_last_now := t\<rparr>) = transmitting c" "transmitting (c\<lparr>mc_counters := k\<rparr>) = transmitting c"
  "transmitting (c\<lparr>mc_decoder := d\<rparr>) = transmitting c" "transmitting (c\<lparr>mc_last_octet := ot\<rparr>) = transmitting c"
  by (simp_all add: transmitting_def)

lemma core_ok_tally:
  "ct_internal_errors k = ct_internal_errors (mc_counters c) \<Longrightarrow> core_ok n (c\<lparr>mc_counters := k\<rparr>) = core_ok n c"
  by (simp add: core_ok_def core_inv_tally)

lemma observe_ok:
  "observe_time now c = (t, d) \<Longrightarrow> core_ok n d = core_ok n c \<and> transmitting d = transmitting c
     \<and> d = c\<lparr>mc_last_now := t\<rparr> \<and> t = max (mc_last_now c) now"
  by (auto simp: observe_time_def transmitting_def Let_def)

lemma note_ok:
  assumes "core_ok n c" "\<not> transmitting c"
  shows "core_ok n (note_bus_activity ops n now e c) \<and> \<not> transmitting (note_bus_activity ops n now e c)"
  using listening_ok [OF note_listening [OF ok_listening [OF assms]] assms(1)] by simp

lemma invalid_event_ok:
  assumes "core_ok n c"
  shows "core_ok n (invalid_frame_event ops n now c)
       \<and> (\<not> transmitting c \<longrightarrow> \<not> transmitting (invalid_frame_event ops n now c))"
proof (cases "transmitting c")
  case True
  then show ?thesis using assms by (auto simp: invalid_frame_event_def transmitting_def split: option.splits)
next
  case False
  then show ?thesis
    using listening_ok [OF invalid_event_listening [OF ok_listening [OF assms False]] assms] by simp
qed

lemma ready_reset: "decoder_ready d \<Longrightarrow> decoder_ready (reset d)"
  using reset_ready [of d] by (simp add: decoder_ready_def)

lemma reset_ok: "core_ok n c \<Longrightarrow> core_ok n (c\<lparr>mc_decoder := reset (mc_decoder c)\<rparr>)"
  by (simp add: core_ok_def ready_reset)

lemma abort_partial_ok:
  assumes "core_ok n c" "abort_partial_if_late now c = (b, d)"
  shows "core_ok n d \<and> transmitting d = transmitting c"
  using abort_partial_keeps [OF assms(2), of n] assms(1) ready_reset [of "mc_decoder c"]
  by (auto simp: core_ok_def transmitting_def)

lemma process_frame_ok:
  assumes "core_ok n c" "\<not> transmitting c" "echo_fits f"
  shows "core_ok n (process_frame ops n f now c)"
  using listening_ok [OF process_frame_listening [OF ok_listening [OF assms(1,2)] assms(3)] assms(1)] by simp

lemma on_octet_ok:
  assumes "core_ok n c"
  shows "\<exists>d. on_octet ops n byte now c = Some d \<and> core_ok n d"
proof -
  obtain t c1 where o: "observe_time now c = (t, c1)" by fastforce
  note c1 = observe_ok [OF o, of n]
  show ?thesis
  proof (cases "transmitting c1")
    case True
    with o c1 assms show ?thesis by (simp add: on_octet_def)
  next
    case False
    obtain b c2 where a: "abort_partial_if_late t c1 = (b, c2)" by fastforce
    have c2: "core_ok n c2" "\<not> transmitting c2" using abort_partial_ok [OF _ a, of n] c1 assms False by auto
    define c3 where "c3 = note_bus_activity ops n t 1 c2"
    have c3: "core_ok n c3" "\<not> transmitting c3" using note_ok [OF c2] by (auto simp: c3_def)
    define c4 where "c4 = (if b then invalid_frame_event ops n t c3 else c3)"
    have c4: "core_ok n c4" "\<not> transmitting c4" using invalid_event_ok [OF c3(1)] c3 by (auto simp: c4_def)
    have "listening n (c4\<lparr>mc_last_octet := Some t\<rparr>)" "decoder_ready (mc_decoder (c4\<lparr>mc_last_octet := Some t\<rparr>))"
      using c4 by (auto simp: core_ok_def listening_def transmitting_def)
    from decode_octet_ok [OF this, of ops byte t] obtain c5 where c5:
      "decode_octet ops n byte t (c4\<lparr>mc_last_octet := Some t\<rparr>) = Some c5" "core_ok n c5"
      by (auto simp: core_ok_def listening_def)
    then show ?thesis using o a False
      by (simp add: on_octet_def c3_def c4_def Let_def split del: if_split cong: if_cong)
  qed
qed

lemma on_validated_frame_ok:
  assumes "core_ok n c"
  shows "core_ok n (on_validated_frame ops n f now c)"
proof -
  obtain t c1 where o: "observe_time now c = (t, c1)" by fastforce
  note c1 = observe_ok [OF o, of n]
  have fits: "echo_fits f" if "\<not> is_cobs (fh_type (fr_header f)) \<longrightarrow> length (fr_data f) \<le> MAX_STANDARD_MPDU_DATA"
    using that by (auto simp: echo_fits_def is_cobs_def TEST_REQUEST_def word_le_nat_alt)
  have "core_ok n (process_frame ops n f t (note_bus_activity ops n t 1 c1))" if "\<not> transmitting c1" "echo_fits f"
    using note_ok [of n c1 ops t 1] c1 assms that process_frame_ok by blast
  with fits o c1 assms show ?thesis
    by (auto simp: on_validated_frame_def Let_def core_ok_tally split: if_splits)
qed

lemma on_invalid_frame_ok:
  assumes "core_ok n c"
  shows "core_ok n (on_invalid_frame ops n now c)"
proof -
  obtain t c1 where o: "observe_time now c = (t, c1)" by fastforce
  note c1 = observe_ok [OF o, of n]
  have "core_ok n (tally record_parser_error (note_bus_activity ops n t 1 c1))" if "\<not> transmitting c1"
    using note_ok [of n c1 ops t 1] c1 assms that by (simp add: core_ok_tally)
  with o c1 assms invalid_event_ok show ?thesis by (auto simp: on_invalid_frame_def)
qed

lemma on_host_activity_ok: "core_ok n c \<Longrightarrow> core_ok n (on_host_activity ops n k now c)"
  using note_ok [of n] by (auto simp: on_host_activity_def dest!: observe_ok [of _ _ _ _ n] split: prod.splits)

lemma on_receive_error_ok:
  assumes "core_ok n c"
  shows "core_ok n (on_receive_error ops n e now c)"
proof -
  obtain t c1 where o: "observe_time now c = (t, c1)" by fastforce
  note c1 = observe_ok [OF o, of n]
  show ?thesis
  proof (cases "transmitting c1")
    case False
    define c2 where "c2 = note_bus_activity ops n t 1 (tally (record_receive_error e) c1)"
    define c3 where "c3 = c2\<lparr>mc_decoder := reset (mc_decoder c2), mc_parser_partial := False\<rparr>"
    have "core_ok n c2"
      using note_ok [of n "tally (record_receive_error e) c1" ops t 1] c1 assms False by (simp add: c2_def core_ok_tally)
    then have c3: "core_ok n c3" using reset_ok [of n c2] by (simp add: c3_def)
    then have "core_ok n (invalid_frame_event ops n t (tally record_parser_error c3))"
      using invalid_event_ok [of n "tally record_parser_error c3" ops t] by (simp add: core_ok_tally)
    with c3 show ?thesis unfolding on_receive_error_def o Let_def prod.case
      using False by (simp only: c2_def [symmetric] c3_def [symmetric] if_False) (simp add: if_splits)
  qed (use o c1 assms in \<open>simp add: on_receive_error_def\<close>)
qed

lemma on_silence_ok:
  assumes "core_ok n c"
  shows "core_ok n (on_silence ops n now c)"
proof -
  obtain t c1 where o: "observe_time now c = (t, c1)" by fastforce
  obtain b c2 where a: "abort_partial_if_late t c1 = (b, c2)" by fastforce
  have "core_ok n c2" using abort_partial_ok [OF _ a, of n] observe_ok [OF o, of n] assms by simp
  with invalid_event_ok [of n c2 ops t] o a show ?thesis by (cases b) (simp_all add: on_silence_def)
qed

section \<open>Transmission\<close>

text \<open>Every way \<open>on_transmit_started\<close> goes, as one case analysis.\<close>

lemma withdraw_quiet:
  assumes "core_inv n c" "mc_active_transmit c = Some tx" "tx_started tx \<or> mc_pending_send c \<noteq> None"
  shows "quiet n ((forget_pending (withdraw_transmit (tx_id tx) c))\<lparr>mc_last_activity := i\<rparr>)
       \<and> quiet n (forget_pending (withdraw_transmit (tx_id tx) c))"
proof -
  have "ac_transmit (mc_actions c) = None \<or> (\<exists>t. ac_transmit (mc_actions c) = Some t \<and> qt_id t = tx_id tx)"
    using assms(1,2) by (auto simp: core_inv_def sends_well_def one_frame_def)
  with assms show ?thesis
    by (auto simp: core_inv_def sends_well_def quiet_def base_def forget_pending_def withdraw_transmit_def
        queue_receive_def purge_transmit_def transmit_queued_def Let_def split: option.splits origin.splits)
qed

text \<open>The confirmed start: what remains is a frame on the wire.\<close>

lemma unqueued_none:
  assumes "core_inv n c" "mc_active_transmit c = Some tx" "\<not> transmit_queued (tx_id tx) (mc_actions c)"
  shows "ac_transmit (mc_actions c) = None"
  using assms by (auto simp: core_inv_def sends_well_def one_frame_def transmit_queued_def split: option.splits)

lemma started_inv:
  assumes "core_inv n c" "mc_active_transmit c = Some tx" "\<not> tx_started tx" "mc_pending_send c = Some p"
    "ac_transmit (mc_actions c) = None"
  shows "core_inv n (c\<lparr>mc_pending_send := None, mc_active_transmit := Some (tx\<lparr>tx_started := True, tx_asserted_at := now\<rparr>)\<rparr>)"
    (is "core_inv n ?c")
proof -
  have "base n ?c" "one_frame ?c" "waits_turnaround ?c" "deadline_set ?c" "frame_kept ?c"
    using assms by (auto simp: core_inv_def sends_well_def parts)
  moreover have "mc_pending_request c = None" using assms by (auto simp: core_inv_def answers_well_def)
  moreover have "tx_post tx = PostIdle" if "answering c"
    using assms that \<open>mc_pending_request c = None\<close>
    by (auto simp: core_inv_def sends_well_def one_frame_def waits_turnaround_def answering_def)
  ultimately show ?thesis using assms(1) by (auto simp: core_inv_def sends_well_def answers_well_def answering_def)
qed

lemma withdrawn_inv:
  assumes "core_inv n c" "mc_active_transmit c = Some tx" "\<not> tx_started tx" "mc_pending_send c = Some p"
    "ac_transmit (mc_actions c) = None"
    and d_def: "d = tally record_deferred_start (withdraw_transmit (tx_id tx) c)"
  shows "core_inv n (set_deadline i d) \<and> settled n c (drop_pending ops n' now d)"
proof -
  have base: "base n d" "one_frame d" "mc_active_transmit d = None" "ac_transmit (mc_actions d) = None"
      "mc_pending_send d = Some p" "kept c d"
    using assms by (auto simp: core_inv_def sends_well_def parts withdraw_transmit_def queue_receive_def
        purge_transmit_def transmit_queued_def ring_wf_def kept_def)
  have "holds_frame d" using assms
    by (auto simp: core_inv_def sends_well_def frame_kept_def holds_frame_def withdraw_transmit_def queue_receive_def
        purge_transmit_def transmit_queued_def queued_frame_def)
  moreover have "waits_turnaround d" using assms
    by (auto simp: core_inv_def sends_well_def waits_turnaround_def withdraw_transmit_def)
  ultimately have "sends_well n (set_deadline i d)" using base
    by (auto simp: sends_well_def parts)
  moreover have "answers_well (set_deadline i d)"
    using assms by (auto simp: core_inv_def answers_well_def answering_def withdraw_transmit_def)
  moreover have "settled n c (drop_pending ops n' now d)"
    using discard_one [OF base(1,2)] enter_idle_settles [of n "discard_pending d" ops n' now] base(5,6)
    by (auto simp: drop_pending_with_def intro: settled_kept kept_trans)
  ultimately show ?thesis by (simp add: core_inv_def)
qed

text \<open>Every way \<open>on_transmit_started\<close> goes: refused at once, or due for a frame that waits.\<close>

definition start_due :: "u32 \<Rightarrow> active_transmit \<Rightarrow> pending_send \<Rightarrow> 'q master_core \<Rightarrow> bool" where
  "start_due tid tx p c \<longleftrightarrow> mc_active_transmit c = Some tx \<and> tx_id tx = tid \<and> \<not> tx_started tx
     \<and> \<not> transmit_queued tid (mc_actions c) \<and> mc_pending_send c = Some p"

definition answer_over :: "pending_send \<Rightarrow> instant \<Rightarrow> bool" where
  "answer_over p t \<longleftrightarrow> (\<exists>w. ps_origin p = OriginAnswer w \<and> rw_give_up w \<le> t)"

lemma start_refused:
  assumes "observe_time now c = (t, c1)" "\<And>tx p. \<not> start_due tid tx p c1"
  shows "\<exists>e. on_transmit_started ops n tid now c \<in> {(Inl e, c1), (Inl e, tally record_adapter_error c1)}"
proof (cases "mc_active_transmit c1")
  case (Some tx)
  with assms show ?thesis
    by (cases "mc_pending_send c1") (auto simp: on_transmit_started_def start_due_def)
qed (use assms(1) in \<open>auto simp: on_transmit_started_def\<close>)

lemma start_decided:
  assumes "core_ok n c" "observe_time now c = (t, c1)" "start_due tid tx p c1"
  shows "\<exists>e. core_ok n e \<and> mc_active_transmit e = Some tx \<and> mc_pending_send e = Some p \<and> mc_actions e = mc_actions c1
       \<and> mc_config e = mc_config c1 \<and> mc_last_activity e = mc_last_activity c1
       \<and> on_transmit_started ops n tid now c =
          (if answer_over p t then (Inl TxExpired, drop_pending ops n t c1)
           else if t < ps_earliest p
           then (Inl TxDeferred, let d = tally record_deferred_start (withdraw_transmit tid c1)
                  in if ps_limit p \<le> t then drop_pending ops n t d else set_deadline (pending_deadline p) d)
           else (Inr (queued_frame (mc_actions c1)), e\<lparr>mc_pending_send := None,
                   mc_active_transmit := Some (tx\<lparr>tx_started := True, tx_asserted_at := t\<rparr>)\<rparr>))"
proof -
  have c1: "core_ok n c1" using observe_ok [OF assms(2), of n] assms(1) by simp
  define l where "l = (if (case (case ps_origin p of OriginAnswer w \<Rightarrow> Some w | _ \<Rightarrow> None) of
      Some w \<Rightarrow> t > rw_send_by w | None \<Rightarrow> False) then tally record_late_reply c1 else c1)"
  have l: "core_ok n l" "mc_active_transmit l = mc_active_transmit c1" "mc_pending_send l = mc_pending_send c1"
      "mc_actions l = mc_actions c1" "mc_config l = mc_config c1" "mc_last_activity l = mc_last_activity c1"
    using c1 by (auto simp: l_def core_ok_tally)
  define a where "a = snd (abort_partial_if_late t l)"
  have ab: "abort_partial_if_late t l = (fst (abort_partial_if_late t l), a)" by (simp add: a_def)
  have a: "core_ok n a" using abort_partial_ok [OF l(1) ab] by simp
  define e where "e = (if mc_parser_partial a
      then tally record_frame_abort (a\<lparr>mc_decoder := reset (mc_decoder a), mc_parser_partial := False\<rparr>) else a)"
  have "core_ok n e" using a reset_ok [OF a] by (simp add: e_def core_ok_tally)
  moreover have "mc_active_transmit e = Some tx" "mc_pending_send e = Some p" "mc_actions e = mc_actions c1"
      "mc_config e = mc_config c1" "mc_last_activity e = mc_last_activity c1"
    using abort_partial_keeps [OF ab, of n] l assms(3) by (auto simp: e_def start_due_def)
  moreover have "on_transmit_started ops n tid now c =
          (if answer_over p t then (Inl TxExpired, drop_pending ops n t c1)
           else if t < ps_earliest p
           then (Inl TxDeferred, let d = tally record_deferred_start (withdraw_transmit tid c1)
                  in if ps_limit p \<le> t then drop_pending ops n t d else set_deadline (pending_deadline p) d)
           else (Inr (queued_frame (mc_actions e)), e\<lparr>mc_pending_send := None,
                   mc_active_transmit := Some (tx\<lparr>tx_started := True, tx_asserted_at := t\<rparr>)\<rparr>))"
    using assms(2,3) unfolding on_transmit_started_def start_due_def Let_def l_def a_def e_def
    by (cases "ps_origin p") (simp_all add: answer_over_def split del: if_split cong: if_cong)
  ultimately show ?thesis by (metis (no_types))
qed

lemma on_transmit_started_ok:
  assumes "core_ok n c"
  shows "core_ok n (snd (on_transmit_started ops n tid now c))"
proof -
  obtain t c1 where o: "observe_time now c = (t, c1)" by fastforce
  have c1: "core_ok n c1" "core_inv n c1" using observe_ok [OF o, of n] assms by (auto simp: core_ok_def)
  show ?thesis
  proof (cases "\<exists>tx p. start_due tid tx p c1")
    case False
    then obtain e where "on_transmit_started ops n tid now c \<in> {(Inl e, c1), (Inl e, tally record_adapter_error c1)}"
      using start_refused [OF o, of tid ops n] by blast
    then show ?thesis using c1 by (auto simp: core_ok_tally)
  next
    case True
    then obtain tx p where due: "start_due tid tx p c1" by blast
    then have tx: "mc_active_transmit c1 = Some tx" "tx_id tx = tid" "\<not> tx_started tx"
        "\<not> transmit_queued (tx_id tx) (mc_actions c1)" "mc_pending_send c1 = Some p" by (auto simp: start_due_def)
    have none: "ac_transmit (mc_actions c1) = None" using unqueued_none [OF c1(2) tx(1,4)] .
    have req: "mc_pending_request c1 = None" using c1(2) tx(5) by (auto simp: core_inv_def answers_well_def)
    note with_inv = withdrawn_inv [OF c1(2) tx(1,3,5) none refl]
    from start_decided [OF assms o due, of ops] obtain e where
      e: "core_ok n e" "mc_active_transmit e = Some tx" "mc_pending_send e = Some p" "mc_actions e = mc_actions c1"
      and res: "on_transmit_started ops n tid now c =
          (if answer_over p t then (Inl TxExpired, drop_pending ops n t c1)
           else if t < ps_earliest p
           then (Inl TxDeferred, let d = tally record_deferred_start (withdraw_transmit tid c1)
                  in if ps_limit p \<le> t then drop_pending ops n t d else set_deadline (pending_deadline p) d)
           else (Inr (queued_frame (mc_actions c1)), e\<lparr>mc_pending_send := None,
                   mc_active_transmit := Some (tx\<lparr>tx_started := True, tx_asserted_at := t\<rparr>)\<rparr>))" by blast
    have "core_ok n (drop_pending ops n t c1)"
      using settled_inv [OF drop_pending_inv [OF c1(2)] req] tx(5) by (intro steady_ok [OF _ c1(1)]) auto
    moreover have "core_ok n (drop_pending ops n t (tally record_deferred_start (withdraw_transmit tid c1)))"
      using settled_inv [OF conjunct2 [OF with_inv] req] tx(2) by (intro steady_ok [OF _ c1(1)]) auto
    moreover have "core_ok n (set_deadline i (tally record_deferred_start (withdraw_transmit tid c1)))" for i
      using with_inv tx(2) by (intro steady_ok [OF _ c1(1)]) auto
    moreover have "core_ok n (e\<lparr>mc_pending_send := None,
                   mc_active_transmit := Some (tx\<lparr>tx_started := True, tx_asserted_at := t\<rparr>)\<rparr>)"
      using started_inv [of n e tx p t] e tx(3) none by (intro steady_ok [OF _ e(1)]) (auto simp: core_ok_def)
    ultimately show ?thesis by (simp add: res Let_def)
  qed
qed

lemma on_transmit_complete_ok:
  assumes "core_ok n c"
  shows "core_ok n (on_transmit_complete ops n tid now c)"
proof -
  obtain t c1 where o: "observe_time now c = (t, c1)" by fastforce
  have c1: "core_ok n c1" "core_inv n c1" using observe_ok [OF o, of n] assms by (auto simp: core_ok_def)
  show ?thesis
  proof (cases "\<exists>tx. mc_active_transmit c1 = Some tx \<and> tx_id tx = tid \<and> tx_started tx")
    case False
    with o c1 show ?thesis by (auto simp: on_transmit_complete_def core_ok_tally split: option.split)
  next
    case True
    then obtain tx where tx: "mc_active_transmit c1 = Some tx" "tx_id tx = tid" "tx_started tx" by blast
    define d where "d = tally record_frame_transmitted (tally (record_de_assertion
        (saturating_duration_since t (tx_asserted_at tx)))
        (c1\<lparr>mc_actions := queue_receive (mc_actions c1), mc_active_transmit := None, mc_last_activity := t\<rparr>))"
    have q: "quiet n d" "mc_pending_request d = None" "fixture d = fixture c1"
      using c1(2) tx by (auto simp: d_def quiet_def core_inv_def sends_well_def parts answers_well_def queue_receive_def
          ring_wf_def)
    have un: "unasked d" if "tx_post tx \<noteq> PostIdle"
      using c1(2) tx that by (auto simp: d_def core_inv_def sends_well_def one_frame_def answers_well_def answering_def unasked_def)
    have fin: "core_ok n e" if "settled n d e" "fixture e = fixture d" for e
      using settled_inv [OF that(1) q(2)] that(2) q(3) by (intro steady_ok [OF _ c1(1)]) auto
    have "core_ok n (enter_idle ops n t d)" using enter_idle_settles [OF q(1)] by (intro fin) auto
    moreover have "core_ok n (drive_token ops n t (set_state UseToken d))" if "unasked d"
      using going_idle.drive_settles [of n "set_state UseToken d"] q(1) that
      by (intro fin) (auto simp: unasked_def)
    moreover have dl: "core_ok n (set_deadline i (set_state s d))" if "unasked d" "s \<noteq> AnswerDataRequest" for s i
      using quiet_deadline [OF q(1) that] by (intro fin) auto
    moreover have "core_ok n (tally record_token_rotation (set_deadline i ((set_state PassToken d)\<lparr>mc_event_count := 0\<rparr>)))"
      if "unasked d" for i
    proof -
      have eq: "set_deadline i ((set_state PassToken d)\<lparr>mc_event_count := 0\<rparr>)
          = (set_deadline i (set_state PassToken d))\<lparr>mc_event_count := 0\<rparr>" by simp
      have "core_ok n (set_deadline i ((set_state PassToken d)\<lparr>mc_event_count := 0\<rparr>))"
        using dl [OF that, of PassToken i] unfolding eq core_ok_def core_inv_keeps by simp
      then show ?thesis by (simp add: core_ok_tally)
    qed
    moreover have "on_transmit_complete ops n tid now c = (case tx_post tx of
          PostIdle \<Rightarrow> enter_idle ops n t d
        | PostContinueToken \<Rightarrow> drive_token ops n t (set_state UseToken d)
        | PostWaitForReply \<Rightarrow> set_deadline (after t (cf_t_reply_timeout (mc_config c1))) (set_state WaitForReply d)
        | PostPassToken \<Rightarrow> tally record_token_rotation (set_deadline (after t (cf_t_usage_timeout (mc_config c1)))
            ((set_state PassToken d)\<lparr>mc_event_count := 0\<rparr>))
        | PostPollForMaster \<Rightarrow> set_deadline (after t (cf_t_usage_timeout (mc_config c1))) (set_state PollForMaster d))"
      using o tx by (simp add: on_transmit_complete_def d_def Let_def split: post_transmit.split)
    ultimately show ?thesis using un by (cases "tx_post tx") simp_all
  qed
qed

lemma transmit_aborted:
  assumes "core_ok n c"
  shows "core_ok n (on_transmit_aborted ops n tid reason now c)
       \<and> (\<forall>tx. mc_active_transmit c = Some tx \<and> tx_id tx = tid
            \<longrightarrow> \<not> transmitting (on_transmit_aborted ops n tid reason now c))"
proof -
  obtain t c1 where o: "observe_time now c = (t, c1)" by fastforce
  have c1: "core_ok n c1" "mc_active_transmit c = mc_active_transmit c1" using observe_ok [OF o, of n] assms by auto
  show ?thesis
  proof (cases "\<exists>tx. mc_active_transmit c1 = Some tx \<and> tx_id tx = tid")
    case False
    with o c1 show ?thesis by (auto simp: on_transmit_aborted_def split: option.split)
  next
    case True
    then obtain tx where tx: "mc_active_transmit c1 = Some tx" "tx_id tx = tid" by blast
    define d where "d = tally (record_transmit_failure reason) c1"
    have d: "core_inv n d" "mc_active_transmit d = Some tx" "fixture d = fixture c1"
      using c1 tx by (auto simp: d_def core_ok_def core_inv_tally)
    then have "tx_started tx \<or> mc_pending_send d \<noteq> None" "mc_pending_request d = None"
      by (auto simp: core_inv_def sends_well_def one_frame_def answers_well_def split: if_splits)
    note q = withdraw_quiet [OF d(1,2) this(1)] and req = this(2)
    define e where "e = (if tx_started tx
        then tally (record_de_assertion (saturating_duration_since t (tx_asserted_at tx)))
          ((forget_pending (withdraw_transmit tid d))\<lparr>mc_last_activity := t\<rparr>)
        else forget_pending (withdraw_transmit tid d))"
    have e: "quiet n e" "fixture e = fixture c1" "mc_pending_request e = None"
      using q d(3) tx(2) req by (auto simp: e_def quiet_tally forget_pending_def withdraw_transmit_def Let_def
          split: option.splits origin.splits)
    define f where "f = set_deadline (after t T_NO_TOKEN) (set_state Idle e)"
    have "quiet n f" "mc_protocol_deadline f \<noteq> None" "mc_state f = Idle" "mc_pending_request f = None"
        "fixture f = fixture c1"
      using e by (auto simp: f_def quiet_def base_def)
    then have "core_ok n (take_pending_token ops n t f)" "\<not> transmitting (take_pending_token ops n t f)"
      using take_token_settles [of n f ops n t]
      by (auto simp: settled_def intro!: steady_ok [OF settled_inv c1(1)])
    moreover have "on_transmit_aborted ops n tid reason now c = take_pending_token ops n t f"
      using o tx by (simp add: on_transmit_aborted_def d_def e_def f_def Let_def)
    ultimately show ?thesis by simp
  qed
qed

lemmas on_transmit_aborted_ok = conjunct1 [OF transmit_aborted]

section \<open>Requests, deadlines and polling\<close>

lemma complete_request_ok:
  assumes "core_ok n c"
  shows "core_ok n (snd (complete_request ops n rid decision now c))"
proof (cases "mc_pending_request c")
  case None
  then have "snd (complete_request ops n rid decision now c) = snd (observe_time now c)"
    by (simp add: complete_request_def observe_time_def Let_def)
  then show ?thesis using assms by (simp add: observe_time_def Let_def)
next
  case (Some r)
  then have "\<not> transmitting c" using assms by (auto simp: core_ok_def core_inv_def answers_well_def transmitting_def)
  from listening_ok [OF complete_request_listening [OF ok_listening [OF assms this]] assms] show ?thesis by simp
qed

lemma enqueue_npdu_ok: "core_ok n c \<Longrightarrow> core_ok n (snd (enqueue_npdu ops dst data prio now c))"
  by (auto simp: enqueue_npdu_def core_ok_def record_oversize_npdu_def core_inv_tally Let_def
      split: prod.split queue_kind.split)

lemma poll_action_ok:
  assumes "core_ok n c"
  shows "core_ok n (snd (poll_action c))"
proof -
  obtain a q where p: "poll (mc_actions c) = (a, q)" by fastforce
  have "ring_wf n (mc_actions c)" using assms by (simp add: core_ok_def core_inv_def sends_well_def base_def)
  from poll_wf [OF this] p have wf: "ring_wf n q" by simp
  have q: "ac_frame q = ac_frame (mc_actions c)" "ac_frame_length q = ac_frame_length (mc_actions c)"
      "\<And>t. ac_transmit q = Some t \<Longrightarrow> \<exists>u. ac_transmit (mc_actions c) = Some u \<and> qt_id u = qt_id t"
    using p by (auto simp: poll_def split: if_splits option.splits)
  have "base n (c\<lparr>mc_actions := q\<rparr>)" "waits_turnaround (c\<lparr>mc_actions := q\<rparr>)" "frame_kept (c\<lparr>mc_actions := q\<rparr>)"
      "deadline_set (c\<lparr>mc_actions := q\<rparr>)"
    using assms wf q by (simp_all add: core_ok_def core_inv_def sends_well_def parts queued_frame_def)
  moreover have "one_frame (c\<lparr>mc_actions := q\<rparr>)"
  proof -
    have "one_frame c" using assms by (simp add: core_ok_def core_inv_def sends_well_def)
    then show ?thesis using q(3) by (cases "ac_transmit q") (fastforce simp: one_frame_def split: if_splits)+
  qed
  ultimately show ?thesis using assms p
    by (auto simp: poll_action_def core_ok_def core_inv_def sends_well_def answers_well_def answering_def)
qed

lemma take_counters_ok: "core_ok n c \<Longrightarrow> core_ok n (snd (take_counters ops c))"
  by (auto simp: take_counters_def core_ok_def core_inv_def sends_well_def parts answers_well_def answering_def
      MSTP_COUNTERS_EMPTY_def Let_def split: prod.split)

text \<open>The timeout of the state the core is in, when no frame of its own waits or is out.\<close>

definition state_timeout :: "'q queue_ops \<Rightarrow> nat \<Rightarrow> instant \<Rightarrow> 'q master_core \<Rightarrow> 'q master_core" where
  "state_timeout ops n now c = (case mc_state c of
       Idle \<Rightarrow> enter_no_token ops n now c
     | NoToken \<Rightarrow> generate_token_if_in_slot ops n now c
     | WaitForReply \<Rightarrow>
         drive_token ops n now (set_state DoneWithToken (c\<lparr>mc_frame_count := cf_max_info_frames (mc_config c)\<rparr>))
     | AnswerDataRequest \<Rightarrow> reply_deadline ops n now c
     | PassToken \<Rightarrow> pass_token_timeout ops n now c
     | PollForMaster \<Rightarrow> poll_timeout ops n now c
     | _ \<Rightarrow> drive_token ops n now c)"

lemma state_timeout_ok:
  assumes "core_ok n c" "mc_active_transmit c = None" "mc_pending_send c = None"
  shows "core_ok n (state_timeout ops n now c)"
proof (cases "mc_pending_request c")
  case (Some r)
  then have "mc_state c = AnswerDataRequest" using assms(1) by (auto simp: core_ok_def core_inv_def answers_well_def)
  with Some complete_request_ok [OF assms(1)] show ?thesis by (simp add: state_timeout_def reply_deadline_def)
next
  case None
  have q: "quiet n c" "unasked c" using unasked_quiet [of n c] assms None by (auto simp: core_ok_def)
  have fin: "core_ok n e" if "settled n c e" "fixture e = fixture c" for e
    using settled_inv [OF that(1) None] that(2) by (intro steady_ok [OF _ assms(1)]) auto
  have "settled n c (drive_token ops n now (set_state DoneWithToken (c\<lparr>mc_frame_count := cf_max_info_frames (mc_config c)\<rparr>)))"
    using going_idle.drive_settles [of n "set_state DoneWithToken (c\<lparr>mc_frame_count := cf_max_info_frames (mc_config c)\<rparr>)"] q
    by (simp add: quiet_def base_def unasked_def)
  moreover have "mc_state c \<noteq> AnswerDataRequest" using q(2) by (simp add: unasked_def)
  moreover note enter_no_token_settles [OF q, of ops n now] generate_token_settles [OF q, of ops n now]
    pass_token_timeout_settles [OF q, of ops n now] poll_timeout_settles [OF q, of ops n now]
    going_idle.drive_settles [OF q]
  ultimately show ?thesis
    by (cases "mc_state c") (simp_all add: state_timeout_def fin)
qed

lemma dispatch_inv:
  assumes "core_inv n c" "mc_active_transmit c = None" "mc_pending_send c = Some p"
  shows "core_inv n (dispatch_pending_send ops n' now c)"
proof -
  have none: "ac_transmit (mc_actions c) = None" "mc_pending_request c = None" "mc_pending_send c \<noteq> None"
    using assms by (auto simp: core_inv_def sends_well_def one_frame_def answers_well_def)
  have "core_inv n (drop_pending ops n' now c)" using settled_inv [OF drop_pending_inv [OF assms(1) none(3)] none(2)] .
  moreover have "core_inv n (dispatch_frame (ps_post p) now c)"
    using assms none by (auto simp: core_inv_def sends_well_def parts answers_well_def answering_def dispatch_frame_def
        queue_transmit_def queued_frame_def ring_wf_def Let_def)
  moreover note core_inv_deadline [OF assms(1)]
  ultimately show ?thesis using assms(3) by (simp add: dispatch_pending_send_with_def)
qed

lemma on_deadline_eq:
  assumes o: "observe_time now c = (t, c1)" and a: "abort_partial_if_late t c1 = (b, c2)"
    and c3_def: "c3 = (if b then invalid_frame_event ops n t c2 else c2)"
    and d_def: "d = tally (record_deadline (saturating_duration_since t (the (next_deadline c3)))
        (cf_late_deadline (mc_config c3))) c3"
  shows "on_deadline ops n now c = (case next_deadline c3 of None \<Rightarrow> c3
      | Some deadline \<Rightarrow> if t < deadline then c3
          else (case mc_active_transmit d of
              Some tx \<Rightarrow> if t \<ge> after (tx_asserted_at tx) (cf_transmit_watchdog (mc_config d))
                then on_transmit_aborted ops n (tx_id tx) Timeout t d else d
            | None \<Rightarrow> if mc_pending_send d \<noteq> None then dispatch_pending_send ops n t d else state_timeout ops n t d))"
proof (cases "next_deadline c3")
  case None
  then show ?thesis unfolding on_deadline_def o a Let_def prod.case c3_def [symmetric] by simp
next
  case (Some i)
  then have "d = tally (record_deadline (saturating_duration_since t i) (cf_late_deadline (mc_config c3))) c3"
    by (simp add: d_def)
  with Some show ?thesis
    unfolding on_deadline_def o a Let_def prod.case c3_def [symmetric] state_timeout_def by (simp only: option.case)
qed

lemma on_deadline_ok:
  assumes "core_ok n c"
  shows "core_ok n (on_deadline ops n now c)"
proof -
  obtain t c1 where o: "observe_time now c = (t, c1)" by fastforce
  obtain b c2 where a: "abort_partial_if_late t c1 = (b, c2)" by fastforce
  define c3 where "c3 = (if b then invalid_frame_event ops n t c2 else c2)"
  have "core_ok n c2" using abort_partial_ok [OF _ a, of n] observe_ok [OF o, of n] assms by simp
  then have c3: "core_ok n c3" using invalid_event_ok by (auto simp: c3_def)
  define d where "d = tally (record_deadline (saturating_duration_since t (the (next_deadline c3))) (cf_late_deadline (mc_config c3))) c3"
  have d: "core_ok n d" using c3 by (simp add: d_def core_ok_tally)
  have "core_ok n (dispatch_pending_send ops n t d)" if "mc_active_transmit d = None" "mc_pending_send d \<noteq> None"
    using dispatch_inv [of n d] d that by (intro steady_ok [OF _ d]) (auto simp: core_ok_def)
  with d c3 on_transmit_aborted_ok [OF d] state_timeout_ok [OF d] show ?thesis
    by (auto simp: on_deadline_eq [OF o a c3_def d_def] split: option.split)
qed

lemma deadline_exists:
  assumes "core_ok n c"
  shows "\<exists>t. next_deadline c = Some t"
proof (cases "next_deadline c")
  case None
  then have "mc_protocol_deadline c = None" "mc_active_transmit c = None"
    by (cases "mc_protocol_deadline c"; cases "mc_active_transmit c"; auto simp: next_deadline_def earliest_None Let_def)+
  with assms show ?thesis by (auto simp: core_ok_def core_inv_def sends_well_def deadline_set_def)
qed simp

lemma watchdog_ends:
  assumes "core_ok n c" "mc_active_transmit c = Some tx"
    "after (tx_asserted_at tx) (cf_transmit_watchdog (mc_config c)) \<le> now"
  shows "\<not> transmitting (on_deadline ops n now c)"
proof -
  obtain t c1 where o: "observe_time now c = (t, c1)" by fastforce
  obtain b c2 where a: "abort_partial_if_late t c1 = (b, c2)" by fastforce
  define c3 where "c3 = (if b then invalid_frame_event ops n t c2 else c2)"
  define d where "d = tally (record_deadline (saturating_duration_since t (the (next_deadline c3))) (cf_late_deadline (mc_config c3))) c3"
  have c2: "core_ok n c2" "mc_active_transmit c2 = Some tx" "mc_config c2 = mc_config c"
    using abort_partial_ok [OF _ a, of n] abort_partial_keeps [OF a] observe_ok [OF o, of n] assms by auto
  then have c3: "c3 = c2" by (simp add: c3_def invalid_frame_event_def)
  have now: "now \<le> t" using observe_ok [OF o, of n] by simp
  obtain i where i: "next_deadline c3 = Some i" using deadline_exists [OF c2(1)] c3 by auto
  then have "i \<le> after (tx_asserted_at tx) (cf_transmit_watchdog (mc_config c))"
    using conjunct2 [OF earliest_Some [OF i [unfolded next_deadline_def Let_def]]] c2 c3 by simp
  then have t: "\<not> t < i" "after (tx_asserted_at tx) (cf_transmit_watchdog (mc_config c)) \<le> t"
    using assms(3) now by auto
  have d: "core_ok n d" "mc_active_transmit d = Some tx" "mc_config d = mc_config c"
    using c2 c3 by (auto simp: d_def core_ok_tally)
  have eq: "on_deadline ops n now c = on_transmit_aborted ops n (tx_id tx) Timeout t d"
    by (subst on_deadline_eq [OF o a c3_def d_def]) (simp only: i option.case d(2,3) t if_True if_False)
  show ?thesis unfolding eq using transmit_aborted [OF d(1), of ops "tx_id tx" Timeout t] d(2) by blast
qed

text \<open>Buffers of the sizes their types fix.\<close>

definition buffers_fit :: "nat \<Rightarrow> action_buffers \<Rightarrow> bool" where
  "buffers_fit n b \<longleftrightarrow> ab_deliveries b \<noteq> [] \<and> frame_room n \<le> length (ab_frame b)
     \<and> (\<forall>s \<in> set (ab_deliveries b). length (ds_data s) = n)"

lemma new_buffers_fit: "action_buffers_sizes d n frm \<Longrightarrow> buffers_fit n (action_buffers_new d n frm)"
  by (auto simp: action_buffers_sizes_def buffers_fit_def action_buffers_new_def DELIVERY_SLOT_EMPTY_def)

lemma from_parts_ok:
  assumes "buffers_fit n buffers" "from_parts ops n config queues rx buffers now = Inr c"
  shows "core_ok n c"
proof -
  have "MAX_STANDARD_FRAME_LENGTH \<le> frame_room n"
    by (simp add: frame_room_def MAX_STANDARD_FRAME_LENGTH_def frame_consts)
  then have "room_for config (length (ab_frame buffers))" "validate config = Inr ()" and rx: "MIN_RX_STORAGE \<le> length rx"
    using assms by (auto simp: from_parts_def buffers_fit_def room_for_def split: sum.splits option.splits if_splits)
  moreover have c: "c = \<lparr>mc_config = config, mc_queues = mc_queues c, mc_decoder = mc_decoder c,
       mc_actions = actions_new buffers, mc_state = Idle,
       mc_next_station = cf_station config, mc_poll_station = cf_station config,
       mc_token_count = N_POLL, mc_frame_count = 0, mc_retry_token_count = 0, mc_event_count = 0,
       mc_sole_master = False, mc_pending_token = False, mc_pending_request = None,
       mc_next_request_generation = 0, mc_active_transmit = None, mc_pending_send = None,
       mc_next_transmit_generation = 0, mc_protocol_deadline = Some (after now T_NO_TOKEN),
       mc_last_activity = now, mc_last_octet = None, mc_parser_partial = False, mc_last_now = now,
       mc_consecutive_broadcast = 0, mc_counters = MSTP_COUNTERS_EMPTY\<rparr>"
    and dec: "mc_decoder c = new_decoder rx \<or> mc_decoder c = with_reserved_cobs (new_decoder rx)"
    using assms(2) by (auto simp: from_parts_def split: sum.splits option.splits if_splits)
  moreover have "ring_wf n (actions_new buffers)"
    using assms(1) by (auto simp: buffers_fit_def ring_wf_def actions_new_def)
  ultimately have "core_inv n c"
    by (cases c) (simp add: core_inv_def sends_well_def parts answers_well_def actions_new_def MSTP_COUNTERS_EMPTY_def)
  moreover have "decoder_ready (mc_decoder c)"
    using rx dec by (auto simp: decoder_ready_def stream_inv_def capacity_def abs_state_def buffered_def new_decoder_def
        with_reserved_cobs_def MIN_RX_STORAGE_def HEADER_LENGTH_def)
  ultimately show ?thesis by (simp add: core_ok_def)
qed

end
