(* ===== verification/Mstp_Config_Valid.thy ===== *)
theory Mstp_Config_Valid
  imports Mstp_Config
begin

text \<open>
  What the validation of an MS/TP configuration accepts, in nanoseconds; which baud rates
  have a standard configuration; and that allowing extended frames keeps a configuration
  valid.
\<close>

section \<open>Times as numbers\<close>

abbreviation ns :: "duration \<Rightarrow> nat" where "ns d \<equiv> unat (as_nanos d)"

lemma shorter_ns: "shorter a b \<longleftrightarrow> ns a < ns b" and longer_ns: "longer a b \<longleftrightarrow> ns b < ns a"
  by (simp_all add: shorter_def longer_def word_less_nat_alt)

lemma ns_micros: "k < 2 ^ 50 \<Longrightarrow> ns (from_micros (of_nat k)) = k * 1000"
  by (simp add: from_micros_def unat_saturating_mul NANOS_PER_MICRO_def unat_of_nat)

lemma ns_millis: "k < 2 ^ 40 \<Longrightarrow> ns (from_millis (of_nat k)) = k * 1000000"
  by (simp add: from_millis_def unat_saturating_mul NANOS_PER_MILLI_def unat_of_nat)

lemma ns_parameters [simp]:
  "ns T_NO_TOKEN = 500000000" "ns T_SLOT = 10000000" "ns MAX_FRAME_ABORT = 100000000"
  "ns MIN_REPLY_TIMEOUT = 255000000" "ns MAX_REPLY_TIMEOUT = 300000000" "ns MIN_USAGE_TIMEOUT = 20000000"
  "ns MAX_USAGE_TIMEOUT = 35000000" "ns MAX_REPLY_DELAY = 250000000" "ns MAX_USAGE_DELAY = 15000000"
  "ns DEFAULT_REPLY_TRANSMIT_MARGIN = 25000000" "ns DEFAULT_TRANSMIT_WATCHDOG = 1000000000"
  "ns WATCHDOG_COMPLETION_MARGIN = 1000000"
  using ns_millis [of 500] ns_millis [of 10] ns_millis [of 100] ns_millis [of 255] ns_millis [of 300]
    ns_millis [of 20] ns_millis [of 35] ns_millis [of 250] ns_millis [of 15] ns_millis [of 25] ns_millis [of 1]
  by (simp_all add: T_NO_TOKEN_def T_SLOT_def MAX_FRAME_ABORT_def MIN_REPLY_TIMEOUT_def MAX_REPLY_TIMEOUT_def
      MIN_USAGE_TIMEOUT_def MAX_USAGE_TIMEOUT_def MAX_REPLY_DELAY_def MAX_USAGE_DELAY_def
      DEFAULT_REPLY_TRANSMIT_MARGIN_def WATCHDOG_COMPLETION_MARGIN_def DEFAULT_TRANSMIT_WATCHDOG_def
      from_secs_def unat_saturating_mul NANOS_PER_SEC_def)

lemma ns_add: "ns (duration_saturating_add a b) = min (ns a + ns b) (2 ^ 64 - 1)"
  by (simp add: duration_saturating_add_def unat_saturating_add)

lemma unat_u32_u64: "unat (ucast (k :: u32) :: u64) = unat k"
proof -
  have "unat k < 2 ^ 64" by (rule order.strict_trans [OF unsigned_less]) simp
  then show ?thesis by (simp add: unsigned_ucast_eq take_bit_nat_eq_self)
qed

lemma ns_mul: "ns (duration_saturating_mul a k) = min (ns a * unat k) (2 ^ 64 - 1)"
  by (simp add: duration_saturating_mul_def unat_saturating_mul unat_u32_u64)

text \<open>\<open>bits\<close> bit times at \<open>baud\<close> bits a second in whole microseconds, rounded up.\<close>

definition bits_up :: "nat \<Rightarrow> nat \<Rightarrow> nat" where
  "bits_up baud bits = (bits * 1000000 + baud - 1) div baud"

lemma bits_up_le: "0 < baud \<Longrightarrow> bits_up baud bits \<le> k \<longleftrightarrow> bits * 1000000 \<le> k * baud"
proof -
  assume "0 < baud"
  then have "bits_up baud bits \<le> k \<longleftrightarrow> bits * 1000000 + baud - 1 < (k + 1) * baud"
    unfolding bits_up_def by (metis Suc_eq_plus1 div_less_iff_less_mult less_Suc_eq_le)
  also have "\<dots> \<longleftrightarrow> bits * 1000000 \<le> k * baud" using \<open>0 < baud\<close> by auto
  finally show ?thesis .
qed

lemma bit_times:
  assumes "baud \<noteq> 0" "unat bits \<le> 4000"
  obtains up down where "ceil_bit_times baud bits = Some up" "ns up = bits_up (unat baud) (unat bits) * 1000"
    "floor_bit_times baud bits = Some down" "ns down = (unat bits * 1000000 div unat baud) * 1000"
proof -
  have b: "0 < unat baud" using assms(1) by (simp add: unat_gt_0)
  then have "bits_up (unat baud) (unat bits) \<le> 4000000000" using assms(2) b
    by (subst bits_up_le) (auto intro: order.trans [of _ "4000000000"])
  then have "ns (from_micros (of_nat (bits_up (unat baud) (unat bits)))) = bits_up (unat baud) (unat bits) * 1000"
    by (intro ns_micros) simp
  moreover have "unat bits * 1000000 div unat baud \<le> 4000000000"
    using assms(2) div_le_dividend [of "unat bits * 1000000" "unat baud"] by linarith
  then have "ns (from_micros (of_nat (unat bits * 1000000 div unat baud))) = (unat bits * 1000000 div unat baud) * 1000"
    by (intro ns_micros) simp
  moreover have "unat bits * 1000000 < 2 ^ 32" using assms(2) by simp
  ultimately show ?thesis
    using assms(1) that by (auto simp: ceil_bit_times_def floor_bit_times_def bits_up_def)
qed

section \<open>What validation accepts\<close>

text \<open>The bounds of Clause 9.5.3 and of the local limits, in nanoseconds.\<close>

definition timing_ok :: "mstp_core_config \<Rightarrow> bool" where
  "timing_ok c \<longleftrightarrow> (let baud = unat (cf_baud_rate c) in
       bits_up baud 60 * 1000 \<le> ns (cf_t_frame_abort c) \<and> ns (cf_t_frame_abort c) \<le> 100000000
     \<and> ns (cf_t_frame_gap c) \<le> (20 * 1000000 div baud) * 1000
     \<and> ns (cf_t_postdrive c) \<le> (15 * 1000000 div baud) * 1000
     \<and> ns (cf_t_reply_delay c) \<le> 250000000 \<and> ns (cf_reply_transmit_margin c) < ns (cf_t_reply_delay c)
     \<and> 255000000 \<le> ns (cf_t_reply_timeout c) \<and> ns (cf_t_reply_timeout c) \<le> 300000000
     \<and> bits_up baud 40 * 1000 \<le> ns (cf_t_turnaround c) \<and> ns (cf_t_turnaround c) \<le> ns (cf_t_usage_delay c)
     \<and> ns (cf_t_usage_delay c) \<le> 15000000
     \<and> 20000000 \<le> ns (cf_t_usage_timeout c) \<and> ns (cf_t_usage_timeout c) \<le> 35000000)"

definition limits_ok :: "mstp_core_config \<Rightarrow> bool" where
  "limits_ok c \<longleftrightarrow> cf_max_master c \<le> 127 \<and> cf_station c \<le> cf_max_master c \<and> cf_max_info_frames c \<noteq> 0
     \<and> ns (cf_queue_max_age c) \<noteq> 0 \<and> ns (cf_transmit_watchdog c) \<noteq> 0
     \<and> ns (minimum_transmit_watchdog c) \<le> ns (cf_transmit_watchdog c)
     \<and> cf_broadcast_unicast_ratio c \<noteq> 0 \<and> cf_multiple_frame_ratio c \<noteq> 0 \<and> cf_multiple_frame_ratio c \<le> 100
     \<and> cf_starvation_limit c \<noteq> 0"

lemma zero_ns: "duration_is_zero d \<longleftrightarrow> ns d = 0"
  by (simp add: duration_is_zero_def unat_eq_zero)

lemma validate_iff: "validate c = Inr () \<longleftrightarrow> cf_baud_rate c \<noteq> 0 \<and> timing_ok c \<and> limits_ok c"
proof (cases "cf_baud_rate c = 0")
  case False
  obtain up60 where up60: "ceil_bit_times (cf_baud_rate c) 60 = Some up60" "ns up60 = bits_up (unat (cf_baud_rate c)) 60 * 1000"
    using bit_times [OF False, of 60] by auto
  obtain dn20 where dn20: "floor_bit_times (cf_baud_rate c) 20 = Some dn20" "ns dn20 = (20 * 1000000 div unat (cf_baud_rate c)) * 1000"
    using bit_times [OF False, of 20] by auto
  obtain dn15 where dn15: "floor_bit_times (cf_baud_rate c) 15 = Some dn15" "ns dn15 = (15 * 1000000 div unat (cf_baud_rate c)) * 1000"
    using bit_times [OF False, of 15] by auto
  obtain up40 where up40: "ceil_bit_times (cf_baud_rate c) 40 = Some up40" "ns up40 = bits_up (unat (cf_baud_rate c)) 40 * 1000"
    using bit_times [OF False, of 40] by auto
  show ?thesis using False up60 dn20 dn15 up40
    by (auto simp: validate_def timing_ok_def limits_ok_def shorter_ns longer_ns zero_ns MAX_MASTER_def Let_def not_less)
qed (simp add: validate_def)

section \<open>The watchdog covers the longest frame\<close>

lemma covering_watchdog:
  assumes "ns (longest_frame_time c) + 1000000000 < 2 ^ 64" "ns (cf_t_postdrive c) \<le> 999000000"
  shows "ns (minimum_transmit_watchdog (with_covering_watchdog c)) \<le> ns (cf_transmit_watchdog (with_covering_watchdog c))"
proof -
  have "minimum_transmit_watchdog (with_covering_watchdog c) = minimum_transmit_watchdog c"
    by (simp add: minimum_transmit_watchdog_def longest_frame_time_def octet_time_def with_covering_watchdog_def)
  moreover have "ns (minimum_transmit_watchdog c) \<le> ns (longest_frame_time c) + 1000000000"
    using assms by (simp add: minimum_transmit_watchdog_def ns_add)
  ultimately show ?thesis using assms
    by (auto simp: with_covering_watchdog_def ns_add word_less_nat_alt not_less)
qed

lemma covering_fields [simp]:
  "cf_station (with_covering_watchdog c) = cf_station c" "cf_max_master (with_covering_watchdog c) = cf_max_master c"
  "cf_max_info_frames (with_covering_watchdog c) = cf_max_info_frames c"
  "cf_baud_rate (with_covering_watchdog c) = cf_baud_rate c"
  "cf_queue_max_age (with_covering_watchdog c) = cf_queue_max_age c"
  "cf_broadcast_unicast_ratio (with_covering_watchdog c) = cf_broadcast_unicast_ratio c"
  "cf_multiple_frame_ratio (with_covering_watchdog c) = cf_multiple_frame_ratio c"
  "cf_starvation_limit (with_covering_watchdog c) = cf_starvation_limit c"
  "cf_extended_frames (with_covering_watchdog c) = cf_extended_frames c"
  "timing_ok (with_covering_watchdog c) = timing_ok c"
  by (simp_all add: with_covering_watchdog_def timing_ok_def)

lemma octet_time_ns:
  assumes "2667 \<le> unat (cf_baud_rate c)"
  shows "ns (octet_time c) \<le> 3750000"
proof -
  have "cf_baud_rate c \<noteq> 0" using assms by auto
  from bit_times [OF this, of 10] obtain up where up: "ceil_bit_times (cf_baud_rate c) 10 = Some up"
      "ns up = bits_up (unat (cf_baud_rate c)) 10 * 1000" by auto
  moreover have "bits_up (unat (cf_baud_rate c)) 10 \<le> 3750" using assms by (subst bits_up_le) auto
  ultimately show ?thesis by (simp add: octet_time_def or_max_def)
qed

lemma longest_frame_ns:
  assumes "2667 \<le> unat (cf_baud_rate c)"
  shows "ns (longest_frame_time c) + 1000000000 < 2 ^ 64"
proof -
  define k where "k = (if cf_extended_frames c then MAX_EXTENDED_FRAME_LENGTH else MAX_STANDARD_FRAME_LENGTH)"
  have k: "k \<le> 2000" by (simp add: k_def MAX_EXTENDED_FRAME_LENGTH_def MAX_STANDARD_FRAME_LENGTH_def frame_consts)
  have "ns (octet_time c) * k \<le> 3750000 * 2000" using octet_time_ns [OF assms] k by (rule mult_le_mono)
  moreover have "ns (longest_frame_time c) \<le> ns (octet_time c) * k"
    using k by (simp add: longest_frame_time_def k_def [symmetric] ns_mul unat_of_nat)
  ultimately show ?thesis by simp
qed

text \<open>The slowest line a valid configuration is for.\<close>

lemma timing_baud:
  assumes "timing_ok c" "cf_baud_rate c \<noteq> 0"
  shows "2667 \<le> unat (cf_baud_rate c)"
proof -
  have "0 < unat (cf_baud_rate c)" using assms(2) by (simp add: unat_gt_0)
  moreover have "bits_up (unat (cf_baud_rate c)) 40 \<le> 15000" using assms(1) by (auto simp: timing_ok_def Let_def)
  ultimately have "40000000 \<le> 15000 * unat (cf_baud_rate c)" using bits_up_le [of "unat (cf_baud_rate c)" 40 15000] by simp
  then show ?thesis by simp
qed

lemma postdrive_ns:
  assumes "timing_ok c" "2667 \<le> unat (cf_baud_rate c)"
  shows "ns (cf_t_postdrive c) \<le> 999000000"
proof -
  have "15000000 div unat (cf_baud_rate c) \<le> 15000000 div 2667" using assms(2) by (intro div_le_mono2) auto
  with assms(1) show ?thesis by (auto simp: timing_ok_def Let_def)
qed

section \<open>Standard configurations\<close>

lemma unchecked_timing:
  assumes "baud \<noteq> 0"
  shows "timing_ok (for_baud_rate_unchecked baud) \<longleftrightarrow> 2667 \<le> unat baud"
proof
  assume "2667 \<le> unat baud"
  obtain up60 where up60: "ceil_bit_times baud 60 = Some up60" "ns up60 = bits_up (unat baud) 60 * 1000"
    using bit_times [OF assms, of 60] by auto
  obtain dn20 where dn20: "floor_bit_times baud 20 = Some dn20" "ns dn20 = (20 * 1000000 div unat baud) * 1000"
    using bit_times [OF assms, of 20] by auto
  obtain dn15 where dn15: "floor_bit_times baud 15 = Some dn15" "ns dn15 = (15 * 1000000 div unat baud) * 1000"
    using bit_times [OF assms, of 15] by auto
  obtain up40 where up40: "ceil_bit_times baud 40 = Some up40" "ns up40 = bits_up (unat baud) 40 * 1000"
    using bit_times [OF assms, of 40] by auto
  have "bits_up (unat baud) 60 \<le> 100000" "bits_up (unat baud) 40 \<le> 15000"
    using \<open>2667 \<le> unat baud\<close> by (subst bits_up_le; auto)+
  with up60 dn20 dn15 up40 show "timing_ok (for_baud_rate_unchecked baud)"
    by (simp add: for_baud_rate_unchecked_def) (simp add: timing_ok_def or_max_def)
next
  assume "timing_ok (for_baud_rate_unchecked baud)"
  from timing_baud [OF this] assms show "2667 \<le> unat baud" by (simp add: for_baud_rate_unchecked_def)
qed

lemma unchecked_limits:
  assumes "2667 \<le> unat baud"
  shows "limits_ok (for_baud_rate_unchecked baud)"
proof -
  have "baud \<noteq> 0" using assms by auto
  then have t: "timing_ok (for_baud_rate_unchecked baud)" using unchecked_timing assms by blast
  have b: "cf_baud_rate (for_baud_rate_unchecked baud) = baud" by (simp add: for_baud_rate_unchecked_def)
  obtain c where c: "for_baud_rate_unchecked baud = with_covering_watchdog c" "cf_baud_rate c = baud"
      "cf_t_postdrive c = cf_t_postdrive (for_baud_rate_unchecked baud)" "cf_transmit_watchdog c = DEFAULT_TRANSMIT_WATCHDOG"
      "cf_station c = 0" "cf_max_master c = MAX_MASTER" "cf_max_info_frames c = 1" "cf_queue_max_age c = from_secs 5"
      "cf_broadcast_unicast_ratio c = 1" "cf_multiple_frame_ratio c = 100" "cf_starvation_limit c = DEFAULT_STARVATION_LIMIT"
    by (rule that [OF for_baud_rate_unchecked_def]) (simp_all add: for_baud_rate_unchecked_def with_covering_watchdog_def)
  have "ns (minimum_transmit_watchdog (with_covering_watchdog c)) \<le> ns (cf_transmit_watchdog (with_covering_watchdog c))"
    using covering_watchdog [of c] longest_frame_ns [of c] postdrive_ns [OF t] assms b c(2,3) by simp
  moreover have "1000000 \<le> ns (minimum_transmit_watchdog (with_covering_watchdog c))"
    by (simp add: minimum_transmit_watchdog_def ns_add)
  moreover have "ns (from_secs 5) \<noteq> 0" by (simp add: from_secs_def unat_saturating_mul NANOS_PER_SEC_def)
  ultimately show ?thesis using c
    by (simp add: limits_ok_def MAX_MASTER_def DEFAULT_STARVATION_LIMIT_def)
qed

text \<open>
  A baud rate has a standard configuration exactly from 2667 bits per second up, where
  40 bit times of turnaround still fit the 15 ms of T_usage_delay; the configuration is then
  the unchecked one and passes validation, and a refusal says which bound failed.
\<close>

theorem standard_baud_rates:
  "(for_baud_rate baud = Inr (for_baud_rate_unchecked baud) \<longleftrightarrow> 2667 \<le> unat baud)
   \<and> (\<exists>e. for_baud_rate baud = (if 2667 \<le> unat baud then Inr (for_baud_rate_unchecked baud) else Inl e))
   \<and> (validate (for_baud_rate_unchecked baud) = Inr () \<longleftrightarrow> 2667 \<le> unat baud)"
proof -
  have v: "validate (for_baud_rate_unchecked baud) = Inr () \<longleftrightarrow> 2667 \<le> unat baud"
    using unchecked_timing [of baud] unchecked_limits [of baud]
    by (cases "baud = 0") (auto simp: validate_iff for_baud_rate_unchecked_def)
  show ?thesis
  proof (cases "2667 \<le> unat baud")
    case True
    with v show ?thesis by (auto simp: for_baud_rate_def)
  next
    case False
    with v obtain e where "validate (for_baud_rate_unchecked baud) = Inl e"
      by (cases "validate (for_baud_rate_unchecked baud)") auto
    with v False show ?thesis by (auto simp: for_baud_rate_def)
  qed
qed

text \<open>
  C31: A valid configuration stays valid when extended frames are allowed: the longer frames
  stretch the transmit watchdog where they must, and nothing else changes.
\<close>

theorem extended_stays_valid:
  assumes "validate c = Inr ()"
  shows "validate (with_extended_frames c) = Inr ()
       \<and> (\<exists>w. with_extended_frames c = c\<lparr>cf_extended_frames := True, cf_transmit_watchdog := w\<rparr>
            \<and> ns (cf_transmit_watchdog c) \<le> ns w)"
proof -
  let ?c = "c\<lparr>cf_extended_frames := True\<rparr>"
  have v: "cf_baud_rate c \<noteq> 0" "timing_ok c" "limits_ok c" using assms by (auto simp: validate_iff)
  have t: "timing_ok ?c" using v(2) by (simp add: timing_ok_def)
  have b: "2667 \<le> unat (cf_baud_rate ?c)" using timing_baud [OF v(2,1)] by simp
  have cov: "ns (minimum_transmit_watchdog (with_covering_watchdog ?c)) \<le> ns (cf_transmit_watchdog (with_covering_watchdog ?c))"
    by (rule covering_watchdog [OF longest_frame_ns [OF b] postdrive_ns [OF t b]])
  have "1000000 \<le> ns (minimum_transmit_watchdog (with_covering_watchdog ?c))"
    by (simp add: minimum_transmit_watchdog_def ns_add)
  with v t cov have "validate (with_extended_frames c) = Inr ()"
    by (simp add: validate_iff with_extended_frames_def limits_ok_def)
  moreover have "with_covering_watchdog ?c = ?c\<lparr>cf_transmit_watchdog := cf_transmit_watchdog (with_covering_watchdog ?c)\<rparr>"
    by (simp add: with_covering_watchdog_def)
  moreover have "ns (cf_transmit_watchdog c) \<le> ns (cf_transmit_watchdog (with_covering_watchdog ?c))"
    using cov by (auto simp: with_covering_watchdog_def word_less_nat_alt minimum_transmit_watchdog_def longest_frame_time_def
        octet_time_def)
  ultimately show ?thesis
    unfolding with_extended_frames_def by (intro conjI exI [of _ "cf_transmit_watchdog (with_covering_watchdog ?c)"]) auto
qed

lemma standard_valid: "validate STANDARD_CONFIG = Inr ()"
  using unchecked_timing [of 9600] unchecked_limits [of 9600]
  by (simp add: validate_iff STANDARD_CONFIG_def DEFAULT_BAUD_RATE_def for_baud_rate_unchecked_def)

theorem extended_stays_valid_witness:
  "validate (with_extended_frames STANDARD_CONFIG) = Inr ()
   \<and> cf_extended_frames (with_extended_frames STANDARD_CONFIG)"
  using extended_stays_valid [OF standard_valid] by auto

end
