(* ===== verification/Mstp_Master_Runs.thy ===== *)
theory Mstp_Master_Runs
  imports Mstp_Master_Calls Mstp_Config_Valid
begin

text \<open>
  The runs of an MS/TP master core: the calls an adapter and an application make, in any
  order and at any times, over any queue storage. The theorems hold of every core a run
  reaches.
\<close>

section \<open>Steps and reachable cores\<close>

inductive core_step :: "'q queue_ops \<Rightarrow> nat \<Rightarrow> 'q master_core \<Rightarrow> 'q master_core \<Rightarrow> bool" for ops n where
  octet: "on_octet ops n byte now c = Some d \<Longrightarrow> core_step ops n c d"
| validated: "core_step ops n c (on_validated_frame ops n f now c)"
| invalid: "core_step ops n c (on_invalid_frame ops n now c)"
| host_activity: "core_step ops n c (on_host_activity ops n k now c)"
| receive_error: "core_step ops n c (on_receive_error ops n e now c)"
| silence: "core_step ops n c (on_silence ops n now c)"
| started: "on_transmit_started ops n tid now c = (r, d) \<Longrightarrow> core_step ops n c d"
| completed: "core_step ops n c (on_transmit_complete ops n tid now c)"
| aborted: "core_step ops n c (on_transmit_aborted ops n tid reason now c)"
| deadline: "core_step ops n c (on_deadline ops n now c)"
| reply: "complete_request ops n rid decision now c = (r', d) \<Longrightarrow> core_step ops n c d"
| enqueue: "enqueue_npdu ops dst data prio now c = (r'', d) \<Longrightarrow> core_step ops n c d"
| polled: "poll_action c = (a, d) \<Longrightarrow> core_step ops n c d"
| counted: "take_counters ops c = (k', d) \<Longrightarrow> core_step ops n c d"

inductive reachable :: "'q queue_ops \<Rightarrow> nat \<Rightarrow> 'q master_core \<Rightarrow> bool" for ops n where
  start: "buffers_fit n buffers \<Longrightarrow> from_parts ops n config queues rx buffers now = Inr c \<Longrightarrow> reachable ops n c"
| step: "reachable ops n c \<Longrightarrow> core_step ops n c d \<Longrightarrow> reachable ops n d"

inductive_cases core_stepE: "core_step ops n c d"

lemmas call_ok = on_validated_frame_ok on_invalid_frame_ok on_host_activity_ok on_receive_error_ok on_silence_ok
  on_transmit_complete_ok on_transmit_aborted_ok on_deadline_ok

lemma step_ok: "core_step ops n c d \<Longrightarrow> core_ok n c \<Longrightarrow> core_ok n d"
proof (induction rule: core_step.induct)
  case (octet byte now c d)
  then show ?case using on_octet_ok [of n c ops byte now] by auto
next
  case (started tid now c r d)
  then show ?case using on_transmit_started_ok [of n c ops tid now] by simp
next
  case (reply rid decision now c r d)
  then show ?case using complete_request_ok [of n c ops rid decision now] by simp
next
  case (enqueue dst data prio now c r d)
  then show ?case using enqueue_npdu_ok [of n c ops dst data prio now] by simp
next
  case (polled c a d)
  then show ?case using poll_action_ok [of n c] by simp
next
  case (counted c k d)
  then show ?case using take_counters_ok [of n c ops] by simp
qed (simp_all add: call_ok)

lemma reachable_ok: "reachable ops n c \<Longrightarrow> core_ok n c"
  by (induction rule: reachable.induct) (auto intro: from_parts_ok step_ok)

section \<open>A concrete core\<close>

text \<open>The standard configuration at 9600 baud, over fixed queues of one slot each.\<close>

definition sample_core :: "fixed_queues master_core" where
  "sample_core = projr (from_parts (fixed_ops 501) 501 STANDARD_CONFIG (fixed_new 1 1 501) (replicate 16 0)
     (action_buffers_new 1 501 (frame_room 501)) (Instant 0))"

lemma sample_reachable: "reachable (fixed_ops 501) 501 sample_core"
proof (rule reachable.start)
  show "buffers_fit 501 (action_buffers_new 1 501 (frame_room 501))"
    by (rule new_buffers_fit) (simp add: action_buffers_sizes_def)
  have "\<not> cf_extended_frames STANDARD_CONFIG"
    by (simp add: STANDARD_CONFIG_def for_baud_rate_unchecked_def)
  then show "from_parts (fixed_ops 501) 501 STANDARD_CONFIG (fixed_new 1 1 501) (replicate 16 0)
      (action_buffers_new 1 501 (frame_room 501)) (Instant 0) = Inr sample_core"
    by (simp add: sample_core_def from_parts_def standard_valid MIN_RX_STORAGE_def HEADER_LENGTH_def)
qed

section \<open>What every run keeps\<close>

text \<open>
  C1: In every core a run reaches, whatever is called, in whatever order and at whatever
  times: the configuration is valid and no frame of this station's ever failed to encode; the
  delivery ring is well formed; at most \<open>max_info_frames\<close> frames were sent on this token; at
  most one frame of this station's waits or is on the wire, whole in the frame buffer and
  with this station as its source; a waiting frame starts no sooner than T_turnaround after
  the last activity, an answer to a request no later than its window; a request is held, a
  Token remembered, only while an answer is owed; and the decoder has room for the next octet.
\<close>

theorem master_invariant:
  assumes "reachable ops n c"
  shows "core_ok n c"
  using assms by (rule reachable_ok)

theorem master_invariant_witness: "core_ok 501 sample_core"
  by (rule master_invariant [OF sample_reachable])

text \<open>
  C16: Feeding an octet to any reachable core ends: the loop that drains the decoder always
  comes to an end, with a reachable core.
\<close>

theorem on_octet_returns:
  assumes "reachable ops n c"
  shows "\<exists>d. on_octet ops n byte now c = Some d \<and> reachable ops n d"
  using on_octet_ok [OF reachable_ok [OF assms], of ops byte now] reachable.step [OF assms core_step.octet] by blast

theorem on_octet_returns_witness:
  "\<exists>d. on_octet (fixed_ops 501) 501 0x55 (Instant 7) sample_core = Some d \<and> reachable (fixed_ops 501) 501 d"
  by (rule on_octet_returns [OF sample_reachable])

text \<open>
  C17: A reachable core never waits for nothing: there is always a deadline to call it at. A
  frame on the wire does not outlive its watchdog: at any deadline call at or after it, the
  core stops sending.
\<close>

theorem core_never_stalls:
  assumes "reachable ops n c"
  shows "(\<exists>t. next_deadline c = Some t)
       \<and> (\<forall>tx now. mc_active_transmit c = Some tx
            \<longrightarrow> after (tx_asserted_at tx) (cf_transmit_watchdog (mc_config c)) \<le> now
            \<longrightarrow> \<not> transmitting (on_deadline ops n now c))"
  using deadline_exists [OF reachable_ok [OF assms]] watchdog_ends [OF reachable_ok [OF assms]] by blast

lemma start_succeeds:
  assumes "core_ok n c" "on_transmit_started ops n tid now c = (Inr octets, d)"
  shows "\<exists>p. mc_pending_send c = Some p \<and> octets = queued_frame (mc_actions c) \<and> holds_frame c
       \<and> after (mc_last_activity c) (cf_t_turnaround (mc_config c)) \<le> max (mc_last_now c) now
       \<and> \<not> answer_over p (max (mc_last_now c) now) \<and> transmitting d \<and> mc_pending_send d = None"
proof -
  obtain t c1 where o: "observe_time now c = (t, c1)" by fastforce
  have c1: "core_inv n c1" "t = max (mc_last_now c) now" "c1 = c\<lparr>mc_last_now := t\<rparr>"
    using observe_ok [OF o, of n] assms(1) by (auto simp: core_ok_def)
  obtain tx p where due: "start_due tid tx p c1"
    using start_refused [OF o, of tid ops n] assms(2) by fastforce
  then have p: "mc_pending_send c1 = Some p" by (simp add: start_due_def)
  from start_decided [OF assms(1) o due, of ops] obtain e where
    "on_transmit_started ops n tid now c =
          (if answer_over p t then (Inl TxExpired, drop_pending ops n t c1)
           else if t < ps_earliest p
           then (Inl TxDeferred, let d = tally record_deferred_start (withdraw_transmit tid c1)
                  in if ps_limit p \<le> t then drop_pending ops n t d else set_deadline (pending_deadline p) d)
           else (Inr (queued_frame (mc_actions c1)), e\<lparr>mc_pending_send := None,
                   mc_active_transmit := Some (tx\<lparr>tx_started := True, tx_asserted_at := t\<rparr>)\<rparr>))" by blast
  with assms(2) have res: "\<not> answer_over p t" "\<not> t < ps_earliest p" "octets = queued_frame (mc_actions c1)"
      "transmitting d" "mc_pending_send d = None"
    by (auto simp: transmitting_def Let_def split: if_splits)
  have "holds_frame c1" "ps_earliest p = after (mc_last_activity c1) (cf_t_turnaround (mc_config c1))"
    using c1(1) p by (auto simp: core_inv_def sends_well_def frame_kept_def waits_turnaround_def)
  then show ?thesis using res p c1 by (intro exI [of _ p]) (simp add: holds_frame_def not_less le_max_iff_disj)
qed

text \<open>
  C2: A frame goes onto the wire only lawfully. When a reachable core lets a start go ahead,
  the octets it hands over are one whole valid frame with this station as its source; the
  line has been quiet for T_turnaround since the last activity; an answer to a request is
  still before the instant at which its requester gives up; and the core then counts the
  frame as being sent, with none other waiting.
\<close>

theorem started_frame_is_lawful:
  assumes "reachable ops n c" "on_transmit_started ops n tid now c = (Inr octets, d)"
  shows "\<exists>f k p. checked_length f = Inr k \<and> fh_source (fr_header f) = cf_station (mc_config c) \<and> octets = frame_octets f
       \<and> mc_pending_send c = Some p
       \<and> after (mc_last_activity c) (cf_t_turnaround (mc_config c)) \<le> max (mc_last_now c) now
       \<and> (\<forall>w. ps_origin p = OriginAnswer w \<longrightarrow> max (mc_last_now c) now < rw_give_up w)
       \<and> transmitting d \<and> mc_pending_send d = None"
  using start_succeeds [OF reachable_ok [OF assms(1)] assms(2)]
  by (fastforce simp: holds_frame_def answer_over_def not_le)

section \<open>A station's first frame\<close>

text \<open>
  The sample core, silent for 500 ms, generates a token in its slot: it polls for a master,
  the adapter polls the direction and the frame, and confirms the start.
\<close>

abbreviation "half_second \<equiv> Instant 500000000"

definition generating_core :: "fixed_queues master_core" where
  "generating_core = on_deadline (fixed_ops 501) 501 half_second sample_core"

definition polled_core :: "fixed_queues master_core" where
  "polled_core = snd (poll_action (snd (poll_action generating_core)))"

lemma polled_reachable: "reachable (fixed_ops 501) 501 polled_core"
  unfolding polled_core_def generating_core_def
  by (rule reachable.step [OF reachable.step [OF reachable.step [OF sample_reachable core_step.deadline]
      core_step.polled [OF prod.collapse [symmetric]]] core_step.polled [OF prod.collapse [symmetric]]])

lemma sample_fields:
  "mc_config sample_core = STANDARD_CONFIG" "mc_state sample_core = Idle" "mc_last_now sample_core = Instant 0"
  "mc_last_activity sample_core = Instant 0" "mc_protocol_deadline sample_core = Some half_second"
  "mc_active_transmit sample_core = None" "mc_pending_send sample_core = None" "mc_parser_partial sample_core = False"
  "mc_pending_token sample_core = False" "ac_receive (mc_actions sample_core) = False"
  "mc_next_transmit_generation sample_core = 0"
proof -
  have e: "\<not> cf_extended_frames STANDARD_CONFIG" by (simp add: STANDARD_CONFIG_def for_baud_rate_unchecked_def)
  have h: "after (Instant 0) T_NO_TOKEN = half_second"
    by (simp add: T_NO_TOKEN_def from_millis_def NANOS_PER_MILLI_def instant_saturating_add_def u64_saturating_mul_def
        u64_checked_mul_def u64_saturating_add_def u64_checked_add_def)
  show "mc_config sample_core = STANDARD_CONFIG" "mc_state sample_core = Idle" "mc_last_now sample_core = Instant 0"
    "mc_last_activity sample_core = Instant 0" "mc_protocol_deadline sample_core = Some half_second"
    "mc_active_transmit sample_core = None" "mc_pending_send sample_core = None" "mc_parser_partial sample_core = False"
    "mc_pending_token sample_core = False" "ac_receive (mc_actions sample_core) = False"
    "mc_next_transmit_generation sample_core = 0"
    by (simp_all add: sample_core_def from_parts_def standard_valid e h MIN_RX_STORAGE_def HEADER_LENGTH_def actions_new_def)
qed

lemma sample_timing:
  "after half_second T_NO_TOKEN = Instant 1000000000" "generation_start STANDARD_CONFIG (Instant 0) half_second = half_second"
  "after (Instant 0) (cf_t_turnaround STANDARD_CONFIG) \<le> half_second"
  "generation_first STANDARD_CONFIG (Instant 0) = half_second"
proof -
  show "after half_second T_NO_TOKEN = Instant 1000000000"
    by (simp add: T_NO_TOKEN_def from_millis_def NANOS_PER_MILLI_def instant_saturating_add_def u64_saturating_mul_def
        u64_checked_mul_def u64_saturating_add_def u64_checked_add_def)
  have st: "cf_station STANDARD_CONFIG = 0" by (simp add: STANDARD_CONFIG_def for_baud_rate_unchecked_def)
  have first: "generation_first STANDARD_CONFIG (Instant 0) = half_second" "after half_second T_SLOT = Instant 510000000"
    by (simp_all add: generation_first_def st T_NO_TOKEN_def T_SLOT_def from_millis_def NANOS_PER_MILLI_def
        instant_saturating_add_def u64_saturating_mul_def u64_checked_mul_def u64_saturating_add_def u64_checked_add_def
        duration_saturating_mul_def)
  then show "generation_start STANDARD_CONFIG (Instant 0) half_second = half_second"
    by (simp add: generation_start_def Let_def less_eq_instant_def)
  show "generation_first STANDARD_CONFIG (Instant 0) = half_second" by (rule first)
  have "timing_ok STANDARD_CONFIG" using standard_valid by (simp add: validate_iff)
  then have "ns (cf_t_turnaround STANDARD_CONFIG) \<le> 15000000" by (auto simp: timing_ok_def Let_def)
  then show "after (Instant 0) (cf_t_turnaround STANDARD_CONFIG) \<le> half_second"
    by (simp add: less_eq_instant_def instant_saturating_add_def word_le_nat_alt unat_saturating_add)
qed

lemma generating_fields:
  "\<exists>p. mc_active_transmit generating_core = Some \<lparr>tx_id = 0, tx_asserted_at = half_second, tx_started = False,
        tx_post = PostPollForMaster\<rparr>
     \<and> mc_pending_send generating_core = Some p \<and> ps_origin p = OriginNoToken \<and> ps_earliest p \<le> half_second
     \<and> ac_transmit (mc_actions generating_core) = Some \<lparr>qt_id = 0, qt_direction_polled = False\<rparr>
     \<and> ac_receive (mc_actions generating_core) = False \<and> mc_last_now generating_core = half_second"
proof -
  define c where "c = (set_state NoToken (tally (record_deadline (saturating_duration_since half_second half_second)
      (cf_late_deadline STANDARD_CONFIG)) (sample_core\<lparr>mc_last_now := half_second\<rparr>)))
      \<lparr>mc_retry_token_count := 0, mc_event_count := 0\<rparr>"
  define d where "d = (tally record_token_regeneration c)\<lparr>mc_next_station := cf_station STANDARD_CONFIG,
      mc_token_count := 0, mc_poll_station := next_addr (cf_station STANDARD_CONFIG) (cf_max_master STANDARD_CONFIG)\<rparr>"
  have "max (Instant 0) half_second = half_second" by (simp add: max_def less_eq_instant_def)
  then have obs: "observe_time half_second sample_core = (half_second, sample_core\<lparr>mc_last_now := half_second\<rparr>)"
    by (simp add: observe_time_def sample_fields Let_def)
  have "next_deadline (sample_core\<lparr>mc_last_now := half_second\<rparr>) = Some half_second"
    by (simp add: next_deadline_def sample_fields earliest_def List.map_filter_def)
  then have "generating_core = generate_token_if_in_slot (fixed_ops 501) 501 half_second c"
    by (simp add: generating_core_def on_deadline_def obs abort_partial_if_late_def sample_fields c_def enter_no_token_def)
  then have g: "generating_core = queue_poll (fixed_ops 501) 501 OriginNoToken half_second d"
    by (simp add: generate_token_if_in_slot_def c_def d_def sample_fields sample_timing Let_def)
  have base: "base 501 sample_core"
    using reachable_ok [OF sample_reachable] by (simp add: core_ok_def core_inv_def sends_well_def)
  have cfg: "mc_config d = STANDARD_CONFIG" "mc_actions d = mc_actions sample_core" "mc_last_activity d = Instant 0"
      "mc_last_now d = half_second" "mc_next_transmit_generation d = 0"
    by (simp_all add: d_def c_def sample_fields)
  from encode_holds [of d POLL_FOR_MASTER "[]" "mc_poll_station d"] base cfg obtain a where
    a: "encode (new_frame POLL_FOR_MASTER (mc_poll_station d) (cf_station STANDARD_CONFIG) []) d = (True, d\<lparr>mc_actions := a\<rparr>)"
      "ac_receive a = ac_receive (mc_actions d)"
    by (auto simp: base_def sample_fields)
  have lt: "\<not> Instant 1000000000 \<le> half_second"
      "\<not> half_second < after (Instant 0) (cf_t_turnaround STANDARD_CONFIG)"
    using sample_timing(3) by (simp_all add: less_eq_instant_def not_less)
  show ?thesis
    using a(2) lt sample_timing(3)
    by (simp add: g queue_poll_with_def queue_frame_with_def a(1) cfg send_encoded_with_def dispatch_pending_send_with_def
        sample_timing(1) dispatch_frame_def queue_transmit_def sample_fields Let_def)
qed

lemma polled_starts:
  "\<exists>octets d. on_transmit_started (fixed_ops 501) 501 0 half_second polled_core = (Inr octets, d)"
proof -
  let ?tx = "\<lparr>tx_id = 0, tx_asserted_at = half_second, tx_started = False, tx_post = PostPollForMaster\<rparr>"
  obtain p where g: "mc_active_transmit generating_core = Some ?tx" "mc_pending_send generating_core = Some p"
      "ps_origin p = OriginNoToken" "ps_earliest p \<le> half_second"
      "ac_transmit (mc_actions generating_core) = Some \<lparr>qt_id = 0, qt_direction_polled = False\<rparr>"
      "ac_receive (mc_actions generating_core) = False" "mc_last_now generating_core = half_second"
    using generating_fields by blast
  have due: "start_due 0 ?tx p polled_core" "mc_last_now polled_core = half_second"
    using g by (simp_all add: start_due_def polled_core_def poll_action_def poll_def transmit_queued_def)
  have "polled_core\<lparr>mc_last_now := half_second\<rparr> = polled_core" using due(2) by (simp flip: due(2))
  then have obs: "observe_time half_second polled_core = (half_second, polled_core)"
    using due(2) by (simp add: observe_time_def Let_def)
  from start_decided [OF reachable_ok [OF polled_reachable] obs due(1), of "fixed_ops 501"] show ?thesis
    using g(3,4) by (auto simp: answer_over_def not_less)
qed

theorem started_frame_is_lawful_witness:
  "\<exists>octets d f k p. on_transmit_started (fixed_ops 501) 501 0 half_second polled_core = (Inr octets, d)
     \<and> checked_length f = Inr k \<and> fh_source (fr_header f) = cf_station (mc_config polled_core)
     \<and> octets = frame_octets f \<and> mc_pending_send polled_core = Some p
     \<and> transmitting d \<and> mc_pending_send d = None"
proof -
  obtain octets d where s: "on_transmit_started (fixed_ops 501) 501 0 half_second polled_core = (Inr octets, d)"
    using polled_starts by blast
  show ?thesis using started_frame_is_lawful [OF polled_reachable s] s by blast
qed

theorem core_never_stalls_witness:
  "(\<exists>t. next_deadline polled_core = Some t)
   \<and> mc_active_transmit polled_core \<noteq> None \<and> \<not> transmitting (on_deadline (fixed_ops 501) 501 INSTANT_MAX polled_core)"
proof -
  obtain tx where "mc_active_transmit generating_core = Some tx" using generating_fields by blast
  then have "mc_active_transmit polled_core = Some tx"
    by (simp add: polled_core_def poll_action_def split: prod.split)
  moreover have "t \<le> INSTANT_MAX" for t by (simp add: INSTANT_MAX_def less_eq_instant_def)
  ultimately show ?thesis using core_never_stalls [OF polled_reachable] by blast
qed

end
