(* ===== verification/Mstp_Token_Slots.thy ===== *)
theory Mstp_Token_Slots
  imports Mstp_Master_Runs
begin

text \<open>
  Who may generate a lost token, and which stations a search for a successor asks: the
  arithmetic of \<open>generate_token_if_in_slot\<close> and \<open>next_addr\<close>
  (\<open>crates/bacnet-mstp-core/src/state/token.rs\<close>, \<open>state.rs\<close>).
\<close>

section \<open>Generation slots\<close>

abbreviation at_ns :: "instant \<Rightarrow> nat" where "at_ns t \<equiv> unat (inst_nanos t)"

lemma at_le: "t \<le> u \<longleftrightarrow> at_ns t \<le> at_ns u" and at_less: "t < u \<longleftrightarrow> at_ns t < at_ns u"
  by (simp_all add: less_eq_instant_def less_instant_def word_le_nat_alt word_less_nat_alt)

lemma at_after: "at_ns (after t d) = min (at_ns t + ns d) (2 ^ 64 - 1)"
  by (simp add: instant_saturating_add_def unat_saturating_add)

lemma at_before: "at_ns (before t d) = at_ns t - ns d"
  by (simp add: instant_saturating_sub_def unat_saturating_sub)

lemma ns_since: "ns (saturating_duration_since t u) = at_ns t - at_ns u"
  by (simp add: saturating_duration_since_def unat_saturating_sub)

lemma ns_rem: "ns d \<noteq> 0 \<Longrightarrow> \<exists>r. duration_checked_rem a d = Some r \<and> ns r = ns a mod ns d"
  by (auto simp: duration_checked_rem_def div_rem_native unat_eq_zero unat_mod)

text \<open>The slot of \<open>T_slot\<close> that \<open>x\<close> nanoseconds of silence past \<open>T_no_token\<close> fall in.\<close>

lemma slot_window:
  fixes x s m T :: nat
  assumes "s \<le> m" "0 < T"
  shows "(T * s \<le> x \<and> (x - T * s) mod (T * (m + 1)) < T) \<longleftrightarrow> x div T mod (m + 1) = s"
proof -
  define q r where "q = x div T" and "r = x mod T"
  have x: "x = T * q + r" "r < T" using assms(2) by (auto simp: q_def r_def)
  have le: "T * s \<le> x \<longleftrightarrow> s \<le> q" using assms(2) by (simp add: q_def less_eq_div_iff_mult_less_eq mult.commute)
  have "(x - T * s) mod (T * (m + 1)) = T * ((q - s) mod (m + 1)) + r" if "s \<le> q"
  proof -
    have "x - T * s = T * (q - s) + r" using x that by (simp add: diff_mult_distrib2)
    moreover have "(T * (q - s) + r) mod (T * (m + 1)) = T * ((T * (q - s) + r) div T mod (m + 1)) + (T * (q - s) + r) mod T"
      by (simp only: mod_mult2_eq)
    ultimately show ?thesis using x(2) by simp
  qed
  then have "(T * s \<le> x \<and> (x - T * s) mod (T * (m + 1)) < T) \<longleftrightarrow> s \<le> q \<and> (q - s) mod (m + 1) = 0"
    using le x(2) assms(2) by (cases "(q - s) mod (m + 1)") auto
  also have "\<dots> \<longleftrightarrow> q mod (m + 1) = s"
  proof
    assume d: "s \<le> q \<and> (q - s) mod (m + 1) = 0"
    then obtain k where k: "q - s = (m + 1) * k" using mod_0_imp_dvd by (metis dvdE)
    from d have "q = s + (q - s)" by simp
    then have "q = s + (m + 1) * k" by (simp only: k)
    then have "q mod (m + 1) = s mod (m + 1)" by (simp only: mod_mult_self2)
    then show "q mod (m + 1) = s" using assms(1) by simp
  next
    assume "q mod (m + 1) = s"
    then show "s \<le> q \<and> (q - s) mod (m + 1) = 0" by (metis mod_less_eq_dividend minus_mod_eq_mult_div mod_mult_self1_is_0)
  qed
  finally show ?thesis by (simp add: q_def)
qed

lemma unat_octet_u32: "unat (ucast (k :: octet) :: u32) = unat k"
proof -
  have "unat k < 2 ^ 32" by (rule order.strict_trans [OF unsigned_less]) simp
  then show ?thesis by (simp add: unsigned_ucast_eq take_bit_nat_eq_self)
qed

lemma generation_window:
  assumes "cf_station cfg \<le> cf_max_master cfg" "at_ns seen + 10000000000 < 2 ^ 64" "at_ns now + 10000000000 < 2 ^ 64"
  shows "generation_start cfg seen now \<le> now \<longleftrightarrow>
      at_ns seen + 500000000 \<le> at_ns now
      \<and> (at_ns now - at_ns seen - 500000000) div 10000000 mod (unat (cf_max_master cfg) + 1) = unat (cf_station cfg)"
proof -
  let ?T = "10000000 :: nat"
  define s m where sm_def: "s = unat (cf_station cfg)" "m = unat (cf_max_master cfg)"
  have sm: "s \<le> m" "m < 256" "s < 256" unfolding sm_def using assms(1) unsigned_less [of "cf_max_master cfg"] unsigned_less [of "cf_station cfg"]
    by (auto simp: word_le_nat_alt)
  have u: "unat (ucast (cf_max_master cfg) + 1 :: u32) = m + 1" "unat (ucast (cf_station cfg) :: u32) = s"
  proof -
    have "Suc m < 4294967296" using sm(2) by linarith
    then show "unat (ucast (cf_max_master cfg) + 1 :: u32) = m + 1" by (simp add: unat_octet_u32 unat_word_ariths sm_def)
  qed (simp add: unat_octet_u32 sm_def)
  have cyc: "ns (generation_cycle cfg) = ?T * (m + 1)" using sm by (simp add: generation_cycle_def ns_mul u)
  have first: "at_ns (generation_first cfg seen) = at_ns seen + 500000000 + ?T * s"
    using sm assms(2) by (simp add: generation_first_def at_after ns_mul u)
  have firstT: "at_ns (after (generation_first cfg seen) T_SLOT) = at_ns seen + 500000000 + ?T * s + ?T"
    using sm assms(2) by (simp add: at_after first)
  obtain r where r: "duration_checked_rem (saturating_duration_since now (generation_first cfg seen)) (generation_cycle cfg) = Some r"
      "ns r = (at_ns now - at_ns (generation_first cfg seen)) mod (?T * (m + 1))"
    using ns_rem [of "generation_cycle cfg" "saturating_duration_since now (generation_first cfg seen)"]
    by (auto simp: cyc ns_since)
  let ?x = "at_ns now - at_ns seen - 500000000"
  have slot: "at_ns seen + 500000000 \<le> at_ns now \<and> ?x div ?T mod (m + 1) = s \<longleftrightarrow>
      at_ns (generation_first cfg seen) \<le> at_ns now
      \<and> (at_ns now - at_ns (generation_first cfg seen)) mod (?T * (m + 1)) < ?T"
  proof (cases "at_ns seen + 500000000 \<le> at_ns now")
    case True
    then have "?T * s \<le> ?x \<longleftrightarrow> at_ns (generation_first cfg seen) \<le> at_ns now"
        "?x - ?T * s = at_ns now - at_ns (generation_first cfg seen)" by (auto simp: first)
    with True slot_window [OF sm(1), of ?T ?x] show ?thesis by simp
  qed (simp add: first)
  show ?thesis
  proof (cases "at_ns (generation_first cfg seen) + ?T \<le> at_ns now")
    case False
    then have "generation_start cfg seen now = generation_first cfg seen"
      by (simp add: generation_start_def Let_def at_le firstT first)
    moreover have "(at_ns now - at_ns (generation_first cfg seen)) mod (?T * (m + 1)) < ?T"
      using False by (intro le_less_trans [OF mod_less_eq_dividend]) auto
    ultimately show ?thesis using slot by (simp add: at_le sm_def)
  next
    case True
    define start where "start = before now r"
    have rlt: "ns r < ?T * (m + 1)" "ns r \<le> at_ns now" using r(2) True by (auto intro: order.trans [OF mod_less_eq_dividend])
    have "generation_start cfg seen now = (if T_SLOT \<le> r then after start (generation_cycle cfg) else start)"
      using True by (simp add: generation_start_def Let_def at_le firstT first r(1) start_def)
    moreover have "at_ns start = at_ns now - ns r" by (simp add: start_def at_before)
    moreover have "at_ns (after start (generation_cycle cfg)) = at_ns now - ns r + ?T * (m + 1)"
      using sm assms(3) rlt by (simp add: at_after cyc start_def at_before)
    moreover have "T_SLOT \<le> r \<longleftrightarrow> ?T \<le> ns r" by (simp add: less_eq_duration_def word_le_nat_alt)
    ultimately have "generation_start cfg seen now \<le> now \<longleftrightarrow> ns r < ?T" using rlt by (auto simp: at_le not_less)
    then show ?thesis using slot r(2) True by (simp add: sm_def)
  qed
qed

text \<open>
  C18: No two stations regenerate a lost token at once. Cores with the same Max_Master that
  last saw activity at the same instant, asked at the same instant, are in different slots of
  the silence: of two with different addresses one at least only sets its deadline to where
  its own next slot starts. (Clocks are at least ten seconds from their end.)
\<close>

theorem one_generator:
  assumes "validate (mc_config a) = Inr ()" "validate (mc_config b) = Inr ()"
    and "cf_max_master (mc_config a) = cf_max_master (mc_config b)" "cf_station (mc_config a) \<noteq> cf_station (mc_config b)"
    and "mc_last_activity a = mc_last_activity b"
    and "at_ns (mc_last_activity a) + 10000000000 < 2 ^ 64" "at_ns now + 10000000000 < 2 ^ 64"
  shows "generate_token_if_in_slot ops n now a = set_deadline (generation_start (mc_config a) (mc_last_activity a) now) a
       \<or> generate_token_if_in_slot ops' n' now b = set_deadline (generation_start (mc_config b) (mc_last_activity b) now) b"
proof -
  have st: "cf_station (mc_config a) \<le> cf_max_master (mc_config a)" "cf_station (mc_config b) \<le> cf_max_master (mc_config b)"
    using assms(1,2) by (auto simp: validate_iff limits_ok_def)
  have "\<not> (generation_start (mc_config a) (mc_last_activity a) now \<le> now
      \<and> generation_start (mc_config b) (mc_last_activity b) now \<le> now)"
    using generation_window [OF st(1) assms(6,7)] generation_window [OF st(2) assms(6,7) [unfolded assms(5)]] assms(3,4,5)
    by (auto simp: word_unat_eq_iff)
  then show ?thesis by (auto simp: generate_token_if_in_slot_def Let_def not_le)
qed

lemma moved_valid: "validate (STANDARD_CONFIG\<lparr>cf_station := 1\<rparr>) = Inr ()"
  using standard_valid
  by (simp add: validate_iff timing_ok_def limits_ok_def minimum_transmit_watchdog_def longest_frame_time_def octet_time_def)
    (simp add: STANDARD_CONFIG_def for_baud_rate_unchecked_def MAX_MASTER_def)

theorem one_generator_witness:
  "let b = sample_core\<lparr>mc_config := STANDARD_CONFIG\<lparr>cf_station := 1\<rparr>\<rparr> in
   generate_token_if_in_slot (fixed_ops 501) 501 half_second sample_core
     = set_deadline (generation_start (mc_config sample_core) (mc_last_activity sample_core) half_second) sample_core
   \<or> generate_token_if_in_slot (fixed_ops 501) 501 half_second b
     = set_deadline (generation_start (mc_config b) (mc_last_activity b) half_second) b"
  unfolding Let_def
proof (rule one_generator)
  show "cf_station (mc_config sample_core)
      \<noteq> cf_station (mc_config (sample_core\<lparr>mc_config := STANDARD_CONFIG\<lparr>cf_station := 1\<rparr>\<rparr>))"
    by (simp add: sample_fields) (simp add: STANDARD_CONFIG_def for_baud_rate_unchecked_def)
qed (simp_all add: sample_fields standard_valid moved_valid)

section \<open>The search for a successor\<close>

lemma unat_next_addr: "unat (next_addr c m) = (unat c + 1) mod (unat m + 1)"
proof -
  have m: "unat m < 256" using unsigned_less [of m, where ?'a = nat] by simp
  consider (less) "unat c < unat m" | (same) "c = m" | (above) "unat m < unat c" by (metis linorder_cases word_unat_eq_iff)
  then show ?thesis
  proof cases
    case less
    then have "unat c + 1 < 256" using m by linarith
    then have "unat (c + 1) = unat c + 1" by (simp add: unat_word_ariths)
    with less show ?thesis by (simp add: next_addr_def word_less_nat_alt)
  next
    case same
    then show ?thesis by (simp add: next_addr_def)
  next
    case above
    have "(unat c + 1) mod (unat m + 1) < 256"
      using m mod_less_divisor [of "unat m + 1" "unat c + 1"] by linarith
    then have "unat (of_nat ((unat c + 1) mod (unat m + 1)) :: octet) = (unat c + 1) mod (unat m + 1)"
      by (simp add: unat_of_nat)
    moreover have "c \<noteq> m" "\<not> c < m" using above by (auto simp: word_less_nat_alt)
    ultimately show ?thesis by (simp add: next_addr_def)
  qed
qed

text \<open>
  The addresses a search for a successor asks, from whatever station it starts after:
  the k-th is (start + k) modulo (Max_Master + 1), and the first Max_Master + 1 of them are
  every address up to Max_Master.
\<close>

theorem successor_search:
  "unat (((\<lambda>a. next_addr a m) ^^ Suc k) c) = (unat c + Suc k) mod (unat m + 1)
   \<and> (\<lambda>j. ((\<lambda>a. next_addr a m) ^^ Suc j) c) ` {..unat m} = {..m}"
proof -
  have nth: "unat (((\<lambda>a. next_addr a m) ^^ Suc j) c) = (unat c + Suc j) mod (unat m + 1)" for j
    by (induction j) (simp_all add: unat_next_addr mod_Suc_eq)
  have "a \<in> (\<lambda>j. ((\<lambda>a. next_addr a m) ^^ Suc j) c) ` {..unat m}" if "a \<le> m" for a
  proof -
    let ?N = "unat m + 1" and ?x = "unat c + 1"
    define j where "j = (unat a + ?N * ?x - ?x) mod ?N"
    have "(?x + (unat a + ?N * ?x - ?x)) mod ?N = (?x + j) mod ?N" unfolding j_def by (rule mod_add_right_eq [symmetric])
    moreover have "?x + (unat a + ?N * ?x - ?x) = unat a + ?N * ?x" by simp
    moreover have "(unat a + ?N * ?x) mod ?N = unat a mod ?N" by (rule mod_mult_self2)
    moreover have "unat a mod ?N = unat a" using that by (simp add: word_le_nat_alt)
    ultimately have "(?x + j) mod ?N = unat a" by metis
    then have "(unat c + Suc j) mod ?N = unat a" by simp
    then have "((\<lambda>a. next_addr a m) ^^ Suc j) c = a" using nth [of j] by (metis word_unat_eq_iff)
    moreover have "j \<le> unat m" using mod_less_divisor [of ?N "unat a + ?N * ?x - ?x"] by (simp add: j_def)
    ultimately show ?thesis by blast
  qed
  moreover have "((\<lambda>a. next_addr a m) ^^ Suc j) c \<le> m" for j
    using mod_less_divisor [of "unat m + 1" "unat c + Suc j"] by (simp only: word_le_nat_alt nth) simp
  ultimately show ?thesis using nth by blast
qed

end
