(* ===== verification/Bbmd_Table.thy ===== *)
theory Bbmd_Table
  imports Bacnet_Prelude
begin

text \<open>
  What a BBMD's tables promise their callers: rows with a key each, no key twice, and a lookup
  that is the first row with the key. Both tables of \<open>crates/bacnet-bip-core/src/bbmd\<close> keep
  their rows in an array and look them up with \<open>iter().find\<close>; what follows for a lookup is
  proved here once.
\<close>

lemma find_SomeD: "find P xs = Some x \<Longrightarrow> x \<in> set xs \<and> P x"
  by (metis find_Some_iff nth_mem)

locale keyed_table =
  fixes rows :: "'t \<Rightarrow> 'r list"
    and key :: "'r \<Rightarrow> 'k"
    and wf :: "'t \<Rightarrow> bool"
    and lookup :: "'k \<Rightarrow> 't \<Rightarrow> 'r option"
  assumes keys_distinct: "wf t \<Longrightarrow> distinct (map key (rows t))"
    and lookup_first: "lookup k t = find (\<lambda>r. key r = k) (rows t)"
begin

lemma lookup_None_iff: "lookup k t = None \<longleftrightarrow> k \<notin> key ` set (rows t)"
  by (auto simp: lookup_first find_None_iff)

lemma lookup_SomeD: "lookup k t = Some r \<Longrightarrow> r \<in> set (rows t) \<and> key r = k"
  by (auto simp: lookup_first find_Some_iff)

lemma row_unique: "wf t \<Longrightarrow> r \<in> set (rows t) \<Longrightarrow> r' \<in> set (rows t) \<Longrightarrow> key r = key r' \<Longrightarrow> r = r'"
  by (metis keys_distinct distinct_map inj_onD)

lemma lookup_Some_iff: "wf t \<Longrightarrow> lookup k t = Some r \<longleftrightarrow> r \<in> set (rows t) \<and> key r = k"
proof
  assume "wf t" "r \<in> set (rows t) \<and> key r = k"
  then show "lookup k t = Some r"
    by (metis lookup_None_iff lookup_SomeD row_unique imageI option.exhaust)
qed (use lookup_SomeD in blast)

lemma lookup_same_rows:
  "wf t \<Longrightarrow> wf t' \<Longrightarrow> (\<And>r. key r = k \<Longrightarrow> r \<in> set (rows t) \<longleftrightarrow> r \<in> set (rows t')) \<Longrightarrow> lookup k t = lookup k t'"
  by (metis lookup_Some_iff option.exhaust)

end

end
