(* ===== verification/Bbmd_Fdt.thy ===== *)
theory Bbmd_Fdt
  imports Bip_Codec Bacnet_Time Bbmd_Table
begin

text \<open>
  A BBMD's foreign device table (\<open>crates/bacnet-bip-core/src/bbmd/fdt.rs\<close>): registrations
  with their lifetime, admission limits, and the table in a fixed array, whose in-place
  operations refine operations on the list of registrations. The size \<open>N\<close> of the array is the
  length of its slots.
\<close>

section \<open>Registrations\<close>

definition GRACE_PERIOD :: duration where "GRACE_PERIOD = from_secs 30"

definition GRACE_WHOLE_SECONDS :: u64 where "GRACE_WHOLE_SECONDS = as_secs GRACE_PERIOD"

record registration =
  rg_address :: socket_addr_v4
  rg_ttl :: u16
  rg_registered_at :: instant

definition new_registration :: "socket_addr_v4 \<Rightarrow> u16 \<Rightarrow> instant \<Rightarrow> registration" where
  "new_registration address ttl registered_at =
     \<lparr>rg_address = address, rg_ttl = ttl, rg_registered_at = registered_at\<rparr>"

definition EMPTY_SLOT :: registration where
  "EMPTY_SLOT = new_registration \<lparr>sa_ip = Ipv4Addr 0 0 0 0, sa_port = 0\<rparr> 0 INSTANT_ZERO"

definition lifetime :: "registration \<Rightarrow> duration" where
  "lifetime r = from_secs (ucast (rg_ttl r) + GRACE_WHOLE_SECONDS)"

definition is_expired_at :: "registration \<Rightarrow> instant \<Rightarrow> bool" where
  "is_expired_at r now \<longleftrightarrow> saturating_duration_since now (rg_registered_at r) > lifetime r"

definition seconds_remaining_at :: "registration \<Rightarrow> instant \<Rightarrow> u16" where
  "seconds_remaining_at r now =
     (let lifetime_secs = ucast (rg_ttl r) + GRACE_WHOLE_SECONDS;
          passed = as_secs (saturating_duration_since now (rg_registered_at r));
          left = u64_saturating_sub lifetime_secs passed
      in if unat left < 2 ^ 16 then ucast left else - 1)"

definition wire_entry_at :: "registration \<Rightarrow> instant \<Rightarrow> fdt_entry" where
  "wire_entry_at r now =
     \<lparr>fe_address = rg_address r, fe_ttl = rg_ttl r, fe_remaining = seconds_remaining_at r now\<rparr>"

section \<open>Admission\<close>

record registration_limits =
  rl_min_ttl :: u16
  rl_max_ttl :: u16
  rl_max_entries_per_source :: nat
  rl_reserved_capacity :: nat

definition DEFAULT_LIMITS :: registration_limits where
  "DEFAULT_LIMITS = \<lparr>rl_min_ttl = 1, rl_max_ttl = 3600, rl_max_entries_per_source = 8, rl_reserved_capacity = 0\<rparr>"

datatype reservation = OrdinarySource | ReservedSource
datatype registered = NewRegistration | RenewedRegistration
datatype registration_refusal = TimeToLive | RegisterNotAdmitted | SourceQuota | TableFull

definition registration_result_code :: "registration_refusal \<Rightarrow> bvlc_result_code" where
  "registration_result_code r = REGISTER_FOREIGN_DEVICE_NAK"

record register_outcome =
  ro_result :: "registration_refusal + registered"
  ro_purged :: nat

record storage_full =
  stf_needed :: nat
  stf_available :: nat

section \<open>The table\<close>

record fdt =
  ft_slots :: "registration list"
  ft_len :: nat

definition fdt_new :: "nat \<Rightarrow> fdt" where
  "fdt_new n = \<lparr>ft_slots = replicate n EMPTY_SLOT, ft_len = 0\<rparr>"

definition registrations :: "fdt \<Rightarrow> registration list" where
  "registrations t = take (ft_len t) (ft_slots t)"

definition fdt_is_empty :: "fdt \<Rightarrow> bool" where "fdt_is_empty t \<longleftrightarrow> ft_len t = 0"

definition fdt_live_at :: "instant \<Rightarrow> fdt \<Rightarrow> registration list" where
  "fdt_live_at now t = filter (\<lambda>e. \<not> is_expired_at e now) (registrations t)"

definition fdt_get :: "socket_addr_v4 \<Rightarrow> fdt \<Rightarrow> registration option" where
  "fdt_get address t = find (\<lambda>e. rg_address e = address) (registrations t)"

definition is_registered_at :: "socket_addr_v4 \<Rightarrow> instant \<Rightarrow> fdt \<Rightarrow> bool" where
  "is_registered_at address now t =
     (case fdt_get address t of None \<Rightarrow> False | Some e \<Rightarrow> \<not> is_expired_at e now)"

text \<open>The loop of \<open>retain\<close> at one index, over the slots and how many are kept.\<close>

definition retain_at :: "(registration \<Rightarrow> bool) \<Rightarrow> nat \<Rightarrow> registration list \<times> nat \<Rightarrow> registration list \<times> nat" where
  "retain_at keep index = (\<lambda>(slots, kept).
     if keep (slots ! index) then (slots[kept := slots ! index], kept + 1) else (slots, kept))"

definition fdt_retain :: "(registration \<Rightarrow> bool) \<Rightarrow> fdt \<Rightarrow> nat \<times> fdt" where
  "fdt_retain keep t =
     (let (slots, kept) = fold (retain_at keep) [0..<ft_len t] (ft_slots t, 0)
      in (ft_len t - kept, \<lparr>ft_slots = slots, ft_len = kept\<rparr>))"

definition fdt_delete :: "socket_addr_v4 \<Rightarrow> fdt \<Rightarrow> bool \<times> fdt" where
  "fdt_delete address t = (let (removed, t) = fdt_retain (\<lambda>e. rg_address e \<noteq> address) t in (removed > 0, t))"

definition purge :: "instant \<Rightarrow> fdt \<Rightarrow> nat \<times> fdt" where
  "purge now t = fdt_retain (\<lambda>e. \<not> is_expired_at e now) t"

text \<open>The caller's own check \<open>admit\<close>, over whatever state it has, is asked at most once.\<close>

definition admit_and_store :: "socket_addr_v4 \<Rightarrow> u16 \<Rightarrow> instant \<Rightarrow> registration_limits \<Rightarrow> reservation
    \<Rightarrow> ('s \<Rightarrow> bool \<times> 's) \<Rightarrow> fdt \<Rightarrow> 's \<Rightarrow> (registration_refusal + registered) \<times> fdt \<times> 's" where
  "admit_and_store source ttl now limits reserved admit t s =
     (if ttl = 0 \<or> ttl < rl_min_ttl limits \<or> ttl > rl_max_ttl limits then (Inl TimeToLive, t, s)
      else case admit s of
        (False, s) \<Rightarrow> (Inl RegisterNotAdmitted, t, s)
      | (True, s) \<Rightarrow>
          let reg = new_registration source ttl now in
          (case position (\<lambda>e. rg_address e = source) (registrations t) of
             Some i \<Rightarrow> (Inr RenewedRegistration, t\<lparr>ft_slots := (ft_slots t)[i := reg]\<rparr>, s)
           | None \<Rightarrow>
               let from_source = length (filter (\<lambda>e. sa_ip (rg_address e) = sa_ip source) (registrations t));
                   n = length (ft_slots t);
                   limit = (case reserved of ReservedSource \<Rightarrow> n | OrdinarySource \<Rightarrow> n - rl_reserved_capacity limits)
               in if from_source \<ge> rl_max_entries_per_source limits then (Inl SourceQuota, t, s)
                  else if ft_len t \<ge> limit then (Inl TableFull, t, s)
                  else (Inr NewRegistration,
                        t\<lparr>ft_slots := (ft_slots t)[ft_len t := reg], ft_len := ft_len t + 1\<rparr>, s)))"

definition register :: "socket_addr_v4 \<Rightarrow> u16 \<Rightarrow> instant \<Rightarrow> registration_limits \<Rightarrow> reservation
    \<Rightarrow> ('s \<Rightarrow> bool \<times> 's) \<Rightarrow> fdt \<Rightarrow> 's \<Rightarrow> register_outcome \<times> fdt \<times> 's" where
  "register source ttl now limits reserved admit t s =
     (let (purged, t) = purge now t; (res, t, s) = admit_and_store source ttl now limits reserved admit t s
      in (\<lparr>ro_result = res, ro_purged = purged\<rparr>, t, s))"

definition restore :: "registration \<Rightarrow> fdt \<Rightarrow> (storage_full + unit) \<times> fdt" where
  "restore reg t =
     (case position (\<lambda>e. rg_address e = rg_address reg) (registrations t) of
        Some i \<Rightarrow> (Inr (), t\<lparr>ft_slots := (ft_slots t)[i := reg]\<rparr>)
      | None \<Rightarrow>
          if ft_len t < length (ft_slots t)
          then (Inr (), t\<lparr>ft_slots := (ft_slots t)[ft_len t := reg], ft_len := ft_len t + 1\<rparr>)
          else (Inl \<lparr>stf_needed = ft_len t + 1, stf_available = length (ft_slots t)\<rparr>, t))"

fun wire_loop :: "instant \<Rightarrow> registration list \<Rightarrow> nat \<Rightarrow> fdt_entry list \<Rightarrow> (storage_full + nat) \<times> fdt_entry list" where
  "wire_loop now [] written out = (Inr written, out)"
| "wire_loop now (entry # live) written out =
     (if written < length out then wire_loop now live (written + 1) (out[written := wire_entry_at entry now])
      else (Inl \<lparr>stf_needed = written + 1 + length live, stf_available = length out\<rparr>, out))"

definition wire_entries :: "instant \<Rightarrow> fdt_entry list \<Rightarrow> fdt \<Rightarrow> (storage_full + fdt_entry entries) \<times> fdt_entry list" where
  "wire_entries now out t =
     (case wire_loop now (fdt_live_at now t) 0 out of
        (Inr written, out) \<Rightarrow> (Inr (Typed (take written out)), out)
      | (Inl full, out) \<Rightarrow> (Inl full, out))"

section \<open>The array refines a list\<close>

text \<open>A table is well formed when its rows in use fit the array and hold each address once.\<close>

definition fdt_wf :: "fdt \<Rightarrow> bool" where
  "fdt_wf t \<longleftrightarrow> ft_len t \<le> length (ft_slots t) \<and> distinct (map rg_address (registrations t))"

lemma retain_fold:
  assumes "n \<le> length slots"
  shows "case fold (retain_at keep) [0..<n] (slots, 0) of (slots', kept) \<Rightarrow>
           length slots' = length slots \<and> kept \<le> n \<and> take kept slots' = filter keep (take n slots) \<and>
           drop n slots' = drop n slots"
  using assms
proof (induction n)
  case 0
  then show ?case by simp
next
  case (Suc n)
  obtain sl k where fo: "fold (retain_at keep) [0..<n] (slots, 0) = (sl, k)" by fastforce
  with Suc have ih: "length sl = length slots" "k \<le> n" "take k sl = filter keep (take n slots)"
    "drop n sl = drop n slots" by simp_all
  have n: "n < length slots" "n < length sl" using Suc.prems ih by simp_all
  have at: "sl ! n = slots ! n" using ih(4) n by (metis hd_drop_conv_nth)
  have dr: "drop (Suc n) sl = drop (Suc n) slots" using ih(4) by (metis drop_Suc tl_drop)
  have step: "fold (retain_at keep) [0..<Suc n] (slots, 0) = retain_at keep n (sl, k)" using fo by simp
  show ?case
    unfolding step using ih n at dr by (auto simp: retain_at_def take_Suc_conv_app_nth)
qed

lemma fdt_retain_refines:
  assumes "fdt_wf t"
  shows "registrations (snd (fdt_retain keep t)) = filter keep (registrations t)"
    and "fst (fdt_retain keep t) = length (filter (\<lambda>e. \<not> keep e) (registrations t))"
    and "length (ft_slots (snd (fdt_retain keep t))) = length (ft_slots t)"
    and "fdt_wf (snd (fdt_retain keep t))"
proof -
  obtain sl k where fo: "fold (retain_at keep) [0..<ft_len t] (ft_slots t, 0) = (sl, k)" by fastforce
  have le: "ft_len t \<le> length (ft_slots t)" using assms by (simp add: fdt_wf_def)
  from retain_fold [OF this, of keep] fo
  have r: "length sl = length (ft_slots t)" "k \<le> ft_len t" "take k sl = filter keep (registrations t)"
    by (simp_all add: registrations_def)
  have k: "k = length (filter keep (registrations t))"
    using r le by (metis length_take min.absorb2 order_trans)
  show regs: "registrations (snd (fdt_retain keep t)) = filter keep (registrations t)"
    using fo r by (simp add: fdt_retain_def registrations_def)
  show "length (ft_slots (snd (fdt_retain keep t))) = length (ft_slots t)"
    using fo r by (simp add: fdt_retain_def)
  have "length (registrations t) = ft_len t" using le by (simp add: registrations_def)
  then show "fst (fdt_retain keep t) = length (filter (\<lambda>e. \<not> keep e) (registrations t))"
    using fo k sum_length_filter_compl [of keep "registrations t"] by (simp add: fdt_retain_def)
  show "fdt_wf (snd (fdt_retain keep t))"
    using assms regs fo r le by (auto simp: fdt_wf_def fdt_retain_def distinct_map_filter)
qed

lemma fdt_new_refines: "registrations (fdt_new n) = []" "fdt_wf (fdt_new n)" "length (ft_slots (fdt_new n)) = n"
  by (simp_all add: fdt_new_def registrations_def fdt_wf_def)

lemma fdt_delete_refines:
  assumes "fdt_wf t"
  shows "fst (fdt_delete a t) \<longleftrightarrow> a \<in> rg_address ` set (registrations t)"
    and "registrations (snd (fdt_delete a t)) = filter (\<lambda>e. rg_address e \<noteq> a) (registrations t)"
    and "length (ft_slots (snd (fdt_delete a t))) = length (ft_slots t)"
    and "fdt_wf (snd (fdt_delete a t))"
proof -
  note r = fdt_retain_refines [OF assms, of "\<lambda>e. rg_address e \<noteq> a"]
  show "fst (fdt_delete a t) \<longleftrightarrow> a \<in> rg_address ` set (registrations t)"
    using r(2) by (auto simp: fdt_delete_def case_prod_beta Let_def filter_empty_conv)
  show "registrations (snd (fdt_delete a t)) = filter (\<lambda>e. rg_address e \<noteq> a) (registrations t)"
    "length (ft_slots (snd (fdt_delete a t))) = length (ft_slots t)" "fdt_wf (snd (fdt_delete a t))"
    using r by (simp_all add: fdt_delete_def case_prod_beta Let_def)
qed

lemma purge_refines:
  assumes "fdt_wf t"
  shows "fst (purge now t) = length (filter (\<lambda>e. is_expired_at e now) (registrations t))"
    and "registrations (snd (purge now t)) = fdt_live_at now t"
    and "length (ft_slots (snd (purge now t))) = length (ft_slots t)"
    and "fdt_wf (snd (purge now t))"
  using fdt_retain_refines [OF assms, of "\<lambda>e. \<not> is_expired_at e now"]
  by (simp_all add: purge_def fdt_live_at_def)

section \<open>Storing a registration\<close>

text \<open>Storing at an address: its row replaced where it stands, or a row at the end.\<close>

definition store_row :: "registration \<Rightarrow> registration list \<Rightarrow> registration list" where
  "store_row reg rows =
     (if rg_address reg \<in> rg_address ` set rows
      then map (\<lambda>e. if rg_address e = rg_address reg then reg else e) rows
      else rows @ [reg])"

lemma set_store_row: "set (store_row reg rows) = insert reg {e \<in> set rows. rg_address e \<noteq> rg_address reg}"
  by (auto simp: store_row_def image_iff)

lemma distinct_store_row: "distinct (map rg_address rows) \<Longrightarrow> distinct (map rg_address (store_row reg rows))"
proof -
  have "map rg_address (map (\<lambda>e. if rg_address e = rg_address reg then reg else e) rows) = map rg_address rows"
    by simp
  then show "distinct (map rg_address rows) \<Longrightarrow> distinct (map rg_address (store_row reg rows))"
    by (auto simp: store_row_def simp del: map_map)
qed

lemma map_replace_at:
  assumes "distinct (map rg_address rows)" "position (\<lambda>e. rg_address e = rg_address reg) rows = Some i"
  shows "rows[i := reg] = map (\<lambda>e. if rg_address e = rg_address reg then reg else e) rows"
proof (rule nth_equalityI)
  have i: "i < length rows" "rg_address (rows ! i) = rg_address reg" using position_Some [OF assms(2)] by auto
  fix j assume j: "j < length (rows[i := reg])"
  show "rows[i := reg] ! j = map (\<lambda>e. if rg_address e = rg_address reg then reg else e) rows ! j"
  proof (cases "j = i")
    case False
    then have "rg_address (rows ! j) \<noteq> rg_address reg"
      using assms(1) i j by (metis distinct_conv_nth length_list_update length_map nth_map)
    then show ?thesis using False j by simp
  qed (use i in simp)
qed simp

lemma fdt_replace_refines:
  assumes "fdt_wf t" "position (\<lambda>e. rg_address e = rg_address reg) (registrations t) = Some i"
  shows "registrations (t\<lparr>ft_slots := (ft_slots t)[i := reg]\<rparr>) = store_row reg (registrations t)"
    and "fdt_wf (t\<lparr>ft_slots := (ft_slots t)[i := reg]\<rparr>)"
proof -
  have i: "i < length (registrations t)" "rg_address (registrations t ! i) = rg_address reg"
    using position_Some [OF assms(2)] by auto
  then have mem: "rg_address reg \<in> rg_address ` set (registrations t)" by (metis imageI nth_mem)
  show r: "registrations (t\<lparr>ft_slots := (ft_slots t)[i := reg]\<rparr>) = store_row reg (registrations t)"
    using map_replace_at [OF _ assms(2)] assms(1) mem
    by (simp add: fdt_wf_def registrations_def store_row_def take_update_swap)
  show "fdt_wf (t\<lparr>ft_slots := (ft_slots t)[i := reg]\<rparr>)"
    using assms(1) r distinct_store_row by (simp add: fdt_wf_def)
qed

lemma fdt_append_refines:
  assumes "fdt_wf t" "rg_address reg \<notin> rg_address ` set (registrations t)" "ft_len t < length (ft_slots t)"
  shows "registrations (t\<lparr>ft_slots := (ft_slots t)[ft_len t := reg], ft_len := ft_len t + 1\<rparr>)
           = store_row reg (registrations t)"
    and "fdt_wf (t\<lparr>ft_slots := (ft_slots t)[ft_len t := reg], ft_len := ft_len t + 1\<rparr>)"
proof -
  show r: "registrations (t\<lparr>ft_slots := (ft_slots t)[ft_len t := reg], ft_len := ft_len t + 1\<rparr>)
           = store_row reg (registrations t)"
    using assms by (simp add: registrations_def store_row_def take_Suc_conv_app_nth)
  show "fdt_wf (t\<lparr>ft_slots := (ft_slots t)[ft_len t := reg], ft_len := ft_len t + 1\<rparr>)"
    using assms r distinct_store_row by (simp add: fdt_wf_def)
qed

lemma length_registrations: "fdt_wf t \<Longrightarrow> length (registrations t) = ft_len t"
  by (simp add: fdt_wf_def registrations_def)

interpretation fdt_rows: keyed_table registrations rg_address fdt_wf fdt_get
  by unfold_locales (simp_all add: fdt_wf_def fdt_get_def)

text \<open>
  The whole of \<open>register\<close> on the list of registrations: what is left after the purge is
  \<open>live\<close>, \<open>admitted\<close> is the caller's answer, and \<open>capacity\<close> the number of slots.
\<close>

definition register_spec :: "nat \<Rightarrow> socket_addr_v4 \<Rightarrow> u16 \<Rightarrow> instant \<Rightarrow> registration_limits \<Rightarrow> reservation
    \<Rightarrow> bool \<Rightarrow> registration list \<Rightarrow> (registration_refusal + registered) \<times> registration list" where
  "register_spec capacity source ttl now limits reserved admitted live =
     (let spare = (if reserved = ReservedSource then 0 else rl_reserved_capacity limits);
          others = {e \<in> set live. sa_ip (rg_address e) = sa_ip source};
          stored = store_row (new_registration source ttl now) live in
      if ttl = 0 \<or> ttl < rl_min_ttl limits \<or> rl_max_ttl limits < ttl then (Inl TimeToLive, live)
      else if \<not> admitted then (Inl RegisterNotAdmitted, live)
      else if source \<in> rg_address ` set live then (Inr RenewedRegistration, stored)
      else if rl_max_entries_per_source limits \<le> card others then (Inl SourceQuota, live)
      else if capacity \<le> length live + spare then (Inl TableFull, live)
      else (Inr NewRegistration, stored))"

lemma card_filter_distinct: "distinct (map f xs) \<Longrightarrow> length (filter P xs) = card {x \<in> set xs. P x}"
  using distinct_card [of "filter P xs"] by (simp add: distinct_map)

lemma admit_and_store_refines:
  assumes wf: "fdt_wf t"
    and res: "admit_and_store source ttl now limits reserved admit t s = (res, t', s')"
  shows "(res, registrations t')
           = register_spec (length (ft_slots t)) source ttl now limits reserved (fst (admit s)) (registrations t)"
    and "fdt_wf t'" and "length (ft_slots t') = length (ft_slots t)"
    and "s' = (if res = Inl TimeToLive then s else snd (admit s))"
proof -
  define reg where "reg = new_registration source ttl now"
  have addr: "rg_address reg = source" by (simp add: reg_def new_registration_def)
  obtain b s1 where ad: "admit s = (b, s1)" by fastforce
  have quota: "length (filter (\<lambda>e. sa_ip (rg_address e) = sa_ip source) (registrations t))
      = card {e \<in> set (registrations t). sa_ip (rg_address e) = sa_ip source}"
    using wf by (simp add: card_filter_distinct [of rg_address] fdt_wf_def)
  note rep = fdt_replace_refines [OF wf, of reg, unfolded addr]
  note app = fdt_append_refines [OF wf, of reg, unfolded addr]
  note d = admit_and_store_def [of source ttl now limits reserved admit t s, folded reg_def]
  have "((res, registrations t')
           = register_spec (length (ft_slots t)) source ttl now limits reserved (fst (admit s)) (registrations t))
      \<and> fdt_wf t' \<and> length (ft_slots t') = length (ft_slots t)
      \<and> s' = (if res = Inl TimeToLive then s else snd (admit s))"
  proof (cases "ttl = 0 \<or> ttl < rl_min_ttl limits \<or> rl_max_ttl limits < ttl")
    case True
    then show ?thesis using res wf by (auto simp: d register_spec_def Let_def)
  next
    case ttl: False
    show ?thesis
    proof (cases b)
      case False
      then show ?thesis using res wf ad ttl by (auto simp: d register_spec_def Let_def)
    next
      case b: True
      show ?thesis
      proof (cases "position (\<lambda>e. rg_address e = source) (registrations t)")
        case (Some i)
        then have "source \<in> rg_address ` set (registrations t)"
          using position_Some by (metis (mono_tags, lifting) imageI nth_mem)
        then show ?thesis
          using res wf ad ttl b Some rep [OF Some]
          by (auto simp: d register_spec_def Let_def simp flip: reg_def)
      next
        case None
        then have "source \<notin> rg_address ` set (registrations t)" by auto
        then show ?thesis
          using res wf ad ttl b None app quota length_registrations [OF wf]
          by (auto simp: d register_spec_def Let_def simp flip: reg_def split: if_splits reservation.splits)
      qed
    qed
  qed
  then show "(res, registrations t')
           = register_spec (length (ft_slots t)) source ttl now limits reserved (fst (admit s)) (registrations t)"
    and "fdt_wf t'" and "length (ft_slots t') = length (ft_slots t)"
    and "s' = (if res = Inl TimeToLive then s else snd (admit s))" by blast+
qed

lemma register_wf:
  assumes "fdt_wf t" "register source ttl now limits reserved admit t s = (out, t', s')"
  shows "fdt_wf t'" and "length (ft_slots t') = length (ft_slots t)"
    and "ro_purged out = length (filter (\<lambda>e. is_expired_at e now) (registrations t))"
    and "(ro_result out, registrations t') = register_spec (length (ft_slots t)) source ttl now limits reserved
           (fst (admit s)) (fdt_live_at now t)"
    and "s' = (if ro_result out = Inl TimeToLive then s else snd (admit s))"
proof -
  obtain p t1 where p: "purge now t = (p, t1)" by fastforce
  with purge_refines [OF assms(1), of now]
  have t1: "fdt_wf t1" "length (ft_slots t1) = length (ft_slots t)" "registrations t1 = fdt_live_at now t"
    "p = length (filter (\<lambda>e. is_expired_at e now) (registrations t))" by auto
  obtain res t2 s2 where a: "admit_and_store source ttl now limits reserved admit t1 s = (res, t2, s2)"
    by (metis prod_cases3)
  have eq: "out = \<lparr>ro_result = res, ro_purged = p\<rparr>" "t' = t2" "s' = s2"
    using assms(2) p a by (simp_all add: register_def)
  note r = admit_and_store_refines [OF t1(1) a]
  show "fdt_wf t'" "length (ft_slots t') = length (ft_slots t)"
    "ro_purged out = length (filter (\<lambda>e. is_expired_at e now) (registrations t))"
    "(ro_result out, registrations t') = register_spec (length (ft_slots t)) source ttl now limits reserved
           (fst (admit s)) (fdt_live_at now t)"
    "s' = (if ro_result out = Inl TimeToLive then s else snd (admit s))"
    using r t1 by (simp_all add: eq)
qed

lemma restore_refines:
  assumes wf: "fdt_wf t" and res: "restore reg t = (res, t')"
  shows "fdt_wf t'" and "length (ft_slots t') = length (ft_slots t)"
    and "(\<exists>u. res = Inr u) \<longrightarrow> registrations t' = store_row reg (registrations t)"
    and "(\<exists>e. res = Inl e) \<longrightarrow> t' = t \<and> length (registrations t) = length (ft_slots t)
           \<and> rg_address reg \<notin> rg_address ` set (registrations t)
           \<and> res = Inl \<lparr>stf_needed = length (ft_slots t) + 1, stf_available = length (ft_slots t)\<rparr>"
proof -
  have len: "ft_len t \<le> length (ft_slots t)" using wf by (simp add: fdt_wf_def)
  have "fdt_wf t' \<and> length (ft_slots t') = length (ft_slots t) \<and>
    ((\<exists>u. res = Inr u) \<longrightarrow> registrations t' = store_row reg (registrations t)) \<and>
    ((\<exists>e. res = Inl e) \<longrightarrow> t' = t \<and> length (registrations t) = length (ft_slots t)
           \<and> rg_address reg \<notin> rg_address ` set (registrations t)
           \<and> res = Inl \<lparr>stf_needed = length (ft_slots t) + 1, stf_available = length (ft_slots t)\<rparr>)"
  proof (cases "position (\<lambda>e. rg_address e = rg_address reg) (registrations t)")
    case (Some i)
    then show ?thesis using res fdt_replace_refines [OF wf Some] by (auto simp: restore_def)
  next
    case None
    then have "rg_address reg \<notin> rg_address ` set (registrations t)" by auto
    then show ?thesis
      using res wf None len fdt_append_refines [OF wf] length_registrations [OF wf]
      by (auto simp: restore_def split: if_splits)
  qed
  then show "fdt_wf t'" and "length (ft_slots t') = length (ft_slots t)"
    and "(\<exists>u. res = Inr u) \<longrightarrow> registrations t' = store_row reg (registrations t)"
    and "(\<exists>e. res = Inl e) \<longrightarrow> t' = t \<and> length (registrations t) = length (ft_slots t)
           \<and> rg_address reg \<notin> rg_address ` set (registrations t)
           \<and> res = Inl \<lparr>stf_needed = length (ft_slots t) + 1, stf_available = length (ft_slots t)\<rparr>" by blast+
qed

section \<open>How long a registration lasts\<close>

abbreviation (input) elapsed :: "instant \<Rightarrow> instant \<Rightarrow> nat" where
  "elapsed now earlier \<equiv> unat (inst_nanos now) - unat (inst_nanos earlier)"

lemma unat_ucast_u16_u64 [simp]: "unat (ucast (w :: u16) :: u64) = unat w"
proof -
  define m where "m = unat w"
  have "m < 65536" unfolding m_def by simp
  then have "take_bit 64 m = m" by (simp add: take_bit_nat_eq_self)
  then show ?thesis by (simp add: unsigned_ucast_eq flip: m_def)
qed

lemma grace_seconds: "unat GRACE_WHOLE_SECONDS = 30"
proof -
  have "as_nanos (from_secs 30) = 30000000000"
    by (simp add: from_secs_def u64_saturating_mul_def u64_checked_mul_def NANOS_PER_SEC_def)
  then show ?thesis
    by (simp add: GRACE_WHOLE_SECONDS_def GRACE_PERIOD_def as_secs_def div_rem_native NANOS_PER_SEC_def)
qed

lemma lifetime_seconds: "unat (ucast (w :: u16) + GRACE_WHOLE_SECONDS) = unat w + 30"
proof -
  define m where "m = unat w"
  have "m < 65536" unfolding m_def by simp
  then have "unat (ucast w :: u64) + unat GRACE_WHOLE_SECONDS < 2 ^ 64"
    by (simp add: grace_seconds flip: m_def)
  then show ?thesis using unat_add_lem [of "ucast w :: u64" GRACE_WHOLE_SECONDS] by (simp add: grace_seconds)
qed

lemma lifetime_nanos: "unat (as_nanos (lifetime r)) = (unat (rg_ttl r) + 30) * 1000000000"
proof -
  define m where "m = unat (rg_ttl r)"
  have "m < 65536" unfolding m_def by simp
  then have "(m + 30) * 1000000000 \<le> 2 ^ 64 - 1" by simp
  then show ?thesis
    by (simp add: lifetime_def from_secs_def unat_saturating_mul lifetime_seconds NANOS_PER_SEC_def flip: m_def)
qed

lemma is_expired_iff:
  "is_expired_at r now \<longleftrightarrow> (unat (rg_ttl r) + 30) * 1000000000 < elapsed now (rg_registered_at r)"
  by (simp add: is_expired_at_def less_duration_def word_less_nat_alt lifetime_nanos
      saturating_duration_since_def unat_saturating_sub)

lemma is_expired_mono: "is_expired_at r now \<Longrightarrow> now \<le> later \<Longrightarrow> is_expired_at r later"
  by (simp add: is_expired_iff less_eq_instant_def word_le_nat_alt)

lemma is_registered_iff:
  "fdt_wf t \<Longrightarrow> is_registered_at a now t
     \<longleftrightarrow> (\<exists>e \<in> set (registrations t). rg_address e = a \<and> \<not> is_expired_at e now)"
proof (cases "fdt_get a t")
  case None
  then have "a \<notin> rg_address ` set (registrations t)" by (simp add: fdt_rows.lookup_None_iff)
  with None show ?thesis by (auto simp: is_registered_at_def)
next
  case (Some e)
  moreover assume "fdt_wf t"
  ultimately show ?thesis
    by (simp add: is_registered_at_def) (metis fdt_rows.lookup_Some_iff option.inject)
qed

lemma seconds_remaining:
  "unat (seconds_remaining_at r now)
     = min 65535 (unat (rg_ttl r) + 30 - elapsed now (rg_registered_at r) div 1000000000)"
proof -
  define d where "d = saturating_duration_since now (rg_registered_at r)"
  define left where "left = u64_saturating_sub (ucast (rg_ttl r) + GRACE_WHOLE_SECONDS) (as_secs d)"
  have "unat (as_secs d) = elapsed now (rg_registered_at r) div 1000000000"
    by (simp add: as_secs_def div_rem_native NANOS_PER_SEC_def unat_div_distrib d_def
        saturating_duration_since_def unat_saturating_sub)
  then have l: "unat left = unat (rg_ttl r) + 30 - elapsed now (rg_registered_at r) div 1000000000"
    by (simp add: left_def unat_saturating_sub lifetime_seconds)
  have s: "seconds_remaining_at r now = (if unat left < 2 ^ 16 then ucast left else - 1)"
    by (simp add: seconds_remaining_at_def Let_def left_def d_def)
  show ?thesis
  proof (cases "unat left < 2 ^ 16")
    case True
    then have "unat (ucast left :: u16) = unat left"
      by (simp add: unsigned_ucast_eq unsigned_take_bit_eq take_bit_nat_eq_self)
    then show ?thesis using True l by (simp add: s)
  next
    case False
    moreover have "unat (- 1 :: u16) = 65535" by (simp add: unsigned_minus_1_eq_mask mask_eq_exp_minus_1)
    ultimately show ?thesis using l by (simp add: s)
  qed
qed

section \<open>Reading the table\<close>

lemma wire_loop_result:
  "written \<le> length out \<Longrightarrow> wire_loop now live written out =
     (if written + length live \<le> length out
      then (Inr (written + length live), copy_into out written (map (\<lambda>e. wire_entry_at e now) live))
      else (Inl \<lparr>stf_needed = written + length live, stf_available = length out\<rparr>,
            copy_into out written (map (\<lambda>e. wire_entry_at e now) (take (length out - written) live))))"
proof (induction live arbitrary: written out)
  case Nil
  then show ?case by (simp add: copy_into_def)
next
  case (Cons e live)
  show ?case
  proof (cases "written < length out")
    case True
    have c: "copy_into (out[written := x]) (Suc written) xs = copy_into out written (x # xs)" for x xs
      using True by (simp add: copy_into_def take_Suc_conv_app_nth)
    show ?thesis
      using Cons.IH [of "written + 1" "out[written := wire_entry_at e now]"] True
      by (auto simp: c Suc_diff_Suc take_Cons' )
  next
    case False
    then show ?thesis using Cons.prems by (simp add: copy_into_def)
  qed
qed

lemma wire_entries_result:
  "wire_entries now out t =
     (let live = fdt_live_at now t in
      if length live \<le> length out
      then (Inr (Typed (map (\<lambda>e. wire_entry_at e now) live)), copy_into out 0 (map (\<lambda>e. wire_entry_at e now) live))
      else (Inl \<lparr>stf_needed = length live, stf_available = length out\<rparr>,
            map (\<lambda>e. wire_entry_at e now) (take (length out) live)))"
  by (simp add: wire_entries_def wire_loop_result Let_def copy_into_def)

section \<open>Correctness of the foreign device table\<close>

text \<open>
  Every state a BBMD's table gets to: requests handled under the same limits, deletions and
  purges, in any order, while the caller's own state may change as it likes.
\<close>

inductive fdt_reach :: "nat \<Rightarrow> registration_limits \<Rightarrow> fdt \<times> 's \<Rightarrow> bool" for n limits where
  start: "fdt_reach n limits (fdt_new n, s)"
| host: "fdt_reach n limits (t, s) \<Longrightarrow> fdt_reach n limits (t, s')"
| register: "fdt_reach n limits (t, s) \<Longrightarrow>
    register source ttl now limits reserved admit t s = (out, t', s') \<Longrightarrow> fdt_reach n limits (t', s')"
| delete: "fdt_reach n limits (t, s) \<Longrightarrow> fdt_reach n limits (snd (fdt_delete a t), s)"
| purge: "fdt_reach n limits (t, s) \<Longrightarrow> fdt_reach n limits (snd (purge now t), s)"

definition within_limits :: "registration_limits \<Rightarrow> registration list \<Rightarrow> bool" where
  "within_limits limits rows \<longleftrightarrow>
     (\<forall>ip. card {e \<in> set rows. sa_ip (rg_address e) = ip} \<le> rl_max_entries_per_source limits) \<and>
     (\<forall>e \<in> set rows. rg_ttl e \<noteq> 0 \<and> rl_min_ttl limits \<le> rg_ttl e \<and> rg_ttl e \<le> rl_max_ttl limits)"

lemma within_limits_filter: "within_limits limits rows \<Longrightarrow> within_limits limits (filter P rows)"
  unfolding within_limits_def
proof (elim conjE, intro conjI allI)
  fix ip assume "\<forall>ip. card {e \<in> set rows. sa_ip (rg_address e) = ip} \<le> rl_max_entries_per_source limits"
  moreover have "card {e \<in> set (filter P rows). sa_ip (rg_address e) = ip}
      \<le> card {e \<in> set rows. sa_ip (rg_address e) = ip}" by (rule card_mono) auto
  ultimately show "card {e \<in> set (filter P rows). sa_ip (rg_address e) = ip} \<le> rl_max_entries_per_source limits"
    using le_trans by blast
qed simp

lemma card_store_row:
  assumes "sa_ip (rg_address reg) = ip \<Longrightarrow> rg_address reg \<notin> rg_address ` set rows
      \<Longrightarrow> card {e \<in> set rows. sa_ip (rg_address e) = ip} < m"
    and "card {e \<in> set rows. sa_ip (rg_address e) = ip} \<le> m"
  shows "card {e \<in> set (store_row reg rows). sa_ip (rg_address e) = ip} \<le> m"
proof -
  let ?S = "{e \<in> set rows. sa_ip (rg_address e) = ip}"
  show ?thesis
  proof (cases "sa_ip (rg_address reg) = ip")
    case True
    let ?T = "{e \<in> ?S. rg_address e \<noteq> rg_address reg}"
    have eq: "{e \<in> set (store_row reg rows). sa_ip (rg_address e) = ip} = insert reg ?T"
      using True by (auto simp: set_store_row)
    have "card (insert reg ?T) \<le> Suc (card ?T)" by (simp add: card_insert_if)
    moreover have "card ?T < m"
    proof (cases "rg_address reg \<in> rg_address ` set rows")
      case True
      then obtain e where "e \<in> set rows" "rg_address e = rg_address reg" by (metis imageE)
      then have "e \<in> ?S" "e \<notin> ?T" using \<open>sa_ip (rg_address reg) = ip\<close> by simp_all
      then have "?T \<subset> ?S" by blast
      then have "card ?T < card ?S" by (rule psubset_card_mono [rotated]) simp
      then show ?thesis using assms(2) by simp
    next
      case False
      have "card ?T \<le> card ?S" by (rule card_mono) auto
      then show ?thesis using assms(1) [OF True False] by simp
    qed
    ultimately show ?thesis unfolding eq by simp
  next
    case False
    then have "{e \<in> set (store_row reg rows). sa_ip (rg_address e) = ip} \<subseteq> ?S" by (auto simp: set_store_row)
    then have "card {e \<in> set (store_row reg rows). sa_ip (rg_address e) = ip} \<le> card ?S"
      by (rule card_mono [rotated]) simp
    then show ?thesis using assms(2) by simp
  qed
qed

lemma within_limits_register:
  assumes "within_limits limits live"
    and "(res, rows) = register_spec capacity source ttl now limits reserved admitted live"
  shows "within_limits limits rows"
proof (cases "\<exists>k. res = Inr k")
  case False
  then have "rows = live" using assms(2) by (auto simp: register_spec_def Let_def split: if_splits)
  then show ?thesis using assms(1) by simp
next
  case True
  let ?reg = "new_registration source ttl now"
  have rows: "rows = store_row ?reg live" and ttl: "ttl \<noteq> 0" "rl_min_ttl limits \<le> ttl" "ttl \<le> rl_max_ttl limits"
    and quota: "source \<notin> rg_address ` set live
      \<Longrightarrow> card {e \<in> set live. sa_ip (rg_address e) = sa_ip source} < rl_max_entries_per_source limits"
    using True assms(2) by (auto simp: register_spec_def Let_def split: if_splits)
  have reg: "rg_address ?reg = source" "rg_ttl ?reg = ttl" by (simp_all add: new_registration_def)
  have "card {e \<in> set rows. sa_ip (rg_address e) = ip} \<le> rl_max_entries_per_source limits" for ip
    unfolding rows using quota assms(1) by (intro card_store_row) (auto simp: reg within_limits_def)
  moreover have "rg_ttl e \<noteq> 0 \<and> rl_min_ttl limits \<le> rg_ttl e \<and> rg_ttl e \<le> rl_max_ttl limits" if "e \<in> set rows" for e
    using that ttl assms(1) by (auto simp: rows set_store_row reg within_limits_def)
  ultimately show ?thesis by (simp add: within_limits_def)
qed

lemma register_step_keeps:
  assumes "fdt_wf t" "within_limits limits (registrations t)"
    and "register source ttl now limits reserved admit t s = (out, t', s')"
  shows "fdt_wf t' \<and> length (ft_slots t') = length (ft_slots t) \<and> within_limits limits (registrations t')"
  using register_wf [OF assms(1,3)] within_limits_register assms(2)
  by (metis fdt_live_at_def within_limits_filter)

text \<open>
  However requests, deletions and purges are interleaved, the foreign device table holds at
  most its capacity of registrations and each B/IP address once; no IPv4 address ever holds
  more registrations than the limit on one source, and every registration kept has a
  time-to-live within the limits it was admitted under.
\<close>

theorem fdt_invariant:
  assumes "fdt_reach n limits (t, s)"
  shows "length (ft_slots t) = n \<and> ft_len t \<le> n \<and> distinct (map rg_address (registrations t))
    \<and> within_limits limits (registrations t)"
proof -
  have "case x of (t, s) \<Rightarrow> fdt_wf t \<and> length (ft_slots t) = n \<and> within_limits limits (registrations t)"
    if "fdt_reach n limits x" for x :: "fdt \<times> 's"
    using that
  proof (induction rule: fdt_reach.induct)
    case (start s)
    then show ?case by (simp add: fdt_new_refines within_limits_def)
  next
    case (register t s source ttl now reserved admit out t' s')
    then show ?case using register_step_keeps [OF _ _ register.hyps(2)] by simp
  next
    case (delete t s a)
    then show ?case by (simp add: fdt_delete_refines within_limits_filter)
  next
    case (purge t s now)
    then show ?case by (simp add: purge_refines fdt_live_at_def within_limits_filter)
  qed simp
  from this [OF assms] show ?thesis by (simp add: fdt_wf_def)
qed

text \<open>A table with one registration, for the witnesses below.\<close>

definition one_device :: fdt where
  "one_device = \<lparr>ft_slots = [new_registration \<lparr>sa_ip = Ipv4Addr 192 0 2 7, sa_port = 47808\<rparr> 60 (Instant 5), EMPTY_SLOT],
     ft_len = 1\<rparr>"

lemma one_device_registered:
  "register \<lparr>sa_ip = Ipv4Addr 192 0 2 7, sa_port = 47808\<rparr> 60 (Instant 5) DEFAULT_LIMITS OrdinarySource
     (\<lambda>s. (True, s)) (fdt_new 2) () = (\<lparr>ro_result = Inr NewRegistration, ro_purged = 0\<rparr>, one_device, ())"
proof -
  have "replicate 2 EMPTY_SLOT = [EMPTY_SLOT, EMPTY_SLOT]" by (simp add: numeral_2_eq_2)
  then show ?thesis
    by (simp add: register_def purge_def fdt_retain_def fdt_new_def admit_and_store_def DEFAULT_LIMITS_def
        registrations_def one_device_def)
qed

theorem fdt_invariant_witness:
  "length (ft_slots one_device) = 2 \<and> ft_len one_device \<le> 2
   \<and> distinct (map rg_address (registrations one_device))
   \<and> within_limits DEFAULT_LIMITS (registrations one_device)"
  by (rule fdt_invariant [OF fdt_reach.register [OF fdt_reach.start one_device_registered]])

text \<open>What an accepted registration does to the table at later times.\<close>

lemma register_lifetime:
  assumes wf: "fdt_wf t"
    and reg: "register source ttl now limits reserved admit t s = (out, t', s')"
    and ok: "ro_result out = Inr k"
    and later: "now \<le> later"
  shows "fdt_get source t' = Some (new_registration source ttl now)
    \<and> (is_registered_at source later t'
         \<longleftrightarrow> unat (inst_nanos later) - unat (inst_nanos now) \<le> (unat ttl + 30) * 1000000000)
    \<and> (\<forall>a. a \<noteq> source \<longrightarrow> is_registered_at a later t' = is_registered_at a later t)"
proof -
  let ?reg = "new_registration source ttl now"
  have wf': "fdt_wf t'" and spec: "(ro_result out, registrations t') = register_spec (length (ft_slots t))
      source ttl now limits reserved (fst (admit s)) (fdt_live_at now t)"
    using register_wf [OF wf reg] by simp_all
  then have rows: "registrations t' = store_row ?reg (fdt_live_at now t)"
    using ok by (auto simp: register_spec_def Let_def split: if_splits)
  have r: "rg_address ?reg = source" "rg_ttl ?reg = ttl" "rg_registered_at ?reg = now"
    by (simp_all add: new_registration_def)
  have get: "fdt_get source t' = Some ?reg"
    using wf' by (simp add: fdt_rows.lookup_Some_iff rows set_store_row r)
  then have own: "is_registered_at source later t'
         \<longleftrightarrow> unat (inst_nanos later) - unat (inst_nanos now) \<le> (unat ttl + 30) * 1000000000"
    by (simp add: is_registered_at_def is_expired_iff r not_less)
  have "is_registered_at a later t' = is_registered_at a later t" if "a \<noteq> source" for a
    using that wf wf' is_expired_mono [OF _ later]
    by (auto simp: is_registered_iff rows set_store_row r fdt_live_at_def)
  then show ?thesis using get own by blast
qed

text \<open>
  C34: A registration a BBMD accepts makes its device known for exactly its time-to-live and the
  30-second grace period, to the nanosecond and inclusive: from then on it is registered at
  a later time if and only if no more than that has passed, whatever it held before. No
  other device's standing changes, although the lapsed ones were purged on the way.
\<close>

theorem registration_lifetime:
  assumes wf: "fdt_wf t"
    and reg: "register source ttl now limits reserved admit t s = (out, t', s')"
    and ok: "ro_result out = Inr k"
    and later: "now \<le> later"
  shows "fdt_get source t' = Some (new_registration source ttl now)
    \<and> (is_registered_at source later t'
         \<longleftrightarrow> unat (inst_nanos later) - unat (inst_nanos now) \<le> (unat ttl + 30) * 1000000000)
    \<and> (\<forall>a. a \<noteq> source \<longrightarrow> is_registered_at a later t' = is_registered_at a later t)"
  by (rule register_lifetime [OF assms])

theorem registration_lifetime_witness:
  "is_registered_at \<lparr>sa_ip = Ipv4Addr 192 0 2 7, sa_port = 47808\<rparr> (Instant 90000000005) one_device
   \<and> \<not> is_registered_at \<lparr>sa_ip = Ipv4Addr 192 0 2 7, sa_port = 47808\<rparr> (Instant 90000000006) one_device"
  using registration_lifetime [OF _ one_device_registered, of NewRegistration "Instant 90000000005"]
    registration_lifetime [OF _ one_device_registered, of NewRegistration "Instant 90000000006"]
  by (simp add: fdt_new_refines less_eq_instant_def)

text \<open>
  Handling a Register-Foreign-Device over the array does what the rules of the table say
  over the list of live registrations: the lapsed ones go first and are counted; then the
  time-to-live, the caller's check, renewal in place, the quota of the IPv4 address and the
  room left to this kind of source are looked at in that order, and each refusal leaves the
  live registrations as they were. The caller's check runs once, and only for an acceptable
  time-to-live.
\<close>

theorem register_refines:
  assumes "fdt_wf t" "register source ttl now limits reserved admit t s = (out, t', s')"
  shows "fdt_wf t'
    \<and> (ro_result out, registrations t') = register_spec (length (ft_slots t)) source ttl now limits reserved
         (fst (admit s)) (filter (\<lambda>e. \<not> is_expired_at e now) (registrations t))
    \<and> ro_purged out = length (filter (\<lambda>e. is_expired_at e now) (registrations t))
    \<and> s' = (if ro_result out = Inl TimeToLive then s else snd (admit s))"
  using register_wf [OF assms] by (simp add: fdt_live_at_def)

theorem register_refines_witness:
  "register_spec 2 \<lparr>sa_ip = Ipv4Addr 192 0 2 7, sa_port = 47808\<rparr> 60 (Instant 5) DEFAULT_LIMITS OrdinarySource
     True [] = (Inr NewRegistration, registrations one_device)"
  using register_refines [OF _ one_device_registered] by (simp add: fdt_new_refines)

end
