(* ===== verification/Bbmd_Bdt.thy ===== *)
theory Bbmd_Bdt
  imports Bip_Codec Bbmd_Table
begin

text \<open>
  A BBMD's broadcast distribution table (\<open>crates/bacnet-bip-core/src/bbmd/bdt.rs\<close>), the address
  ranges behind a NAT router (\<open>bbmd/nat.rs\<close>) and the node's subnet (\<open>subnet.rs\<close>). The size \<open>N\<close>
  of the array of rows is the length of the list that models it. Masks and addresses are
  32-bit words where the code takes their bits.
\<close>

unbundle bit_operations_syntax

section \<open>Addresses as bits\<close>

definition ip_to_bits :: "ipv4_addr \<Rightarrow> u32" where
  "ip_to_bits ip = (case ip of Ipv4Addr a b c d \<Rightarrow> u32_be a b c d)"

definition ip_from_bits :: "u32 \<Rightarrow> ipv4_addr" where
  "ip_from_bits w = Ipv4Addr (ucast (drop_bit 24 w)) (ucast (drop_bit 16 w)) (ucast (drop_bit 8 w)) (ucast w)"

definition count_ones :: "u32 \<Rightarrow> nat" where
  "count_ones w = length (filter (bit w) [0..<32])"

section \<open>Rows\<close>

definition TWO_HOP_MASK :: ipv4_addr where "TWO_HOP_MASK = Ipv4Addr 255 255 255 255"

definition new_bdt_entry :: "socket_addr_v4 \<Rightarrow> ipv4_addr \<Rightarrow> bdt_entry" where
  "new_bdt_entry address msk = \<lparr>be_address = address, be_mask = msk\<rparr>"

definition EMPTY_ROW :: bdt_entry where
  "EMPTY_ROW = new_bdt_entry \<lparr>sa_ip = Ipv4Addr 0 0 0 0, sa_port = 0\<rparr> (Ipv4Addr 0 0 0 0)"

definition distribution_address :: "bdt_entry \<Rightarrow> socket_addr_v4" where
  "distribution_address row =
     (let ip = ip_to_bits (sa_ip (be_address row)) OR NOT (ip_to_bits (be_mask row))
      in \<lparr>sa_ip = ip_from_bits ip, sa_port = sa_port (be_address row)\<rparr>)"

datatype entry_error =
    ZeroPort
  | UnspecifiedAddress
  | LimitedBroadcastAddress
  | MulticastAddress
  | NonContiguousMask
  | MaskTooWide
  | NetworkAddress
  | DirectedBroadcastAddress
  | LimitedBroadcastTarget

datatype bdt_error =
    InvalidRow bdt_entry entry_error
  | ConflictingMasks bdt_entry
  | OneHopBehindNat bdt_entry
  | OneHopForGroup bdt_entry
  | NoOwnRow socket_addr_v4
  | BdtCapacity nat nat

definition validate_entry :: "bdt_entry \<Rightarrow> entry_error + unit" where
  "validate_entry entry =
     (let ip = ip_to_bits (sa_ip (be_address entry));
          msk = ip_to_bits (be_mask entry);
          host = NOT msk;
          contiguous = (host AND (host + 1) = 0);
          prefix = count_ones msk;
          first_octet = drop_bit 24 ip
      in if sa_port (be_address entry) = 0 then Inl ZeroPort
         else if ip = 0 then Inl UnspecifiedAddress
         else if ip = - 1 then Inl LimitedBroadcastAddress
         else if 224 \<le> first_octet \<and> first_octet \<le> 239 then Inl MulticastAddress
         else if \<not> contiguous then Inl NonContiguousMask
         else if prefix < 8 then Inl MaskTooWide
         else if prefix < 32 \<and> ip AND host = 0 then Inl NetworkAddress
         else if prefix < 32 \<and> ip OR msk = - 1 then Inl DirectedBroadcastAddress
         else if ip OR host = - 1 then Inl LimitedBroadcastTarget
         else Inr ())"

section \<open>Canonical tables\<close>

record canonical =
  cn_stored :: nat
  cn_distinct :: nat

text \<open>
  The loop of \<open>canonical_rows\<close> over the rows from \<open>index\<close> on, with the storage, the two counts
  and the index of the first distinct row that found no room.
\<close>

fun canonical_loop :: "bdt_entry list \<Rightarrow> nat \<Rightarrow> bdt_entry list \<Rightarrow> bdt_entry list \<Rightarrow> nat \<Rightarrow> nat \<Rightarrow> nat option
    \<Rightarrow> (bdt_error + canonical) \<times> bdt_entry list" where
  "canonical_loop table index [] out stored dist overflow_from =
     (Inr \<lparr>cn_stored = stored, cn_distinct = dist\<rparr>, out)"
| "canonical_loop table index (entry # rest) out stored dist overflow_from =
     (case validate_entry entry of
        Inl reason \<Rightarrow> (Inl (InvalidRow entry reason), out)
      | Inr _ \<Rightarrow>
          let earlier = (case overflow_from of
                None \<Rightarrow> find (\<lambda>row. be_address row = be_address entry) (take stored out)
              | Some from \<Rightarrow> find (\<lambda>row. be_address row = be_address entry)
                                (take stored out @ drop from (take index table)))
          in (case earlier of
                Some row \<Rightarrow>
                  if be_mask row \<noteq> be_mask entry then (Inl (ConflictingMasks entry), out)
                  else canonical_loop table (index + 1) rest out stored dist overflow_from
              | None \<Rightarrow>
                  if stored < length out \<and> overflow_from = None
                  then canonical_loop table (index + 1) rest (out[stored := entry]) (stored + 1) (dist + 1) overflow_from
                  else canonical_loop table (index + 1) rest out stored (dist + 1)
                         (case overflow_from of None \<Rightarrow> Some index | Some f \<Rightarrow> Some f)))"

definition canonical_rows :: "bdt_entry entries \<Rightarrow> bdt_entry list \<Rightarrow> (bdt_error + canonical) \<times> bdt_entry list" where
  "canonical_rows table out = (let rows = entries_iter bdt_ops table in canonical_loop rows 0 rows out 0 0 None)"

definition canonicalize :: "bdt_entry entries \<Rightarrow> bdt_entry list \<Rightarrow> (bdt_error + nat) \<times> bdt_entry list" where
  "canonicalize table out =
     (case canonical_rows table out of
        (Inl e, out) \<Rightarrow> (Inl e, out)
      | (Inr found, out) \<Rightarrow>
          if cn_distinct found > cn_stored found then (Inl (BdtCapacity (cn_distinct found) (length out)), out)
          else (Inr (cn_stored found), out))"

section \<open>The table\<close>

record bdt =
  bd_rows :: "bdt_entry list"
  bd_len :: nat
  bd_own :: socket_addr_v4
  bd_own_row_appended :: bool
  bd_behind_nat :: bool
  bd_serves_group :: bool

definition bdt_new :: "nat \<Rightarrow> socket_addr_v4 \<Rightarrow> bdt" where
  "bdt_new n own =
     \<lparr>bd_rows = replicate n EMPTY_ROW, bd_len = 0, bd_own = own, bd_own_row_appended = False,
      bd_behind_nat = False, bd_serves_group = False\<rparr>"

definition with_nat :: "socket_addr_v4 \<Rightarrow> bool \<Rightarrow> bdt \<Rightarrow> bdt" where
  "with_nat own behind_nat t =
     (bdt_new (length (bd_rows t)) own)\<lparr>bd_behind_nat := behind_nat, bd_serves_group := bd_serves_group t\<rparr>"

definition rows :: "bdt \<Rightarrow> bdt_entry list" where
  "rows t = take (bd_len t) (bd_rows t)"

definition bdt_entries :: "bdt \<Rightarrow> bdt_entry entries" where
  "bdt_entries t = Typed (rows t)"

definition configured_rows :: "bdt \<Rightarrow> bdt_entry list" where
  "configured_rows t = take (bd_len t - of_bool (bd_own_row_appended t)) (bd_rows t)"

definition bdt_is_empty :: "bdt \<Rightarrow> bool" where "bdt_is_empty t \<longleftrightarrow> bd_len t = 0"

definition row_for :: "socket_addr_v4 \<Rightarrow> bdt \<Rightarrow> bdt_entry option" where
  "row_for address t = find (\<lambda>row. be_address row = address) (rows t)"

definition bdt_contains :: "socket_addr_v4 \<Rightarrow> bdt \<Rightarrow> bool" where
  "bdt_contains address t \<longleftrightarrow> row_for address t \<noteq> None"

definition check_group_row :: "socket_addr_v4 \<Rightarrow> bdt_entry list \<Rightarrow> bdt_error + unit" where
  "check_group_row own rs =
     (case find (\<lambda>row. be_address row = own \<and> be_mask row \<noteq> TWO_HOP_MASK) rs of
        Some entry \<Rightarrow> Inl (OneHopForGroup entry)
      | None \<Rightarrow> Inr ())"

definition set_serves_group :: "bool \<Rightarrow> bdt \<Rightarrow> (bdt_error + unit) \<times> bdt" where
  "set_serves_group serves t =
     (case (if serves then check_group_row (bd_own t) (rows t) else Inr ()) of
        Inl e \<Rightarrow> (Inl e, t)
      | Inr _ \<Rightarrow> (Inr (), t\<lparr>bd_serves_group := serves\<rparr>))"

definition ensure_own_row :: "bdt \<Rightarrow> bdt" where
  "ensure_own_row t =
     (if \<not> bdt_contains (bd_own t) t
      then t\<lparr>bd_rows := (bd_rows t)[bd_len t := new_bdt_entry (bd_own t) TWO_HOP_MASK],
             bd_len := bd_len t + 1, bd_own_row_appended := True\<rparr>
      else t)"

text \<open>
  \<open>set\<close>, with its early returns in order. The table \<open>next\<close> it builds takes the place of the
  old one only at the end.
\<close>

definition set_checks :: "bdt_entry list \<Rightarrow> canonical \<Rightarrow> bdt \<Rightarrow> bdt_error + unit" where
  "set_checks table found t =
     (let has_own = list_ex (\<lambda>row. be_address row = bd_own t) table;
          needed = cn_distinct found + of_bool (\<not> has_own \<and> \<not> bd_behind_nat t) in
      try_res (if bd_behind_nat t
               then case find (\<lambda>row. be_mask row \<noteq> TWO_HOP_MASK) table of
                      Some entry \<Rightarrow> Inl (OneHopBehindNat entry)
                    | None \<Rightarrow> if \<not> has_own \<and> cn_distinct found > 0 then Inl (NoOwnRow (bd_own t)) else Inr ()
               else Inr ()) (\<lambda>_.
      try_res (if bd_serves_group t then check_group_row (bd_own t) table else Inr ()) (\<lambda>_.
      if needed > length (bd_rows t) then Inl (BdtCapacity needed (length (bd_rows t))) else Inr ())))"

definition bdt_set :: "bdt_entry entries \<Rightarrow> bdt \<Rightarrow> (bdt_error + unit) \<times> bdt" where
  "bdt_set table t =
     (let next_t = with_nat (bd_own t) (bd_behind_nat t) t in
      case canonical_rows table (bd_rows next_t) of
        (Inl e, _) \<Rightarrow> (Inl e, t)
      | (Inr found, stored_rows) \<Rightarrow>
          (case set_checks (entries_iter bdt_ops table) found t of
             Inl e \<Rightarrow> (Inl e, t)
           | Inr _ \<Rightarrow>
               let next_t = next_t\<lparr>bd_rows := stored_rows, bd_len := cn_stored found\<rparr>
               in (Inr (), if bd_behind_nat t then next_t else ensure_own_row next_t)))"

text \<open>The rows of \<open>table\<close> but \<open>drop\<close>'s, copied to an array of \<open>n\<close> rows; None when they don't fit.\<close>

fun kept_rows :: "nat \<Rightarrow> bdt_entry list \<Rightarrow> bdt_entry list \<Rightarrow> bdt_entry list option" where
  "kept_rows n [] kept = Some kept"
| "kept_rows n (row # rest) kept = (if length kept < n then kept_rows n rest (kept @ [row]) else None)"

definition set_without :: "bdt_entry entries \<Rightarrow> socket_addr_v4 option \<Rightarrow> bdt \<Rightarrow> (bdt_error + unit) \<times> bdt" where
  "set_without table drop_addr t =
     (case drop_addr of
        None \<Rightarrow> bdt_set table t
      | Some d \<Rightarrow>
          (case kept_rows (length (bd_rows t))
                  (filter (\<lambda>row. be_address row \<noteq> d) (entries_iter bdt_ops table)) [] of
             None \<Rightarrow> bdt_set table t
           | Some kept \<Rightarrow> bdt_set (Typed kept) t))"

definition reconfigure :: "socket_addr_v4 \<Rightarrow> bool \<Rightarrow> socket_addr_v4 option \<Rightarrow> bdt \<Rightarrow> (bdt_error + unit) \<times> bdt" where
  "reconfigure own behind_nat drop_addr t =
     (if bdt_is_empty t \<and> \<not> bd_behind_nat t
      then (Inr (), t\<lparr>bd_own := own, bd_behind_nat := behind_nat\<rparr>)
      else case set_without (Typed (configured_rows t)) drop_addr (with_nat own behind_nat t) of
             (Inl e, _) \<Rightarrow> (Inl e, t)
           | (Inr _, next_t) \<Rightarrow> (Inr (), next_t))"

definition set_own_address :: "socket_addr_v4 \<Rightarrow> bdt \<Rightarrow> (bdt_error + unit) \<times> bdt" where
  "set_own_address own t =
     (if own = bd_own t then (Inr (), t)
      else if bd_behind_nat t then reconfigure own True None t
      else let configured = configured_rows t in
        case (if bd_serves_group t then check_group_row own configured else Inr ()) of
          Inl e \<Rightarrow> (Inl e, t)
        | Inr _ \<Rightarrow>
            let has_own = list_ex (\<lambda>row. be_address row = own) configured;
                needed = length configured + of_bool (\<not> has_own)
            in if needed > length (bd_rows t) then (Inl (BdtCapacity needed (length (bd_rows t))), t)
               else let t = (if bd_own_row_appended t
                             then t\<lparr>bd_len := bd_len t - 1, bd_own_row_appended := False\<rparr> else t)
                    in (Inr (), ensure_own_row (t\<lparr>bd_own := own\<rparr>)))"

section \<open>Address ranges\<close>

record private_range =
  pr_network :: ipv4_addr
  pr_prefix :: octet

datatype nat_error = NatPrefix | TooManyRanges

definition mask_bits :: "octet \<Rightarrow> u32" where
  "mask_bits prefix = (if prefix = 0 then 0 else push_bit (32 - unat prefix) (- 1))"

definition new_private_range :: "ipv4_addr \<Rightarrow> octet \<Rightarrow> nat_error + private_range" where
  "new_private_range network prefix =
     (if prefix > 32 then Inl NatPrefix
      else let bits = ip_to_bits network AND mask_bits prefix
           in Inr \<lparr>pr_network = ip_from_bits bits, pr_prefix = prefix\<rparr>)"

definition range_contains :: "private_range \<Rightarrow> ipv4_addr \<Rightarrow> bool" where
  "range_contains rng ip \<longleftrightarrow> (ip_to_bits ip XOR ip_to_bits (pr_network rng)) AND mask_bits (pr_prefix rng) = 0"

definition is_rfc1918 :: "ipv4_addr \<Rightarrow> bool" where
  "is_rfc1918 ip =
     (case ip of Ipv4Addr a b c d \<Rightarrow> a = 10 \<or> (a = 172 \<and> b AND 0xF0 = 16) \<or> (a = 192 \<and> b = 168))"

definition MAX_PRIVATE_RANGES :: nat where "MAX_PRIVATE_RANGES = 4"

record nat_config =
  nt_global :: socket_addr_v4
  nt_ranges :: "private_range list"
  nt_len :: octet

definition UNUSED_RANGE :: private_range where
  "UNUSED_RANGE = \<lparr>pr_network = Ipv4Addr 0 0 0 0, pr_prefix = 32\<rparr>"

definition new_nat :: "socket_addr_v4 \<Rightarrow> nat_config" where
  "new_nat global = \<lparr>nt_global = global, nt_ranges = replicate MAX_PRIVATE_RANGES UNUSED_RANGE, nt_len = 0\<rparr>"

definition private_ranges :: "nat_config \<Rightarrow> private_range list" where
  "private_ranges n = take (unat (nt_len n)) (nt_ranges n)"

definition add_private_range :: "private_range \<Rightarrow> nat_config \<Rightarrow> (nat_error + unit) \<times> nat_config" where
  "add_private_range rng n =
     (if rng \<in> set (private_ranges n) then (Inr (), n)
      else if unat (nt_len n) < length (nt_ranges n)
           then (Inr (), n\<lparr>nt_ranges := (nt_ranges n)[unat (nt_len n) := rng], nt_len := nt_len n + 1\<rparr>)
           else (Inl TooManyRanges, n))"

definition is_private :: "ipv4_addr \<Rightarrow> nat_config \<Rightarrow> bool" where
  "is_private ip n \<longleftrightarrow> is_rfc1918 ip \<or> list_ex (\<lambda>rng. range_contains rng ip) (private_ranges n)"

section \<open>The subnet\<close>

record local_subnet =
  ls_broadcast :: socket_addr_v4
  ls_mask :: "ipv4_addr option"
  ls_alone :: bool
  ls_directed :: "ipv4_addr option"

definition new_local_subnet :: "socket_addr_v4 \<Rightarrow> local_subnet" where
  "new_local_subnet broadcast = \<lparr>ls_broadcast = broadcast, ls_mask = None, ls_alone = False, ls_directed = None\<rparr>"

definition local_subnet_member :: "socket_addr_v4 \<Rightarrow> ipv4_addr option \<Rightarrow> local_subnet" where
  "local_subnet_member group_addr directed =
     \<lparr>ls_broadcast = group_addr, ls_mask = None, ls_alone = False, ls_directed = directed\<rparr>"

text \<open>\<open>Ipv4Addr::is_multicast\<close>: the first octet is 224 to 239.\<close>

definition ip_is_multicast :: "ipv4_addr \<Rightarrow> bool" where
  "ip_is_multicast ip = (case ip of Ipv4Addr a b c d \<Rightarrow> 224 \<le> a \<and> a \<le> 239)"

definition is_group :: "local_subnet \<Rightarrow> bool" where
  "is_group subnet = ip_is_multicast (sa_ip (ls_broadcast subnet))"

section \<open>Rows as a list\<close>

text \<open>
  What \<open>canonical_rows\<close> comes to with room for everything: each row checked in turn, and kept
  unless an earlier one has its address.
\<close>

fun check_rows :: "bdt_entry list \<Rightarrow> bdt_entry list \<Rightarrow> bdt_error + bdt_entry list" where
  "check_rows seen [] = Inr seen"
| "check_rows seen (entry # rest) =
     (case validate_entry entry of
        Inl reason \<Rightarrow> Inl (InvalidRow entry reason)
      | Inr _ \<Rightarrow>
          (case find (\<lambda>row. be_address row = be_address entry) seen of
             Some row \<Rightarrow> if be_mask row \<noteq> be_mask entry then Inl (ConflictingMasks entry) else check_rows seen rest
           | None \<Rightarrow> check_rows (seen @ [entry]) rest))"

lemma bdt_entry_eqI: "be_address r = be_address e \<Longrightarrow> be_mask r = be_mask e \<Longrightarrow> r = (e :: bdt_entry)"
  by (cases r; cases e) simp

lemma find_key_cong:
  assumes "inj_on key (set xs)" "set xs = set ys"
  shows "find (\<lambda>r. key r = k) xs = find (\<lambda>r. key r = k) ys"
proof (cases "find (\<lambda>r. key r = k) xs")
  case None
  then show ?thesis using assms(2) by (metis (mono_tags, lifting) find_None_iff)
next
  case (Some r)
  then have r: "r \<in> set ys" "key r = k" using assms(2) by (metis (mono_tags) find_Some_iff nth_mem)+
  then obtain r' where r': "find (\<lambda>r. key r = k) ys = Some r'"
    by (metis (mono_tags, lifting) find_None_iff option.exhaust)
  then have "r' \<in> set xs" "key r' = k" using assms(2) by (metis (mono_tags) find_Some_iff nth_mem)+
  then have "r' = r" using r assms by (metis inj_onD)
  then show ?thesis using Some r' by simp
qed

text \<open>
  The loop follows that list: up to the storage's length the rows are stored, beyond it they
  are only counted, and the lookup in the candidate finds what the list has.
\<close>

definition canonical_inv :: "bdt_entry list \<Rightarrow> nat \<Rightarrow> bdt_entry list \<Rightarrow> bdt_entry list \<Rightarrow> nat \<Rightarrow> nat \<Rightarrow> nat option \<Rightarrow> bool" where
  "canonical_inv table index seen out stored dist overflow_from \<longleftrightarrow>
     index \<le> length table \<and> set seen = set (take index table) \<and> distinct (map be_address seen) \<and> dist = length seen \<and>
     stored = min (length out) (length seen) \<and> take stored out = take stored seen \<and>
     (overflow_from = None \<longrightarrow> length seen \<le> length out) \<and>
     (\<forall>fr. overflow_from = Some fr \<longrightarrow> length out < length seen \<and> fr \<le> index \<and> set (take fr table) \<subseteq> set (take stored seen))"

lemma canonical_invD:
  assumes "canonical_inv table index seen out stored dist overflow_from"
  shows "index \<le> length table" and "set seen = set (take index table)" and "distinct (map be_address seen)"
    and "dist = length seen" and "stored = min (length out) (length seen)" and "take stored out = take stored seen"
    and "overflow_from = None \<Longrightarrow> length seen \<le> length out"
    and "overflow_from = Some fr \<Longrightarrow> length out < length seen"
    and "overflow_from = Some fr \<Longrightarrow> fr \<le> index"
    and "overflow_from = Some fr \<Longrightarrow> set (take fr table) \<subseteq> set (take stored seen)"
  using assms unfolding canonical_inv_def by blast+

lemma canonical_lookup:
  assumes "canonical_inv table index seen out stored dist overflow_from"
  shows "(case overflow_from of
            None \<Rightarrow> find (\<lambda>row. be_address row = a) (take stored out)
          | Some fr \<Rightarrow> find (\<lambda>row. be_address row = a) (take stored out @ drop fr (take index table)))
    = find (\<lambda>row. be_address row = a) seen"
proof (cases overflow_from)
  case None
  have "take stored seen = seen"
    using canonical_invD(5,7) [OF assms] None by simp
  then show ?thesis using canonical_invD(6) [OF assms] None by simp
next
  case (Some fr)
  note i = canonical_invD(2,3,6) [OF assms] canonical_invD(9,10) [OF assms Some]
  have "take index table = take fr table @ drop fr (take index table)"
    using i(4) by (metis append_take_drop_id min.absorb1 take_take)
  then have "set (take index table) = set (take fr table) \<union> set (drop fr (take index table))"
    by (metis set_append)
  moreover have "set (take stored seen) \<subseteq> set seen" by (rule set_take_subset)
  ultimately have "set (take stored seen @ drop fr (take index table)) = set seen"
    using i(1,5) by auto
  moreover have "inj_on be_address (set seen)" using i(2) by (simp add: distinct_map)
  ultimately have "find (\<lambda>row. be_address row = a) (take stored seen @ drop fr (take index table))
      = find (\<lambda>row. be_address row = a) seen" by (intro find_key_cong) simp_all
  then show ?thesis unfolding Some option.case i(3) .
qed

lemma canonical_inv_same:
  assumes "canonical_inv table index seen out stored dist overflow_from"
    "index < length table" "table ! index \<in> set seen"
  shows "canonical_inv table (Suc index) seen out stored dist overflow_from"
proof -
  note i = canonical_invD [OF assms(1)]
  have "set seen = set (take (Suc index) table)" using i(2) assms(2,3) by (auto simp: take_Suc_conv_app_nth)
  then show ?thesis
    using i assms(2) le_SucI unfolding canonical_inv_def by (metis Suc_leI)
qed

lemma canonical_inv_new:
  assumes inv: "canonical_inv table index seen out stored dist overflow_from"
    and idx: "index < length table" "entry = table ! index" and new: "be_address entry \<notin> be_address ` set seen"
  shows "stored < length out \<and> overflow_from = None \<Longrightarrow>
      canonical_inv table (Suc index) (seen @ [entry]) (out[stored := entry]) (Suc stored) (Suc dist) overflow_from"
    and "\<not> (stored < length out \<and> overflow_from = None) \<Longrightarrow>
      canonical_inv table (Suc index) (seen @ [entry]) out stored (Suc dist)
        (case overflow_from of None \<Rightarrow> Some index | Some f \<Rightarrow> Some f)"
proof -
  note i = canonical_invD [OF inv]
  have set: "set (seen @ [entry]) = set (take (Suc index) table)"
    using i(2) idx by (auto simp: take_Suc_conv_app_nth)
  have dis: "distinct (map be_address (seen @ [entry]))" using i(3) new by auto
  {
    assume room: "stored < length out \<and> overflow_from = None"
    then have st: "stored = length seen" "length seen < length out" using i(5,7) by auto
    have "take (Suc stored) (out[stored := entry]) = take (Suc stored) (seen @ [entry])"
      using i(6) st by (simp add: take_Suc_conv_app_nth)
    then show "canonical_inv table (Suc index) (seen @ [entry]) (out[stored := entry]) (Suc stored) (Suc dist) overflow_from"
      using st set dis idx i(4) room unfolding canonical_inv_def by simp
  }
  assume full: "\<not> (stored < length out \<and> overflow_from = None)"
  have le: "length out \<le> length seen"
    using full i(5,8) by (cases overflow_from) auto
  then have st: "stored = length out" using i(5) by simp
  have tk: "take stored out = take stored (seen @ [entry])" using i(6) st le by simp
  show "canonical_inv table (Suc index) (seen @ [entry]) out stored (Suc dist)
        (case overflow_from of None \<Rightarrow> Some index | Some f \<Rightarrow> Some f)"
  proof (cases overflow_from)
    case None
    then have "length seen = length out" using le i(7) by simp
    then have "set (take index table) \<subseteq> set (take stored (seen @ [entry]))" using i(2) st by simp
    then show ?thesis using None set dis tk st le idx i(4) unfolding canonical_inv_def by simp
  next
    case (Some f)
    have "set (take f table) \<subseteq> set (take stored (seen @ [entry]))" using i(10) [OF Some] st le by simp
    then show ?thesis using Some set dis tk st le idx i(4) i(9) [OF Some] unfolding canonical_inv_def by simp
  qed
qed

lemma canonical_loop_refines:
  assumes "canonical_inv table index seen out stored dist overflow_from" "rest = drop index table"
    and "canonical_loop table index rest out stored dist overflow_from = (res, out')"
  shows "length out' = length out"
    and "check_rows seen rest = Inl e \<Longrightarrow> res = Inl e"
    and "check_rows seen rest = Inr all \<Longrightarrow>
      res = Inr \<lparr>cn_stored = min (length out) (length all), cn_distinct = length all\<rparr> \<and>
      take (min (length out) (length all)) out' = take (min (length out) (length all)) all"
proof -
  have "length out' = length out \<and> (\<forall>e. check_rows seen rest = Inl e \<longrightarrow> res = Inl e) \<and>
    (\<forall>all. check_rows seen rest = Inr all \<longrightarrow>
      res = Inr \<lparr>cn_stored = min (length out) (length all), cn_distinct = length all\<rparr> \<and>
      take (min (length out) (length all)) out' = take (min (length out) (length all)) all)"
    using assms
  proof (induction rest arbitrary: index seen out stored dist overflow_from)
    case Nil
    note i = canonical_invD [OF Nil.prems(1)]
    show ?case using Nil.prems(3) i(4-6) by auto
  next
    case (Cons entry rest)
    have idx: "index < length table" using Cons.prems(2) by (metis drop_eq_Nil2 list.distinct(1) not_less)
    then have nth: "table ! index = entry" and rest: "rest = drop (Suc index) table"
      using Cons.prems(2) by (metis Cons_nth_drop_Suc list.inject)+
    let ?find = "find (\<lambda>row. be_address row = be_address entry) seen"
    note look = canonical_lookup [OF Cons.prems(1)]
    show ?case
    proof (cases "validate_entry entry")
      case (Inl reason)
      then show ?thesis using Cons.prems(3) by auto
    next
      case valid: (Inr u)
      have unf: "(case ?find of
          Some row \<Rightarrow> if be_mask row \<noteq> be_mask entry then (Inl (ConflictingMasks entry), out)
              else canonical_loop table (index + 1) rest out stored dist overflow_from
        | None \<Rightarrow> if stored < length out \<and> overflow_from = None
              then canonical_loop table (index + 1) rest (out[stored := entry]) (stored + 1) (dist + 1) overflow_from
              else canonical_loop table (index + 1) rest out stored (dist + 1)
                     (case overflow_from of None \<Rightarrow> Some index | Some f \<Rightarrow> Some f)) = (res, out')"
        using Cons.prems(3) by (simp only: canonical_loop.simps Let_def look valid sum.case)
      show ?thesis
      proof (cases ?find)
        case None
        then have new: "be_address entry \<notin> be_address ` set seen" by (auto simp: find_None_iff)
        note step = canonical_inv_new [OF Cons.prems(1) idx nth [symmetric] new]
        show ?thesis
        proof (cases "stored < length out \<and> overflow_from = None")
          case True
          then have "canonical_loop table (Suc index) rest (out[stored := entry]) (Suc stored) (Suc dist) overflow_from = (res, out')"
            using unf None by simp
          from Cons.IH [OF step(1) [OF True] rest this] show ?thesis using valid None by simp
        next
          case False
          then have "canonical_loop table (Suc index) rest out stored (Suc dist)
              (case overflow_from of None \<Rightarrow> Some index | Some f \<Rightarrow> Some f) = (res, out')"
            using unf None by (simp only: option.case if_False Suc_eq_plus1)
          from Cons.IH [OF step(2) [OF False] rest this] show ?thesis using valid None by simp
        qed
      next
        case (Some row)
        then have row: "row \<in> set seen" "be_address row = be_address entry"
          by (metis (mono_tags) find_Some_iff nth_mem)+
        show ?thesis
        proof (cases "be_mask row = be_mask entry")
          case True
          then have "entry \<in> set seen" using row bdt_entry_eqI by metis
          note step = canonical_inv_same [OF Cons.prems(1) idx, unfolded nth, OF this]
          have "canonical_loop table (Suc index) rest out stored dist overflow_from = (res, out')"
            using unf Some True by simp
          from Cons.IH [OF step rest this] show ?thesis using valid Some True by simp
        next
          case False
          then show ?thesis using unf valid Some by auto
        qed
      qed
    qed
  qed
  then show "length out' = length out"
    and "check_rows seen rest = Inl e \<Longrightarrow> res = Inl e"
    and "check_rows seen rest = Inr all \<Longrightarrow>
      res = Inr \<lparr>cn_stored = min (length out) (length all), cn_distinct = length all\<rparr> \<and>
      take (min (length out) (length all)) out' = take (min (length out) (length all)) all"
    by blast+
qed

lemma canonical_inv_start: "canonical_inv table 0 [] out 0 0 None"
  by (simp add: canonical_inv_def)

lemma canonical_rows_refines:
  assumes "canonical_rows table out = (res, out')"
  shows "length out' = length out"
    and "check_rows [] (entries_iter bdt_ops table) = Inl e \<Longrightarrow> res = Inl e"
    and "check_rows [] (entries_iter bdt_ops table) = Inr all \<Longrightarrow>
      res = Inr \<lparr>cn_stored = min (length out) (length all), cn_distinct = length all\<rparr> \<and>
      take (min (length out) (length all)) out' = take (min (length out) (length all)) all"
proof -
  have "canonical_loop (entries_iter bdt_ops table) 0 (entries_iter bdt_ops table) out 0 0 None = (res, out')"
    using assms by (simp add: canonical_rows_def Let_def)
  from canonical_loop_refines [OF canonical_inv_start drop_0 [symmetric] this]
  show "length out' = length out"
    and "check_rows [] (entries_iter bdt_ops table) = Inl e \<Longrightarrow> res = Inl e"
    and "check_rows [] (entries_iter bdt_ops table) = Inr all \<Longrightarrow>
      res = Inr \<lparr>cn_stored = min (length out) (length all), cn_distinct = length all\<rparr> \<and>
      take (min (length out) (length all)) out' = take (min (length out) (length all)) all"
    by blast+
qed

text \<open>Rows in the order of their first occurrence.\<close>

definition first_seen :: "'a list \<Rightarrow> 'a list" where "first_seen xs = rev (remdups (rev xs))"

lemma set_first_seen [simp]: "set (first_seen xs) = set xs"
  by (simp add: first_seen_def)

lemma distinct_first_seen [simp]: "distinct (first_seen xs)"
  by (simp add: first_seen_def)

lemma remdups_skip: "e \<in> set ys \<Longrightarrow> remdups (xs @ e # ys) = remdups (xs @ ys)"
  by (induction xs) auto

lemma first_seen_skip: "e \<in> set xs \<Longrightarrow> first_seen (xs @ e # ys) = first_seen (xs @ ys)"
  by (simp add: first_seen_def remdups_skip)

lemma first_seen_distinct: "distinct xs \<Longrightarrow> first_seen xs = xs"
  by (simp add: first_seen_def distinct_remdups_id)

lemma check_rows_Inr_iff:
  "distinct (map be_address seen) \<Longrightarrow> check_rows seen rest = Inr all \<longleftrightarrow>
     (\<forall>e \<in> set rest. validate_entry e = Inr ()) \<and> inj_on be_address (set (seen @ rest)) \<and>
     all = first_seen (seen @ rest)"
proof (induction rest arbitrary: seen)
  case Nil
  then show ?case by (auto simp: distinct_map first_seen_distinct)
next
  case (Cons entry rest)
  show ?case
  proof (cases "validate_entry entry")
    case (Inl reason)
    then show ?thesis by auto
  next
    case valid: (Inr u)
    show ?thesis
    proof (cases "find (\<lambda>row. be_address row = be_address entry) seen")
      case None
      then have "distinct (map be_address (seen @ [entry]))" using Cons.prems by (auto simp: find_None_iff)
      from Cons.IH [OF this] show ?thesis using valid None by simp
    next
      case (Some row)
      then have row: "row \<in> set seen" "be_address row = be_address entry"
        by (metis (mono_tags) find_Some_iff nth_mem)+
      show ?thesis
      proof (cases "be_mask row = be_mask entry")
        case True
        then have mem: "entry \<in> set seen" using row bdt_entry_eqI by metis
        then have "set (seen @ entry # rest) = set (seen @ rest)" by auto
        then show ?thesis using Cons.IH [OF Cons.prems] valid Some True first_seen_skip [OF mem] by simp
      next
        case False
        then have "\<not> inj_on be_address (set (seen @ entry # rest))"
          using row unfolding inj_on_def by (metis (no_types, lifting) in_set_conv_decomp list.set_intros(1) Un_iff set_append)
        then show ?thesis using valid Some False by simp
      qed
    qed
  qed
qed

section \<open>The table's invariant\<close>

definition bdt_wf :: "bdt \<Rightarrow> bool" where
  "bdt_wf t \<longleftrightarrow>
     bd_len t \<le> length (bd_rows t) \<and> distinct (map be_address (rows t)) \<and>
     (\<forall>r \<in> set (configured_rows t). validate_entry r = Inr ()) \<and>
     rows t = configured_rows t @ (if bd_own_row_appended t then [new_bdt_entry (bd_own t) TWO_HOP_MASK] else []) \<and>
     (rows t \<noteq> [] \<longrightarrow> bd_own t \<in> be_address ` set (rows t)) \<and>
     (bd_behind_nat t \<longrightarrow> \<not> bd_own_row_appended t \<and> (\<forall>r \<in> set (rows t). be_mask r = TWO_HOP_MASK)) \<and>
     (bd_serves_group t \<longrightarrow> (\<forall>r \<in> set (rows t). be_address r = bd_own t \<longrightarrow> be_mask r = TWO_HOP_MASK))"

lemma bdt_wfD:
  assumes "bdt_wf t"
  shows "bd_len t \<le> length (bd_rows t)" and "distinct (map be_address (rows t))"
    and "\<forall>r \<in> set (configured_rows t). validate_entry r = Inr ()"
    and "rows t = configured_rows t @ (if bd_own_row_appended t then [new_bdt_entry (bd_own t) TWO_HOP_MASK] else [])"
    and "rows t \<noteq> [] \<Longrightarrow> bd_own t \<in> be_address ` set (rows t)"
    and "bd_behind_nat t \<Longrightarrow> \<not> bd_own_row_appended t"
    and "bd_behind_nat t \<Longrightarrow> \<forall>r \<in> set (rows t). be_mask r = TWO_HOP_MASK"
    and "bd_serves_group t \<Longrightarrow> \<forall>r \<in> set (rows t). be_address r = bd_own t \<longrightarrow> be_mask r = TWO_HOP_MASK"
  using assms unfolding bdt_wf_def by blast+

interpretation bdt_rows: keyed_table rows be_address bdt_wf row_for
  by unfold_locales (simp_all only: bdt_wfD(2) row_for_def)

lemma bdt_contains_iff: "bdt_contains a t \<longleftrightarrow> a \<in> be_address ` set (rows t)"
  using bdt_rows.lookup_None_iff [of a t] by (simp add: bdt_contains_def)

lemma bdt_new_wf [simp]: "bdt_wf (bdt_new n own)" "rows (bdt_new n own) = []"
  by (simp_all add: bdt_wf_def rows_def configured_rows_def bdt_new_def)

lemma check_group_row_Inr: "check_group_row own rs = Inr () \<longleftrightarrow> (\<forall>r \<in> set rs. be_address r = own \<longrightarrow> be_mask r = TWO_HOP_MASK)"
proof (cases "find (\<lambda>row. be_address row = own \<and> be_mask row \<noteq> TWO_HOP_MASK) rs")
  case (Some e)
  then have "e \<in> set rs \<and> be_address e = own \<and> be_mask e \<noteq> TWO_HOP_MASK" by (metis (mono_tags) find_Some_iff nth_mem)
  then show ?thesis using Some by (auto simp: check_group_row_def)
next
  case None
  then show ?thesis by (simp add: check_group_row_def) (auto simp: find_None_iff)
qed

lemma check_group_row_cases: "check_group_row own rs = Inr () \<or> (\<exists>e. check_group_row own rs = Inl e)"
  by (cases "check_group_row own rs") auto

lemma with_nat_simps [simp]:
  "bd_own (with_nat own b t) = own" "bd_behind_nat (with_nat own b t) = b" "bd_len (with_nat own b t) = 0"
  "bd_serves_group (with_nat own b t) = bd_serves_group t" "\<not> bd_own_row_appended (with_nat own b t)"
  "length (bd_rows (with_nat own b t)) = length (bd_rows t)"
  by (simp_all add: with_nat_def bdt_new_def)

text \<open>Appending the own row, where there is room for it.\<close>

lemma ensure_own_row_rows:
  assumes "bd_len t \<le> length (bd_rows t)" "\<not> bd_own_row_appended t"
    and "bd_own t \<in> be_address ` set (rows t) \<or> bd_len t < length (bd_rows t)"
  shows "rows (ensure_own_row t) = rows t @ (if bd_own t \<in> be_address ` set (rows t) then [] else [new_bdt_entry (bd_own t) TWO_HOP_MASK])"
    and "configured_rows (ensure_own_row t) = rows t"
    and "bd_own_row_appended (ensure_own_row t) \<longleftrightarrow> bd_own t \<notin> be_address ` set (rows t)"
    and "bd_len (ensure_own_row t) \<le> length (bd_rows (ensure_own_row t))"
  using assms
  by (auto simp: ensure_own_row_def bdt_contains_iff rows_def configured_rows_def take_Suc_conv_app_nth)

lemma ensure_own_row_same [simp]:
  "bd_own (ensure_own_row t) = bd_own t" "bd_behind_nat (ensure_own_row t) = bd_behind_nat t"
  "bd_serves_group (ensure_own_row t) = bd_serves_group t" "length (bd_rows (ensure_own_row t)) = length (bd_rows t)"
  by (simp_all add: ensure_own_row_def)

lemma ensure_own_row_wf:
  assumes "bd_len t \<le> length (bd_rows t)" "\<not> bd_own_row_appended t" "\<not> bd_behind_nat t"
    and "bd_own t \<in> be_address ` set (rows t) \<or> bd_len t < length (bd_rows t)"
    and "distinct (map be_address (rows t))" "\<forall>r \<in> set (rows t). validate_entry r = Inr ()"
    and "bd_serves_group t \<Longrightarrow> \<forall>r \<in> set (rows t). be_address r = bd_own t \<longrightarrow> be_mask r = TWO_HOP_MASK"
  shows "bdt_wf (ensure_own_row t)"
proof -
  note e = ensure_own_row_rows [OF assms(1,2,4)]
  show ?thesis
    unfolding bdt_wf_def e ensure_own_row_same using assms(3,5-7) e(4)
    by (auto simp: new_bdt_entry_def)
qed

section \<open>Setting the table\<close>

text \<open>When a candidate is taken.\<close>

definition acceptable :: "bdt_entry list \<Rightarrow> bdt \<Rightarrow> bool" where
  "acceptable es t \<longleftrightarrow>
     (\<forall>e \<in> set es. validate_entry e = Inr ()) \<and> inj_on be_address (set es) \<and>
     (bd_behind_nat t \<longrightarrow> (\<forall>e \<in> set es. be_mask e = TWO_HOP_MASK) \<and> (es \<noteq> [] \<longrightarrow> bd_own t \<in> be_address ` set es)) \<and>
     (bd_serves_group t \<longrightarrow> (\<forall>e \<in> set es. be_address e = bd_own t \<longrightarrow> be_mask e = TWO_HOP_MASK)) \<and>
     card (set es) + of_bool (bd_own t \<notin> be_address ` set es \<and> \<not> bd_behind_nat t) \<le> length (bd_rows t)"

lemma length_first_seen: "length (first_seen xs) = card (set xs)"
  by (metis distinct_card distinct_first_seen set_first_seen)

lemma set_checks_Inr_iff:
  assumes "cn_distinct found = length (first_seen es)"
  shows "set_checks es found t = Inr () \<longleftrightarrow>
     (bd_behind_nat t \<longrightarrow> (\<forall>e \<in> set es. be_mask e = TWO_HOP_MASK) \<and> (es \<noteq> [] \<longrightarrow> bd_own t \<in> be_address ` set es)) \<and>
     (bd_serves_group t \<longrightarrow> (\<forall>e \<in> set es. be_address e = bd_own t \<longrightarrow> be_mask e = TWO_HOP_MASK)) \<and>
     card (set es) + of_bool (bd_own t \<notin> be_address ` set es \<and> \<not> bd_behind_nat t) \<le> length (bd_rows t)"
proof -
  have own: "list_ex (\<lambda>row. be_address row = bd_own t) es \<longleftrightarrow> bd_own t \<in> be_address ` set es"
    unfolding list_ex_iff image_iff by metis
  have pos: "0 < length (first_seen es) \<longleftrightarrow> es \<noteq> []" by (simp add: length_first_seen card_gt_0_iff)
  show ?thesis
    unfolding set_checks_def assms own Let_def
    by (auto simp: try_res_eq_Inr check_group_row_Inr find_None_iff pos length_first_seen not_less
        split: option.splits if_splits dest: find_SomeD)
qed

lemma first_seen_addresses: "inj_on be_address (set es) \<Longrightarrow> distinct (map be_address (first_seen es))"
  by (simp add: distinct_map)

lemma nat_table_wf:
  assumes "rows t = first_seen es" "acceptable es t" "bd_behind_nat t" "\<not> bd_own_row_appended t"
    "bd_len t \<le> length (bd_rows t)"
  shows "bdt_wf t"
proof -
  have "configured_rows t = first_seen es" using assms(1,4) by (simp add: configured_rows_def rows_def)
  then show ?thesis
    using assms first_seen_addresses unfolding bdt_wf_def acceptable_def by (auto simp: first_seen_def)
qed

lemma bdt_set_refused:
  assumes "\<not> acceptable (entries_iter bdt_ops table) t"
  shows "\<exists>e. bdt_set table t = (Inl e, t)"
proof -
  let ?es = "entries_iter bdt_ops table" and ?n = "with_nat (bd_own t) (bd_behind_nat t) t"
  obtain res out where c: "canonical_rows table (bd_rows ?n) = (res, out)" by fastforce
  note r = canonical_rows_refines [OF c]
  show ?thesis
  proof (cases "check_rows [] ?es")
    case (Inl e)
    then show ?thesis using r(2) [OF Inl] c by (simp add: bdt_set_def)
  next
    case (Inr all)
    then have all: "all = first_seen ?es" "\<forall>e \<in> set ?es. validate_entry e = Inr ()" "inj_on be_address (set ?es)"
      by (simp_all add: check_rows_Inr_iff)
    define found where "found = \<lparr>cn_stored = min (length (bd_rows t)) (length all), cn_distinct = length all\<rparr>"
    have res: "res = Inr found" using r(3) [OF Inr] by (simp add: found_def)
    have "set_checks ?es found t \<noteq> Inr ()"
      using assms all set_checks_Inr_iff [of found ?es t] by (simp add: acceptable_def found_def)
    then obtain e where "set_checks ?es found t = Inl e" by (cases "set_checks ?es found t") auto
    then show ?thesis using c res by (simp add: bdt_set_def)
  qed
qed

lemma bdt_set_accepted:
  assumes "acceptable (entries_iter bdt_ops table) t"
  obtains t' where "bdt_set table t = (Inr (), t')" "bdt_wf t'"
    "configured_rows t' = first_seen (entries_iter bdt_ops table)"
    "bd_own t' = bd_own t" "bd_behind_nat t' = bd_behind_nat t" "bd_serves_group t' = bd_serves_group t"
    "length (bd_rows t') = length (bd_rows t)"
    "bd_own_row_appended t' \<longleftrightarrow> bd_own t \<notin> be_address ` set (entries_iter bdt_ops table) \<and> \<not> bd_behind_nat t"
proof -
  let ?es = "entries_iter bdt_ops table" and ?n = "with_nat (bd_own t) (bd_behind_nat t) t"
  obtain res out where c: "canonical_rows table (bd_rows ?n) = (res, out)" by fastforce
  note r = canonical_rows_refines [OF c]
  have valid: "\<forall>e \<in> set ?es. validate_entry e = Inr ()" and inj: "inj_on be_address (set ?es)"
    and fits: "card (set ?es) + of_bool (bd_own t \<notin> be_address ` set ?es \<and> \<not> bd_behind_nat t) \<le> length (bd_rows t)"
    using assms unfolding acceptable_def by blast+
  define all where "all = first_seen ?es"
  have chk: "check_rows [] ?es = Inr all" using valid inj by (simp add: check_rows_Inr_iff all_def)
  have len: "length all = card (set ?es)" by (simp add: all_def length_first_seen)
  define found where "found = \<lparr>cn_stored = length all, cn_distinct = length all\<rparr>"
  have le: "length all \<le> length (bd_rows t)" using fits len by simp
  have res: "res = Inr found" and tk: "take (length all) out = all" and lo: "length out = length (bd_rows t)"
    using r(1) r(3) [OF chk] le by (simp_all add: found_def min_absorb2)
  have "set_checks ?es found t = Inr ()"
    using assms set_checks_Inr_iff [of found ?es t] by (simp add: acceptable_def found_def all_def)
  define n where "n = ?n\<lparr>bd_rows := out, bd_len := length all\<rparr>"
  have set: "bdt_set table t = (Inr (), if bd_behind_nat t then n else ensure_own_row n)"
    using c res \<open>set_checks ?es found t = Inr ()\<close> by (simp add: bdt_set_def n_def found_def)
  have n: "rows n = all" "bd_own n = bd_own t" "bd_behind_nat n = bd_behind_nat t" "bd_serves_group n = bd_serves_group t"
    "length (bd_rows n) = length (bd_rows t)" "\<not> bd_own_row_appended n" "bd_len n = length all"
    using tk lo by (simp_all add: n_def rows_def)
  have acc: "acceptable ?es n" using assms n by (simp add: acceptable_def)
  show thesis
  proof (cases "bd_behind_nat t")
    case True
    have "bdt_wf n" using nat_table_wf [OF _ acc] n True le by (simp add: all_def)
    moreover have "configured_rows n = all" using n(1,6) by (simp add: configured_rows_def rows_def)
    ultimately show ?thesis using that [of n] set n True by (simp add: all_def)
  next
    case False
    have room: "bd_own n \<in> be_address ` set (rows n) \<or> bd_len n < length (bd_rows n)"
      using fits False len n by (cases "bd_own t \<in> be_address ` set ?es") (simp_all add: all_def)
    have "bdt_wf (ensure_own_row n)"
      using room le n False inj valid acc first_seen_addresses [OF inj]
      by (intro ensure_own_row_wf) (simp_all add: all_def acceptable_def)
    moreover note ensure_own_row_rows [OF _ n(6) room]
    ultimately show ?thesis using that [of "ensure_own_row n"] set n False le by (simp add: all_def)
  qed
qed

section \<open>Every operation keeps the invariant, and an error changes nothing\<close>

definition keeps :: "bdt \<Rightarrow> (bdt_error + unit) \<times> bdt \<Rightarrow> bool" where
  "keeps t r \<longleftrightarrow> (case r of (res, t') \<Rightarrow>
     bdt_wf t' \<and> length (bd_rows t') = length (bd_rows t) \<and> bd_serves_group t' = bd_serves_group t \<and>
     (res \<noteq> Inr () \<longrightarrow> t' = t))"

lemma with_nat_wf [simp]: "bdt_wf (with_nat own b t)"
  by (simp add: bdt_wf_def rows_def configured_rows_def)

lemma bdt_set_outcome:
  "bdt_set table t = (Inr (), t') \<Longrightarrow> bdt_wf t' \<and> length (bd_rows t') = length (bd_rows t)
     \<and> bd_own t' = bd_own t \<and> bd_behind_nat t' = bd_behind_nat t \<and> bd_serves_group t' = bd_serves_group t"
  "bdt_set table t = (Inl e, t') \<Longrightarrow> t' = t"
proof -
  assume "bdt_set table t = (Inr (), t')"
  then have "acceptable (entries_iter bdt_ops table) t" using bdt_set_refused [of table t] by fastforce
  then show "bdt_wf t' \<and> length (bd_rows t') = length (bd_rows t)
     \<and> bd_own t' = bd_own t \<and> bd_behind_nat t' = bd_behind_nat t \<and> bd_serves_group t' = bd_serves_group t"
    using bdt_set_accepted [of table t] \<open>bdt_set table t = (Inr (), t')\<close> by fastforce
next
  assume "bdt_set table t = (Inl e, t')"
  then have "\<not> acceptable (entries_iter bdt_ops table) t" using bdt_set_accepted [of table t] by fastforce
  then show "t' = t" using bdt_set_refused [of table t] \<open>bdt_set table t = (Inl e, t')\<close> by fastforce
qed

lemma set_without_is_set: "\<exists>table'. set_without table d t = bdt_set table' t"
  by (auto simp: set_without_def split: option.splits)

lemma kept_rows_fits: "length kept + length xs \<le> n \<Longrightarrow> kept_rows n xs kept = Some (kept @ xs)"
  by (induction xs arbitrary: kept) auto

lemma bdt_set_keeps: "bdt_wf t \<Longrightarrow> keeps t (bdt_set table t)"
proof (cases "bdt_set table t")
  case (Pair res t')
  moreover assume "bdt_wf t"
  ultimately show ?thesis using bdt_set_outcome [of table t] by (cases res) (auto simp: keeps_def)
qed

lemma set_without_keeps: "bdt_wf t \<Longrightarrow> keeps t (set_without table d t)"
  using set_without_is_set [of table d t] bdt_set_keeps by auto

lemma set_serves_group_keeps:
  assumes "bdt_wf t" "set_serves_group serves t = (res, t')"
  shows "bdt_wf t' \<and> length (bd_rows t') = length (bd_rows t) \<and> (res \<noteq> Inr () \<longrightarrow> t' = t)
    \<and> (res = Inr () \<longrightarrow> t' = t\<lparr>bd_serves_group := serves\<rparr>)"
proof (cases "serves \<and> check_group_row (bd_own t) (rows t) \<noteq> Inr ()")
  case True
  then obtain e where "check_group_row (bd_own t) (rows t) = Inl e" using check_group_row_cases by metis
  then show ?thesis using assms True by (auto simp: set_serves_group_def)
next
  case False
  define u where "u = t\<lparr>bd_serves_group := serves\<rparr>"
  have eq: "res = Inr ()" "t' = u" using False assms(2) by (cases serves; auto simp: set_serves_group_def u_def)+
  have same: "rows u = rows t" "configured_rows u = configured_rows t" "bd_len u = bd_len t"
    "bd_rows u = bd_rows t" "bd_own u = bd_own t" "bd_own_row_appended u = bd_own_row_appended t"
    "bd_behind_nat u = bd_behind_nat t" "bd_serves_group u = serves"
    by (simp_all add: rows_def configured_rows_def u_def)
  have "bdt_wf u"
    using assms(1) False unfolding bdt_wf_def same check_group_row_Inr by blast
  then show ?thesis using same(4) eq by (simp flip: u_def)
qed

lemma reconfigure_keeps:
  assumes "bdt_wf t" "reconfigure own b d t = (res, t')"
  shows "keeps t (res, t')" and "res = Inr () \<Longrightarrow> bd_own t' = own \<and> bd_behind_nat t' = b"
proof -
  have "keeps t (res, t') \<and> (res = Inr () \<longrightarrow> bd_own t' = own \<and> bd_behind_nat t' = b)"
  proof (cases "bdt_is_empty t \<and> \<not> bd_behind_nat t")
    case True
    then have l: "bd_len t = 0" by (simp add: bdt_is_empty_def)
    then have e: "rows t = []" by (simp add: rows_def)
    then have "\<not> bd_own_row_appended t" "configured_rows t = []" using bdt_wfD(4) [OF assms(1)] by (auto split: if_splits)
    moreover have "t' = t\<lparr>bd_own := own, bd_behind_nat := b\<rparr>" "res = Inr ()"
      using assms(2) True by (simp_all add: reconfigure_def)
    ultimately show ?thesis
      using l by (simp add: keeps_def bdt_wf_def rows_def configured_rows_def)
  next
    case False
    let ?w = "with_nat own b t"
    obtain res2 t2 where s: "set_without (Typed (configured_rows t)) d ?w = (res2, t2)" by fastforce
    obtain table' where "bdt_set table' ?w = (res2, t2)" using set_without_is_set s by metis
    then show ?thesis
      using bdt_set_outcome [of table' ?w] assms False s
      by (cases res2) (auto simp: reconfigure_def keeps_def)
  qed
  then show "keeps t (res, t')" and "res = Inr () \<Longrightarrow> bd_own t' = own \<and> bd_behind_nat t' = b" by blast+
qed

lemma set_own_address_keeps:
  assumes wf: "bdt_wf t" and res: "set_own_address own t = (res, t')"
  shows "keeps t (res, t')" and "res = Inr () \<Longrightarrow> bd_own t' = own \<and> bd_behind_nat t' = bd_behind_nat t"
proof -
  note w = bdt_wfD [OF wf]
  have "keeps t (res, t') \<and> (res = Inr () \<longrightarrow> bd_own t' = own \<and> bd_behind_nat t' = bd_behind_nat t)"
  proof (cases "own = bd_own t \<or> bd_behind_nat t")
    case True
    show ?thesis
    proof (cases "own = bd_own t")
      case True
      then show ?thesis using res wf by (simp add: set_own_address_def keeps_def)
    next
      case False
      with True have "reconfigure own True None t = (res, t')" using res by (simp add: set_own_address_def)
      from reconfigure_keeps [OF wf this] show ?thesis using True False by simp
    qed
  next
    case False
    let ?c = "configured_rows t"
    define t1 where "t1 = (if bd_own_row_appended t then t\<lparr>bd_len := bd_len t - 1, bd_own_row_appended := False\<rparr> else t)\<lparr>bd_own := own\<rparr>"
    define refused where "refused \<longleftrightarrow> (bd_serves_group t \<and> check_group_row own ?c \<noteq> Inr ()) \<or>
      length (bd_rows t) < length ?c + of_bool (\<not> list_ex (\<lambda>row. be_address row = own) ?c)"
    have own: "list_ex (\<lambda>row. be_address row = own) ?c \<longleftrightarrow> own \<in> be_address ` set ?c"
      unfolding list_ex_iff image_iff by metis
    show ?thesis
    proof (cases refused)
      case True
      then have "t' = t \<and> res \<noteq> Inr ()"
      proof (cases "bd_serves_group t \<and> check_group_row own ?c \<noteq> Inr ()")
        case True
        then obtain e where "check_group_row own ?c = Inl e" using check_group_row_cases by metis
        then show ?thesis using res False True by (auto simp: set_own_address_def Let_def)
      next
        case ok: False
        then have "(if bd_serves_group t then check_group_row own ?c else Inr ()) = Inr ()" by auto
        then show ?thesis
          using res False ok \<open>refused\<close> by (auto simp: set_own_address_def refused_def Let_def)
      qed
      then show ?thesis using wf by (simp add: keeps_def)
    next
      case ok: False
      then have "(if bd_serves_group t then check_group_row own ?c else Inr ()) = Inr ()" by (auto simp: refused_def)
      then have eq: "t' = ensure_own_row t1" "res = Inr ()"
        using res False ok by (auto simp: set_own_address_def refused_def t1_def Let_def split: if_splits)
      have r1: "rows t1 = ?c" by (simp add: t1_def rows_def configured_rows_def)
      have l1: "bd_len t1 = length ?c" using w(1) by (simp add: t1_def configured_rows_def)
      have n1: "length (bd_rows t1) = length (bd_rows t)" "bd_own t1 = own" "\<not> bd_own_row_appended t1"
        "bd_behind_nat t1 = bd_behind_nat t" "bd_serves_group t1 = bd_serves_group t" by (simp_all add: t1_def)
      have "distinct (map be_address ?c)" using w(2,4) by (metis distinct_append map_append)
      moreover have "bd_own t1 \<in> be_address ` set (rows t1) \<or> bd_len t1 < length (bd_rows t1)"
        using ok by (cases "own \<in> be_address ` set ?c") (simp_all add: refused_def own r1 l1 n1)
      moreover have "bd_len t1 \<le> length (bd_rows t1)" using w(1) by (auto simp: t1_def)
      ultimately have "bdt_wf (ensure_own_row t1)"
        using False ok w(3) by (intro ensure_own_row_wf) (auto simp: r1 n1 refused_def check_group_row_Inr)
      then show ?thesis using eq False by (simp add: keeps_def n1)
    qed
  qed
  then show "keeps t (res, t')"
    and "res = Inr () \<Longrightarrow> bd_own t' = own \<and> bd_behind_nat t' = bd_behind_nat t" by blast+
qed

section \<open>Masks and ranges\<close>

lemma ip_bits_inverse [simp]: "ip_from_bits (ip_to_bits ip) = ip" "ip_to_bits (ip_from_bits w) = w"
proof -
  show "ip_to_bits (ip_from_bits w) = w" by (simp add: ip_to_bits_def ip_from_bits_def)
  show "ip_from_bits (ip_to_bits ip) = ip"
  proof (cases ip)
    case (Ipv4Addr a b c d)
    have "u32_to_be (u32_be a b c d) = [a, b, c, d]" by simp
    then show ?thesis by (simp add: Ipv4Addr ip_to_bits_def ip_from_bits_def u32_to_be_def)
  qed
qed

lemma ip_to_bits_inject [simp]: "ip_to_bits a = ip_to_bits b \<longleftrightarrow> a = b"
  by (metis ip_bits_inverse(1))

lemma first_octet_bits: "drop_bit 24 (ip_to_bits (Ipv4Addr a b c d)) = ucast a"
proof (rule bit_word_eqI)
  fix n assume "n < LENGTH(32)"
  then show "bit (drop_bit 24 (ip_to_bits (Ipv4Addr a b c d))) n = bit (ucast a :: u32) n"
    by (cases "n < 8") (auto simp: ip_to_bits_def u32_be_def bit_simps dest: bit_imp_le_length)
qed

lemma multicast_bits: "ip_is_multicast ip \<longleftrightarrow> 224 \<le> drop_bit 24 (ip_to_bits ip) \<and> drop_bit 24 (ip_to_bits ip) \<le> 239"
proof (cases ip)
  case (Ipv4Addr a b c d)
  define m where "m = unat a"
  have "m < 256" unfolding m_def by simp
  then have "unat (ucast a :: u32) = m" by (simp add: unsigned_ucast_eq take_bit_nat_eq_self flip: m_def)
  then show ?thesis
    by (simp add: Ipv4Addr ip_is_multicast_def first_octet_bits word_le_nat_alt flip: m_def)
qed

lemma nat_contiguous: "(m :: nat) AND (m + 1) = 0 \<Longrightarrow> \<exists>k. m = 2 ^ k - 1"
proof (induction m rule: less_induct)
  case (less m)
  show ?case
  proof (cases "even m")
    case True
    have "m AND (m + 1) = m"
      using even_bit_succ_iff [OF True] by (intro bit_eqI) (auto simp: bit_simps)
    then show ?thesis using less.prems by (intro exI [of _ 0]) simp
  next
    case False
    then obtain q where q: "m = 2 * q + 1" by (metis oddE)
    have "(m AND (m + 1)) div 2 = q AND (q + 1)" 
      using drop_bit_and [of 1 m "m + 1"] by (simp add: drop_bit_eq_div q)
    then have "q AND (q + 1) = 0" using less.prems by simp
    then obtain k where "q = 2 ^ k - 1" using less.IH [of q] q by auto
    then have "m = 2 ^ Suc k - 1" using q by (cases "(2 :: nat) ^ k") simp_all
    then show ?thesis by blast
  qed
qed

lemma word_contiguous:
  assumes "(w :: u32) AND (w + 1) = 0"
  obtains k where "k \<le> 32" "w = mask k"
proof (cases "w = - 1")
  case True
  then have "w = mask 32" by (simp add: mask_eq_exp_minus_1)
  then show thesis using that [of 32] by simp
next
  case False
  then have s: "unat (w + 1) = unat w + 1" by (metis Suc_eq_plus1 add.commute add.inverse_inverse add_eq_0_iff2 unatSuc)
  have "unat w AND (unat w + 1) = 0"
    using assms s by (metis unsigned_and_eq unsigned_0)
  then obtain k where k: "unat w = 2 ^ k - 1" using nat_contiguous by blast
  have "k \<le> 32"
  proof (rule ccontr)
    assume "\<not> k \<le> 32"
    then have "(2 :: nat) ^ 33 \<le> 2 ^ k" by (intro power_increasing) simp_all
    moreover have "unat w < 2 ^ 32" using unsigned_less [of w] by simp
    ultimately show False using k by simp
  qed
  moreover have "w = mask k"
    using of_nat_unat_id [of w] by (simp add: k mask_eq_exp_minus_1 of_nat_diff)
  ultimately show thesis by (rule that)
qed

lemma count_ones_not_mask: "k \<le> 32 \<Longrightarrow> count_ones (NOT (mask k)) = 32 - k"
proof -
  assume k: "k \<le> 32"
  have "filter (bit (NOT (mask k) :: u32)) [0..<32] = filter (\<lambda>n. k \<le> n) [0..<32]"
    by (rule filter_cong) (auto simp: bit_simps)
  also have "\<dots> = [k..<32]"
  proof -
    have "[0..<32] = [0..<k] @ [k..<32]" using k upt_add_eq_append [of 0 k "32 - k"] by simp
    moreover have "filter (\<lambda>n. k \<le> n) [0..<k] = []" "filter (\<lambda>n. k \<le> n) [k..<32] = [k..<32]"
      by (auto simp: filter_empty_conv intro!: filter_True)
    ultimately show ?thesis by simp
  qed
  finally show ?thesis by (simp add: count_ones_def)
qed

lemma mask_bits_eq: "mask_bits p = NOT (mask (32 - unat p))"
  by (auto simp: mask_bits_def push_bit_minus_one_eq_not_mask mask_eq_exp_minus_1)

lemma and_not_mask_zero: "(w :: u32) AND NOT (mask k) = 0 \<longleftrightarrow> drop_bit k w = 0"
proof
  assume z: "w AND NOT (mask k) = 0"
  show "drop_bit k w = 0"
  proof (rule bit_word_eqI)
    fix n assume "n < LENGTH(32)"
    have "\<not> bit w (k + n)"
    proof
      assume b: "bit w (k + n)"
      then have "bit (w AND NOT (mask k)) (k + n)" using bit_imp_le_length [OF b] by (simp add: bit_simps)
      then show False by (simp add: z)
    qed
    then show "bit (drop_bit k w) n = bit (0 :: u32) n" by (simp add: bit_simps)
  qed
next
  assume "drop_bit k w = 0"
  then have "\<not> bit (drop_bit k w) n" for n by simp
  then have "\<not> bit w (k + n)" for n by (simp add: bit_simps)
  then show "w AND NOT (mask k) = 0"
    by (intro bit_word_eqI) (auto simp: bit_simps, metis le_add_diff_inverse not_le)
qed

lemma xor_zero: "(a :: u32) XOR b = 0 \<longleftrightarrow> a = b"
  by (metis word_xor_cancel xor.left_neutral xor_self_eq)

text \<open>A range holds the addresses that agree with it on its prefix.\<close>

lemma range_contains_iff:
  assumes "new_private_range network prefix = Inr rng"
  shows "range_contains rng ip \<longleftrightarrow>
     drop_bit (32 - unat prefix) (ip_to_bits ip) = drop_bit (32 - unat prefix) (ip_to_bits network)"
proof -
  let ?k = "32 - unat prefix"
  have r: "pr_network rng = ip_from_bits (ip_to_bits network AND mask_bits prefix)" "pr_prefix rng = prefix"
    using assms by (auto simp: new_private_range_def Let_def split: if_splits)
  have "(ip_to_bits ip XOR (ip_to_bits network AND NOT (mask ?k))) AND NOT (mask ?k)
      = (ip_to_bits ip XOR ip_to_bits network) AND NOT (mask ?k)"
    by (rule bit_word_eqI) (auto simp: bit_simps)
  then show ?thesis
    by (simp add: range_contains_def r mask_bits_eq and_not_mask_zero drop_bit_xor xor_zero)
qed

section \<open>Correctness of the broadcast distribution table\<close>

text \<open>
  A row the table admits sends forwarded broadcasts to one peer or one subnet and nowhere
  else: its mask is a prefix of 8 to 32 bits, the address it is distributed to agrees with the
  row's on that prefix and keeps its port, and is neither the limited broadcast address nor a
  multicast address; under the all-ones mask it is the peer itself.
\<close>

theorem admitted_row_reaches_one_subnet:
  assumes "validate_entry row = Inr ()"
  shows "\<exists>p. 8 \<le> p \<and> p \<le> 32 \<and> ip_to_bits (be_mask row) = NOT (mask (32 - p))
    \<and> drop_bit (32 - p) (ip_to_bits (sa_ip (distribution_address row))) = drop_bit (32 - p) (ip_to_bits (sa_ip (be_address row)))
    \<and> sa_port (distribution_address row) = sa_port (be_address row) \<and> sa_port (distribution_address row) \<noteq> 0
    \<and> sa_ip (distribution_address row) \<noteq> Ipv4Addr 255 255 255 255
    \<and> \<not> ip_is_multicast (sa_ip (distribution_address row))
    \<and> (p = 32 \<longrightarrow> distribution_address row = be_address row)"
proof -
  define ip where "ip = ip_to_bits (sa_ip (be_address row))"
  define m where "m = ip_to_bits (be_mask row)"
  have v: "sa_port (be_address row) \<noteq> 0" "\<not> (224 \<le> drop_bit 24 ip \<and> drop_bit 24 ip \<le> 239)"
    "NOT m AND (NOT m + 1) = 0" "8 \<le> count_ones m" "ip OR NOT m \<noteq> - 1"
    using assms unfolding validate_entry_def Let_def ip_def [symmetric] m_def [symmetric]
    by (auto split: if_splits)
  obtain k where k: "k \<le> 32" "NOT m = mask k" using word_contiguous [OF v(3)] by blast
  then have m: "m = NOT (mask k)" by (metis bit.double_compl)
  then have k8: "k \<le> 24" using v(4) k(1) by (simp add: count_ones_not_mask)
  define p where "p = 32 - k"
  have kp: "32 - p = k" using k(1) by (simp add: p_def)
  define dist where "dist = ip OR mask k"
  have da: "distribution_address row = \<lparr>sa_ip = ip_from_bits dist, sa_port = sa_port (be_address row)\<rparr>"
    by (simp add: distribution_address_def dist_def k(2) flip: ip_def m_def)
  have agree: "drop_bit k dist = drop_bit k ip"
    by (rule bit_word_eqI) (auto simp: dist_def bit_simps)
  then have "drop_bit 24 dist = drop_bit 24 ip"
    using k8 by (metis drop_bit_drop_bit le_add_diff_inverse2)
  then have multi: "\<not> ip_is_multicast (ip_from_bits dist)"
    using v(2) multicast_bits [of "ip_from_bits dist"] by simp
  have "ip_to_bits (Ipv4Addr 255 255 255 255) = - 1" by (simp add: ip_to_bits_def u32_be_def)
  then have "ip_from_bits dist \<noteq> Ipv4Addr 255 255 255 255"
    using v(5) k(2) by (metis dist_def ip_bits_inverse(2))
  moreover have "p = 32 \<longrightarrow> distribution_address row = be_address row"
    using kp by (auto simp: da dist_def ip_def)
  moreover have "8 \<le> p \<and> p \<le> 32" using k8 by (simp add: p_def)
  ultimately show ?thesis
    using v(1) agree multi by (intro exI [of _ p]) (simp add: kp da m flip: m_def ip_def)
qed

theorem admitted_row_reaches_one_subnet_witness:
  "\<exists>p. 8 \<le> p \<and> p \<le> 32 \<and> ip_to_bits (Ipv4Addr 255 255 255 0) = NOT (mask (32 - p))"
proof -
  have "validate_entry (new_bdt_entry \<lparr>sa_ip = Ipv4Addr 10 0 2 1, sa_port = 47808\<rparr> (Ipv4Addr 255 255 255 0)) = Inr ()"
    by code_simp
  from admitted_row_reaches_one_subnet [OF this] show ?thesis by (auto simp: new_bdt_entry_def)
qed

text \<open>
  C35: Setting the table takes a candidate exactly when every row is admissible, no address has
  two masks, the NAT and multicast-group rules hold and the distinct rows fit with the own row
  where it has to be added; the table then holds the distinct rows in the order they were first
  given, with the own row at the end if it was missing and there is no NAT. Any other candidate
  is refused and leaves the table as it was.
\<close>

theorem bdt_set_exact:
  fixes table :: "bdt_entry entries"
  assumes "es = entries_iter bdt_ops table"
  shows "(acceptable es t \<longrightarrow> (\<exists>t'. bdt_set table t = (Inr (), t') \<and> bdt_wf t' \<and> configured_rows t' = first_seen es
      \<and> rows t' = first_seen es @ (if bd_own t \<in> be_address ` set es \<or> bd_behind_nat t then [] else [new_bdt_entry (bd_own t) TWO_HOP_MASK])))
    \<and> (\<not> acceptable es t \<longrightarrow> (\<exists>e. bdt_set table t = (Inl e, t)))"
proof (intro conjI impI)
  assume "acceptable es t"
  then obtain t' where t': "bdt_set table t = (Inr (), t')" "bdt_wf t'" "configured_rows t' = first_seen es"
    "bd_own t' = bd_own t" "bd_own_row_appended t' \<longleftrightarrow> bd_own t \<notin> be_address ` set es \<and> \<not> bd_behind_nat t"
    using bdt_set_accepted assms by metis
  then show "\<exists>t'. bdt_set table t = (Inr (), t') \<and> bdt_wf t' \<and> configured_rows t' = first_seen es
      \<and> rows t' = first_seen es @ (if bd_own t \<in> be_address ` set es \<or> bd_behind_nat t then [] else [new_bdt_entry (bd_own t) TWO_HOP_MASK])"
    using bdt_wfD(4) [OF t'(2)] by auto
next
  assume "\<not> acceptable es t"
  then show "\<exists>e. bdt_set table t = (Inl e, t)" using bdt_set_refused assms by simp
qed

definition one_peer :: bdt_entry where
  "one_peer = new_bdt_entry \<lparr>sa_ip = Ipv4Addr 10 0 2 1, sa_port = 47808\<rparr> (Ipv4Addr 255 255 255 0)"

theorem bdt_set_exact_witness:
  "\<exists>t'. bdt_set (Typed [one_peer, one_peer]) (bdt_new 2 \<lparr>sa_ip = Ipv4Addr 10 0 1 1, sa_port = 47808\<rparr>) = (Inr (), t')
     \<and> rows t' = [one_peer, new_bdt_entry \<lparr>sa_ip = Ipv4Addr 10 0 1 1, sa_port = 47808\<rparr> TWO_HOP_MASK]"
proof -
  let ?t = "bdt_new 2 \<lparr>sa_ip = Ipv4Addr 10 0 1 1, sa_port = 47808\<rparr>"
  have "validate_entry one_peer = Inr ()" by code_simp
  then have acc: "acceptable [one_peer, one_peer] ?t"
    by (simp add: acceptable_def bdt_new_def one_peer_def new_bdt_entry_def)
  have "first_seen [one_peer, one_peer] = [one_peer]" by (simp add: first_seen_def)
  then show ?thesis
    using bdt_set_exact [of "[one_peer, one_peer]" "Typed [one_peer, one_peer]" ?t] acc
    by (auto simp: bdt_new_def one_peer_def new_bdt_entry_def)
qed

end
