(* ===== verification/Bbmd_Forward.thy ===== *)
theory Bbmd_Forward
  imports Bbmd_Fdt Bbmd_Bdt
begin

text \<open>
  Where a BBMD sends a broadcast it forwards (\<open>crates/bacnet-bip-core/src/bbmd/forward.rs\<close>) and
  how it answers a management request (\<open>bbmd/serve.rs\<close>), over its two tables. The caller's
  storage for destinations is the list the writer fills; a decision returns the part in use.
\<close>

unbundle bit_operations_syntax

section \<open>Decisions\<close>

datatype arrival = Unicast | Broadcast

datatype via = LocalBroadcast | Peer | ForeignDevice

record target =
  tg_destination :: socket_addr_v4
  tg_via :: via

definition UNUSED_TARGET :: target where
  "UNUSED_TARGET = \<lparr>tg_destination = \<lparr>sa_ip = Ipv4Addr 0 0 0 0, sa_port = 0\<rparr>, tg_via = LocalBroadcast\<rparr>"

record context_in =
  cx_now :: instant
  cx_fdt_fanout :: nat

record fanout =
  fo_targets :: "target list"
  fo_deduplicated :: nat
  fo_fanout_capped :: bool
  fo_dropped :: nat

record distribution =
  ds_origin :: socket_addr_v4
  ds_npdu :: octets
  ds_fanout :: fanout

definition ds_message :: "distribution \<Rightarrow> bvll" where
  "ds_message d = ForwardedNpdu (ds_origin d) (ds_npdu d)"

definition transmissions :: "distribution \<Rightarrow> (socket_addr_v4 \<times> bvll) list" where
  "transmissions d = map (\<lambda>t. (tg_destination t, ds_message d)) (fo_targets (ds_fanout d))"

datatype forward_refusal = NotFromPeer | OwnEcho

definition forward_result_code :: "forward_refusal \<Rightarrow> bvlc_result_code option" where
  "forward_result_code r = (case r of NotFromPeer \<Rightarrow> None | OwnEcho \<Rightarrow> None)"

datatype distribute_refusal = NotRegistered

definition distribute_result_code :: "distribute_refusal \<Rightarrow> bvlc_result_code" where
  "distribute_result_code r = (case r of NotRegistered \<Rightarrow> DISTRIBUTE_BROADCAST_TO_NETWORK_NAK)"

section \<open>The writer\<close>

record writer =
  wr_out :: "target list"
  wr_len :: nat
  wr_peers_start :: nat
  wr_peers_end :: nat
  wr_deduplicated :: nat
  wr_fanout_capped :: bool
  wr_dropped :: nat

definition writer_new :: "target list \<Rightarrow> writer" where
  "writer_new out =
     \<lparr>wr_out = out, wr_len = 0, wr_peers_start = 0, wr_peers_end = 0, wr_deduplicated = 0,
      wr_fanout_capped = False, wr_dropped = 0\<rparr>"

definition writer_push :: "socket_addr_v4 \<Rightarrow> via \<Rightarrow> writer \<Rightarrow> writer" where
  "writer_push destination via w =
     (if wr_len w < length (wr_out w)
      then w\<lparr>wr_out := (wr_out w)[wr_len w := \<lparr>tg_destination = destination, tg_via = via\<rparr>], wr_len := wr_len w + 1\<rparr>
      else w\<lparr>wr_dropped := wr_dropped w + 1\<rparr>)"

definition push_local :: "socket_addr_v4 \<Rightarrow> writer \<Rightarrow> writer" where
  "push_local destination w =
     (let w = writer_push destination LocalBroadcast w in w\<lparr>wr_peers_start := wr_len w, wr_peers_end := wr_len w\<rparr>)"

definition push_unique :: "socket_addr_v4 \<Rightarrow> via \<Rightarrow> writer \<Rightarrow> writer" where
  "push_unique destination via w =
     (if list_ex (\<lambda>t. tg_destination t = destination) (subslice (wr_out w) (wr_peers_start w) (wr_len w))
      then w\<lparr>wr_deduplicated := wr_deduplicated w + 1\<rparr>
      else writer_push destination via w)"

definition is_peer_target :: "socket_addr_v4 \<Rightarrow> writer \<Rightarrow> bool" where
  "is_peer_target destination w =
     list_ex (\<lambda>t. tg_destination t = destination) (subslice (wr_out w) (wr_peers_start w) (wr_peers_end w))"

definition finish :: "writer \<Rightarrow> fanout" where
  "finish w =
     \<lparr>fo_targets = take (wr_len w) (wr_out w), fo_deduplicated = wr_deduplicated w,
      fo_fanout_capped = wr_fanout_capped w, fo_dropped = wr_dropped w\<rparr>"

section \<open>The tables\<close>

record tables =
  tb_bdt :: bdt
  tb_fdt :: fdt
  tb_nat :: "nat_config option"

definition MAX_TARGETS :: "tables \<Rightarrow> nat" where
  "MAX_TARGETS t = length (bd_rows (tb_bdt t)) + length (ft_slots (tb_fdt t)) + 1"

definition tables_new :: "nat \<Rightarrow> nat \<Rightarrow> socket_addr_v4 \<Rightarrow> tables" where
  "tables_new b f own = \<lparr>tb_bdt = bdt_new b own, tb_fdt = fdt_new f, tb_nat = None\<rparr>"

definition own_address_for :: "nat_config option \<Rightarrow> socket_addr_v4 \<Rightarrow> bdt_error + socket_addr_v4" where
  "own_address_for nat_opt local_addr =
     (case nat_opt of
        Some n \<Rightarrow>
          let entry = new_bdt_entry (nt_global n) TWO_HOP_MASK in
          try_res (map_err (InvalidRow entry) (validate_entry entry)) (\<lambda>_. Inr (nt_global n))
      | None \<Rightarrow> Inr local_addr)"

definition leaving_nat :: "nat_config option \<Rightarrow> tables \<Rightarrow> socket_addr_v4 option" where
  "leaving_nat nat_opt t =
     (case (tb_nat t, nat_opt) of (Some old, None) \<Rightarrow> Some (nt_global old) | _ \<Rightarrow> None)"

definition set_nat :: "nat_config option \<Rightarrow> socket_addr_v4 \<Rightarrow> tables \<Rightarrow> (bdt_error + unit) \<times> tables" where
  "set_nat nat_opt local_addr t =
     (case own_address_for nat_opt local_addr of
        Inl e \<Rightarrow> (Inl e, t)
      | Inr own \<Rightarrow>
          (case reconfigure own (nat_opt \<noteq> None) (leaving_nat nat_opt t) (tb_bdt t) of
             (Inl e, b) \<Rightarrow> (Inl e, t\<lparr>tb_bdt := b\<rparr>)
           | (Inr _, b) \<Rightarrow> (Inr (), t\<lparr>tb_bdt := b, tb_nat := nat_opt\<rparr>)))"

definition set_nat_and_bdt :: "nat_config option \<Rightarrow> socket_addr_v4 \<Rightarrow> bdt_entry entries \<Rightarrow> tables
    \<Rightarrow> (bdt_error + unit) \<times> tables" where
  "set_nat_and_bdt nat_opt local_addr table t =
     (case own_address_for nat_opt local_addr of
        Inl e \<Rightarrow> (Inl e, t)
      | Inr own \<Rightarrow>
          (case set_without table (leaving_nat nat_opt t) (with_nat own (nat_opt \<noteq> None) (tb_bdt t)) of
             (Inl e, _) \<Rightarrow> (Inl e, t)
           | (Inr _, b) \<Rightarrow> (Inr (), t\<lparr>tb_bdt := b, tb_nat := nat_opt\<rparr>)))"

definition origin_for :: "socket_addr_v4 \<Rightarrow> (nat_config \<Rightarrow> bool) \<Rightarrow> tables \<Rightarrow> socket_addr_v4" where
  "origin_for source private t =
     (case tb_nat t of Some n \<Rightarrow> if private n then nt_global n else source | None \<Rightarrow> source)"

text \<open>The loop over the rows, then the mark where the peers end.\<close>

definition push_row :: "socket_addr_v4 \<Rightarrow> socket_addr_v4 \<Rightarrow> bdt_entry \<Rightarrow> writer \<Rightarrow> writer" where
  "push_row own exclude row w =
     (if be_address row = own \<or> be_address row = exclude then w
      else push_unique (distribution_address row) Peer w)"

definition peer_targets :: "socket_addr_v4 \<Rightarrow> tables \<Rightarrow> writer \<Rightarrow> writer" where
  "peer_targets exclude t w =
     (let w = fold (push_row (bd_own (tb_bdt t)) exclude) (rows (tb_bdt t)) w in w\<lparr>wr_peers_end := wr_len w\<rparr>)"

text \<open>The loop over the live registrations, which stops when the budget is spent.\<close>

fun device_loop :: "nat \<Rightarrow> socket_addr_v4 \<Rightarrow> registration list \<Rightarrow> nat \<Rightarrow> writer \<Rightarrow> writer" where
  "device_loop fan exclude [] sent w = w"
| "device_loop fan exclude (entry # live) sent w =
     (if rg_address entry = exclude then device_loop fan exclude live sent w
      else if is_peer_target (rg_address entry) w
           then device_loop fan exclude live sent (w\<lparr>wr_deduplicated := wr_deduplicated w + 1\<rparr>)
      else if sent \<ge> fan then w\<lparr>wr_fanout_capped := True\<rparr>
      else device_loop fan exclude live (sent + 1) (writer_push (rg_address entry) ForeignDevice w))"

definition foreign_device_targets_into :: "context_in \<Rightarrow> socket_addr_v4 \<Rightarrow> tables \<Rightarrow> writer \<Rightarrow> writer" where
  "foreign_device_targets_into cx exclude t w =
     device_loop (cx_fdt_fanout cx) exclude (fdt_live_at (cx_now cx) (tb_fdt t)) 0 w"

definition broadcast_targets :: "context_in \<Rightarrow> socket_addr_v4 \<Rightarrow> target list \<Rightarrow> tables \<Rightarrow> fanout" where
  "broadcast_targets cx exclude out t =
     finish (foreign_device_targets_into cx exclude t (peer_targets exclude t (writer_new out)))"

definition foreign_device_targets :: "context_in \<Rightarrow> socket_addr_v4 \<Rightarrow> target list \<Rightarrow> tables \<Rightarrow> fanout" where
  "foreign_device_targets cx exclude out t = finish (foreign_device_targets_into cx exclude t (writer_new out))"

definition original_broadcast :: "context_in \<Rightarrow> socket_addr_v4 \<Rightarrow> octets \<Rightarrow> target list \<Rightarrow> tables \<Rightarrow> distribution" where
  "original_broadcast cx source npdu out t =
     \<lparr>ds_origin = origin_for source (\<lambda>_. True) t, ds_npdu = npdu, ds_fanout = broadcast_targets cx source out t\<rparr>"

definition own_broadcast :: "context_in \<Rightarrow> octets \<Rightarrow> target list \<Rightarrow> tables \<Rightarrow> distribution" where
  "own_broadcast cx npdu out t = original_broadcast cx (bd_own (tb_bdt t)) npdu out t"

definition rebroadcasts_forwarded :: "ipv4_addr option \<Rightarrow> socket_addr_v4 \<Rightarrow> arrival \<Rightarrow> tables \<Rightarrow> bool" where
  "rebroadcasts_forwarded subnet_mask sender arrived t =
     (let own = bd_own (tb_bdt t);
          peers_send_here = (case row_for own (tb_bdt t) of None \<Rightarrow> True | Some row \<Rightarrow> be_mask row = TWO_HOP_MASK);
          sender_on_subnet = (tb_nat t = None \<and> sa_port sender = sa_port own \<and>
            (case subnet_mask of
               None \<Rightarrow> False
             | Some m \<Rightarrow> (ip_to_bits (sa_ip sender) XOR ip_to_bits (sa_ip own)) AND ip_to_bits m = 0))
      in peers_send_here \<and> arrived = Unicast \<and> \<not> sender_on_subnet)"

definition forwarded_npdu :: "context_in \<Rightarrow> local_subnet \<Rightarrow> socket_addr_v4 \<Rightarrow> arrival \<Rightarrow> socket_addr_v4 \<Rightarrow> target list
    \<Rightarrow> tables \<Rightarrow> forward_refusal + fanout" where
  "forwarded_npdu cx subnet sender arrived origin out t =
     (if sender = bd_own (tb_bdt t) then Inl OwnEcho
      else if \<not> bdt_contains sender (tb_bdt t) then Inl NotFromPeer
      else let w = writer_new out;
               m = (if is_group subnet then None else ls_mask subnet);
               w = (if \<not> ls_alone subnet \<and> rebroadcasts_forwarded m sender arrived t
                    then push_local (ls_broadcast subnet) w else w)
           in Inr (finish (foreign_device_targets_into cx origin t w)))"

definition distribute_broadcast :: "context_in \<Rightarrow> local_subnet \<Rightarrow> socket_addr_v4 \<Rightarrow> octets \<Rightarrow> target list
    \<Rightarrow> tables \<Rightarrow> distribute_refusal + distribution" where
  "distribute_broadcast cx subnet sender npdu out t =
     (if \<not> is_registered_at sender (cx_now cx) (tb_fdt t) then Inl NotRegistered
      else let w = writer_new out;
               w = (if \<not> ls_alone subnet then push_local (ls_broadcast subnet) w else w);
               w = foreign_device_targets_into cx sender t (peer_targets sender t w)
           in Inr \<lparr>ds_origin = origin_for sender (is_private (sa_ip sender)) t, ds_npdu = npdu, ds_fanout = finish w\<rparr>)"

section \<open>Management requests\<close>

datatype request =
    RegisterRequest socket_addr_v4 u16
  | ReadBdt socket_addr_v4
  | ReadFdt socket_addr_v4
  | DeleteFdtEntry socket_addr_v4 socket_addr_v4

fun request_sender :: "request \<Rightarrow> socket_addr_v4" where
  "request_sender (RegisterRequest sender ttl) = sender"
| "request_sender (ReadBdt sender) = sender"
| "request_sender (ReadFdt sender) = sender"
| "request_sender (DeleteFdtEntry sender entry) = sender"

text \<open>The host's rules, each of which may change the host's state.\<close>

record 's rules =
  ru_registration_limits :: "'s \<Rightarrow> registration_limits \<times> 's"
  ru_reservation :: "socket_addr_v4 \<Rightarrow> 's \<Rightarrow> reservation \<times> 's"
  ru_admit_registration :: "socket_addr_v4 \<Rightarrow> instant \<Rightarrow> 's \<Rightarrow> bool \<times> 's"
  ru_admit_delete :: "socket_addr_v4 \<Rightarrow> socket_addr_v4 \<Rightarrow> 's \<Rightarrow> bool \<times> 's"

definition Permissive :: "'s rules" where
  "Permissive =
     \<lparr>ru_registration_limits = (\<lambda>s. (DEFAULT_LIMITS, s)), ru_reservation = (\<lambda>_ s. (OrdinarySource, s)),
      ru_admit_registration = (\<lambda>_ _ s. (True, s)), ru_admit_delete = (\<lambda>_ _ s. (True, s))\<rparr>"

datatype delete_refusal = DeleteNotRegistered | DeleteNotAdmitted

definition delete_result_code :: "delete_refusal \<Rightarrow> bvlc_result_code" where
  "delete_result_code r = DELETE_FOREIGN_DEVICE_TABLE_ENTRY_NAK"

datatype served =
    ServedRegister register_outcome
  | ServedReadBdt
  | ServedReadFdt "storage_full + nat"
  | ServedDeleteFdtEntry "delete_refusal + unit"

record answer =
  an_to :: socket_addr_v4
  an_message :: bvll
  an_served :: served

definition result_answer :: "socket_addr_v4 \<Rightarrow> bvlc_result_code \<Rightarrow> served \<Rightarrow> answer" where
  "result_answer to_addr code s = \<lparr>an_to = to_addr, an_message = BvlcResult code, an_served = s\<rparr>"

text \<open>\<open>serve\<close>: the answer, and the tables, the host's state and the row storage after it.\<close>

definition serve :: "request \<Rightarrow> instant \<Rightarrow> 's rules \<Rightarrow> fdt_entry list \<Rightarrow> tables \<Rightarrow> 's
    \<Rightarrow> answer \<times> tables \<times> 's \<times> fdt_entry list" where
  "serve req now rules storage t s =
     (case req of
        RegisterRequest sender ttl \<Rightarrow>
          let (limits, s) = ru_registration_limits rules s;
              (reserved, s) = ru_reservation rules sender s;
              (outcome, f, s) = register sender ttl now limits reserved (ru_admit_registration rules sender now) (tb_fdt t) s;
              code = (case ro_result outcome of
                        Inr _ \<Rightarrow> SUCCESSFUL_COMPLETION | Inl refusal \<Rightarrow> registration_result_code refusal)
          in (result_answer sender code (ServedRegister outcome), t\<lparr>tb_fdt := f\<rparr>, s, storage)
      | ReadBdt sender \<Rightarrow>
          (\<lparr>an_to = sender, an_message = ReadBroadcastDistributionTableAck (bdt_entries (tb_bdt t)),
            an_served = ServedReadBdt\<rparr>, t, s, storage)
      | ReadFdt sender \<Rightarrow>
          (case wire_entries now storage (tb_fdt t) of
             (Inr es, storage) \<Rightarrow>
               (\<lparr>an_to = sender, an_message = ReadForeignDeviceTableAck es,
                 an_served = ServedReadFdt (Inr (entries_len es))\<rparr>, t, s, storage)
           | (Inl full, storage) \<Rightarrow>
               (result_answer sender READ_FOREIGN_DEVICE_TABLE_NAK (ServedReadFdt (Inl full)), t, s, storage))
      | DeleteFdtEntry sender entry \<Rightarrow>
          let (admitted, s) = ru_admit_delete rules sender entry s;
              (deleted, t) =
                (if admitted
                 then let live = is_registered_at entry now (tb_fdt t);
                          (_, f) = fdt_delete entry (tb_fdt t)
                      in (if live then Inr () else Inl DeleteNotRegistered, t\<lparr>tb_fdt := f\<rparr>)
                 else (Inl DeleteNotAdmitted, t));
              code = (case deleted of Inr _ \<Rightarrow> SUCCESSFUL_COMPLETION | Inl refusal \<Rightarrow> delete_result_code refusal)
          in (result_answer sender code (ServedDeleteFdtEntry deleted), t, s, storage))"

section \<open>What the writer holds\<close>

text \<open>The destinations written so far, and room for \<open>n\<close> more.\<close>

definition written :: "writer \<Rightarrow> target list" where "written w = take (wr_len w) (wr_out w)"

definition roomy :: "nat \<Rightarrow> writer \<Rightarrow> bool" where "roomy n w \<longleftrightarrow> wr_len w + n \<le> length (wr_out w)"

definition peer_part :: "writer \<Rightarrow> target list" where
  "peer_part w = subslice (wr_out w) (wr_peers_start w) (wr_len w)"

lemma writer_push_roomy:
  assumes "roomy (Suc n) w"
  shows "written (writer_push d v w) = written w @ [\<lparr>tg_destination = d, tg_via = v\<rparr>]"
    and "roomy n (writer_push d v w)"
    and "wr_peers_start w \<le> wr_len w \<Longrightarrow>
      peer_part (writer_push d v w) = peer_part w @ [\<lparr>tg_destination = d, tg_via = v\<rparr>]"
    and "wr_len (writer_push d v w) = Suc (wr_len w)"
    and "e \<le> wr_len w \<Longrightarrow> subslice (wr_out (writer_push d v w)) s e = subslice (wr_out w) s e"
  using assms
  by (auto simp: writer_push_def roomy_def written_def peer_part_def subslice_snoc subslice_list_update_out
      take_Suc_conv_app_nth)

lemma writer_push_same [simp]:
  "wr_peers_start (writer_push d v w) = wr_peers_start w" "wr_peers_end (writer_push d v w) = wr_peers_end w"
  "wr_deduplicated (writer_push d v w) = wr_deduplicated w" "wr_fanout_capped (writer_push d v w) = wr_fanout_capped w"
  by (simp_all add: writer_push_def)

lemma writer_push_dropped: "roomy (Suc n) w \<Longrightarrow> wr_dropped (writer_push d v w) = wr_dropped w"
  by (simp add: writer_push_def roomy_def)

section \<open>Peers\<close>

abbreviation peer_target :: "socket_addr_v4 \<Rightarrow> target" where
  "peer_target a \<equiv> \<lparr>tg_destination = a, tg_via = Peer\<rparr>"

abbreviation device_target :: "socket_addr_v4 \<Rightarrow> target" where
  "device_target a \<equiv> \<lparr>tg_destination = a, tg_via = ForeignDevice\<rparr>"

abbreviation local_target :: "socket_addr_v4 \<Rightarrow> target" where
  "local_target a \<equiv> \<lparr>tg_destination = a, tg_via = LocalBroadcast\<rparr>"

definition peer_rows :: "socket_addr_v4 \<Rightarrow> tables \<Rightarrow> bdt_entry list" where
  "peer_rows exclude t = filter (\<lambda>r. be_address r \<noteq> bd_own (tb_bdt t) \<and> be_address r \<noteq> exclude) (rows (tb_bdt t))"

definition peer_addresses :: "socket_addr_v4 \<Rightarrow> tables \<Rightarrow> socket_addr_v4 list" where
  "peer_addresses exclude t = first_seen (map distribution_address (peer_rows exclude t))"

text \<open>A writer whose peers so far are \<open>ps\<close>, each once, after the destinations \<open>before\<close>.\<close>

definition holds_peers :: "target list \<Rightarrow> socket_addr_v4 list \<Rightarrow> writer \<Rightarrow> bool" where
  "holds_peers before ps w \<longleftrightarrow> written w = before @ map peer_target ps \<and> length before = wr_peers_start w
     \<and> wr_peers_start w \<le> wr_len w \<and> peer_part w = map peer_target ps \<and> distinct ps
     \<and> wr_dropped w = 0 \<and> \<not> wr_fanout_capped w"

lemma holds_peersD:
  assumes "holds_peers before ps w"
  shows "written w = before @ map peer_target ps" and "length before = wr_peers_start w"
    and "wr_peers_start w \<le> wr_len w" and "peer_part w = map peer_target ps" and "distinct ps"
    and "wr_dropped w = 0" and "\<not> wr_fanout_capped w"
  using assms unfolding holds_peers_def by blast+

lemma push_unique_peer:
  assumes "holds_peers before ps w" "roomy (Suc n) w"
  shows "a \<in> set ps \<Longrightarrow> push_unique a Peer w = w\<lparr>wr_deduplicated := wr_deduplicated w + 1\<rparr>"
    and "a \<notin> set ps \<Longrightarrow> push_unique a Peer w = writer_push a Peer w \<and> holds_peers before (ps @ [a]) (writer_push a Peer w)"
proof -
  note h = holds_peersD [OF assms(1)]
  have ex: "list_ex (\<lambda>t. tg_destination t = a) (subslice (wr_out w) (wr_peers_start w) (wr_len w)) \<longleftrightarrow> a \<in> set ps"
    using h(4) by (auto simp: peer_part_def list_ex_iff)
  show "a \<in> set ps \<Longrightarrow> push_unique a Peer w = w\<lparr>wr_deduplicated := wr_deduplicated w + 1\<rparr>"
    by (simp add: push_unique_def ex)
  assume a: "a \<notin> set ps"
  then show "push_unique a Peer w = writer_push a Peer w \<and> holds_peers before (ps @ [a]) (writer_push a Peer w)"
    using h writer_push_roomy [OF assms(2)] writer_push_dropped [OF assms(2)]
    by (simp add: push_unique_def ex holds_peers_def)
qed

lemma holds_peers_dedup [simp]:
  "holds_peers before ps (w\<lparr>wr_deduplicated := n\<rparr>) = holds_peers before ps w"
  "roomy k (w\<lparr>wr_deduplicated := n\<rparr>) = roomy k w"
  by (simp_all add: holds_peers_def written_def peer_part_def roomy_def)

definition row_targets :: "socket_addr_v4 \<Rightarrow> socket_addr_v4 \<Rightarrow> bdt_entry list \<Rightarrow> socket_addr_v4 list" where
  "row_targets own exclude rs =
     map distribution_address (filter (\<lambda>r. be_address r \<noteq> own \<and> be_address r \<noteq> exclude) rs)"

lemma peer_fold:
  "holds_peers before ps w \<Longrightarrow> roomy (length rs + n) w \<Longrightarrow>
     holds_peers before (first_seen (ps @ row_targets own exclude rs)) (fold (push_row own exclude) rs w)
     \<and> roomy n (fold (push_row own exclude) rs w)
     \<and> wr_deduplicated (fold (push_row own exclude) rs w) + length (first_seen (ps @ row_targets own exclude rs))
       = wr_deduplicated w + length ps + length (row_targets own exclude rs)"
proof (induction rs arbitrary: ps w)
  case Nil
  then show ?case using holds_peersD(5) [OF Nil(1)] by (simp add: row_targets_def first_seen_distinct)
next
  case (Cons r rs)
  let ?a = "distribution_address r"
  have room: "roomy (Suc (length rs + n)) w" "roomy (length rs + n) w" using Cons.prems(2) by (simp_all add: roomy_def)
  show ?case
  proof (cases "be_address r = own \<or> be_address r = exclude")
    case True
    then show ?thesis using Cons.IH [OF Cons.prems(1) room(2)] by (auto simp: push_row_def row_targets_def)
  next
    case False
    then have push: "push_row own exclude r w = push_unique ?a Peer w"
      and as: "row_targets own exclude (r # rs) = ?a # row_targets own exclude rs"
      by (simp_all add: push_row_def row_targets_def)
    note u = push_unique_peer [OF Cons.prems(1) room(1), of ?a]
    show ?thesis
    proof (cases "?a \<in> set ps")
      case True
      from Cons.IH [of ps "w\<lparr>wr_deduplicated := wr_deduplicated w + 1\<rparr>"] Cons.prems(1) room(2)
      show ?thesis by (simp add: push u(1) [OF True] as first_seen_skip [OF True])
    next
      case new: False
      from Cons.IH [of "ps @ [?a]" "writer_push ?a Peer w"] u(2) [OF new] writer_push_roomy(2) [OF room(1)]
      show ?thesis by (simp add: push u(2) [OF new] as)
    qed
  qed
qed

lemma holds_peers_end: "holds_peers before ps w \<Longrightarrow> holds_peers before ps (w\<lparr>wr_peers_end := e\<rparr>)"
  by (simp add: holds_peers_def written_def peer_part_def)

lemma peer_targets_result:
  assumes "holds_peers before [] w" "roomy (length (rows (tb_bdt t)) + n) w"
  shows "holds_peers before (peer_addresses exclude t) (peer_targets exclude t w)"
    and "roomy n (peer_targets exclude t w)"
    and "wr_peers_end (peer_targets exclude t w) = wr_len (peer_targets exclude t w)"
    and "wr_deduplicated (peer_targets exclude t w) + length (peer_addresses exclude t)
      = wr_deduplicated w + length (peer_rows exclude t)"
proof -
  have "row_targets (bd_own (tb_bdt t)) exclude (rows (tb_bdt t)) = map distribution_address (peer_rows exclude t)"
    by (simp add: row_targets_def peer_rows_def)
  with peer_fold [OF assms, of "bd_own (tb_bdt t)" exclude]
  show "holds_peers before (peer_addresses exclude t) (peer_targets exclude t w)"
    and "roomy n (peer_targets exclude t w)"
    and "wr_peers_end (peer_targets exclude t w) = wr_len (peer_targets exclude t w)"
    and "wr_deduplicated (peer_targets exclude t w) + length (peer_addresses exclude t)
      = wr_deduplicated w + length (peer_rows exclude t)"
    by (simp_all add: peer_targets_def Let_def peer_addresses_def holds_peers_end roomy_def)
qed

section \<open>Foreign devices\<close>

text \<open>The devices a decision may go to: live, not the source, and not already reached as a peer.\<close>

definition wanted :: "socket_addr_v4 \<Rightarrow> socket_addr_v4 list \<Rightarrow> registration list \<Rightarrow> socket_addr_v4 list" where
  "wanted exclude ps live = filter (\<lambda>a. a \<noteq> exclude \<and> a \<notin> set ps) (map rg_address live)"

lemma device_loop_result:
  assumes "roomy (length live) w" "wr_peers_end w \<le> wr_len w"
    and "map tg_destination (subslice (wr_out w) (wr_peers_start w) (wr_peers_end w)) = ps" "sent \<le> fan"
  shows "written (device_loop fan exclude live sent w)
      = written w @ map device_target (take (fan - sent) (wanted exclude ps live))"
    and "wr_dropped (device_loop fan exclude live sent w) = wr_dropped w"
    and "wr_fanout_capped (device_loop fan exclude live sent w)
      \<longleftrightarrow> wr_fanout_capped w \<or> fan - sent < length (wanted exclude ps live)"
    and "fan - sent \<ge> length (wanted exclude ps live) \<Longrightarrow>
      wr_deduplicated (device_loop fan exclude live sent w)
        = wr_deduplicated w + length (filter (\<lambda>a. a \<noteq> exclude \<and> a \<in> set ps) (map rg_address live))"
proof -
  have "written (device_loop fan exclude live sent w)
      = written w @ map device_target (take (fan - sent) (wanted exclude ps live))
    \<and> wr_dropped (device_loop fan exclude live sent w) = wr_dropped w
    \<and> (wr_fanout_capped (device_loop fan exclude live sent w)
      \<longleftrightarrow> wr_fanout_capped w \<or> fan - sent < length (wanted exclude ps live))
    \<and> (fan - sent \<ge> length (wanted exclude ps live) \<longrightarrow>
      wr_deduplicated (device_loop fan exclude live sent w)
        = wr_deduplicated w + length (filter (\<lambda>a. a \<noteq> exclude \<and> a \<in> set ps) (map rg_address live)))"
    using assms
  proof (induction live arbitrary: sent w)
    case Nil
    then show ?case by (simp add: wanted_def)
  next
    case (Cons e live)
    let ?a = "rg_address e"
    have room: "roomy (length live) w" "roomy (Suc (length live)) w" using Cons.prems(1) by (simp_all add: roomy_def)
    have peer: "is_peer_target ?a w \<longleftrightarrow> ?a \<in> set ps"
      unfolding is_peer_target_def list_ex_iff using Cons.prems(3)
      by (metis (mono_tags, lifting) imageE imageI list.set_map)
    consider "?a = exclude" | "?a \<noteq> exclude" "?a \<in> set ps" | "?a \<noteq> exclude" "?a \<notin> set ps" "fan \<le> sent"
      | "?a \<noteq> exclude" "?a \<notin> set ps" "sent < fan" by linarith
    then show ?case
    proof cases
      case 1
      then show ?thesis using Cons.IH [OF room(1) Cons.prems(2-4)] by (simp add: wanted_def)
    next
      case 2
      let ?w = "w\<lparr>wr_deduplicated := wr_deduplicated w + 1\<rparr>"
      have "written ?w = written w" by (simp add: written_def)
      then show ?thesis using Cons.IH [of ?w sent] room Cons.prems 2 peer by (auto simp: wanted_def)
    next
      case 3
      then show ?thesis using Cons.prems(4) peer by (simp add: wanted_def written_def)
    next
      case 4
      let ?w = "writer_push ?a ForeignDevice w"
      note p = writer_push_roomy [OF room(2), where d = ?a and v = ForeignDevice]
        writer_push_dropped [OF room(2), where d = ?a and v = ForeignDevice]
      have sl: "map tg_destination (subslice (wr_out ?w) (wr_peers_start ?w) (wr_peers_end ?w)) = ps"
        using Cons.prems(2,3) p(5) by simp
      have "take (fan - sent) (?a # xs) = ?a # take (fan - Suc sent) xs" for xs
        using 4(3) by (simp add: take_Cons' Suc_diff_Suc)
      moreover have "fan - sent < Suc k \<longleftrightarrow> fan - Suc sent < k" "Suc k \<le> fan - sent \<longleftrightarrow> k \<le> fan - Suc sent" for k
        using 4(3) by linarith+
      ultimately show ?thesis
        using Cons.IH [OF p(2) _ sl, of "Suc sent"] 4 peer p Cons.prems(2) by (simp add: wanted_def)
    qed
  qed
  then show "written (device_loop fan exclude live sent w)
      = written w @ map device_target (take (fan - sent) (wanted exclude ps live))"
    and "wr_dropped (device_loop fan exclude live sent w) = wr_dropped w"
    and "wr_fanout_capped (device_loop fan exclude live sent w)
      \<longleftrightarrow> wr_fanout_capped w \<or> fan - sent < length (wanted exclude ps live)"
    and "fan - sent \<ge> length (wanted exclude ps live) \<Longrightarrow>
      wr_deduplicated (device_loop fan exclude live sent w)
        = wr_deduplicated w + length (filter (\<lambda>a. a \<noteq> exclude \<and> a \<in> set ps) (map rg_address live))"
    by blast+
qed

section \<open>A whole decision\<close>

text \<open>
  What a decision with enough storage comes to: after the destinations \<open>before\<close>, the peers and
  then the devices up to the budget.
\<close>

definition complete_fanout :: "target list \<Rightarrow> socket_addr_v4 list \<Rightarrow> socket_addr_v4 \<Rightarrow> context_in \<Rightarrow> tables \<Rightarrow> fanout \<Rightarrow> bool" where
  "complete_fanout before ps exclude cx t f \<longleftrightarrow>
     (let ds = wanted exclude ps (fdt_live_at (cx_now cx) (tb_fdt t)) in
      fo_targets f = before @ map peer_target ps @ map device_target (take (cx_fdt_fanout cx) ds)
      \<and> fo_dropped f = 0 \<and> (fo_fanout_capped f \<longleftrightarrow> cx_fdt_fanout cx < length ds))"

definition tables_wf :: "tables \<Rightarrow> bool" where
  "tables_wf t \<longleftrightarrow> bdt_wf (tb_bdt t) \<and> fdt_wf (tb_fdt t) \<and> (bd_behind_nat (tb_bdt t) \<longleftrightarrow> tb_nat t \<noteq> None)"

lemma length_rows_le: "bdt_wf b \<Longrightarrow> length (rows b) \<le> length (bd_rows b)"
  using bdt_wfD(1) [of b] by (simp add: rows_def)

lemma length_live_le: "fdt_wf f \<Longrightarrow> length (fdt_live_at now f) \<le> length (ft_slots f)"
  unfolding fdt_live_at_def
  by (rule order_trans [OF length_filter_le]) (simp add: registrations_def)

lemma finish_simps [simp]:
  "fo_targets (finish w) = written w" "fo_dropped (finish w) = wr_dropped w"
  "fo_fanout_capped (finish w) = wr_fanout_capped w" "fo_deduplicated (finish w) = wr_deduplicated w"
  by (simp_all add: finish_def written_def)

lemma writer_new_holds: "holds_peers [] [] (writer_new out)" "wr_len (writer_new out) = 0"
  "wr_peers_end (writer_new out) = 0" "wr_out (writer_new out) = out" "wr_peers_start (writer_new out) = 0"
  by (simp_all add: writer_new_def holds_peers_def written_def peer_part_def)

lemma push_local_holds:
  assumes "out \<noteq> []"
  shows "holds_peers [local_target a] [] (push_local a (writer_new out))" "wr_len (push_local a (writer_new out)) = 1"
    "length (wr_out (push_local a (writer_new out))) = length out"
    "wr_peers_end (push_local a (writer_new out)) = 1" "wr_peers_start (push_local a (writer_new out)) = 1"
  using assms
  by (simp_all add: push_local_def writer_push_def writer_new_def holds_peers_def written_def peer_part_def Let_def
      take_Suc_conv_app_nth)

lemma devices_after_peers:
  assumes "holds_peers before ps w" "wr_peers_end w = wr_len w" "roomy (length (fdt_live_at (cx_now cx) (tb_fdt t))) w"
  shows "complete_fanout before ps exclude cx t (finish (foreign_device_targets_into cx exclude t w))"
proof -
  note h = holds_peersD [OF assms(1)]
  have "map tg_destination (subslice (wr_out w) (wr_peers_start w) (wr_peers_end w)) = ps"
    using h(4) assms(2) by (simp add: peer_part_def o_def)
  note r = device_loop_result [OF assms(3) _ this, of 0 "cx_fdt_fanout cx" exclude]
  show ?thesis
    using r(1-3) h assms(2) by (simp add: complete_fanout_def Let_def foreign_device_targets_into_def)
qed

lemma decision_with_peers:
  assumes wf: "tables_wf t" and start: "holds_peers before [] w"
    and room: "wr_len w + length (bd_rows (tb_bdt t)) + length (ft_slots (tb_fdt t)) \<le> length (wr_out w)"
  shows "complete_fanout before (peer_addresses exclude t) exclude cx t
    (finish (foreign_device_targets_into cx exclude t (peer_targets exclude t w)))"
proof -
  have "roomy (length (rows (tb_bdt t)) + length (fdt_live_at (cx_now cx) (tb_fdt t))) w"
    using room length_rows_le [of "tb_bdt t"] length_live_le [of "tb_fdt t" "cx_now cx"] wf
    by (simp add: roomy_def tables_wf_def)
  note p = peer_targets_result [OF start this, of exclude]
  show ?thesis by (rule devices_after_peers [OF p(1,3,2)])
qed

text \<open>What a complete decision means for who is reached.\<close>

lemma live_addresses_distinct: "fdt_wf f \<Longrightarrow> distinct (map rg_address (fdt_live_at now f))"
  by (simp add: fdt_live_at_def fdt_wf_def distinct_map_filter)

lemma live_iff: "fdt_wf f \<Longrightarrow> a \<in> rg_address ` set (fdt_live_at now f) \<longleftrightarrow> is_registered_at a now f"
  by (auto simp: is_registered_iff fdt_live_at_def)

lemma complete_fanout_reaches:
  assumes "complete_fanout before ps exclude cx t f" "fdt_wf (tb_fdt t)" "distinct ps"
    and "\<forall>b \<in> set before. tg_via b = LocalBroadcast"
  shows "\<forall>a. peer_target a \<in> set (fo_targets f) \<longleftrightarrow> a \<in> set ps"
    and "\<forall>a. device_target a \<in> set (fo_targets f) \<longrightarrow> is_registered_at a (cx_now cx) (tb_fdt t) \<and> a \<noteq> exclude"
    and "\<forall>a. is_registered_at a (cx_now cx) (tb_fdt t) \<and> a \<noteq> exclude \<and> \<not> fo_fanout_capped f
      \<longrightarrow> a \<in> tg_destination ` set (fo_targets f)"
    and "distinct (map tg_destination (filter (\<lambda>x. tg_via x \<noteq> LocalBroadcast) (fo_targets f)))"
    and "length (filter (\<lambda>x. tg_via x = ForeignDevice) (fo_targets f)) \<le> cx_fdt_fanout cx"
proof -
  define ds where "ds = wanted exclude ps (fdt_live_at (cx_now cx) (tb_fdt t))"
  define fan where "fan = cx_fdt_fanout cx"
  have f: "fo_targets f = before @ map peer_target ps @ map device_target (take fan ds)"
    "fo_fanout_capped f \<longleftrightarrow> fan < length ds"
    using assms(1) by (simp_all add: complete_fanout_def Let_def ds_def fan_def)
  have nb: "b \<notin> set before" if "tg_via b \<noteq> LocalBroadcast" for b using that assms(4) by auto
  have ds: "a \<in> set ds \<longleftrightarrow> is_registered_at a (cx_now cx) (tb_fdt t) \<and> a \<noteq> exclude \<and> a \<notin> set ps" for a
    using live_iff [OF assms(2)] by (auto simp: ds_def wanted_def)
  have dist: "distinct ds" unfolding ds_def wanted_def using live_addresses_distinct [OF assms(2)] by (rule distinct_filter)
  have tk: "a \<in> set (take fan ds) \<Longrightarrow> a \<in> set ds" for a by (rule in_set_takeD)
  show "\<forall>a. peer_target a \<in> set (fo_targets f) \<longleftrightarrow> a \<in> set ps"
    using nb [of "peer_target _"] by (auto simp: f)
  show "\<forall>a. device_target a \<in> set (fo_targets f) \<longrightarrow> is_registered_at a (cx_now cx) (tb_fdt t) \<and> a \<noteq> exclude"
    using nb [of "device_target _"] tk ds by (auto simp: f)
  show "\<forall>a. is_registered_at a (cx_now cx) (tb_fdt t) \<and> a \<noteq> exclude \<and> \<not> fo_fanout_capped f
      \<longrightarrow> a \<in> tg_destination ` set (fo_targets f)"
  proof (intro allI impI)
    fix a assume a: "is_registered_at a (cx_now cx) (tb_fdt t) \<and> a \<noteq> exclude \<and> \<not> fo_fanout_capped f"
    then have "a \<in> set ps \<or> a \<in> set (take fan ds)" using ds f(2) by auto
    then show "a \<in> tg_destination ` set (fo_targets f)" by (force simp: f(1))
  qed
  have fb: "filter (\<lambda>x. tg_via x \<noteq> LocalBroadcast) before = []" "filter (\<lambda>x. tg_via x = ForeignDevice) before = []"
    using assms(4) by (auto simp: filter_empty_conv)
  have fl: "filter (\<lambda>x. tg_via x \<noteq> LocalBroadcast) (fo_targets f) = map peer_target ps @ map device_target (take fan ds)"
    unfolding f(1) filter_append fb by (simp add: filter_map o_def)
  show "distinct (map tg_destination (filter (\<lambda>x. tg_via x \<noteq> LocalBroadcast) (fo_targets f)))"
    unfolding fl using assms(3) dist tk ds by (auto simp: o_def)
  have "filter (\<lambda>x. tg_via x = ForeignDevice) (fo_targets f) = map device_target (take fan ds)"
    unfolding f(1) filter_append fb by (simp add: filter_map o_def)
  then show "length (filter (\<lambda>x. tg_via x = ForeignDevice) (fo_targets f)) \<le> cx_fdt_fanout cx"
    by (simp add: fan_def)
qed

section \<open>The states of the tables\<close>

lemma set_nat_keeps:
  assumes "tables_wf t" "set_nat nat_opt local_addr t = (res, t')"
  shows "tables_wf t' \<and> length (bd_rows (tb_bdt t')) = length (bd_rows (tb_bdt t)) \<and> tb_fdt t' = tb_fdt t
    \<and> (res \<noteq> Inr () \<longrightarrow> t' = t)"
proof (cases "own_address_for nat_opt local_addr")
  case (Inl e)
  then show ?thesis using assms by (auto simp: set_nat_def)
next
  case (Inr own)
  obtain r b where re: "reconfigure own (nat_opt \<noteq> None) (leaving_nat nat_opt t) (tb_bdt t) = (r, b)" by fastforce
  have wf: "bdt_wf (tb_bdt t)" using assms(1) by (simp add: tables_wf_def)
  from reconfigure_keeps [OF wf re] assms Inr re show ?thesis
    by (cases r) (auto simp: set_nat_def keeps_def tables_wf_def)
qed

lemma set_nat_and_bdt_keeps:
  assumes "tables_wf t" "set_nat_and_bdt nat_opt local_addr table t = (res, t')"
  shows "tables_wf t' \<and> length (bd_rows (tb_bdt t')) = length (bd_rows (tb_bdt t)) \<and> tb_fdt t' = tb_fdt t
    \<and> (res \<noteq> Inr () \<longrightarrow> t' = t)"
proof (cases "own_address_for nat_opt local_addr")
  case (Inl e)
  then show ?thesis using assms by (auto simp: set_nat_and_bdt_def)
next
  case (Inr own)
  let ?w = "with_nat own (nat_opt \<noteq> None) (tb_bdt t)"
  obtain r b where se: "set_without table (leaving_nat nat_opt t) ?w = (r, b)" by fastforce
  obtain table' where "bdt_set table' ?w = (r, b)" using set_without_is_set se by metis
  with bdt_set_outcome [of table' ?w] assms Inr se show ?thesis
    by (cases r) (auto simp: set_nat_and_bdt_def tables_wf_def)
qed

lemma serve_cases:
  assumes "fdt_wf (tb_fdt t)" "serve req now rules storage t s = (a, t', s', storage')"
  shows "tb_bdt t' = tb_bdt t \<and> tb_nat t' = tb_nat t \<and> fdt_wf (tb_fdt t')
    \<and> length (ft_slots (tb_fdt t')) = length (ft_slots (tb_fdt t)) \<and> an_to a = request_sender req"
proof (cases req)
  case (RegisterRequest sender ttl)
  obtain limits s1 where l: "ru_registration_limits rules s = (limits, s1)" by fastforce
  obtain reserved s2 where r: "ru_reservation rules sender s1 = (reserved, s2)" by fastforce
  obtain out f s3 where g: "register sender ttl now limits reserved (ru_admit_registration rules sender now) (tb_fdt t) s2 = (out, f, s3)"
    by (metis prod_cases3)
  from register_wf [OF assms(1) g] assms(2) show ?thesis
    by (auto simp: serve_def RegisterRequest l r g result_answer_def)
next
  case (DeleteFdtEntry sender entry)
  from fdt_delete_refines(3,4) [OF assms(1), of entry] assms show ?thesis
    by (auto simp: serve_def DeleteFdtEntry result_answer_def Let_def split: prod.splits if_splits)
qed (use assms in \<open>auto simp: serve_def result_answer_def split: prod.splits sum.splits\<close>)

text \<open>
  Every state of the tables their operations lead to: the setters of the distribution table and
  the NAT, requests served and registrations made, deleted, purged and restored, in any order.
\<close>

inductive tables_reach :: "nat \<Rightarrow> nat \<Rightarrow> tables \<times> 's \<Rightarrow> bool" for b f where
  start: "tables_reach b f (tables_new b f own, s)"
| host: "tables_reach b f (t, s) \<Longrightarrow> tables_reach b f (t, s')"
| set: "tables_reach b f (t, s) \<Longrightarrow> tables_reach b f (t\<lparr>tb_bdt := snd (bdt_set table (tb_bdt t))\<rparr>, s)"
| group: "tables_reach b f (t, s) \<Longrightarrow> tables_reach b f (t\<lparr>tb_bdt := snd (set_serves_group serves (tb_bdt t))\<rparr>, s)"
| own: "tables_reach b f (t, s) \<Longrightarrow> tables_reach b f (t\<lparr>tb_bdt := snd (set_own_address own (tb_bdt t))\<rparr>, s)"
| nat: "tables_reach b f (t, s) \<Longrightarrow> tables_reach b f (snd (set_nat nat_opt local_addr t), s)"
| nat_and_bdt: "tables_reach b f (t, s) \<Longrightarrow> tables_reach b f (snd (set_nat_and_bdt nat_opt local_addr table t), s)"
| register: "tables_reach b f (t, s) \<Longrightarrow>
    register source ttl now limits reserved admit (tb_fdt t) s = (out, d, s') \<Longrightarrow> tables_reach b f (t\<lparr>tb_fdt := d\<rparr>, s')"
| delete: "tables_reach b f (t, s) \<Longrightarrow> tables_reach b f (t\<lparr>tb_fdt := snd (fdt_delete a (tb_fdt t))\<rparr>, s)"
| purge: "tables_reach b f (t, s) \<Longrightarrow> tables_reach b f (t\<lparr>tb_fdt := snd (purge now (tb_fdt t))\<rparr>, s)"
| restore: "tables_reach b f (t, s) \<Longrightarrow> tables_reach b f (t\<lparr>tb_fdt := snd (restore reg (tb_fdt t))\<rparr>, s)"
| serve: "tables_reach b f (t, s) \<Longrightarrow> serve req now rules storage t s = (a, t', s', storage') \<Longrightarrow> tables_reach b f (t', s')"

definition tables_sized :: "nat \<Rightarrow> nat \<Rightarrow> tables \<Rightarrow> bool" where
  "tables_sized b f t \<longleftrightarrow> tables_wf t \<and> length (bd_rows (tb_bdt t)) = b \<and> length (ft_slots (tb_fdt t)) = f"

lemma bdt_step_sized:
  assumes "tables_sized b f t" "keeps (tb_bdt t) (res, d)" "bd_behind_nat d = bd_behind_nat (tb_bdt t)"
  shows "tables_sized b f (t\<lparr>tb_bdt := d\<rparr>)"
  using assms by (auto simp: tables_sized_def tables_wf_def keeps_def)

lemma fdt_step_sized:
  assumes "tables_sized b f t" "fdt_wf d" "length (ft_slots d) = length (ft_slots (tb_fdt t))"
  shows "tables_sized b f (t\<lparr>tb_fdt := d\<rparr>)"
  using assms by (auto simp: tables_sized_def tables_wf_def)

lemma bdt_set_same_nat: "bd_behind_nat (snd (bdt_set table t)) = bd_behind_nat t"
proof (cases "bdt_set table t")
  case (Pair res t')
  then show ?thesis using bdt_set_outcome [of table t] by (cases res) auto
qed

lemma set_serves_group_same_nat: "bd_behind_nat (snd (set_serves_group serves t)) = bd_behind_nat t"
  by (auto simp: set_serves_group_def split: sum.splits)

lemma set_own_address_same_nat:
  assumes "bdt_wf t"
  shows "bd_behind_nat (snd (set_own_address own t)) = bd_behind_nat t"
proof (cases "set_own_address own t")
  case (Pair res t')
  show ?thesis
  proof (cases "res = Inr ()")
    case True
    then show ?thesis using set_own_address_keeps(2) [OF assms Pair] Pair by simp
  next
    case False
    then show ?thesis using set_own_address_keeps(1) [OF assms Pair] Pair by (simp add: keeps_def)
  qed
qed

lemma tables_reach_sized: "tables_reach b f x \<Longrightarrow> tables_sized b f (fst x)"
proof (induction rule: tables_reach.induct)
  case (start own s)
  then show ?case by (simp add: tables_sized_def tables_wf_def tables_new_def fdt_new_refines bdt_new_def rows_def
        configured_rows_def bdt_wf_def)
next
  case (set t s table)
  then have wf: "bdt_wf (tb_bdt t)" by (simp add: tables_sized_def tables_wf_def)
  from bdt_step_sized [of b f t "fst (bdt_set table (tb_bdt t))" "snd (bdt_set table (tb_bdt t))"] set
    bdt_set_keeps [OF wf, of table] bdt_set_same_nat
  show ?case by simp
next
  case (group t s serves)
  then have wf: "bdt_wf (tb_bdt t)" by (simp add: tables_sized_def tables_wf_def)
  obtain res d where g: "set_serves_group serves (tb_bdt t) = (res, d)" by fastforce
  from set_serves_group_keeps [OF wf g] set_serves_group_same_nat [of serves "tb_bdt t"] g group.IH
  show ?case by (simp add: tables_sized_def tables_wf_def)
next
  case (own t s own)
  then have wf: "bdt_wf (tb_bdt t)" by (simp add: tables_sized_def tables_wf_def)
  obtain res d where g: "set_own_address own (tb_bdt t) = (res, d)" by fastforce
  from bdt_step_sized [OF _ set_own_address_keeps(1) [OF wf g]] set_own_address_same_nat [OF wf, of own] g own.IH
  show ?case by simp
next
  case (nat t s nat_opt local_addr)
  then show ?case using set_nat_keeps [of t nat_opt local_addr] by (cases "set_nat nat_opt local_addr t") (auto simp: tables_sized_def)
next
  case (nat_and_bdt t s nat_opt local_addr table)
  then show ?case using set_nat_and_bdt_keeps [of t nat_opt local_addr table]
    by (cases "set_nat_and_bdt nat_opt local_addr table t") (auto simp: tables_sized_def)
next
  case (register t s source ttl now limits reserved admit out d s')
  then have "fdt_wf (tb_fdt t)" by (simp add: tables_sized_def tables_wf_def)
  from register_wf [OF this register.hyps(2)] register.IH show ?case by (simp add: fdt_step_sized)
next
  case (delete t s a)
  then have "fdt_wf (tb_fdt t)" by (simp add: tables_sized_def tables_wf_def)
  from fdt_delete_refines [OF this] delete.IH show ?case by (simp add: fdt_step_sized)
next
  case (purge t s now)
  then have "fdt_wf (tb_fdt t)" by (simp add: tables_sized_def tables_wf_def)
  from purge_refines [OF this] purge.IH show ?case by (simp add: fdt_step_sized)
next
  case (restore t s reg)
  then have wf: "fdt_wf (tb_fdt t)" by (simp add: tables_sized_def tables_wf_def)
  obtain res d where r: "restore reg (tb_fdt t) = (res, d)" by fastforce
  from restore_refines(1,2) [OF wf r] r restore.IH show ?case by (simp add: fdt_step_sized)
next
  case (serve t s req now rules storage a t' s' storage')
  then have "fdt_wf (tb_fdt t)" by (simp add: tables_sized_def tables_wf_def)
  from serve_cases [OF this serve.hyps(2)] serve.IH show ?case by (simp add: tables_sized_def tables_wf_def)
qed simp

section \<open>Correctness of the BBMD's decisions\<close>

text \<open>
  C3: However a BBMD's tables are configured and its requests interleave, the distribution table
  never outgrows its rows, lists every address once and its own address whenever it lists any;
  behind a NAT router every mask is all ones, and the own row is so too for a BBMD that serves
  a multicast group; the foreign device table never outgrows its slots and holds every address
  once; and NAT rules apply exactly when a NAT is set.
\<close>

theorem tables_invariant:
  assumes "tables_reach b f (t, s)"
  shows "bd_len (tb_bdt t) \<le> b \<and> distinct (map be_address (rows (tb_bdt t)))
    \<and> (rows (tb_bdt t) \<noteq> [] \<longrightarrow> bdt_contains (bd_own (tb_bdt t)) (tb_bdt t))
    \<and> (\<forall>r \<in> set (configured_rows (tb_bdt t)). validate_entry r = Inr ())
    \<and> (tb_nat t \<noteq> None \<longrightarrow> (\<forall>r \<in> set (rows (tb_bdt t)). be_mask r = TWO_HOP_MASK))
    \<and> (bd_serves_group (tb_bdt t) \<longrightarrow>
         (\<forall>r \<in> set (rows (tb_bdt t)). be_address r = bd_own (tb_bdt t) \<longrightarrow> be_mask r = TWO_HOP_MASK))
    \<and> ft_len (tb_fdt t) \<le> f \<and> distinct (map rg_address (registrations (tb_fdt t)))
    \<and> (bd_behind_nat (tb_bdt t) \<longleftrightarrow> tb_nat t \<noteq> None)"
proof -
  have sz: "length (bd_rows (tb_bdt t)) = b" "length (ft_slots (tb_fdt t)) = f" "tables_wf t"
    using tables_reach_sized [OF assms] by (simp_all add: tables_sized_def)
  then have "bdt_wf (tb_bdt t)" "fdt_wf (tb_fdt t)" "bd_behind_nat (tb_bdt t) \<longleftrightarrow> tb_nat t \<noteq> None"
    by (simp_all add: tables_wf_def)
  then show ?thesis
    using sz(1,2) bdt_wfD [OF \<open>bdt_wf (tb_bdt t)\<close>] unfolding fdt_wf_def bdt_contains_iff by blast
qed

definition site_own :: socket_addr_v4 where "site_own = \<lparr>sa_ip = Ipv4Addr 10 0 1 1, sa_port = 47808\<rparr>"

definition site :: tables where
  "site = (tables_new 2 2 site_own)
     \<lparr>tb_bdt := snd (bdt_set (Typed [new_bdt_entry \<lparr>sa_ip = Ipv4Addr 10 0 2 1, sa_port = 47808\<rparr> TWO_HOP_MASK])
                      (bdt_new 2 site_own)),
      tb_fdt := one_device\<rparr>"

lemma site_reached: "tables_reach 2 2 (site, ())"
proof -
  let ?t = "tables_new 2 2 site_own"
  have "tables_reach 2 2 (?t\<lparr>tb_bdt := snd (bdt_set (Typed [new_bdt_entry \<lparr>sa_ip = Ipv4Addr 10 0 2 1, sa_port = 47808\<rparr> TWO_HOP_MASK]) (tb_bdt ?t))\<rparr>, ())"
    by (intro tables_reach.set tables_reach.start)
  from tables_reach.register [OF this] one_device_registered
  show ?thesis by (simp add: site_def tables_new_def)
qed

theorem tables_invariant_witness: "bd_len (tb_bdt site) \<le> 2 \<and> distinct (map be_address (rows (tb_bdt site)))"
  using tables_invariant [OF site_reached] by blast

lemma distribute_targets:
  assumes wf: "tables_wf t" and storage: "MAX_TARGETS t \<le> length out"
    and d: "distribute_broadcast cx subnet sender npdu out t = Inr d"
  shows "complete_fanout (if ls_alone subnet then [] else [local_target (ls_broadcast subnet)]) (peer_addresses sender t) sender cx t (ds_fanout d)"
    and "ds_npdu d = npdu"
    and "a \<in> set (peer_addresses sender t) \<longleftrightarrow> (\<exists>r \<in> set (rows (tb_bdt t)).
      be_address r \<noteq> bd_own (tb_bdt t) \<and> be_address r \<noteq> sender \<and> a = distribution_address r)"
proof -
  define before where "before = (if ls_alone subnet then [] else [local_target (ls_broadcast subnet)])"
  define w where "w = (if \<not> ls_alone subnet then push_local (ls_broadcast subnet) (writer_new out) else writer_new out)"
  have ne: "out \<noteq> []" using storage by (auto simp: MAX_TARGETS_def)
  have start: "holds_peers before [] w"
    using push_local_holds(1) [OF ne] writer_new_holds(1) by (simp add: before_def w_def)
  have "wr_len w + length (bd_rows (tb_bdt t)) + length (ft_slots (tb_fdt t)) \<le> length (wr_out w)"
    using storage push_local_holds(2,3) [OF ne] writer_new_holds(2,4) [of out]
    by (simp add: w_def MAX_TARGETS_def)
  from decision_with_peers [OF wf start this, of sender cx]
  show "complete_fanout (if ls_alone subnet then [] else [local_target (ls_broadcast subnet)]) (peer_addresses sender t) sender cx t (ds_fanout d)"
    and "ds_npdu d = npdu"
    using d by (auto simp: distribute_broadcast_def Let_def w_def before_def split: if_splits)
  show "a \<in> set (peer_addresses sender t) \<longleftrightarrow> (\<exists>r \<in> set (rows (tb_bdt t)).
      be_address r \<noteq> bd_own (tb_bdt t) \<and> be_address r \<noteq> sender \<and> a = distribution_address r)"
    by (auto simp: peer_addresses_def peer_rows_def)
qed

text \<open>What goes on the wire for an accepted distribution, and where to.\<close>

lemma distribute_transmits:
  assumes wf: "tables_wf t" and storage: "MAX_TARGETS t \<le> length out"
    and d: "distribute_broadcast cx subnet sender npdu out t = Inr d"
  shows "snd ` set (transmissions d) \<subseteq> {ds_message d}"
    and "\<not> ls_alone subnet \<longrightarrow> (ls_broadcast subnet, ds_message d) \<in> set (transmissions d)"
    and "\<forall>r \<in> set (rows (tb_bdt t)). be_address r \<noteq> bd_own (tb_bdt t) \<and> be_address r \<noteq> sender
      \<longrightarrow> (distribution_address r, ds_message d) \<in> set (transmissions d)"
    and "\<forall>a. is_registered_at a (cx_now cx) (tb_fdt t) \<and> a \<noteq> sender
      \<and> length (fdt_live_at (cx_now cx) (tb_fdt t)) \<le> cx_fdt_fanout cx \<longrightarrow> (a, ds_message d) \<in> set (transmissions d)"
proof -
  note dt = distribute_targets [OF wf storage d]
  have fw: "fdt_wf (tb_fdt t)" using wf by (simp add: tables_wf_def)
  let ?before = "if ls_alone subnet then [] else [local_target (ls_broadcast subnet)]"
  have before: "\<forall>b \<in> set ?before. tg_via b = LocalBroadcast" by simp
  have dis: "distinct (peer_addresses sender t)" by (simp add: peer_addresses_def)
  note r = complete_fanout_reaches [OF dt(1) fw dis before]
  have sent: "(a, ds_message d) \<in> set (transmissions d) \<longleftrightarrow> a \<in> tg_destination ` set (fo_targets (ds_fanout d))" for a
    by (auto simp: transmissions_def)
  have ts: "fo_targets (ds_fanout d) = ?before @ map peer_target (peer_addresses sender t)
      @ map device_target (take (cx_fdt_fanout cx) (wanted sender (peer_addresses sender t) (fdt_live_at (cx_now cx) (tb_fdt t))))"
    using dt(1) by (simp add: complete_fanout_def Let_def)
  show "snd ` set (transmissions d) \<subseteq> {ds_message d}" by (auto simp: transmissions_def)
  show "\<not> ls_alone subnet \<longrightarrow> (ls_broadcast subnet, ds_message d) \<in> set (transmissions d)"
    unfolding sent ts by simp
  show "\<forall>r \<in> set (rows (tb_bdt t)). be_address r \<noteq> bd_own (tb_bdt t) \<and> be_address r \<noteq> sender
      \<longrightarrow> (distribution_address r, ds_message d) \<in> set (transmissions d)"
    unfolding sent ts using dt(3) by (auto simp: image_Un image_image)
  have "length (wanted sender (peer_addresses sender t) (fdt_live_at (cx_now cx) (tb_fdt t))) \<le> length (fdt_live_at (cx_now cx) (tb_fdt t))"
    by (simp add: wanted_def order_trans [OF length_filter_le])
  then have "length (fdt_live_at (cx_now cx) (tb_fdt t)) \<le> cx_fdt_fanout cx \<Longrightarrow> \<not> fo_fanout_capped (ds_fanout d)"
    using dt(1) by (simp add: complete_fanout_def Let_def)
  then show "\<forall>a. is_registered_at a (cx_now cx) (tb_fdt t) \<and> a \<noteq> sender
      \<and> length (fdt_live_at (cx_now cx) (tb_fdt t)) \<le> cx_fdt_fanout cx \<longrightarrow> (a, ds_message d) \<in> set (transmissions d)"
    unfolding sent using r(3) by blast
qed

text \<open>
  C32: A foreign device's broadcast is accepted exactly while its registration is live, and then,
  given the storage a decision may need, reaches the whole network. One copy goes to the local
  broadcast address, first, unless the BBMD is alone there; one to every distribution address of
  the other BBMDs' rows but the sender's own row; and one to every other live device that is not
  such an address already, up to the budget: exactly as many as the smaller of the budget and the
  number of those devices, and the decision is reported as capped exactly when the budget is the
  smaller. No two copies to BBMDs and devices go to the same destination (the local broadcast is
  a destination of its own, which the code does not compare with the others), the sender never
  gets it back as a device, and nothing is dropped.
\<close>

theorem distribute_reaches_all:
  assumes wf: "tables_wf t" and storage: "MAX_TARGETS t \<le> length out"
  shows "(distribute_broadcast cx subnet sender npdu out t = Inl NotRegistered
        \<longleftrightarrow> \<not> is_registered_at sender (cx_now cx) (tb_fdt t))
    \<and> (\<forall>d. distribute_broadcast cx subnet sender npdu out t = Inr d \<longrightarrow>
        (let ts = fo_targets (ds_fanout d);
             others = {a. is_registered_at a (cx_now cx) (tb_fdt t) \<and> a \<noteq> sender \<and> peer_target a \<notin> set ts} in
         ds_npdu d = npdu \<and> fo_dropped (ds_fanout d) = 0
         \<and> filter (\<lambda>x. tg_via x = LocalBroadcast) ts = (if ls_alone subnet then [] else [local_target (ls_broadcast subnet)])
         \<and> (\<not> ls_alone subnet \<longrightarrow> hd ts = local_target (ls_broadcast subnet))
         \<and> (\<forall>a. peer_target a \<in> set ts \<longleftrightarrow> (\<exists>r \<in> set (rows (tb_bdt t)).
               be_address r \<noteq> bd_own (tb_bdt t) \<and> be_address r \<noteq> sender \<and> a = distribution_address r))
         \<and> (\<forall>a. device_target a \<in> set ts \<longrightarrow> is_registered_at a (cx_now cx) (tb_fdt t) \<and> a \<noteq> sender)
         \<and> (\<forall>a. is_registered_at a (cx_now cx) (tb_fdt t) \<and> a \<noteq> sender \<and> \<not> fo_fanout_capped (ds_fanout d)
               \<longrightarrow> a \<in> tg_destination ` set ts)
         \<and> distinct (map tg_destination (filter (\<lambda>x. tg_via x \<noteq> LocalBroadcast) ts))
         \<and> length (filter (\<lambda>x. tg_via x = ForeignDevice) ts) = min (cx_fdt_fanout cx) (card others)
         \<and> (fo_fanout_capped (ds_fanout d) \<longleftrightarrow> cx_fdt_fanout cx < card others)))"
proof (intro conjI allI impI)
  show "distribute_broadcast cx subnet sender npdu out t = Inl NotRegistered
      \<longleftrightarrow> \<not> is_registered_at sender (cx_now cx) (tb_fdt t)"
    by (simp add: distribute_broadcast_def Let_def)
next
  fix d assume d: "distribute_broadcast cx subnet sender npdu out t = Inr d"
  define before where "before = (if ls_alone subnet then [] else [local_target (ls_broadcast subnet)])"
  note dt = distribute_targets [OF wf storage d]
  have full: "complete_fanout before (peer_addresses sender t) sender cx t (ds_fanout d)" and npdu: "ds_npdu d = npdu"
    unfolding before_def by (rule dt(1), rule dt(2))
  have fw: "fdt_wf (tb_fdt t)" using wf by (simp add: tables_wf_def)
  have "distinct (peer_addresses sender t)" by (simp add: peer_addresses_def)
  note r = complete_fanout_reaches [OF full fw this]
  have before: "\<forall>b \<in> set before. tg_via b = LocalBroadcast" by (simp add: before_def)
  have ts: "fo_targets (ds_fanout d) = before @ map peer_target (peer_addresses sender t)
      @ map device_target (take (cx_fdt_fanout cx) (wanted sender (peer_addresses sender t) (fdt_live_at (cx_now cx) (tb_fdt t))))"
    and drp: "fo_dropped (ds_fanout d) = 0"
    using full by (simp_all add: complete_fanout_def Let_def)
  have loc: "\<not> ls_alone subnet \<longrightarrow> hd (fo_targets (ds_fanout d)) = local_target (ls_broadcast subnet)"
    "filter (\<lambda>x. tg_via x = LocalBroadcast) (fo_targets (ds_fanout d)) = (if ls_alone subnet then [] else [local_target (ls_broadcast subnet)])"
    by (simp_all add: ts before_def filter_map o_def)
  define ds where "ds = wanted sender (peer_addresses sender t) (fdt_live_at (cx_now cx) (tb_fdt t))"
  define others where "others = {a. is_registered_at a (cx_now cx) (tb_fdt t) \<and> a \<noteq> sender \<and> peer_target a \<notin> set (fo_targets (ds_fanout d))}"
  have "distinct ds" unfolding ds_def wanted_def using live_addresses_distinct [OF fw] by (rule distinct_filter)
  moreover have "set ds = others"
    using r(1) [OF before] live_iff [OF fw] by (auto simp: ds_def wanted_def others_def)
  ultimately have card: "length ds = card others" using distinct_card by metis
  have "filter (\<lambda>x. tg_via x = ForeignDevice) before = []" by (simp add: before_def)
  then have number: "length (filter (\<lambda>x. tg_via x = ForeignDevice) (fo_targets (ds_fanout d))) = min (cx_fdt_fanout cx) (card others)"
    unfolding ts ds_def [symmetric] filter_append by (simp add: filter_map o_def card min.commute)
  have capped: "fo_fanout_capped (ds_fanout d) \<longleftrightarrow> cx_fdt_fanout cx < card others"
    using full card by (simp add: complete_fanout_def Let_def ds_def)
  show "let ts = fo_targets (ds_fanout d);
             others = {a. is_registered_at a (cx_now cx) (tb_fdt t) \<and> a \<noteq> sender \<and> peer_target a \<notin> set ts} in
         ds_npdu d = npdu \<and> fo_dropped (ds_fanout d) = 0
         \<and> filter (\<lambda>x. tg_via x = LocalBroadcast) ts = (if ls_alone subnet then [] else [local_target (ls_broadcast subnet)])
         \<and> (\<not> ls_alone subnet \<longrightarrow> hd ts = local_target (ls_broadcast subnet))
         \<and> (\<forall>a. peer_target a \<in> set ts \<longleftrightarrow> (\<exists>r \<in> set (rows (tb_bdt t)).
               be_address r \<noteq> bd_own (tb_bdt t) \<and> be_address r \<noteq> sender \<and> a = distribution_address r))
         \<and> (\<forall>a. device_target a \<in> set ts \<longrightarrow> is_registered_at a (cx_now cx) (tb_fdt t) \<and> a \<noteq> sender)
         \<and> (\<forall>a. is_registered_at a (cx_now cx) (tb_fdt t) \<and> a \<noteq> sender \<and> \<not> fo_fanout_capped (ds_fanout d)
               \<longrightarrow> a \<in> tg_destination ` set ts)
         \<and> distinct (map tg_destination (filter (\<lambda>x. tg_via x \<noteq> LocalBroadcast) ts))
         \<and> length (filter (\<lambda>x. tg_via x = ForeignDevice) ts) = min (cx_fdt_fanout cx) (card others)
         \<and> (fo_fanout_capped (ds_fanout d) \<longleftrightarrow> cx_fdt_fanout cx < card others)"
    unfolding Let_def others_def [symmetric] using npdu drp loc r(1-4) [OF before] number capped unfolding dt(3) by blast
qed

lemma bdt_set_same_own: "bd_own (snd (bdt_set table t)) = bd_own t"
proof (cases "bdt_set table t")
  case (Pair res t')
  then show ?thesis using bdt_set_outcome [of table t] by (cases res) auto
qed

lemma site_wf: "tables_wf site" "MAX_TARGETS site = 5"
  using tables_reach_sized [OF site_reached] by (simp_all add: tables_sized_def MAX_TARGETS_def)

definition site_device :: socket_addr_v4 where "site_device = \<lparr>sa_ip = Ipv4Addr 192 0 2 7, sa_port = 47808\<rparr>"

definition site_cx :: context_in where "site_cx = \<lparr>cx_now = Instant 5, cx_fdt_fanout = 4\<rparr>"

lemma site_device_live: "is_registered_at site_device (Instant 5) (tb_fdt site)"
  by (simp add: site_def one_device_def is_registered_at_def fdt_get_def registrations_def new_registration_def
      site_device_def is_expired_iff)

theorem distribute_reaches_all_witness:
  "\<exists>d. distribute_broadcast site_cx (new_local_subnet site_own) site_device [1, 0] (replicate 5 UNUSED_TARGET) site = Inr d
     \<and> fo_dropped (ds_fanout d) = 0 \<and> filter (\<lambda>x. tg_via x = LocalBroadcast) (fo_targets (ds_fanout d)) = [local_target site_own]"
proof -
  let ?r = "distribute_broadcast site_cx (new_local_subnet site_own) site_device [1, 0] (replicate 5 UNUSED_TARGET) site"
  have st: "MAX_TARGETS site \<le> length (replicate 5 UNUSED_TARGET)" by (simp add: site_wf)
  note th = distribute_reaches_all [OF site_wf(1) st, of site_cx "new_local_subnet site_own" site_device "[1, 0]"]
  have "?r \<noteq> Inl NotRegistered" using th site_device_live by (simp add: site_cx_def)
  then obtain d where "?r = Inr d" by (cases ?r) (metis distribute_refusal.exhaust, blast)
  then show ?thesis using th by (simp add: Let_def new_local_subnet_def)
qed

lemma forwarded_targets:
  assumes wf: "tables_wf t" and storage: "MAX_TARGETS t \<le> length out"
    and f: "forwarded_npdu cx subnet sender arrived origin out t = Inr f"
  shows "\<forall>a. peer_target a \<notin> set (fo_targets f)"
    and "\<forall>a. local_target a \<in> set (fo_targets f) \<longleftrightarrow> a = ls_broadcast subnet \<and> \<not> ls_alone subnet
             \<and> rebroadcasts_forwarded (if is_group subnet then None else ls_mask subnet) sender arrived t"
    and "\<forall>a. device_target a \<in> set (fo_targets f) \<longrightarrow> is_registered_at a (cx_now cx) (tb_fdt t) \<and> a \<noteq> origin"
    and "\<forall>a. is_registered_at a (cx_now cx) (tb_fdt t) \<and> a \<noteq> origin \<and> \<not> fo_fanout_capped f
             \<longrightarrow> a \<in> tg_destination ` set (fo_targets f)"
    and "fo_dropped f = 0"
    and "filter (\<lambda>x. tg_via x \<noteq> ForeignDevice) (fo_targets f) =
      (if \<not> ls_alone subnet \<and> rebroadcasts_forwarded (if is_group subnet then None else ls_mask subnet) sender arrived t
       then [local_target (ls_broadcast subnet)] else [])"
proof -
  define again where "again \<longleftrightarrow> \<not> ls_alone subnet
      \<and> rebroadcasts_forwarded (if is_group subnet then None else ls_mask subnet) sender arrived t"
  define before where "before = (if again then [local_target (ls_broadcast subnet)] else [])"
  define w where "w = (if again then push_local (ls_broadcast subnet) (writer_new out) else writer_new out)"
  have ne: "out \<noteq> []" using storage by (auto simp: MAX_TARGETS_def)
  have start: "holds_peers before [] w" "wr_peers_end w = wr_len w"
    using push_local_holds [OF ne] writer_new_holds by (simp_all add: before_def w_def)
  have fw: "fdt_wf (tb_fdt t)" using wf by (simp add: tables_wf_def)
  have "roomy (length (fdt_live_at (cx_now cx) (tb_fdt t))) w"
    using storage push_local_holds(2,3) [OF ne] writer_new_holds(2,4) [of out] length_live_le [OF fw, of "cx_now cx"]
    by (simp add: w_def MAX_TARGETS_def roomy_def)
  from devices_after_peers [OF start this, of origin]
  have full: "complete_fanout before [] origin cx t f"
    using f by (auto simp: forwarded_npdu_def Let_def w_def again_def split: if_splits)
  have before: "\<forall>b \<in> set before. tg_via b = LocalBroadcast" by (simp add: before_def)
  note r = complete_fanout_reaches [OF full fw distinct.simps(1) [THEN iffD2, OF TrueI] before]
  have ts: "fo_targets f = before @ map device_target (take (cx_fdt_fanout cx) (wanted origin [] (fdt_live_at (cx_now cx) (tb_fdt t))))"
    "fo_dropped f = 0"
    using full by (simp_all add: complete_fanout_def Let_def)
  show "\<forall>a. local_target a \<in> set (fo_targets f) \<longleftrightarrow> a = ls_broadcast subnet \<and> \<not> ls_alone subnet
             \<and> rebroadcasts_forwarded (if is_group subnet then None else ls_mask subnet) sender arrived t"
    by (auto simp: ts before_def simp flip: again_def)
  show "\<forall>a. peer_target a \<notin> set (fo_targets f)" using r(1) by simp
  show "\<forall>a. device_target a \<in> set (fo_targets f) \<longrightarrow> is_registered_at a (cx_now cx) (tb_fdt t) \<and> a \<noteq> origin"
    by (rule r(2))
  show "\<forall>a. is_registered_at a (cx_now cx) (tb_fdt t) \<and> a \<noteq> origin \<and> \<not> fo_fanout_capped f
             \<longrightarrow> a \<in> tg_destination ` set (fo_targets f)" by (rule r(3))
  show "fo_dropped f = 0" by (rule ts(2))
  have "filter (\<lambda>x. tg_via x \<noteq> ForeignDevice) (map device_target ds) = []" for ds by (simp add: filter_map o_def)
  then show "filter (\<lambda>x. tg_via x \<noteq> ForeignDevice) (fo_targets f) =
      (if \<not> ls_alone subnet \<and> rebroadcasts_forwarded (if is_group subnet then None else ls_mask subnet) sender arrived t
       then [local_target (ls_broadcast subnet)] else [])"
    unfolding ts(1) filter_append again_def [symmetric] by (simp add: before_def)
qed

text \<open>
  A BBMD acts on a Forwarded-NPDU only when another BBMD of its table sent it, so its own
  echo and a stranger's are refused; and it never sends one on to a peer, which is what keeps
  forwarded broadcasts from circulating. It goes to the live devices but the originator, and on
  the own subnet exactly when it came to this BBMD alone: by unicast, under a two-hop own row,
  from a sender not on that subnet at the same port, with others there to hear it.
\<close>

theorem forwarded_npdu_exact:
  assumes wf: "tables_wf t" and storage: "MAX_TARGETS t \<le> length out"
  shows "(forwarded_npdu cx subnet sender arrived origin out t = Inl OwnEcho \<longleftrightarrow> sender = bd_own (tb_bdt t))
    \<and> (forwarded_npdu cx subnet sender arrived origin out t = Inl NotFromPeer
        \<longleftrightarrow> sender \<noteq> bd_own (tb_bdt t) \<and> sender \<notin> be_address ` set (rows (tb_bdt t)))
    \<and> (\<forall>f. forwarded_npdu cx subnet sender arrived origin out t = Inr f \<longrightarrow>
        (\<forall>a. peer_target a \<notin> set (fo_targets f))
        \<and> (\<forall>a. local_target a \<in> set (fo_targets f) \<longleftrightarrow> a = ls_broadcast subnet \<and> \<not> ls_alone subnet
             \<and> rebroadcasts_forwarded (if is_group subnet then None else ls_mask subnet) sender arrived t)
        \<and> (\<forall>a. device_target a \<in> set (fo_targets f) \<longrightarrow> is_registered_at a (cx_now cx) (tb_fdt t) \<and> a \<noteq> origin)
        \<and> (\<forall>a. is_registered_at a (cx_now cx) (tb_fdt t) \<and> a \<noteq> origin \<and> \<not> fo_fanout_capped f
             \<longrightarrow> a \<in> tg_destination ` set (fo_targets f))
        \<and> fo_dropped f = 0)"
proof -
  have "forwarded_npdu cx subnet sender arrived origin out t = Inl OwnEcho \<longleftrightarrow> sender = bd_own (tb_bdt t)"
    "forwarded_npdu cx subnet sender arrived origin out t = Inl NotFromPeer
        \<longleftrightarrow> sender \<noteq> bd_own (tb_bdt t) \<and> sender \<notin> be_address ` set (rows (tb_bdt t))"
    by (auto simp: forwarded_npdu_def Let_def bdt_contains_iff)
  then show ?thesis using forwarded_targets [OF wf storage, of cx subnet sender arrived origin] by blast
qed

theorem forwarded_npdu_exact_witness:
  "forwarded_npdu site_cx (new_local_subnet site_own) site_own Unicast site_device (replicate 5 UNUSED_TARGET) site = Inl OwnEcho"
proof -
  have st: "MAX_TARGETS site \<le> length (replicate 5 UNUSED_TARGET)" by (simp add: site_wf)
  have "bd_own (tb_bdt site) = site_own" by (simp add: site_def bdt_set_same_own) (simp add: bdt_new_def)
  then show ?thesis using forwarded_npdu_exact [OF site_wf(1) st] by simp
qed

lemma original_broadcast_complete:
  assumes "tables_wf t" "MAX_TARGETS t \<le> length out"
  shows "complete_fanout [] (peer_addresses source t) source cx t (ds_fanout (original_broadcast cx source npdu out t))"
proof -
  have "wr_len (writer_new out) + length (bd_rows (tb_bdt t)) + length (ft_slots (tb_fdt t)) \<le> length (wr_out (writer_new out))"
    using assms(2) by (simp add: MAX_TARGETS_def writer_new_holds)
  from decision_with_peers [OF assms(1) writer_new_holds(1) this] show ?thesis
    by (simp add: original_broadcast_def broadcast_targets_def)
qed

lemma two_hop_distribution: "be_mask r = TWO_HOP_MASK \<Longrightarrow> distribution_address r = be_address r"
proof -
  have "ip_to_bits TWO_HOP_MASK = - 1" by (simp add: ip_to_bits_def u32_be_def TWO_HOP_MASK_def)
  then show "be_mask r = TWO_HOP_MASK \<Longrightarrow> distribution_address r = be_address r"
    by (simp add: distribution_address_def)
qed

lemma filter_distinct_key:
  "distinct (map fst xs) \<Longrightarrow> (k, v) \<in> set xs \<Longrightarrow> filter (\<lambda>x. fst x = k) xs = [(k, v)]"
proof (induction xs)
  case (Cons x xs)
  then show ?case by (cases "fst x = k") (auto simp: filter_empty_conv image_iff)
qed simp

text \<open>
  C4: A broadcast on one BBMD's subnet crosses to a second BBMD's subnet once and no further,
  whichever mask the two tables give the second's row. The first sends exactly one Forwarded-NPDU
  to that row's distribution address, naming the originator (or the NAT's address), and no
  destination gets two. Under the two-hop mask that address is the second BBMD's own: it takes
  the message by unicast and puts exactly one copy on its subnet's broadcast address, unless it is
  alone there or the first BBMD is on that same subnet at the same port (as far as the subnet's
  mask is known), where the first's own broadcasts are heard. Under any other mask that address is
  the subnet's directed broadcast, which everyone there hears: the second takes it as a broadcast
  and puts no copy of its own on the subnet. In neither case does the second send it to a BBMD.
  The originator is not the second BBMD, each table lists the other BBMD, and both decisions have
  storage for every target.
\<close>

theorem broadcast_crosses_once:
  assumes wf: "tables_wf t1" "tables_wf t2" and storage: "MAX_TARGETS t1 \<le> length out1" "MAX_TARGETS t2 \<le> length out2"
    and own: "own1 = bd_own (tb_bdt t1)" "own2 = bd_own (tb_bdt t2)" "own1 \<noteq> own2" "source \<noteq> own2"
    and listed: "new_bdt_entry own2 mask2 \<in> set (rows (tb_bdt t1))"
      "new_bdt_entry own1 mask1 \<in> set (rows (tb_bdt t2))" "new_bdt_entry own2 mask2 \<in> set (rows (tb_bdt t2))"
  shows "let d = original_broadcast cx1 source npdu out1 t1; sent = transmissions d;
             goal = distribution_address (new_bdt_entry own2 mask2);
             arrived = (if mask2 = TWO_HOP_MASK then Unicast else Broadcast);
             near = (tb_nat t2 = None \<and> sa_port own1 = sa_port own2 \<and> \<not> is_group subnet
               \<and> (\<exists>m. ls_mask subnet = Some m \<and> (ip_to_bits (sa_ip own1) XOR ip_to_bits (sa_ip own2)) AND ip_to_bits m = 0)) in
      filter (\<lambda>x. fst x = goal) sent = [(goal, ForwardedNpdu (ds_origin d) npdu)] \<and> distinct (map fst sent)
      \<and> (mask2 = TWO_HOP_MASK \<longrightarrow> goal = own2)
      \<and> (\<exists>f. forwarded_npdu cx2 subnet own1 arrived (ds_origin d) out2 t2 = Inr f
           \<and> filter (\<lambda>x. tg_via x \<noteq> ForeignDevice) (fo_targets f)
             = (if mask2 = TWO_HOP_MASK \<and> \<not> near \<and> \<not> ls_alone subnet then [local_target (ls_broadcast subnet)] else []))"
proof -
  let ?d = "original_broadcast cx1 source npdu out1 t1" and ?row = "new_bdt_entry own2 mask2"
  let ?goal = "distribution_address ?row" and ?arrived = "if mask2 = TWO_HOP_MASK then Unicast else Broadcast"
  note full = original_broadcast_complete [OF wf(1) storage(1), of source cx1 npdu]
  have fw: "fdt_wf (tb_fdt t1)" using wf(1) by (simp add: tables_wf_def)
  have dp: "distinct (peer_addresses source t1)" by (simp add: peer_addresses_def)
  note r = complete_fanout_reaches [OF full fw dp, simplified]
  have "?goal \<in> set (peer_addresses source t1)"
    using listed(1) own by (force simp: peer_addresses_def peer_rows_def new_bdt_entry_def)
  then have "peer_target ?goal \<in> set (fo_targets (ds_fanout ?d))" using r(1) by simp
  then have sent: "(?goal, ForwardedNpdu (ds_origin ?d) npdu) \<in> set (transmissions ?d)"
    by (force simp: transmissions_def ds_message_def original_broadcast_def)
  have "filter (\<lambda>x. tg_via x \<noteq> LocalBroadcast) (fo_targets (ds_fanout ?d)) = fo_targets (ds_fanout ?d)"
    using full by (auto simp: complete_fanout_def Let_def filter_id_conv)
  then have dist: "distinct (map fst (transmissions ?d))"
    using r(4) by (simp add: transmissions_def o_def)
  have once: "filter (\<lambda>x. fst x = ?goal) (transmissions ?d) = [(?goal, ForwardedNpdu (ds_origin ?d) npdu)]"
    using filter_distinct_key [OF dist sent] by simp
  have "row_for own2 (tb_bdt t2) = Some ?row"
    using wf(2) listed(3) by (simp add: tables_wf_def bdt_rows.lookup_Some_iff new_bdt_entry_def)
  then have again: "rebroadcasts_forwarded (if is_group subnet then None else ls_mask subnet) own1 ?arrived t2
      \<longleftrightarrow> mask2 = TWO_HOP_MASK \<and> \<not> (tb_nat t2 = None \<and> sa_port own1 = sa_port own2 \<and> \<not> is_group subnet
          \<and> (\<exists>m. ls_mask subnet = Some m \<and> (ip_to_bits (sa_ip own1) XOR ip_to_bits (sa_ip own2)) AND ip_to_bits m = 0))"
    using own by (auto simp: rebroadcasts_forwarded_def Let_def new_bdt_entry_def split: option.splits)
  have mem: "own1 \<in> be_address ` set (rows (tb_bdt t2))" using listed(2) by (force simp: new_bdt_entry_def)
  let ?f = "forwarded_npdu cx2 subnet own1 ?arrived (ds_origin ?d) out2 t2"
  have "?f \<noteq> Inl OwnEcho" "?f \<noteq> Inl NotFromPeer"
    using own mem by (auto simp: forwarded_npdu_def Let_def bdt_contains_iff)
  then obtain f where f: "?f = Inr f" by (cases ?f) (metis forward_refusal.exhaust, blast)
  have goal: "mask2 = TWO_HOP_MASK \<longrightarrow> ?goal = own2" using two_hop_distribution [of ?row] by (simp add: new_bdt_entry_def)
  show ?thesis unfolding Let_def
    using once dist goal f forwarded_targets(6) [OF wf(2) storage(2) f] unfolding again by auto
qed

definition mesh :: "socket_addr_v4 \<Rightarrow> socket_addr_v4 \<Rightarrow> tables" where
  "mesh own other =
     \<lparr>tb_bdt = \<lparr>bd_rows = [new_bdt_entry own TWO_HOP_MASK, new_bdt_entry other TWO_HOP_MASK], bd_len = 2, bd_own = own,
        bd_own_row_appended = False, bd_behind_nat = False, bd_serves_group = False\<rparr>,
      tb_fdt = fdt_new 1, tb_nat = None\<rparr>"

definition mesh_own :: socket_addr_v4 where "mesh_own = \<lparr>sa_ip = Ipv4Addr 10 0 2 1, sa_port = 47808\<rparr>"

definition mesh_subnet :: socket_addr_v4 where "mesh_subnet = \<lparr>sa_ip = Ipv4Addr 10 0 2 255, sa_port = 47808\<rparr>"

lemma mesh_valid:
  "validate_entry (new_bdt_entry site_own TWO_HOP_MASK) = Inr ()" "validate_entry (new_bdt_entry mesh_own TWO_HOP_MASK) = Inr ()"
  by code_simp+

lemma mesh_wf:
  assumes "own \<noteq> other" "validate_entry (new_bdt_entry own TWO_HOP_MASK) = Inr ()" "validate_entry (new_bdt_entry other TWO_HOP_MASK) = Inr ()"
  shows "tables_wf (mesh own other)" and "MAX_TARGETS (mesh own other) = 4"
    and "rows (tb_bdt (mesh own other)) = [new_bdt_entry own TWO_HOP_MASK, new_bdt_entry other TWO_HOP_MASK]"
    and "bd_own (tb_bdt (mesh own other)) = own"
proof -
  have "tb_bdt (mesh own other) = \<lparr>bd_rows = [new_bdt_entry own TWO_HOP_MASK, new_bdt_entry other TWO_HOP_MASK], bd_len = 2, bd_own = own,
        bd_own_row_appended = False, bd_behind_nat = False, bd_serves_group = False\<rparr>" by (simp add: mesh_def)
  then show "tables_wf (mesh own other)"
    using assms by (simp add: tables_wf_def bdt_wf_def rows_def configured_rows_def fdt_new_refines mesh_def new_bdt_entry_def)
qed (simp_all add: mesh_def MAX_TARGETS_def fdt_new_refines rows_def)

theorem broadcast_crosses_once_witness:
  "filter (\<lambda>x. fst x = mesh_own) (transmissions (original_broadcast site_cx site_device [1, 0] (replicate 4 UNUSED_TARGET) (mesh site_own mesh_own)))
       = [(mesh_own, ForwardedNpdu site_device [1, 0])]
   \<and> (\<exists>f. forwarded_npdu site_cx (new_local_subnet mesh_subnet) site_own Unicast site_device (replicate 4 UNUSED_TARGET) (mesh mesh_own site_own) = Inr f
       \<and> filter (\<lambda>x. tg_via x \<noteq> ForeignDevice) (fo_targets f) = [local_target mesh_subnet])"
proof -
  have ne: "site_own \<noteq> mesh_own" by (simp add: site_own_def mesh_own_def)
  note w1 = mesh_wf [OF ne mesh_valid] and w2 = mesh_wf [OF ne [symmetric] mesh_valid(2,1)]
  have "ds_origin (original_broadcast site_cx site_device [1, 0] (replicate 4 UNUSED_TARGET) (mesh site_own mesh_own)) = site_device"
    by (simp add: original_broadcast_def origin_for_def mesh_def)
  moreover have "site_device \<noteq> mesh_own" by (simp add: site_device_def mesh_own_def)
  moreover have "distribution_address (new_bdt_entry mesh_own TWO_HOP_MASK) = mesh_own"
    using two_hop_distribution [of "new_bdt_entry mesh_own TWO_HOP_MASK"] by (simp add: new_bdt_entry_def)
  ultimately show ?thesis
    using broadcast_crosses_once [OF w1(1) w2(1), of "replicate 4 UNUSED_TARGET" "replicate 4 UNUSED_TARGET" site_own mesh_own
        site_device TWO_HOP_MASK TWO_HOP_MASK site_cx "[1, 0]" "new_local_subnet mesh_subnet" site_cx] ne
    by (simp add: w1 w2 new_local_subnet_def Let_def)
qed

text \<open>
  C33: A BBMD answers every management request, to the one who sent it, with what the request came
  to, and none of them touches the distribution table: a registration is answered with success
  exactly when the device is registered from then on, a refusal with the registration NAK; a
  read of the distribution table lists its rows; a read of the foreign device table, given
  storage for its slots, lists the live registrations in order with the time each has left; and
  a deletion succeeds exactly when the host admits it and the entry was live, and takes that
  entry away and no other.
\<close>

theorem serve_answers:
  assumes wf: "fdt_wf (tb_fdt t)" and srv: "serve req now rules storage t s = (a, t', s', storage')"
  shows "an_to a = request_sender req \<and> tb_bdt t' = tb_bdt t \<and> tb_nat t' = tb_nat t \<and> fdt_wf (tb_fdt t')
    \<and> (case req of
         RegisterRequest sender ttl \<Rightarrow>
           (\<exists>out. an_served a = ServedRegister out \<and>
              (if \<exists>k. ro_result out = Inr k
               then an_message a = BvlcResult SUCCESSFUL_COMPLETION \<and> is_registered_at sender now (tb_fdt t')
               else an_message a = BvlcResult REGISTER_FOREIGN_DEVICE_NAK
                    \<and> registrations (tb_fdt t') = fdt_live_at now (tb_fdt t)))
       | ReadBdt _ \<Rightarrow> an_message a = ReadBroadcastDistributionTableAck (Typed (rows (tb_bdt t))) \<and> t' = t
       | ReadFdt _ \<Rightarrow> t' = t \<and>
           (if length (fdt_live_at now (tb_fdt t)) \<le> length storage
            then an_message a = ReadForeignDeviceTableAck (Typed (map (\<lambda>e. wire_entry_at e now) (fdt_live_at now (tb_fdt t))))
            else an_message a = BvlcResult READ_FOREIGN_DEVICE_TABLE_NAK)
       | DeleteFdtEntry sender entry \<Rightarrow>
           (if fst (ru_admit_delete rules sender entry s)
            then registrations (tb_fdt t') = filter (\<lambda>e. rg_address e \<noteq> entry) (registrations (tb_fdt t))
              \<and> an_message a = BvlcResult (if is_registered_at entry now (tb_fdt t) then SUCCESSFUL_COMPLETION
                                             else DELETE_FOREIGN_DEVICE_TABLE_ENTRY_NAK)
            else t' = t \<and> an_message a = BvlcResult DELETE_FOREIGN_DEVICE_TABLE_ENTRY_NAK))"
proof -
  note base = serve_cases [OF wf srv]
  show ?thesis
  proof (cases req)
    case (RegisterRequest sender ttl)
    obtain limits s1 where l: "ru_registration_limits rules s = (limits, s1)" by fastforce
    obtain reserved s2 where r: "ru_reservation rules sender s1 = (reserved, s2)" by fastforce
    obtain out f s3 where g: "register sender ttl now limits reserved (ru_admit_registration rules sender now) (tb_fdt t) s2 = (out, f, s3)"
      by (metis prod_cases3)
    note reg = register_wf [OF wf g]
    have a: "an_served a = ServedRegister out" "tb_fdt t' = f"
      "an_message a = BvlcResult (case ro_result out of Inr _ \<Rightarrow> SUCCESSFUL_COMPLETION | Inl x \<Rightarrow> registration_result_code x)"
      using srv by (auto simp: serve_def RegisterRequest l r g result_answer_def)
    have "is_registered_at sender now f" if "ro_result out = Inr k" for k
    proof -
      have "registrations f = store_row (new_registration sender ttl now) (fdt_live_at now (tb_fdt t))"
        using reg(4) that by (auto simp: register_spec_def Let_def split: if_splits)
      then have "new_registration sender ttl now \<in> set (registrations f)" by (simp add: set_store_row)
      then show ?thesis
        using reg(1) by (auto simp: is_registered_iff new_registration_def is_expired_iff intro!: bexI)
    qed
    moreover have "registrations f = fdt_live_at now (tb_fdt t)" if "ro_result out = Inl x" for x
      using reg(4) that by (auto simp: register_spec_def Let_def split: if_splits)
    ultimately show ?thesis
      using base a by (cases "ro_result out") (auto simp: RegisterRequest registration_result_code_def)
  next
    case (ReadBdt sender)
    then have "an_message a = ReadBroadcastDistributionTableAck (Typed (rows (tb_bdt t)))" "t' = t"
      using srv by (auto simp: serve_def bdt_entries_def)
    then show ?thesis using base ReadBdt by simp
  next
    case (ReadFdt sender)
    let ?live = "fdt_live_at now (tb_fdt t)"
    have "t' = t" "length ?live \<le> length storage \<Longrightarrow>
        an_message a = ReadForeignDeviceTableAck (Typed (map (\<lambda>e. wire_entry_at e now) ?live))"
      "\<not> length ?live \<le> length storage \<Longrightarrow> an_message a = BvlcResult READ_FOREIGN_DEVICE_TABLE_NAK"
      using srv ReadFdt by (auto simp: serve_def wire_entries_result Let_def result_answer_def split: if_splits)
    then show ?thesis using base ReadFdt by simp
  next
    case (DeleteFdtEntry sender entry)
    let ?adm = "fst (ru_admit_delete rules sender entry s)"
    have "?adm \<Longrightarrow> registrations (tb_fdt t') = filter (\<lambda>e. rg_address e \<noteq> entry) (registrations (tb_fdt t))"
      "?adm \<Longrightarrow> an_message a = BvlcResult (if is_registered_at entry now (tb_fdt t) then SUCCESSFUL_COMPLETION
          else DELETE_FOREIGN_DEVICE_TABLE_ENTRY_NAK)"
      "\<not> ?adm \<Longrightarrow> t' = t" "\<not> ?adm \<Longrightarrow> an_message a = BvlcResult DELETE_FOREIGN_DEVICE_TABLE_ENTRY_NAK"
      using srv fdt_delete_refines(2) [OF wf, of entry] DeleteFdtEntry
      by (auto simp: serve_def result_answer_def Let_def delete_result_code_def split: prod.splits if_splits)
    then show ?thesis using base DeleteFdtEntry by simp
  qed
qed

theorem serve_answers_witness:
  "\<exists>a t' s' storage'. serve (ReadFdt site_device) (Instant 5) Permissive [] (mesh site_own mesh_own) () = (a, t', s', storage')
     \<and> an_to a = site_device \<and> an_message a = ReadForeignDeviceTableAck (Typed [])"
proof -
  obtain a t' s' storage' where srv: "serve (ReadFdt site_device) (Instant 5) Permissive [] (mesh site_own mesh_own) () = (a, t', s', storage')"
    by (metis prod_cases4)
  have wf: "fdt_wf (tb_fdt (mesh site_own mesh_own))" "fdt_live_at now (tb_fdt (mesh site_own mesh_own)) = []" for now
    by (simp_all add: mesh_def fdt_new_refines fdt_live_at_def)
  show ?thesis using serve_answers [OF wf(1) srv] srv by (auto simp: wf)
qed

end
