(* ===== verification/Bip_Link.thy ===== *)
theory Bip_Link
  imports Bbmd_Forward Npdu
begin

text \<open>
  A B/IP node's link (\<open>crates/bacnet-bip-core/src/node\<close>): its fixed configuration and the
  check of it (\<open>config.rs\<close>), what a datagram's addresses mean to it (\<open>addressing.rs\<close>), what
  it does with one datagram (\<open>receive.rs\<close>) and what it sends for an NPDU (\<open>send.rs\<close>). All of
  it is pure but for the host's policy, whose two questions may change the host's state; a
  policy is a record of them, and the state is passed along in the order the code asks.
\<close>

section \<open>Addresses\<close>

definition ip_is_broadcast :: "ipv4_addr \<Rightarrow> bool" where
  "ip_is_broadcast ip \<longleftrightarrow> ip = Ipv4Addr 255 255 255 255"

definition ip_is_unspecified :: "ipv4_addr \<Rightarrow> bool" where
  "ip_is_unspecified ip \<longleftrightarrow> ip = Ipv4Addr 0 0 0 0"

definition ip_is_loopback :: "ipv4_addr \<Rightarrow> bool" where
  "ip_is_loopback ip = (case ip of Ipv4Addr a b c d \<Rightarrow> a = 127)"

section \<open>Configuration\<close>

definition MAX_DATAGRAM :: nat where "MAX_DATAGRAM = 4 + 6 + MAX_NPDU"
definition MIN_RENEWAL :: duration where "MIN_RENEWAL = from_millis 100"
definition DEFAULT_RESPONSE_TIMEOUT :: duration where "DEFAULT_RESPONSE_TIMEOUT = from_secs 3"
definition MIN_BUDGET :: u16 where "MIN_BUDGET = 64"

datatype retry = AtRenewal | Backoff

datatype forwarded_trust = AnySender | ConfiguredBbmd

record foreign =
  fr_bbmd :: "socket_addr_v4 option"
  fr_ttl :: u16
  fr_renewal :: duration
  fr_response_timeout :: duration
  fr_retry :: retry
  fr_hold :: u16
  fr_trust :: forwarded_trust
  fr_release_previous :: bool

datatype mode = Normal | Foreign foreign | Bbmd

text \<open>\<open>matches!(mode, Mode::Foreign(_))\<close>.\<close>

definition is_foreign :: "mode \<Rightarrow> bool" where
  "is_foreign mode = (case mode of Foreign _ \<Rightarrow> True | _ \<Rightarrow> False)"

definition foreign_with_bbmd :: "socket_addr_v4 option \<Rightarrow> u16 \<Rightarrow> foreign" where
  "foreign_with_bbmd bbmd ttl =
     (let renewal = max (from_millis (ucast ttl * 500)) MIN_RENEWAL in
      \<lparr>fr_bbmd = bbmd, fr_ttl = ttl, fr_renewal = renewal,
       fr_response_timeout = min renewal DEFAULT_RESPONSE_TIMEOUT, fr_retry = Backoff, fr_hold = 0,
       fr_trust = ConfiguredBbmd, fr_release_previous = False\<rparr>)"

definition foreign_new :: "socket_addr_v4 \<Rightarrow> u16 \<Rightarrow> foreign" where
  "foreign_new bbmd ttl = foreign_with_bbmd (Some bbmd) ttl"

definition foreign_waiting :: "u16 \<Rightarrow> foreign" where
  "foreign_waiting ttl = foreign_with_bbmd None ttl"

definition ttl_duration :: "foreign \<Rightarrow> duration" where
  "ttl_duration f = from_secs (ucast (fr_ttl f))"

definition effective_renewal :: "foreign \<Rightarrow> duration" where
  "effective_renewal f = max (fr_renewal f) MIN_RENEWAL"

definition effective_response_timeout :: "foreign \<Rightarrow> duration" where
  "effective_response_timeout f = min (fr_response_timeout f) (effective_renewal f)"

record link =
  lk_address :: socket_addr_v4
  lk_subnet :: local_subnet
  lk_mode :: mode
  lk_budget :: "u16 option"

section \<open>Group destinations\<close>

record groups =
  gr_broadcast :: socket_addr_v4
  gr_interface :: ipv4_addr
  gr_directed :: ipv4_addr

definition groups_new :: "socket_addr_v4 \<Rightarrow> ipv4_addr \<Rightarrow> groups" where
  "groups_new broadcast iface =
     \<lparr>gr_broadcast = broadcast, gr_interface = iface, gr_directed = Ipv4Addr 0 0 0 0\<rparr>"

definition contains_ip :: "ipv4_addr \<Rightarrow> groups \<Rightarrow> bool" where
  "contains_ip ip g =
     (let ip_bits = ip_to_bits ip;
          directed = (\<not> ip_is_unspecified (gr_directed g) \<and> ip_to_bits (gr_directed g) = ip_bits);
          subnet = (ip_bits = ip_to_bits (sa_ip (gr_broadcast g)) \<or> directed)
      in ip_is_broadcast ip \<or> ip_is_multicast ip
         \<or> (subnet \<and> \<not> ip_is_loopback ip \<and> ip_bits \<noteq> ip_to_bits (gr_interface g)))"

definition groups_contains :: "socket_addr_v4 \<Rightarrow> groups \<Rightarrow> bool" where
  "groups_contains address g =
     ((ip_to_bits (sa_ip address) = ip_to_bits (sa_ip (gr_broadcast g)) \<and> sa_port address = sa_port (gr_broadcast g))
      \<or> contains_ip (sa_ip address) g)"

definition link_groups :: "link \<Rightarrow> groups" where
  "link_groups l =
     \<lparr>gr_broadcast = ls_broadcast (lk_subnet l), gr_interface = sa_ip (lk_address l),
      gr_directed = (case ls_directed (lk_subnet l) of Some directed \<Rightarrow> directed | None \<Rightarrow> Ipv4Addr 0 0 0 0)\<rparr>"

definition is_own :: "socket_addr_v4 \<Rightarrow> link \<Rightarrow> bool" where
  "is_own address l \<longleftrightarrow> address = lk_address l"

definition is_answerable :: "socket_addr_v4 \<Rightarrow> link \<Rightarrow> bool" where
  "is_answerable source l \<longleftrightarrow>
     \<not> ip_is_unspecified (sa_ip source) \<and> sa_port source \<noteq> 0
     \<and> \<not> contains_ip (sa_ip source) (link_groups l) \<and> \<not> is_own source l"

section \<open>Checking the configuration\<close>

datatype config_error =
    OwnPort
  | Renewal
  | ResponseTimeout
  | BbmdPort
  | BbmdAddress
  | BbmdIsSelf
  | Budget
  | NotForeign
  | MulticastMode

definition validate_bbmd :: "socket_addr_v4 \<Rightarrow> link \<Rightarrow> config_error + unit" where
  "validate_bbmd bbmd l =
     (if sa_port bbmd = 0 then Inl BbmdPort
      else if ip_is_unspecified (sa_ip bbmd) \<or> groups_contains bbmd (link_groups l) then Inl BbmdAddress
      else let own = lk_address l in
        if ip_to_bits (sa_ip bbmd) = ip_to_bits (sa_ip own) \<and> sa_port bbmd = sa_port own then Inl BbmdIsSelf
        else Inr ())"

definition validate :: "link \<Rightarrow> config_error + unit" where
  "validate l =
     (if sa_port (lk_address l) = 0 then Inl OwnPort
      else if is_group (lk_subnet l) \<and> is_foreign (lk_mode l) then Inl MulticastMode
      else if (case lk_budget l of Some budget \<Rightarrow> budget < MIN_BUDGET | None \<Rightarrow> False) then Inl Budget
      else case lk_mode l of
        Foreign f \<Rightarrow>
          let ttl = as_nanos (ttl_duration f);
              renewal = as_nanos (fr_renewal f) in
          if fr_ttl f = 0 \<or> renewal = 0 \<or> renewal \<ge> ttl then Inl Renewal
          else if as_nanos (fr_response_timeout f) = 0 then Inl ResponseTimeout
          else (case fr_bbmd f of Some bbmd \<Rightarrow> validate_bbmd bbmd l | None \<Rightarrow> Inr ())
      | _ \<Rightarrow> Inr ())"

definition link_new :: "socket_addr_v4 \<Rightarrow> local_subnet \<Rightarrow> mode \<Rightarrow> config_error + link" where
  "link_new address subnet mode =
     (let l = \<lparr>lk_address = address, lk_subnet = subnet, lk_mode = mode, lk_budget = Some (of_nat MAX_DATAGRAM)\<rparr> in
      case validate l of Inr _ \<Rightarrow> Inr l | Inl e \<Rightarrow> Inl e)"

section \<open>Destinations\<close>

record addressed =
  ad_node :: bool
  ad_broadcast :: bool

record local_addresses =
  la_own :: ipv4_addr
  la_broadcast :: ipv4_addr
  la_wildcard :: "ipv4_addr list option"

definition local_addresses_new :: "ipv4_addr \<Rightarrow> ipv4_addr \<Rightarrow> local_addresses" where
  "local_addresses_new own broadcast = \<lparr>la_own = own, la_broadcast = broadcast, la_wildcard = None\<rparr>"

definition classify :: "ipv4_addr \<Rightarrow> bool option \<Rightarrow> local_addresses \<Rightarrow> addressed" where
  "classify destination os_group here =
     (let to_broadcast = (destination = la_broadcast here
            \<or> (ip_is_broadcast destination \<and> \<not> ip_is_multicast (la_broadcast here)));
          node = ((case la_wildcard here of
                     Some own_ips \<Rightarrow> \<not> to_broadcast \<and> \<not> ip_is_multicast destination \<and> List.member own_ips destination
                   | None \<Rightarrow> destination = la_own here) \<and> os_group \<noteq> Some True)
      in \<lparr>ad_node = node, ad_broadcast = to_broadcast \<and> os_group \<noteq> Some False\<rparr>)"

definition addressed_arrival :: "bvlc_function \<Rightarrow> addressed \<Rightarrow> arrival option" where
  "addressed_arrival function to =
     (let unicast = (if ad_node to then Some Unicast else None);
          broadcast = (if ad_broadcast to then Some Broadcast else None) in
      if function = ORIGINAL_UNICAST_NPDU then unicast
      else if function = ORIGINAL_BROADCAST_NPDU then broadcast
      else if function = FORWARDED_NPDU then (case broadcast of Some a \<Rightarrow> Some a | None \<Rightarrow> unicast)
      else unicast)"

section \<open>Received datagrams\<close>

datatype path = Primary | Listener bool

record datagram =
  dg_payload :: octets
  dg_source :: socket_addr_v4
  dg_to :: "addressed option"
  dg_path :: path
  dg_truncated :: bool

definition datagram_new :: "octets \<Rightarrow> socket_addr_v4 \<Rightarrow> addressed option \<Rightarrow> datagram" where
  "datagram_new payload source to =
     \<lparr>dg_payload = payload, dg_source = source, dg_to = to, dg_path = Primary, dg_truncated = False\<rparr>"

text \<open>The host's policy, each question of which may change the host's state.\<close>

record 's policy =
  po_admit_management :: "socket_addr_v4 \<Rightarrow> bvlc_function \<Rightarrow> 's \<Rightarrow> bool \<times> 's"
  po_accept_table :: "bvll \<Rightarrow> 's \<Rightarrow> bool \<times> 's"

definition PermissivePolicy :: "'s policy" where
  "PermissivePolicy = \<lparr>po_admit_management = (\<lambda>_ _ s. (True, s)), po_accept_table = (\<lambda>_ s. (True, s))\<rparr>"

record delivery =
  dl_npdu :: octets
  dl_source :: socket_addr_v4
  dl_group :: bool

record response =
  rs_peer :: socket_addr_v4
  rs_function :: bvlc_function
  rs_message :: "bvll_error + bvll"
  rs_accepted :: bool

datatype discard =
    Truncated
  | GroupSource
  | UnknownDestination
  | ListenerMismatch bool
  | DatagramTooShort
  | DatagramNotBip
  | DatagramLengthMismatch
  | DestinationMismatch
  | RateLimited
  | FunctionUnknown
  | MalformedPayload
  | EchoOfOwn
  | GroupOrigin
  | UnanswerableSource
  | ForwardedUntrusted

datatype for_bbmd =
    ForOriginalBroadcast delivery
  | ForForwarded socket_addr_v4 arrival socket_addr_v4 octets
  | ForDistribute socket_addr_v4 octets
  | ForManagement request

datatype received =
    Deliver delivery
  | Nak socket_addr_v4 bvlc_result_code bool
  | ReceivedResponse response
  | ReceivedBbmd for_bbmd
  | Discarded discard

definition of_decode_error :: "bvll_error \<Rightarrow> discard" where
  "of_decode_error e =
     (case e of
        BvllTooShort _ \<Rightarrow> DatagramTooShort
      | NotBip _ \<Rightarrow> DatagramNotBip
      | LengthMismatch _ _ \<Rightarrow> DatagramLengthMismatch
      | UnknownFunction _ \<Rightarrow> FunctionUnknown
      | _ \<Rightarrow> MalformedPayload)"

definition of_request :: "bvll \<Rightarrow> socket_addr_v4 \<Rightarrow> for_bbmd option" where
  "of_request message sender =
     (case message of
        DistributeBroadcastToNetwork npdu \<Rightarrow> Some (ForDistribute sender npdu)
      | RegisterForeignDevice ttl \<Rightarrow> Some (ForManagement (RegisterRequest sender ttl))
      | ReadBroadcastDistributionTable \<Rightarrow> Some (ForManagement (ReadBdt sender))
      | ReadForeignDeviceTable \<Rightarrow> Some (ForManagement (ReadFdt sender))
      | DeleteForeignDeviceTableEntry entry \<Rightarrow> Some (ForManagement (DeleteFdtEntry sender entry))
      | _ \<Rightarrow> None)"

definition rate_limited :: "bvlc_function \<Rightarrow> bool" where
  "rate_limited function \<longleftrightarrow>
     function = READ_BROADCAST_DISTRIBUTION_TABLE \<or> function = READ_FOREIGN_DEVICE_TABLE
     \<or> function = REGISTER_FOREIGN_DEVICE \<or> function = DELETE_FOREIGN_DEVICE_TABLE_ENTRY"

section \<open>The receive rules\<close>

definition listener_address_mismatch :: "addressed \<Rightarrow> bool \<Rightarrow> discard option" where
  "listener_address_mismatch to other_interface =
     (if \<not> ad_broadcast to then Some (ListenerMismatch False)
      else if other_interface then Some (ListenerMismatch True) else None)"

definition listener_mismatch :: "bool \<Rightarrow> received" where
  "listener_mismatch other_interface = Discarded (ListenerMismatch other_interface)"

definition link_arrival :: "addressed \<Rightarrow> bvlc_function \<Rightarrow> link \<Rightarrow> arrival option" where
  "link_arrival to function l =
     (case addressed_arrival function to of
        None \<Rightarrow> None
      | Some a \<Rightarrow>
          if ad_node to \<and> function = FORWARDED_NPDU \<and> is_foreign (lk_mode l) then Some Unicast else Some a)"

definition forwarded :: "socket_addr_v4 \<Rightarrow> arrival \<Rightarrow> socket_addr_v4 \<Rightarrow> octets \<Rightarrow> link \<Rightarrow> received" where
  "forwarded sender arrived origin npdu l =
     (if is_own origin l then Discarded EchoOfOwn
      else if groups_contains origin (link_groups l) then Discarded GroupOrigin
      else case lk_mode l of
        Bbmd \<Rightarrow>
          if is_own sender l then Discarded EchoOfOwn
          else ReceivedBbmd (ForForwarded sender arrived origin npdu)
      | Foreign f \<Rightarrow>
          if fr_trust f = ConfiguredBbmd \<and> (fr_bbmd f \<noteq> Some sender \<or> arrived \<noteq> Unicast)
          then Discarded ForwardedUntrusted
          else Deliver \<lparr>dl_npdu = npdu, dl_source = origin, dl_group = True\<rparr>
      | Normal \<Rightarrow> Deliver \<lparr>dl_npdu = npdu, dl_source = origin, dl_group = True\<rparr>)"

definition link_request :: "bvll \<Rightarrow> socket_addr_v4 \<Rightarrow> link \<Rightarrow> received" where
  "link_request message source l =
     (let function = bvll_function message in
      case function_nak function of
        None \<Rightarrow> Discarded FunctionUnknown
      | Some code \<Rightarrow>
          if function = DISTRIBUTE_BROADCAST_TO_NETWORK \<and> is_own source l then Discarded EchoOfOwn
          else case (if lk_mode l = Bbmd then of_request message source else None) of
            Some share \<Rightarrow> ReceivedBbmd share
          | None \<Rightarrow>
              if \<not> is_answerable source l then Discarded UnanswerableSource
              else Nak source code False)"

definition malformed :: "bvlc_function \<Rightarrow> bvll_error \<Rightarrow> socket_addr_v4 \<Rightarrow> link \<Rightarrow> received" where
  "malformed function e source l =
     (case function_nak function of
        Some code \<Rightarrow> if is_answerable source l then Nak source code True else Discarded MalformedPayload
      | None \<Rightarrow>
          if function = BVLC_RESULT \<or> function = READ_BROADCAST_DISTRIBUTION_TABLE_ACK
             \<or> function = READ_FOREIGN_DEVICE_TABLE_ACK
          then ReceivedResponse \<lparr>rs_peer = source, rs_function = function, rs_message = Inl e, rs_accepted = False\<rparr>
          else Discarded (of_decode_error e))"

definition dispatch :: "bvll \<Rightarrow> socket_addr_v4 \<Rightarrow> arrival \<Rightarrow> 's policy \<Rightarrow> link \<Rightarrow> 's \<Rightarrow> received \<times> 's" where
  "dispatch message source arrived policy l s =
     (let table_ack = (let (accepted, s) = po_accept_table policy message s in
            (ReceivedResponse \<lparr>rs_peer = source, rs_function = bvll_function message, rs_message = Inr message,
               rs_accepted = accepted\<rparr>, s)) in
      case message of
        OriginalUnicastNpdu npdu \<Rightarrow>
          (if is_own source l then Discarded EchoOfOwn
           else Deliver \<lparr>dl_npdu = npdu, dl_source = source, dl_group = (arrived = Broadcast)\<rparr>, s)
      | OriginalBroadcastNpdu npdu \<Rightarrow>
          (if is_own source l then Discarded EchoOfOwn
           else let d = \<lparr>dl_npdu = npdu, dl_source = source, dl_group = True\<rparr> in
             case lk_mode l of Bbmd \<Rightarrow> ReceivedBbmd (ForOriginalBroadcast d) | _ \<Rightarrow> Deliver d, s)
      | ForwardedNpdu origin npdu \<Rightarrow> (forwarded source arrived origin npdu l, s)
      | BvlcResult _ \<Rightarrow>
          (ReceivedResponse \<lparr>rs_peer = source, rs_function = bvll_function message, rs_message = Inr message,
             rs_accepted = True\<rparr>, s)
      | ReadBroadcastDistributionTableAck _ \<Rightarrow> table_ack
      | ReadForeignDeviceTableAck _ \<Rightarrow> table_ack
      | _ \<Rightarrow> (link_request message source l, s))"

text \<open>Rules 5 to 9 of \<open>receive\<close>, once the addresses have passed.\<close>

definition receive_frame :: "datagram \<Rightarrow> addressed \<Rightarrow> 's policy \<Rightarrow> link \<Rightarrow> 's \<Rightarrow> received \<times> 's" where
  "receive_frame dg to policy l s =
     (let source = dg_source dg;
          listener = (case dg_path dg of Listener _ \<Rightarrow> True | Primary \<Rightarrow> False) in
      case bvll_frame_decode (dg_payload dg) of
        Inl e \<Rightarrow> (Discarded (of_decode_error e), s)
      | Inr frame \<Rightarrow>
          (case link_arrival to (bvf_function frame) l of
             None \<Rightarrow> (Discarded DestinationMismatch, s)
           | Some arrived \<Rightarrow>
               if listener \<and> arrived \<noteq> Broadcast then (listener_mismatch False, s)
               else
                 let (admitted, s) =
                       (if rate_limited (bvf_function frame)
                        then po_admit_management policy source (bvf_function frame) s else (True, s)) in
                 if \<not> admitted then (Discarded RateLimited, s)
                 else case bvll_frame_message frame of
                   Inr message \<Rightarrow> dispatch message source arrived policy l s
                 | Inl e \<Rightarrow> (malformed (bvf_function frame) e source l, s)))"

definition link_receive :: "datagram \<Rightarrow> 's policy \<Rightarrow> link \<Rightarrow> 's \<Rightarrow> received \<times> 's" where
  "link_receive dg policy l s =
     (if dg_truncated dg then (Discarded Truncated, s)
      else if contains_ip (sa_ip (dg_source dg)) (link_groups l) then (Discarded GroupSource, s)
      else case dg_to dg of
        None \<Rightarrow> (Discarded UnknownDestination, s)
      | Some to \<Rightarrow>
          (case (case dg_path dg of Listener other \<Rightarrow> listener_address_mismatch to other | Primary \<Rightarrow> None) of
             Some discard \<Rightarrow> (Discarded discard, s)
           | None \<Rightarrow> receive_frame dg to policy l s))"

definition listener_keeps :: "datagram \<Rightarrow> link \<Rightarrow> bool" where
  "listener_keeps dg l =
     (case (dg_to dg, dg_path dg) of
        (Some to, Listener other) \<Rightarrow>
          (if listener_address_mismatch to other \<noteq> None then False
           else case bvll_frame_decode (dg_payload dg) of
             Inr frame \<Rightarrow> (case link_arrival to (bvf_function frame) l of None \<Rightarrow> True | Some a \<Rightarrow> a = Broadcast)
           | Inl _ \<Rightarrow> True)
      | _ \<Rightarrow> True)"

section \<open>Sends\<close>

record outgoing =
  og_to :: socket_addr_v4
  og_message :: bvll

datatype cast = CastUnicast | CastBroadcast

datatype send_refusal =
    NpduTooLong nat
  | HoldFull
  | GroupDestination
  | SocketFull
  | SocketError
  | NoBbmd

definition BROADCAST_OVERHEAD :: nat where "BROADCAST_OVERHEAD = BVLL_HEADER_LENGTH + 6"

definition max_npdu :: "cast \<Rightarrow> link \<Rightarrow> nat" where
  "max_npdu cast l =
     (let overhead = (case cast of CastUnicast \<Rightarrow> BVLL_HEADER_LENGTH | CastBroadcast \<Rightarrow> BROADCAST_OVERHEAD) in
      case lk_budget l of
        Some budget \<Rightarrow> min (unat budget - overhead) MAX_NPDU
      | None \<Rightarrow> MAX_BVLL_LENGTH - overhead)"

definition send_fits :: "octets \<Rightarrow> cast \<Rightarrow> link \<Rightarrow> send_refusal + unit" where
  "send_fits npdu cast l =
     (if lk_budget l = None then Inr ()
      else if length npdu > max_npdu cast l then Inl (NpduTooLong (max_npdu cast l)) else Inr ())"

definition unicast :: "socket_addr_v4 \<Rightarrow> octets \<Rightarrow> link \<Rightarrow> send_refusal + outgoing" where
  "unicast to npdu l =
     (if groups_contains to (link_groups l) then Inl GroupDestination
      else try_res (send_fits npdu CastUnicast l)
        (\<lambda>_. Inr \<lparr>og_to = to, og_message = OriginalUnicastNpdu npdu\<rparr>))"

definition broadcast :: "octets \<Rightarrow> link \<Rightarrow> send_refusal + (outgoing \<times> bool)" where
  "broadcast npdu l =
     try_res (send_fits npdu CastBroadcast l) (\<lambda>_.
       let local_out = \<lparr>og_to = ls_broadcast (lk_subnet l), og_message = OriginalBroadcastNpdu npdu\<rparr> in
       case lk_mode l of
         Normal \<Rightarrow> Inr (local_out, False)
       | Bbmd \<Rightarrow> Inr (local_out, True)
       | Foreign f \<Rightarrow>
           try_res (ok_or NoBbmd (fr_bbmd f)) (\<lambda>bbmd.
             Inr (\<lparr>og_to = bbmd, og_message = DistributeBroadcastToNetwork npdu\<rparr>, False)))"

section \<open>The configuration check\<close>

lemma groups_contains_ip: "contains_ip (sa_ip a) g \<Longrightarrow> groups_contains a g"
  by (simp add: groups_contains_def)

lemma unat_ucast_u16 [simp]: "unat (ucast (w :: u16) :: u64) = unat w"
  by (simp add: unsigned_ucast_eq take_bit_nat_eq_self)

lemma ttl_nanos: "unat (as_nanos (ttl_duration f)) = unat (fr_ttl f) * 1000000000"
proof -
  define n where "n = unat (fr_ttl f)"
  have "n < 65536" by (simp add: n_def)
  then have "n * 1000000000 < 2 ^ 64" by simp
  then show ?thesis
    by (simp add: ttl_duration_def from_secs_def unat_saturating_mul NANOS_PER_SEC_def n_def)
qed

lemma duration_less_iff: "a < b \<longleftrightarrow> unat (as_nanos a) < unat (as_nanos b)"
  by (simp add: less_duration_def word_less_nat_alt)

lemma duration_le_iff: "a \<le> b \<longleftrightarrow> unat (as_nanos a) \<le> unat (as_nanos b)"
  by (simp add: less_eq_duration_def word_le_nat_alt)

lemma min_renewal_nanos: "unat (as_nanos MIN_RENEWAL) = 100000000"
  by (simp add: MIN_RENEWAL_def from_millis_def unat_saturating_mul NANOS_PER_MILLI_def)

text \<open>What the check asks of a foreign device's registration.\<close>

definition foreign_ok :: "foreign \<Rightarrow> bool" where
  "foreign_ok f \<longleftrightarrow> 0 < as_nanos (fr_renewal f) \<and> fr_renewal f < ttl_duration f \<and> 0 < as_nanos (fr_response_timeout f)"

definition bbmd_ok :: "socket_addr_v4 \<Rightarrow> link \<Rightarrow> bool" where
  "bbmd_ok b l \<longleftrightarrow> sa_port b \<noteq> 0 \<and> \<not> ip_is_unspecified (sa_ip b) \<and> \<not> groups_contains b (link_groups l)
     \<and> b \<noteq> lk_address l"

lemma validate_bbmd_iff: "validate_bbmd b l = Inr () \<longleftrightarrow> bbmd_ok b l"
  by (auto simp: validate_bbmd_def bbmd_ok_def Let_def socket_addr_v4.equality)

lemma link_validate_iff:
  "validate l = Inr () \<longleftrightarrow> sa_port (lk_address l) \<noteq> 0
     \<and> (\<forall>b. lk_budget l = Some b \<longrightarrow> MIN_BUDGET \<le> b)
     \<and> (\<forall>f. lk_mode l = Foreign f \<longrightarrow> \<not> is_group (lk_subnet l) \<and> foreign_ok f
          \<and> (\<forall>b. fr_bbmd f = Some b \<longrightarrow> bbmd_ok b l))"
proof -
  have z: "as_nanos (ttl_duration f) \<le> x" if "fr_ttl f = 0" for f x
    using that ttl_nanos [of f] by (simp add: word_le_nat_alt)
  show ?thesis
    by (cases "lk_mode l")
       (auto simp: validate_def is_foreign_def Let_def not_less not_le foreign_ok_def less_duration_def validate_bbmd_iff
        word_neq_0_conv intro: z split: option.splits)
qed

text \<open>A checked registration is renewed before it runs out, also at the renewal interval in use.\<close>

lemma renewal_before_ttl:
  assumes "foreign_ok f"
  shows "effective_renewal f < ttl_duration f" and "0 < unat (as_nanos (effective_renewal f))"
    and "effective_response_timeout f \<le> effective_renewal f" and "0 < unat (as_nanos (effective_response_timeout f))"
proof -
  from assms have r: "fr_renewal f < ttl_duration f" "0 < unat (as_nanos (fr_response_timeout f))"
    by (simp_all add: foreign_ok_def word_less_nat_alt)
  then have "0 < unat (fr_ttl f)" by (cases "unat (fr_ttl f) = 0") (simp_all add: duration_less_iff ttl_nanos)
  then have "MIN_RENEWAL < ttl_duration f" by (simp add: duration_less_iff ttl_nanos min_renewal_nanos)
  with r(1) show "effective_renewal f < ttl_duration f" by (simp add: effective_renewal_def)
  show pos: "0 < unat (as_nanos (effective_renewal f))"
    using min_renewal_nanos by (simp add: effective_renewal_def max_def duration_le_iff)
  show "effective_response_timeout f \<le> effective_renewal f" by (simp add: effective_response_timeout_def)
  show "0 < unat (as_nanos (effective_response_timeout f))"
    using pos r(2) by (simp add: effective_response_timeout_def min_def)
qed

text \<open>The settings \<open>Foreign::new\<close> picks pass the check for every time-to-live but zero.\<close>

lemma foreign_new_ok: "foreign_ok (foreign_with_bbmd b ttl) \<longleftrightarrow> ttl \<noteq> 0"
proof -
  define n where "n = unat ttl"
  have n: "n < 65536" by (simp add: n_def)
  have "unat (ucast ttl * 500 :: u64) = (n * 500) mod 2 ^ 64" by (simp add: unat_word_ariths n_def)
  then have "unat (ucast ttl * 500 :: u64) = n * 500" using n by simp
  then have r: "unat (as_nanos (from_millis (ucast ttl * 500))) = n * 500000000"
    using n by (simp add: from_millis_def unat_saturating_mul NANOS_PER_MILLI_def)
  have t: "unat (as_nanos (ttl_duration (foreign_with_bbmd b ttl))) = n * 1000000000"
    by (simp add: ttl_nanos foreign_with_bbmd_def Let_def n_def)
  have d: "unat (as_nanos DEFAULT_RESPONSE_TIMEOUT) = 3000000000"
    by (simp add: DEFAULT_RESPONSE_TIMEOUT_def from_secs_def unat_saturating_mul NANOS_PER_SEC_def)
  have zero: "ttl \<noteq> 0 \<longleftrightarrow> 0 < n" by (simp add: n_def unat_gt_0)
  show ?thesis unfolding zero
    by (simp add: foreign_ok_def word_less_nat_alt duration_less_iff t)
       (auto simp: foreign_with_bbmd_def Let_def max_def min_def duration_le_iff r d min_renewal_nanos; presburger)
qed

section \<open>What the rules let pass\<close>

text \<open>
  Rules 1 to 7 as one condition on the datagram's addresses: the datagram was read whole, its
  sender is one node, and its destination fits the function in the way \<open>a\<close>; on a broadcast
  listener, as a broadcast on the node's own interface.
\<close>

definition passes :: "datagram \<Rightarrow> bvlc_function \<Rightarrow> arrival \<Rightarrow> link \<Rightarrow> bool" where
  "passes dg fn a l \<longleftrightarrow> \<not> dg_truncated dg \<and> \<not> contains_ip (sa_ip (dg_source dg)) (link_groups l)
     \<and> (case dg_to dg of None \<Rightarrow> False
        | Some to \<Rightarrow> link_arrival to fn l = Some a
            \<and> (case dg_path dg of Primary \<Rightarrow> True | Listener other \<Rightarrow> ad_broadcast to \<and> \<not> other \<and> a = Broadcast))"

text \<open>Rules 8 and 9, and the dispatch.\<close>

definition handle_frame :: "bvll_frame \<Rightarrow> socket_addr_v4 \<Rightarrow> arrival \<Rightarrow> 's policy \<Rightarrow> link \<Rightarrow> 's \<Rightarrow> received \<times> 's" where
  "handle_frame frame source a policy l s =
     (let (admitted, s) =
           (if rate_limited (bvf_function frame)
            then po_admit_management policy source (bvf_function frame) s else (True, s)) in
      if \<not> admitted then (Discarded RateLimited, s)
      else case bvll_frame_message frame of
        Inr message \<Rightarrow> dispatch message source a policy l s
      | Inl e \<Rightarrow> (malformed (bvf_function frame) e source l, s))"

lemma listener_address_iff:
  "listener_address_mismatch to other = None \<longleftrightarrow> ad_broadcast to \<and> \<not> other"
  "listener_address_mismatch to other = Some d \<Longrightarrow> \<exists>o'. d = ListenerMismatch o'"
  by (auto simp: listener_address_mismatch_def split: if_splits)

lemma receive_passed:
  assumes "bvll_frame_decode (dg_payload dg) = Inr frame" "passes dg (bvf_function frame) a l"
  shows "link_receive dg policy l s = handle_frame frame (dg_source dg) a policy l s"
proof -
  from assms(2) obtain to where to: "dg_to dg = Some to" "link_arrival to (bvf_function frame) l = Some a"
    by (auto simp: passes_def split: option.splits)
  have "(case dg_path dg of Listener other \<Rightarrow> listener_address_mismatch to other | Primary \<Rightarrow> None) = None"
    using assms(2) to by (simp add: passes_def listener_address_iff split: path.splits)
  moreover have "receive_frame dg to policy l s = handle_frame frame (dg_source dg) a policy l s"
    using assms to(2) unfolding receive_frame_def Let_def handle_frame_def
    by (simp add: passes_def to(1) split: path.splits)
  ultimately show ?thesis using assms(2) to(1) by (simp add: link_receive_def passes_def)
qed

lemma receive_stopped:
  assumes "\<And>frame a. bvll_frame_decode (dg_payload dg) = Inr frame \<Longrightarrow> \<not> passes dg (bvf_function frame) a l"
  shows "\<exists>d. link_receive dg policy l s = (Discarded d, s)"
proof (cases "dg_truncated dg \<or> contains_ip (sa_ip (dg_source dg)) (link_groups l) \<or> dg_to dg = None")
  case True
  then show ?thesis by (auto simp: link_receive_def)
next
  case False
  then obtain to where to: "\<not> dg_truncated dg" "\<not> contains_ip (sa_ip (dg_source dg)) (link_groups l)" "dg_to dg = Some to"
    by auto
  show ?thesis
  proof (cases "case dg_path dg of Listener other \<Rightarrow> listener_address_mismatch to other | Primary \<Rightarrow> None")
    case (Some d)
    with to show ?thesis by (simp add: link_receive_def)
  next
    case None
    have "\<exists>d. receive_frame dg to policy l s = (Discarded d, s)"
    proof (cases "bvll_frame_decode (dg_payload dg)")
      case (Inl e)
      then show ?thesis by (simp add: receive_frame_def)
    next
      case (Inr frame)
      show ?thesis
      proof (cases "link_arrival to (bvf_function frame) l")
        case none: None
        with Inr show ?thesis by (simp add: receive_frame_def)
      next
        case (Some a)
        with assms [OF Inr, of a] None to obtain other where "dg_path dg = Listener other" "a \<noteq> Broadcast"
          by (auto simp: passes_def listener_address_iff split: path.splits)
        with Inr Some show ?thesis by (simp add: receive_frame_def listener_mismatch_def)
      qed
    qed
    with None to show ?thesis by (simp add: link_receive_def)
  qed
qed

lemma receive_cases:
  obtains d where "link_receive dg policy l s = (Discarded d, s)"
      "\<forall>frame a. bvll_frame_decode (dg_payload dg) = Inr frame \<longrightarrow> \<not> passes dg (bvf_function frame) a l"
  | frame a where "bvll_frame_decode (dg_payload dg) = Inr frame" "passes dg (bvf_function frame) a l"
      "link_receive dg policy l s = handle_frame frame (dg_source dg) a policy l s"
  using receive_passed receive_stopped by metis

lemma frame_message_function: "bvll_frame_message frame = Inr m \<Longrightarrow> bvll_function m = bvf_function frame"
  by (auto simp: bvll_frame_message_def dest: bvll_match_canonical split: option.splits if_splits)

lemma bvll_decode_frame:
  "bvll_decode d = Inr m \<longleftrightarrow> (\<exists>frame. bvll_frame_decode d = Inr frame \<and> bvll_frame_message frame = Inr m)"
  by (simp add: bvll_decode_def try_res_eq_Inr)

text \<open>The functions that carry an NPDU are not rate limited and have no NAK but Distribute-Broadcast.\<close>

lemma function_kinds:
  "rate_limited fn \<Longrightarrow> function_nak fn \<noteq> None"
  "\<not> rate_limited ORIGINAL_UNICAST_NPDU" "\<not> rate_limited ORIGINAL_BROADCAST_NPDU" "\<not> rate_limited FORWARDED_NPDU"
  "\<not> rate_limited DISTRIBUTE_BROADCAST_TO_NETWORK"
  "function_nak fn \<noteq> None \<Longrightarrow> fn \<noteq> ORIGINAL_UNICAST_NPDU \<and> fn \<noteq> ORIGINAL_BROADCAST_NPDU \<and> fn \<noteq> FORWARDED_NPDU"
  by (auto simp: rate_limited_def function_nak_def bvlc_functions split: if_splits)

text \<open>A function that is answered was sent to the node.\<close>

lemma nak_arrival:
  assumes "link_arrival to fn l = Some a" "function_nak fn \<noteq> None"
  shows "a = Unicast \<and> ad_node to"
  using assms function_kinds(6) [OF assms(2)]
  by (auto simp: link_arrival_def addressed_arrival_def Let_def split: if_splits)

lemma nak_passes:
  assumes "passes dg fn a l" "function_nak fn \<noteq> None"
  shows "a = Unicast" and "dg_path dg = Primary" and "\<exists>to. dg_to dg = Some to \<and> ad_node to"
  using assms nak_arrival [OF _ assms(2)] by (auto simp: passes_def split: option.splits path.splits)

text \<open>The NPDUs handed up, by message.\<close>

definition delivers :: "bvll \<Rightarrow> socket_addr_v4 \<Rightarrow> arrival \<Rightarrow> link \<Rightarrow> delivery \<Rightarrow> bool" where
  "delivers m source a l d =
     (case m of
        OriginalUnicastNpdu npdu \<Rightarrow>
          source \<noteq> lk_address l \<and> d = \<lparr>dl_npdu = npdu, dl_source = source, dl_group = False\<rparr>
      | OriginalBroadcastNpdu npdu \<Rightarrow>
          lk_mode l \<noteq> Bbmd \<and> source \<noteq> lk_address l \<and> d = \<lparr>dl_npdu = npdu, dl_source = source, dl_group = True\<rparr>
      | ForwardedNpdu origin npdu \<Rightarrow>
          lk_mode l \<noteq> Bbmd \<and> origin \<noteq> lk_address l \<and> \<not> groups_contains origin (link_groups l)
          \<and> (\<forall>f. lk_mode l = Foreign f \<longrightarrow> fr_trust f = ConfiguredBbmd \<longrightarrow> fr_bbmd f = Some source \<and> a = Unicast)
          \<and> d = \<lparr>dl_npdu = npdu, dl_source = origin, dl_group = True\<rparr>
      | _ \<Rightarrow> False)"

lemma request_not_delivered: "link_request m source l \<noteq> Deliver d" "malformed fn e source l \<noteq> Deliver d"
  by (auto simp: link_request_def malformed_def Let_def split: option.splits if_splits)

lemma unicast_arrival: "link_arrival to ORIGINAL_UNICAST_NPDU l = Some a \<Longrightarrow> a = Unicast"
  by (auto simp: link_arrival_def addressed_arrival_def Let_def bvlc_functions split: if_splits)

lemma passes_arrival: "passes dg fn a l \<Longrightarrow> \<exists>to. dg_to dg = Some to \<and> link_arrival to fn l = Some a"
  by (auto simp: passes_def split: option.splits)

lemma dispatch_delivers:
  assumes "passes dg (bvll_function m) a l"
  shows "fst (dispatch m source a policy l s) = Deliver d \<longleftrightarrow> delivers m source a l d"
proof (cases m)
  case (OriginalUnicastNpdu npdu)
  with passes_arrival [OF assms] have "a = Unicast" using unicast_arrival by auto
  with OriginalUnicastNpdu show ?thesis by (auto simp: dispatch_def delivers_def is_own_def)
next
  case (ForwardedNpdu origin npdu)
  then show ?thesis
    by (cases "lk_mode l") (auto simp: dispatch_def delivers_def is_own_def forwarded_def)
next
  case (OriginalBroadcastNpdu npdu)
  then show ?thesis
    by (cases "lk_mode l") (auto simp: dispatch_def delivers_def is_own_def)
qed (auto simp: dispatch_def delivers_def request_not_delivered Let_def split: prod.split)

lemma handle_delivers:
  assumes "passes dg (bvf_function frame) a l"
  shows "fst (handle_frame frame source a policy l s) = Deliver d
    \<longleftrightarrow> (\<exists>m. bvll_frame_message frame = Inr m \<and> delivers m source a l d)"
proof (cases "bvll_frame_message frame")
  case (Inl e)
  then show ?thesis
    by (auto simp: handle_frame_def request_not_delivered Let_def split: prod.splits if_splits)
next
  case (Inr m)
  note fn = frame_message_function [OF Inr]
  show ?thesis
  proof (cases "rate_limited (bvf_function frame)")
    case True
    then have "\<not> delivers m source a l d"
      using function_kinds fn by (auto simp: delivers_def split: bvll.splits)
    moreover have "fst (handle_frame frame source a policy l s) \<noteq> Deliver d"
      using Inr dispatch_delivers [where policy = policy and m = m and a = a and dg = dg and d = d and source = source]
        assms fn calculation
      by (auto simp: handle_frame_def Let_def split: prod.splits if_splits)
    ultimately show ?thesis using Inr by auto
  next
    case False
    then show ?thesis using Inr dispatch_delivers [of dg m a l source policy s d] assms fn by (simp add: handle_frame_def)
  qed
qed

text \<open>
  C10: \<open>Link::receive\<close> hands up an NPDU exactly when the datagram was read whole, comes from one
  node other than this one, was sent where its function belongs (on a broadcast listener, to
  the broadcast address on this interface) and decodes to a message that carries the NPDU for
  this mode: an Original-Unicast-NPDU, for any node but a BBMD an Original-Broadcast-NPDU, or
  a Forwarded-NPDU whose origin is one other node and which a foreign device trusts. The NPDU's
  source is its origin, and it is marked as a group message unless it was a unicast. The host's
  policy and its state do not matter.
\<close>

theorem receive_delivers_iff:
  "fst (link_receive dg policy l s) = Deliver d \<longleftrightarrow>
     (\<exists>m a. bvll_decode (dg_payload dg) = Inr m \<and> passes dg (bvll_function m) a l \<and> delivers m (dg_source dg) a l d)"
proof (rule receive_cases [of dg policy l s])
  fix e assume e: "link_receive dg policy l s = (Discarded e, s)"
    "\<forall>frame a. bvll_frame_decode (dg_payload dg) = Inr frame \<longrightarrow> \<not> passes dg (bvf_function frame) a l"
  then show ?thesis by (auto simp: bvll_decode_frame dest: frame_message_function)
next
  fix frame a assume f: "bvll_frame_decode (dg_payload dg) = Inr frame" "passes dg (bvf_function frame) a l"
    "link_receive dg policy l s = handle_frame frame (dg_source dg) a policy l s"
  have unique: "a' = a" if "passes dg (bvf_function frame) a' l" for a'
    using passes_arrival [OF f(2)] passes_arrival [OF that] by auto
  have "(\<exists>m a'. bvll_decode (dg_payload dg) = Inr m \<and> passes dg (bvll_function m) a' l \<and> delivers m (dg_source dg) a' l d)
      \<longleftrightarrow> (\<exists>m. bvll_frame_message frame = Inr m \<and> delivers m (dg_source dg) a l d)" (is "?L \<longleftrightarrow> ?R")
  proof
    assume ?L
    then obtain m a' where m: "bvll_frame_message frame = Inr m" "passes dg (bvll_function m) a' l"
        "delivers m (dg_source dg) a' l d"
      using f(1) by (auto simp: bvll_decode_frame)
    from m(2) have "a' = a" by (intro unique) (simp add: frame_message_function [OF m(1)])
    with m show ?R by blast
  next
    assume ?R
    then obtain m where m: "bvll_frame_message frame = Inr m" "delivers m (dg_source dg) a l d" by blast
    then show ?L using f(1,2) frame_message_function [OF m(1)] by (auto simp: bvll_decode_frame)
  qed
  then show ?thesis unfolding f(3) handle_delivers [OF f(2)] by simp
qed

section \<open>What is answered\<close>

text \<open>What the policy says of a request it is asked about.\<close>

definition admits_request :: "'s policy \<Rightarrow> socket_addr_v4 \<Rightarrow> bvlc_function \<Rightarrow> 's \<Rightarrow> bool" where
  "admits_request policy source fn s \<longleftrightarrow> \<not> rate_limited fn \<or> fst (po_admit_management policy source fn s)"

lemma handle_frame_fst:
  "\<exists>s'. handle_frame frame source a policy l s =
     (if admits_request policy source (bvf_function frame) s
      then case bvll_frame_message frame of
             Inr message \<Rightarrow> dispatch message source a policy l s'
           | Inl e \<Rightarrow> (malformed (bvf_function frame) e source l, s')
      else (Discarded RateLimited, s'))"
  by (cases "po_admit_management policy source (bvf_function frame) s")
     (auto simp: handle_frame_def admits_request_def Let_def)

lemma dispatch_request:
  "function_nak (bvll_function m) \<noteq> None \<Longrightarrow> dispatch m source a policy l s = (link_request m source l, s)"
  by (cases m) (auto simp: dispatch_def function_nak_def bvlc_functions)

lemma dispatch_no_nak:
  "function_nak (bvll_function m) = None \<Longrightarrow> fst (dispatch m source a policy l s) \<noteq> Nak to code mal"
  by (cases m) (auto simp: dispatch_def forwarded_def function_nak_def bvlc_functions Let_def
      split: mode.splits prod.splits if_splits)

lemma of_request_None:
  "function_nak (bvll_function m) \<noteq> None \<Longrightarrow>
     of_request m source = None \<longleftrightarrow> bvll_function m = WRITE_BROADCAST_DISTRIBUTION_TABLE"
  by (cases m) (auto simp: of_request_def function_nak_def bvlc_functions)

lemma link_request_nak:
  assumes "function_nak (bvll_function m) = Some c"
  shows "link_request m source l = Nak to code mal \<longleftrightarrow>
     to = source \<and> code = c \<and> \<not> mal \<and> is_answerable source l
     \<and> (lk_mode l \<noteq> Bbmd \<or> bvll_function m = WRITE_BROADCAST_DISTRIBUTION_TABLE)"
  using assms of_request_None [of m source]
  by (auto simp: link_request_def Let_def is_answerable_def split: option.splits if_splits)

lemma malformed_nak:
  "malformed fn e source l = Nak to code mal \<longleftrightarrow>
     to = source \<and> function_nak fn = Some code \<and> mal \<and> is_answerable source l"
  by (auto simp: malformed_def split: option.splits if_splits)

text \<open>
  C36: \<open>Link::receive\<close> answers with a NAK exactly the BBMD-only requests that no one else will:
  sent to this node by unicast on its primary socket, admitted by the host's policy, from a
  source a reply can reach (so never a group, the unspecified address or the node itself), and
  either malformed or not served by this node, which serves all six but Write-BDT in BBMD mode.
  The code is the request's own, and it goes back to the sender. Nothing else is ever NAKed:
  no broadcast, no response and no NPDU, so two nodes never answer each other's answers.
\<close>

theorem receive_naks_iff:
  "fst (link_receive dg policy l s) = Nak to code mal \<longleftrightarrow>
     (\<exists>frame. bvll_frame_decode (dg_payload dg) = Inr frame
        \<and> function_nak (bvf_function frame) = Some code
        \<and> passes dg (bvf_function frame) Unicast l \<and> dg_path dg = Primary
        \<and> admits_request policy (dg_source dg) (bvf_function frame) s
        \<and> to = dg_source dg \<and> is_answerable to l
        \<and> mal = isl (bvll_frame_message frame)
        \<and> \<not> (\<not> mal \<and> lk_mode l = Bbmd \<and> bvf_function frame \<noteq> WRITE_BROADCAST_DISTRIBUTION_TABLE))"
  (is "_ \<longleftrightarrow> ?R")
proof (rule receive_cases [of dg policy l s])
  fix e assume "link_receive dg policy l s = (Discarded e, s)"
    "\<forall>frame a. bvll_frame_decode (dg_payload dg) = Inr frame \<longrightarrow> \<not> passes dg (bvf_function frame) a l"
  then show ?thesis by auto
next
  fix frame a assume f: "bvll_frame_decode (dg_payload dg) = Inr frame" "passes dg (bvf_function frame) a l"
    "link_receive dg policy l s = handle_frame frame (dg_source dg) a policy l s"
  let ?src = "dg_source dg" and ?fn = "bvf_function frame"
  obtain s' where h: "handle_frame frame ?src a policy l s =
     (if admits_request policy ?src ?fn s
      then case bvll_frame_message frame of
             Inr message \<Rightarrow> dispatch message ?src a policy l s' | Inl e \<Rightarrow> (malformed ?fn e ?src l, s')
      else (Discarded RateLimited, s'))"
    using handle_frame_fst [of frame ?src a policy l s] by blast
  have nak: "function_nak ?fn = Some c \<Longrightarrow> a = Unicast \<and> dg_path dg = Primary" for c
    using nak_passes [OF f(2)] by simp
  have "fst (handle_frame frame ?src a policy l s) = Nak to code mal \<longleftrightarrow>
      function_nak ?fn = Some code \<and> admits_request policy ?src ?fn s \<and> to = ?src \<and> is_answerable to l
      \<and> mal = isl (bvll_frame_message frame)
      \<and> (mal \<or> lk_mode l \<noteq> Bbmd \<or> ?fn = WRITE_BROADCAST_DISTRIBUTION_TABLE)"
  proof (cases "bvll_frame_message frame")
    case (Inl e)
    then show ?thesis by (auto simp: h malformed_nak)
  next
    case (Inr m)
    note fn = frame_message_function [OF Inr]
    show ?thesis
    proof (cases "function_nak ?fn")
      case None
      with dispatch_no_nak [where m = m and policy = policy and l = l] Inr fn show ?thesis by (simp add: h)
    next
      case (Some c)
      with Inr fn link_request_nak [of m c] dispatch_request [where m = m and policy = policy] show ?thesis
        by (auto simp: h)
    qed
  qed
  then show ?thesis unfolding f(3) using f(1,2) nak by auto
qed

text \<open>
  A broadcast listener's frame tap sees exactly what the node keeps: of a datagram read
  whole from a sender that is no group, \<open>listener_keeps\<close> is false exactly when \<open>receive\<close> drops
  it under the listener's rules, whatever the policy.
\<close>

theorem listener_keeps_iff:
  assumes "\<not> dg_truncated dg" and "\<not> contains_ip (sa_ip (dg_source dg)) (link_groups l)"
  shows "listener_keeps dg l \<longleftrightarrow> (\<nexists>other. fst (link_receive dg policy l s) = Discarded (ListenerMismatch other))"
proof -
  have err: "of_decode_error e \<noteq> ListenerMismatch x" for e x by (simp add: of_decode_error_def split: bvll_error.split)
  have mal: "malformed fn e src l \<noteq> Discarded (ListenerMismatch x)" for fn e src x
    using err by (auto simp: malformed_def split: option.splits if_splits)
  have dis: "fst (dispatch m src a policy l s) \<noteq> Discarded (ListenerMismatch x)" for m src a s x
    by (cases m) (auto simp: dispatch_def forwarded_def link_request_def Let_def
        split: mode.splits prod.splits if_splits option.splits)
  have h: "fst (handle_frame frame src a policy l s) \<noteq> Discarded (ListenerMismatch x)" for frame src a x
    using dis mal handle_frame_fst [of frame src a policy l s] by (auto split: if_splits sum.splits)
  show ?thesis
  proof (cases "dg_to dg")
    case None
    with assms show ?thesis by (simp add: listener_keeps_def link_receive_def)
  next
    case to: (Some to)
    show ?thesis
    proof (cases "\<exists>frame a. bvll_frame_decode (dg_payload dg) = Inr frame \<and> passes dg (bvf_function frame) a l")
      case True
      then obtain frame a where f: "bvll_frame_decode (dg_payload dg) = Inr frame" "passes dg (bvf_function frame) a l"
        by blast
      then have "listener_keeps dg l"
        using to by (auto simp: listener_keeps_def passes_def listener_address_iff split: path.splits)
      with h show ?thesis unfolding receive_passed [OF f] by simp
    next
      case none: False
      define rule4 where "rule4 = (case dg_path dg of Listener other \<Rightarrow> listener_address_mismatch to other | Primary \<Rightarrow> None)"
      have rec: "link_receive dg policy l s = (case rule4 of Some d \<Rightarrow> (Discarded d, s) | None \<Rightarrow> receive_frame dg to policy l s)"
        using assms to by (simp add: link_receive_def rule4_def)
      show ?thesis
      proof (cases rule4)
        case (Some d)
        then obtain other where "dg_path dg = Listener other" "listener_address_mismatch to other = Some d"
          by (auto simp: rule4_def split: path.splits)
        with Some rec to listener_address_iff(2) show ?thesis by (auto simp: listener_keeps_def)
      next
        case r4: None
        show ?thesis
        proof (cases "bvll_frame_decode (dg_payload dg)")
          case (Inl e)
          with rec r4 to err show ?thesis
            by (auto simp: listener_keeps_def receive_frame_def rule4_def split: path.splits)
        next
          case (Inr frame)
          show ?thesis
          proof (cases "link_arrival to (bvf_function frame) l")
            case None
            with rec r4 Inr to show ?thesis
              by (auto simp: listener_keeps_def receive_frame_def rule4_def split: path.splits)
          next
            case (Some a)
            with none Inr to assms r4 obtain other where "dg_path dg = Listener other" "a \<noteq> Broadcast"
              by (auto simp: passes_def rule4_def listener_address_iff split: path.splits)
            with rec r4 Inr Some to show ?thesis
              by (auto simp: listener_keeps_def receive_frame_def listener_mismatch_def intro: exI [of _ False])
          qed
        qed
      qed
    qed
  qed
qed

text \<open>A subnet 192.168.1.0/24 on port 47808, for the examples.\<close>

definition at_host :: "octet \<Rightarrow> socket_addr_v4" where
  "at_host n = \<lparr>sa_ip = Ipv4Addr 192 168 1 n, sa_port = DEFAULT_PORT\<rparr>"

definition office :: local_subnet where "office = new_local_subnet (at_host 255)"

definition node_link :: "octet \<Rightarrow> mode \<Rightarrow> link" where
  "node_link n mode = \<lparr>lk_address = at_host n, lk_subnet = office, lk_mode = mode, lk_budget = Some 1507\<rparr>"

lemmas example_net = at_host_def office_def node_link_def new_local_subnet_def link_groups_def contains_ip_def
  groups_contains_def ip_is_broadcast_def ip_is_multicast_def ip_is_unspecified_def ip_is_loopback_def is_own_def
  is_answerable_def

theorem listener_keeps_iff_witness:
  "\<exists>dg. dg_truncated dg = False \<and> dg_path dg = Listener True
     \<and> contains_ip (sa_ip (dg_source dg)) (link_groups (node_link 5 Normal)) = False
     \<and> listener_keeps dg (node_link 5 Normal) = False
     \<and> (\<exists>other. fst (link_receive dg PermissivePolicy (node_link 5 Normal) ()) = Discarded (ListenerMismatch other))"
proof -
  define dg where "dg = (datagram_new (bvll_octets (OriginalBroadcastNpdu [1, 0])) (at_host 7)
    (Some \<lparr>ad_node = False, ad_broadcast = True\<rparr>))\<lparr>dg_path := Listener True\<rparr>"
  have c: "\<not> contains_ip (sa_ip (dg_source dg)) (link_groups (node_link 5 Normal))"
    by (simp add: dg_def datagram_new_def example_net)
  have t: "\<not> dg_truncated dg" and k: "\<not> listener_keeps dg (node_link 5 Normal)"
    by (simp_all add: dg_def datagram_new_def listener_keeps_def listener_address_mismatch_def)
  from listener_keeps_iff [OF t c, of PermissivePolicy "()"] k t c show ?thesis
    by (intro exI [of _ dg]) (simp add: dg_def datagram_new_def)
qed

section \<open>From node to node\<close>

text \<open>A message that carries an NPDU, from the encoder to the peer's decoder.\<close>

lemma npdu_message_carried:
  assumes "bvll_npdu m \<noteq> None" "BVLL_HEADER_LENGTH + payload_length m \<le> n" "n \<le> length buf" "n \<le> MAX_BVLL_LENGTH"
  shows "\<exists>buf' k. bvll_encode_into m buf = (buf', Inr k) \<and> k \<le> n \<and> bvll_decode (take k buf') = Inr m"
proof -
  let ?k = "BVLL_HEADER_LENGTH + payload_length m"
  from assms(1) have wf: "bvll_wf m" and u: "undefined_result m = None"
    by (cases m; simp add: undefined_result_def)+
  have eq: "m' = m" if "bvll_eq m' m" for m'
    using assms(1) that by (cases m; cases m') simp_all
  have len: "bvll_encoded_len m = Inr ?k" using u assms(2,4) by (simp add: bvll_encoded_len_iff)
  have "bvll_encode_into m buf = (bvll_octets m @ drop ?k buf, Inr ?k)"
    using bvll_encode_into_ok [OF wf len] assms(2,3) by simp
  moreover have "bvll_decode (bvll_octets m) = Inr m"
    using bvll_decode_octets [OF wf len] eq by auto
  ultimately show ?thesis using length_bvll_octets [OF wf] assms(2) by auto
qed

text \<open>What a checked link's budget leaves room for.\<close>

lemma budget_fits:
  assumes "validate l = Inr ()" "lk_budget l = Some b" "send_fits npdu cast l = Inr ()"
  shows "BVLL_HEADER_LENGTH + length npdu \<le> unat b"
    and "cast = CastBroadcast \<Longrightarrow> BVLL_HEADER_LENGTH + (6 + length npdu) \<le> unat b"
    and "unat b \<le> MAX_BVLL_LENGTH"
proof -
  have "64 \<le> unat b"
    using assms(1,2) by (auto simp: link_validate_iff MIN_BUDGET_def word_le_nat_alt)
  moreover have "length npdu \<le> max_npdu cast l" using assms(2,3) by (auto simp: send_fits_def split: if_splits)
  ultimately show "BVLL_HEADER_LENGTH + length npdu \<le> unat b"
      "cast = CastBroadcast \<Longrightarrow> BVLL_HEADER_LENGTH + (6 + length npdu) \<le> unat b"
    using assms(2) by (auto simp: max_npdu_def BROADCAST_OVERHEAD_def BVLL_HEADER_LENGTH_def split: cast.splits)
  show "unat b \<le> MAX_BVLL_LENGTH" using unat_u16_less [of b] unfolding MAX_BVLL_LENGTH_def by linarith
qed

text \<open>A decoded datagram on the primary socket, once its addresses have passed.\<close>

lemma receive_decoded:
  assumes "bvll_decode p = Inr m" "\<not> contains_ip (sa_ip source) (link_groups l)"
    and "link_arrival to (bvll_function m) l = Some a" "\<not> rate_limited (bvll_function m)"
  shows "link_receive (datagram_new p source (Some to)) policy l s = dispatch m source a policy l s"
proof -
  obtain frame where f: "bvll_frame_decode p = Inr frame" "bvll_frame_message frame = Inr m"
    using assms(1) by (auto simp: bvll_decode_frame)
  note fn = frame_message_function [OF f(2)]
  have "passes (datagram_new p source (Some to)) (bvf_function frame) a l"
    using assms(2,3) fn by (simp add: passes_def datagram_new_def)
  with receive_passed [of "datagram_new p source (Some to)" frame a l policy s] f fn assms(4) show ?thesis
    by (simp add: datagram_new_def handle_frame_def)
qed

lemma arrivals:
  "ad_node to \<Longrightarrow> link_arrival to ORIGINAL_UNICAST_NPDU l = Some Unicast"
  "ad_node to \<Longrightarrow> link_arrival to DISTRIBUTE_BROADCAST_TO_NETWORK l = Some Unicast"
  "ad_broadcast to \<Longrightarrow> link_arrival to ORIGINAL_BROADCAST_NPDU l = Some Broadcast"
  "ad_node to \<Longrightarrow> is_foreign (lk_mode l) \<Longrightarrow> link_arrival to FORWARDED_NPDU l = Some Unicast"
  "ad_node to \<or> ad_broadcast to \<Longrightarrow> \<exists>a. link_arrival to FORWARDED_NPDU l = Some a"
  by (auto simp: link_arrival_def addressed_arrival_def Let_def bvlc_functions)

text \<open>
  C37: A unicast arrives as it was sent: what \<open>Link::unicast\<close> of a checked link gives for an NPDU
  encodes within the link's budget, and the node it is sent to, finding its own address as the
  destination, decodes it and hands up the same NPDU with the sender's address, not marked as
  a group message, provided the sender's address is no group address there and not its own.
\<close>

theorem unicast_delivered:
  assumes "unicast (lk_address lb) npdu la = Inr og" and "validate la = Inr ()" and "lk_budget la = Some b"
    and "unat b \<le> length buf" and "ad_node to"
    and "\<not> contains_ip (sa_ip (lk_address la)) (link_groups lb)" and "lk_address la \<noteq> lk_address lb"
  shows "og_to og = lk_address lb \<and> (\<exists>buf' k. bvll_encode_into (og_message og) buf = (buf', Inr k) \<and> k \<le> unat b
     \<and> link_receive (datagram_new (take k buf') (lk_address la) (Some to)) policy lb s
       = (Deliver \<lparr>dl_npdu = npdu, dl_source = lk_address la, dl_group = False\<rparr>, s))"
proof -
  from assms(1) have og: "og = \<lparr>og_to = lk_address lb, og_message = OriginalUnicastNpdu npdu\<rparr>"
    and fits: "send_fits npdu CastUnicast la = Inr ()"
    by (auto simp: unicast_def try_res_eq_Inr split: if_splits)
  note room = budget_fits [OF assms(2,3) fits]
  from npdu_message_carried [of "OriginalUnicastNpdu npdu" "unat b" buf] room assms(4)
  obtain buf' k where e: "bvll_encode_into (OriginalUnicastNpdu npdu) buf = (buf', Inr k)" "k \<le> unat b"
      "bvll_decode (take k buf') = Inr (OriginalUnicastNpdu npdu)"
    by auto
  have "link_receive (datagram_new (take k buf') (lk_address la) (Some to)) policy lb s
      = (Deliver \<lparr>dl_npdu = npdu, dl_source = lk_address la, dl_group = False\<rparr>, s)"
    by (subst receive_decoded [OF e(3) assms(6), of to Unicast])
       (use assms(5,7) in \<open>simp_all add: arrivals function_kinds dispatch_def is_own_def\<close>)
  with e og show ?thesis by auto
qed

text \<open>A node that takes a broadcast of \<open>origin\<close> that \<open>sender\<close> forwarded to it at \<open>to\<close>.\<close>

definition takes_forwarded :: "socket_addr_v4 \<Rightarrow> socket_addr_v4 \<Rightarrow> addressed \<Rightarrow> link \<Rightarrow> bool" where
  "takes_forwarded sender origin to l \<longleftrightarrow>
     lk_mode l \<noteq> Bbmd \<and> origin \<noteq> lk_address l \<and> \<not> groups_contains origin (link_groups l)
     \<and> \<not> contains_ip (sa_ip sender) (link_groups l) \<and> (ad_node to \<or> ad_broadcast to)
     \<and> (\<forall>f. lk_mode l = Foreign f \<longrightarrow> fr_bbmd f = Some sender \<and> ad_node to)"

lemma forwarded_delivered:
  assumes "bvll_decode p = Inr (ForwardedNpdu origin npdu)" "takes_forwarded sender origin to l"
  shows "link_receive (datagram_new p sender (Some to)) policy l s
    = (Deliver \<lparr>dl_npdu = npdu, dl_source = origin, dl_group = True\<rparr>, s)"
proof -
  obtain a where a: "link_arrival to FORWARDED_NPDU l = Some a"
    using assms(2) arrivals(5) [of to l] unfolding takes_forwarded_def by blast
  have "a = Unicast" if "is_foreign (lk_mode l)"
    using that assms(2) a arrivals(4) [of to l] by (auto simp: takes_forwarded_def is_foreign_def split: mode.splits)
  then show ?thesis
    by (subst receive_decoded [OF assms(1), of sender l to a])
       (use assms(2) a in \<open>auto simp: takes_forwarded_def function_kinds dispatch_def forwarded_def is_own_def
          is_foreign_def split: mode.splits\<close>)
qed

theorem unicast_delivered_witness:
  "\<exists>og k buf'. unicast (at_host 7) [1, 0, 16] (node_link 5 Normal) = Inr og
     \<and> bvll_encode_into (og_message og) (replicate 1507 0) = (buf', Inr k)
     \<and> fst (link_receive (datagram_new (take k buf') (at_host 5) (Some \<lparr>ad_node = True, ad_broadcast = False\<rparr>))
          PermissivePolicy (node_link 7 Normal) ())
       = Deliver \<lparr>dl_npdu = [1, 0, 16], dl_source = at_host 5, dl_group = False\<rparr>"
proof -
  let ?a = "node_link 5 Normal" and ?b = "node_link 7 Normal"
  have u: "unicast (lk_address ?b) [1, 0, 16] ?a = Inr \<lparr>og_to = at_host 7, og_message = OriginalUnicastNpdu [1, 0, 16]\<rparr>"
    by (simp add: unicast_def send_fits_def max_npdu_def BVLL_HEADER_LENGTH_def MAX_NPDU_def example_net)
  have v: "validate ?a = Inr ()"
    by (simp add: link_validate_iff MIN_BUDGET_def node_link_def at_host_def DEFAULT_PORT_def)
  have c: "\<not> contains_ip (sa_ip (lk_address ?a)) (link_groups ?b)" "lk_address ?a \<noteq> lk_address ?b"
    by (simp_all add: example_net)
  have "lk_budget ?a = Some 1507" by (simp add: node_link_def)
  from unicast_delivered [OF u v this, of "replicate 1507 0" "\<lparr>ad_node = True, ad_broadcast = False\<rparr>" PermissivePolicy "()"] c u
  show ?thesis by (force simp: node_link_def)
qed

text \<open>
  C38: A foreign device's broadcast reaches the network's nodes as it was sent. The
  Distribute-Broadcast-To-Network that \<open>Link::broadcast\<close> gives for an NPDU encodes within the
  link's budget and passes every rule of its BBMD, which hands it to its tables; while the device
  is registered they accept it and, given the storage a decision may need, send one and the same
  Forwarded-NPDU to their local broadcast address, unless the BBMD is alone there, to the
  distribution address of every other BBMD's row but one at the device's own address, and to
  every other live device when the budget covers the live devices. That message carries six
  octets more and still encodes within the sender's budget. Any node that gets it from the BBMD
  hands up the same NPDU as a group message, provided it is not a BBMD itself, has neither the
  source's address nor the BBMD's or the source's as a group of its own, and, when it is a
  foreign device, registered with this BBMD and got it at its own address. The source is
  the foreign device, or, at a BBMD behind NAT, the address the tables give for it.
\<close>

theorem foreign_broadcast_delivered:
  assumes "broadcast npdu la = Inr (og, again)" and "validate la = Inr ()" and "lk_mode la = Foreign f"
    and "lk_budget la = Some b" and "unat b \<le> length buf"
    and "lk_mode lb = Bbmd" and "lk_address lb = og_to og" and "ad_node to"
    and "\<not> contains_ip (sa_ip (lk_address la)) (link_groups lb)"
    and wf: "tables_wf t" and storage: "MAX_TARGETS t \<le> length out"
    and reg: "is_registered_at (lk_address la) (cx_now cx) (tb_fdt t)"
    and origin: "origin = origin_for (lk_address la) (is_private (sa_ip (lk_address la))) t" and msg: "msg = ForwardedNpdu origin npdu"
  shows "\<not> again \<and> (\<exists>buf' k d. bvll_encode_into (og_message og) buf = (buf', Inr k) \<and> k \<le> unat b
     \<and> link_receive (datagram_new (take k buf') (lk_address la) (Some to)) policy lb s
       = (ReceivedBbmd (ForDistribute (lk_address la) npdu), s)
     \<and> distribute_broadcast cx (lk_subnet lb) (lk_address la) npdu out t = Inr d
     \<and> snd ` set (transmissions d) \<subseteq> {msg}
     \<and> (\<not> ls_alone (lk_subnet lb) \<longrightarrow> (ls_broadcast (lk_subnet lb), msg) \<in> set (transmissions d))
     \<and> (\<forall>r \<in> set (rows (tb_bdt t)). be_address r \<noteq> bd_own (tb_bdt t) \<and> be_address r \<noteq> lk_address la
          \<longrightarrow> (distribution_address r, msg) \<in> set (transmissions d))
     \<and> (\<forall>a. is_registered_at a (cx_now cx) (tb_fdt t) \<and> a \<noteq> lk_address la
          \<and> length (fdt_live_at (cx_now cx) (tb_fdt t)) \<le> cx_fdt_fanout cx \<longrightarrow> (a, msg) \<in> set (transmissions d)))
   \<and> (\<exists>buf' k. bvll_encode_into msg buf = (buf', Inr k) \<and> k \<le> unat b
     \<and> (\<forall>lc to. takes_forwarded (lk_address lb) origin to lc \<longrightarrow>
          link_receive (datagram_new (take k buf') (lk_address lb) (Some to)) policy lc s
          = (Deliver \<lparr>dl_npdu = npdu, dl_source = origin, dl_group = True\<rparr>, s)))
   \<and> (tb_nat t = None \<longrightarrow> origin = lk_address la)"
proof -
  from assms(1,3) obtain bbmd where og: "fr_bbmd f = Some bbmd" "\<not> again"
      "og = \<lparr>og_to = bbmd, og_message = DistributeBroadcastToNetwork npdu\<rparr>"
    and fits: "send_fits npdu CastBroadcast la = Inr ()"
    by (auto simp: broadcast_def try_res_eq_Inr Let_def)
  have other: "lk_address la \<noteq> lk_address lb"
    using assms(2,3,7) og by (auto simp: link_validate_iff bbmd_ok_def)
  note room = budget_fits [OF assms(2,4) fits]
  from npdu_message_carried [of "og_message og" "unat b" buf] og(3) room assms(5)
  obtain buf' k where e: "bvll_encode_into (og_message og) buf = (buf', Inr k)" "k \<le> unat b"
      "bvll_decode (take k buf') = Inr (DistributeBroadcastToNetwork npdu)"
    by auto
  have recv: "link_receive (datagram_new (take k buf') (lk_address la) (Some to)) policy lb s
      = (ReceivedBbmd (ForDistribute (lk_address la) npdu), s)"
    using receive_decoded [OF e(3) assms(9), of to Unicast policy s] assms(6,8) other arrivals(2) [of to lb] function_kinds(5)
    by (simp add: dispatch_def is_own_def link_request_def of_request_def function_nak_def bvlc_functions)
  obtain d where d: "distribute_broadcast cx (lk_subnet lb) (lk_address la) npdu out t = Inr d" "ds_message d = msg"
    using reg msg origin by (auto simp: distribute_broadcast_def Let_def ds_message_def)
  note sends = distribute_transmits [OF wf storage d(1), unfolded d(2)]
  have "\<exists>buf' k. bvll_encode_into msg buf = (buf', Inr k) \<and> k \<le> unat b \<and> bvll_decode (take k buf') = Inr msg"
    using npdu_message_carried [of msg "unat b" buf] room assms(5) msg by auto
  then obtain buf2 k2 where e2: "bvll_encode_into msg buf = (buf2, Inr k2)" "k2 \<le> unat b" "bvll_decode (take k2 buf2) = Inr msg"
    by blast
  have arrives: "\<forall>lc to. takes_forwarded (lk_address lb) origin to lc \<longrightarrow>
      link_receive (datagram_new (take k2 buf2) (lk_address lb) (Some to)) policy lc s
      = (Deliver \<lparr>dl_npdu = npdu, dl_source = origin, dl_group = True\<rparr>, s)"
    by (intro allI impI) (rule forwarded_delivered [OF e2(3) [unfolded msg]])
  have "tb_nat t = None \<longrightarrow> origin = lk_address la" by (simp add: origin origin_for_def)
  with og(2) e(1,2) recv d(1) sends e2(1,2) arrives show ?thesis by blast
qed

definition site_subnet :: local_subnet where
  "site_subnet = new_local_subnet \<lparr>sa_ip = Ipv4Addr 10 0 1 255, sa_port = 47808\<rparr>"

definition site_bbmd :: link where
  "site_bbmd = \<lparr>lk_address = site_own, lk_subnet = site_subnet, lk_mode = Bbmd, lk_budget = Some 1507\<rparr>"

definition far_device :: link where
  "far_device = \<lparr>lk_address = site_device, lk_subnet = new_local_subnet \<lparr>sa_ip = Ipv4Addr 192 0 2 255, sa_port = 47808\<rparr>,
     lk_mode = Foreign (foreign_new site_own 60), lk_budget = Some 1507\<rparr>"

lemma far_device_valid: "validate far_device = Inr ()"
  using foreign_new_ok [of "Some site_own" 60]
  by (auto simp: link_validate_iff far_device_def MIN_BUDGET_def site_device_def site_own_def is_group_def foreign_new_def
      bbmd_ok_def foreign_with_bbmd_def Let_def example_net)

definition site_node :: link where
  "site_node = \<lparr>lk_address = \<lparr>sa_ip = Ipv4Addr 10 0 1 20, sa_port = 47808\<rparr>, lk_subnet = site_subnet, lk_mode = Normal, lk_budget = Some 1507\<rparr>"

theorem foreign_broadcast_delivered_witness:
  "\<exists>d m buf k. distribute_broadcast site_cx site_subnet site_device [1, 0, 16] (replicate 5 UNUSED_TARGET) site = Inr d
     \<and> (ls_broadcast site_subnet, m) \<in> set (transmissions d)
     \<and> bvll_encode_into m (replicate 1507 0) = (buf, Inr k)
     \<and> link_receive (datagram_new (take k buf) site_own (Some \<lparr>ad_node = False, ad_broadcast = True\<rparr>)) PermissivePolicy site_node ()
       = (Deliver \<lparr>dl_npdu = [1, 0, 16], dl_source = site_device, dl_group = True\<rparr>, ())"
proof -
  let ?og = "\<lparr>og_to = site_own, og_message = DistributeBroadcastToNetwork [1, 0, 16]\<rparr>"
  have b: "broadcast [1, 0, 16] far_device = Inr (?og, False)"
    by (simp add: broadcast_def far_device_def foreign_new_def foreign_with_bbmd_def Let_def send_fits_def max_npdu_def
        BROADCAST_OVERHEAD_def BVLL_HEADER_LENGTH_def MAX_NPDU_def)
  have m: "lk_mode far_device = Foreign (foreign_new site_own 60)" "lk_budget far_device = Some 1507"
    "lk_mode site_bbmd = Bbmd" "lk_address site_bbmd = og_to ?og" "lk_address far_device = site_device"
    "lk_subnet site_bbmd = site_subnet" "\<not> ls_alone site_subnet"
    by (simp_all add: far_device_def site_bbmd_def site_subnet_def new_local_subnet_def)
  have c: "\<not> contains_ip (sa_ip (lk_address far_device)) (link_groups site_bbmd)"
    by (simp add: far_device_def site_bbmd_def site_device_def site_own_def site_subnet_def example_net)
  have r: "is_registered_at (lk_address far_device) (cx_now site_cx) (tb_fdt site)" "tb_nat site = None"
    using site_device_live by (simp_all add: m site_cx_def) (simp add: site_def tables_new_def)
  have takes: "takes_forwarded site_own site_device \<lparr>ad_node = False, ad_broadcast = True\<rparr> site_node"
    by (simp add: takes_forwarded_def site_node_def site_device_def site_own_def site_subnet_def example_net)
  have st: "MAX_TARGETS site \<le> length (replicate 5 UNUSED_TARGET)" by (simp add: site_wf)
  have orig: "site_device = origin_for (lk_address far_device) (is_private (sa_ip (lk_address far_device))) site"
    by (simp add: origin_for_def r(2) m)
  from foreign_broadcast_delivered [OF b far_device_valid m(1,2) _ m(3,4) _ c site_wf(1) st r(1) orig refl,
      of "replicate 1507 0" "\<lparr>ad_node = True, ad_broadcast = False\<rparr>" PermissivePolicy "()"] m takes
  show ?thesis by fastforce
qed

end
