(* ===== verification/Bip_Registration.thy ===== *)
theory Bip_Registration
  imports Bip_Link
begin

text \<open>
  A foreign device's registration lifecycle
  (\<open>crates/bacnet-bip-core/src/node/registration.rs\<close>): when to send the next
  Register-Foreign-Device, what the answers prove, and the broadcasts held for the first of
  them. The state machine knows times and outcomes only; the node sends the attempts and
  matches their answers.

  Over every run, with the requests sent kept as a ghost history, the lease starts no later
  than any send the success could answer, although the machine remembers only four of them.
  With \<open>Bbmd_Fdt\<close> it does not outlast the BBMD's own entry, unless a move to a longer
  time-to-live at the same BBMD came after the request; then it can.
\<close>

section \<open>What is reported\<close>

record lease =
  le_since :: instant
  le_until :: instant

definition lease_is_live_at :: "instant \<Rightarrow> lease \<Rightarrow> bool" where
  "lease_is_live_at now lease \<longleftrightarrow> now < le_until lease"

datatype attempt_outcome = Pending | Accepted | Refused | TimedOut | LocalError | AttemptCancelled

datatype registration_event =
    Registered instant instant
  | Renewed instant
  | RefusedEvent bvlc_result_code
  | Unanswered
  | Lapsed
  | PreviousRelease socket_addr_v4 attempt_outcome

record registration_snapshot =
  sn_lease :: "lease option"
  sn_registered :: bool
  sn_lease_remaining :: "duration option"
  sn_attempt_in_flight :: bool
  sn_next_attempt :: "instant option"
  sn_last_outcome :: "attempt_outcome option"
  sn_consecutive_failures :: u32
  sn_first_resolved :: bool
  sn_held :: u16

datatype admission = AdmitSend | AdmitHold

datatype broadcast_decision = DecideSend bool | DecideHold | DecideFull

record held_verdict =
  hv_release :: bool
  hv_count :: u16

section \<open>Recent starts\<close>

definition RECENT_LEN :: nat where "RECENT_LEN = 4"

record recent =
  rc_starts :: "instant list"
  rc_len :: octet
  rc_next :: octet
  rc_evicted :: "instant option"

definition recent_new :: recent where
  "recent_new = \<lparr>rc_starts = replicate RECENT_LEN INSTANT_ZERO, rc_len = 0, rc_next = 0, rc_evicted = None\<rparr>"

definition recent_push :: "instant \<Rightarrow> recent \<Rightarrow> recent" where
  "recent_push start r =
     (let slot = unat (rc_next r);
          r = (if unat (rc_len r) = RECENT_LEN then r\<lparr>rc_evicted := Some (rc_starts r ! slot)\<rparr>
               else r\<lparr>rc_len := rc_len r + 1\<rparr>)
      in r\<lparr>rc_starts := (rc_starts r)[slot := start], rc_next := (rc_next r + 1) AND (of_nat RECENT_LEN - 1)\<rparr>)"

text \<open>\<open>Iterator::min\<close>.\<close>

definition list_min :: "'t::linorder list \<Rightarrow> 't option" where
  "list_min xs = (case xs of [] \<Rightarrow> None | x # xs \<Rightarrow> Some (foldl min x xs))"

definition inside :: "instant option \<Rightarrow> instant \<Rightarrow> bool" where
  "inside lower start = (case lower of None \<Rightarrow> True | Some f \<Rightarrow> start > f)"

definition earliest_after :: "instant option \<Rightarrow> recent \<Rightarrow> instant option" where
  "earliest_after lower r =
     (if (case rc_evicted r of Some e \<Rightarrow> inside lower e | None \<Rightarrow> False)
      then Some (case lower of Some f \<Rightarrow> f | None \<Rightarrow> INSTANT_ZERO)
      else list_min (filter (inside lower) (take (unat (rc_len r)) (rc_starts r))))"

section \<open>The lifecycle\<close>

text \<open>The attempt in flight is its start.\<close>

record lifecycle =
  lf_ttl :: duration
  lf_renewal :: duration
  lf_timeout :: duration
  lf_retry :: retry
  lf_hold_limit :: u16
  lf_waiting :: bool
  lf_lease :: "lease option"
  lf_lapsed :: bool
  lf_unanswered_since :: "instant option"
  lf_recent :: recent
  lf_attempt :: "instant option"
  lf_last_start :: "instant option"
  lf_last_outcome :: "attempt_outcome option"
  lf_failures :: u32
  lf_next :: "instant option"
  lf_first_resolved :: bool
  lf_held :: u16

definition lifecycle_new :: "foreign \<Rightarrow> instant \<Rightarrow> lifecycle" where
  "lifecycle_new f now =
     \<lparr>lf_ttl = ttl_duration f, lf_renewal = effective_renewal f, lf_timeout = effective_response_timeout f,
      lf_retry = fr_retry f, lf_hold_limit = fr_hold f, lf_waiting = (fr_bbmd f = None), lf_lease = None,
      lf_lapsed = False, lf_unanswered_since = None, lf_recent = recent_new, lf_attempt = None,
      lf_last_start = None, lf_last_outcome = None, lf_failures = 0,
      lf_next = map_option (\<lambda>_. now) (fr_bbmd f), lf_first_resolved = False, lf_held = 0\<rparr>"

definition lifecycle_retarget :: "foreign \<Rightarrow> instant \<Rightarrow> bool \<Rightarrow> lifecycle \<Rightarrow> lifecycle" where
  "lifecycle_retarget f now same_bbmd lc =
     (let lc = lc\<lparr>lf_ttl := ttl_duration f, lf_renewal := effective_renewal f,
                  lf_timeout := effective_response_timeout f, lf_retry := fr_retry f, lf_hold_limit := fr_hold f\<rparr>;
          lc = (if \<not> same_bbmd
                then lc\<lparr>lf_lease := None, lf_lapsed := False, lf_unanswered_since := None, lf_recent := recent_new,
                        lf_first_resolved := False\<rparr>
                else lc)
      in lc\<lparr>lf_attempt := None, lf_last_start := None, lf_failures := 0, lf_waiting := (fr_bbmd f = None),
            lf_next := map_option (\<lambda>_. now) (fr_bbmd f)\<rparr>)"

definition answer_window :: "lifecycle \<Rightarrow> duration" where
  "answer_window lc =
     (let three = duration_saturating_add (duration_saturating_mul (lf_timeout lc) 2) (lf_timeout lc)
      in min three (lf_renewal lc))"

definition due_at :: "lifecycle \<Rightarrow> instant option" where
  "due_at lc = (if lf_attempt lc = None then lf_next lc else None)"

definition lapse_at :: "lifecycle \<Rightarrow> instant option" where
  "lapse_at lc = (if lf_lapsed lc then None else map_option le_until (lf_lease lc))"

definition lapse :: "lifecycle \<Rightarrow> lifecycle" where
  "lapse lc = lc\<lparr>lf_lapsed := True\<rparr>"

definition lifecycle_admitted :: "instant \<Rightarrow> lifecycle \<Rightarrow> lifecycle" where
  "lifecycle_admitted now lc =
     lc\<lparr>lf_attempt := Some now, lf_next := None, lf_last_start := Some now, lf_last_outcome := Some Pending\<rparr>"

definition lifecycle_sent :: "lifecycle \<Rightarrow> lifecycle" where
  "lifecycle_sent lc =
     (case lf_attempt lc of
        Some start \<Rightarrow>
          lc\<lparr>lf_unanswered_since := (case lf_unanswered_since lc of None \<Rightarrow> Some start | Some s \<Rightarrow> Some s),
             lf_recent := recent_push start (lf_recent lc)\<rparr>
      | None \<Rightarrow> lc)"

definition resolve_first :: "bool \<Rightarrow> lifecycle \<Rightarrow> held_verdict option \<times> lifecycle" where
  "resolve_first release lc =
     (if lf_first_resolved lc then (None, lc)
      else let cnt = lf_held lc
           in (if cnt > 0 then Some \<lparr>hv_release = release, hv_count = cnt\<rparr> else None,
               lc\<lparr>lf_first_resolved := True, lf_held := 0\<rparr>))"

text \<open>\<open>self.attempt.take().map_or(now, |attempt| attempt.start)\<close>.\<close>

definition attempt_start :: "instant \<Rightarrow> lifecycle \<Rightarrow> instant" where
  "attempt_start now lc = (case lf_attempt lc of Some start \<Rightarrow> start | None \<Rightarrow> now)"

definition has_live_lease :: "instant \<Rightarrow> lifecycle \<Rightarrow> bool" where
  "has_live_lease now lc = (case lf_lease lc of Some lease \<Rightarrow> lease_is_live_at now lease | None \<Rightarrow> False)"

definition lifecycle_accepted :: "instant \<Rightarrow> lifecycle \<Rightarrow> (registration_event option \<times> held_verdict option) \<times> lifecycle" where
  "lifecycle_accepted now lc =
     (let start = attempt_start now lc;
          lower = instant_checked_sub now (answer_window lc);
          since = foldl min start
            (List.map_filter (\<lambda>x. x) [lf_unanswered_since lc, earliest_after lower (lf_recent lc)]);
          until = instant_saturating_add since (lf_ttl lc);
          was_live = has_live_lease now lc;
          lapsed = (until \<le> now);
          lc = lc\<lparr>lf_attempt := None, lf_lease := Some \<lparr>le_since = since, le_until = until\<rparr>, lf_lapsed := lapsed,
                  lf_unanswered_since := None, lf_failures := 0,
                  lf_next := Some (instant_saturating_add
                    (case lf_retry lc of Backoff \<Rightarrow> since | AtRenewal \<Rightarrow> start) (lf_renewal lc)),
                  lf_last_outcome := Some Accepted\<rparr>;
          event = (if lapsed then None else if was_live then Some (Renewed until) else Some (Registered since until));
          (verdict, lc) = resolve_first True lc
      in ((event, verdict), lc))"

definition lifecycle_refused :: "instant \<Rightarrow> lifecycle \<Rightarrow> held_verdict option \<times> lifecycle" where
  "lifecycle_refused now lc =
     (let start = attempt_start now lc in
      resolve_first False (lc\<lparr>lf_attempt := None, lf_unanswered_since := None, lf_failures := 0,
        lf_next := Some (instant_saturating_add start (lf_renewal lc)), lf_last_outcome := Some Refused\<rparr>))"

text \<open>The loop of \<open>backoff\<close>, with the doublings left.\<close>

fun backoff_loop :: "nat \<Rightarrow> duration \<Rightarrow> duration \<Rightarrow> duration" where
  "backoff_loop 0 renewal wait = wait"
| "backoff_loop (Suc n) renewal wait =
     (if wait \<ge> renewal then wait else backoff_loop n renewal (duration_saturating_mul wait 2))"

definition backoff :: "lifecycle \<Rightarrow> duration" where
  "backoff lc = min (backoff_loop (unat (lf_failures lc) - 1) (lf_renewal lc) (lf_timeout lc)) (lf_renewal lc)"

definition lifecycle_failed :: "instant \<Rightarrow> attempt_outcome option \<Rightarrow> lifecycle \<Rightarrow> held_verdict option \<times> lifecycle" where
  "lifecycle_failed now outcome lc =
     (let start = attempt_start now lc;
          lc = lc\<lparr>lf_attempt := None, lf_failures := u32_saturating_add (lf_failures lc) 1\<rparr>;
          at_renewal = instant_saturating_add start (lf_renewal lc);
          lc = lc\<lparr>lf_next := Some (case lf_retry lc of
                    AtRenewal \<Rightarrow> at_renewal
                  | Backoff \<Rightarrow> min at_renewal (instant_saturating_add now (backoff lc)))\<rparr>;
          lc = (if outcome \<noteq> None then lc\<lparr>lf_last_outcome := outcome\<rparr> else lc)
      in resolve_first True lc)"

definition due_now :: "instant \<Rightarrow> lifecycle \<Rightarrow> lifecycle" where
  "due_now now lc =
     (if \<not> has_live_lease now lc \<and> (case lf_next lc of Some n \<Rightarrow> n > now | None \<Rightarrow> False)
      then lc\<lparr>lf_next := Some now\<rparr> else lc)"

definition not_before :: "instant \<Rightarrow> lifecycle \<Rightarrow> lifecycle" where
  "not_before at_time lc =
     (if (case lf_next lc of Some n \<Rightarrow> n < at_time | None \<Rightarrow> False) then lc\<lparr>lf_next := Some at_time\<rparr> else lc)"

definition hint :: "instant \<Rightarrow> lifecycle \<Rightarrow> lifecycle" where
  "hint now lc =
     (if lf_attempt lc \<noteq> None then lc
      else let soonest = (case lf_last_start lc of
                 None \<Rightarrow> now | Some start \<Rightarrow> max (instant_saturating_add start (lf_timeout lc)) now)
        in if (case lf_next lc of Some n \<Rightarrow> n > soonest | None \<Rightarrow> False) then lc\<lparr>lf_next := Some soonest\<rparr> else lc)"

definition lifecycle_admit_broadcast :: "instant \<Rightarrow> lifecycle \<Rightarrow> broadcast_decision \<times> lifecycle" where
  "lifecycle_admit_broadcast now lc =
     (if \<not> lf_first_resolved lc \<and> (lf_hold_limit lc > 0 \<or> lf_waiting lc)
      then if lf_held lc \<ge> lf_hold_limit lc then (DecideFull, lc)
           else (DecideHold, lc\<lparr>lf_held := lf_held lc + 1\<rparr>)
      else (DecideSend (\<not> has_live_lease now lc), lc))"

definition lifecycle_snapshot :: "instant \<Rightarrow> lifecycle \<Rightarrow> registration_snapshot" where
  "lifecycle_snapshot now lc =
     (let registered = has_live_lease now lc in
      \<lparr>sn_lease = lf_lease lc, sn_registered = registered,
       sn_lease_remaining =
         (if registered then map_option (\<lambda>l. saturating_duration_since (le_until l) now) (lf_lease lc) else None),
       sn_attempt_in_flight = (lf_attempt lc \<noteq> None), sn_next_attempt = due_at lc,
       sn_last_outcome = lf_last_outcome lc, sn_consecutive_failures = lf_failures lc,
       sn_first_resolved = lf_first_resolved lc, sn_held = lf_held lc\<rparr>)"

section \<open>The ring of recent starts\<close>

text \<open>The ring holds the last four starts of the history \<open>ps\<close>, at their positions modulo four.\<close>

definition recent_of :: "instant list \<Rightarrow> recent \<Rightarrow> bool" where
  "recent_of ps r \<longleftrightarrow> length (rc_starts r) = 4 \<and> unat (rc_len r) = min 4 (length ps)
     \<and> unat (rc_next r) = length ps mod 4
     \<and> (\<forall>i. i < length ps \<and> length ps \<le> i + 4 \<longrightarrow> rc_starts r ! (i mod 4) = ps ! i)
     \<and> rc_evicted r = (if length ps \<le> 4 then None else Some (ps ! (length ps - 5)))"

lemma recent_ofD:
  assumes "recent_of ps r"
  shows "length (rc_starts r) = 4" and "unat (rc_len r) = min 4 (length ps)" and "unat (rc_next r) = length ps mod 4"
    and "i < length ps \<Longrightarrow> length ps \<le> i + 4 \<Longrightarrow> rc_starts r ! (i mod 4) = ps ! i"
    and "rc_evicted r = (if length ps \<le> 4 then None else Some (ps ! (length ps - 5)))"
  using assms unfolding recent_of_def by blast+

lemma recent_new_of: "recent_of [] recent_new"
  by (simp add: recent_of_def recent_new_def RECENT_LEN_def)

lemma unat_and_3: "unat ((w :: octet) AND 3) = unat w mod 4"
proof -
  have "w AND 3 = take_bit 2 w" by (simp add: take_bit_eq_mask mask_eq_exp_minus_1)
  then show ?thesis by (simp add: unsigned_take_bit_eq take_bit_eq_mod unat_mod_distrib)
qed

lemma recent_push_of:
  assumes "recent_of ps r"
  shows "recent_of (ps @ [s]) (recent_push s r)"
proof -
  note d = recent_ofD [OF assms]
  let ?n = "length ps" and ?r = "recent_push s r"
  have m: "?n mod 4 < 4" by simp
  have "unat (rc_next r + 1) = unat (rc_next r) + 1" using d(3) m by (simp add: unat_word_ariths)
  then have nxt: "unat (rc_next ?r) = Suc ?n mod 4"
    using d(3) by (simp add: recent_push_def Let_def RECENT_LEN_def unat_and_3 mod_Suc_eq)
  have starts: "rc_starts ?r = (rc_starts r)[?n mod 4 := s]"
    by (simp add: recent_push_def Let_def d(3))
  have len: "unat (rc_len ?r) = min 4 (Suc ?n)"
    using d(2) by (auto simp: recent_push_def Let_def RECENT_LEN_def unat_word_ariths)
  have "?n - 4 < ?n \<and> (?n - 4) mod 4 = ?n mod 4 \<and> ?n \<le> ?n - 4 + 4" if "4 \<le> ?n"
    using that le_add_diff_inverse2 [OF that] mod_add_self2 [of "?n - 4" 4] by simp
  then have old: "rc_starts r ! (?n mod 4) = ps ! (?n - 4)" if "4 \<le> ?n"
    using d(4) [of "?n - 4"] that by simp
  have ev: "rc_evicted ?r = (if Suc ?n \<le> 4 then None else Some ((ps @ [s]) ! (Suc ?n - 5)))"
    using d(2,3,5) old by (auto simp: recent_push_def Let_def RECENT_LEN_def nth_append)
  have "rc_starts ?r ! (i mod 4) = (ps @ [s]) ! i" if i: "i < Suc ?n" "Suc ?n \<le> i + 4" for i
  proof (cases "i = ?n")
    case True
    then show ?thesis using d(1) m by (simp add: starts)
  next
    case False
    then have lt: "i < ?n" using i by simp
    have "i mod 4 \<noteq> ?n mod 4"
    proof
      assume "i mod 4 = ?n mod 4"
      then have "4 dvd ?n - i" using lt mod_eq_dvd_iff_nat [of i ?n 4] by simp
      then show False using lt i by (auto dest: dvd_imp_le)
    qed
    then show ?thesis using lt i d(4) [of i] by (simp add: starts nth_append)
  qed
  then show ?thesis unfolding recent_of_def using nxt len ev starts d(1) by simp
qed

lemma list_min_le: "x \<in> set xs \<Longrightarrow> \<exists>m. list_min xs = Some m \<and> m \<le> x"
  by (cases xs) (auto simp: list_min_def intro: foldl_min_le)

lemma list_min_mem: "list_min xs = Some m \<Longrightarrow> m \<in> set xs"
  using foldl_min_mem by (auto simp: list_min_def split: list.splits)

lemma inside_mono: "inside lower a \<Longrightarrow> a \<le> b \<Longrightarrow> inside lower b"
  by (auto simp: inside_def split: option.splits)

lemma instant_zero_le: "INSTANT_ZERO \<le> t"
  by (simp add: INSTANT_ZERO_def less_eq_instant_def)

text \<open>The ring forgets, but never answers with a later start than one of the history.\<close>

lemma earliest_after_le:
  assumes "recent_of ps r" "sorted ps" "p \<in> set ps" "inside lower p"
  shows "\<exists>e. earliest_after lower r = Some e \<and> e \<le> p"
proof (cases "case rc_evicted r of Some e \<Rightarrow> inside lower e | None \<Rightarrow> False")
  case True
  then show ?thesis using assms(4) instant_zero_le
    by (auto simp: earliest_after_def inside_def split: option.splits)
next
  case False
  note d = recent_ofD [OF assms(1)]
  obtain j where j: "j < length ps" "p = ps ! j" using assms(3) by (auto simp: in_set_conv_nth)
  have near: "length ps \<le> j + 4"
  proof (rule ccontr)
    assume far: "\<not> ?thesis"
    then have "p \<le> ps ! (length ps - 5)" unfolding j(2) by (intro sorted_nth_mono [OF assms(2)]) auto
    with far False inside_mono [OF assms(4)] d(5) show False by simp
  qed
  have "j mod 4 < unat (rc_len r)" using d(2) j(1) near by auto
  moreover have "rc_starts r ! (j mod 4) = p" using d(4) j near by simp
  ultimately have "p \<in> set (take (unat (rc_len r)) (rc_starts r))"
    using d(1,2) by (auto simp: in_set_conv_nth intro: exI [of _ "j mod 4"])
  then have "p \<in> set (filter (inside lower) (take (unat (rc_len r)) (rc_starts r)))" using assms(4) by simp
  from list_min_le [OF this] False show ?thesis by (simp add: earliest_after_def)
qed

section \<open>Runs of the lifecycle\<close>

text \<open>
  The calls the node makes, in any order and at times that never run backwards. Two ghost
  lists go along: \<open>ss\<close>, the requests sent to the present BBMD, each as the start of its attempt
  and the time-to-live it asked for, and \<open>pend\<close>, of those the ones sent since its last answer.
  A move to the same BBMD keeps both, whatever time-to-live it sets.
\<close>

type_synonym sent_request = "instant \<times> duration"

inductive life :: "lifecycle \<Rightarrow> sent_request list \<Rightarrow> sent_request list \<Rightarrow> instant \<Rightarrow> bool" where
  start: "foreign_ok f \<Longrightarrow> life (lifecycle_new f now) [] [] now"
| time: "life lc ss pend now \<Longrightarrow> now \<le> now' \<Longrightarrow> life lc ss pend now'"
| admitted: "life lc ss pend now \<Longrightarrow> life (lifecycle_admitted now lc) ss pend now"
| sent: "life lc ss pend now \<Longrightarrow> lf_attempt lc = Some s \<Longrightarrow> 
    life (lifecycle_sent lc) (ss @ [(s, lf_ttl lc)]) (pend @ [(s, lf_ttl lc)]) now"
| accepted: "life lc ss pend now \<Longrightarrow> life (snd (lifecycle_accepted now lc)) ss [] now"
| refused: "life lc ss pend now \<Longrightarrow> life (snd (lifecycle_refused now lc)) ss [] now"
| failed: "life lc ss pend now \<Longrightarrow> life (snd (lifecycle_failed now outcome lc)) ss pend now"
| lapse: "life lc ss pend now \<Longrightarrow> life (lapse lc) ss pend now"
| due_now: "life lc ss pend now \<Longrightarrow> life (due_now now lc) ss pend now"
| not_before: "life lc ss pend now \<Longrightarrow> life (not_before at_time lc) ss pend now"
| hint: "life lc ss pend now \<Longrightarrow> life (hint now lc) ss pend now"
| broadcast: "life lc ss pend now \<Longrightarrow> life (snd (lifecycle_admit_broadcast now lc)) ss pend now"
| retarget: "life lc ss pend now \<Longrightarrow> foreign_ok f \<Longrightarrow>
    life (lifecycle_retarget f now same lc) (if same then ss else []) (if same then pend else []) now"

definition life_inv :: "lifecycle \<Rightarrow> sent_request list \<Rightarrow> sent_request list \<Rightarrow> instant \<Rightarrow> bool" where
  "life_inv lc ss pend now \<longleftrightarrow> sorted (map fst ss) \<and> (\<forall>x \<in> set ss. fst x \<le> now)
     \<and> (\<forall>s. lf_attempt lc = Some s \<longrightarrow> s \<le> now \<and> (\<forall>x \<in> set ss. fst x \<le> s))
     \<and> recent_of (map fst ss) (lf_recent lc)
     \<and> lf_unanswered_since lc = (case pend of [] \<Rightarrow> None | p # _ \<Rightarrow> Some (fst p))
     \<and> sorted (map fst pend) \<and> set pend \<subseteq> set ss
     \<and> (lf_first_resolved lc \<longrightarrow> lf_held lc = 0)
     \<and> 0 < unat (as_nanos (lf_timeout lc)) \<and> lf_timeout lc \<le> lf_renewal lc \<and> lf_renewal lc < lf_ttl lc"

lemma life_invD:
  assumes "life_inv lc ss pend now"
  shows "sorted (map fst ss)" and "\<forall>x \<in> set ss. fst x \<le> now"
    and "lf_attempt lc = Some s \<Longrightarrow> s \<le> now \<and> (\<forall>x \<in> set ss. fst x \<le> s)"
    and "recent_of (map fst ss) (lf_recent lc)"
    and "lf_unanswered_since lc = (case pend of [] \<Rightarrow> None | p # _ \<Rightarrow> Some (fst p))"
    and "sorted (map fst pend)" and "set pend \<subseteq> set ss" and "lf_first_resolved lc \<Longrightarrow> lf_held lc = 0"
    and "0 < unat (as_nanos (lf_timeout lc))" and "lf_timeout lc \<le> lf_renewal lc" and "lf_renewal lc < lf_ttl lc"
  using assms unfolding life_inv_def by blast+

lemma resolve_first_fields [simp]:
  "lf_attempt (snd (resolve_first b lc)) = lf_attempt lc" "lf_recent (snd (resolve_first b lc)) = lf_recent lc"
  "lf_unanswered_since (snd (resolve_first b lc)) = lf_unanswered_since lc"
  "lf_timeout (snd (resolve_first b lc)) = lf_timeout lc" "lf_renewal (snd (resolve_first b lc)) = lf_renewal lc"
  "lf_ttl (snd (resolve_first b lc)) = lf_ttl lc" "lf_lease (snd (resolve_first b lc)) = lf_lease lc"
  "lf_lapsed (snd (resolve_first b lc)) = lf_lapsed lc" "lf_next (snd (resolve_first b lc)) = lf_next lc"
  "lf_first_resolved (snd (resolve_first b lc))"
  "lf_held (snd (resolve_first b lc)) = (if lf_first_resolved lc then lf_held lc else 0)"
  by (simp_all add: resolve_first_def Let_def)

text \<open>What each call leaves of the fields the invariant speaks of.\<close>

lemma ended_fields:
  "lf_attempt (snd (lifecycle_accepted now lc)) = None" "lf_attempt (snd (lifecycle_refused now lc)) = None"
  "lf_attempt (snd (lifecycle_failed now out lc)) = None"
  "lf_recent (snd (lifecycle_accepted now lc)) = lf_recent lc" "lf_recent (snd (lifecycle_refused now lc)) = lf_recent lc"
  "lf_recent (snd (lifecycle_failed now out lc)) = lf_recent lc"
  "lf_unanswered_since (snd (lifecycle_accepted now lc)) = None" "lf_unanswered_since (snd (lifecycle_refused now lc)) = None"
  "lf_unanswered_since (snd (lifecycle_failed now out lc)) = lf_unanswered_since lc"
  "lf_first_resolved (snd (lifecycle_accepted now lc))" "lf_first_resolved (snd (lifecycle_refused now lc))"
  "lf_first_resolved (snd (lifecycle_failed now out lc))"
  "lf_held (snd (lifecycle_accepted now lc)) = (if lf_first_resolved lc then lf_held lc else 0)"
  "lf_held (snd (lifecycle_refused now lc)) = (if lf_first_resolved lc then lf_held lc else 0)"
  "lf_held (snd (lifecycle_failed now out lc)) = (if lf_first_resolved lc then lf_held lc else 0)"
  by (simp_all add: lifecycle_accepted_def lifecycle_refused_def lifecycle_failed_def Let_def split_beta)

lemma ended_settings:
  "lf_timeout (snd (lifecycle_accepted now lc)) = lf_timeout lc" "lf_renewal (snd (lifecycle_accepted now lc)) = lf_renewal lc"
  "lf_ttl (snd (lifecycle_accepted now lc)) = lf_ttl lc"
  "lf_timeout (snd (lifecycle_refused now lc)) = lf_timeout lc" "lf_renewal (snd (lifecycle_refused now lc)) = lf_renewal lc"
  "lf_ttl (snd (lifecycle_refused now lc)) = lf_ttl lc"
  "lf_timeout (snd (lifecycle_failed now out lc)) = lf_timeout lc" "lf_renewal (snd (lifecycle_failed now out lc)) = lf_renewal lc"
  "lf_ttl (snd (lifecycle_failed now out lc)) = lf_ttl lc"
  by (simp_all add: lifecycle_accepted_def lifecycle_refused_def lifecycle_failed_def Let_def split_beta)

lemma life_inv_holds: "life lc ss pend now \<Longrightarrow> life_inv lc ss pend now"
proof (induction rule: life.induct)
  case (start f now)
  then show ?case using renewal_before_ttl [OF start]
    by (simp add: life_inv_def lifecycle_new_def recent_new_of)
next
  case (time lc ss pend now now')
  then show ?case unfolding life_inv_def by (meson order.trans)
next
  case (admitted lc ss pend now)
  then show ?case by (simp add: life_inv_def lifecycle_admitted_def)
next
  case (sent lc ss pend now s)
  note d = life_invD [OF sent.IH] and s = life_invD(3) [OF sent.IH sent.hyps(2)]
  have le: "\<forall>x \<in> set pend. fst x \<le> s" using d(7) s by blast
  show ?case
    using d s le sent.hyps(2) recent_push_of [OF d(4), of s]
    by (auto simp: life_inv_def lifecycle_sent_def sorted_append split: list.splits)
next
  case (accepted lc ss pend now)
  note d = life_invD [OF accepted.IH]
  show ?case using d by (simp add: life_inv_def ended_fields ended_settings)
next
  case (refused lc ss pend now)
  note d = life_invD [OF refused.IH]
  show ?case using d by (simp add: life_inv_def ended_fields ended_settings)
next
  case (failed lc ss pend now outcome)
  note d = life_invD [OF failed.IH]
  show ?case using d by (simp add: life_inv_def ended_fields ended_settings)
next
  case (retarget lc ss pend now f same)
  note d = life_invD [OF retarget.IH]
  show ?case using d renewal_before_ttl [OF retarget.hyps(2)]
    by (simp add: life_inv_def lifecycle_retarget_def Let_def recent_new_of)
next
  case (broadcast lc ss pend now)
  then show ?case by (auto simp: life_inv_def lifecycle_admit_broadcast_def)
qed (simp_all add: life_inv_def lapse_def due_now_def not_before_def hint_def Let_def)

section \<open>What a success proves\<close>

lemma accepted_lease:
  "lf_lease (snd (lifecycle_accepted now lc)) =
     (let since = foldl min (attempt_start now lc) (List.map_filter (\<lambda>x. x)
            [lf_unanswered_since lc, earliest_after (instant_checked_sub now (answer_window lc)) (lf_recent lc)])
      in Some \<lparr>le_since = since, le_until = instant_saturating_add since (lf_ttl lc)\<rparr>)"
  by (simp add: lifecycle_accepted_def Let_def split_beta)

lemma window_inside:
  assumes "unat (inst_nanos now) - unat (inst_nanos s) < unat (as_nanos w)"
  shows "inside (instant_checked_sub now w) s"
proof (cases "as_nanos w \<le> inst_nanos now")
  case True
  then have "unat (inst_nanos now - as_nanos w) = unat (inst_nanos now) - unat (as_nanos w)" by (simp add: unat_sub)
  then have "Instant (inst_nanos now - as_nanos w) < s"
    using assms True by (simp add: less_instant_def word_less_nat_alt word_le_nat_alt)
  then show ?thesis using True by (simp add: instant_checked_sub_def u64_checked_sub_def inside_def)
next
  case False
  then show ?thesis by (simp add: instant_checked_sub_def u64_checked_sub_def inside_def)
qed

text \<open>
  The requests a success at \<open>now\<close> could be the answer to: those sent since the last answer, and
  those sent less than the answer window before.
\<close>

definition could_answer :: "instant \<Rightarrow> sent_request list \<Rightarrow> lifecycle \<Rightarrow> sent_request \<Rightarrow> bool" where
  "could_answer now pend lc req \<longleftrightarrow>
     req \<in> set pend \<or> unat (inst_nanos now) - unat (inst_nanos (fst req)) < unat (as_nanos (answer_window lc))"

lemma lease_starts_early:
  assumes "life lc ss pend now" "req \<in> set ss" "could_answer now pend lc req"
    and lease: "lf_lease (snd (lifecycle_accepted now lc)) = Some lease"
  shows "le_since lease \<le> fst req" and "le_until lease = instant_saturating_add (le_since lease) (lf_ttl lc)"
proof -
  note d = life_invD [OF life_inv_holds [OF assms(1)]]
  let ?e = "earliest_after (instant_checked_sub now (answer_window lc)) (lf_recent lc)"
  let ?xs = "List.map_filter (\<lambda>x. x) [lf_unanswered_since lc, ?e]"
  have since: "le_since lease = foldl min (attempt_start now lc) ?xs"
    using lease accepted_lease [of now lc] by (auto simp: Let_def)
  have "\<exists>x \<in> set ?xs. x \<le> fst req"
  proof (cases "req \<in> set pend")
    case True
    then obtain p ps where p: "pend = p # ps" by (cases pend) auto
    then have "fst p \<le> fst req" using True d(6) by auto
    then show ?thesis using d(5) p unfolding set_map_filter_id by auto
  next
    case False
    then have "inside (instant_checked_sub now (answer_window lc)) (fst req)"
      using assms(3) by (intro window_inside) (simp add: could_answer_def)
    moreover have "fst req \<in> set (map fst ss)" using assms(2) by simp
    ultimately show ?thesis using earliest_after_le [OF d(4,1)] unfolding set_map_filter_id by fastforce
  qed
  then show "le_since lease \<le> fst req" unfolding since
    using foldl_min_le [of _ "attempt_start now lc" ?xs] by (meson insertCI order.trans)
  show "le_until lease = instant_saturating_add (le_since lease) (lf_ttl lc)"
    using lease accepted_lease [of now lc] by (auto simp: Let_def)
qed

lemma ttl_secs_nanos: "unat (as_nanos (from_secs (ucast (ttl :: u16)))) = unat ttl * 1000000000"
  using ttl_nanos [of "\<lparr>fr_bbmd = None, fr_ttl = ttl, fr_renewal = DURATION_ZERO, fr_response_timeout = DURATION_ZERO,
      fr_retry = Backoff, fr_hold = 0, fr_trust = AnySender, fr_release_previous = False\<rparr>"]
  by (simp add: ttl_duration_def)

text \<open>
  C7: A foreign device does not believe it is registered after its BBMD has forgotten it, unless
  it was moved to a longer time-to-live at that BBMD in between. Take any run of the lifecycle,
  moves included, and a success that answers one of the requests sent to the present BBMD: one
  sent since the last answer, or less than the answer window before, not necessarily the
  newest. Let the BBMD have taken that request, no earlier than it was sent, for the
  time-to-live the request asked for, and let the lifecycle's present time-to-live be no longer
  than that. Then at every instant at which the lease proved by the success is live, the entry
  that registration left in the BBMD's table has not expired. The lifecycle remembers four
  sends only; when the request's send has left its memory the lease starts earlier still. The
  bound on the present time-to-live is needed: see \<open>raised_ttl_outlives_entry\<close> below.
\<close>

theorem lease_within_entry:
  assumes run: "life lc ss pend now" and sent: "(s, from_secs (ucast ttl)) \<in> set ss"
    and answers: "could_answer now pend lc (s, from_secs (ucast ttl))"
    and ttl: "lf_ttl lc \<le> from_secs (ucast ttl)"
    and wf: "fdt_wf t" and taken: "s \<le> taken"
    and reg: "register device ttl taken limits reserved admit t x = (out, t', x')" and ok: "ro_result out = Inr k"
    and later: "taken \<le> later" and live: "has_live_lease later (snd (lifecycle_accepted now lc))"
  shows "is_registered_at device later t'"
proof -
  obtain lease where lease: "lf_lease (snd (lifecycle_accepted now lc)) = Some lease" "later < le_until lease"
    using live by (auto simp: has_live_lease_def lease_is_live_at_def split: option.splits)
  note l = lease_starts_early [OF run sent answers lease(1)]
  have t: "unat (as_nanos (lf_ttl lc)) \<le> unat ttl * 1000000000" using ttl by (simp add: duration_le_iff ttl_secs_nanos)
  have "unat (inst_nanos later) < unat (inst_nanos (le_since lease)) + unat (as_nanos (lf_ttl lc))"
    using lease(2) by (simp add: l(2) less_instant_def word_less_nat_alt instant_saturating_add_def unat_saturating_add)
  moreover have "unat (inst_nanos (le_since lease)) \<le> unat (inst_nanos taken)"
    using l(1) taken by (simp add: less_eq_instant_def word_le_nat_alt)
  ultimately have "unat (inst_nanos later) - unat (inst_nanos taken) \<le> (unat ttl + 30) * 1000000000" using t by simp
  then show ?thesis using register_lifetime [OF wf reg ok later] by blast
qed

lemma one_device_registered_ok:
  "\<exists>out. register site_device 60 (Instant 5) DEFAULT_LIMITS OrdinarySource (\<lambda>_. (True, ())) (fdt_new 2) () = (out, one_device, ())
     \<and> ro_result out = Inr NewRegistration"
  using one_device_registered unfolding site_device_def by simp

text \<open>
  A device that asked for 60 s, sent its request at 1 and was then moved, before any answer, to
  another time-to-live at the same BBMD, and asked again at 2.
\<close>

definition moved_device :: "u16 \<Rightarrow> lifecycle" where
  "moved_device ttl = lifecycle_sent (lifecycle_admitted (Instant 2) (lifecycle_retarget (foreign_new site_own ttl) (Instant 2) True
     (lifecycle_sent (lifecycle_admitted (Instant 1) (lifecycle_new (foreign_new site_own 60) (Instant 1))))))"

abbreviation moved_sends :: "u16 \<Rightarrow> sent_request list" where
  "moved_sends ttl \<equiv> [(Instant 1, from_secs 60), (Instant 2, from_secs (ucast ttl))]"

lemma sent_ttl: "lf_ttl (lifecycle_sent lc) = lf_ttl lc"
  by (simp add: lifecycle_sent_def split: option.split)

lemma moved_device_run:
  assumes "foreign_ok (foreign_new site_own ttl)"
  shows "life (moved_device ttl) (moved_sends ttl) (moved_sends ttl) (Instant 8)" and "lf_ttl (moved_device ttl) = from_secs (ucast ttl)"
proof -
  let ?a = "lifecycle_admitted (Instant 1) (lifecycle_new (foreign_new site_own 60) (Instant 1))"
  let ?m = "lifecycle_retarget (foreign_new site_own ttl) (Instant 2) True (lifecycle_sent ?a)"
  let ?b = "lifecycle_admitted (Instant 2) ?m"
  have att: "lf_attempt ?a = Some (Instant 1)" "lf_attempt ?b = Some (Instant 2)" by (simp_all add: lifecycle_admitted_def)
  have t: "lf_ttl ?a = from_secs 60" "lf_ttl ?b = from_secs (ucast ttl)"
    by (simp_all add: lifecycle_admitted_def lifecycle_new_def lifecycle_retarget_def foreign_new_def foreign_with_bbmd_def
        ttl_duration_def Let_def)
  have f: "foreign_ok (foreign_new site_own 60)" using foreign_new_ok [of "Some site_own" 60] by (simp add: foreign_new_def)
  have "life (lifecycle_sent ?a) ([] @ [(Instant 1, lf_ttl ?a)]) ([] @ [(Instant 1, lf_ttl ?a)]) (Instant 2)"
    by (intro life.time [OF life.sent [OF life.admitted [OF life.start [OF f]] att(1)]]) (simp add: less_eq_instant_def)
  from life.retarget [OF this assms, of True] have "life ?m [(Instant 1, from_secs 60)] [(Instant 1, from_secs 60)] (Instant 2)"
    by (simp add: t)
  from life.sent [OF life.admitted [OF this] att(2)] have "life (moved_device ttl) (moved_sends ttl) (moved_sends ttl) (Instant 2)"
    by (simp add: moved_device_def t)
  then show "life (moved_device ttl) (moved_sends ttl) (moved_sends ttl) (Instant 8)"
    by (rule life.time) (simp add: less_eq_instant_def)
  show "lf_ttl (moved_device ttl) = from_secs (ucast ttl)" by (simp add: moved_device_def sent_ttl t)
qed

lemma lease_live_early:
  assumes "unat (inst_nanos later) < unat (as_nanos (lf_ttl lc))"
  shows "has_live_lease later (snd (lifecycle_accepted now lc))"
  using assms unat_u64_less [of "as_nanos (lf_ttl lc)"]
  by (simp add: has_live_lease_def accepted_lease lease_is_live_at_def Let_def less_instant_def word_less_nat_alt
      instant_saturating_add_def unat_saturating_add)

lemma moved_device_ok: "foreign_ok (foreign_new site_own 45)" "foreign_ok (foreign_new site_own 300)"
  using foreign_new_ok [of "Some site_own" 45] foreign_new_ok [of "Some site_own" 300] by (simp_all add: foreign_new_def)

lemma first_could_answer: "could_answer (Instant 8) (moved_sends ttl) lc (Instant 1, from_secs 60)"
  by (simp add: could_answer_def)

theorem lease_within_entry_witness:
  "has_live_lease (Instant 40000000000) (snd (lifecycle_accepted (Instant 8) (moved_device 45)))
   \<and> is_registered_at site_device (Instant 40000000000) one_device"
proof -
  note run = moved_device_run [OF moved_device_ok(1)]
  obtain out where reg: "register site_device 60 (Instant 5) DEFAULT_LIMITS OrdinarySource (\<lambda>_. (True, ())) (fdt_new 2) ()
      = (out, one_device, ())" "ro_result out = Inr NewRegistration"
    using one_device_registered_ok by blast
  have live: "has_live_lease (Instant 40000000000) (snd (lifecycle_accepted (Instant 8) (moved_device 45)))"
    by (rule lease_live_early) (use ttl_secs_nanos [of 45] in \<open>simp add: run(2)\<close>)
  have "is_registered_at site_device (Instant 40000000000) one_device"
    by (rule lease_within_entry [OF run(1), of "Instant 1" 60, OF _ _ _ _ _ reg _ live])
       (use ttl_secs_nanos [of 45] ttl_secs_nanos [of 60] first_could_answer [of 45] in
         \<open>simp_all add: run(2) fdt_new_refines less_eq_instant_def duration_le_iff\<close>)
  with live show ?thesis by blast
qed

text \<open>
  The bound is needed. The same device, moved from 60 s to 300 s: the BBMD takes the first
  request for 60 s and never gets the second, its success is taken for the second request's, and
  100 s later the lease is live and the BBMD's entry gone.
\<close>

lemma raised_ttl_outlives_entry:
  "life (moved_device 300) (moved_sends 300) (moved_sends 300) (Instant 8)
   \<and> could_answer (Instant 8) (moved_sends 300) (moved_device 300) (Instant 1, from_secs 60)
   \<and> has_live_lease (Instant 100000000000) (snd (lifecycle_accepted (Instant 8) (moved_device 300)))
   \<and> (\<exists>out. register site_device 60 (Instant 5) DEFAULT_LIMITS OrdinarySource (\<lambda>_. (True, ())) (fdt_new 2) () = (out, one_device, ())
        \<and> ro_result out = Inr NewRegistration)
   \<and> \<not> is_registered_at site_device (Instant 100000000000) one_device"
proof -
  note run = moved_device_run [OF moved_device_ok(2)]
  obtain out where reg: "register site_device 60 (Instant 5) DEFAULT_LIMITS OrdinarySource (\<lambda>_. (True, ())) (fdt_new 2) ()
      = (out, one_device, ())" "ro_result out = Inr NewRegistration"
    using one_device_registered_ok by blast
  have "has_live_lease (Instant 100000000000) (snd (lifecycle_accepted (Instant 8) (moved_device 300)))"
    by (rule lease_live_early) (use ttl_secs_nanos [of 300] in \<open>simp add: run(2)\<close>)
  moreover have "\<not> is_registered_at site_device (Instant 100000000000) one_device"
    using register_lifetime [OF _ reg, of "Instant 100000000000"] by (simp add: fdt_new_refines less_eq_instant_def)
  ultimately show ?thesis using run(1) first_could_answer reg by blast
qed

section \<open>When the next attempt goes\<close>

lemma backoff_loop_closed:
  "min (unat (as_nanos (backoff_loop n renewal wait))) (unat (as_nanos renewal))
     = min (unat (as_nanos wait) * 2 ^ n) (unat (as_nanos renewal))"
proof (induction n arbitrary: wait)
  case (Suc n)
  show ?case
  proof (cases "renewal \<le> wait")
    case True
    then have "unat (as_nanos renewal) \<le> unat (as_nanos wait)" by (simp add: duration_le_iff)
    moreover have "unat (as_nanos wait) * 1 \<le> unat (as_nanos wait) * 2 ^ Suc n" by (intro mult_le_mono) simp_all
    ultimately have "unat (as_nanos renewal) \<le> unat (as_nanos wait) * 2 ^ Suc n" by linarith
    then have "min (unat (as_nanos wait) * 2 ^ Suc n) (unat (as_nanos renewal)) = unat (as_nanos renewal)"
      by (rule min_absorb2)
    then show ?thesis using True by (simp add: duration_le_iff)
  next
    case False
    define w where "w = unat (as_nanos wait)"
    define r where "r = unat (as_nanos renewal)"
    have r: "r \<le> 2 ^ 64 - 1" using unat_u64_less [of "as_nanos renewal"] by (simp add: r_def)
    have dbl: "unat (as_nanos (duration_saturating_mul wait 2)) = min (w * 2) (2 ^ 64 - 1)"
      by (simp add: duration_saturating_mul_def unat_saturating_mul w_def)
    have "min (min (w * 2) (2 ^ 64 - 1) * 2 ^ n) r = min (w * 2 * 2 ^ n) r"
    proof (cases "w * 2 \<le> 2 ^ 64 - 1")
      case False
      define m :: nat where "m = 2 ^ 64 - 1"
      have m: "m \<le> w * 2" "r \<le> m" using False r by (simp_all add: m_def)
      have "m * 1 \<le> (w * 2) * 2 ^ n" "m * 1 \<le> m * 2 ^ n" by (intro mult_le_mono m(1) order.refl, simp)+
      then have "r \<le> (w * 2) * 2 ^ n" "r \<le> m * 2 ^ n" using m(2) by linarith+
      moreover have "min (w * 2) m = m" using m(1) by simp
      ultimately show ?thesis unfolding m_def [symmetric] by (simp add: min_absorb2)
    qed simp
    then show ?thesis using False Suc.IH [of "duration_saturating_mul wait 2"]
      by (simp add: dbl ac_simps flip: w_def r_def)
  qed
qed simp

lemma backoff_nanos:
  "unat (as_nanos (backoff lc)) =
     min (unat (as_nanos (lf_timeout lc)) * 2 ^ (unat (lf_failures lc) - 1)) (unat (as_nanos (lf_renewal lc)))"
  using backoff_loop_closed [of "unat (lf_failures lc) - 1" "lf_renewal lc" "lf_timeout lc"]
  by (simp add: backoff_def min_def duration_le_iff split: if_splits)

lemma accepted_next:
  assumes "lf_lease (snd (lifecycle_accepted now lc)) = Some lease"
  shows "due_at (snd (lifecycle_accepted now lc)) = Some (instant_saturating_add
    (case lf_retry lc of Backoff \<Rightarrow> le_since lease | AtRenewal \<Rightarrow> attempt_start now lc) (lf_renewal lc))"
  using assms by (auto simp: lifecycle_accepted_def due_at_def Let_def split_beta split: retry.split)

lemma failed_next:
  "due_at (snd (lifecycle_failed now out lc)) = Some (case lf_retry lc of
       AtRenewal \<Rightarrow> instant_saturating_add (attempt_start now lc) (lf_renewal lc)
     | Backoff \<Rightarrow> min (instant_saturating_add (attempt_start now lc) (lf_renewal lc))
         (instant_saturating_add now (backoff (lc\<lparr>lf_attempt := None, lf_failures := u32_saturating_add (lf_failures lc) 1\<rparr>))))"
  by (simp add: lifecycle_failed_def due_at_def Let_def split: retry.split)

lemma instant_add_mono: "d < e \<Longrightarrow> instant_saturating_add t e \<noteq> INSTANT_MAX \<Longrightarrow>
    instant_saturating_add t d < instant_saturating_add t e"
proof -
  assume de: "d < e" and ne: "instant_saturating_add t e \<noteq> INSTANT_MAX"
  have max: "x = INSTANT_MAX" if "unat (inst_nanos x) = 2 ^ 64 - 1" for x
    using that by (cases x) (simp add: INSTANT_MAX_def word_unat_eq_iff)
  from ne max [of "instant_saturating_add t e"] have "unat (inst_nanos (instant_saturating_add t e)) \<noteq> 2 ^ 64 - 1" by blast
  with de show ?thesis
    by (simp add: less_instant_def less_duration_def word_less_nat_alt instant_saturating_add_def unat_saturating_add min_def
        split: if_splits)
qed

text \<open>
  An attempt is always scheduled. After a failure the next one comes no later than one
  renewal interval after this one started; with \<open>Backoff\<close> it comes as soon as the response timeout,
  doubled for each failure in a row after the first and cut off at the renewal interval, has
  passed. After a success with \<open>Backoff\<close> it comes before the lease it proved ends.
\<close>

theorem attempt_schedule:
  assumes "life lc ss pend now"
  shows "(\<exists>n wait. due_at (snd (lifecycle_failed now out lc)) = Some n
       \<and> unat (as_nanos wait) = min (unat (as_nanos (lf_timeout lc)) * 2 ^ (unat (u32_saturating_add (lf_failures lc) 1) - 1))
           (unat (as_nanos (lf_renewal lc)))
       \<and> n = (let at_renewal = instant_saturating_add (attempt_start now lc) (lf_renewal lc) in
              if lf_retry lc = Backoff then min at_renewal (instant_saturating_add now wait) else at_renewal))
   \<and> (\<exists>n lease. due_at (snd (lifecycle_accepted now lc)) = Some n
       \<and> lf_lease (snd (lifecycle_accepted now lc)) = Some lease
       \<and> (lf_retry lc = Backoff \<and> le_until lease \<noteq> INSTANT_MAX \<longrightarrow> n < le_until lease))"
proof (intro conjI)
  let ?wait = "backoff (lc\<lparr>lf_attempt := None, lf_failures := u32_saturating_add (lf_failures lc) 1\<rparr>)"
  have "unat (as_nanos ?wait) = min (unat (as_nanos (lf_timeout lc)) * 2 ^ (unat (u32_saturating_add (lf_failures lc) 1) - 1))
      (unat (as_nanos (lf_renewal lc)))"
    by (simp add: backoff_nanos)
  then show "\<exists>n wait. due_at (snd (lifecycle_failed now out lc)) = Some n
       \<and> unat (as_nanos wait) = min (unat (as_nanos (lf_timeout lc)) * 2 ^ (unat (u32_saturating_add (lf_failures lc) 1) - 1))
           (unat (as_nanos (lf_renewal lc)))
       \<and> n = (let at_renewal = instant_saturating_add (attempt_start now lc) (lf_renewal lc) in
              if lf_retry lc = Backoff then min at_renewal (instant_saturating_add now wait) else at_renewal)"
    by (cases "lf_retry lc") (auto simp: failed_next)
  have "lf_renewal lc < lf_ttl lc" by (rule life_invD(11) [OF life_inv_holds [OF assms]])
  then show "\<exists>n lease. due_at (snd (lifecycle_accepted now lc)) = Some n
       \<and> lf_lease (snd (lifecycle_accepted now lc)) = Some lease
       \<and> (lf_retry lc = Backoff \<and> le_until lease \<noteq> INSTANT_MAX \<longrightarrow> n < le_until lease)"
    using accepted_lease [of now lc] accepted_next [of now lc] instant_add_mono by (auto simp: Let_def)
qed

theorem attempt_schedule_witness:
  "\<exists>n. due_at (snd (lifecycle_failed (Instant 5) None (lifecycle_new (foreign_new site_own 60) (Instant 5)))) = Some n"
  using attempt_schedule [OF life.start, of "foreign_new site_own 60" "Instant 5" None]
    foreign_new_ok [of "Some site_own" 60] by (auto simp: foreign_new_def)

end
