(* ===== verification/Bip_Exchange.thy ===== *)
theory Bip_Exchange
  imports Bip_Registration
begin

text \<open>
  A B/IP node's own management exchanges
  (\<open>crates/bacnet-bip-core/src/node/exchange.rs\<close>), a request to a peer and the one response
  that settles it, and what a node counts (\<open>node/counters.rs\<close>).

  A response carries no invoke ID. The invariant \<open>unambiguous\<close> states what replaces it: no two
  live exchanges could be answered by the same response.
\<close>

section \<open>Operations\<close>

datatype operation = OpReadBdt | OpWriteBdt | OpReadFdt | OpDeleteFdtEntry | OpRegisterForeignDevice

definition OPERATION_ALL :: "operation list" where
  "OPERATION_ALL = [OpReadBdt, OpWriteBdt, OpReadFdt, OpDeleteFdtEntry, OpRegisterForeignDevice]"

definition operation_of :: "bvlc_function \<Rightarrow> operation option" where
  "operation_of function =
     (if function = READ_BROADCAST_DISTRIBUTION_TABLE then Some OpReadBdt
      else if function = WRITE_BROADCAST_DISTRIBUTION_TABLE then Some OpWriteBdt
      else if function = READ_FOREIGN_DEVICE_TABLE then Some OpReadFdt
      else if function = DELETE_FOREIGN_DEVICE_TABLE_ENTRY then Some OpDeleteFdtEntry
      else if function = REGISTER_FOREIGN_DEVICE then Some OpRegisterForeignDevice
      else None)"

fun operation_function :: "operation \<Rightarrow> bvlc_function" where
  "operation_function OpReadBdt = READ_BROADCAST_DISTRIBUTION_TABLE"
| "operation_function OpWriteBdt = WRITE_BROADCAST_DISTRIBUTION_TABLE"
| "operation_function OpReadFdt = READ_FOREIGN_DEVICE_TABLE"
| "operation_function OpDeleteFdtEntry = DELETE_FOREIGN_DEVICE_TABLE_ENTRY"
| "operation_function OpRegisterForeignDevice = REGISTER_FOREIGN_DEVICE"

text \<open>The loop over the five operations, which stops at the first whose NAK the code is.\<close>

definition operation_of_nak :: "bvlc_result_code \<Rightarrow> operation option" where
  "operation_of_nak code =
     find (\<lambda>op. case function_nak (operation_function op) of
                  Some nak \<Rightarrow> rc_to_raw nak = rc_to_raw code | None \<Rightarrow> False) OPERATION_ALL"

definition operation_ack :: "operation \<Rightarrow> bvlc_function option" where
  "operation_ack op =
     (case op of
        OpReadBdt \<Rightarrow> Some READ_BROADCAST_DISTRIBUTION_TABLE_ACK
      | OpReadFdt \<Rightarrow> Some READ_FOREIGN_DEVICE_TABLE_ACK
      | _ \<Rightarrow> None)"

definition operation_of_ack :: "bvlc_function \<Rightarrow> operation option" where
  "operation_of_ack function =
     (if function = READ_BROADCAST_DISTRIBUTION_TABLE_ACK then Some OpReadBdt
      else if function = READ_FOREIGN_DEVICE_TABLE_ACK then Some OpReadFdt
      else None)"

definition answered_by_success :: "operation \<Rightarrow> bool" where
  "answered_by_success op \<longleftrightarrow> op = OpWriteBdt \<or> op = OpDeleteFdtEntry \<or> op = OpRegisterForeignDevice"

section \<open>Slots\<close>

record exchange_id =
  xi_slot :: octet
  xi_generation :: u32

definition exchange_id_new :: "nat \<Rightarrow> u32 \<Rightarrow> exchange_id" where
  "exchange_id_new slot generation = \<lparr>xi_slot = of_nat slot, xi_generation = generation\<rparr>"

datatype exchange_refusal = SameExchange | ResultClass | ExchangesFull | NotARequest | ManagedRegistration

datatype local_failure = SendFailed | GaveUp

record early =
  ey_code :: "bvlc_result_code option"
  ey_valid :: bool

datatype owner = Manual | Registration | Release

datatype phase = Free | Admitted | Sent instant

record slot =
  sl_phase :: phase
  sl_peer :: socket_addr_v4
  sl_operation :: operation
  sl_generation :: u32
  sl_timeout :: duration
  sl_owner :: owner
  sl_ttl :: u16
  sl_early :: "early option"
  sl_late_until :: "instant option"

definition FREE_SLOT :: slot where
  "FREE_SLOT =
     \<lparr>sl_phase = Free, sl_peer = \<lparr>sa_ip = Ipv4Addr 0 0 0 0, sa_port = 0\<rparr>, sl_operation = OpReadBdt, sl_generation = 0,
      sl_timeout = DURATION_ZERO, sl_owner = Manual, sl_ttl = 0, sl_early = None, sl_late_until = None\<rparr>"

definition slot_is_live :: "slot \<Rightarrow> bool" where
  "slot_is_live s \<longleftrightarrow> sl_phase s \<noteq> Free"

definition slot_id :: "nat \<Rightarrow> slot \<Rightarrow> exchange_id" where
  "slot_id index s = exchange_id_new index (sl_generation s)"

datatype key = KeySuccess | KeyOperation operation

definition key_of :: "bvlc_function \<Rightarrow> bvlc_result_code option \<Rightarrow> key option" where
  "key_of function code =
     (case code of
        Some c \<Rightarrow> if c = SUCCESSFUL_COMPLETION then Some KeySuccess else map_option KeyOperation (operation_of_nak c)
      | None \<Rightarrow> map_option KeyOperation (operation_of_ack function))"

fun key_fits :: "key \<Rightarrow> operation \<Rightarrow> bool" where
  "key_fits KeySuccess op = answered_by_success op"
| "key_fits (KeyOperation own) op = (own = op)"

section \<open>Exchanges\<close>

record exchanges =
  ex_slots :: "slot list"
  ex_generation :: u32

definition exchanges_new :: "nat \<Rightarrow> exchanges" where
  "exchanges_new x = \<lparr>ex_slots = replicate x FREE_SLOT, ex_generation = 0\<rparr>"

text \<open>The loop over the live slots of the peer, which returns at the first conflict.\<close>

fun admit_conflict :: "operation \<Rightarrow> slot list \<Rightarrow> exchange_refusal option" where
  "admit_conflict op [] = None"
| "admit_conflict op (s # ss) =
     (if sl_operation s = op then Some SameExchange
      else if answered_by_success op \<and> answered_by_success (sl_operation s) then Some ResultClass
      else admit_conflict op ss)"

definition exchanges_admit :: "socket_addr_v4 \<Rightarrow> operation \<Rightarrow> duration \<Rightarrow> owner \<Rightarrow> u16 \<Rightarrow> exchanges
    \<Rightarrow> (exchange_refusal + exchange_id) \<times> exchanges" where
  "exchanges_admit peer op timeout owner ttl e =
     (case admit_conflict op (filter (\<lambda>s. slot_is_live s \<and> sl_peer s = peer) (ex_slots e)) of
        Some refusal \<Rightarrow> (Inl refusal, e)
      | None \<Rightarrow>
          (case position (\<lambda>s. \<not> slot_is_live s) (ex_slots e) of
             None \<Rightarrow> (Inl ExchangesFull, e)
           | Some index \<Rightarrow>
               let generation = ex_generation e + 1;
                   s = \<lparr>sl_phase = Admitted, sl_peer = peer, sl_operation = op, sl_generation = generation,
                        sl_timeout = timeout, sl_owner = owner, sl_ttl = ttl, sl_early = None, sl_late_until = None\<rparr>
               in (Inr (slot_id index s), e\<lparr>ex_generation := generation, ex_slots := (ex_slots e)[index := s]\<rparr>)))"

definition exchanges_live :: "exchange_id \<Rightarrow> exchanges \<Rightarrow> nat option" where
  "exchanges_live i e =
     (case get_at (ex_slots e) (unat (xi_slot i)) of
        None \<Rightarrow> None
      | Some s \<Rightarrow> if slot_is_live s \<and> sl_generation s = xi_generation i then Some (unat (xi_slot i)) else None)"

definition exchanges_id :: "nat \<Rightarrow> exchanges \<Rightarrow> exchange_id" where
  "exchanges_id index e = slot_id index (ex_slots e ! index)"

text \<open>The update a caller makes through \<open>slot_mut\<close>.\<close>

definition slot_mut :: "nat \<Rightarrow> (slot \<Rightarrow> slot) \<Rightarrow> exchanges \<Rightarrow> exchanges" where
  "slot_mut index f e = e\<lparr>ex_slots := (ex_slots e)[index := f (ex_slots e ! index)]\<rparr>"

definition exchanges_find :: "socket_addr_v4 \<Rightarrow> key \<Rightarrow> exchanges \<Rightarrow> nat option" where
  "exchanges_find peer k e =
     position (\<lambda>s. slot_is_live s \<and> sl_peer s = peer \<and> key_fits k (sl_operation s)) (ex_slots e)"

definition first_with :: "socket_addr_v4 \<Rightarrow> bvlc_function \<Rightarrow> exchanges \<Rightarrow> nat option" where
  "first_with peer function e =
     (let read = operation_of_ack function in
      position (\<lambda>s. slot_is_live s \<and> sl_peer s = peer
        \<and> (function = BVLC_RESULT \<or> Some (sl_operation s) = read)) (ex_slots e))"

definition is_late :: "socket_addr_v4 \<Rightarrow> key \<Rightarrow> instant \<Rightarrow> exchanges \<Rightarrow> bool" where
  "is_late peer k now e =
     list_ex (\<lambda>s. \<not> slot_is_live s \<and> sl_peer s = peer \<and> key_fits k (sl_operation s)
       \<and> (case sl_late_until s of Some until \<Rightarrow> now < until | None \<Rightarrow> False)) (ex_slots e)"

definition retired_slot :: "instant \<Rightarrow> slot \<Rightarrow> slot" where
  "retired_slot now s =
     s\<lparr>sl_late_until := (case sl_phase s of Sent _ \<Rightarrow> Some (instant_saturating_add now (sl_timeout s)) | _ \<Rightarrow> None),
       sl_phase := Free, sl_early := None\<rparr>"

definition retire :: "nat \<Rightarrow> instant \<Rightarrow> exchanges \<Rightarrow> slot \<times> exchanges" where
  "retire index now e = (ex_slots e ! index, slot_mut index (retired_slot now) e)"

definition exchanges_registration :: "exchanges \<Rightarrow> nat option" where
  "exchanges_registration e = position (\<lambda>s. slot_is_live s \<and> sl_owner s = Registration) (ex_slots e)"

text \<open>The loop over the slots with their index, and the earliest deadline so far.\<close>

fun deadline_loop :: "nat \<Rightarrow> slot list \<Rightarrow> (nat \<times> instant) option \<Rightarrow> (nat \<times> instant) option" where
  "deadline_loop index [] found = found"
| "deadline_loop index (s # ss) found =
     deadline_loop (index + 1) ss
       (case sl_phase s of
          Sent deadline \<Rightarrow>
            if (case found of None \<Rightarrow> True | Some (_, soonest) \<Rightarrow> deadline < soonest) then Some (index, deadline) else found
        | _ \<Rightarrow> found)"

definition exchanges_next_deadline :: "exchanges \<Rightarrow> (nat \<times> instant) option" where
  "exchanges_next_deadline e = deadline_loop 0 (ex_slots e) None"

section \<open>Counters\<close>

record exchange_counters =
  xc_sent :: u32
  xc_acknowledgements :: u32
  xc_results :: u32
  xc_last_result :: "bvlc_result_code option"
  xc_timeouts :: u32
  xc_busy :: u32
  xc_local_errors :: u32
  xc_malformed_responses :: u32

definition EXCHANGE_COUNTERS_ZERO :: exchange_counters where
  "EXCHANGE_COUNTERS_ZERO =
     \<lparr>xc_sent = 0, xc_acknowledgements = 0, xc_results = 0, xc_last_result = None, xc_timeouts = 0, xc_busy = 0,
      xc_local_errors = 0, xc_malformed_responses = 0\<rparr>"

record register_attempt =
  ra_bbmd :: socket_addr_v4
  ra_ttl :: u16
  ra_outcome :: attempt_outcome
  ra_result :: "bvlc_result_code option"

record node_counters =
  nc_read_bdt :: exchange_counters
  nc_write_bdt :: exchange_counters
  nc_read_fdt :: exchange_counters
  nc_delete_fdt_entry :: exchange_counters
  nc_register_foreign_device :: exchange_counters
  nc_registration_attempts :: u32
  nc_registrations_accepted :: u32
  nc_registrations_refused :: u32
  nc_last_registration_attempt :: "register_attempt option"
  nc_unmatched_responses :: u32
  nc_late_responses :: u32
  nc_last_unmatched_result :: "bvlc_result_code option"
  nc_malformed_responses :: u32
  nc_renewal_hints :: u32
  nc_lapses :: u32
  nc_broadcasts_held :: u32
  nc_broadcasts_released :: u32
  nc_broadcasts_discarded :: u32
  nc_broadcasts_hold_full :: u32
  nc_broadcasts_unregistered :: u32
  nc_previous_releases :: u32
  nc_previous_released :: u32
  nc_previous_release_refused :: u32
  nc_previous_release_unanswered :: u32

definition NODE_COUNTERS_ZERO :: node_counters where
  "NODE_COUNTERS_ZERO =
     \<lparr>nc_read_bdt = EXCHANGE_COUNTERS_ZERO, nc_write_bdt = EXCHANGE_COUNTERS_ZERO, nc_read_fdt = EXCHANGE_COUNTERS_ZERO,
      nc_delete_fdt_entry = EXCHANGE_COUNTERS_ZERO, nc_register_foreign_device = EXCHANGE_COUNTERS_ZERO,
      nc_registration_attempts = 0, nc_registrations_accepted = 0, nc_registrations_refused = 0,
      nc_last_registration_attempt = None, nc_unmatched_responses = 0, nc_late_responses = 0,
      nc_last_unmatched_result = None, nc_malformed_responses = 0, nc_renewal_hints = 0, nc_lapses = 0,
      nc_broadcasts_held = 0, nc_broadcasts_released = 0, nc_broadcasts_discarded = 0, nc_broadcasts_hold_full = 0,
      nc_broadcasts_unregistered = 0, nc_previous_releases = 0, nc_previous_released = 0,
      nc_previous_release_refused = 0, nc_previous_release_unanswered = 0\<rparr>"

definition counters_exchange :: "operation \<Rightarrow> node_counters \<Rightarrow> exchange_counters" where
  "counters_exchange op c =
     (case op of
        OpReadBdt \<Rightarrow> nc_read_bdt c
      | OpWriteBdt \<Rightarrow> nc_write_bdt c
      | OpReadFdt \<Rightarrow> nc_read_fdt c
      | OpDeleteFdtEntry \<Rightarrow> nc_delete_fdt_entry c
      | OpRegisterForeignDevice \<Rightarrow> nc_register_foreign_device c)"

text \<open>\<open>exchange_mut\<close>, and the update made through it.\<close>

definition counters_exchange_mut :: "operation \<Rightarrow> (exchange_counters \<Rightarrow> exchange_counters) \<Rightarrow> node_counters \<Rightarrow> node_counters" where
  "counters_exchange_mut op f c =
     (case op of
        OpReadBdt \<Rightarrow> c\<lparr>nc_read_bdt := f (nc_read_bdt c)\<rparr>
      | OpWriteBdt \<Rightarrow> c\<lparr>nc_write_bdt := f (nc_write_bdt c)\<rparr>
      | OpReadFdt \<Rightarrow> c\<lparr>nc_read_fdt := f (nc_read_fdt c)\<rparr>
      | OpDeleteFdtEntry \<Rightarrow> c\<lparr>nc_delete_fdt_entry := f (nc_delete_fdt_entry c)\<rparr>
      | OpRegisterForeignDevice \<Rightarrow> c\<lparr>nc_register_foreign_device := f (nc_register_foreign_device c)\<rparr>)"

definition bump :: "u32 \<Rightarrow> u32" where
  "bump counter = u32_saturating_add counter 1"

definition counter_add :: "u16 \<Rightarrow> u32 \<Rightarrow> u32" where
  "counter_add cnt counter = u32_saturating_add counter (ucast cnt)"

section \<open>Which exchange a response answers\<close>

text \<open>No two live exchanges with one peer are of the same operation, or both answered by a success.\<close>

definition clash :: "slot \<Rightarrow> slot \<Rightarrow> bool" where
  "clash a b \<longleftrightarrow> slot_is_live a \<and> slot_is_live b \<and> sl_peer a = sl_peer b
     \<and> (sl_operation a = sl_operation b \<or> (answered_by_success (sl_operation a) \<and> answered_by_success (sl_operation b)))"

definition unambiguous :: "exchanges \<Rightarrow> bool" where
  "unambiguous e \<longleftrightarrow> (\<forall>i j. i < length (ex_slots e) \<and> j < length (ex_slots e) \<and> i \<noteq> j
     \<longrightarrow> \<not> clash (ex_slots e ! i) (ex_slots e ! j))"

lemma unambiguousD:
  "unambiguous e \<Longrightarrow> i < length (ex_slots e) \<Longrightarrow> j < length (ex_slots e) \<Longrightarrow> clash (ex_slots e ! i) (ex_slots e ! j) \<Longrightarrow> i = j"
  unfolding unambiguous_def by blast

lemma clash_sym: "clash a b \<longleftrightarrow> clash b a"
  by (auto simp: clash_def)

lemma unambiguous_new: "unambiguous (exchanges_new x)"
  by (auto simp: unambiguous_def exchanges_new_def clash_def FREE_SLOT_def slot_is_live_def)

text \<open>A slot may change as long as it comes into no new conflict.\<close>

lemma unambiguous_update:
  assumes "unambiguous e" "\<forall>j < length (ex_slots e). j \<noteq> i \<longrightarrow> \<not> clash s (ex_slots e ! j)"
  shows "unambiguous (e\<lparr>ex_slots := (ex_slots e)[i := s]\<rparr>)"
  unfolding unambiguous_def
proof (intro allI impI notI)
  fix a b assume ab: "a < length (ex_slots (e\<lparr>ex_slots := (ex_slots e)[i := s]\<rparr>)) \<and>
      b < length (ex_slots (e\<lparr>ex_slots := (ex_slots e)[i := s]\<rparr>)) \<and> a \<noteq> b"
    and c: "clash (ex_slots (e\<lparr>ex_slots := (ex_slots e)[i := s]\<rparr>) ! a) (ex_slots (e\<lparr>ex_slots := (ex_slots e)[i := s]\<rparr>) ! b)"
  then consider "a = i" "b \<noteq> i" | "a \<noteq> i" "b = i" | "a \<noteq> i" "b \<noteq> i" by auto
  then show False
  proof cases
    case 1
    with ab c assms(2) show False by simp
  next
    case 2
    with ab c assms(2) show False by (simp add: clash_sym [of "ex_slots e ! a"])
  next
    case 3
    with ab c unambiguousD [OF assms(1), of a b] show False by simp
  qed
qed

lemma unambiguous_slot_mut:
  assumes "unambiguous e" "i < length (ex_slots e)"
    and "slot_is_live (f (ex_slots e ! i)) \<Longrightarrow> slot_is_live (ex_slots e ! i)"
    and "sl_peer (f (ex_slots e ! i)) = sl_peer (ex_slots e ! i)" "sl_operation (f (ex_slots e ! i)) = sl_operation (ex_slots e ! i)"
  shows "unambiguous (slot_mut i f e)"
  unfolding slot_mut_def
  by (rule unambiguous_update [OF assms(1)]) (use assms unambiguousD in \<open>fastforce simp: clash_def\<close>)

lemma admit_conflict_None:
  "admit_conflict op ss = None \<longleftrightarrow>
     (\<forall>s \<in> set ss. sl_operation s \<noteq> op \<and> \<not> (answered_by_success op \<and> answered_by_success (sl_operation s)))"
  by (induction ss) auto

lemma exchanges_admit_cases:
  assumes "exchanges_admit peer op timeout owner ttl e = (r, e')"
  obtains refusal where "r = Inl refusal" "e' = e"
  | index s where "r = Inr (slot_id index s)" "index < length (ex_slots e)" "\<not> slot_is_live (ex_slots e ! index)"
      "s = \<lparr>sl_phase = Admitted, sl_peer = peer, sl_operation = op, sl_generation = ex_generation e + 1,
            sl_timeout = timeout, sl_owner = owner, sl_ttl = ttl, sl_early = None, sl_late_until = None\<rparr>"
      "e' = e\<lparr>ex_generation := ex_generation e + 1, ex_slots := (ex_slots e)[index := s]\<rparr>"
      "\<forall>j < length (ex_slots e). \<not> clash s (ex_slots e ! j)"
proof -
  let ?live = "filter (\<lambda>s. slot_is_live s \<and> sl_peer s = peer) (ex_slots e)"
  show ?thesis
  proof (cases "admit_conflict op ?live")
    case (Some refusal)
    with assms show ?thesis by (auto intro: that(1) simp: exchanges_admit_def)
  next
    case conflict: None
    show ?thesis
    proof (cases "position (\<lambda>s. \<not> slot_is_live s) (ex_slots e)")
      case None
      with assms conflict show ?thesis by (auto intro: that(1) simp: exchanges_admit_def)
    next
      case (Some index)
      let ?s = "\<lparr>sl_phase = Admitted, sl_peer = peer, sl_operation = op, sl_generation = ex_generation e + 1,
            sl_timeout = timeout, sl_owner = owner, sl_ttl = ttl, sl_early = None, sl_late_until = None\<rparr>"
      have "\<forall>j < length (ex_slots e). \<not> clash ?s (ex_slots e ! j)"
        using conflict by (force simp: admit_conflict_None clash_def)
      moreover have "index < length (ex_slots e)" "\<not> slot_is_live (ex_slots e ! index)"
        using position_Some [OF Some] by simp_all
      ultimately show ?thesis using that(2) [of index ?s] assms conflict Some by (simp add: exchanges_admit_def Let_def)
    qed
  qed
qed

lemma unambiguous_admit:
  assumes "unambiguous e" "exchanges_admit peer op timeout owner ttl e = (r, e')"
  shows "unambiguous e'"
  using assms(2)
proof (cases rule: exchanges_admit_cases)
  case (2 index s)
  then have "unambiguous (e\<lparr>ex_slots := (ex_slots e)[index := s]\<rparr>)" by (intro unambiguous_update [OF assms(1)]) simp
  then show ?thesis using 2(5) by (simp add: unambiguous_def)
qed (use assms(1) in simp)

lemma key_fits_clash:
  "slot_is_live a \<Longrightarrow> slot_is_live b \<Longrightarrow> sl_peer a = sl_peer b \<Longrightarrow> key_fits k (sl_operation a) \<Longrightarrow> key_fits k (sl_operation b) \<Longrightarrow>
     clash a b"
  by (cases k) (auto simp: clash_def)

lemma find_unique:
  assumes "unambiguous e"
  shows "exchanges_find peer k e = Some i \<longleftrightarrow> i < length (ex_slots e) \<and> slot_is_live (ex_slots e ! i)
    \<and> sl_peer (ex_slots e ! i) = peer \<and> key_fits k (sl_operation (ex_slots e ! i))"
proof
  assume r: "i < length (ex_slots e) \<and> slot_is_live (ex_slots e ! i)
    \<and> sl_peer (ex_slots e ! i) = peer \<and> key_fits k (sl_operation (ex_slots e ! i))"
  then obtain j where j: "exchanges_find peer k e = Some j"
    using position_None [of _ "ex_slots e"] by (fastforce simp: exchanges_find_def)
  have "j = i"
    using position_Some [OF j [unfolded exchanges_find_def]] r unambiguousD [OF assms] key_fits_clash by blast
  with j show "exchanges_find peer k e = Some i" by simp
qed (use position_Some in \<open>fastforce simp: exchanges_find_def\<close>)

section \<open>Deadlines\<close>

lemma deadline_loop_None:
  "deadline_loop index ss found = None \<longleftrightarrow> found = None \<and> (\<forall>s \<in> set ss. \<forall>d. sl_phase s \<noteq> Sent d)"
  by (induction ss arbitrary: index found) (auto split: phase.splits option.splits)

lemma deadline_loop_Some:
  "deadline_loop index ss found = Some (i, d) \<Longrightarrow>
     (found = Some (i, d) \<or> (\<exists>k < length ss. i = index + k \<and> sl_phase (ss ! k) = Sent d))
     \<and> (\<forall>x \<in> set_option found. d \<le> snd x) \<and> (\<forall>s \<in> set ss. \<forall>d'. sl_phase s = Sent d' \<longrightarrow> d \<le> d')"
proof (induction ss arbitrary: index found)
  case (Cons s ss)
  define found' where "found' = (case sl_phase s of
      Sent deadline \<Rightarrow>
        if (case found of None \<Rightarrow> True | Some (_, soonest) \<Rightarrow> deadline < soonest) then Some (index, deadline) else found
    | _ \<Rightarrow> found)"
  have f: "found' = found \<and> (\<forall>d'. sl_phase s = Sent d' \<longrightarrow> (\<exists>x. found = Some x \<and> snd x \<le> d'))
      \<or> (\<exists>d'. sl_phase s = Sent d' \<and> found' = Some (index, d') \<and> (\<forall>x \<in> set_option found. d' < snd x))"
    by (auto simp: found'_def split: phase.splits option.splits)
  from Cons.prems have "deadline_loop (index + 1) ss found' = Some (i, d)" by (simp add: found'_def)
  from Cons.IH [OF this] have h: "found' = Some (i, d) \<or> (\<exists>k < length ss. i = index + 1 + k \<and> sl_phase (ss ! k) = Sent d)"
    "\<forall>x \<in> set_option found'. d \<le> snd x" "\<forall>s \<in> set ss. \<forall>d'. sl_phase s = Sent d' \<longrightarrow> d \<le> d'"
    by blast+
  have later: "\<exists>k < length (s # ss). i = index + k \<and> sl_phase ((s # ss) ! k) = Sent d"
    if "\<exists>k < length ss. i = index + 1 + k \<and> sl_phase (ss ! k) = Sent d"
  proof -
    from that obtain k where "k < length ss" "i = index + 1 + k" "sl_phase (ss ! k) = Sent d" by blast
    then show ?thesis by (intro exI [of _ "Suc k"]) simp
  qed
  from f show ?case
  proof (elim disjE exE conjE)
    assume a: "found' = found" "\<forall>d'. sl_phase s = Sent d' \<longrightarrow> (\<exists>x. found = Some x \<and> snd x \<le> d')"
    have "d \<le> d'" if "sl_phase s = Sent d'" for d'
      using a(2) that h(2) a(1) by fastforce
    then show ?case using h a(1) later by auto
  next
    fix d' assume a: "sl_phase s = Sent d'" "found' = Some (index, d')" "\<forall>x \<in> set_option found. d' < snd x"
    have le: "d \<le> d'" using h(2) a(2) by simp
    have "\<exists>k < length (s # ss). i = index + k \<and> sl_phase ((s # ss) ! k) = Sent d"
      using h(1) later a by (auto intro: exI [of _ 0])
    moreover have "\<forall>x \<in> set_option found. d \<le> snd x" using le a(3) by fastforce
    ultimately show ?case using h(3) le a(1) by auto
  qed
qed auto

lemma next_deadline_None: "exchanges_next_deadline e = None \<longleftrightarrow> (\<forall>s \<in> set (ex_slots e). \<forall>d. sl_phase s \<noteq> Sent d)"
  by (simp add: exchanges_next_deadline_def deadline_loop_None)

lemma next_deadline_Some:
  assumes "exchanges_next_deadline e = Some (i, d)"
  shows "i < length (ex_slots e)" and "sl_phase (ex_slots e ! i) = Sent d"
    and "\<forall>s \<in> set (ex_slots e). \<forall>d'. sl_phase s = Sent d' \<longrightarrow> d \<le> d'"
  using deadline_loop_Some [OF assms [unfolded exchanges_next_deadline_def]] by auto

text \<open>How many exchanges wait for their answer.\<close>

definition is_sent :: "slot \<Rightarrow> bool" where
  "is_sent s = (case sl_phase s of Sent _ \<Rightarrow> True | _ \<Rightarrow> False)"

definition sent_count :: "exchanges \<Rightarrow> nat" where
  "sent_count e = length (filter is_sent (ex_slots e))"

lemma filter_update_less:
  "i < length xs \<Longrightarrow> p (xs ! i) \<Longrightarrow> \<not> p y \<Longrightarrow> Suc (length (filter p (xs[i := y]))) = length (filter p xs)"
  by (induction xs arbitrary: i) (auto split: nat.splits simp: nth_Cons)

lemma filter_update_same:
  "i < length xs \<Longrightarrow> p (xs ! i) = p y \<Longrightarrow> length (filter p (xs[i := y])) = length (filter p xs)"
  by (induction xs arbitrary: i) (auto split: nat.splits simp: nth_Cons)

lemma retire_sent_count:
  "i < length (ex_slots e) \<Longrightarrow> is_sent (ex_slots e ! i) \<Longrightarrow> Suc (sent_count (snd (retire i now e))) = sent_count e"
  by (simp add: sent_count_def retire_def slot_mut_def filter_update_less is_sent_def retired_slot_def)

lemma retire_slots [simp]:
  "fst (retire i now e) = ex_slots e ! i" "length (ex_slots (snd (retire i now e))) = length (ex_slots e)"
  "ex_slots (snd (retire i now e)) = (ex_slots e)[i := retired_slot now (ex_slots e ! i)]"
  by (simp_all add: retire_def slot_mut_def)

lemma retired_slot_simps [simp]:
  "sl_phase (retired_slot now s) = Free" "sl_peer (retired_slot now s) = sl_peer s"
  "sl_operation (retired_slot now s) = sl_operation s" "sl_owner (retired_slot now s) = sl_owner s"
  "sl_early (retired_slot now s) = None" "\<not> slot_is_live (retired_slot now s)"
  by (simp_all add: retired_slot_def slot_is_live_def)

lemma unambiguous_retire: "unambiguous e \<Longrightarrow> i < length (ex_slots e) \<Longrightarrow> unambiguous (snd (retire i now e))"
  unfolding retire_def snd_conv by (rule unambiguous_slot_mut) simp_all

lemma sent_count_le: "sent_count e \<le> length (ex_slots e)"
  by (simp add: sent_count_def)

end
