(* ===== verification/Bip_Node.thy ===== *)
theory Bip_Node
  imports Bip_Exchange
begin

text \<open>
  The mutable half of a B/IP node: what it asks its caller to do, in fixed storage
  (\<open>crates/bacnet-bip-core/src/node/actions.rs\<close>), and the engine that owns the exchanges, a
  foreign device's registration and their timers (\<open>node/engine.rs\<close>). Every call takes the time
  and first catches up on the deadlines passed.

  The loop of \<open>catch_up\<close> runs with fuel, twice the number of exchange slots and three steps
  more; the invariant shows that it never runs out before nothing is due.
\<close>

section \<open>Actions\<close>

datatype action =
    Idle
  | RegisterAction exchange_id socket_addr_v4 u16
  | ExchangeEnded exchange_id
  | ReleaseHeld
  | DiscardHeld
  | RegistrationAction registration_event
  | ReleasePrevious exchange_id socket_addr_v4 socket_addr_v4

definition action_message :: "action \<Rightarrow> bvll option" where
  "action_message a =
     (case a of
        RegisterAction _ _ ttl \<Rightarrow> Some (RegisterForeignDevice ttl)
      | ReleasePrevious _ _ entry \<Rightarrow> Some (DeleteForeignDeviceTableEntry entry)
      | _ \<Rightarrow> None)"

definition EVENTS :: nat where "EVENTS = 3"

record actions =
  ac_ended :: "u32 option list"
  ac_events :: "registration_event option list"
  ac_held :: "bool option"
  ac_register :: "(exchange_id \<times> socket_addr_v4 \<times> u16) option"
  ac_release :: "(exchange_id \<times> socket_addr_v4 \<times> socket_addr_v4) option"

definition actions_new :: "nat \<Rightarrow> actions" where
  "actions_new x =
     \<lparr>ac_ended = replicate x None, ac_events = replicate EVENTS None, ac_held = None, ac_register = None, ac_release = None\<rparr>"

definition actions_ended :: "exchange_id \<Rightarrow> actions \<Rightarrow> actions" where
  "actions_ended i a = a\<lparr>ac_ended := (ac_ended a)[unat (xi_slot i) := Some (xi_generation i)]\<rparr>"

definition actions_event :: "registration_event \<Rightarrow> actions \<Rightarrow> actions" where
  "actions_event event a =
     (case position (\<lambda>s. s = None) (ac_events a) of
        Some i \<Rightarrow> a\<lparr>ac_events := (ac_events a)[i := Some event]\<rparr>
      | None \<Rightarrow> a\<lparr>ac_events := (ac_events a)[EVENTS - 1 := Some event]\<rparr>)"

definition actions_event_if_room :: "registration_event \<Rightarrow> actions \<Rightarrow> actions" where
  "actions_event_if_room event a =
     (case position (\<lambda>s. s = None) (ac_events a) of
        Some i \<Rightarrow> a\<lparr>ac_events := (ac_events a)[i := Some event]\<rparr>
      | None \<Rightarrow> a)"

definition actions_held :: "bool \<Rightarrow> actions \<Rightarrow> actions" where
  "actions_held release a = a\<lparr>ac_held := Some release\<rparr>"

definition actions_register :: "exchange_id \<Rightarrow> socket_addr_v4 \<Rightarrow> u16 \<Rightarrow> actions \<Rightarrow> actions" where
  "actions_register i to ttl a = a\<lparr>ac_register := Some (i, to, ttl)\<rparr>"

definition forget_register :: "exchange_id \<Rightarrow> actions \<Rightarrow> actions" where
  "forget_register i a =
     (if (case ac_register a of Some (queued, _, _) \<Rightarrow> queued = i | None \<Rightarrow> False) then a\<lparr>ac_register := None\<rparr> else a)"

definition actions_release :: "exchange_id \<Rightarrow> socket_addr_v4 \<Rightarrow> socket_addr_v4 \<Rightarrow> actions \<Rightarrow> actions" where
  "actions_release i to entry a = a\<lparr>ac_release := Some (i, to, entry)\<rparr>"

definition take_release_if :: "(socket_addr_v4 \<Rightarrow> bool) \<Rightarrow> actions \<Rightarrow> exchange_id option \<times> actions" where
  "take_release_if pick a =
     (case ac_release a of
        None \<Rightarrow> (None, a)
      | Some (i, to, _) \<Rightarrow> if \<not> pick to then (None, a) else (Some i, a\<lparr>ac_release := None\<rparr>))"

text \<open>One swap per index moves the emptied first slot to the back.\<close>

definition swap :: "nat \<Rightarrow> nat \<Rightarrow> 'a list \<Rightarrow> 'a list" where
  "swap i j xs = xs[i := xs ! j, j := xs ! i]"

definition actions_poll :: "actions \<Rightarrow> action \<times> actions" where
  "actions_poll a =
     (case position (\<lambda>g. g \<noteq> None) (ac_ended a) of
        Some slot \<Rightarrow>
          (case ac_ended a ! slot of
             Some generation \<Rightarrow> (ExchangeEnded (exchange_id_new slot generation), a\<lparr>ac_ended := (ac_ended a)[slot := None]\<rparr>)
           | None \<Rightarrow> (Idle, a))
      | None \<Rightarrow>
          (case ac_events a ! 0 of
             Some event \<Rightarrow>
               (RegistrationAction event,
                a\<lparr>ac_events := fold (\<lambda>index. swap (index - 1) index) [1..<EVENTS] ((ac_events a)[0 := None])\<rparr>)
           | None \<Rightarrow>
               (case ac_held a of
                  Some release \<Rightarrow> (if release then ReleaseHeld else DiscardHeld, a\<lparr>ac_held := None\<rparr>)
                | None \<Rightarrow>
                    (case ac_register a of
                       Some (i, to, ttl) \<Rightarrow> (RegisterAction i to ttl, a\<lparr>ac_register := None\<rparr>)
                     | None \<Rightarrow>
                         (case ac_release a of
                            Some (i, to, entry) \<Rightarrow> (ReleasePrevious i to entry, a\<lparr>ac_release := None\<rparr>)
                          | None \<Rightarrow> (Idle, a))))))"

section \<open>The node\<close>

record node =
  nd_link :: link
  nd_exchanges :: exchanges
  nd_lifecycle :: "lifecycle option"
  nd_actions :: actions
  nd_counters :: node_counters
  nd_latest_register :: "(exchange_id \<times> register_attempt) option"
  nd_now :: instant

datatype inbound =
    InDeliver delivery
  | InNak socket_addr_v4 bvlc_result_code bool
  | InBbmd for_bbmd
  | InDiscarded discard
  | Matched exchange_id "bvll_error + bvll" bool bool
  | Duplicate exchange_id
  | Unmatched socket_addr_v4 "bvlc_result_code option" bool

abbreviation count_in :: "(node_counters \<Rightarrow> node_counters) \<Rightarrow> node \<Rightarrow> node" where
  "count_in f n \<equiv> n\<lparr>nd_counters := f (nd_counters n)\<rparr>"

abbreviation act_in :: "(actions \<Rightarrow> actions) \<Rightarrow> node \<Rightarrow> node" where
  "act_in f n \<equiv> n\<lparr>nd_actions := f (nd_actions n)\<rparr>"

definition node_admit :: "socket_addr_v4 \<Rightarrow> operation \<Rightarrow> duration \<Rightarrow> owner \<Rightarrow> u16 \<Rightarrow> node
    \<Rightarrow> (exchange_refusal + exchange_id) \<times> node" where
  "node_admit peer op timeout owner ttl n =
     (case exchanges_admit peer op timeout owner ttl (nd_exchanges n) of
        (Inl refusal, e) \<Rightarrow>
          (Inl refusal, count_in (counters_exchange_mut op (\<lambda>c. c\<lparr>xc_busy := bump (xc_busy c)\<rparr>)) (n\<lparr>nd_exchanges := e\<rparr>))
      | (Inr exchange, e) \<Rightarrow>
          let n = n\<lparr>nd_exchanges := e\<rparr>;
              attempt = \<lparr>ra_bbmd = peer, ra_ttl = ttl, ra_outcome = Pending, ra_result = None\<rparr>;
              n = (if op = OpRegisterForeignDevice
                   then (count_in (\<lambda>c. c\<lparr>nc_registration_attempts := bump (nc_registration_attempts c),
                                         nc_last_registration_attempt := Some attempt\<rparr>) n)
                        \<lparr>nd_latest_register := Some (exchange, attempt)\<rparr>
                   else n)
          in (Inr exchange, n))"

definition record_register :: "exchange_id \<Rightarrow> attempt_outcome \<Rightarrow> bvlc_result_code option \<Rightarrow> node \<Rightarrow> node" where
  "record_register exchange outcome result n =
     (case nd_latest_register n of
        Some (latest, attempt) \<Rightarrow>
          if latest = exchange
          then let attempt = attempt\<lparr>ra_outcome := outcome, ra_result := result\<rparr>
               in count_in (\<lambda>c. c\<lparr>nc_last_registration_attempt := Some attempt\<rparr>) (n\<lparr>nd_latest_register := Some (latest, attempt)\<rparr>)
          else n
      | None \<Rightarrow> n)"

definition node_held_verdict :: "held_verdict option \<Rightarrow> node \<Rightarrow> node" where
  "node_held_verdict verdict n =
     (case verdict of
        None \<Rightarrow> n
      | Some v \<Rightarrow>
          act_in (actions_held (hv_release v))
            (count_in (\<lambda>c. if hv_release v
                then c\<lparr>nc_broadcasts_released := counter_add (hv_count v) (nc_broadcasts_released c)\<rparr>
                else c\<lparr>nc_broadcasts_discarded := counter_add (hv_count v) (nc_broadcasts_discarded c)\<rparr>) n))"

definition release_ended :: "slot \<Rightarrow> attempt_outcome \<Rightarrow> instant \<Rightarrow> node \<Rightarrow> node" where
  "release_ended s outcome now n =
     (let bbmd = sl_peer s;
          n = act_in (actions_event_if_room (PreviousRelease bbmd outcome)) n in
      case (lk_mode (nd_link n), nd_lifecycle n) of
        (Foreign f, Some lc) \<Rightarrow>
          if fr_bbmd f \<noteq> Some bbmd then n
          else if outcome = Accepted \<or> outcome = Refused then n\<lparr>nd_lifecycle := Some (due_now now lc)\<rparr>
          else if is_sent s then n\<lparr>nd_lifecycle := Some (not_before (instant_saturating_add now (sl_timeout s)) lc)\<rparr>
          else n
      | _ \<Rightarrow> n)"

definition ended_unanswered :: "exchange_id \<Rightarrow> slot \<Rightarrow> attempt_outcome \<Rightarrow> instant \<Rightarrow> node \<Rightarrow> node" where
  "ended_unanswered exchange s outcome now n =
     (let n = (if sl_operation s = OpRegisterForeignDevice then record_register exchange outcome None n else n) in
      case sl_owner s of
        Manual \<Rightarrow> n
      | Release \<Rightarrow>
          release_ended s outcome now
            (count_in (\<lambda>c. c\<lparr>nc_previous_release_unanswered := bump (nc_previous_release_unanswered c)\<rparr>) n)
      | Registration \<Rightarrow>
          (case nd_lifecycle n of
             Some lc \<Rightarrow>
               let (verdict, lc) = lifecycle_failed now (Some outcome) lc
               in node_held_verdict verdict (act_in (actions_event Unanswered) (n\<lparr>nd_lifecycle := Some lc\<rparr>))
           | None \<Rightarrow> n))"

definition time_out :: "nat \<Rightarrow> instant \<Rightarrow> node \<Rightarrow> node" where
  "time_out index now n =
     (let exchange = exchanges_id index (nd_exchanges n);
          (s, e) = retire index now (nd_exchanges n);
          n = count_in (counters_exchange_mut (sl_operation s) (\<lambda>c. c\<lparr>xc_timeouts := bump (xc_timeouts c)\<rparr>))
                (n\<lparr>nd_exchanges := e\<rparr>);
          n = (if sl_owner s = Manual then act_in (actions_ended exchange) n else n)
      in ended_unanswered exchange s TimedOut now n)"

definition start_attempt :: "instant \<Rightarrow> node \<Rightarrow> node" where
  "start_attempt now n =
     (case lk_mode (nd_link n) of
        Foreign f \<Rightarrow>
          (case fr_bbmd f of
             None \<Rightarrow> n
           | Some bbmd \<Rightarrow>
               (case node_admit bbmd OpRegisterForeignDevice (effective_response_timeout f) Registration (fr_ttl f) n of
                  (Inr exchange, n) \<Rightarrow>
                    act_in (actions_register exchange bbmd (fr_ttl f))
                      (n\<lparr>nd_lifecycle := map_option (lifecycle_admitted now) (nd_lifecycle n)\<rparr>)
                | (Inl _, n) \<Rightarrow>
                    (case nd_lifecycle n of
                       Some lc \<Rightarrow>
                         let (verdict, lc) = lifecycle_failed now None lc
                         in node_held_verdict verdict (n\<lparr>nd_lifecycle := Some lc\<rparr>)
                     | None \<Rightarrow> n)))
      | _ \<Rightarrow> n)"

text \<open>What is due first, and the loop that handles it, with \<open>fuel\<close> steps.\<close>

definition node_timeout :: "node \<Rightarrow> (nat \<times> instant) option" where
  "node_timeout n = exchanges_next_deadline (nd_exchanges n)"

definition node_lapse :: "node \<Rightarrow> instant option" where
  "node_lapse n = (case nd_lifecycle n of Some lc \<Rightarrow> lapse_at lc | None \<Rightarrow> None)"

definition node_due :: "node \<Rightarrow> instant option" where
  "node_due n = (case nd_lifecycle n of Some lc \<Rightarrow> due_at lc | None \<Rightarrow> None)"

definition node_first :: "bool \<Rightarrow> node \<Rightarrow> instant option" where
  "node_first start_due n =
     earliest [map_option snd (node_timeout n), node_lapse n, if start_due then node_due n else None]"

definition catch_up_step :: "instant \<Rightarrow> bool \<Rightarrow> node \<Rightarrow> node" where
  "catch_up_step now start_due n =
     (let first_due = node_first start_due n in
      case (case node_timeout n of Some (index, t) \<Rightarrow> if Some t = first_due then Some index else None | None \<Rightarrow> None) of
        Some index \<Rightarrow> time_out index now n
      | None \<Rightarrow>
          if node_lapse n = first_due
          then act_in (actions_event Lapsed) (count_in (\<lambda>c. c\<lparr>nc_lapses := bump (nc_lapses c)\<rparr>)
                 (n\<lparr>nd_lifecycle := map_option lapse (nd_lifecycle n)\<rparr>))
          else start_attempt now n)"

fun catch_up_loop :: "nat \<Rightarrow> instant \<Rightarrow> bool \<Rightarrow> node \<Rightarrow> node" where
  "catch_up_loop 0 now start_due n = n"
| "catch_up_loop (Suc fuel) now start_due n =
     (case node_first start_due n of
        Some t \<Rightarrow> if t \<le> now then catch_up_loop fuel now start_due (catch_up_step now start_due n) else n
      | None \<Rightarrow> n)"

definition catch_up_fuel :: "node \<Rightarrow> nat" where
  "catch_up_fuel n = 2 * length (ex_slots (nd_exchanges n)) + 3"

definition catch_up :: "instant \<Rightarrow> bool \<Rightarrow> node \<Rightarrow> instant \<times> node" where
  "catch_up now start_due n =
     (let now = max now (nd_now n); n = n\<lparr>nd_now := now\<rparr>
      in (now, catch_up_loop (catch_up_fuel n) now start_due n))"

definition advance :: "instant \<Rightarrow> node \<Rightarrow> instant \<times> node" where
  "advance now n = catch_up now True n"

definition node_new :: "nat \<Rightarrow> link \<Rightarrow> instant \<Rightarrow> config_error + node" where
  "node_new x l now =
     try_res (validate l) (\<lambda>_.
       let n = \<lparr>nd_link = l, nd_exchanges = exchanges_new x,
                nd_lifecycle = (case lk_mode l of Foreign f \<Rightarrow> Some (lifecycle_new f now) | _ \<Rightarrow> None),
                nd_actions = actions_new x, nd_counters = NODE_COUNTERS_ZERO, nd_latest_register = None, nd_now = now\<rparr>
       in Inr (snd (advance now n)))"

section \<open>Responses\<close>

definition settle_registration :: "bvlc_result_code \<Rightarrow> bool \<Rightarrow> instant \<Rightarrow> node \<Rightarrow> node" where
  "settle_registration code accepted now n =
     (case nd_lifecycle n of
        None \<Rightarrow> n
      | Some lc \<Rightarrow>
          let ((event, verdict), lc) =
                (if accepted then lifecycle_accepted now lc
                 else let (verdict, lc) = lifecycle_refused now lc in ((Some (RefusedEvent code), verdict), lc));
              n = n\<lparr>nd_lifecycle := Some lc\<rparr>;
              n = (case event of Some e \<Rightarrow> act_in (actions_event e) n | None \<Rightarrow> n)
          in node_held_verdict verdict n)"

definition settle_result :: "exchange_id \<Rightarrow> slot \<Rightarrow> bvlc_result_code \<Rightarrow> instant \<Rightarrow> node \<Rightarrow> node" where
  "settle_result exchange s code now n =
     (let accepted = (code = SUCCESSFUL_COMPLETION);
          outcome = (if accepted then Accepted else Refused) in
      if sl_owner s = Release
      then release_ended s outcome now
             (count_in (\<lambda>c. if accepted then c\<lparr>nc_previous_released := bump (nc_previous_released c)\<rparr>
                else c\<lparr>nc_previous_release_refused := bump (nc_previous_release_refused c)\<rparr>) n)
      else if sl_operation s \<noteq> OpRegisterForeignDevice then n
      else let n = count_in (\<lambda>c. if accepted then c\<lparr>nc_registrations_accepted := bump (nc_registrations_accepted c)\<rparr>
                     else c\<lparr>nc_registrations_refused := bump (nc_registrations_refused c)\<rparr>) n;
               n = record_register exchange outcome (Some code) n
           in if sl_owner s \<noteq> Registration then n else settle_registration code accepted now n)"

definition settle :: "nat \<Rightarrow> bvlc_result_code option \<Rightarrow> bool \<Rightarrow> instant \<Rightarrow> node \<Rightarrow> node" where
  "settle index code valid now n =
     (let exchange = exchanges_id index (nd_exchanges n);
          (s, e) = retire index now (nd_exchanges n);
          n = n\<lparr>nd_exchanges := e\<rparr> in
      if \<not> valid then n
      else let n = count_in (counters_exchange_mut (sl_operation s) (\<lambda>c. case code of
                       Some c' \<Rightarrow> c\<lparr>xc_results := bump (xc_results c), xc_last_result := Some c'\<rparr>
                     | None \<Rightarrow> c\<lparr>xc_acknowledgements := bump (xc_acknowledgements c)\<rparr>)) n
           in case code of None \<Rightarrow> n | Some c \<Rightarrow> settle_result exchange s c now n)"

definition unmatched :: "socket_addr_v4 \<Rightarrow> bvlc_result_code option \<Rightarrow> key option \<Rightarrow> instant \<Rightarrow> node \<Rightarrow> inbound \<times> node" where
  "unmatched peer code k now n =
     (let late = (case k of Some k \<Rightarrow> is_late peer k now (nd_exchanges n) | None \<Rightarrow> False);
          n = count_in (\<lambda>c. c\<lparr>nc_unmatched_responses := bump (nc_unmatched_responses c)\<rparr>) n;
          n = (if late then count_in (\<lambda>c. c\<lparr>nc_late_responses := bump (nc_late_responses c)\<rparr>) n else n);
          n = (if code \<noteq> None then count_in (\<lambda>c. c\<lparr>nc_last_unmatched_result := code\<rparr>) n else n);
          n = (case (lk_mode (nd_link n), nd_lifecycle n) of
                 (Foreign f, Some lc) \<Rightarrow>
                   if code = Some DISTRIBUTE_BROADCAST_TO_NETWORK_NAK \<and> fr_bbmd f = Some peer \<and> fr_retry f = Backoff
                   then (count_in (\<lambda>c. c\<lparr>nc_renewal_hints := bump (nc_renewal_hints c)\<rparr>) n)
                          \<lparr>nd_lifecycle := Some (hint now lc)\<rparr>
                   else n
               | _ \<Rightarrow> n)
      in (Unmatched peer code late, n))"

definition match_response :: "response \<Rightarrow> instant \<Rightarrow> node \<Rightarrow> inbound \<times> node" where
  "match_response r now n =
     (let peer = rs_peer r;
          code = (case rs_message r of Inr (BvlcResult c) \<Rightarrow> Some c | _ \<Rightarrow> None);
          valid = (\<not> isl (rs_message r) \<and> rs_accepted r);
          (k, n) =
            (if valid then (key_of (rs_function r) code, n)
             else
               let n = count_in (\<lambda>c. c\<lparr>nc_malformed_responses := bump (nc_malformed_responses c)\<rparr>) n;
                   n = (case first_with peer (rs_function r) (nd_exchanges n) of
                          Some index \<Rightarrow>
                            count_in (counters_exchange_mut (sl_operation (ex_slots (nd_exchanges n) ! index))
                              (\<lambda>c. c\<lparr>xc_malformed_responses := bump (xc_malformed_responses c)\<rparr>)) n
                        | None \<Rightarrow> n)
               in (map_option KeyOperation (operation_of_ack (rs_function r)), n)) in
      case (case k of Some k \<Rightarrow> exchanges_find peer k (nd_exchanges n) | None \<Rightarrow> None) of
        None \<Rightarrow> if \<not> valid then (Unmatched peer None False, n) else unmatched peer code k now n
      | Some index \<Rightarrow>
          let exchange = exchanges_id index (nd_exchanges n);
              s = ex_slots (nd_exchanges n) ! index in
          if sl_phase s = Admitted
          then if sl_early s \<noteq> None then (Duplicate exchange, n)
               else (Matched exchange (rs_message r) valid False,
                     n\<lparr>nd_exchanges := slot_mut index (\<lambda>s. s\<lparr>sl_early := Some \<lparr>ey_code = code, ey_valid = valid\<rparr>\<rparr>) (nd_exchanges n)\<rparr>)
          else (Matched exchange (rs_message r) valid True, settle index code valid now n))"

definition resolve :: "response \<Rightarrow> instant \<Rightarrow> node \<Rightarrow> inbound \<times> node" where
  "resolve r now n =
     (let (now, n) = catch_up now False n; (inb, n) = match_response r now n; (_, n) = advance now n in (inb, n))"

definition node_receive :: "datagram \<Rightarrow> instant \<Rightarrow> 's policy \<Rightarrow> node \<Rightarrow> 's \<Rightarrow> inbound \<times> node \<times> 's" where
  "node_receive dg now policy n s =
     (let (now, n) = catch_up now False n;
          (rcv, s) = link_receive dg policy (nd_link n) s;
          (inb, n) =
            (case rcv of
               Deliver d \<Rightarrow> (InDeliver d, n)
             | Nak to code mal \<Rightarrow> (InNak to code mal, n)
             | ReceivedBbmd share \<Rightarrow> (InBbmd share, n)
             | Discarded reason \<Rightarrow> (InDiscarded reason, n)
             | ReceivedResponse r \<Rightarrow> match_response r now n);
          (_, n) = advance now n
      in (inb, n, s))"

section \<open>Broadcasts and requests\<close>

definition node_admit_broadcast :: "instant \<Rightarrow> node \<Rightarrow> (send_refusal + admission) \<times> node" where
  "node_admit_broadcast now n =
     (let (now, n) = advance now n in
      case nd_lifecycle n of
        None \<Rightarrow> (Inr AdmitSend, n)
      | Some lc \<Rightarrow>
          let (decision, lc) = lifecycle_admit_broadcast now lc;
              n = n\<lparr>nd_lifecycle := Some lc\<rparr> in
          (case decision of
             DecideHold \<Rightarrow> (Inr AdmitHold, count_in (\<lambda>c. c\<lparr>nc_broadcasts_held := bump (nc_broadcasts_held c)\<rparr>) n)
           | DecideSend lapsed \<Rightarrow>
               (Inr AdmitSend,
                if lapsed then count_in (\<lambda>c. c\<lparr>nc_broadcasts_unregistered := bump (nc_broadcasts_unregistered c)\<rparr>) n else n)
           | DecideFull \<Rightarrow>
               (Inl HoldFull, count_in (\<lambda>c. c\<lparr>nc_broadcasts_hold_full := bump (nc_broadcasts_hold_full c)\<rparr>) n)))"

definition begin_exchange :: "socket_addr_v4 \<Rightarrow> bvll \<Rightarrow> duration \<Rightarrow> instant \<Rightarrow> node
    \<Rightarrow> (exchange_refusal + (exchange_id \<times> outgoing)) \<times> node" where
  "begin_exchange peer req timeout now n =
     (let (_, n) = advance now n in
      case operation_of (bvll_function req) of
        None \<Rightarrow> (Inl NotARequest, n)
      | Some op \<Rightarrow>
          if (case lk_mode (nd_link n) of Foreign f \<Rightarrow> fr_bbmd f = Some peer | _ \<Rightarrow> False) \<and> answered_by_success op
          then (Inl ManagedRegistration, n)
          else
            let ttl = (case req of RegisterForeignDevice ttl \<Rightarrow> ttl | _ \<Rightarrow> 0) in
            (case node_admit peer op timeout Manual ttl n of
               (Inl refusal, n) \<Rightarrow> (Inl refusal, n)
             | (Inr exchange, n) \<Rightarrow> (Inr (exchange, \<lparr>og_to = peer, og_message = req\<rparr>), n)))"

definition exchange_sent :: "exchange_id \<Rightarrow> instant \<Rightarrow> node \<Rightarrow> bool \<times> node" where
  "exchange_sent exchange now n =
     (let (now, n) = advance now n in
      case exchanges_live exchange (nd_exchanges n) of
        None \<Rightarrow> (False, n)
      | Some index \<Rightarrow>
          let s = ex_slots (nd_exchanges n) ! index in
          if sl_phase s \<noteq> Admitted then (False, n)
          else
            let n = n\<lparr>nd_exchanges := slot_mut index (\<lambda>s. s\<lparr>sl_phase := Sent (instant_saturating_add now (sl_timeout s)),
                        sl_early := None\<rparr>) (nd_exchanges n)\<rparr>;
                n = count_in (counters_exchange_mut (sl_operation s) (\<lambda>c. c\<lparr>xc_sent := bump (xc_sent c)\<rparr>)) n;
                n = (if sl_owner s = Registration
                     then n\<lparr>nd_lifecycle := map_option lifecycle_sent (nd_lifecycle n)\<rparr> else n);
                n = (case sl_early s of Some e \<Rightarrow> settle index (ey_code e) (ey_valid e) now n | None \<Rightarrow> n);
                (_, n) = advance now n
            in (sl_early s \<noteq> None, n))"

definition exchange_failed :: "exchange_id \<Rightarrow> local_failure \<Rightarrow> instant \<Rightarrow> node \<Rightarrow> node" where
  "exchange_failed exchange why now n =
     (let (now, n) = advance now n in
      case exchanges_live exchange (nd_exchanges n) of
        None \<Rightarrow> n
      | Some index \<Rightarrow>
          let (s, e) = retire index now (nd_exchanges n);
              n = n\<lparr>nd_exchanges := e\<rparr>;
              (outcome, n) =
                (case why of
                   SendFailed \<Rightarrow>
                     (LocalError, count_in (counters_exchange_mut (sl_operation s)
                        (\<lambda>c. c\<lparr>xc_local_errors := bump (xc_local_errors c)\<rparr>)) n)
                 | GaveUp \<Rightarrow> (AttemptCancelled, n))
          in snd (advance now (ended_unanswered exchange s outcome now n)))"

definition node_next_deadline :: "node \<Rightarrow> instant option" where
  "node_next_deadline n = earliest [map_option snd (node_timeout n), node_lapse n, node_due n]"

definition on_deadline :: "instant \<Rightarrow> node \<Rightarrow> node" where
  "on_deadline now n = snd (advance now n)"

section \<open>Moves\<close>

definition release_previous :: "socket_addr_v4 \<Rightarrow> duration \<Rightarrow> node \<Rightarrow> node" where
  "release_previous bbmd timeout n =
     (let n = count_in (\<lambda>c. c\<lparr>nc_previous_releases := bump (nc_previous_releases c)\<rparr>) n;
          entry = lk_address (nd_link n) in
      case node_admit bbmd OpDeleteFdtEntry timeout Release 0 n of
        (Inr exchange, n) \<Rightarrow> act_in (actions_release exchange bbmd entry) n
      | (Inl _, n) \<Rightarrow>
          act_in (actions_event_if_room (PreviousRelease bbmd AttemptCancelled))
            (count_in (\<lambda>c. c\<lparr>nc_previous_release_unanswered := bump (nc_previous_release_unanswered c)\<rparr>) n))"

text \<open>The automatic attempt in flight ends as cancelled.\<close>

definition cancel_registration :: "instant \<Rightarrow> node \<Rightarrow> node" where
  "cancel_registration now n =
     (case exchanges_registration (nd_exchanges n) of
        None \<Rightarrow> n
      | Some index \<Rightarrow>
          let exchange = exchanges_id index (nd_exchanges n);
              n = n\<lparr>nd_exchanges := snd (retire index now (nd_exchanges n))\<rparr>;
              n = act_in (forget_register exchange) n
          in record_register exchange AttemptCancelled None n)"

text \<open>A release queued and never polled is dropped when the move displaces it or returns to its BBMD.\<close>

definition drop_queued_release :: "(socket_addr_v4 \<Rightarrow> bool) \<Rightarrow> instant \<Rightarrow> node \<Rightarrow> node" where
  "drop_queued_release pick now n =
     (let (queued, a) = take_release_if pick (nd_actions n);
          n = n\<lparr>nd_actions := a\<rparr> in
      case queued of
        None \<Rightarrow> n
      | Some exchange \<Rightarrow>
          (case exchanges_live exchange (nd_exchanges n) of
             None \<Rightarrow> n
           | Some index \<Rightarrow>
               let (s, e) = retire index now (nd_exchanges n)
               in ended_unanswered exchange s AttemptCancelled now (n\<lparr>nd_exchanges := e\<rparr>)))"

definition node_retarget :: "foreign \<Rightarrow> instant \<Rightarrow> node \<Rightarrow> (config_error + unit) \<times> node" where
  "node_retarget f now n =
     (case lk_mode (nd_link n) of
        Foreign old \<Rightarrow>
          let l = (nd_link n)\<lparr>lk_mode := Foreign f\<rparr> in
          (case validate l of
             Inl e \<Rightarrow> (Inl e, n)
           | Inr _ \<Rightarrow>
               let (now, n) = catch_up now False n;
                   n = cancel_registration now n;
                   left = (case fr_bbmd old of
                             Some b \<Rightarrow> if fr_release_previous f \<and> fr_bbmd f \<noteq> Some b then Some b else None
                           | None \<Rightarrow> None);
                   n = drop_queued_release (\<lambda>to. left \<noteq> None \<or> fr_bbmd f = Some to) now n;
                   n = n\<lparr>nd_lifecycle := map_option (lifecycle_retarget f now (fr_bbmd old = fr_bbmd f)) (nd_lifecycle n)\<rparr>;
                   n = n\<lparr>nd_link := l\<rparr>;
                   (_, n) = advance now n
               in (Inr (), case left of Some b \<Rightarrow> release_previous b (effective_response_timeout old) n | None \<Rightarrow> n))
      | _ \<Rightarrow> (Inl NotForeign, n))"

definition set_subnet :: "local_subnet \<Rightarrow> node \<Rightarrow> (config_error + unit) \<times> node" where
  "set_subnet subnet n =
     (let l = (nd_link n)\<lparr>lk_subnet := subnet\<rparr> in
      case validate l of Inl e \<Rightarrow> (Inl e, n) | Inr _ \<Rightarrow> (Inr (), n\<lparr>nd_link := l\<rparr>))"

definition poll_action :: "node \<Rightarrow> action \<times> node" where
  "poll_action n = (let (a, q) = actions_poll (nd_actions n) in (a, n\<lparr>nd_actions := q\<rparr>))"

definition node_registration :: "instant \<Rightarrow> node \<Rightarrow> registration_snapshot option" where
  "node_registration now n = map_option (lifecycle_snapshot (max now (nd_now n))) (nd_lifecycle n)"

definition take_counters :: "node \<Rightarrow> node_counters \<times> node" where
  "take_counters n = (nd_counters n, n\<lparr>nd_counters := NODE_COUNTERS_ZERO\<rparr>)"

end
