(* ===== verification/Bip_Node_Inv.thy ===== *)
theory Bip_Node_Inv
  imports Bip_Node
begin

text \<open>
  What every call of a B/IP node keeps, and that it leaves nothing due: no two live exchanges
  could be answered by one response, a registration exchange is in flight exactly when the
  lifecycle has an attempt, the lifecycle is a run of \<open>Bip_Registration\<close>, and the next deadline
  lies in the future.
\<close>

section \<open>What the helpers leave alone\<close>

lemma record_register_same [simp]:
  "nd_exchanges (record_register i out res n) = nd_exchanges n" "nd_lifecycle (record_register i out res n) = nd_lifecycle n"
  "nd_link (record_register i out res n) = nd_link n" "nd_now (record_register i out res n) = nd_now n"
  "nd_actions (record_register i out res n) = nd_actions n"
  by (auto simp: record_register_def Let_def split: option.split)

lemma node_held_verdict_same [simp]:
  "nd_exchanges (node_held_verdict v n) = nd_exchanges n" "nd_lifecycle (node_held_verdict v n) = nd_lifecycle n"
  "nd_link (node_held_verdict v n) = nd_link n" "nd_now (node_held_verdict v n) = nd_now n"
  "ac_ended (nd_actions (node_held_verdict v n)) = ac_ended (nd_actions n)"
  "ac_events (nd_actions (node_held_verdict v n)) = ac_events (nd_actions n)"
  by (auto simp: node_held_verdict_def actions_held_def split: option.split)

lemma release_ended_same [simp]:
  "nd_exchanges (release_ended s out now n) = nd_exchanges n" "nd_link (release_ended s out now n) = nd_link n"
  "nd_now (release_ended s out now n) = nd_now n"
  by (auto simp: release_ended_def Let_def split: mode.split option.split)

lemma ended_unanswered_same [simp]:
  "nd_exchanges (ended_unanswered i s out now n) = nd_exchanges n" "nd_link (ended_unanswered i s out now n) = nd_link n"
  "nd_now (ended_unanswered i s out now n) = nd_now n"
  by (auto simp: ended_unanswered_def Let_def split: owner.split option.split prod.split)

lemma settle_registration_same [simp]:
  "nd_exchanges (settle_registration code acc now n) = nd_exchanges n" "nd_link (settle_registration code acc now n) = nd_link n"
  "nd_now (settle_registration code acc now n) = nd_now n"
  by (auto simp: settle_registration_def Let_def split: option.split prod.split)

lemma settle_result_same [simp]:
  "nd_exchanges (settle_result i s code now n) = nd_exchanges n" "nd_link (settle_result i s code now n) = nd_link n"
  "nd_now (settle_result i s code now n) = nd_now n"
  by (auto simp: settle_result_def Let_def)

section \<open>The invariant\<close>

text \<open>An exchange's owner fixes its operation; only a table read keeps an early response that is no result.\<close>

definition slot_ok :: "slot \<Rightarrow> bool" where
  "slot_ok s \<longleftrightarrow> (sl_owner s = Registration \<longrightarrow> sl_operation s = OpRegisterForeignDevice)
     \<and> (sl_owner s = Release \<longrightarrow> sl_operation s = OpDeleteFdtEntry)
     \<and> (\<forall>e. sl_early s = Some e \<and> answered_by_success (sl_operation s) \<longrightarrow> ey_valid e \<and> ey_code e \<noteq> None)"

definition registers :: "slot \<Rightarrow> bool" where
  "registers s \<longleftrightarrow> slot_is_live s \<and> sl_owner s = Registration"

definition exchanges_ok :: "exchanges \<Rightarrow> bool" where
  "exchanges_ok e \<longleftrightarrow> unambiguous e \<and> (\<forall>s \<in> set (ex_slots e). slot_ok s) \<and> length (filter registers (ex_slots e)) \<le> 1"

definition in_flight :: "node \<Rightarrow> bool" where
  "in_flight n \<longleftrightarrow> list_ex registers (ex_slots (nd_exchanges n))"

definition has_attempt :: "node \<Rightarrow> bool" where
  "has_attempt n = (case nd_lifecycle n of Some lc \<Rightarrow> lf_attempt lc \<noteq> None | None \<Rightarrow> False)"

text \<open>The lifecycle of a foreign device, and of nothing else; without a BBMD nothing is planned.\<close>

definition lifecycle_ok :: "node \<Rightarrow> bool" where
  "lifecycle_ok n = (case lk_mode (nd_link n) of
      Foreign f \<Rightarrow> (\<exists>lc ss pend. nd_lifecycle n = Some lc \<and> life lc ss pend (nd_now n)
        \<and> (fr_bbmd f = None \<longrightarrow> lf_next lc = None \<and> lf_attempt lc = None))
    | _ \<Rightarrow> nd_lifecycle n = None)"

definition actions_ok :: "nat \<Rightarrow> node \<Rightarrow> bool" where
  "actions_ok x n \<longleftrightarrow> length (ex_slots (nd_exchanges n)) = x \<and> length (ac_ended (nd_actions n)) = x
     \<and> length (ac_events (nd_actions n)) = EVENTS"

definition node_parts :: "nat \<Rightarrow> node \<Rightarrow> bool" where
  "node_parts x n \<longleftrightarrow> exchanges_ok (nd_exchanges n) \<and> lifecycle_ok n \<and> actions_ok x n \<and> validate (nd_link n) = Inr ()"

definition node_inv :: "nat \<Rightarrow> node \<Rightarrow> bool" where
  "node_inv x n \<longleftrightarrow> node_parts x n \<and> (in_flight n \<longleftrightarrow> has_attempt n)"

text \<open>Changing the lifecycle by one of its calls, at the node's time.\<close>

lemma lifecycle_ok_step:
  assumes "lifecycle_ok n" "nd_link n' = nd_link n" "nd_now n' = nd_now n" "nd_lifecycle n' = map_option f (nd_lifecycle n)"
    and "\<And>lc ss pend. nd_lifecycle n = Some lc \<Longrightarrow> life lc ss pend (nd_now n) \<Longrightarrow> \<exists>ss pend. life (f lc) ss pend (nd_now n)"
    and "\<And>lc. nd_lifecycle n = Some lc \<Longrightarrow> lf_next lc = None \<Longrightarrow> lf_attempt lc = None \<Longrightarrow> lf_next (f lc) = None \<and> lf_attempt (f lc) = None"
  shows "lifecycle_ok n'"
proof (cases "lk_mode (nd_link n)")
  case (Foreign g)
  then obtain lc ss pend where lc: "nd_lifecycle n = Some lc" "life lc ss pend (nd_now n)"
      "fr_bbmd g = None \<longrightarrow> lf_next lc = None \<and> lf_attempt lc = None"
    using assms(1) by (auto simp: lifecycle_ok_def)
  with assms(5) [OF lc(1,2)] assms(6) [OF lc(1)] Foreign show ?thesis by (auto simp: lifecycle_ok_def assms(2,3,4))
qed (use assms(1,2,4) in \<open>auto simp: lifecycle_ok_def\<close>)

lemma lifecycle_ok_same:
  "lifecycle_ok n \<Longrightarrow> nd_link n' = nd_link n \<Longrightarrow> nd_now n' = nd_now n \<Longrightarrow> nd_lifecycle n' = nd_lifecycle n \<Longrightarrow> lifecycle_ok n'"
  by (simp add: lifecycle_ok_def split: mode.splits)

lemma lifecycle_cases:
  assumes "lifecycle_ok n"
  obtains "nd_lifecycle n = None" "\<not> is_foreign (lk_mode (nd_link n))"
  | f lc ss pend where "lk_mode (nd_link n) = Foreign f" "nd_lifecycle n = Some lc" "life lc ss pend (nd_now n)"
      "fr_bbmd f = None \<longrightarrow> lf_next lc = None \<and> lf_attempt lc = None"
  using assms unfolding lifecycle_ok_def is_foreign_def by (cases "lk_mode (nd_link n)") auto

text \<open>With an attempt in flight the BBMD is known, so any outcome of it may be recorded.\<close>

lemma lifecycle_ok_ended:
  assumes "lifecycle_ok n" "has_attempt n" "nd_link n' = nd_link n" "nd_now n' = nd_now n"
    and "nd_lifecycle n' = map_option f (nd_lifecycle n)"
    and "\<And>lc ss pend. life lc ss pend (nd_now n) \<Longrightarrow> \<exists>ss pend. life (f lc) ss pend (nd_now n)"
  shows "lifecycle_ok n'"
  using assms(1)
proof (cases rule: lifecycle_cases)
  case (2 g lc ss pend)
  then have "fr_bbmd g \<noteq> None" using assms(2) by (auto simp: has_attempt_def)
  with 2 assms(6) [OF 2(3)] show ?thesis by (auto simp: lifecycle_ok_def assms(3,4,5))
qed (use assms(2) in \<open>simp add: has_attempt_def\<close>)

section \<open>Exchanges that end\<close>

lemma filter_one_unique:
  assumes "length (filter p xs) \<le> 1" "i < length xs" "p (xs ! i)"
  shows "\<not> p y \<Longrightarrow> \<not> list_ex p (xs[i := y])" and "\<forall>j < length xs. p (xs ! j) \<longrightarrow> j = i"
proof -
  show "\<not> p y \<Longrightarrow> \<not> list_ex p (xs[i := y])"
  proof -
    assume "\<not> p y"
    then have "length (filter p (xs[i := y])) = 0" using filter_update_less [of i xs p y] assms by linarith
    then show ?thesis by (auto simp: list_ex_iff filter_empty_conv)
  qed
  show "\<forall>j < length xs. p (xs ! j) \<longrightarrow> j = i"
  proof (intro allI impI, rule ccontr)
    fix j assume j: "j < length xs" "p (xs ! j)" "j \<noteq> i"
    have "card {j. j < length xs \<and> p (xs ! j)} \<le> 1" using assms(1) by (simp add: length_filter_conv_card)
    moreover have "{i, j} \<subseteq> {j. j < length xs \<and> p (xs ! j)}" using assms(2,3) j by auto
    then have "card {i, j} \<le> card {j. j < length xs \<and> p (xs ! j)}" by (intro card_mono) simp_all
    ultimately show False using j(3) by simp
  qed
qed

lemma list_ex_update_same:
  "i < length xs \<Longrightarrow> p (xs ! i) = p y \<Longrightarrow> list_ex p (xs[i := y]) = list_ex p xs"
  using filter_update_same [of i xs p y] by (auto simp: list_ex_iff) (metis filter_False filter_empty_conv length_0_conv)+

lemma exchanges_okD:
  assumes "exchanges_ok e"
  shows "unambiguous e" and "\<forall>s \<in> set (ex_slots e). slot_ok s" and "length (filter registers (ex_slots e)) \<le> 1"
  using assms unfolding exchanges_ok_def by blast+

lemma slot_ok_retired: "slot_ok s \<Longrightarrow> slot_ok (retired_slot now s)"
  by (simp add: slot_ok_def)

lemma registers_retired [simp]: "\<not> registers (retired_slot now s)"
  by (simp add: registers_def)

lemma exchanges_ok_retire:
  assumes "exchanges_ok e" "i < length (ex_slots e)"
  shows "exchanges_ok (snd (retire i now e))"
proof -
  note ok = exchanges_okD [OF assms(1)]
  have "length (filter registers ((ex_slots e)[i := retired_slot now (ex_slots e ! i)])) \<le> 1"
    using ok(3) assms(2) filter_update_less [of i "ex_slots e" registers "retired_slot now (ex_slots e ! i)"]
      filter_update_same [of i "ex_slots e" registers "retired_slot now (ex_slots e ! i)"]
    by (cases "registers (ex_slots e ! i)") auto
  moreover have "\<forall>s \<in> set ((ex_slots e)[i := retired_slot now (ex_slots e ! i)]). slot_ok s"
    using ok(2) assms(2) slot_ok_retired by (auto dest!: set_update_subset_insert [THEN subsetD])
  ultimately show ?thesis using unambiguous_retire [OF ok(1) assms(2)] by (simp add: exchanges_ok_def)
qed

lemma in_flight_retire:
  assumes "exchanges_ok e" "i < length (ex_slots e)"
  shows "list_ex registers (ex_slots (snd (retire i now e)))
    \<longleftrightarrow> list_ex registers (ex_slots e) \<and> \<not> registers (ex_slots e ! i)"
  using filter_one_unique(1) [OF exchanges_okD(3) [OF assms(1)] assms(2)]
    list_ex_update_same [OF assms(2), of registers "retired_slot now (ex_slots e ! i)"]
  by (cases "registers (ex_slots e ! i)") auto

text \<open>A change to a slot that keeps its peer, operation and owner, and whether it is live.\<close>

lemma exchanges_ok_mut:
  assumes "exchanges_ok e" "i < length (ex_slots e)"
    and "slot_is_live (f (ex_slots e ! i)) = slot_is_live (ex_slots e ! i)"
    and "sl_peer (f (ex_slots e ! i)) = sl_peer (ex_slots e ! i)" "sl_operation (f (ex_slots e ! i)) = sl_operation (ex_slots e ! i)"
    and "sl_owner (f (ex_slots e ! i)) = sl_owner (ex_slots e ! i)"
    and "slot_ok (ex_slots e ! i) \<Longrightarrow> slot_ok (f (ex_slots e ! i))"
  shows "exchanges_ok (slot_mut i f e)" and "list_ex registers (ex_slots (slot_mut i f e)) = list_ex registers (ex_slots e)"
proof -
  note ok = exchanges_okD [OF assms(1)]
  have r: "registers (ex_slots e ! i) = registers (f (ex_slots e ! i))" using assms(3,6) by (simp add: registers_def)
  then show "list_ex registers (ex_slots (slot_mut i f e)) = list_ex registers (ex_slots e)"
    using list_ex_update_same [OF assms(2)] by (simp add: slot_mut_def)
  have "unambiguous (slot_mut i f e)" by (rule unambiguous_slot_mut [OF ok(1) assms(2)]) (use assms in simp_all)
  moreover have "\<forall>s \<in> set ((ex_slots e)[i := f (ex_slots e ! i)]). slot_ok s"
    using ok(2) assms(2,7) by (auto dest!: set_update_subset_insert [THEN subsetD])
  moreover have "length (filter registers ((ex_slots e)[i := f (ex_slots e ! i)])) \<le> 1"
    using ok(3) filter_update_same [of i "ex_slots e" registers, OF assms(2) r] by simp
  ultimately show "exchanges_ok (slot_mut i f e)" by (simp add: exchanges_ok_def slot_mut_def)
qed

lemma exchanges_ok_admit:
  assumes "exchanges_ok e" "exchanges_admit peer op timeout owner ttl e = (r, e')"
    and "owner = Registration \<longrightarrow> op = OpRegisterForeignDevice \<and> \<not> list_ex registers (ex_slots e)"
    and "owner = Release \<longrightarrow> op = OpDeleteFdtEntry"
  shows "exchanges_ok e'" and "length (ex_slots e') = length (ex_slots e)" and "sent_count e' = sent_count e"
    and "list_ex registers (ex_slots e') \<longleftrightarrow> list_ex registers (ex_slots e) \<or> (owner = Registration \<and> \<not> isl r)"
proof -
  note ok = exchanges_okD [OF assms(1)]
  from assms(2) have all: "exchanges_ok e' \<and> length (ex_slots e') = length (ex_slots e) \<and> sent_count e' = sent_count e
     \<and> (list_ex registers (ex_slots e') \<longleftrightarrow> list_ex registers (ex_slots e) \<or> (owner = Registration \<and> \<not> isl r))"
  proof (cases rule: exchanges_admit_cases)
    case (1 refusal)
    then show ?thesis using assms(1) by simp
  next
    case (2 index s)
    have s: "slot_ok s" "registers s \<longleftrightarrow> owner = Registration" "\<not> is_sent s" "\<not> is_sent (ex_slots e ! index)" "\<not> registers (ex_slots e ! index)"
      using 2(3,4) assms(3,4) by (auto simp: slot_ok_def registers_def slot_is_live_def is_sent_def)
    have len: "length (filter registers ((ex_slots e)[index := s])) \<le> 1
        \<and> (list_ex registers ((ex_slots e)[index := s]) \<longleftrightarrow> list_ex registers (ex_slots e) \<or> owner = Registration)"
    proof (cases "owner = Registration")
      case True
      then have none: "length (filter registers (ex_slots e)) = 0"
        using assms(3) by (auto simp: filter_empty_conv list_ex_iff)
      have "length (filter registers ((ex_slots e)[index := s])) = 1"
        using filter_update_less [of index "(ex_slots e)[index := s]" registers "ex_slots e ! index"] 2(2) s none True
        by simp
      moreover have "list_ex registers ((ex_slots e)[index := s])"
        using s(2) True 2(2) by (auto simp: list_ex_iff intro: bexI [OF _ set_update_memI])
      ultimately show ?thesis using True by simp
    next
      case False
      then show ?thesis using ok(3) s 2(2) filter_update_same [of index "ex_slots e" registers s]
          list_ex_update_same [of index "ex_slots e" registers s] by simp
    qed
    have "\<forall>x \<in> set ((ex_slots e)[index := s]). slot_ok x"
      using ok(2) s(1) by (auto dest!: set_update_subset_insert [THEN subsetD])
    then show ?thesis using unambiguous_admit [OF ok(1) assms(2)] len 2(1,2,5) s(3,4) filter_update_same [of index "ex_slots e" is_sent s]
      by (simp add: exchanges_ok_def sent_count_def)
  qed
  show "exchanges_ok e'" "length (ex_slots e') = length (ex_slots e)" "sent_count e' = sent_count e"
    "list_ex registers (ex_slots e') \<longleftrightarrow> list_ex registers (ex_slots e) \<or> (owner = Registration \<and> \<not> isl r)"
    using all by simp_all
qed

section \<open>What the helpers do to the lifecycle\<close>

lemma actions_lengths [simp]:
  "length (ac_ended (actions_ended i a)) = length (ac_ended a)" "ac_events (actions_ended i a) = ac_events a"
  "ac_ended (actions_event e a) = ac_ended a" "length (ac_events (actions_event e a)) = length (ac_events a)"
  "ac_ended (actions_event_if_room e a) = ac_ended a" "length (ac_events (actions_event_if_room e a)) = length (ac_events a)"
  "ac_ended (actions_held r a) = ac_ended a" "ac_events (actions_held r a) = ac_events a"
  "ac_ended (actions_register i to ttl a) = ac_ended a" "ac_events (actions_register i to ttl a) = ac_events a"
  "ac_ended (forget_register i a) = ac_ended a" "ac_events (forget_register i a) = ac_events a"
  "ac_ended (actions_release i to en a) = ac_ended a" "ac_events (actions_release i to en a) = ac_events a"
  "ac_ended (snd (take_release_if pick a)) = ac_ended a" "ac_events (snd (take_release_if pick a)) = ac_events a"
  by (auto simp: actions_ended_def actions_event_def actions_event_if_room_def actions_held_def actions_register_def
      forget_register_def actions_release_def take_release_if_def split: option.split)

lemma lifecycle_small_steps [simp]:
  "lf_attempt (due_now now lc) = lf_attempt lc" "lf_attempt (not_before t lc) = lf_attempt lc" "lf_attempt (hint now lc) = lf_attempt lc"
  "lapse_at (due_now now lc) = lapse_at lc" "lapse_at (not_before t lc) = lapse_at lc" "lapse_at (hint now lc) = lapse_at lc"
  "lf_next lc = None \<Longrightarrow> due_now now lc = lc" "lf_next lc = None \<Longrightarrow> not_before t lc = lc" "lf_next lc = None \<Longrightarrow> hint now lc = lc"
  by (simp_all add: due_now_def not_before_def hint_def lapse_at_def Let_def)

lemma release_ended_lifecycle:
  "\<exists>g \<in> {\<lambda>lc. lc, due_now now, not_before (instant_saturating_add now (sl_timeout s))}.
     nd_lifecycle (release_ended s out now n) = map_option g (nd_lifecycle n)"
  by (auto simp: release_ended_def Let_def option.map_ident split: mode.split option.split)

lemma release_ended_keeps:
  assumes "lifecycle_ok n" "now = nd_now n"
  shows "lifecycle_ok (release_ended s out now n)" and "has_attempt (release_ended s out now n) = has_attempt n"
    and "node_lapse (release_ended s out now n) = node_lapse n" and "actions_ok x (release_ended s out now n) = actions_ok x n"
proof -
  obtain g where g: "g \<in> {\<lambda>lc. lc, due_now now, not_before (instant_saturating_add now (sl_timeout s))}"
      "nd_lifecycle (release_ended s out now n) = map_option g (nd_lifecycle n)"
    using release_ended_lifecycle [of now s out n] by blast
  show "lifecycle_ok (release_ended s out now n)"
    by (rule lifecycle_ok_step [OF assms(1), where f = g])
       (use g assms(2) in \<open>auto intro: life.due_now life.not_before\<close>)
  show "has_attempt (release_ended s out now n) = has_attempt n" "node_lapse (release_ended s out now n) = node_lapse n"
    using g by (auto simp: has_attempt_def node_lapse_def split: option.split)
  show "actions_ok x (release_ended s out now n) = actions_ok x n"
    by (auto simp: release_ended_def actions_ok_def Let_def split: mode.split option.split)
qed

lemma failed_lapse [simp]: "lapse_at (snd (lifecycle_failed now out lc)) = lapse_at lc"
  by (simp add: lapse_at_def lifecycle_failed_def Let_def)

lemma ended_unanswered_keeps:
  assumes "lifecycle_ok n" "now = nd_now n" "sl_owner s = Registration \<longrightarrow> has_attempt n"
  shows "lifecycle_ok (ended_unanswered i s out now n)"
    and "has_attempt (ended_unanswered i s out now n) \<longleftrightarrow> has_attempt n \<and> sl_owner s \<noteq> Registration"
    and "node_lapse (ended_unanswered i s out now n) = node_lapse n"
    and "actions_ok x (ended_unanswered i s out now n) = actions_ok x n"
proof -
  define m where "m = (if sl_operation s = OpRegisterForeignDevice then record_register i out None n else n)"
  have m: "nd_exchanges m = nd_exchanges n" "nd_lifecycle m = nd_lifecycle n" "nd_link m = nd_link n" "nd_now m = nd_now n"
      "nd_actions m = nd_actions n"
    by (simp_all add: m_def)
  have ok: "lifecycle_ok m" by (rule lifecycle_ok_same [OF assms(1)]) (simp_all add: m)
  have same: "has_attempt m = has_attempt n" "node_lapse m = node_lapse n" "actions_ok x m = actions_ok x n"
    by (simp_all add: has_attempt_def node_lapse_def actions_ok_def m)
  have "lifecycle_ok (ended_unanswered i s out now n)
      \<and> (has_attempt (ended_unanswered i s out now n) \<longleftrightarrow> has_attempt n \<and> sl_owner s \<noteq> Registration)
      \<and> node_lapse (ended_unanswered i s out now n) = node_lapse n
      \<and> actions_ok x (ended_unanswered i s out now n) = actions_ok x n"
  proof (cases "sl_owner s")
    case Manual
    then show ?thesis using ok same by (simp add: ended_unanswered_def flip: m_def)
  next
    case Release
    let ?c = "count_in (\<lambda>c. c\<lparr>nc_previous_release_unanswered := bump (nc_previous_release_unanswered c)\<rparr>) m"
    have "lifecycle_ok ?c" by (rule lifecycle_ok_same [OF ok]) simp_all
    then show ?thesis using Release same release_ended_keeps [of ?c now] m(4) assms(2)
      by (simp add: ended_unanswered_def Let_def has_attempt_def node_lapse_def actions_ok_def flip: m_def)
  next
    case Registration
    then obtain lc where lc: "nd_lifecycle m = Some lc" using assms(3) m(2) by (auto simp: has_attempt_def split: option.splits)
    let ?lc = "snd (lifecycle_failed now (Some out) lc)"
    define e where "e = ended_unanswered i s out now n"
    have e: "nd_lifecycle e = Some ?lc" "actions_ok x e = actions_ok x m"
      using lc Registration m by (auto simp: e_def ended_unanswered_def Let_def actions_ok_def split_beta simp flip: m_def)
    have "lifecycle_ok e"
      by (rule lifecycle_ok_ended [OF ok, where f = "\<lambda>lc. snd (lifecycle_failed now (Some out) lc)"])
         (use same assms(3) Registration e lc in \<open>auto simp: e_def m assms(2) intro: life.failed\<close>)
    then show ?thesis using e same lc m(2) Registration
      by (simp add: has_attempt_def node_lapse_def ended_fields flip: e_def)
  qed
  then show "lifecycle_ok (ended_unanswered i s out now n)"
    "has_attempt (ended_unanswered i s out now n) \<longleftrightarrow> has_attempt n \<and> sl_owner s \<noteq> Registration"
    "node_lapse (ended_unanswered i s out now n) = node_lapse n"
    "actions_ok x (ended_unanswered i s out now n) = actions_ok x n"
    by simp_all
qed

section \<open>The steps of catching up\<close>

lemma node_invD:
  assumes "node_inv x n"
  shows "exchanges_ok (nd_exchanges n)" and "lifecycle_ok n" and "actions_ok x n" and "validate (nd_link n) = Inr ()"
    and "in_flight n = has_attempt n"
  using assms unfolding node_inv_def node_parts_def by blast+

lemma node_invI:
  "exchanges_ok (nd_exchanges n) \<Longrightarrow> lifecycle_ok n \<Longrightarrow> actions_ok x n \<Longrightarrow> validate (nd_link n) = Inr () \<Longrightarrow>
     in_flight n = has_attempt n \<Longrightarrow> node_inv x n"
  by (simp add: node_inv_def node_parts_def)

lemma registers_live: "slot_is_live s \<Longrightarrow> registers s \<longleftrightarrow> sl_owner s = Registration"
  by (simp add: registers_def)

lemma registers_in_flight: "i < length (ex_slots (nd_exchanges n)) \<Longrightarrow> registers (ex_slots (nd_exchanges n) ! i) \<Longrightarrow> in_flight n"
  by (auto simp: in_flight_def list_ex_iff)

text \<open>An exchange that ends without an answer, whatever the counters say.\<close>

lemma end_exchange:
  assumes inv: "node_inv x n" and i: "i < length (ex_slots (nd_exchanges n))" "slot_is_live (ex_slots (nd_exchanges n) ! i)"
    and m: "nd_exchanges m = snd (retire i now (nd_exchanges n))" "nd_lifecycle m = nd_lifecycle n" "nd_link m = nd_link n"
      "nd_now m = nd_now n" "actions_ok x m" and now: "now = nd_now n"
  shows "node_inv x (ended_unanswered ex (ex_slots (nd_exchanges n) ! i) out now m)"
    and "node_lapse (ended_unanswered ex (ex_slots (nd_exchanges n) ! i) out now m) = node_lapse n"
proof -
  note d = node_invD [OF inv] and r = registers_live [OF i(2)]
  let ?s = "ex_slots (nd_exchanges n) ! i"
  have ok: "lifecycle_ok m" by (rule lifecycle_ok_same [OF d(2)]) (simp_all add: m)
  have att: "has_attempt m = has_attempt n" by (simp add: has_attempt_def m)
  have reg: "sl_owner ?s = Registration \<longrightarrow> has_attempt m"
    using registers_in_flight [OF i(1)] r d(5) att by simp
  have fl: "in_flight m \<longleftrightarrow> in_flight n \<and> sl_owner ?s \<noteq> Registration"
    using in_flight_retire [OF d(1) i(1), of now] r by (simp add: in_flight_def m)
  have now_m: "now = nd_now m" using m(4) now by simp
  note k = ended_unanswered_keeps [OF ok now_m reg]
  show "node_inv x (ended_unanswered ex ?s out now m)"
    using k d fl att m exchanges_ok_retire [OF d(1) i(1)] now by (intro node_invI) (auto simp: in_flight_def)
  show "node_lapse (ended_unanswered ex ?s out now m) = node_lapse n"
  proof -
    have "node_lapse m = node_lapse n" by (simp add: node_lapse_def m)
    with k(3) m(4) now show ?thesis by simp
  qed
qed

lemma time_out_keeps:
  assumes inv: "node_inv x n" and i: "i < length (ex_slots (nd_exchanges n))" "is_sent (ex_slots (nd_exchanges n) ! i)"
    and now: "now = nd_now n"
  shows "node_inv x (time_out i now n)" and "nd_link (time_out i now n) = nd_link n" and "nd_now (time_out i now n) = nd_now n"
    and "Suc (sent_count (nd_exchanges (time_out i now n))) = sent_count (nd_exchanges n)"
    and "node_lapse (time_out i now n) = node_lapse n"
proof -
  have live: "slot_is_live (ex_slots (nd_exchanges n) ! i)" using i(2) by (auto simp: is_sent_def slot_is_live_def)
  let ?s = "ex_slots (nd_exchanges n) ! i" and ?ex = "exchanges_id i (nd_exchanges n)"
  define m where "m = (let m = count_in (counters_exchange_mut (sl_operation ?s) (\<lambda>c. c\<lparr>xc_timeouts := bump (xc_timeouts c)\<rparr>))
                (n\<lparr>nd_exchanges := snd (retire i now (nd_exchanges n))\<rparr>)
     in if sl_owner ?s = Manual then act_in (actions_ended ?ex) m else m)"
  have t: "time_out i now n = ended_unanswered ?ex ?s TimedOut now m"
    by (simp add: time_out_def m_def retire_def Let_def)
  have m: "nd_exchanges m = snd (retire i now (nd_exchanges n))" "nd_lifecycle m = nd_lifecycle n" "nd_link m = nd_link n"
    "nd_now m = nd_now n" "actions_ok x m"
    using node_invD(3) [OF inv] by (simp_all add: m_def Let_def actions_ok_def)
  show "node_inv x (time_out i now n)" "node_lapse (time_out i now n) = node_lapse n"
    unfolding t using end_exchange [OF inv i(1) live m now] by simp_all
  show "nd_link (time_out i now n) = nd_link n" "nd_now (time_out i now n) = nd_now n"
    "Suc (sent_count (nd_exchanges (time_out i now n))) = sent_count (nd_exchanges n)"
    unfolding t using retire_sent_count [OF i] by (simp_all add: m)
qed

lemma lapse_step_keeps:
  assumes inv: "node_inv x n"
  defines "m \<equiv> act_in (actions_event Lapsed) (count_in (\<lambda>c. c\<lparr>nc_lapses := bump (nc_lapses c)\<rparr>)
                 (n\<lparr>nd_lifecycle := map_option lapse (nd_lifecycle n)\<rparr>))"
  shows "node_inv x m" and "nd_link m = nd_link n" and "nd_now m = nd_now n" and "nd_exchanges m = nd_exchanges n"
    and "node_lapse m = None" and "node_due m = node_due n"
proof -
  note d = node_invD [OF inv]
  show same: "nd_link m = nd_link n" "nd_now m = nd_now n" "nd_exchanges m = nd_exchanges n" by (simp_all add: m_def)
  show "node_lapse m = None" "node_due m = node_due n"
    by (auto simp: m_def node_lapse_def node_due_def lapse_at_def due_at_def lapse_def split: option.split)
  have "lifecycle_ok m"
    by (rule lifecycle_ok_step [OF d(2), where f = lapse]) (auto simp: m_def lapse_def intro: life.lapse [unfolded lapse_def])
  moreover have "has_attempt m = has_attempt n" "in_flight m = in_flight n" "actions_ok x m"
    using d(3) by (auto simp: m_def has_attempt_def in_flight_def actions_ok_def lapse_def split: option.split)
  ultimately show "node_inv x m" using d same by (intro node_invI) simp_all
qed

lemma node_admit_same:
  assumes "node_admit peer op timeout owner ttl n = (r, n')"
  shows "nd_link n' = nd_link n" and "nd_lifecycle n' = nd_lifecycle n" and "nd_now n' = nd_now n" and "nd_actions n' = nd_actions n"
    and "exchanges_admit peer op timeout owner ttl (nd_exchanges n) = (r, nd_exchanges n')"
  using assms by (auto simp: node_admit_def Let_def split: prod.splits sum.splits if_splits)

lemma node_admit_keeps:
  assumes inv: "node_inv x n" and adm: "node_admit peer op timeout owner ttl n = (r, n')"
    and "owner = Registration \<longrightarrow> op = OpRegisterForeignDevice \<and> \<not> in_flight n" and "owner = Release \<longrightarrow> op = OpDeleteFdtEntry"
  shows "exchanges_ok (nd_exchanges n')" and "lifecycle_ok n'" and "actions_ok x n'" and "validate (nd_link n') = Inr ()"
    and "in_flight n' \<longleftrightarrow> in_flight n \<or> (owner = Registration \<and> \<not> isl r)" and "has_attempt n' = has_attempt n"
    and "sent_count (nd_exchanges n') = sent_count (nd_exchanges n)" and "node_lapse n' = node_lapse n" and "node_due n' = node_due n"
proof -
  note d = node_invD [OF inv] and s = node_admit_same [OF adm]
  have pre: "owner = Registration \<longrightarrow> op = OpRegisterForeignDevice \<and> \<not> list_ex registers (ex_slots (nd_exchanges n))"
    using assms(3) by (simp add: in_flight_def)
  note a = exchanges_ok_admit [OF d(1) s(5) pre assms(4)]
  show "exchanges_ok (nd_exchanges n')" by (fact a(1))
  show "sent_count (nd_exchanges n') = sent_count (nd_exchanges n)" by (fact a(3))
  show "in_flight n' \<longleftrightarrow> in_flight n \<or> (owner = Registration \<and> \<not> isl r)" using a(4) by (simp add: in_flight_def)
  show "lifecycle_ok n'" by (rule lifecycle_ok_same [OF d(2) s(1,3,2)])
  show "actions_ok x n'" "validate (nd_link n') = Inr ()" using d(3,4) a(2) s by (simp_all add: actions_ok_def)
  show "has_attempt n' = has_attempt n" "node_lapse n' = node_lapse n" "node_due n' = node_due n"
    using s(2) by (simp_all add: has_attempt_def node_lapse_def node_due_def)
qed

lemma instant_add_later: "0 < unat (as_nanos d) \<Longrightarrow> t \<noteq> INSTANT_MAX \<Longrightarrow> t < instant_saturating_add t d"
proof -
  assume d: "0 < unat (as_nanos d)" and t: "t \<noteq> INSTANT_MAX"
  have "unat (inst_nanos t) \<noteq> 2 ^ 64 - 1" using t by (cases t) (simp add: INSTANT_MAX_def word_unat_eq_iff)
  then have "unat (inst_nanos t) < 2 ^ 64 - 1" using unat_u64_less [of "inst_nanos t"] by linarith
  with d show ?thesis by (simp add: less_instant_def word_less_nat_alt instant_saturating_add_def unat_saturating_add)
qed

text \<open>An attempt that could not start is planned for later.\<close>

lemma failed_later:
  assumes "life lc ss pend now" "now \<noteq> INSTANT_MAX" "lf_attempt lc = None"
  shows "\<exists>t. due_at (snd (lifecycle_failed now out lc)) = Some t \<and> now < t"
proof -
  note i = life_invD [OF life_inv_holds [OF assms(1)]]
  have r: "0 < unat (as_nanos (lf_renewal lc))" using i(9,10) by (simp add: duration_le_iff)
  let ?lc = "lc\<lparr>lf_attempt := None, lf_failures := u32_saturating_add (lf_failures lc) 1\<rparr>"
  have "0 < unat (as_nanos (backoff ?lc))" using r i(9) by (simp add: backoff_nanos)
  then show ?thesis using assms(2,3) instant_add_later r
    by (auto simp: failed_next attempt_start_def split: retry.split)
qed

lemma start_attempt_keeps:
  assumes inv: "node_inv x n" and due: "node_due n = Some t" and now: "now = nd_now n"
  shows "node_inv x (start_attempt now n)" and "nd_link (start_attempt now n) = nd_link n"
    and "nd_now (start_attempt now n) = nd_now n"
    and "sent_count (nd_exchanges (start_attempt now n)) = sent_count (nd_exchanges n)"
    and "node_lapse (start_attempt now n) = node_lapse n"
    and "now \<noteq> INSTANT_MAX \<Longrightarrow> node_due (start_attempt now n) = Some u \<Longrightarrow> now < u"
proof -
  note d = node_invD [OF inv]
  from d(2) due obtain f lc ss pend b where lc: "lk_mode (nd_link n) = Foreign f" "nd_lifecycle n = Some lc"
      "life lc ss pend now" "lf_attempt lc = None" "fr_bbmd f = Some b"
    by (cases rule: lifecycle_cases) (auto simp: node_due_def due_at_def now split: if_splits)
  have none: "\<not> has_attempt n" "\<not> in_flight n" using lc(2,4) d(5) by (simp_all add: has_attempt_def)
  obtain r m where adm: "node_admit b OpRegisterForeignDevice (effective_response_timeout f) Registration (fr_ttl f) n = (r, m)"
    by fastforce
  note s = node_admit_same [OF adm]
  have k: "exchanges_ok (nd_exchanges m)" "lifecycle_ok m" "actions_ok x m" "validate (nd_link m) = Inr ()"
    "in_flight m \<longleftrightarrow> in_flight n \<or> \<not> isl r" "has_attempt m = has_attempt n"
    "sent_count (nd_exchanges m) = sent_count (nd_exchanges n)" "node_lapse m = node_lapse n"
    using node_admit_keeps [OF inv adm] none(2) by simp_all
  have now_m: "nd_now m = now" using s(3) now by simp
  let ?n = "start_attempt now n"
  have "node_inv x ?n \<and> nd_link ?n = nd_link n \<and> nd_now ?n = nd_now n \<and> sent_count (nd_exchanges ?n) = sent_count (nd_exchanges n)
      \<and> node_lapse ?n = node_lapse n \<and> (now \<noteq> INSTANT_MAX \<longrightarrow> (\<forall>u. node_due ?n = Some u \<longrightarrow> now < u))"
  proof (cases r)
    case (Inr ex)
    then have n: "?n = act_in (actions_register ex b (fr_ttl f))
        (m\<lparr>nd_lifecycle := map_option (lifecycle_admitted now) (nd_lifecycle m)\<rparr>)"
      by (simp add: start_attempt_def lc adm)
    have l: "nd_lifecycle ?n = Some (lifecycle_admitted now lc)" using n s(2) lc(2) by simp
    have life: "life (lifecycle_admitted now lc) ss pend now" using lc(3) by (rule life.admitted)
    have ok: "lifecycle_ok ?n" unfolding lifecycle_ok_def using n s(1) lc(1,5) l life now_m by auto
    have "has_attempt ?n" by (simp add: has_attempt_def l lifecycle_admitted_def)
    moreover have "in_flight ?n" using n k(5) Inr by (simp add: in_flight_def)
    moreover have "node_lapse ?n = node_lapse n"
      using lc(2) unfolding node_lapse_def l by (simp add: lapse_at_def lifecycle_admitted_def)
    moreover have "node_due ?n = None" by (simp add: node_due_def l due_at_def lifecycle_admitted_def)
    moreover have "actions_ok x ?n" using k(3) n by (simp add: actions_ok_def)
    ultimately show ?thesis using k ok n s(1,3) by (auto intro: node_invI)
  next
    case (Inl e)
    define v where "v = fst (lifecycle_failed now None lc)"
    have n: "?n = node_held_verdict v (m\<lparr>nd_lifecycle := Some (snd (lifecycle_failed now None lc))\<rparr>)"
      using Inl by (simp add: start_attempt_def lc adm s(2) v_def split_beta)
    have l: "nd_lifecycle ?n = Some (snd (lifecycle_failed now None lc))" using n by simp
    have life: "life (snd (lifecycle_failed now None lc)) ss pend now" using lc(3) by (rule life.failed)
    have ok: "lifecycle_ok ?n" unfolding lifecycle_ok_def using n s(1) lc(1,5) l life now_m by auto
    have "\<not> has_attempt ?n" by (simp add: has_attempt_def l ended_fields)
    moreover have "\<not> in_flight ?n" using n k(5) Inl none by (simp add: in_flight_def)
    moreover have "node_lapse ?n = node_lapse n" using l lc(2) by (simp add: node_lapse_def)
    moreover have "actions_ok x ?n" using k(3) n by (simp add: actions_ok_def)
    moreover have "now \<noteq> INSTANT_MAX \<longrightarrow> (\<forall>u. node_due ?n = Some u \<longrightarrow> now < u)"
      using failed_later [OF lc(3) _ lc(4), of None] by (auto simp: node_due_def l)
    ultimately show ?thesis using k ok n s(1,3) by (auto intro: node_invI)
  qed
  then show "node_inv x ?n" "nd_link ?n = nd_link n" "nd_now ?n = nd_now n"
    "sent_count (nd_exchanges ?n) = sent_count (nd_exchanges n)" "node_lapse ?n = node_lapse n"
    "now \<noteq> INSTANT_MAX \<Longrightarrow> node_due ?n = Some u \<Longrightarrow> now < u"
    by blast+
qed

section \<open>Catching up\<close>

text \<open>Each step handles what is due first; the measure counts the steps that can still be needed.\<close>

definition catch_up_measure :: "instant \<Rightarrow> bool \<Rightarrow> node \<Rightarrow> nat" where
  "catch_up_measure now start_due n = 2 * sent_count (nd_exchanges n) + of_bool (node_lapse n \<noteq> None)
     + of_bool (start_due \<and> (\<exists>t. node_due n = Some t \<and> t \<le> now))"

lemma node_first_cases:
  assumes "node_first sd n = Some t"
  obtains i where "node_timeout n = Some (i, t)"
  | "\<forall>i. node_timeout n \<noteq> Some (i, t)" "node_lapse n = Some t"
  | "\<forall>i. node_timeout n \<noteq> Some (i, t)" "node_lapse n \<noteq> Some t" "sd" "node_due n = Some t"
proof -
  from earliest_Some [OF assms [unfolded node_first_def]]
  have "(\<exists>i. node_timeout n = Some (i, t)) \<or> node_lapse n = Some t \<or> sd \<and> node_due n = Some t"
    by (cases "node_timeout n") (auto split: if_splits)
  then show ?thesis using that by blast
qed

lemma node_first_later:
  assumes "node_first sd n = None \<or> (\<exists>t. node_first sd n = Some t \<and> now < t)"
  shows "node_timeout n = Some (i, u) \<Longrightarrow> now < u" and "node_lapse n = Some u \<Longrightarrow> now < u"
    and "sd \<Longrightarrow> node_due n = Some u \<Longrightarrow> now < u"
proof -
  have "now < u" if "Some u \<in> set [map_option snd (node_timeout n), node_lapse n, if sd then node_due n else None]"
    using assms
  proof
    assume "node_first sd n = None"
    then show ?thesis using that by (auto simp: node_first_def earliest_None)
  next
    assume "\<exists>t. node_first sd n = Some t \<and> now < t"
    then obtain t where t: "node_first sd n = Some t" "now < t" by blast
    from earliest_Some [OF t(1) [unfolded node_first_def]] that have "t \<le> u" by blast
    with t(2) show ?thesis by simp
  qed
  then show "node_timeout n = Some (i, u) \<Longrightarrow> now < u" "node_lapse n = Some u \<Longrightarrow> now < u"
    "sd \<Longrightarrow> node_due n = Some u \<Longrightarrow> now < u"
    by auto
qed

lemma catch_up_step_keeps:
  assumes inv: "node_inv x n" and now: "now = nd_now n" and first: "node_first sd n = Some t" "t \<le> now"
  shows "node_inv x (catch_up_step now sd n)" and "nd_link (catch_up_step now sd n) = nd_link n"
    and "nd_now (catch_up_step now sd n) = nd_now n"
    and "now \<noteq> INSTANT_MAX \<Longrightarrow> catch_up_measure now sd (catch_up_step now sd n) < catch_up_measure now sd n"
proof -
  let ?n = "catch_up_step now sd n"
  from first(1) have "node_inv x ?n \<and> nd_link ?n = nd_link n \<and> nd_now ?n = nd_now n
      \<and> (now \<noteq> INSTANT_MAX \<longrightarrow> catch_up_measure now sd ?n < catch_up_measure now sd n)"
  proof (cases rule: node_first_cases)
    case (1 i)
    then have step: "?n = time_out i now n" by (simp add: catch_up_step_def first(1) Let_def)
    note dl = next_deadline_Some [OF 1 [unfolded node_timeout_def]]
    then have "is_sent (ex_slots (nd_exchanges n) ! i)" by (simp add: is_sent_def)
    note k = time_out_keeps [OF inv dl(1) this now]
    show ?thesis unfolding step using k by (simp add: catch_up_measure_def)
  next
    case 2
    then have step: "?n = act_in (actions_event Lapsed) (count_in (\<lambda>c. c\<lparr>nc_lapses := bump (nc_lapses c)\<rparr>)
        (n\<lparr>nd_lifecycle := map_option lapse (nd_lifecycle n)\<rparr>))"
      unfolding catch_up_step_def first(1) Let_def by (auto split: option.split)
    note k = lapse_step_keeps [OF inv]
    show ?thesis unfolding step catch_up_measure_def using k 2 by simp
  next
    case 3
    then have step: "?n = start_attempt now n"
      unfolding catch_up_step_def first(1) Let_def by (auto split: option.split)
    note k = start_attempt_keeps [OF inv 3(4) now]
    have "now \<noteq> INSTANT_MAX \<Longrightarrow> \<nexists>u. node_due (start_attempt now n) = Some u \<and> u \<le> now"
      using k(6) by fastforce
    then show ?thesis unfolding step catch_up_measure_def using k 3 first(2) by simp
  qed
  then show "node_inv x ?n" "nd_link ?n = nd_link n" "nd_now ?n = nd_now n"
    "now \<noteq> INSTANT_MAX \<Longrightarrow> catch_up_measure now sd ?n < catch_up_measure now sd n"
    by blast+
qed

lemma catch_up_loop_keeps:
  "node_inv x n \<Longrightarrow> now = nd_now n \<Longrightarrow> node_inv x (catch_up_loop fuel now sd n)
     \<and> nd_link (catch_up_loop fuel now sd n) = nd_link n \<and> nd_now (catch_up_loop fuel now sd n) = nd_now n"
proof (induction fuel arbitrary: n)
  case (Suc fuel)
  show ?case
  proof (cases "\<exists>t. node_first sd n = Some t \<and> t \<le> now")
    case True
    then obtain t where t: "node_first sd n = Some t" "t \<le> now" by blast
    note k = catch_up_step_keeps [OF Suc.prems t]
    from Suc.IH [OF k(1)] k Suc.prems(2) t show ?thesis by simp
  qed (use Suc.prems in \<open>auto split: option.split\<close>)
qed simp

lemma catch_up_loop_done:
  "node_inv x n \<Longrightarrow> now = nd_now n \<Longrightarrow> now \<noteq> INSTANT_MAX \<Longrightarrow> catch_up_measure now sd n < fuel \<Longrightarrow>
     node_first sd (catch_up_loop fuel now sd n) = None
     \<or> (\<exists>t. node_first sd (catch_up_loop fuel now sd n) = Some t \<and> now < t)"
proof (induction fuel arbitrary: n)
  case (Suc fuel)
  show ?case
  proof (cases "\<exists>t. node_first sd n = Some t \<and> t \<le> now")
    case True
    then obtain t where t: "node_first sd n = Some t" "t \<le> now" by blast
    note k = catch_up_step_keeps [OF Suc.prems(1,2) t]
    from Suc.IH [OF k(1)] k Suc.prems(2,3,4) t show ?thesis by simp
  next
    case False
    then show ?thesis by (cases "node_first sd n") (auto simp: not_le)
  qed
qed simp

lemma catch_up_measure_fuel: "catch_up_measure now sd n < catch_up_fuel n"
  using sent_count_le [of "nd_exchanges n"] by (simp add: catch_up_measure_def catch_up_fuel_def)

text \<open>More fuel changes nothing: the model is the loop as written.\<close>

lemma catch_up_loop_fuel:
  "node_inv x n \<Longrightarrow> now = nd_now n \<Longrightarrow> now \<noteq> INSTANT_MAX \<Longrightarrow> catch_up_measure now sd n < fuel \<Longrightarrow>
     catch_up_loop (fuel + spare) now sd n = catch_up_loop fuel now sd n"
proof (induction fuel arbitrary: n)
  case (Suc fuel)
  show ?case
  proof (cases "\<exists>t. node_first sd n = Some t \<and> t \<le> now")
    case True
    then obtain t where t: "node_first sd n = Some t" "t \<le> now" by blast
    note k = catch_up_step_keeps [OF Suc.prems(1,2) t]
    from Suc.IH [OF k(1)] k Suc.prems(2,3,4) t show ?thesis by simp
  qed (auto split: option.split)
qed simp

text \<open>Nothing is due any more, but at the last instant of the clock, where nothing can be planned for later.\<close>

definition quiet :: "node \<Rightarrow> bool" where
  "quiet n \<longleftrightarrow> nd_now n = INSTANT_MAX \<or> node_next_deadline n = None \<or> (\<exists>t. node_next_deadline n = Some t \<and> nd_now n < t)"

lemma node_first_True [simp]: "node_first True n = node_next_deadline n"
  by (simp add: node_first_def node_next_deadline_def)

lemma node_inv_later:
  assumes "node_inv x n" "nd_now n \<le> now"
  shows "node_inv x (n\<lparr>nd_now := now\<rparr>)"
proof -
  note d = node_invD [OF assms(1)]
  have "lifecycle_ok (n\<lparr>nd_now := now\<rparr>)"
    using d(2) life.time [OF _ assms(2)] by (auto simp: lifecycle_ok_def split: mode.splits) blast+
  then show ?thesis using d by (intro node_invI) (simp_all add: actions_ok_def in_flight_def has_attempt_def)
qed

lemma catch_up_keeps:
  assumes inv: "node_inv x n" and c: "catch_up now sd n = (now', n')"
  shows "now' = max now (nd_now n)" and "node_inv x n'" and "nd_now n' = now'" and "nd_link n' = nd_link n"
    and "sd \<Longrightarrow> quiet n'"
proof -
  define m where "m = n\<lparr>nd_now := max now (nd_now n)\<rparr>"
  have im: "node_inv x m" unfolding m_def by (rule node_inv_later [OF inv]) simp
  show n: "now' = max now (nd_now n)" using c by (simp add: catch_up_def Let_def)
  have n': "n' = catch_up_loop (catch_up_fuel m) now' sd m" using c n by (simp add: catch_up_def Let_def m_def)
  have nm: "now' = nd_now m" using n by (simp add: m_def)
  note k = catch_up_loop_keeps [OF im nm, of "catch_up_fuel m" sd]
  show "node_inv x n'" "nd_now n' = now'" "nd_link n' = nd_link n" using k n' nm by (simp_all add: m_def)
  show "quiet n'" if sd: sd
  proof (cases "now' = INSTANT_MAX")
    case True
    then show ?thesis using k n' nm by (simp add: quiet_def)
  next
    case False
    have "node_next_deadline n' = None \<or> (\<exists>t. node_next_deadline n' = Some t \<and> now' < t)"
      using catch_up_loop_done [OF im nm False catch_up_measure_fuel, of True] sd n' by simp
    then show ?thesis using k n' nm by (auto simp: quiet_def)
  qed
qed

lemma advance_keeps:
  assumes "node_inv x n"
  shows "node_inv x (snd (advance now n))" and "nd_now (snd (advance now n)) = max now (nd_now n)"
    and "fst (advance now n) = max now (nd_now n)" and "nd_link (snd (advance now n)) = nd_link n"
    and "quiet (snd (advance now n))"
proof -
  obtain now' n' where c: "catch_up now True n = (now', n')" by fastforce
  note k = catch_up_keeps [OF assms c]
  show "node_inv x (snd (advance now n))" "nd_now (snd (advance now n)) = max now (nd_now n)"
    "fst (advance now n) = max now (nd_now n)" "nd_link (snd (advance now n)) = nd_link n" "quiet (snd (advance now n))"
    using k c by (simp_all add: advance_def)
qed

section \<open>Responses\<close>

lemma of_ack_read: "operation_of_ack fn = Some op \<Longrightarrow> \<not> answered_by_success op"
  by (auto simp: operation_of_ack_def answered_by_success_def split: if_splits)

lemma key_of_code: "key_of fn code = Some k \<Longrightarrow> key_fits k op \<Longrightarrow> answered_by_success op \<Longrightarrow> code \<noteq> None"
  by (auto simp: key_of_def dest: of_ack_read split: option.splits if_splits)

lemma settle_registration_keeps:
  assumes "lifecycle_ok n" "has_attempt n" "now = nd_now n"
  shows "lifecycle_ok (settle_registration code acc now n)" and "\<not> has_attempt (settle_registration code acc now n)"
    and "actions_ok x (settle_registration code acc now n) = actions_ok x n"
proof -
  obtain lc where lc: "nd_lifecycle n = Some lc" using assms(2) by (auto simp: has_attempt_def split: option.splits)
  let ?g = "\<lambda>lc. if acc then snd (lifecycle_accepted now lc) else snd (lifecycle_refused now lc)"
  have l: "nd_lifecycle (settle_registration code acc now n) = map_option ?g (nd_lifecycle n)"
    using lc by (auto simp: settle_registration_def Let_def split_beta split: option.split prod.split)
  show "lifecycle_ok (settle_registration code acc now n)"
    by (rule lifecycle_ok_ended [OF assms(1,2), where f = ?g])
       (use l in \<open>simp_all add: assms(3) del: map_option_eq_Some\<close>, auto intro: life.accepted life.refused)
  show "\<not> has_attempt (settle_registration code acc now n)" by (simp add: has_attempt_def l lc ended_fields)
  show "actions_ok x (settle_registration code acc now n) = actions_ok x n"
    using lc by (auto simp: settle_registration_def actions_ok_def Let_def split_beta split: option.split prod.split)
qed

lemma settle_result_keeps:
  assumes "lifecycle_ok n" "now = nd_now n" "slot_ok s" "sl_owner s = Registration \<longrightarrow> has_attempt n"
  shows "lifecycle_ok (settle_result i s code now n)"
    and "has_attempt (settle_result i s code now n) \<longleftrightarrow> has_attempt n \<and> sl_owner s \<noteq> Registration"
    and "actions_ok x (settle_result i s code now n) = actions_ok x n"
proof -
  have same: "lifecycle_ok (count_in f n) \<and> has_attempt (count_in f n) = has_attempt n \<and> actions_ok x (count_in f n) = actions_ok x n" for f
    using lifecycle_ok_same [OF assms(1)] by (simp add: has_attempt_def actions_ok_def)
  have rec: "lifecycle_ok (record_register i out res (count_in f n)) \<and> has_attempt (record_register i out res (count_in f n)) = has_attempt n
      \<and> actions_ok x (record_register i out res (count_in f n)) = actions_ok x n" for f out res
    using lifecycle_ok_same [OF assms(1)] by (simp add: has_attempt_def actions_ok_def)
  have "lifecycle_ok (settle_result i s code now n)
      \<and> (has_attempt (settle_result i s code now n) \<longleftrightarrow> has_attempt n \<and> sl_owner s \<noteq> Registration)
      \<and> actions_ok x (settle_result i s code now n) = actions_ok x n"
  proof (cases "sl_owner s")
    case Release
    let ?f = "\<lambda>c. if code = SUCCESSFUL_COMPLETION then c\<lparr>nc_previous_released := bump (nc_previous_released c)\<rparr>
        else c\<lparr>nc_previous_release_refused := bump (nc_previous_release_refused c)\<rparr>"
    have "now = nd_now (count_in ?f n)" using assms(2) by simp
    from release_ended_keeps [OF conjunct1 [OF same [of ?f]] this] same [of ?f] Release show ?thesis
      by (simp add: settle_result_def Let_def)
  next
    case Manual
    then show ?thesis using rec assms(1) by (simp add: settle_result_def Let_def)
  next
    case Registration
    then have op: "sl_operation s = OpRegisterForeignDevice" and att: "has_attempt n" using assms(3,4) by (simp_all add: slot_ok_def)
    let ?f = "\<lambda>c. if code = SUCCESSFUL_COMPLETION then c\<lparr>nc_registrations_accepted := bump (nc_registrations_accepted c)\<rparr>
                     else c\<lparr>nc_registrations_refused := bump (nc_registrations_refused c)\<rparr>"
    let ?out = "if code = SUCCESSFUL_COMPLETION then Accepted else Refused"
    define m where "m = record_register i ?out (Some code) (count_in ?f n)"
    have m: "lifecycle_ok m" "has_attempt m" "now = nd_now m" "actions_ok x m = actions_ok x n"
      using rec [of ?out "Some code" ?f] att assms(2) by (simp_all add: m_def)
    have "settle_result i s code now n = settle_registration code (code = SUCCESSFUL_COMPLETION) now m"
      using Registration op by (simp add: settle_result_def Let_def m_def)
    with settle_registration_keeps [OF m(1,2,3)] m(4) Registration show ?thesis by simp
  qed
  then show "lifecycle_ok (settle_result i s code now n)"
    "has_attempt (settle_result i s code now n) \<longleftrightarrow> has_attempt n \<and> sl_owner s \<noteq> Registration"
    "actions_ok x (settle_result i s code now n) = actions_ok x n"
    by simp_all
qed

lemma settle_keeps:
  assumes inv: "node_inv x n" and i: "i < length (ex_slots (nd_exchanges n))" "slot_is_live (ex_slots (nd_exchanges n) ! i)"
    and now: "now = nd_now n"
    and valid: "answered_by_success (sl_operation (ex_slots (nd_exchanges n) ! i)) \<longrightarrow> valid \<and> code \<noteq> None"
  shows "node_inv x (settle i code valid now n)" and "nd_link (settle i code valid now n) = nd_link n"
    and "nd_now (settle i code valid now n) = nd_now n"
proof -
  note d = node_invD [OF inv] and r = registers_live [OF i(2)]
  let ?s = "ex_slots (nd_exchanges n) ! i" and ?ex = "exchanges_id i (nd_exchanges n)"
  define m where "m = n\<lparr>nd_exchanges := snd (retire i now (nd_exchanges n))\<rparr>"
  define c where "c = count_in (counters_exchange_mut (sl_operation ?s) (\<lambda>c. case code of
                       Some c' \<Rightarrow> c\<lparr>xc_results := bump (xc_results c), xc_last_result := Some c'\<rparr>
                     | None \<Rightarrow> c\<lparr>xc_acknowledgements := bump (xc_acknowledgements c)\<rparr>)) m"
  have st: "settle i code valid now n = (if \<not> valid then m else case code of None \<Rightarrow> c | Some co \<Rightarrow> settle_result ?ex ?s co now c)"
    unfolding settle_def Let_def retire_def c_def m_def snd_conv prod.case by (rule refl)
  have sok: "slot_ok ?s" using exchanges_okD(2) [OF d(1)] i(1) by simp
  have same: "nd_exchanges y = snd (retire i now (nd_exchanges n)) \<and> nd_lifecycle y = nd_lifecycle n \<and> nd_link y = nd_link n
      \<and> nd_now y = nd_now n \<and> nd_actions y = nd_actions n" if "y = m \<or> y = c" for y
    using that by (elim disjE) (simp_all add: m_def c_def)
  have base: "exchanges_ok (nd_exchanges y)" "lifecycle_ok y" "actions_ok x y" "validate (nd_link y) = Inr ()"
      "has_attempt y = has_attempt n" "in_flight y \<longleftrightarrow> in_flight n \<and> sl_owner ?s \<noteq> Registration" "nd_link y = nd_link n" "nd_now y = nd_now n"
    if "y = m \<or> y = c" for y
  proof -
    note e = same [OF that]
    show "exchanges_ok (nd_exchanges y)" using e exchanges_ok_retire [OF d(1) i(1)] by simp
    show "lifecycle_ok y" by (rule lifecycle_ok_same [OF d(2)]) (simp_all add: e)
    show "actions_ok x y" "validate (nd_link y) = Inr ()" using e d(3,4) by (simp_all add: actions_ok_def)
    show "has_attempt y = has_attempt n" using e by (simp add: has_attempt_def)
    show "in_flight y \<longleftrightarrow> in_flight n \<and> sl_owner ?s \<noteq> Registration"
      using in_flight_retire [OF d(1) i(1), of now] r e by (simp add: in_flight_def)
    show "nd_link y = nd_link n" "nd_now y = nd_now n" using e by simp_all
  qed
  have att: "sl_owner ?s = Registration \<longrightarrow> has_attempt n" using registers_in_flight [OF i(1)] r d(5) by simp
  note bm = base [OF disjI1 [OF refl]] and bc = base [OF disjI2 [OF refl]]
  show "nd_link (settle i code valid now n) = nd_link n" "nd_now (settle i code valid now n) = nd_now n"
    unfolding st using bm(7,8) bc(7,8) by (simp_all split: option.split)
  show "node_inv x (settle i code valid now n)"
  proof (cases "valid \<and> code \<noteq> None")
    case False
    then have own: "sl_owner ?s \<noteq> Registration" using valid sok by (auto simp: slot_ok_def answered_by_success_def)
    have "in_flight m = has_attempt m" "in_flight c = has_attempt c" using bm(5,6) bc(5,6) own d(5) by simp_all
    then have "node_inv x m" "node_inv x c" using node_invI [OF bm(1-4)] node_invI [OF bc(1-4)] by simp_all
    then show ?thesis unfolding st using False by (cases code) simp_all
  next
    case True
    then obtain co where co: "code = Some co" by blast
    have now_c: "now = nd_now c" using bc(8) now by simp
    have "sl_owner ?s = Registration \<longrightarrow> has_attempt c" using att bc(5) by simp
    note k = settle_result_keeps [OF bc(2) now_c sok this, where i = ?ex and code = co]
    let ?r = "settle_result ?ex ?s co now c"
    have "in_flight ?r = has_attempt ?r" using k(2) bc(5,6) d(5) by (simp add: in_flight_def)
    then have "node_inv x ?r" using k(1,3) bc(1,3,4) by (intro node_invI) simp_all
    then show ?thesis unfolding st using True co by simp
  qed
qed

text \<open>The parts of a node its invariant speaks of.\<close>

lemma node_inv_cong:
  assumes "node_inv x n" "nd_exchanges m = nd_exchanges n" "nd_lifecycle m = nd_lifecycle n" "nd_link m = nd_link n"
    "nd_now m = nd_now n" "length (ac_ended (nd_actions m)) = length (ac_ended (nd_actions n))"
    "length (ac_events (nd_actions m)) = length (ac_events (nd_actions n))"
  shows "node_inv x m"
proof -
  note d = node_invD [OF assms(1)]
  have "lifecycle_ok m" by (rule lifecycle_ok_same [OF d(2)]) (simp_all add: assms)
  then show ?thesis using d assms by (intro node_invI) (simp_all add: actions_ok_def in_flight_def has_attempt_def)
qed

lemma quiet_iff:
  "quiet n \<longleftrightarrow> nd_now n = INSTANT_MAX \<or> ((\<forall>s \<in> set (ex_slots (nd_exchanges n)). \<forall>t. sl_phase s = Sent t \<longrightarrow> nd_now n < t)
     \<and> (\<forall>t. node_lapse n = Some t \<longrightarrow> nd_now n < t) \<and> (\<forall>t. node_due n = Some t \<longrightarrow> nd_now n < t))"
proof -
  have sent: "(\<forall>i t. node_timeout n = Some (i, t) \<longrightarrow> nd_now n < t)
      \<longleftrightarrow> (\<forall>s \<in> set (ex_slots (nd_exchanges n)). \<forall>t. sl_phase s = Sent t \<longrightarrow> nd_now n < t)" (is "?L \<longleftrightarrow> ?R")
  proof
    assume L: ?L
    show ?R
    proof (cases "node_timeout n")
      case None
      then show ?thesis by (auto simp: node_timeout_def next_deadline_None)
    next
      case (Some p)
      obtain i t where p: "p = (i, t)" by fastforce
      with Some L have "nd_now n < t" by blast
      moreover have "\<forall>s \<in> set (ex_slots (nd_exchanges n)). \<forall>d. sl_phase s = Sent d \<longrightarrow> t \<le> d"
        using next_deadline_Some(3) [of "nd_exchanges n" i t] Some p by (simp add: node_timeout_def)
      ultimately show ?thesis by fastforce
    qed
  next
    assume R: ?R
    show ?L
    proof (intro allI impI)
      fix i t assume "node_timeout n = Some (i, t)"
      then have "exchanges_next_deadline (nd_exchanges n) = Some (i, t)" by (simp add: node_timeout_def)
      note k = next_deadline_Some(1,2) [OF this]
      have "\<forall>t. sl_phase (ex_slots (nd_exchanges n) ! i) = Sent t \<longrightarrow> nd_now n < t" by (rule bspec [OF R nth_mem [OF k(1)]])
      then show "nd_now n < t" using k(2) by blast
    qed
  qed
  have "(node_next_deadline n = None \<or> (\<exists>t. node_next_deadline n = Some t \<and> nd_now n < t))
      \<longleftrightarrow> (\<forall>i t. node_timeout n = Some (i, t) \<longrightarrow> nd_now n < t) \<and> (\<forall>t. node_lapse n = Some t \<longrightarrow> nd_now n < t)
         \<and> (\<forall>t. node_due n = Some t \<longrightarrow> nd_now n < t)" (is "?A \<longleftrightarrow> ?B")
  proof
    assume ?A
    then have "node_first True n = None \<or> (\<exists>t. node_first True n = Some t \<and> nd_now n < t)" by simp
    note l = node_first_later [OF this]
    show ?B using l(1) l(2) l(3) [OF TrueI] by blast
  next
    assume B: ?B
    show ?A
    proof (cases "node_next_deadline n")
      case (Some t)
      then have "node_first True n = Some t" by simp
      then have "nd_now n < t" using B by (cases rule: node_first_cases) auto
      with Some show ?thesis by simp
    qed simp
  qed
  then show ?thesis unfolding quiet_def sent by blast
qed

lemma first_with_mut:
  "\<exists>f. (case first_with peer fn e of
          Some index \<Rightarrow> count_in (counters_exchange_mut (sl_operation (ex_slots e ! index))
                (\<lambda>c. c\<lparr>xc_malformed_responses := bump (xc_malformed_responses c)\<rparr>)) n
        | None \<Rightarrow> n) = n\<lparr>nd_counters := f (nd_counters n)\<rparr>"
  by (cases "first_with peer fn e") (auto intro: exI [of _ "\<lambda>c. c"])

lemma unmatched_keeps:
  assumes inv: "node_inv x n" and now: "now = nd_now n"
  shows "node_inv x (snd (unmatched peer code k now n))" and "nd_link (snd (unmatched peer code k now n)) = nd_link n"
    and "nd_now (snd (unmatched peer code k now n)) = nd_now n"
proof -
  note d = node_invD [OF inv]
  let ?n = "snd (unmatched peer code k now n)"
  have same: "nd_link ?n = nd_link n" "nd_now ?n = nd_now n" "nd_exchanges ?n = nd_exchanges n" "nd_actions ?n = nd_actions n"
    by (auto simp: unmatched_def Let_def split: mode.split option.split)
  have "\<exists>g \<in> {\<lambda>lc. lc, hint now}. nd_lifecycle ?n = map_option g (nd_lifecycle n)"
    by (auto simp: unmatched_def Let_def option.map_ident split: mode.split option.split)
  then obtain g where g: "g = (\<lambda>lc. lc) \<or> g = hint now" "nd_lifecycle ?n = map_option g (nd_lifecycle n)" by blast
  have "lifecycle_ok ?n"
    by (rule lifecycle_ok_step [OF d(2), where f = g]) (use g same now in \<open>auto intro: life.hint\<close>)
  moreover have "has_attempt ?n = has_attempt n" using g by (auto simp: has_attempt_def split: option.split)
  ultimately show "node_inv x ?n" using d same by (intro node_invI) (simp_all add: actions_ok_def in_flight_def)
  show "nd_link ?n = nd_link n" "nd_now ?n = nd_now n" using same by simp_all
qed

definition result_code :: "response \<Rightarrow> bvlc_result_code option" where
  "result_code r = (case rs_message r of Inr (BvlcResult c) \<Rightarrow> Some c | _ \<Rightarrow> None)"

definition is_valid :: "response \<Rightarrow> bool" where
  "is_valid r \<longleftrightarrow> \<not> isl (rs_message r) \<and> rs_accepted r"

text \<open>The key a response is matched by: a malformed one can complete a table read only.\<close>

definition response_key :: "response \<Rightarrow> key option" where
  "response_key r = (if is_valid r then key_of (rs_function r) (result_code r)
     else map_option KeyOperation (operation_of_ack (rs_function r)))"

definition matching :: "response \<Rightarrow> node \<Rightarrow> nat option" where
  "matching r n = (case response_key r of Some k \<Rightarrow> exchanges_find (rs_peer r) k (nd_exchanges n) | None \<Rightarrow> None)"

lemma matching_success:
  assumes "response_key r = Some k" "key_fits k op" "answered_by_success op"
  shows "is_valid r \<and> result_code r \<noteq> None"
  using assms key_of_code of_ack_read by (auto simp: response_key_def split: if_splits)

text \<open>\<open>match_response\<close> once its response is read and a malformed one counted.\<close>

definition match_in :: "response \<Rightarrow> instant \<Rightarrow> node \<Rightarrow> inbound \<times> node" where
  "match_in r now n =
     (case matching r n of
        None \<Rightarrow> if \<not> is_valid r then (Unmatched (rs_peer r) None False, n) else unmatched (rs_peer r) (result_code r) (response_key r) now n
      | Some index \<Rightarrow>
          if sl_phase (ex_slots (nd_exchanges n) ! index) = Admitted
          then if sl_early (ex_slots (nd_exchanges n) ! index) \<noteq> None then (Duplicate (exchanges_id index (nd_exchanges n)), n)
               else (Matched (exchanges_id index (nd_exchanges n)) (rs_message r) (is_valid r) False,
                     n\<lparr>nd_exchanges := slot_mut index (\<lambda>s. s\<lparr>sl_early := Some \<lparr>ey_code = result_code r, ey_valid = is_valid r\<rparr>\<rparr>)
                         (nd_exchanges n)\<rparr>)
          else (Matched (exchanges_id index (nd_exchanges n)) (rs_message r) (is_valid r) True,
                settle index (result_code r) (is_valid r) now n))"

lemma match_response_eq:
  obtains f where "match_response r now n = match_in r now (n\<lparr>nd_counters := f (nd_counters n)\<rparr>)"
proof (cases "is_valid r")
  case True
  have "match_response r now n = match_in r now n"
    unfolding match_response_def match_in_def matching_def response_key_def result_code_def [symmetric] is_valid_def [symmetric] Let_def
    using True by simp
  then show ?thesis using that [of "\<lambda>c. c"] by simp
next
  case False
  define c where "c = n\<lparr>nd_counters := (nd_counters n)\<lparr>nc_malformed_responses := bump (nc_malformed_responses (nd_counters n))\<rparr>\<rparr>"
  have ce: "nd_exchanges c = nd_exchanges n" by (simp add: c_def)
  obtain g where g: "(case first_with (rs_peer r) (rs_function r) (nd_exchanges c) of
          Some index \<Rightarrow> count_in (counters_exchange_mut (sl_operation (ex_slots (nd_exchanges c) ! index))
                (\<lambda>c. c\<lparr>xc_malformed_responses := bump (xc_malformed_responses c)\<rparr>)) c
        | None \<Rightarrow> c) = c\<lparr>nd_counters := g (nd_counters c)\<rparr>"
    using first_with_mut [where peer = "rs_peer r" and fn = "rs_function r" and e = "nd_exchanges c" and n = c] by blast
  define m where "m = c\<lparr>nd_counters := g (nd_counters c)\<rparr>"
  have "match_response r now n = match_in r now m"
    unfolding match_response_def match_in_def matching_def response_key_def result_code_def [symmetric] is_valid_def [symmetric] Let_def
      c_def [symmetric] m_def
    using False by (simp add: g)
  then show ?thesis
    using that [of "\<lambda>x. g (x\<lparr>nc_malformed_responses := bump (nc_malformed_responses x)\<rparr>)"] by (simp add: m_def c_def)
qed

lemma match_response_keeps:
  assumes inv: "node_inv x n" and now: "now = nd_now n"
  shows "node_inv x (snd (match_response r now n))" and "nd_link (snd (match_response r now n)) = nd_link n"
    and "nd_now (snd (match_response r now n)) = nd_now n"
proof -
  obtain f where eq: "match_response r now n = match_in r now (n\<lparr>nd_counters := f (nd_counters n)\<rparr>)" by (rule match_response_eq)
  define m where "m = n\<lparr>nd_counters := f (nd_counters n)\<rparr>"
  have mi: "node_inv x m" by (rule node_inv_cong [OF inv]) (simp_all add: m_def)
  have ms: "nd_link m = nd_link n" "nd_now m = nd_now n" "nd_exchanges m = nd_exchanges n" "now = nd_now m" by (simp_all add: m_def now)
  note d = node_invD [OF mi]
  have "node_inv x (snd (match_response r now n)) \<and> nd_link (snd (match_response r now n)) = nd_link n
      \<and> nd_now (snd (match_response r now n)) = nd_now n"
  proof (cases "matching r m")
    case None
    then have "snd (match_response r now n) = m \<or> snd (match_response r now n) = snd (unmatched (rs_peer r) (result_code r) (response_key r) now m)"
      unfolding eq match_in_def m_def [symmetric] by simp
    then show ?thesis using mi ms unmatched_keeps [OF mi ms(4)] by auto
  next
    case (Some i)
    then obtain k where k: "response_key r = Some k" "exchanges_find (rs_peer r) k (nd_exchanges n) = Some i"
      using ms(3) by (auto simp: matching_def split: option.splits)
    have un: "unambiguous (nd_exchanges n)" using exchanges_okD(1) [OF d(1)] ms(3) by simp
    let ?s = "ex_slots (nd_exchanges n) ! i"
    have i: "i < length (ex_slots (nd_exchanges n))" "slot_is_live ?s" "key_fits k (sl_operation ?s)"
      using k(2) find_unique [OF un] by simp_all
    have ok: "answered_by_success (sl_operation ?s) \<longrightarrow> is_valid r \<and> result_code r \<noteq> None"
      using matching_success [OF k(1) i(3)] by blast
    show ?thesis
    proof (cases "sl_phase ?s = Admitted")
      case False
      then have "snd (match_response r now n) = settle i (result_code r) (is_valid r) now m"
        unfolding eq match_in_def m_def [symmetric] using Some ms(3) by simp
      then show ?thesis using settle_keeps [OF mi _ _ ms(4), of i] i(1,2) ok ms by simp
    next
      case adm: True
      show ?thesis
      proof (cases "sl_early ?s")
        case early: (Some e)
        then have "snd (match_response r now n) = m" unfolding eq match_in_def m_def [symmetric] using Some adm ms(3) by simp
        then show ?thesis using mi ms by simp
      next
        case None
        let ?g = "\<lambda>s. s\<lparr>sl_early := Some \<lparr>ey_code = result_code r, ey_valid = is_valid r\<rparr>\<rparr>"
        define y where "y = m\<lparr>nd_exchanges := slot_mut i ?g (nd_exchanges n)\<rparr>"
        have y: "snd (match_response r now n) = y" unfolding eq match_in_def m_def [symmetric] y_def using Some adm None ms(3) by simp
        have e: "exchanges_ok (slot_mut i ?g (nd_exchanges n))"
          "list_ex registers (ex_slots (slot_mut i ?g (nd_exchanges n))) = list_ex registers (ex_slots (nd_exchanges n))"
          by (rule exchanges_ok_mut; use d(1) ms(3) i ok in \<open>simp add: slot_is_live_def slot_ok_def\<close>)+
        have "lifecycle_ok y" by (rule lifecycle_ok_same [OF d(2)]) (simp_all add: y_def)
        moreover have "in_flight y = has_attempt y" using d(5) e(2) ms(3) by (simp add: y_def in_flight_def has_attempt_def)
        ultimately have "node_inv x y"
          using e(1) d(3,4) ms by (intro node_invI) (simp_all add: y_def actions_ok_def slot_mut_def)
        then show ?thesis using y ms by (simp add: y_def)
      qed
    qed
  qed
  then show "node_inv x (snd (match_response r now n))" "nd_link (snd (match_response r now n)) = nd_link n"
    "nd_now (snd (match_response r now n)) = nd_now n"
    by blast+
qed

section \<open>The calls\<close>

text \<open>What every call of a node promises.\<close>

definition good :: "nat \<Rightarrow> node \<Rightarrow> bool" where
  "good x n \<longleftrightarrow> node_inv x n \<and> quiet n"

lemma advance_good: "node_inv x n \<Longrightarrow> good x (snd (advance now n))"
  by (simp add: good_def advance_keeps)

lemma node_new_good:
  assumes "node_new x l now = Inr n"
  shows "good x n"
proof -
  define m where "m = \<lparr>nd_link = l, nd_exchanges = exchanges_new x,
                nd_lifecycle = (case lk_mode l of Foreign f \<Rightarrow> Some (lifecycle_new f now) | _ \<Rightarrow> None),
                nd_actions = actions_new x, nd_counters = NODE_COUNTERS_ZERO, nd_latest_register = None, nd_now = now\<rparr>"
  from assms have v: "validate l = Inr ()" and n: "n = snd (advance now m)"
    by (auto simp: node_new_def try_res_eq_Inr m_def Let_def)
  have free: "\<not> list_ex registers (replicate x FREE_SLOT)" "\<forall>s \<in> set (replicate x FREE_SLOT). slot_ok s \<and> \<not> registers s"
    by (auto simp: list_ex_iff registers_def slot_is_live_def FREE_SLOT_def slot_ok_def)
  have e: "exchanges_ok (nd_exchanges m)"
    using unambiguous_new [of x] free(2) by (auto simp: m_def exchanges_ok_def exchanges_new_def filter_replicate)
  have nf: "lf_next (lifecycle_new f now) = map_option (\<lambda>_. now) (fr_bbmd f)" "lf_attempt (lifecycle_new f now) = None" for f
    by (simp_all add: lifecycle_new_def)
  have l: "lifecycle_ok m"
    using v by (auto simp: lifecycle_ok_def m_def link_validate_iff nf split: mode.split) (blast intro: life.start)
  have "node_inv x m"
    using e l v free(1) by (intro node_invI)
      (auto simp: m_def actions_ok_def actions_new_def exchanges_new_def in_flight_def has_attempt_def lifecycle_new_def
        split: mode.split)
  then show ?thesis unfolding n by (rule advance_good)
qed

lemma resolve_good: "node_inv x n \<Longrightarrow> good x (snd (resolve r now n))"
proof -
  assume inv: "node_inv x n"
  obtain now' m where c: "catch_up now False n = (now', m)" by fastforce
  note k = catch_up_keeps [OF inv c]
  have "node_inv x (snd (match_response r now' m))" using match_response_keeps(1) [OF k(2)] k(3) by simp
  from advance_good [OF this, of now'] c show ?thesis by (simp add: resolve_def split_beta)
qed

lemma node_receive_good: "node_inv x n \<Longrightarrow> good x (fst (snd (node_receive dg now policy n s)))"
proof -
  assume inv: "node_inv x n"
  obtain now' m where c: "catch_up now False n = (now', m)" by fastforce
  note k = catch_up_keeps [OF inv c]
  obtain rcv s' where r: "link_receive dg policy (nd_link m) s = (rcv, s')" by fastforce
  define p where "p = (case rcv of
               Deliver d \<Rightarrow> (InDeliver d, m)
             | Nak to code mal \<Rightarrow> (InNak to code mal, m)
             | ReceivedBbmd share \<Rightarrow> (InBbmd share, m)
             | Discarded reason \<Rightarrow> (InDiscarded reason, m)
             | ReceivedResponse r \<Rightarrow> match_response r now' m)"
  have "snd p = m \<or> (\<exists>r. snd p = snd (match_response r now' m))" by (auto simp: p_def split: received.split)
  then have "node_inv x (snd p)" using k(2) match_response_keeps(1) [OF k(2)] k(3) by auto
  from advance_good [OF this, of now'] c r show ?thesis
    unfolding node_receive_def c r Let_def prod.case p_def by (simp add: split_beta)
qed

lemma admit_good:
  assumes "good x n" "node_admit peer op timeout owner ttl n = (r, n')" "owner \<noteq> Registration"
    and "owner = Release \<longrightarrow> op = OpDeleteFdtEntry"
  shows "good x n'"
proof -
  have inv: "node_inv x n" using assms(1) by (simp add: good_def)
  have k: "exchanges_ok (nd_exchanges n')" "lifecycle_ok n'" "actions_ok x n'" "validate (nd_link n') = Inr ()"
    "in_flight n' = in_flight n" "has_attempt n' = has_attempt n" "node_lapse n' = node_lapse n" "node_due n' = node_due n"
    using node_admit_keeps [OF inv assms(2)] assms(3,4) by simp_all
  have i: "node_inv x n'" using k node_invD(5) [OF inv] by (intro node_invI) simp_all
  note s = node_admit_same [OF assms(2)]
  have sent: "\<exists>y \<in> set (ex_slots (nd_exchanges n)). sl_phase y = Sent t"
    if "z \<in> set (ex_slots (nd_exchanges n'))" "sl_phase z = Sent t" for z t
    using s(5)
  proof (cases rule: exchanges_admit_cases)
    case (2 index a)
    with that have "z \<in> set (ex_slots (nd_exchanges n))" by (auto dest!: set_update_subset_insert [THEN subsetD])
    with that(2) show ?thesis by blast
  qed (use that in auto)
  have "quiet n'"
    using assms(1) sent s(3) k(7,8) unfolding good_def quiet_iff by metis
  with i show ?thesis by (simp add: good_def)
qed

lemma begin_exchange_good: "node_inv x n \<Longrightarrow> good x (snd (begin_exchange peer req timeout now n))"
proof -
  assume inv: "node_inv x n"
  obtain now' m where c: "advance now n = (now', m)" by fastforce
  have g: "good x m" using advance_good [OF inv, of now] c by simp
  have adm: "good x (snd (node_admit peer op timeout Manual ttl m))" for op ttl
    by (cases "node_admit peer op timeout Manual ttl m") (use admit_good [OF g] in auto)
  show ?thesis
    using g adm by (auto simp: begin_exchange_def c Let_def split: option.split prod.split sum.split) (metis snd_conv)+
qed

lemma admit_broadcast_good: "node_inv x n \<Longrightarrow> good x (snd (node_admit_broadcast now n))"
proof -
  assume inv: "node_inv x n"
  obtain now' m where c: "advance now n = (now', m)" by fastforce
  have g: "good x m" and nw: "now' = nd_now m" using advance_good [OF inv, of now] advance_keeps [OF inv, of now] c by simp_all
  show ?thesis
  proof (cases "nd_lifecycle m")
    case None
    then show ?thesis using g c by (simp add: node_admit_broadcast_def)
  next
    case (Some lc)
    obtain dec lc' where b: "lifecycle_admit_broadcast now' lc = (dec, lc')" by fastforce
    define y where "y = m\<lparr>nd_lifecycle := Some lc'\<rparr>"
    have f: "lf_attempt lc' = lf_attempt lc" "lf_next lc' = lf_next lc" "lapse_at lc' = lapse_at lc" "due_at lc' = due_at lc"
      using b by (auto simp: lifecycle_admit_broadcast_def lapse_at_def due_at_def split: if_splits)
    have mi: "node_inv x m" using g by (simp add: good_def)
    note d = node_invD [OF mi]
    have "lifecycle_ok y"
      by (rule lifecycle_ok_step [OF d(2), where f = "\<lambda>_. lc'"])
         (use Some f b life.broadcast [of lc] nw in \<open>auto simp: y_def dest: life.broadcast\<close>, metis snd_conv life.broadcast)
    then have yi: "node_inv x y"
      using d f Some by (intro node_invI) (simp_all add: y_def actions_ok_def in_flight_def has_attempt_def)
    have "quiet y" using g f Some unfolding good_def quiet_iff by (simp add: y_def node_lapse_def node_due_def)
    have "\<exists>h. snd (node_admit_broadcast now n) = y\<lparr>nd_counters := h\<rparr>"
      using c Some b by (cases dec) (auto simp: node_admit_broadcast_def y_def Let_def intro: exI [of _ "nd_counters m"])
    then obtain h where h: "snd (node_admit_broadcast now n) = y\<lparr>nd_counters := h\<rparr>" by blast
    have "node_inv x (y\<lparr>nd_counters := h\<rparr>)" by (rule node_inv_cong [OF yi]) simp_all
    moreover have "quiet (y\<lparr>nd_counters := h\<rparr>)" using \<open>quiet y\<close> unfolding quiet_iff by (simp add: node_lapse_def node_due_def)
    ultimately show ?thesis using h by (simp add: good_def)
  qed
qed

lemma exchanges_live_Some:
  "exchanges_live i e = Some index \<Longrightarrow> index < length (ex_slots e) \<and> slot_is_live (ex_slots e ! index)
     \<and> sl_generation (ex_slots e ! index) = xi_generation i"
  by (auto simp: exchanges_live_def get_at_def split: option.splits if_splits)

lemma exchange_failed_good: "node_inv x n \<Longrightarrow> good x (exchange_failed ex why now n)"
proof -
  assume inv: "node_inv x n"
  obtain now' m where c: "advance now n = (now', m)" by fastforce
  have g: "good x m" and nw: "now' = nd_now m" using advance_good [OF inv, of now] advance_keeps [OF inv, of now] c by simp_all
  have mi: "node_inv x m" using g by (simp add: good_def)
  show ?thesis
  proof (cases "exchanges_live ex (nd_exchanges m)")
    case None
    then show ?thesis using g c by (simp add: exchange_failed_def)
  next
    case (Some i)
    note l = exchanges_live_Some [OF Some]
    obtain out h where y: "exchange_failed ex why now n = snd (advance now' (ended_unanswered ex (ex_slots (nd_exchanges m) ! i) out now'
        (m\<lparr>nd_exchanges := snd (retire i now' (nd_exchanges m)), nd_counters := h\<rparr>)))"
    proof (cases why)
      case SendFailed
      show ?thesis by (rule that) (use c Some SendFailed in \<open>simp add: exchange_failed_def split_beta\<close>)
    next
      case GaveUp
      show ?thesis
        by (rule that [of AttemptCancelled "nd_counters m"]) (use c Some GaveUp in \<open>simp add: exchange_failed_def split_beta\<close>)
    qed
    let ?m = "m\<lparr>nd_exchanges := snd (retire i now' (nd_exchanges m)), nd_counters := h\<rparr>"
    have "actions_ok x ?m" using node_invD(3) [OF mi] by (simp add: actions_ok_def)
    then have "node_inv x (ended_unanswered ex (ex_slots (nd_exchanges m) ! i) out now' ?m)"
      using end_exchange(1) [OF mi, of i ?m now' ex out] l nw by simp
    then show ?thesis unfolding y by (rule advance_good)
  qed
qed

lemma lifecycle_sent_keeps [simp]:
  "lf_next (lifecycle_sent lc) = lf_next lc" "lf_attempt (lifecycle_sent lc) = lf_attempt lc"
  by (auto simp: lifecycle_sent_def split: option.split)

lemma life_sent: "life lc ss pend now \<Longrightarrow> \<exists>ss pend. life (lifecycle_sent lc) ss pend now"
  using life.sent [of lc ss pend now] by (cases "lf_attempt lc") (auto simp: lifecycle_sent_def)

lemma exchange_sent_good: "node_inv x n \<Longrightarrow> good x (snd (exchange_sent ex now n))"
proof -
  assume inv: "node_inv x n"
  obtain now' m where c: "advance now n = (now', m)" by fastforce
  have g: "good x m" and nw: "now' = nd_now m" using advance_good [OF inv, of now] advance_keeps [OF inv, of now] c by simp_all
  have mi: "node_inv x m" using g by (simp add: good_def)
  note d = node_invD [OF mi]
  show ?thesis
  proof (cases "exchanges_live ex (nd_exchanges m)")
    case None
    then show ?thesis using g c by (simp add: exchange_sent_def)
  next
    case (Some i)
    note l = exchanges_live_Some [OF Some]
    let ?s = "ex_slots (nd_exchanges m) ! i"
    let ?f = "\<lambda>s. s\<lparr>sl_phase := Sent (instant_saturating_add now' (sl_timeout s)), sl_early := None\<rparr>"
    show ?thesis
    proof (cases "sl_phase ?s = Admitted")
      case False
      then show ?thesis using g c Some by (simp add: exchange_sent_def Let_def)
    next
      case adm: True
      define h where "h = counters_exchange_mut (sl_operation ?s) (\<lambda>c. c\<lparr>xc_sent := bump (xc_sent c)\<rparr>) (nd_counters m)"
      define p where "p = (if sl_owner ?s = Registration then lifecycle_sent else (\<lambda>lc. lc))"
      define y where "y = m\<lparr>nd_exchanges := slot_mut i ?f (nd_exchanges m), nd_counters := h, nd_lifecycle := map_option p (nd_lifecycle m)\<rparr>"
      define z where "z = (case sl_early ?s of Some e \<Rightarrow> settle i (ey_code e) (ey_valid e) now' y | None \<Rightarrow> y)"
      have out: "snd (exchange_sent ex now n) = snd (advance now' z)"
        unfolding exchange_sent_def c prod.case Some option.case Let_def z_def y_def h_def p_def
        using adm by (auto simp: option.map_ident split_beta split: option.split)
      have e: "exchanges_ok (slot_mut i ?f (nd_exchanges m))"
        "list_ex registers (ex_slots (slot_mut i ?f (nd_exchanges m))) = list_ex registers (ex_slots (nd_exchanges m))"
        by (rule exchanges_ok_mut; use d(1) l in \<open>simp add: slot_is_live_def slot_ok_def\<close>)+
      have "lifecycle_ok y"
        by (rule lifecycle_ok_step [OF d(2), where f = p]) (use life_sent in \<open>auto simp: y_def p_def\<close>)
      moreover have "has_attempt y = has_attempt m" by (auto simp: has_attempt_def y_def p_def split: option.split)
      ultimately have yi: "node_inv x y"
        using e d by (intro node_invI) (simp_all add: y_def in_flight_def actions_ok_def slot_mut_def)
      have "slot_ok ?s" using exchanges_okD(2) [OF d(1)] l by simp
      then have early: "answered_by_success (sl_operation ?s) \<longrightarrow> ey_valid e \<and> ey_code e \<noteq> None" if "sl_early ?s = Some e" for e
        using that by (simp add: slot_ok_def)
      have slot: "i < length (ex_slots (nd_exchanges y))" "slot_is_live (ex_slots (nd_exchanges y) ! i)"
        "sl_operation (ex_slots (nd_exchanges y) ! i) = sl_operation ?s" "now' = nd_now y"
        using l nw by (simp_all add: y_def slot_mut_def slot_is_live_def)
      have "node_inv x z"
      proof (cases "sl_early ?s")
        case None
        then show ?thesis using yi by (simp add: z_def)
      next
        case e: (Some e)
        show ?thesis unfolding z_def e option.case
          by (rule settle_keeps(1) [OF yi slot(1,2,4)]) (use early [OF e] slot(3) in simp)
      qed
      then show ?thesis unfolding out by (rule advance_good)
    qed
  qed
qed

lemma poll_action_good: "good x n \<Longrightarrow> good x (snd (poll_action n))"
proof -
  assume g: "good x n"
  have len: "length (ac_ended (snd (actions_poll a))) = length (ac_ended a)" "length (ac_events (snd (actions_poll a))) = length (ac_events a)" for a
  proof -
    have "length (fold (\<lambda>index. swap (index - 1) index) is xs) = length xs" for "is" and xs :: "registration_event option list"
      by (induction "is" arbitrary: xs) (simp_all add: swap_def)
    then show "length (ac_ended (snd (actions_poll a))) = length (ac_ended a)" "length (ac_events (snd (actions_poll a))) = length (ac_events a)"
      by (auto simp: actions_poll_def split: option.split)
  qed
  have "node_inv x (snd (poll_action n))"
    by (rule node_inv_cong [of x n]) (use g len in \<open>simp_all add: good_def poll_action_def split_beta\<close>)
  moreover have "quiet (snd (poll_action n))"
    using g unfolding good_def quiet_iff by (simp add: poll_action_def split_beta node_lapse_def node_due_def)
  ultimately show ?thesis by (simp add: good_def)
qed

lemma take_counters_good: "good x n \<Longrightarrow> good x (snd (take_counters n))"
  using node_inv_cong [of x n "snd (take_counters n)"]
  by (simp add: good_def quiet_iff take_counters_def node_lapse_def node_due_def)

lemma set_subnet_good: "good x n \<Longrightarrow> good x (snd (set_subnet subnet n))"
proof -
  assume g: "good x n"
  then have inv: "node_inv x n" by (simp add: good_def)
  note d = node_invD [OF inv]
  define l where "l = (nd_link n)\<lparr>lk_subnet := subnet\<rparr>"
  show ?thesis
  proof (cases "validate l")
    case (Inl e)
    then show ?thesis using g by (simp add: set_subnet_def l_def)
  next
    case (Inr u)
    then have v: "validate l = Inr ()" by simp
    have n: "snd (set_subnet subnet n) = n\<lparr>nd_link := l\<rparr>" using v by (simp add: set_subnet_def l_def)
    have "lifecycle_ok (n\<lparr>nd_link := l\<rparr>)" using d(2) by (simp add: lifecycle_ok_def l_def split: mode.splits)
    then have "node_inv x (n\<lparr>nd_link := l\<rparr>)"
      using d v by (intro node_invI) (simp_all add: actions_ok_def in_flight_def has_attempt_def)
    moreover have "quiet (n\<lparr>nd_link := l\<rparr>)" using g unfolding good_def quiet_iff by (simp add: node_lapse_def node_due_def)
    ultimately show ?thesis using n by (simp add: good_def)
  qed
qed

text \<open>In the middle of a move: no registration exchange is live, whatever the lifecycle says.\<close>

definition moving :: "nat \<Rightarrow> node \<Rightarrow> bool" where
  "moving x n \<longleftrightarrow> node_parts x n \<and> \<not> in_flight n"

lemma movingD:
  assumes "moving x n"
  shows "exchanges_ok (nd_exchanges n)" and "lifecycle_ok n" and "actions_ok x n" and "validate (nd_link n) = Inr ()" and "\<not> in_flight n"
  using assms unfolding moving_def node_parts_def by blast+

lemma movingI:
  "exchanges_ok (nd_exchanges n) \<Longrightarrow> lifecycle_ok n \<Longrightarrow> actions_ok x n \<Longrightarrow> validate (nd_link n) = Inr () \<Longrightarrow> \<not> in_flight n \<Longrightarrow> moving x n"
  by (simp add: moving_def node_parts_def)

lemma cancel_registration_moving:
  assumes inv: "node_inv x n"
  shows "moving x (cancel_registration now n)" and "nd_link (cancel_registration now n) = nd_link n"
    and "nd_now (cancel_registration now n) = nd_now n" and "nd_lifecycle (cancel_registration now n) = nd_lifecycle n"
proof -
  note d = node_invD [OF inv]
  let ?n = "cancel_registration now n"
  show same: "nd_link ?n = nd_link n" "nd_now ?n = nd_now n" "nd_lifecycle ?n = nd_lifecycle n"
    by (auto simp: cancel_registration_def Let_def split: option.split)
  have l: "lifecycle_ok ?n" by (rule lifecycle_ok_same [OF d(2) same])
  show "moving x ?n"
  proof (cases "exchanges_registration (nd_exchanges n)")
    case None
    then have "?n = n" by (simp add: cancel_registration_def)
    moreover have "\<not> in_flight n" using None by (auto simp: in_flight_def exchanges_registration_def list_ex_iff registers_def)
    ultimately show ?thesis using d by (intro movingI) simp_all
  next
    case (Some i)
    then have i: "i < length (ex_slots (nd_exchanges n))" "registers (ex_slots (nd_exchanges n) ! i)"
      using position_Some [of _ "ex_slots (nd_exchanges n)" i] by (auto simp: exchanges_registration_def registers_def)
    have e: "nd_exchanges ?n = snd (retire i now (nd_exchanges n))" "ac_ended (nd_actions ?n) = ac_ended (nd_actions n)"
      "ac_events (nd_actions ?n) = ac_events (nd_actions n)"
      using Some by (simp_all add: cancel_registration_def Let_def)
    have "\<not> in_flight ?n" using in_flight_retire [OF d(1) i(1), of now] i(2) by (simp add: in_flight_def e)
    then show ?thesis using exchanges_ok_retire [OF d(1) i(1)] l d(3,4) e same
      by (intro movingI) (simp_all add: actions_ok_def)
  qed
qed

lemma drop_queued_release_moving:
  assumes mv: "moving x n" and now: "now = nd_now n"
  shows "moving x (drop_queued_release pick now n)" and "nd_link (drop_queued_release pick now n) = nd_link n"
    and "nd_now (drop_queued_release pick now n) = nd_now n"
proof -
  note d = movingD [OF mv]
  obtain q a where q: "take_release_if pick (nd_actions n) = (q, a)" by fastforce
  define m where "m = n\<lparr>nd_actions := a\<rparr>"
  have al: "ac_ended a = ac_ended (nd_actions n)" "ac_events a = ac_events (nd_actions n)"
    using actions_lengths(15,16) [of pick "nd_actions n"] q by simp_all
  have lm: "lifecycle_ok m" by (rule lifecycle_ok_same [OF d(2)]) (simp_all add: m_def)
  have mm: "moving x m" using d lm al by (intro movingI) (simp_all add: m_def actions_ok_def in_flight_def)
  have "moving x (drop_queued_release pick now n) \<and> nd_link (drop_queued_release pick now n) = nd_link n
      \<and> nd_now (drop_queued_release pick now n) = nd_now n"
  proof (cases "case q of None \<Rightarrow> None | Some ex \<Rightarrow> exchanges_live ex (nd_exchanges m)")
    case None
    then have "drop_queued_release pick now n = m"
      by (auto simp: drop_queued_release_def q m_def split: option.splits)
    then show ?thesis using mm by (simp add: m_def)
  next
    case (Some i)
    then obtain ex where ex: "q = Some ex" "exchanges_live ex (nd_exchanges m) = Some i" by (auto split: option.splits)
    note l = exchanges_live_Some [OF ex(2)]
    let ?s = "ex_slots (nd_exchanges m) ! i"
    define y where "y = m\<lparr>nd_exchanges := snd (retire i now (nd_exchanges m))\<rparr>"
    have r: "drop_queued_release pick now n = ended_unanswered ex ?s AttemptCancelled now y"
      using ex q by (simp add: drop_queued_release_def m_def y_def split_beta)
    note dm = movingD [OF mm]
    have own: "sl_owner ?s \<noteq> Registration"
      using registers_in_flight [of i m] l dm(5) by (auto simp: registers_def)
    have ly: "lifecycle_ok y" by (rule lifecycle_ok_same [OF dm(2)]) (simp_all add: y_def)
    have ny: "now = nd_now y" by (simp add: y_def m_def now)
    have "sl_owner ?s = Registration \<longrightarrow> has_attempt y" using own by simp
    note k = ended_unanswered_keeps [OF ly ny this]
    have "\<not> in_flight (ended_unanswered ex ?s AttemptCancelled now y)"
      using in_flight_retire [OF dm(1), of i now] l dm(5) by (simp add: in_flight_def y_def)
    then have "moving x (ended_unanswered ex ?s AttemptCancelled now y)"
      using k(1) k(4) [where i = ex and out = AttemptCancelled and x = x] dm(3,4) exchanges_ok_retire [OF dm(1), of i now] l
      by (intro movingI) (simp_all add: y_def actions_ok_def)
    then show ?thesis using r by (simp add: y_def m_def)
  qed
  then show "moving x (drop_queued_release pick now n)" "nd_link (drop_queued_release pick now n) = nd_link n"
    "nd_now (drop_queued_release pick now n) = nd_now n"
    by blast+
qed

lemma release_previous_good: "good x n \<Longrightarrow> good x (release_previous b timeout n)"
proof -
  assume g: "good x n"
  have cong: "good x m" if "good x k" "nd_exchanges m = nd_exchanges k" "nd_lifecycle m = nd_lifecycle k" "nd_link m = nd_link k"
    "nd_now m = nd_now k" "ac_ended (nd_actions m) = ac_ended (nd_actions k)"
    "length (ac_events (nd_actions m)) = length (ac_events (nd_actions k))" for m k
    using that node_inv_cong [of x k m] unfolding good_def quiet_iff by (simp add: node_lapse_def node_due_def)
  let ?c = "count_in (\<lambda>c. c\<lparr>nc_previous_releases := bump (nc_previous_releases c)\<rparr>) n"
  have gc: "good x ?c" by (rule cong [OF g]) simp_all
  obtain r m where adm: "node_admit b OpDeleteFdtEntry timeout Release 0 ?c = (r, m)" by fastforce
  have gm: "good x m" by (rule admit_good [OF gc adm]) simp_all
  show ?thesis by (rule cong [OF gm]; cases r; simp add: release_previous_def adm)
qed

lemma node_retarget_good: "good x n \<Longrightarrow> good x (snd (node_retarget f now n))"
proof -
  assume g: "good x n"
  then have inv: "node_inv x n" by (simp add: good_def)
  show ?thesis
  proof (cases "lk_mode (nd_link n)")
    case (Foreign old)
    define l where "l = (nd_link n)\<lparr>lk_mode := Foreign f\<rparr>"
    show ?thesis
    proof (cases "validate l")
      case (Inl e)
      then show ?thesis using g Foreign by (simp add: node_retarget_def l_def)
    next
      case (Inr u)
      then have v: "validate l = Inr ()" by simp
      then have f: "foreign_ok f" by (simp add: link_validate_iff l_def)
      obtain now' a where c: "catch_up now False n = (now', a)" by fastforce
      note k = catch_up_keeps [OF inv c]
      define left where "left = (case fr_bbmd old of
          Some b \<Rightarrow> if fr_release_previous f \<and> fr_bbmd f \<noteq> Some b then Some b else None | None \<Rightarrow> None)"
      define b where "b = cancel_registration now' a"
      note kb = cancel_registration_moving [OF k(2), of now', folded b_def]
      define d where "d = drop_queued_release (\<lambda>to. left \<noteq> None \<or> fr_bbmd f = Some to) now' b"
      have nb: "now' = nd_now b" using kb(3) k(3) by simp
      note kd = drop_queued_release_moving [OF kb(1) nb, of "\<lambda>to. left \<noteq> None \<or> fr_bbmd f = Some to", folded d_def]
      note dd = movingD [OF kd(1)]
      define m where "m = d\<lparr>nd_lifecycle := map_option (lifecycle_retarget f now' (fr_bbmd old = fr_bbmd f)) (nd_lifecycle d), nd_link := l\<rparr>"
      have mode: "lk_mode (nd_link d) = Foreign old" using kd(2) kb(2) k(4) Foreign by simp
      have nd: "now' = nd_now d" using kd(3) nb by simp
      from dd(2) mode obtain lc ss pend where lc: "nd_lifecycle d = Some lc" "life lc ss pend (nd_now d)"
        by (auto simp: lifecycle_ok_def)
      have rt: "lf_attempt (lifecycle_retarget f t same lc) = None"
        "lf_next (lifecycle_retarget f t same lc) = map_option (\<lambda>_. t) (fr_bbmd f)" for t same
        by (simp_all add: lifecycle_retarget_def Let_def)
      have lm: "lifecycle_ok m"
        using life.retarget [OF lc(2) f, of "fr_bbmd old = fr_bbmd f"] lc(1) rt nd
        by (auto simp: lifecycle_ok_def m_def l_def simp del: if_split)
      have "node_inv x m"
        using lm dd v lc(1) rt by (intro node_invI) (simp_all add: m_def in_flight_def has_attempt_def actions_ok_def)
      note ga = advance_good [OF this, of now']
      have "snd (node_retarget f now n) = (case left of
          Some bb \<Rightarrow> release_previous bb (effective_response_timeout old) (snd (advance now' m)) | None \<Rightarrow> snd (advance now' m))"
        unfolding node_retarget_def Foreign mode.case l_def [symmetric] v sum.case c Let_def split_beta fst_conv snd_conv left_def [symmetric]
        unfolding b_def [symmetric] d_def [symmetric] m_def by simp
      then show ?thesis using ga release_previous_good [OF ga] by (simp split: option.split)
    qed
  qed (use g in \<open>simp_all add: node_retarget_def\<close>)
qed

section \<open>Every reachable node\<close>

text \<open>A node and its host's state after any calls, with any arguments and at any times.\<close>

inductive node_reach :: "nat \<Rightarrow> node \<times> 's \<Rightarrow> bool" for x where
  new: "node_new x l now = Inr n \<Longrightarrow> node_reach x (n, s)"
| receive: "node_reach x (n, s) \<Longrightarrow> node_receive dg now policy n s = (inb, n', s') \<Longrightarrow> node_reach x (n', s')"
| resolve: "node_reach x (n, s) \<Longrightarrow> node_reach x (snd (resolve r now n), s)"
| admit_broadcast: "node_reach x (n, s) \<Longrightarrow> node_reach x (snd (node_admit_broadcast now n), s)"
| begin_exchange: "node_reach x (n, s) \<Longrightarrow> node_reach x (snd (begin_exchange peer req timeout now n), s)"
| exchange_sent: "node_reach x (n, s) \<Longrightarrow> node_reach x (snd (exchange_sent ex now n), s)"
| exchange_failed: "node_reach x (n, s) \<Longrightarrow> node_reach x (exchange_failed ex why now n, s)"
| on_deadline: "node_reach x (n, s) \<Longrightarrow> node_reach x (on_deadline now n, s)"
| retarget: "node_reach x (n, s) \<Longrightarrow> node_reach x (snd (node_retarget f now n), s)"
| set_subnet: "node_reach x (n, s) \<Longrightarrow> node_reach x (snd (set_subnet subnet n), s)"
| poll_action: "node_reach x (n, s) \<Longrightarrow> node_reach x (snd (poll_action n), s)"
| take_counters: "node_reach x (n, s) \<Longrightarrow> node_reach x (snd (take_counters n), s)"

lemma good_inv: "good x n \<Longrightarrow> node_inv x n"
  by (simp add: good_def)

lemma node_reach_good: "node_reach x (n, s) \<Longrightarrow> good x n"
proof (induction "(n, s)" arbitrary: n s rule: node_reach.induct)
  case (receive n s dg now policy inb n' s')
  then show ?case using node_receive_good [of x n dg now policy s] by (simp add: good_def)
qed (simp_all add: node_new_good resolve_good admit_broadcast_good begin_exchange_good exchange_sent_good exchange_failed_good
    on_deadline_def advance_good node_retarget_good set_subnet_good poll_action_good take_counters_good good_inv)

lemma node_reach_inv: "node_reach x (n, s) \<Longrightarrow> node_inv x n"
  by (rule good_inv [OF node_reach_good])

lemma instant_le_max: "t \<le> INSTANT_MAX"
proof -
  have "unat (inst_nanos t) \<le> 2 ^ 64 - 1" using unat_u64_less [of "inst_nanos t"] by linarith
  then show ?thesis unfolding less_eq_instant_def word_le_nat_alt INSTANT_MAX_def instant.sel unat_u64_max .
qed

text \<open>
  C5: Whatever calls a B/IP node gets, in any order and at any times, it stays consistent: its
  link is one the check accepts; it has a registration lifecycle exactly in foreign-device mode;
  at most one registration exchange is live, and exactly while the lifecycle has an attempt in
  flight; and the lifecycle is a run of the registration state machine, so all that is proved of
  those runs holds of the node.
\<close>

theorem node_consistent:
  assumes "node_reach x (n, s)"
  shows "validate (nd_link n) = Inr () \<and> (nd_lifecycle n \<noteq> None \<longleftrightarrow> is_foreign (lk_mode (nd_link n)))
    \<and> length (filter registers (ex_slots (nd_exchanges n))) = of_bool (has_attempt n)
    \<and> (\<forall>lc. nd_lifecycle n = Some lc \<longrightarrow> (\<exists>ss pend. life lc ss pend (nd_now n)))"
proof -
  note d = node_invD [OF node_reach_inv [OF assms]]
  have "length (filter registers (ex_slots (nd_exchanges n))) = of_bool (in_flight n)"
    using exchanges_okD(3) [OF d(1)]
    by (cases "filter registers (ex_slots (nd_exchanges n))") (auto simp: in_flight_def list_ex_iff filter_empty_conv filter_eq_Cons_iff)
  then have one: "length (filter registers (ex_slots (nd_exchanges n))) = of_bool (has_attempt n)" using d(5) by simp
  from d(2) have "(nd_lifecycle n \<noteq> None \<longleftrightarrow> is_foreign (lk_mode (nd_link n)))
      \<and> (\<forall>lc. nd_lifecycle n = Some lc \<longrightarrow> (\<exists>ss pend. life lc ss pend (nd_now n)))"
    by (cases rule: lifecycle_cases) (auto simp: is_foreign_def)
  with d(4) one show ?thesis by blast
qed

text \<open>
  C9: A node never falls behind. After every call nothing is left to do at its time: no
  response timeout has passed, no lease has ended unreported and no registration attempt is due,
  so the deadline it asks its caller to wake it at lies ahead. Waking it at any time runs the
  loop that catches up to its end, the bound of the model being more steps than the loop can
  take. The last instant of the 64-bit clock, at which a saturating deadline cannot lie ahead,
  is left out.
\<close>

theorem node_never_behind:
  assumes "node_reach x (n, s)" and "max now (nd_now n) \<noteq> INSTANT_MAX"
  shows "(node_next_deadline n = None \<or> (\<exists>t. node_next_deadline n = Some t \<and> nd_now n < t))
    \<and> (let woken = on_deadline now n in
       nd_now woken = max now (nd_now n)
       \<and> (node_next_deadline woken = None \<or> (\<exists>t. node_next_deadline woken = Some t \<and> nd_now woken < t))
       \<and> (\<forall>spare. catch_up_loop (catch_up_fuel n + spare) (max now (nd_now n)) True (n\<lparr>nd_now := max now (nd_now n)\<rparr>) = woken))"
proof -
  note g = node_reach_good [OF assms(1)]
  then have inv: "node_inv x n" by (simp add: good_def)
  have "nd_now n \<noteq> INSTANT_MAX" using assms(2) instant_le_max [of now] by (auto simp: max_def)
  then have one: "node_next_deadline n = None \<or> (\<exists>t. node_next_deadline n = Some t \<and> nd_now n < t)"
    using g by (simp add: good_def quiet_def)
  note a = advance_keeps [OF inv, of now, folded on_deadline_def]
  have two: "node_next_deadline (on_deadline now n) = None
      \<or> (\<exists>t. node_next_deadline (on_deadline now n) = Some t \<and> nd_now (on_deadline now n) < t)"
    using a(5) assms(2) a(2) by (simp add: quiet_def)
  let ?m = "n\<lparr>nd_now := max now (nd_now n)\<rparr>"
  have im: "node_inv x ?m" by (rule node_inv_later [OF inv]) simp
  have "catch_up_fuel ?m = catch_up_fuel n" by (simp add: catch_up_fuel_def)
  then have "catch_up_loop (catch_up_fuel n + spare) (max now (nd_now n)) True ?m = on_deadline now n" for spare
    using catch_up_loop_fuel [OF im _ assms(2) catch_up_measure_fuel, where sd = True and spare = spare]
    by (simp add: on_deadline_def advance_def catch_up_def Let_def)
  with one two a(2) show ?thesis by (simp add: Let_def)
qed

text \<open>The far device as a node with one exchange slot, just started.\<close>

definition far_node :: node where
  "far_node = (case node_new 1 far_device (Instant 1) of Inr n \<Rightarrow> n | Inl _ \<Rightarrow> undefined)"

lemma far_node_new: "node_new 1 far_device (Instant 1) = Inr far_node"
  by (simp add: far_node_def node_new_def far_device_valid Let_def)

lemma far_node_reached: "node_reach 1 (far_node, ())"
  by (rule node_reach.new [OF far_node_new])

lemma far_node_link: "nd_link far_node = far_device" "nd_now far_node = Instant 1"
proof -
  define m where "m = \<lparr>nd_link = far_device, nd_exchanges = exchanges_new 1,
      nd_lifecycle = (case lk_mode far_device of Foreign f \<Rightarrow> Some (lifecycle_new f (Instant 1)) | _ \<Rightarrow> None),
      nd_actions = actions_new 1, nd_counters = NODE_COUNTERS_ZERO, nd_latest_register = None, nd_now = Instant 1\<rparr>"
  obtain u where "validate far_device = Inr u" using far_device_valid by blast
  have "far_node = snd (advance (Instant 1) m)" using far_node_new
    by (simp add: node_new_def far_device_valid Let_def m_def)
  then have f: "far_node = catch_up_loop (catch_up_fuel m) (Instant 1) True m"
    by (simp add: advance_def catch_up_def Let_def m_def)
  have same: "nd_link (catch_up_loop k now sd n) = nd_link n \<and> nd_now (catch_up_loop k now sd n) = nd_now n" for k now sd n
  proof (induction k arbitrary: n)
    case (Suc k)
    have "nd_link (catch_up_step now sd n) = nd_link n" "nd_now (catch_up_step now sd n) = nd_now n"
      by (auto simp: catch_up_step_def Let_def time_out_def start_attempt_def split_beta
          node_admit_same [OF surjective_pairing [of "node_admit _ _ _ _ _ n"]]
          split: option.split mode.split sum.split)
    with Suc show ?case by (simp split: option.split)
  qed simp
  show "nd_link far_node = far_device" "nd_now far_node = Instant 1"
    unfolding f using same by (simp_all add: m_def)
qed

theorem node_consistent_witness:
  "\<exists>lc. nd_lifecycle far_node = Some lc \<and> length (filter registers (ex_slots (nd_exchanges far_node))) = of_bool (has_attempt far_node)"
  using node_consistent [OF far_node_reached] far_node_link by (auto simp: far_device_def is_foreign_def)

theorem node_never_behind_witness:
  "nd_now (on_deadline (Instant 7) far_node) = Instant 7
   \<and> (node_next_deadline far_node = None \<or> (\<exists>t. node_next_deadline far_node = Some t \<and> Instant 1 < t))"
proof -
  have m: "max (Instant 7) (Instant 1) = Instant 7" by (simp add: max_def less_eq_instant_def word_le_nat_alt)
  have "max (Instant 7) (nd_now far_node) \<noteq> INSTANT_MAX" by (simp add: far_node_link m INSTANT_MAX_def)
  from node_never_behind [OF far_node_reached this] show ?thesis by (simp add: far_node_link m Let_def)
qed

section \<open>One response, one exchange\<close>





















end
