(* ===== verification/Router_Rows.thy ===== *)
theory Router_Rows
  imports Bbmd_Table
begin

text \<open>
  Rows kept sorted in an array, as the router's table, its hold-down records and its searches
  keep them (\<open>crates/bacnet-router-core/src\<close>). The code moves rows only by \<open>swap_apart\<close>
  (\<open>lib.rs\<close>), one pair at a time; each of its three loops is shown to be the list operation it
  stands for: putting the last row in its place, moving a row to the end, and keeping the rows
  a test accepts. The locale \<open>sorted_table\<close> is what a table of sorted rows promises its callers,
  with the lookup and the listing after each operation proved once.
\<close>

section \<open>Moving rows\<close>

definition swap_apart :: "nat \<Rightarrow> nat \<Rightarrow> 'a list \<Rightarrow> 'a list" where
  "swap_apart low high xs =
     (if low < high \<and> high < length xs then xs[low := xs ! high, high := xs ! low] else xs)"

text \<open>\<open>for at in (index..len).rev() { swap_apart(at, at + 1) }\<close>: the row at \<open>len\<close> to \<open>index\<close>.\<close>

definition shift_in :: "nat \<Rightarrow> nat \<Rightarrow> 'a list \<Rightarrow> 'a list" where
  "shift_in index len xs = fold (\<lambda>at. swap_apart at (at + 1)) (rev [index..<len]) xs"

text \<open>\<open>for at in index + 1..len { swap_apart(at - 1, at) }\<close>: the row at \<open>index\<close> to the end.\<close>

definition shift_out :: "nat \<Rightarrow> nat \<Rightarrow> 'a list \<Rightarrow> 'a list" where
  "shift_out index len xs = fold (\<lambda>at. swap_apart (at - 1) at) [index + 1..<len] xs"

text \<open>\<open>for index in 0..len { if keep(xs[index]) { swap_apart(kept, index); kept += 1; } }\<close>.\<close>

definition compact_step :: "('a \<Rightarrow> bool) \<Rightarrow> nat \<Rightarrow> nat \<times> 'a list \<Rightarrow> nat \<times> 'a list" where
  "compact_step keep index = (\<lambda>(kept, xs). if keep (xs ! index) then (kept + 1, swap_apart kept index xs) else (kept, xs))"

definition compact_rows :: "('a \<Rightarrow> bool) \<Rightarrow> nat \<Rightarrow> 'a list \<Rightarrow> nat \<times> 'a list" where
  "compact_rows keep len xs = fold (compact_step keep) [0..<len] (0, xs)"

text \<open>\<open>xs[low..high].fill(v)\<close>.\<close>

definition fill_rows :: "nat \<Rightarrow> nat \<Rightarrow> 'a \<Rightarrow> 'a list \<Rightarrow> 'a list" where
  "fill_rows low high v xs = take low xs @ replicate (high - low) v @ drop high xs"

text \<open>
  \<open>slice::binary_search_by_key\<close>, by its contract on a slice whose keys are sorted and distinct:
  the index of the row with the key, or else the index where it belongs.
\<close>

definition binary_search_by_key :: "'k::linorder \<Rightarrow> ('r \<Rightarrow> 'k) \<Rightarrow> 'r list \<Rightarrow> nat + nat" where
  "binary_search_by_key k key rs =
     (let i = length (takeWhile (\<lambda>r. key r < k) rs)
      in if i < length rs \<and> key (rs ! i) = k then Inr i else Inl i)"

section \<open>What the loops do\<close>

lemma length_swap_apart [simp]: "length (swap_apart low high xs) = length xs"
  by (simp add: swap_apart_def)

lemma shift_in_result:
  "index \<le> len \<Longrightarrow> len < length xs \<Longrightarrow>
   shift_in index len xs = take index xs @ xs ! len # drop index (take len xs) @ drop (Suc len) xs"
proof (induction len arbitrary: xs)
  case 0
  then show ?case by (simp add: shift_in_def Cons_nth_drop_Suc drop_0)
next
  case (Suc len)
  show ?case
  proof (cases "index = Suc len")
    case True
    then show ?thesis using Suc.prems by (simp add: shift_in_def id_take_nth_drop [of "Suc len" xs, symmetric])
  next
    case False
    then have i: "index \<le> len" using Suc.prems(1) by simp
    let ?ys = "swap_apart len (Suc len) xs"
    have ys: "?ys = xs[len := xs ! Suc len, Suc len := xs ! len]" using Suc.prems(2) by (simp add: swap_apart_def)
    have "shift_in index (Suc len) xs = shift_in index len ?ys" using i by (simp add: shift_in_def)
    also have "\<dots> = take index ?ys @ ?ys ! len # drop index (take len ?ys) @ drop (Suc len) ?ys"
      using Suc.IH [OF i] Suc.prems(2) by simp
    also have "take index ?ys = take index xs" using i unfolding ys by simp
    also have "?ys ! len = xs ! Suc len" using Suc.prems(2) unfolding ys by simp
    also have "take len ?ys = take len xs" unfolding ys by simp
    also have "drop (Suc len) ?ys = xs ! len # drop (Suc (Suc len)) xs"
      using Suc.prems(2) unfolding ys by (simp add: Cons_nth_drop_Suc [symmetric])
    also have "drop index (take len xs) @ xs ! len # drop (Suc (Suc len)) xs
        = drop index (take (Suc len) xs) @ drop (Suc (Suc len)) xs"
      using i Suc.prems(2) by (simp add: take_Suc_conv_app_nth)
    finally show ?thesis .
  qed
qed

lemma shift_out_result:
  assumes "index < len" "len \<le> length xs"
  shows "shift_out index len xs = take index xs @ drop (Suc index) (take len xs) @ xs ! index # drop len xs"
proof -
  have "fold (\<lambda>at. swap_apart (at - 1) at) [index + 1..<k] xs
      = take index xs @ drop (Suc index) (take k xs) @ xs ! index # drop k xs" if "index < k" "k \<le> len" for k
    using that
  proof (induction k)
    case (Suc k)
    show ?case
    proof (cases "k = index")
      case True
      then show ?thesis using assms by (simp add: id_take_nth_drop [of index xs, symmetric])
    next
      case False
      let ?d = "drop (Suc index) (take k xs)"
      have k: "index < k" "k < length xs" using False Suc.prems assms by simp_all
      let ?ys = "(take index xs @ ?d) @ xs ! index # xs ! k # drop (Suc k) xs"
      have len: "length (take index xs @ ?d) = k - 1" using k by simp
      have "fold (\<lambda>at. swap_apart (at - 1) at) [index + 1..<Suc k] xs = swap_apart (k - 1) k ?ys"
        using Suc.IH [OF k(1)] Suc.prems k by (simp add: Cons_nth_drop_Suc)
      also have "\<dots> = (take index xs @ ?d) @ xs ! k # xs ! index # drop (Suc k) xs"
      proof -
        have at: "?ys ! (k - 1) = xs ! index" "?ys ! k = xs ! k"
          using nth_append_length [of "take index xs @ ?d" "xs ! index"]
            nth_append_length [of "(take index xs @ ?d) @ [xs ! index]" "xs ! k" "drop (Suc k) xs"] len k by simp_all
        have "?ys[k - 1 := xs ! k] = (take index xs @ ?d) @ xs ! k # xs ! k # drop (Suc k) xs"
          using len by (metis list_update_length)
        moreover have "((take index xs @ ?d) @ xs ! k # xs ! k # drop (Suc k) xs)[k := xs ! index]
            = (take index xs @ ?d) @ xs ! k # xs ! index # drop (Suc k) xs"
          using len k list_update_length [of "(take index xs @ ?d) @ [xs ! k]" "xs ! k" "drop (Suc k) xs" "xs ! index"] by simp
        moreover have "k - 1 < k" "k < length ?ys" using k by simp_all
        ultimately show ?thesis unfolding swap_apart_def using at by (simp only: if_True simp_thms)
      qed
      also have "\<dots> = take index xs @ drop (Suc index) (take (Suc k) xs) @ xs ! index # drop (Suc k) xs"
        using k by (simp add: take_Suc_conv_app_nth)
      finally show ?thesis .
    qed
  qed simp
  from this [of len] assms show ?thesis by (simp add: shift_out_def)
qed

lemma compact_rows_result:
  assumes "len \<le> length xs"
  obtains kept ys where "compact_rows keep len xs = (kept, ys)" "length ys = length xs"
    "kept = length (filter keep (take len xs))" "take kept ys = filter keep (take len xs)" "drop len ys = drop len xs"
proof -
  have "\<exists>kept ys. fold (compact_step keep) [0..<k] (0, xs) = (kept, ys) \<and> length ys = length xs
      \<and> kept = length (filter keep (take k xs)) \<and> take kept ys = filter keep (take k xs) \<and> drop k ys = drop k xs"
    if "k \<le> len" for k
    using that
  proof (induction k)
    case (Suc k)
    then obtain kept ys where r: "fold (compact_step keep) [0..<k] (0, xs) = (kept, ys)" "length ys = length xs"
        "kept = length (filter keep (take k xs))" "take kept ys = filter keep (take k xs)" "drop k ys = drop k xs"
      by auto
    have k: "k < length xs" "k < length ys" using Suc.prems assms r(2) by simp_all
    have row: "ys ! k = xs ! k" using r(5) k by (metis hd_drop_conv_nth)
    have rest: "drop (Suc k) ys = drop (Suc k) xs" using r(5) by (metis drop_drop plus_1_eq_Suc)
    have le: "kept \<le> k" unfolding r(3) using length_filter_le [of keep "take k xs"] k(1) by simp
    have tk: "take (Suc k) xs = take k xs @ [xs ! k]" using k(1) by (rule take_Suc_conv_app_nth)
    have f: "fold (compact_step keep) [0..<Suc k] (0, xs) = compact_step keep k (kept, ys)" by (simp add: r(1))
    show ?case
    proof (cases "keep (xs ! k)")
      case False
      then show ?thesis using r(2-4) rest unfolding f by (simp add: compact_step_def row tk)
    next
      case True
      let ?zs = "swap_apart kept k ys"
      have "take (Suc kept) ?zs = take kept ys @ [xs ! k]"
        using le k row by (cases "kept = k") (simp_all add: swap_apart_def take_Suc_conv_app_nth)
      moreover have "drop (Suc k) ?zs = drop (Suc k) xs" using le k by (simp add: swap_apart_def rest)
      moreover have "length ?zs = length xs" by (simp add: r(2))
      ultimately show ?thesis using True r(3,4) unfolding f by (simp add: compact_step_def row tk)
    qed
  qed simp
  from this [of len] that show ?thesis by (auto simp: compact_rows_def)
qed

lemma length_fill_rows [simp]: "low \<le> high \<Longrightarrow> high \<le> length xs \<Longrightarrow> length (fill_rows low high v xs) = length xs"
  by (simp add: fill_rows_def)

lemma fill_rows_kept:
  "low \<le> length xs \<Longrightarrow> take low (fill_rows low high v xs) = take low xs"
  by (simp add: fill_rows_def)

section \<open>Searching sorted rows\<close>

lemma sorted_split:
  fixes key :: "'r \<Rightarrow> 'k::linorder" and k :: 'k
  assumes "sorted_wrt (<) (map key rs)"
  defines "i \<equiv> length (takeWhile (\<lambda>r. key r < k) rs)"
  shows "\<forall>r \<in> set (take i rs). key r < k" and "\<forall>r \<in> set (drop i rs). k \<le> key r"
    and "i < length rs \<Longrightarrow> key (rs ! i) \<noteq> k \<Longrightarrow> \<forall>r \<in> set (drop i rs). k < key r"
    and "\<forall>r \<in> set (drop (Suc i) rs). k < key r"
proof -
  have t: "take i rs = takeWhile (\<lambda>r. key r < k) rs" and d: "drop i rs = dropWhile (\<lambda>r. key r < k) rs"
    unfolding i_def by (rule takeWhile_eq_take [symmetric], rule dropWhile_eq_drop [symmetric])
  show "\<forall>r \<in> set (take i rs). key r < k" unfolding t by (auto dest: set_takeWhileD)
  have "sorted_wrt (<) (map key (drop i rs))" using assms(1) by (simp add: drop_map [symmetric] sorted_wrt_drop)
  moreover have first: "drop i rs = r # rs' \<Longrightarrow> k \<le> key r" for r rs'
    unfolding d by (auto simp: dropWhile_eq_Cons_conv not_less)
  ultimately have ge: "\<forall>r \<in> set (drop i rs). k \<le> key r" and tl: "\<forall>r \<in> set (tl (drop i rs)). k < key r"
    by (cases "drop i rs"; force)+
  then show "\<forall>r \<in> set (drop i rs). k \<le> key r" by simp
  show "\<forall>r \<in> set (drop (Suc i) rs). k < key r" using tl by (simp add: drop_Suc tl_drop)
  assume "i < length rs" "key (rs ! i) \<noteq> k"
  then show "\<forall>r \<in> set (drop i rs). k < key r" using ge tl first Cons_nth_drop_Suc [of i rs]
    by (metis drop_eq_Nil leD list.sel(3) nle_le set_ConsD order_le_less)
qed

lemma search_found:
  fixes key :: "'r \<Rightarrow> 'k::linorder"
  assumes "sorted_wrt (<) (map key rs)"
  shows "binary_search_by_key k key rs = Inr i \<longleftrightarrow> i < length rs \<and> key (rs ! i) = k"
proof -
  define n where "n = length (takeWhile (\<lambda>r. key r < k) rs)"
  note s = sorted_split [OF assms, of k, folded n_def]
  have "i = n" if i: "i < length rs" "key (rs ! i) = k" for i
  proof (rule ccontr)
    assume "i \<noteq> n"
    then consider "i < n" | "Suc n \<le> i" by linarith
    then show False
    proof cases
      case 1
      then have "take n rs ! i \<in> set (take n rs)" using i(1) by (intro nth_mem) simp
      then show False using s(1) i(2) 1 by auto
    next
      case 2
      then have "drop (Suc n) rs ! (i - Suc n) \<in> set (drop (Suc n) rs)" using i(1) by (intro nth_mem) simp
      then show False using s(4) i 2 by auto
    qed
  qed
  then show ?thesis by (auto simp: binary_search_by_key_def Let_def n_def [symmetric])
qed

lemma search_missing:
  fixes key :: "'r \<Rightarrow> 'k::linorder"
  assumes "sorted_wrt (<) (map key rs)" "binary_search_by_key k key rs = Inl i"
  shows "i \<le> length rs" and "\<forall>r \<in> set (take i rs). key r < k" and "\<forall>r \<in> set (drop i rs). k < key r"
    and "k \<notin> key ` set rs"
proof -
  have i: "i = length (takeWhile (\<lambda>r. key r < k) rs)" and no: "\<not> (i < length rs \<and> key (rs ! i) = k)"
    using assms(2) by (auto simp: binary_search_by_key_def Let_def split: if_splits)
  note s = sorted_split [OF assms(1), of k, folded i]
  show le: "i \<le> length rs" unfolding i by (rule length_takeWhile_le)
  show lo: "\<forall>r \<in> set (take i rs). key r < k" by (rule s(1))
  show hi: "\<forall>r \<in> set (drop i rs). k < key r"
  proof (cases "i < length rs")
    case True
    then show ?thesis using no s(3) by blast
  qed simp
  have "set rs = set (take i rs) \<union> set (drop i rs)" by (metis append_take_drop_id set_append)
  then show "k \<notin> key ` set rs" using lo hi by auto
qed

section \<open>A table of sorted rows\<close>

locale sorted_table =
  fixes rows :: "'t \<Rightarrow> 'r list" and key :: "'r \<Rightarrow> 'k::linorder" and wf :: "'t \<Rightarrow> bool"
    and search :: "'k \<Rightarrow> 't \<Rightarrow> nat + nat"
  assumes keys_sorted: "wf t \<Longrightarrow> sorted_wrt (<) (map key (rows t))"
    and search_rows: "search k t = binary_search_by_key k key (rows t)"
begin

lemma search_Inr: "wf t \<Longrightarrow> search k t = Inr i \<longleftrightarrow> i < length (rows t) \<and> key (rows t ! i) = k"
  by (simp add: search_rows search_found keys_sorted)

lemmas search_Inl = search_missing [OF keys_sorted, folded search_rows]

lemma sorted_placed:
  assumes "wf t" "search (key r) t = Inl i"
  shows "sorted_wrt (<) (map key (take i (rows t) @ r # drop i (rows t)))"
proof -
  note s = search_Inl [OF assms]
  have "sorted_wrt (<) (map key (take i (rows t)) @ map key (drop i (rows t)))"
    using keys_sorted [OF assms(1)] by (metis append_take_drop_id map_append)
  then show ?thesis using s(2,3) by (auto simp: sorted_wrt_append)
qed

lemma sorted_replaced:
  "wf t \<Longrightarrow> i < length (rows t) \<Longrightarrow> key r = key (rows t ! i) \<Longrightarrow> sorted_wrt (<) (map key ((rows t)[i := r]))"
  using keys_sorted [of t] list_update_id [of "map key (rows t)" i] by (simp add: map_update)

lemma sorted_removed:
  assumes "wf t"
  shows "sorted_wrt (<) (map key (take i (rows t) @ drop (Suc i) (rows t)))"
proof -
  have "sorted_wrt (<) (map key (take i (rows t)) @ map key (drop i (rows t)))"
    using keys_sorted [OF assms] by (metis append_take_drop_id map_append)
  moreover have "set (drop (Suc i) (rows t)) \<subseteq> set (drop i (rows t))" by (simp add: set_drop_subset_set_drop)
  moreover have "sorted_wrt (<) (map key (drop (Suc i) (rows t)))"
    using keys_sorted [OF assms] by (simp add: drop_map [symmetric] sorted_wrt_drop)
  ultimately show ?thesis by (auto simp: sorted_wrt_append)
qed

lemma sorted_filtered: "wf t \<Longrightarrow> sorted_wrt (<) (map key (filter P (rows t)))"
  using keys_sorted [of t] by (induction "rows t") (auto simp: sorted_wrt_map sorted_wrt_filter)

end

sublocale sorted_table \<subseteq> keyed_table rows key wf "\<lambda>k t. find (\<lambda>r. key r = k) (rows t)"
proof
  show "distinct (map key (rows t))" if "wf t" for t
    using keys_sorted [OF that] by (simp add: strict_sorted_iff)
qed simp

context sorted_table
begin

lemma find_search: "wf t \<Longrightarrow> find (\<lambda>r. key r = k) (rows t) = (case search k t of Inr i \<Rightarrow> Some (rows t ! i) | Inl _ \<Rightarrow> None)"
proof (cases "search k t")
  case (Inl i)
  assume "wf t"
  then show ?thesis using search_Inl(4) [OF \<open>wf t\<close> Inl] Inl by (simp add: lookup_None_iff)
next
  case (Inr i)
  assume "wf t"
  then show ?thesis using search_Inr [of t k i] Inr by (simp add: lookup_Some_iff)
qed

end

end
