(* ===== verification/Route_Table.thy ===== *)
theory Route_Table
  imports Router_Rows Npdu Bacnet_Time
begin

text \<open>
  The routing table (\<open>crates/bacnet-router-core/src/table.rs\<close>, \<open>table/claims.rs\<close>,
  \<open>table/holds.rs\<close>): for each network the port it is reached through, the next router and how
  far it can be used, in an array sorted by network; learning with its two convergence modes;
  received rejects with their hold-down records; aging. The table is a finite map from network
  numbers to routes, and each call is shown to be an update of that map.
\<close>

section \<open>Routes\<close>

datatype port_id = PortId (pid_index: octet)

datatype reachability = Reachable | Busy | Unreachable

datatype convergence = Standard | Hardened

record route =
  rt_port :: port_id
  rt_direct :: bool
  rt_next_hop :: mac
  rt_last_seen :: "instant option"
  rt_last_used :: "instant option"
  rt_reachability :: reachability
  rt_busy_until :: "instant option"
  rt_flap_count :: octet
  rt_last_port_change :: "instant option"

definition ROUTE_ZERO :: route where
  "ROUTE_ZERO = \<lparr>rt_port = PortId 0, rt_direct = False, rt_next_hop = MAC_EMPTY, rt_last_seen = None, rt_last_used = None,
     rt_reachability = Reachable, rt_busy_until = None, rt_flap_count = 0, rt_last_port_change = None\<rparr>"

definition route_direct :: "port_id \<Rightarrow> route" where
  "route_direct port = ROUTE_ZERO\<lparr>rt_port := port, rt_direct := True\<rparr>"

definition route_learned :: "port_id \<Rightarrow> mac \<Rightarrow> instant \<Rightarrow> route" where
  "route_learned port next_hop now = ROUTE_ZERO\<lparr>rt_port := port, rt_next_hop := next_hop, rt_last_seen := Some now\<rparr>"

definition served_via :: "port_id \<Rightarrow> octets \<Rightarrow> route \<Rightarrow> bool" where
  "served_via port peer r \<longleftrightarrow> \<not> rt_direct r \<and> rt_port r = port \<and> mac_as_slice (rt_next_hop r) = peer"

record pending_claim =
  pe_port :: port_id
  pe_first_seen :: instant

record claim_counters =
  cc_reject_applied :: u64
  cc_reject_dampened :: u64
  cc_reject_dampened_same_state :: u64
  cc_reject_dampened_hold_down :: u64
  cc_reject_kept :: u64
  cc_learned_ok :: u64
  cc_learned_cap_ignored :: u64
  cc_flap_warned :: u64
  cc_pending_started :: u64
  cc_corroborated_applied :: u64
  cc_pending_expired :: u64
  cc_disconnect_removal_ignored :: u64
  cc_hold_evicted :: u64

definition CLAIM_COUNTERS_ZERO :: claim_counters where
  "CLAIM_COUNTERS_ZERO = \<lparr>cc_reject_applied = 0, cc_reject_dampened = 0, cc_reject_dampened_same_state = 0,
     cc_reject_dampened_hold_down = 0, cc_reject_kept = 0, cc_learned_ok = 0, cc_learned_cap_ignored = 0,
     cc_flap_warned = 0, cc_pending_started = 0, cc_corroborated_applied = 0, cc_pending_expired = 0,
     cc_disconnect_removal_ignored = 0, cc_hold_evicted = 0\<rparr>"

text \<open>\<open>*count = count.saturating_add(1)\<close> on the counters' 64 bits.\<close>

definition one_more :: "u64 \<Rightarrow> u64" where
  "one_more n = u64_saturating_add n 1"

record timing =
  tm_busy_for :: duration
  tm_hold_down :: duration
  tm_corroboration :: duration

definition TIMING_DEFAULT :: timing where
  "TIMING_DEFAULT = \<lparr>tm_busy_for = from_secs 30, tm_hold_down = from_secs 30, tm_corroboration = from_secs 60\<rparr>"

record route_slot =
  rw_network :: u16
  rw_route :: route
  rw_pending :: "pending_claim option"

definition VACANT :: route_slot where
  "VACANT = \<lparr>rw_network = 0, rw_route = ROUTE_ZERO, rw_pending = None\<rparr>"

definition is_reserved :: "u16 \<Rightarrow> bool" where
  "is_reserved network \<longleftrightarrow> network = 0 \<or> network = 0xFFFF"

section \<open>Hold-down records\<close>

record hold =
  ho_network :: u16
  ho_port :: port_id
  ho_since :: instant

definition NO_HOLD :: hold where
  "NO_HOLD = \<lparr>ho_network = 0, ho_port = PortId 0, ho_since = INSTANT_ZERO\<rparr>"

record holds =
  hs_records :: "hold list"
  hs_len :: nat

definition holds_new :: "nat \<Rightarrow> holds" where
  "holds_new h = \<lparr>hs_records = replicate h NO_HOLD, hs_len = 0\<rparr>"

definition holds_stored :: "holds \<Rightarrow> hold list" where
  "holds_stored hs = take (hs_len hs) (hs_records hs)"

definition holds_since :: "u16 \<Rightarrow> port_id \<Rightarrow> holds \<Rightarrow> instant option" where
  "holds_since network port hs =
     map_option ho_since (find (\<lambda>h. ho_network h = network \<and> ho_port h = port) (holds_stored hs))"

text \<open>\<open>Iterator::min_by_key\<close>, which takes the first of the least.\<close>

definition min_by_key :: "('a \<Rightarrow> 'k::linorder) \<Rightarrow> 'a list \<Rightarrow> nat option" where
  "min_by_key key xs = position (\<lambda>x. list_all (\<lambda>y. key x \<le> key y) xs) xs"

definition holds_record :: "u16 \<Rightarrow> port_id \<Rightarrow> instant \<Rightarrow> holds \<Rightarrow> bool \<times> holds" where
  "holds_record network port now hs =
     (let hold = \<lparr>ho_network = network, ho_port = port, ho_since = now\<rparr> in
      case position (\<lambda>h. ho_network h = network \<and> ho_port h = port) (holds_stored hs) of
        Some i \<Rightarrow> (False, hs\<lparr>hs_records := (hs_records hs)[i := hold]\<rparr>)
      | None \<Rightarrow>
          if hs_len hs < length (hs_records hs)
          then (False, hs\<lparr>hs_records := (hs_records hs)[hs_len hs := hold], hs_len := hs_len hs + 1\<rparr>)
          else (True, case min_by_key ho_since (hs_records hs) of
                        Some i \<Rightarrow> hs\<lparr>hs_records := (hs_records hs)[i := hold]\<rparr>
                      | None \<Rightarrow> hs))"

definition holds_clear :: "holds \<Rightarrow> holds" where
  "holds_clear hs = hs\<lparr>hs_records := fill_rows 0 (hs_len hs) NO_HOLD (hs_records hs), hs_len := 0\<rparr>"

definition holds_forget :: "u16 \<Rightarrow> holds \<Rightarrow> holds" where
  "holds_forget network hs =
     (let (kept, records) = compact_rows (\<lambda>h. ho_network h \<noteq> network) (hs_len hs) (hs_records hs)
      in hs\<lparr>hs_records := fill_rows kept (hs_len hs) NO_HOLD records, hs_len := kept\<rparr>)"

section \<open>The table\<close>

record table =
  tb_slots :: "route_slot list"
  tb_len :: nat
  tb_holds :: holds
  tb_counters :: claim_counters
  tb_convergence :: convergence

definition table_new :: "nat \<Rightarrow> nat \<Rightarrow> table" where
  "table_new r h = \<lparr>tb_slots = replicate r VACANT, tb_len = 0, tb_holds = holds_new h,
     tb_counters = CLAIM_COUNTERS_ZERO, tb_convergence = Standard\<rparr>"

definition table_clear :: "table \<Rightarrow> table" where
  "table_clear t = t\<lparr>tb_slots := fill_rows 0 (tb_len t) VACANT (tb_slots t), tb_len := 0,
     tb_holds := holds_clear (tb_holds t), tb_counters := CLAIM_COUNTERS_ZERO\<rparr>"

definition set_convergence :: "convergence \<Rightarrow> table \<Rightarrow> table" where
  "set_convergence c t = t\<lparr>tb_convergence := c\<rparr>"

abbreviation tally_claim :: "(claim_counters \<Rightarrow> claim_counters) \<Rightarrow> table \<Rightarrow> table" where
  "tally_claim f t \<equiv> t\<lparr>tb_counters := f (tb_counters t)\<rparr>"

definition stored :: "table \<Rightarrow> route_slot list" where
  "stored t = take (tb_len t) (tb_slots t)"

definition table_find :: "u16 \<Rightarrow> table \<Rightarrow> nat + nat" where
  "table_find network t = binary_search_by_key network rw_network (stored t)"

text \<open>\<open>slot_mut\<close>: the slot a call changes in place.\<close>

definition slot_update :: "u16 \<Rightarrow> (route_slot \<Rightarrow> route_slot) \<Rightarrow> table \<Rightarrow> table" where
  "slot_update network f t =
     (case table_find network t of
        Inr i \<Rightarrow> t\<lparr>tb_slots := (tb_slots t)[i := f (tb_slots t ! i)]\<rparr>
      | Inl _ \<Rightarrow> t)"

definition table_put :: "u16 \<Rightarrow> route \<Rightarrow> table \<Rightarrow> bool \<times> table" where
  "table_put network r t =
     (let slot = \<lparr>rw_network = network, rw_route = r, rw_pending = None\<rparr> in
      case table_find network t of
        Inr i \<Rightarrow> (True, t\<lparr>tb_slots := (tb_slots t)[i := slot]\<rparr>)
      | Inl i \<Rightarrow>
          if tb_len t = length (tb_slots t) then (False, t)
          else (True, t\<lparr>tb_slots := shift_in i (tb_len t) ((tb_slots t)[tb_len t := slot]), tb_len := tb_len t + 1\<rparr>))"

definition route_lookup :: "u16 \<Rightarrow> table \<Rightarrow> route option" where
  "route_lookup network t =
     (case table_find network t of Inr i \<Rightarrow> Some (rw_route (tb_slots t ! i)) | Inl _ \<Rightarrow> None)"

definition table_remove :: "u16 \<Rightarrow> table \<Rightarrow> route option \<times> table" where
  "table_remove network t =
     (case table_find network t of
        Inl _ \<Rightarrow> (None, t)
      | Inr i \<Rightarrow>
          let r = rw_route (tb_slots t ! i);
              slots = shift_out i (tb_len t) (tb_slots t);
              len = tb_len t - 1
          in (Some r, t\<lparr>tb_slots := slots[len := VACANT], tb_len := len, tb_holds := holds_forget network (tb_holds t)\<rparr>))"

definition table_routes :: "table \<Rightarrow> (u16 \<times> route) list" where
  "table_routes t = map (\<lambda>s. (rw_network s, rw_route s)) (stored t)"

definition table_networks :: "table \<Rightarrow> u16 list" where
  "table_networks t = map rw_network (stored t)"

definition networks_on_port :: "port_id \<Rightarrow> table \<Rightarrow> u16 list" where
  "networks_on_port port t = map fst (filter (\<lambda>(_, r). rt_port r = port) (table_routes t))"

definition networks_not_on_port :: "port_id \<Rightarrow> table \<Rightarrow> u16 list" where
  "networks_not_on_port port t = map fst (filter (\<lambda>(_, r). rt_port r \<noteq> port) (table_routes t))"

definition add_direct :: "u16 \<Rightarrow> port_id \<Rightarrow> table \<Rightarrow> bool \<times> table" where
  "add_direct network port t =
     (if is_reserved network then (False, t)
      else table_put network (route_direct port) (t\<lparr>tb_holds := holds_forget network (tb_holds t)\<rparr>))"

definition add_learned :: "u16 \<Rightarrow> port_id \<Rightarrow> mac \<Rightarrow> instant \<Rightarrow> table \<Rightarrow> bool \<times> table" where
  "add_learned network port next_hop now t =
     (if is_reserved network then (False, t)
      else
        let learn = (\<lambda>last_used.
              table_put network ((route_learned port next_hop now)\<lparr>rt_last_used := last_used\<rparr>)
                (t\<lparr>tb_holds := holds_forget network (tb_holds t)\<rparr>))
        in case route_lookup network t of
             Some existing \<Rightarrow>
               if rt_direct existing then (False, t)
               else if rt_port existing = port then learn (rt_last_used existing)
               else learn None
           | None \<Rightarrow> learn None)"

section \<open>Marks\<close>

definition busy_route :: "instant \<Rightarrow> route \<Rightarrow> bool \<times> route" where
  "busy_route deadline r =
     (if \<not> rt_direct r \<and> rt_reachability r \<noteq> Unreachable
      then (True, r\<lparr>rt_reachability := Busy, rt_busy_until := Some deadline\<rparr>) else (False, r))"

definition available_route :: "route \<Rightarrow> route" where
  "available_route r = (if \<not> rt_direct r then r\<lparr>rt_reachability := Reachable, rt_busy_until := None\<rparr> else r)"

definition unreachable_route :: "route \<Rightarrow> route" where
  "unreachable_route r = (if \<not> rt_direct r then r\<lparr>rt_reachability := Unreachable, rt_busy_until := None\<rparr> else r)"

abbreviation on_route :: "(route \<Rightarrow> route) \<Rightarrow> route_slot \<Rightarrow> route_slot" where
  "on_route f s \<equiv> s\<lparr>rw_route := f (rw_route s)\<rparr>"

definition mark_busy :: "u16 \<Rightarrow> instant \<Rightarrow> table \<Rightarrow> table" where
  "mark_busy network deadline t = slot_update network (on_route (\<lambda>r. snd (busy_route deadline r))) t"

definition mark_available :: "u16 \<Rightarrow> table \<Rightarrow> table" where
  "mark_available network t = slot_update network (on_route available_route) t"

definition mark_unreachable :: "u16 \<Rightarrow> table \<Rightarrow> table" where
  "mark_unreachable network t = slot_update network (on_route unreachable_route) t"

text \<open>\<open>for slot in &mut self.slots[..self.len]\<close>.\<close>

definition each_slot :: "(route_slot \<Rightarrow> route_slot) \<Rightarrow> table \<Rightarrow> table" where
  "each_slot f t = t\<lparr>tb_slots := map f (stored t) @ drop (tb_len t) (tb_slots t)\<rparr>"

definition mark_busy_via_peer :: "port_id \<Rightarrow> octets \<Rightarrow> instant \<Rightarrow> table \<Rightarrow> nat \<times> table" where
  "mark_busy_via_peer port peer deadline t =
     (length (filter (\<lambda>s. served_via port peer (rw_route s) \<and> fst (busy_route deadline (rw_route s))) (stored t)),
      each_slot (on_route (\<lambda>r. if served_via port peer r then snd (busy_route deadline r) else r)) t)"

definition mark_available_via_peer :: "port_id \<Rightarrow> octets \<Rightarrow> table \<Rightarrow> nat \<times> table" where
  "mark_available_via_peer port peer t =
     (length (filter (\<lambda>s. served_via port peer (rw_route s)) (stored t)),
      each_slot (on_route (\<lambda>r. if served_via port peer r then available_route r else r)) t)"

definition is_served_via_peer :: "u16 \<Rightarrow> port_id \<Rightarrow> octets \<Rightarrow> table \<Rightarrow> bool" where
  "is_served_via_peer network port peer t =
     (case route_lookup network t of Some r \<Rightarrow> served_via port peer r | None \<Rightarrow> False)"

definition routes_served_via_peer :: "port_id \<Rightarrow> octets \<Rightarrow> table \<Rightarrow> u16 list" where
  "routes_served_via_peer port peer t = map fst (filter (\<lambda>(_, r). served_via port peer r) (table_routes t))"

definition busy_lapsed :: "instant \<Rightarrow> route \<Rightarrow> bool" where
  "busy_lapsed now r = (case rt_busy_until r of Some deadline \<Rightarrow> now \<ge> deadline | None \<Rightarrow> False)"

definition clear_expired_busy :: "instant \<Rightarrow> table \<Rightarrow> nat \<times> table" where
  "clear_expired_busy now t =
     (length (filter (\<lambda>s. busy_lapsed now (rw_route s)) (stored t)),
      each_slot (on_route (\<lambda>r. if busy_lapsed now r then r\<lparr>rt_reachability := Reachable, rt_busy_until := None\<rparr> else r)) t)"

definition effective_reachability :: "u16 \<Rightarrow> instant \<Rightarrow> table \<Rightarrow> reachability option" where
  "effective_reachability network now t =
     map_option (\<lambda>r. if rt_reachability r = Busy \<and> busy_lapsed now r then Reachable else rt_reachability r)
       (route_lookup network t)"

definition table_touch :: "u16 \<Rightarrow> instant \<Rightarrow> table \<Rightarrow> table" where
  "table_touch network now t =
     slot_update network (on_route (\<lambda>r. if \<not> rt_direct r then r\<lparr>rt_last_used := Some now\<rparr> else r)) t"

section \<open>Aging\<close>

definition is_stale :: "instant \<Rightarrow> duration \<Rightarrow> route_slot \<Rightarrow> bool" where
  "is_stale now max_age s \<longleftrightarrow> \<not> rt_direct (rw_route s)
     \<and> (case rt_last_seen (rw_route s) of Some seen \<Rightarrow> saturating_duration_since now seen > max_age | None \<Rightarrow> False)"

definition purge_step :: "(route_slot \<Rightarrow> bool) \<Rightarrow> nat \<Rightarrow> (nat \<times> route_slot list) \<times> holds \<Rightarrow> (nat \<times> route_slot list) \<times> holds" where
  "purge_step stale index = (\<lambda>((kept, slots), hs).
     if stale (slots ! index) then ((kept, slots), holds_forget (rw_network (slots ! index)) hs)
     else ((kept + 1, swap_apart kept index slots), hs))"

text \<open>How many went, and the networks the callback \<open>purged\<close> is called with.\<close>

definition purge_stale :: "instant \<Rightarrow> duration \<Rightarrow> table \<Rightarrow> (nat \<times> u16 list) \<times> table" where
  "purge_stale now max_age t =
     (let stale = is_stale now max_age;
          purged = map rw_network (filter stale (stored t));
          ((kept, slots), hs) = fold (purge_step stale) [0..<tb_len t] ((0, tb_slots t), tb_holds t);
          removed = tb_len t - kept
      in ((removed, purged),
          t\<lparr>tb_slots := fill_rows kept (tb_len t) VACANT slots, tb_len := kept, tb_holds := hs\<rparr>))"

section \<open>Learning\<close>

definition FLAP_WINDOW :: duration where "FLAP_WINDOW = from_secs 60"

definition FLAP_WARNING :: octet where "FLAP_WARNING = 3"

datatype learn_refusal = Reserved | DirectRoute | TableFull

datatype learned = LearnRefused learn_refusal | LearnHeld | LearnApplied | LearnMoved port_id octet

definition learned_applied :: "learned \<Rightarrow> bool" where
  "learned_applied l = (case l of LearnApplied \<Rightarrow> True | LearnMoved _ _ \<Rightarrow> True | _ \<Rightarrow> False)"

definition learned_flapping :: "learned \<Rightarrow> bool" where
  "learned_flapping l = (case l of LearnMoved _ flaps \<Rightarrow> flaps \<ge> FLAP_WARNING | _ \<Rightarrow> False)"

definition flaps_after :: "instant \<Rightarrow> route \<Rightarrow> octet" where
  "flaps_after now existing =
     (case rt_last_port_change existing of
        Some changed \<Rightarrow>
          if saturating_duration_since now changed < FLAP_WINDOW
          then (if unat (rt_flap_count existing) + 1 < 256 then rt_flap_count existing + 1 else 255) else 1
      | None \<Rightarrow> 1)"

definition learn :: "u16 \<Rightarrow> port_id \<Rightarrow> mac \<Rightarrow> instant \<Rightarrow> table \<Rightarrow> learned \<times> table" where
  "learn network port next_hop now t =
     (if is_reserved network then (LearnRefused Reserved, t)
      else
        let refresh = (case add_learned network port next_hop now t of
                         (True, t) \<Rightarrow> (LearnApplied, t) | (False, t) \<Rightarrow> (LearnRefused TableFull, t))
        in case route_lookup network t of
             Some existing \<Rightarrow>
               if rt_direct existing then (LearnRefused DirectRoute, t)
               else if rt_port existing \<noteq> port
               then let flaps = flaps_after now existing;
                        t = (if flaps \<ge> FLAP_WARNING
                             then tally_claim (\<lambda>c. c\<lparr>cc_flap_warned := one_more (cc_flap_warned c)\<rparr>) t else t);
                        r = (route_learned port next_hop now)\<lparr>rt_flap_count := flaps, rt_last_port_change := Some now\<rparr>;
                        t = t\<lparr>tb_holds := holds_forget network (tb_holds t)\<rparr>
                    in (LearnMoved (rt_port existing) flaps, snd (table_put network r t))
               else refresh
           | None \<Rightarrow> refresh)"

definition claim_expired :: "instant \<Rightarrow> timing \<Rightarrow> pending_claim \<Rightarrow> bool" where
  "claim_expired now timing p \<longleftrightarrow> saturating_duration_since now (pe_first_seen p) > tm_corroboration timing"

text \<open>The rest of \<open>apply_claim\<close> for a stored route, its pending claim taken out.\<close>

definition apply_stored_claim :: "nat \<Rightarrow> pending_claim option \<Rightarrow> u16 \<Rightarrow> port_id \<Rightarrow> mac \<Rightarrow> instant \<Rightarrow> timing \<Rightarrow> table
    \<Rightarrow> learned \<times> table" where
  "apply_stored_claim i pend network port next_hop now timing t =
     (if tb_convergence t = Standard then learn network port next_hop now t
      else
        let (pend, t) =
              (case pend of
                 Some p \<Rightarrow>
                   if claim_expired now timing p
                   then (None, tally_claim (\<lambda>c. c\<lparr>cc_pending_expired := one_more (cc_pending_expired c)\<rparr>) t)
                   else (Some p, t)
               | None \<Rightarrow> (None, t));
            r = rw_route (tb_slots t ! i) in
        if \<not> rt_direct r \<and> rt_port r \<noteq> port
        then if (case pend of Some p \<Rightarrow> pe_port p = port | None \<Rightarrow> False)
             then learn network port next_hop now
                    (tally_claim (\<lambda>c. c\<lparr>cc_corroborated_applied := one_more (cc_corroborated_applied c)\<rparr>) t)
             else (LearnHeld,
                   tally_claim (\<lambda>c. c\<lparr>cc_pending_started := one_more (cc_pending_started c)\<rparr>)
                     (t\<lparr>tb_slots := (tb_slots t)[i := (tb_slots t ! i)\<lparr>rw_pending := Some \<lparr>pe_port = port, pe_first_seen = now\<rparr>\<rparr>]\<rparr>))
        else learn network port next_hop now t)"

definition apply_claim :: "u16 \<Rightarrow> port_id \<Rightarrow> mac \<Rightarrow> instant \<Rightarrow> timing \<Rightarrow> table \<Rightarrow> learned \<times> table" where
  "apply_claim network port next_hop now timing t =
     (case table_find network t of
        Inl _ \<Rightarrow> learn network port next_hop now t
      | Inr i \<Rightarrow>
          apply_stored_claim i (rw_pending (tb_slots t ! i)) network port next_hop now timing
            (t\<lparr>tb_slots := (tb_slots t)[i := (tb_slots t ! i)\<lparr>rw_pending := None\<rparr>]\<rparr>))"

text \<open>How many went, and the networks the callback \<open>expired\<close> is called with.\<close>

definition pending_past :: "instant \<Rightarrow> timing \<Rightarrow> route_slot \<Rightarrow> bool" where
  "pending_past now timing s = (case rw_pending s of Some p \<Rightarrow> claim_expired now timing p | None \<Rightarrow> False)"

definition expire_pending :: "instant \<Rightarrow> timing \<Rightarrow> table \<Rightarrow> (nat \<times> u16 list) \<times> table" where
  "expire_pending now timing t =
     (let past = filter (pending_past now timing) (stored t);
          t = each_slot (\<lambda>s. if pending_past now timing s then s\<lparr>rw_pending := None\<rparr> else s) t;
          t = fold (\<lambda>_. tally_claim (\<lambda>c. c\<lparr>cc_pending_expired := one_more (cc_pending_expired c)\<rparr>)) past t
      in ((length past, map rw_network past), t))"

definition table_pending :: "u16 \<Rightarrow> table \<Rightarrow> pending_claim option" where
  "table_pending network t =
     (case table_find network t of Inr i \<Rightarrow> rw_pending (tb_slots t ! i) | Inl _ \<Rightarrow> None)"

definition pending_count :: "table \<Rightarrow> nat" where
  "pending_count t = length (filter (\<lambda>s. rw_pending s \<noteq> None) (stored t))"

definition apply_management_update :: "u16 \<Rightarrow> port_id \<Rightarrow> mac \<Rightarrow> instant \<Rightarrow> table \<Rightarrow> bool \<times> table" where
  "apply_management_update network port next_hop now t = add_learned network port next_hop now t"

definition apply_management_removal :: "u16 \<Rightarrow> table \<Rightarrow> bool \<times> table" where
  "apply_management_removal network t =
     (case route_lookup network t of
        Some r \<Rightarrow> if \<not> rt_direct r then (case table_remove network t of (gone, t) \<Rightarrow> (gone \<noteq> None, t)) else (False, t)
      | None \<Rightarrow> (False, t))"

definition record_learned :: "table \<Rightarrow> table" where
  "record_learned t = tally_claim (\<lambda>c. c\<lparr>cc_learned_ok := one_more (cc_learned_ok c)\<rparr>) t"

definition record_learning_cap :: "table \<Rightarrow> table" where
  "record_learning_cap t = tally_claim (\<lambda>c. c\<lparr>cc_learned_cap_ignored := one_more (cc_learned_cap_ignored c)\<rparr>) t"

definition record_disconnect_removal_ignored :: "table \<Rightarrow> table" where
  "record_disconnect_removal_ignored t =
     tally_claim (\<lambda>c. c\<lparr>cc_disconnect_removal_ignored := one_more (cc_disconnect_removal_ignored c)\<rparr>) t"

section \<open>Rejects\<close>

datatype reject_effect = RejectApplied | RejectSameState | RejectHeldDown | RejectKept | RejectNotNextHop

definition reject_changes :: "reject_message_reason \<Rightarrow> instant \<Rightarrow> route \<Rightarrow> bool" where
  "reject_changes reason now r \<longleftrightarrow> \<not> rt_direct r \<and>
     (if reason = NOT_DIRECTLY_CONNECTED then rt_reachability r \<noteq> Unreachable
      else if reason = ROUTER_BUSY
      then rt_reachability r \<noteq> Unreachable \<and> (rt_reachability r \<noteq> Busy \<or> busy_lapsed now r)
      else False)"

definition is_held_down :: "u16 \<Rightarrow> port_id \<Rightarrow> instant \<Rightarrow> timing \<Rightarrow> holds \<Rightarrow> bool" where
  "is_held_down network port now timing hs =
     (case holds_since network port hs of
        Some since \<Rightarrow> saturating_duration_since now since < tm_hold_down timing | None \<Rightarrow> False)"

definition apply_reject :: "u16 \<Rightarrow> port_id \<Rightarrow> reject_message_reason \<Rightarrow> instant \<Rightarrow> timing \<Rightarrow> table \<Rightarrow> reject_effect \<times> table" where
  "apply_reject network port reason now timing t =
     (let is_learned = (case route_lookup network t of Some r \<Rightarrow> \<not> rt_direct r | None \<Rightarrow> False);
          other = (reason \<noteq> NOT_DIRECTLY_CONNECTED \<and> reason \<noteq> ROUTER_BUSY) in
      if is_learned \<and> other
      then (RejectKept, tally_claim (\<lambda>c. c\<lparr>cc_reject_kept := one_more (cc_reject_kept c)\<rparr>) t)
      else
        let changes = (case route_lookup network t of Some r \<Rightarrow> reject_changes reason now r | None \<Rightarrow> False);
            held_down = is_held_down network port now timing (tb_holds t) in
        if \<not> changes \<or> held_down
        then let t = tally_claim (\<lambda>c. c\<lparr>cc_reject_dampened := one_more (cc_reject_dampened c)\<rparr>) t in
             if changes
             then (RejectHeldDown,
                   tally_claim (\<lambda>c. c\<lparr>cc_reject_dampened_hold_down := one_more (cc_reject_dampened_hold_down c)\<rparr>) t)
             else (RejectSameState,
                   tally_claim (\<lambda>c. c\<lparr>cc_reject_dampened_same_state := one_more (cc_reject_dampened_same_state c)\<rparr>) t)
        else
          let t = tally_claim (\<lambda>c. c\<lparr>cc_reject_applied := one_more (cc_reject_applied c)\<rparr>) t;
              t = (if reason = NOT_DIRECTLY_CONNECTED then mark_unreachable network t
                   else mark_busy network (instant_saturating_add now (tm_busy_for timing)) t);
              (evicted, hs) = holds_record network port now (tb_holds t);
              t = t\<lparr>tb_holds := hs\<rparr>;
              t = (if evicted then tally_claim (\<lambda>c. c\<lparr>cc_hold_evicted := one_more (cc_hold_evicted c)\<rparr>) t else t)
          in (RejectApplied, t))"

section \<open>What a table keeps\<close>

definition route_ok :: "route \<Rightarrow> bool" where
  "route_ok r \<longleftrightarrow> (if rt_direct r then r = route_direct (rt_port r)
     else rt_last_seen r \<noteq> None \<and> (rt_reachability r = Busy \<longleftrightarrow> rt_busy_until r \<noteq> None))"

definition row_ok :: "route_slot \<Rightarrow> bool" where
  "row_ok s \<longleftrightarrow> \<not> is_reserved (rw_network s) \<and> route_ok (rw_route s)
     \<and> (\<forall>p. rw_pending s = Some p \<longrightarrow> \<not> rt_direct (rw_route s) \<and> pe_port p \<noteq> rt_port (rw_route s))"

definition holds_ok :: "nat \<Rightarrow> holds \<Rightarrow> bool" where
  "holds_ok h hs \<longleftrightarrow> length (hs_records hs) = h \<and> hs_len hs \<le> h
     \<and> distinct (map (\<lambda>x. (ho_network x, ho_port x)) (holds_stored hs))"

definition learned_networks :: "table \<Rightarrow> u16 set" where
  "learned_networks t = {rw_network s | s. s \<in> set (stored t) \<and> \<not> rt_direct (rw_route s)}"

definition table_wf :: "nat \<Rightarrow> nat \<Rightarrow> table \<Rightarrow> bool" where
  "table_wf r h t \<longleftrightarrow> length (tb_slots t) = r \<and> tb_len t \<le> r
     \<and> sorted_wrt (<) (map rw_network (stored t)) \<and> (\<forall>s \<in> set (stored t). row_ok s)
     \<and> drop (tb_len t) (tb_slots t) = replicate (r - tb_len t) VACANT
     \<and> holds_ok h (tb_holds t) \<and> ho_network ` set (holds_stored (tb_holds t)) \<subseteq> learned_networks t"

lemma table_wfD:
  assumes "table_wf r h t"
  shows "length (tb_slots t) = r" "tb_len t \<le> r" "sorted_wrt (<) (map rw_network (stored t))"
    "\<And>s. s \<in> set (stored t) \<Longrightarrow> row_ok s" "drop (tb_len t) (tb_slots t) = replicate (r - tb_len t) VACANT"
    "holds_ok h (tb_holds t)" "ho_network ` set (holds_stored (tb_holds t)) \<subseteq> learned_networks t"
  using assms unfolding table_wf_def by blast+

lemma length_stored: "table_wf r h t \<Longrightarrow> length (stored t) = tb_len t"
  by (simp add: stored_def table_wf_def)

interpretation table_rows: sorted_table stored rw_network "table_wf r h" table_find for r h
  by unfold_locales (simp_all add: table_wfD(3) table_find_def)

lemma stored_nth: "i < length (stored t) \<Longrightarrow> stored t ! i = tb_slots t ! i"
  by (simp add: stored_def)

lemma find_stored:
  assumes "table_wf r h t" "table_find n t = Inr i"
  shows "i < tb_len t" "rw_network (tb_slots t ! i) = n" "tb_slots t ! i = stored t ! i" "tb_slots t ! i \<in> set (stored t)"
  using assms table_rows.search_Inr [OF assms(1), of n i] stored_nth [of i t] nth_mem [of i "stored t"]
  by (auto simp: length_stored)

lemma route_lookup_iff:
  assumes "table_wf r h t"
  shows "route_lookup n t = Some x \<longleftrightarrow> (\<exists>s \<in> set (stored t). rw_network s = n \<and> rw_route s = x)"
proof (cases "table_find n t")
  case (Inl i)
  then show ?thesis using table_rows.search_Inl(4) [OF assms Inl] by (auto simp: route_lookup_def)
next
  case (Inr i)
  note f = find_stored [OF assms Inr]
  have l: "route_lookup n t = Some (rw_route (tb_slots t ! i))" by (simp add: route_lookup_def Inr)
  show ?thesis
  proof
    assume "route_lookup n t = Some x"
    then show "\<exists>s \<in> set (stored t). rw_network s = n \<and> rw_route s = x" using l f(2,4) by auto
  next
    assume "\<exists>s \<in> set (stored t). rw_network s = n \<and> rw_route s = x"
    then show "route_lookup n t = Some x" using l table_rows.row_unique [OF assms _ f(4)] f(2) by metis
  qed
qed

lemma route_lookup_None:
  "table_wf r h t \<Longrightarrow> route_lookup n t = None \<longleftrightarrow> n \<notin> rw_network ` set (stored t)"
  using route_lookup_iff [of r h t n] by (cases "route_lookup n t") auto

lemma find_Inl_iff: "table_wf r h t \<Longrightarrow> (\<exists>i. table_find n t = Inl i) \<longleftrightarrow> route_lookup n t = None"
  by (cases "table_find n t") (auto simp: route_lookup_def)

text \<open>Tables with the same rows, up to a change of each, look up alike.\<close>

lemma route_lookup_set:
  assumes "table_wf r h t" "table_wf r h t'"
    and "\<And>x. (\<exists>s \<in> set (stored t'). rw_network s = n \<and> rw_route s = x) \<longleftrightarrow> f (route_lookup n t) = Some x"
  shows "route_lookup n t' = f (route_lookup n t)"
proof -
  have "route_lookup n t' = Some x \<longleftrightarrow> f (route_lookup n t) = Some x" for x
    using assms(3) by (simp add: route_lookup_iff [OF assms(2)])
  then show ?thesis by (metis option.exhaust)
qed

section \<open>Hold-down records\<close>

lemma holds_forget_result:
  assumes "holds_ok h hs"
  shows "holds_ok h (holds_forget n hs)"
    and "holds_stored (holds_forget n hs) = filter (\<lambda>x. ho_network x \<noteq> n) (holds_stored hs)"
proof -
  have le: "hs_len hs \<le> length (hs_records hs)" using assms by (simp add: holds_ok_def)
  obtain kept rs where c: "compact_rows (\<lambda>x. ho_network x \<noteq> n) (hs_len hs) (hs_records hs) = (kept, rs)"
      "length rs = length (hs_records hs)" "kept = length (filter (\<lambda>x. ho_network x \<noteq> n) (holds_stored hs))"
      "take kept rs = filter (\<lambda>x. ho_network x \<noteq> n) (holds_stored hs)"
    using compact_rows_result [OF le] unfolding holds_stored_def by metis
  have k: "kept \<le> hs_len hs"
    unfolding c(3) using length_filter_le [of _ "holds_stored hs"] le by (metis holds_stored_def length_take min.absorb2)
  then have s: "holds_stored (holds_forget n hs) = take kept rs"
    using le c(2) by (simp add: holds_forget_def c(1) holds_stored_def fill_rows_kept)
  then show st: "holds_stored (holds_forget n hs) = filter (\<lambda>x. ho_network x \<noteq> n) (holds_stored hs)" using c(4) by simp
  show "holds_ok h (holds_forget n hs)"
    using assms k c(2) unfolding holds_ok_def st
    by (auto simp: holds_forget_def c(1) fill_rows_def distinct_map_filter)
qed


lemma holds_since_iff:
  assumes "holds_ok h hs"
  shows "holds_since n port hs = Some since
    \<longleftrightarrow> \<lparr>ho_network = n, ho_port = port, ho_since = since\<rparr> \<in> set (holds_stored hs)"
proof -
  have d: "distinct (map (\<lambda>x. (ho_network x, ho_port x)) (holds_stored hs))" using assms by (simp add: holds_ok_def)
  have "find (\<lambda>x. ho_network x = n \<and> ho_port x = port) (holds_stored hs) = Some x
      \<longleftrightarrow> x \<in> set (holds_stored hs) \<and> ho_network x = n \<and> ho_port x = port" for x
  proof
    assume x: "x \<in> set (holds_stored hs) \<and> ho_network x = n \<and> ho_port x = port"
    then obtain y where y: "find (\<lambda>x. ho_network x = n \<and> ho_port x = port) (holds_stored hs) = Some y"
      by (cases "find (\<lambda>x. ho_network x = n \<and> ho_port x = port) (holds_stored hs)") (auto simp: find_None_iff)
    then have "y \<in> set (holds_stored hs)" "(ho_network y, ho_port y) = (ho_network x, ho_port x)"
      using find_SomeD [OF y] x by simp_all
    then have "y = x" using d x by (auto simp: distinct_map dest: inj_onD)
    with y show "find (\<lambda>x. ho_network x = n \<and> ho_port x = port) (holds_stored hs) = Some x" by simp
  qed (use find_SomeD in fast)
  then have "holds_since n port hs = Some since
      \<longleftrightarrow> (\<exists>x \<in> set (holds_stored hs). ho_network x = n \<and> ho_port x = port \<and> ho_since x = since)"
    by (auto simp: holds_since_def)
  moreover have "ho_network x = n \<and> ho_port x = port \<and> ho_since x = since
      \<longleftrightarrow> x = \<lparr>ho_network = n, ho_port = port, ho_since = since\<rparr>" for x :: hold by (cases x) auto
  ultimately show ?thesis by simp
qed

lemma distinct_row_update:
  assumes "distinct (map k xs)" "i < length xs" "k x \<notin> k ` (set xs - {xs ! i})"
  shows "distinct (map k (xs[i := x]))" "set (xs[i := x]) = insert x (set xs - {xs ! i})"
proof -
  have "k x \<notin> set (map k xs) - {map k xs ! i}"
  proof
    assume a: "k x \<in> set (map k xs) - {map k xs ! i}"
    then obtain y where y: "y \<in> set xs" "k y = k x" by auto
    then have "y \<noteq> xs ! i" using a assms(2) by auto
    with y(1) have "k y \<in> k ` (set xs - {xs ! i})" by blast
    with y(2) assms(3) show False by simp
  qed
  then show "distinct (map k (xs[i := x]))" unfolding map_update by (rule distinct_list_update [OF assms(1)])
  show "set (xs[i := x]) = insert x (set xs - {xs ! i})"
    using assms(1,2) by (intro set_update_distinct) (auto simp: distinct_map)
qed

lemma min_by_key_Some:
  assumes "xs \<noteq> []"
  obtains i where "min_by_key key xs = Some i" "i < length xs" "\<And>x. x \<in> set xs \<Longrightarrow> key (xs ! i) \<le> key x"
proof (cases "min_by_key key xs")
  case None
  obtain x where "x \<in> set xs" "\<forall>y \<in> set xs. key x \<le> key y"
  proof -
    have "Min (key ` set xs) \<in> key ` set xs" using assms by (intro Min_in) simp_all
    then obtain x where "x \<in> set xs" "key x = Min (key ` set xs)" by auto
    then show thesis using that [of x] by simp
  qed
  with None show ?thesis by (auto simp: min_by_key_def list_all_iff)
next
  case (Some i)
  with position_Some [of _ xs i] that show ?thesis by (auto simp: min_by_key_def list_all_iff)
qed

text \<open>
  A change is recorded in its own record, in a new one, or, when the pool is full, in the place
  of the oldest.
\<close>

lemma holds_record_result:
  assumes ok: "holds_ok h hs" and rec: "holds_record n port now hs = (ev, hs')"
  defines "x \<equiv> \<lparr>ho_network = n, ho_port = port, ho_since = now\<rparr>"
  shows "holds_ok h hs'
    \<and> (\<not> ev \<longrightarrow> set (holds_stored hs')
          = insert x {y \<in> set (holds_stored hs). ho_network y \<noteq> n \<or> ho_port y \<noteq> port})
    \<and> (ev \<longrightarrow> length (holds_stored hs) = h \<and> (h = 0 \<longrightarrow> hs' = hs)
          \<and> (0 < h \<longrightarrow> (\<exists>old \<in> set (holds_stored hs). (\<forall>y \<in> set (holds_stored hs). ho_since old \<le> ho_since y)
                \<and> set (holds_stored hs') = insert x (set (holds_stored hs) - {old}))))"
proof -
  let ?k = "\<lambda>y. (ho_network y, ho_port y)"
  note d = ok [unfolded holds_ok_def]
  have len: "length (holds_stored hs) = hs_len hs" using d by (simp add: holds_stored_def)
  show ?thesis
  proof (cases "position (\<lambda>h. ho_network h = n \<and> ho_port h = port) (holds_stored hs)")
    case (Some i)
    then have i: "i < hs_len hs" "?k (holds_stored hs ! i) = ?k x" using position_Some [OF Some] len by (auto simp: x_def)
    have r: "ev = False" "hs' = hs\<lparr>hs_records := (hs_records hs)[i := x]\<rparr>"
      using rec by (simp_all add: holds_record_def Some x_def)
    have st: "holds_stored hs' = (holds_stored hs)[i := x]" by (simp add: r holds_stored_def take_update_swap)
    have out: "?k x \<notin> ?k ` (set (holds_stored hs) - {holds_stored hs ! i})"
      using d i len by (force simp: distinct_map inj_on_def)
    note u = distinct_row_update [of ?k "holds_stored hs" i x, OF _ _ out]
    have "set (holds_stored hs) - {holds_stored hs ! i} = {y \<in> set (holds_stored hs). ho_network y \<noteq> n \<or> ho_port y \<noteq> port}"
    proof -
      have "inj_on ?k (set (holds_stored hs))" "holds_stored hs ! i \<in> set (holds_stored hs)" using d i(1) len by (simp_all add: distinct_map)
      from inj_on_eq_iff [OF this(1) _ this(2)] i(2)
      have "y = holds_stored hs ! i \<longleftrightarrow> ho_network y = n \<and> ho_port y = port" if "y \<in> set (holds_stored hs)" for y
        using that by (auto simp: x_def)
      then show ?thesis by auto
    qed
    moreover have "hs_len hs' = hs_len hs" "length (hs_records hs') = length (hs_records hs)" by (simp_all add: r(2))
    ultimately show ?thesis using u d i(1) len r(1) by (simp add: holds_ok_def st)
  next
    case None
    then have new: "\<forall>y \<in> set (holds_stored hs). ho_network y \<noteq> n \<or> ho_port y \<noteq> port" by auto
    then have old: "{y \<in> set (holds_stored hs). ho_network y \<noteq> n \<or> ho_port y \<noteq> port} = set (holds_stored hs)" by auto
    show ?thesis
    proof (cases "hs_len hs < length (hs_records hs)")
      case True
      then have r: "ev = False" "hs' = hs\<lparr>hs_records := (hs_records hs)[hs_len hs := x], hs_len := hs_len hs + 1\<rparr>"
        using rec by (simp_all add: holds_record_def None x_def)
      have "holds_stored hs' = holds_stored hs @ [x]" using True by (simp add: r holds_stored_def take_Suc_conv_app_nth)
      then show ?thesis using d r True new old by (auto simp: holds_ok_def x_def)
    next
      case False
      then have full: "hs_len hs = h" "holds_stored hs = hs_records hs" using d by (simp_all add: holds_stored_def)
      show ?thesis
      proof (cases "hs_records hs = []")
        case True
        then have "ev = True" "hs' = hs" using rec False None by (auto simp: holds_record_def min_by_key_def)
        then show ?thesis using True ok full d by simp
      next
        case ne: False
        obtain i where i: "min_by_key ho_since (hs_records hs) = Some i" "i < length (hs_records hs)"
            "\<And>y. y \<in> set (hs_records hs) \<Longrightarrow> ho_since (hs_records hs ! i) \<le> ho_since y"
          using min_by_key_Some [OF ne] by blast
        have r: "ev = True" "hs' = hs\<lparr>hs_records := (hs_records hs)[i := x]\<rparr>"
          using rec False None i(1) by (simp_all add: holds_record_def x_def)
        have st: "holds_stored hs' = (holds_stored hs)[i := x]" using full by (simp add: r holds_stored_def)
        have out: "?k x \<notin> ?k ` (set (holds_stored hs) - {holds_stored hs ! i})" using new by (auto simp: x_def)
        note u = distinct_row_update [of ?k "holds_stored hs" i x, OF _ _ out]
        have "0 < h" using ne d by auto
        moreover have "hs_len hs' = hs_len hs" "length (hs_records hs') = length (hs_records hs)" by (simp_all add: r(2))
        ultimately show ?thesis using u d i r(1) full len by (auto simp: holds_ok_def st intro!: bexI [of _ "holds_stored hs ! i"])
      qed
    qed
  qed
qed

section \<open>The rows after each change\<close>

text \<open>A table whose rows change in place, each keeping its network and what it must keep.\<close>

lemma rows_in_place:
  assumes "table_wf r h t" "length slots = r" "drop (tb_len t) slots = drop (tb_len t) (tb_slots t)"
    and "take (tb_len t) slots = map f (stored t)"
    and "\<And>s. s \<in> set (stored t) \<Longrightarrow> rw_network (f s) = rw_network s \<and> row_ok (f s)
           \<and> (rt_direct (rw_route (f s)) \<longrightarrow> rt_direct (rw_route s))"
  shows "table_wf r h (t\<lparr>tb_slots := slots\<rparr>)" "stored (t\<lparr>tb_slots := slots\<rparr>) = map f (stored t)"
proof -
  note d = table_wfD [OF assms(1)]
  show st: "stored (t\<lparr>tb_slots := slots\<rparr>) = map f (stored t)" using assms(4) by (simp add: stored_def)
  have "map rw_network (map f (stored t)) = map rw_network (stored t)" using assms(5) by simp
  moreover have "learned_networks t \<subseteq> learned_networks (t\<lparr>tb_slots := slots\<rparr>)"
  proof
    fix n assume "n \<in> learned_networks t"
    then obtain s where s: "s \<in> set (stored t)" "\<not> rt_direct (rw_route s)" "n = rw_network s" by (auto simp: learned_networks_def)
    then show "n \<in> learned_networks (t\<lparr>tb_slots := slots\<rparr>)"
      using assms(5) [OF s(1)] unfolding learned_networks_def st by (auto intro!: exI [of _ "f s"])
  qed
  ultimately show "table_wf r h (t\<lparr>tb_slots := slots\<rparr>)"
    using d assms(2,3,5) unfolding table_wf_def st by (auto simp del: map_map)
qed

lemma slot_update_rows:
  assumes wf: "table_wf r h t"
    and f: "\<And>s. s \<in> set (stored t) \<Longrightarrow> rw_network s = n \<Longrightarrow> rw_network (f s) = n \<and> row_ok (f s)
           \<and> (rt_direct (rw_route (f s)) \<longrightarrow> rt_direct (rw_route s))"
  shows "table_wf r h (slot_update n f t)"
    "stored (slot_update n f t) = map (\<lambda>s. if rw_network s = n then f s else s) (stored t)"
proof -
  let ?g = "\<lambda>s. if rw_network s = n then f s else s"
  note d = table_wfD [OF wf]
  have g: "rw_network (?g s) = rw_network s \<and> row_ok (?g s) \<and> (rt_direct (rw_route (?g s)) \<longrightarrow> rt_direct (rw_route s))"
    if "s \<in> set (stored t)" for s using f d(4) that by auto
  have "table_wf r h (slot_update n f t) \<and> stored (slot_update n f t) = map ?g (stored t)"
  proof (cases "table_find n t")
    case (Inl i)
    then have "n \<notin> rw_network ` set (stored t)" by (rule table_rows.search_Inl(4) [OF wf])
    then have "map ?g (stored t) = stored t" by (intro map_idI) auto
    then show ?thesis using wf by (simp add: slot_update_def Inl)
  next
    case (Inr i)
    note i = find_stored [OF wf Inr]
    have "take (tb_len t) ((tb_slots t)[i := f (tb_slots t ! i)]) = (stored t)[i := f (stored t ! i)]"
      by (simp add: stored_def take_update_swap i(1))
    also have "\<dots> = map ?g (stored t)"
    proof (rule nth_equalityI)
      fix j assume j: "j < length ((stored t)[i := f (stored t ! i)])"
      have "rw_network (stored t ! j) = n \<longleftrightarrow> j = i"
        using table_rows.search_Inr [OF wf, of n j] Inr j by auto
      then show "(stored t)[i := f (stored t ! i)] ! j = map ?g (stored t) ! j" using j by (simp add: nth_list_update)
    qed simp
    finally have "take (tb_len t) ((tb_slots t)[i := f (tb_slots t ! i)]) = map ?g (stored t)" .
    from rows_in_place [OF wf _ _ this g] show ?thesis using i(1) d(1) by (simp add: slot_update_def Inr)
  qed
  then show "table_wf r h (slot_update n f t)"
    "stored (slot_update n f t) = map (\<lambda>s. if rw_network s = n then f s else s) (stored t)" by simp_all
qed

lemma each_slot_rows:
  assumes wf: "table_wf r h t"
    and f: "\<And>s. s \<in> set (stored t) \<Longrightarrow> rw_network (f s) = rw_network s \<and> row_ok (f s)
           \<and> (rt_direct (rw_route (f s)) \<longrightarrow> rt_direct (rw_route s))"
  shows "table_wf r h (each_slot f t)" "stored (each_slot f t) = map f (stored t)"
proof -
  note d = table_wfD [OF wf]
  have "length (map f (stored t) @ drop (tb_len t) (tb_slots t)) = r" using d(1,2) by (simp add: stored_def)
  from rows_in_place [OF wf this _ _ f] show "table_wf r h (each_slot f t)" "stored (each_slot f t) = map f (stored t)"
    using length_stored [OF wf] by (simp_all add: each_slot_def)
qed

lemma learned_networks_iff:
  "table_wf r h t \<Longrightarrow> n \<in> learned_networks t \<longleftrightarrow> (\<exists>x. route_lookup n t = Some x \<and> \<not> rt_direct x)"
  by (auto simp: learned_networks_def route_lookup_iff)

lemma table_put_rows:
  assumes wf: "table_wf r h t" and ok: "\<not> is_reserved n" "route_ok x"
    and holds: "rt_direct x \<Longrightarrow> n \<notin> ho_network ` set (holds_stored (tb_holds t))"
    and put: "table_put n x t = (done', t')"
  shows "table_wf r h t'" "done' \<longleftrightarrow> route_lookup n t \<noteq> None \<or> tb_len t < r"
    "\<not> done' \<Longrightarrow> t' = t"
    "done' \<Longrightarrow> set (stored t') = insert \<lparr>rw_network = n, rw_route = x, rw_pending = None\<rparr> {s \<in> set (stored t). rw_network s \<noteq> n}"
    "tb_holds t' = tb_holds t" "tb_counters t' = tb_counters t" "tb_convergence t' = tb_convergence t"
proof -
  let ?s = "\<lparr>rw_network = n, rw_route = x, rw_pending = None\<rparr>"
  note d = table_wfD [OF wf]
  have sok: "row_ok ?s" using ok by (simp add: row_ok_def)
  have same: "tb_holds t' = tb_holds t \<and> tb_counters t' = tb_counters t \<and> tb_convergence t' = tb_convergence t"
    using put by (auto simp: table_put_def Let_def split: sum.splits if_splits)
  have wf': "table_wf r h t'" if "length (tb_slots t') = r" "tb_len t' \<le> r" "sorted_wrt (<) (map rw_network (stored t'))"
      "drop (tb_len t') (tb_slots t') = replicate (r - tb_len t') VACANT"
      "set (stored t') = insert ?s {s \<in> set (stored t). rw_network s \<noteq> n}"
  proof -
    have "m \<in> learned_networks t'" if m: "m \<in> ho_network ` set (holds_stored (tb_holds t))" for m
    proof (cases "m = n")
      case True
      then have "\<not> rt_direct x" using m holds by blast
      then show ?thesis unfolding learned_networks_def \<open>set (stored t') = _\<close> True
        by (auto intro!: exI [of _ ?s])
    next
      case False
      then show ?thesis using m d(7) \<open>set (stored t') = _\<close> by (auto simp: learned_networks_def)
    qed
    then show ?thesis using that d(4,6) sok same unfolding table_wf_def by auto
  qed
  have "table_wf r h t' \<and> (done' \<longleftrightarrow> route_lookup n t \<noteq> None \<or> tb_len t < r) \<and> (\<not> done' \<longrightarrow> t' = t)
      \<and> (done' \<longrightarrow> set (stored t') = insert ?s {s \<in> set (stored t). rw_network s \<noteq> n})"
  proof (cases "table_find n t")
    case (Inr i)
    note i = find_stored [OF wf Inr]
    have p: "done'" "t' = t\<lparr>tb_slots := (tb_slots t)[i := ?s]\<rparr>" using put by (simp_all add: table_put_def Inr)
    have st: "stored t' = (stored t)[i := ?s]" by (simp add: p stored_def take_update_swap)
    have il: "i < length (stored t)" using i(1) length_stored [OF wf] by simp
    have dist: "distinct (map rw_network (stored t))" by (rule table_rows.keys_distinct [OF wf])
    have eq: "set (stored t') = insert ?s (set (stored t) - {stored t ! i})"
      unfolding st using dist il by (intro set_update_distinct) (simp_all add: distinct_map)
    also have "set (stored t) - {stored t ! i} = {s \<in> set (stored t). rw_network s \<noteq> n}"
      using table_rows.row_unique [OF wf] i(2-4) by auto
    finally have set: "set (stored t') = insert ?s {s \<in> set (stored t). rw_network s \<noteq> n}" .
    have "sorted_wrt (<) (map rw_network (stored t'))"
      unfolding st using table_rows.sorted_replaced [OF wf il, of ?s] i(2,3) by simp
    with wf' [OF _ _ _ _ set] have "table_wf r h t'" using d(1,2,5) i(1) by (simp add: p)
    then show ?thesis using p(1) set by (simp add: route_lookup_def Inr)
  next
    case (Inl i)
    note i = table_rows.search_Inl [OF wf Inl]
    have none: "route_lookup n t = None" by (simp add: route_lookup_def Inl)
    show ?thesis
    proof (cases "tb_len t = r")
      case True
      then show ?thesis using put wf none d(1) by (simp add: table_put_def Inl)
    next
      case False
      then have lt: "tb_len t < r" using d(2) by simp
      have p: "done'" "tb_slots t' = shift_in i (tb_len t) ((tb_slots t)[tb_len t := ?s])" "tb_len t' = tb_len t + 1"
        using put lt d(1) by (auto simp: table_put_def Inl)
      have il: "i \<le> tb_len t" using i(1) length_stored [OF wf] by simp
      have sl: "tb_slots t' = take i (tb_slots t) @ ?s # drop i (take (tb_len t) (tb_slots t)) @ drop (Suc (tb_len t)) (tb_slots t)"
        unfolding p(2) using shift_in_result [OF il, of "(tb_slots t)[tb_len t := ?s]"] il lt d(1) by simp
      have st: "stored t' = take i (stored t) @ ?s # drop i (stored t)"
        unfolding stored_def p(3) sl using il lt d(1) by (simp add: min_def Suc_diff_le)
      have notin: "n \<notin> rw_network ` set (stored t)" by (rule i(4))
      have "set (stored t') = insert ?s (set (take i (stored t)) \<union> set (drop i (stored t)))" unfolding st by auto
      also have "set (take i (stored t)) \<union> set (drop i (stored t)) = set (stored t)" by (metis append_take_drop_id set_append)
      also have "set (stored t) = {s \<in> set (stored t). rw_network s \<noteq> n}" using notin by auto
      finally have set: "set (stored t') = insert ?s {s \<in> set (stored t). rw_network s \<noteq> n}" .
      have "sorted_wrt (<) (map rw_network (stored t'))"
        unfolding st using table_rows.sorted_placed [OF wf, of ?s i] Inl by simp
      moreover have "drop (tb_len t') (tb_slots t') = replicate (r - tb_len t') VACANT"
      proof -
        have "drop (Suc (tb_len t)) (tb_slots t) = drop 1 (drop (tb_len t) (tb_slots t))" by simp
        then have "drop (Suc (tb_len t)) (tb_slots t) = replicate (r - Suc (tb_len t)) VACANT" unfolding d(5) by simp
        then show ?thesis using il lt d(1) unfolding p(3) sl by (simp add: min_def Suc_diff_le)
      qed
      moreover have "length (tb_slots t') = r" using d(1) lt il unfolding sl by simp
      ultimately have "table_wf r h t'" using wf' set lt p(3) by simp
      then show ?thesis using p(1) set none lt by simp
    qed
  qed
  then show "table_wf r h t'" "done' \<longleftrightarrow> route_lookup n t \<noteq> None \<or> tb_len t < r" "\<not> done' \<Longrightarrow> t' = t"
    "done' \<Longrightarrow> set (stored t') = insert ?s {s \<in> set (stored t). rw_network s \<noteq> n}" by simp_all
  show "tb_holds t' = tb_holds t" "tb_counters t' = tb_counters t" "tb_convergence t' = tb_convergence t" using same by simp_all
qed

lemma route_lookup_put:
  assumes "table_wf r h t" "table_wf r h t'"
    and "set (stored t') = insert \<lparr>rw_network = n, rw_route = x, rw_pending = None\<rparr> {s \<in> set (stored t). rw_network s \<noteq> n}"
  shows "route_lookup m t' = (if m = n then Some x else route_lookup m t)"
proof (rule route_lookup_set [OF assms(1,2), where f = "\<lambda>old. if m = n then Some x else old"])
  show "(\<exists>s \<in> set (stored t'). rw_network s = m \<and> rw_route s = y) \<longleftrightarrow> (if m = n then Some x else route_lookup m t) = Some y" for y
    unfolding assms(3) by (auto simp: route_lookup_iff [OF assms(1)])
qed

text \<open>Counters, mode and hold-down records are no part of the rows.\<close>

lemma stored_other [simp]:
  "stored (t\<lparr>tb_counters := c\<rparr>) = stored t" "stored (t\<lparr>tb_convergence := v\<rparr>) = stored t" "stored (t\<lparr>tb_holds := hs\<rparr>) = stored t"
  by (simp_all add: stored_def)

lemma find_other [simp]:
  "table_find n (t\<lparr>tb_counters := c\<rparr>) = table_find n t" "table_find n (t\<lparr>tb_convergence := v\<rparr>) = table_find n t"
  "table_find n (t\<lparr>tb_holds := hs\<rparr>) = table_find n t"
  by (simp_all add: table_find_def)

lemma lookup_other [simp]:
  "route_lookup n (t\<lparr>tb_counters := c\<rparr>) = route_lookup n t" "route_lookup n (t\<lparr>tb_convergence := v\<rparr>) = route_lookup n t"
  "route_lookup n (t\<lparr>tb_holds := hs\<rparr>) = route_lookup n t"
  by (simp_all add: route_lookup_def split: sum.split)

lemma wf_other [simp]:
  "table_wf r h (t\<lparr>tb_counters := c\<rparr>) = table_wf r h t" "table_wf r h (t\<lparr>tb_convergence := v\<rparr>) = table_wf r h t"
  by (simp_all add: table_wf_def learned_networks_def)

lemma holds_wf:
  assumes "table_wf r h t" "holds_ok h hs" "ho_network ` set (holds_stored hs) \<subseteq> learned_networks t"
  shows "table_wf r h (t\<lparr>tb_holds := hs\<rparr>)"
  using assms unfolding table_wf_def by (simp add: learned_networks_def)

lemma forget_wf:
  assumes "table_wf r h t"
  shows "table_wf r h (t\<lparr>tb_holds := holds_forget n (tb_holds t)\<rparr>)"
    "n \<notin> ho_network ` set (holds_stored (holds_forget n (tb_holds t)))"
  using table_wfD(6,7) [OF assms] holds_forget_result [OF table_wfD(6) [OF assms], of n]
  by (auto intro!: holds_wf [OF assms])

text \<open>A route is installed with its hold-down records forgotten.\<close>

lemma install_rows:
  assumes wf: "table_wf r h t" and ok: "\<not> is_reserved n" "route_ok x"
    and put: "table_put n x (t\<lparr>tb_holds := holds_forget n (tb_holds t)\<rparr>) = (installed, t')"
  shows "table_wf r h t'" "installed \<longleftrightarrow> route_lookup n t \<noteq> None \<or> tb_len t < r"
    "route_lookup m t' = (if m = n \<and> installed then Some x else route_lookup m t)"
    "installed \<Longrightarrow> table_pending n t' = None"
    "tb_holds t' = holds_forget n (tb_holds t)" "tb_counters t' = tb_counters t" "tb_convergence t' = tb_convergence t"
proof -
  let ?t = "t\<lparr>tb_holds := holds_forget n (tb_holds t)\<rparr>"
  note f = forget_wf [OF wf, of n]
  have "rt_direct x \<Longrightarrow> n \<notin> ho_network ` set (holds_stored (tb_holds ?t))" using f(2) by simp
  note p = table_put_rows [OF f(1) ok this put]
  show w: "table_wf r h t'" by (rule p(1))
  show i: "installed \<longleftrightarrow> route_lookup n t \<noteq> None \<or> tb_len t < r" using p(2) by simp
  show "route_lookup m t' = (if m = n \<and> installed then Some x else route_lookup m t)"
    using route_lookup_put [OF f(1) w p(4)] p(3) by (cases installed) auto
  show "tb_holds t' = holds_forget n (tb_holds t)" "tb_counters t' = tb_counters t" "tb_convergence t' = tb_convergence t"
    using p(5-7) by simp_all
  assume "installed"
  then have s: "\<lparr>rw_network = n, rw_route = x, rw_pending = None\<rparr> \<in> set (stored t')" using p(4) by simp
  show "table_pending n t' = None"
  proof (cases "table_find n t'")
    case (Inr i)
    have "\<lparr>rw_network = n, rw_route = x, rw_pending = None\<rparr> = tb_slots t' ! i"
      using table_rows.row_unique [OF w s find_stored(4) [OF w Inr]] find_stored(2) [OF w Inr] by simp
    then show ?thesis by (simp add: table_pending_def Inr flip: \<open>_ = tb_slots t' ! i\<close>)
  qed (simp add: table_pending_def)
qed

lemma route_ok_fresh [simp]: "route_ok (route_direct p)"
  "route_ok ((route_learned p m now)\<lparr>rt_last_used := u\<rparr>)"
  "route_ok ((route_learned p m now)\<lparr>rt_flap_count := c, rt_last_port_change := e\<rparr>)"
  by (simp_all add: route_ok_def route_direct_def route_learned_def ROUTE_ZERO_def)

text \<open>Rows taken out of the table, with their hold-down records.\<close>

lemma filtered_rows:
  assumes wf: "table_wf r h t" and len: "length (tb_slots t') = r" "tb_len t' = length (filter P (stored t))"
    and st: "stored t' = filter P (stored t)" and rest: "drop (tb_len t') (tb_slots t') = replicate (r - tb_len t') VACANT"
    and hs: "holds_ok h (tb_holds t')" "set (holds_stored (tb_holds t')) \<subseteq> set (holds_stored (tb_holds t))"
      "\<And>s. s \<in> set (stored t) \<Longrightarrow> \<not> P s \<Longrightarrow> rw_network s \<notin> ho_network ` set (holds_stored (tb_holds t'))"
  shows "table_wf r h t'"
    "route_lookup m t' = (if \<exists>s \<in> set (stored t). rw_network s = m \<and> \<not> P s then None else route_lookup m t)"
proof -
  note d = table_wfD [OF wf]
  have "n \<in> learned_networks t'" if n: "n \<in> ho_network ` set (holds_stored (tb_holds t'))" for n
  proof -
    have "n \<in> learned_networks t" using n hs(2) d(7) by blast
    then obtain s where "s \<in> set (stored t)" "\<not> rt_direct (rw_route s)" "n = rw_network s" by (auto simp: learned_networks_def)
    moreover from this n hs(3) have "P s" by blast
    ultimately show ?thesis unfolding learned_networks_def st by auto
  qed
  moreover have "tb_len t' \<le> r" using len(2) length_filter_le [of P "stored t"] length_stored [OF wf] d(2) by simp
  ultimately show w: "table_wf r h t'"
    unfolding table_wf_def using len(1) rest hs(1) d(4) table_rows.sorted_filtered [OF wf, of P] by (auto simp: st)
  show "route_lookup m t' = (if \<exists>s \<in> set (stored t). rw_network s = m \<and> \<not> P s then None else route_lookup m t)"
  proof (rule route_lookup_set [OF wf w, where f = "\<lambda>old. if \<exists>s \<in> set (stored t). rw_network s = m \<and> \<not> P s then None else old"])
    show "(\<exists>s \<in> set (stored t'). rw_network s = m \<and> rw_route s = y)
        \<longleftrightarrow> (if \<exists>s \<in> set (stored t). rw_network s = m \<and> \<not> P s then None else route_lookup m t) = Some y" for y
      using table_rows.row_unique [OF wf] unfolding st by (auto simp: route_lookup_iff [OF wf])
  qed
qed

lemma filter_out_one:
  assumes "distinct (map k xs)" "i < length xs"
  shows "filter (\<lambda>x. k x \<noteq> k (xs ! i)) xs = take i xs @ drop (Suc i) xs"
proof -
  have xs: "xs = take i xs @ xs ! i # drop (Suc i) xs" using assms(2) by (rule id_take_nth_drop)
  then have "distinct (map k (take i xs) @ k (xs ! i) # map k (drop (Suc i) xs))"
    using assms(1) by (metis list.map(2) map_append)
  then have "k (xs ! i) \<notin> k ` (set (take i xs) \<union> set (drop (Suc i) xs))" by (simp add: image_Un)
  then have ne: "\<forall>x \<in> set (take i xs) \<union> set (drop (Suc i) xs). k x \<noteq> k (xs ! i)" by (metis imageI)
  have "filter (\<lambda>x. k x \<noteq> k (xs ! i)) (take i xs @ xs ! i # drop (Suc i) xs) = take i xs @ drop (Suc i) xs"
    using ne by (simp add: filter_id_conv)
  then show ?thesis using xs by simp
qed

lemma table_remove_rows:
  assumes wf: "table_wf r h t" and rem: "table_remove n t = (gone, t')"
  shows "table_wf r h t'" "gone = route_lookup n t" "route_lookup m t' = (if m = n then None else route_lookup m t)"
proof -
  note d = table_wfD [OF wf]
  have "table_wf r h t' \<and> gone = route_lookup n t \<and> route_lookup m t' = (if m = n then None else route_lookup m t)"
  proof (cases "table_find n t")
    case (Inl i)
    then show ?thesis using rem wf by (simp add: table_remove_def route_lookup_def)
  next
    case (Inr i)
    note i = find_stored [OF wf Inr]
    let ?P = "\<lambda>s. rw_network s \<noteq> n"
    have p: "gone = Some (rw_route (tb_slots t ! i))" "tb_len t' = tb_len t - 1"
        "tb_slots t' = (shift_out i (tb_len t) (tb_slots t))[tb_len t - 1 := VACANT]" "tb_holds t' = holds_forget n (tb_holds t)"
      using rem by (auto simp: table_remove_def Inr Let_def)
    have il: "i < length (stored t)" using i(1) length_stored [OF wf] by simp
    define a where "a = take i (tb_slots t) @ drop (Suc i) (take (tb_len t) (tb_slots t))"
    have la: "length a = tb_len t - 1" using i(1) d(1,2) by (simp add: a_def)
    have "a = take i (stored t) @ drop (Suc i) (stored t)" using i(1) by (simp add: a_def stored_def)
    also have "\<dots> = filter ?P (stored t)"
      using filter_out_one [OF table_rows.keys_distinct [OF wf] il] i(2,3) by simp
    finally have a: "a = filter ?P (stored t)" .
    have "shift_out i (tb_len t) (tb_slots t) = a @ tb_slots t ! i # drop (tb_len t) (tb_slots t)"
      using shift_out_result [OF i(1), of "tb_slots t"] d(1,2) by (simp add: a_def)
    then have sl: "tb_slots t' = a @ VACANT # drop (tb_len t) (tb_slots t)"
      unfolding p(3) using list_update_length [of a] la by simp
    have "stored t' = filter ?P (stored t)" unfolding stored_def [of t'] p(2) sl using la a by simp
    moreover have "drop (tb_len t') (tb_slots t') = replicate (r - tb_len t') VACANT"
    proof -
      have "r - (tb_len t - 1) = Suc (r - tb_len t)" using i(1) d(2) by simp
      then show ?thesis unfolding p(2) sl using la d(5) by simp
    qed
    moreover have "length (tb_slots t') = r" "tb_len t' = length (filter ?P (stored t))"
      using la d(1,2) i(1) a unfolding p(2) sl by simp_all
    moreover have "holds_ok h (tb_holds t')" "set (holds_stored (tb_holds t')) \<subseteq> set (holds_stored (tb_holds t))"
        "n \<notin> ho_network ` set (holds_stored (tb_holds t'))"
      using holds_forget_result [OF d(6), of n] unfolding p(4) by auto
    ultimately have "table_wf r h t'"
        "route_lookup m t' = (if \<exists>s \<in> set (stored t). rw_network s = m \<and> \<not> ?P s then None else route_lookup m t)"
      using filtered_rows [OF wf, of t' ?P] by auto
    moreover have "(\<exists>s \<in> set (stored t). rw_network s = m \<and> \<not> ?P s) \<longleftrightarrow> m = n" using i(2,4) by auto
    ultimately show ?thesis using p(1) by (simp add: route_lookup_def Inr)
  qed
  then show "table_wf r h t'" "gone = route_lookup n t" "route_lookup m t' = (if m = n then None else route_lookup m t)" by simp_all
qed

text \<open>The loop of the sweep is the compaction, with the records of each stale row forgotten.\<close>

lemma purge_fold:
  assumes "len \<le> length slots"
  shows "fold (purge_step stale) [0..<len] ((0, slots), hs)
   = (compact_rows (\<lambda>s. \<not> stale s) len slots, fold (\<lambda>s. holds_forget (rw_network s)) (filter stale (take len slots)) hs)"
  using assms
proof (induction len)
  case (Suc k)
  then have k: "k < length slots" by simp
  obtain kept ys where c: "compact_rows (\<lambda>s. \<not> stale s) k slots = (kept, ys)" "length ys = length slots" "drop k ys = drop k slots"
    using compact_rows_result [of k slots] k by (metis less_imp_le)
  have row: "ys ! k = slots ! k" using c(2,3) k by (metis hd_drop_conv_nth)
  have tk: "take (Suc k) slots = take k slots @ [slots ! k]" using k by (rule take_Suc_conv_app_nth)
  have cs: "compact_rows (\<lambda>s. \<not> stale s) (Suc k) slots = compact_step (\<lambda>s. \<not> stale s) k (kept, ys)"
    using c(1) by (simp add: compact_rows_def)
  show ?case using Suc k by (simp add: cs c(1) compact_step_def purge_step_def row tk)
qed (simp add: compact_rows_def)

lemma forget_all:
  assumes "holds_ok h hs"
  shows "holds_ok h (fold (\<lambda>s. holds_forget (rw_network s)) ss hs)
    \<and> holds_stored (fold (\<lambda>s. holds_forget (rw_network s)) ss hs)
      = filter (\<lambda>x. ho_network x \<notin> rw_network ` set ss) (holds_stored hs)"
  using assms
proof (induction ss arbitrary: hs)
  case (Cons s ss)
  note f = holds_forget_result [OF Cons.prems, of "rw_network s"]
  show ?case using Cons.IH [OF f(1)] by (simp add: f(2) conj_commute)
qed simp

lemma purge_stale_rows:
  assumes wf: "table_wf r h t" and purge: "purge_stale now max_age t = ((removed, purged), t')"
  shows "table_wf r h t'"
    "route_lookup m t' = (if \<exists>s \<in> set (stored t). rw_network s = m \<and> is_stale now max_age s then None else route_lookup m t)"
    "purged = map rw_network (filter (is_stale now max_age) (stored t))" "removed = length purged"
proof -
  let ?P = "\<lambda>s. \<not> is_stale now max_age s"
  note d = table_wfD [OF wf]
  obtain kept ys where c: "compact_rows ?P (tb_len t) (tb_slots t) = (kept, ys)" "length ys = length (tb_slots t)"
      "kept = length (filter ?P (stored t))" "take kept ys = filter ?P (stored t)" "drop (tb_len t) ys = drop (tb_len t) (tb_slots t)"
    using compact_rows_result [of "tb_len t" "tb_slots t" ?P] d(1,2) unfolding stored_def by metis
  define hs where "hs = fold (\<lambda>s. holds_forget (rw_network s)) (filter (is_stale now max_age) (stored t)) (tb_holds t)"
  have f: "fold (purge_step (is_stale now max_age)) [0..<tb_len t] ((0, tb_slots t), tb_holds t) = ((kept, ys), hs)"
    using purge_fold [of "tb_len t" "tb_slots t"] d(1,2) c(1) by (simp add: hs_def stored_def)
  have e: "removed = tb_len t - kept" "purged = map rw_network (filter (is_stale now max_age) (stored t))"
      "t' = t\<lparr>tb_slots := fill_rows kept (tb_len t) VACANT ys, tb_len := kept, tb_holds := hs\<rparr>"
    using purge by (simp_all add: purge_stale_def Let_def f)
  have k: "kept \<le> tb_len t" using c(3) length_filter_le [of ?P "stored t"] length_stored [OF wf] by simp
  have h: "holds_ok h hs" "holds_stored hs = filter (\<lambda>x. ho_network x \<notin> rw_network ` set (filter (is_stale now max_age) (stored t)))
      (holds_stored (tb_holds t))"
    using forget_all [OF d(6), of "filter (is_stale now max_age) (stored t)"] unfolding hs_def by blast+
  have st: "stored t' = filter ?P (stored t)" using c(2,4) k d(1,2) by (simp add: e(3) stored_def fill_rows_kept)
  have rest: "drop (tb_len t') (tb_slots t') = replicate (r - tb_len t') VACANT"
    using k c(2,5) d(1,2,5) by (simp add: e(3) fill_rows_def flip: replicate_add)
  have "tb_holds t' = hs" "tb_len t' = length (filter ?P (stored t))" "length (tb_slots t') = r"
    using k c(2,3) d(1,2) by (simp_all add: e(3))
  moreover have "rw_network s \<notin> ho_network ` set (holds_stored hs)" if "s \<in> set (stored t)" "\<not> ?P s" for s
  proof -
    have "rw_network s \<in> rw_network ` set (filter (is_stale now max_age) (stored t))" using that by auto
    then show ?thesis unfolding h(2) by (metis (no_types, lifting) imageE mem_Collect_eq set_filter)
  qed
  moreover have "set (holds_stored hs) \<subseteq> set (holds_stored (tb_holds t))" unfolding h(2) by auto
  ultimately have "table_wf r h t'" "route_lookup m t' = (if \<exists>s \<in> set (stored t). rw_network s = m \<and> \<not> ?P s then None else route_lookup m t)"
    using filtered_rows [OF wf _ _ st rest] h(1) by simp_all
  then show "table_wf r h t'"
    "route_lookup m t' = (if \<exists>s \<in> set (stored t). rw_network s = m \<and> is_stale now max_age s then None else route_lookup m t)"
    by simp_all
  show "purged = map rw_network (filter (is_stale now max_age) (stored t))" by (rule e(2))
  show "removed = length purged"
    using sum_length_filter_compl [of "is_stale now max_age" "stored t"] length_stored [OF wf] c(3) e(1,2) by simp
qed

end
