(* ===== verification/Route_Rules.thy ===== *)
theory Route_Rules
  imports Route_Table
begin

text \<open>
  What the routing table does, call by call, to the map from networks to routes, over every
  sequence of calls: the invariant of the stored rows, that no message changes the route to a
  directly attached network, learning in both convergence modes, received rejects with their
  hold-down, and aging.
\<close>

section \<open>The map after each call\<close>

lemma lookup_slot_update:
  assumes wf: "table_wf r h t"
    and f: "\<And>x. route_lookup n t = Some x \<Longrightarrow> route_ok (f x) \<and> rt_direct (f x) = rt_direct x \<and> rt_port (f x) = rt_port x"
  shows "table_wf r h (slot_update n (on_route f) t)"
    "route_lookup m (slot_update n (on_route f) t) = (if m = n then map_option f (route_lookup m t) else route_lookup m t)"
proof -
  let ?g = "\<lambda>s. if rw_network s = n then on_route f s else s"
  have ok: "rw_network (on_route f s) = n \<and> row_ok (on_route f s) \<and> (rt_direct (rw_route (on_route f s)) \<longrightarrow> rt_direct (rw_route s))"
    if s: "s \<in> set (stored t)" "rw_network s = n" for s
  proof -
    have "route_lookup n t = Some (rw_route s)" using s route_lookup_iff [OF wf] by blast
    with f [OF this] s table_wfD(4) [OF wf s(1)] show ?thesis by (simp add: row_ok_def)
  qed
  have u: "table_wf r h (slot_update n (on_route f) t)" "stored (slot_update n (on_route f) t) = map ?g (stored t)"
    by (rule slot_update_rows [OF wf]; use ok in blast)+
  show w: "table_wf r h (slot_update n (on_route f) t)" by (rule u(1))
  show "route_lookup m (slot_update n (on_route f) t) = (if m = n then map_option f (route_lookup m t) else route_lookup m t)"
  proof (rule route_lookup_set [OF wf w, where f = "\<lambda>old. if m = n then map_option f old else old"])
    show "(\<exists>s \<in> set (stored (slot_update n (on_route f) t)). rw_network s = m \<and> rw_route s = y)
        \<longleftrightarrow> (if m = n then map_option f (route_lookup m t) else route_lookup m t) = Some y" for y
    proof -
      have "(\<exists>s \<in> set (map ?g (stored t)). rw_network s = m \<and> rw_route s = y)
          \<longleftrightarrow> (\<exists>s \<in> set (stored t). rw_network s = m \<and> (if m = n then f (rw_route s) else rw_route s) = y)"
        unfolding set_map bex_simps by (rule bex_cong) auto
      also have "\<dots> \<longleftrightarrow> (\<exists>x. route_lookup m t = Some x \<and> (if m = n then f x else x) = y)"
        unfolding route_lookup_iff [OF wf] by blast
      finally show ?thesis unfolding u(2) by (cases "m = n") simp_all
    qed
  qed
qed

lemma lookup_each_slot:
  assumes wf: "table_wf r h t"
    and f: "\<And>x. route_ok x \<Longrightarrow> route_ok (f x) \<and> rt_direct (f x) = rt_direct x \<and> rt_port (f x) = rt_port x"
  shows "table_wf r h (each_slot (on_route f) t)"
    "route_lookup m (each_slot (on_route f) t) = map_option f (route_lookup m t)"
proof -
  have ok: "rw_network (on_route f s) = rw_network s \<and> row_ok (on_route f s)
      \<and> (rt_direct (rw_route (on_route f s)) \<longrightarrow> rt_direct (rw_route s))" if "s \<in> set (stored t)" for s
    using f table_wfD(4) [OF wf that] by (simp add: row_ok_def)
  have u: "table_wf r h (each_slot (on_route f) t)" "stored (each_slot (on_route f) t) = map (on_route f) (stored t)"
    by (rule each_slot_rows [OF wf]; use ok in blast)+
  show w: "table_wf r h (each_slot (on_route f) t)" by (rule u(1))
  show "route_lookup m (each_slot (on_route f) t) = map_option f (route_lookup m t)"
  proof (rule route_lookup_set [OF wf w, where f = "map_option f"])
    show "(\<exists>s \<in> set (stored (each_slot (on_route f) t)). rw_network s = m \<and> rw_route s = y)
        \<longleftrightarrow> map_option f (route_lookup m t) = Some y" for y
      unfolding u(2) by (auto simp: route_lookup_iff [OF wf])
  qed
qed

lemma lookup_row_ok: "table_wf r h t \<Longrightarrow> route_lookup n t = Some x \<Longrightarrow> route_ok x \<and> \<not> is_reserved n"
  using route_lookup_iff table_wfD(4) by (metis row_ok_def)

lemma direct_eq: "route_ok x \<Longrightarrow> rt_direct x \<Longrightarrow> x = route_direct (rt_port x)"
  by (simp add: route_ok_def)

text \<open>The changes of one route that the marks make.\<close>

lemma busy_ok: "route_ok x \<Longrightarrow> route_ok (snd (busy_route dl x)) \<and> rt_direct (snd (busy_route dl x)) = rt_direct x
    \<and> rt_port (snd (busy_route dl x)) = rt_port x \<and> (rt_direct x \<longrightarrow> snd (busy_route dl x) = x)"
  by (auto simp: busy_route_def route_ok_def)

lemma available_ok: "route_ok x \<Longrightarrow> route_ok (available_route x) \<and> rt_direct (available_route x) = rt_direct x
    \<and> rt_port (available_route x) = rt_port x \<and> (rt_direct x \<longrightarrow> available_route x = x)"
  by (auto simp: available_route_def route_ok_def)

lemma unreachable_ok: "route_ok x \<Longrightarrow> route_ok (unreachable_route x) \<and> rt_direct (unreachable_route x) = rt_direct x
    \<and> rt_port (unreachable_route x) = rt_port x \<and> (rt_direct x \<longrightarrow> unreachable_route x = x)"
  by (auto simp: unreachable_route_def route_ok_def)

definition lift_busy :: "instant \<Rightarrow> route \<Rightarrow> route" where
  "lift_busy now x = (if busy_lapsed now x then x\<lparr>rt_reachability := Reachable, rt_busy_until := None\<rparr> else x)"

lemma direct_fields: "route_ok x \<Longrightarrow> rt_direct x \<Longrightarrow> rt_busy_until x = None \<and> rt_reachability x = Reachable \<and> rt_last_seen x = None"
proof -
  assume "route_ok x" "rt_direct x"
  then obtain p where "x = route_direct p" using direct_eq by blast
  then show ?thesis by (simp add: route_direct_def ROUTE_ZERO_def)
qed

lemma lift_busy_ok: "route_ok x \<Longrightarrow> route_ok (lift_busy now x) \<and> rt_direct (lift_busy now x) = rt_direct x
    \<and> rt_port (lift_busy now x) = rt_port x \<and> (rt_direct x \<longrightarrow> lift_busy now x = x)"
proof (cases "rt_direct x")
  case True
  assume "route_ok x"
  then have "lift_busy now x = x" using direct_fields True by (simp add: lift_busy_def busy_lapsed_def)
  then show ?thesis using \<open>route_ok x\<close> by simp
qed (auto simp: lift_busy_def busy_lapsed_def route_ok_def)

definition used_route :: "instant \<Rightarrow> route \<Rightarrow> route" where
  "used_route now x = (if \<not> rt_direct x then x\<lparr>rt_last_used := Some now\<rparr> else x)"

lemma used_ok: "route_ok x \<Longrightarrow> route_ok (used_route now x) \<and> rt_direct (used_route now x) = rt_direct x
    \<and> rt_port (used_route now x) = rt_port x \<and> (rt_direct x \<longrightarrow> used_route now x = x)"
  by (auto simp: used_route_def route_ok_def)

lemmas mark_oks = busy_ok available_ok unreachable_ok lift_busy_ok used_ok

lemma marks_result:
  assumes wf: "table_wf r h t"
  shows "table_wf r h (mark_busy n dl t)"
    "route_lookup m (mark_busy n dl t) = (if m = n then map_option (\<lambda>x. snd (busy_route dl x)) (route_lookup m t) else route_lookup m t)"
    "table_wf r h (mark_available n t)"
    "route_lookup m (mark_available n t) = (if m = n then map_option available_route (route_lookup m t) else route_lookup m t)"
    "table_wf r h (mark_unreachable n t)"
    "route_lookup m (mark_unreachable n t) = (if m = n then map_option unreachable_route (route_lookup m t) else route_lookup m t)"
    "table_wf r h (table_touch n now t)"
    "route_lookup m (table_touch n now t) = (if m = n then map_option (used_route now) (route_lookup m t) else route_lookup m t)"
proof -
  note ok = lookup_row_ok [OF wf, THEN conjunct1]
  note b = lookup_slot_update [OF wf, of n "\<lambda>x. snd (busy_route dl x)"] and a = lookup_slot_update [OF wf, of n available_route]
    and u = lookup_slot_update [OF wf, of n unreachable_route] and c = lookup_slot_update [OF wf, of n "used_route now"]
  show "table_wf r h (mark_busy n dl t)"
    "route_lookup m (mark_busy n dl t) = (if m = n then map_option (\<lambda>x. snd (busy_route dl x)) (route_lookup m t) else route_lookup m t)"
    unfolding mark_busy_def by (rule b; use ok busy_ok in blast)+
  show "table_wf r h (mark_available n t)"
    "route_lookup m (mark_available n t) = (if m = n then map_option available_route (route_lookup m t) else route_lookup m t)"
    unfolding mark_available_def by (rule a; use ok available_ok in blast)+
  show "table_wf r h (mark_unreachable n t)"
    "route_lookup m (mark_unreachable n t) = (if m = n then map_option unreachable_route (route_lookup m t) else route_lookup m t)"
    unfolding mark_unreachable_def by (rule u; use ok unreachable_ok in blast)+
  show "table_wf r h (table_touch n now t)"
    "route_lookup m (table_touch n now t) = (if m = n then map_option (used_route now) (route_lookup m t) else route_lookup m t)"
    unfolding table_touch_def used_route_def [symmetric] by (rule c; use ok used_ok in blast)+
qed

lemma sweeps_result:
  assumes wf: "table_wf r h t"
  shows "table_wf r h (snd (mark_busy_via_peer p peer dl t))"
    "route_lookup m (snd (mark_busy_via_peer p peer dl t))
       = map_option (\<lambda>x. if served_via p peer x then snd (busy_route dl x) else x) (route_lookup m t)"
    "table_wf r h (snd (mark_available_via_peer p peer t))"
    "route_lookup m (snd (mark_available_via_peer p peer t))
       = map_option (\<lambda>x. if served_via p peer x then available_route x else x) (route_lookup m t)"
    "table_wf r h (snd (clear_expired_busy now t))"
    "route_lookup m (snd (clear_expired_busy now t)) = map_option (lift_busy now) (route_lookup m t)"
proof -
  have a: "route_ok (if served_via p peer x then snd (busy_route dl x) else x) \<and> rt_direct (if served_via p peer x then snd (busy_route dl x) else x) = rt_direct x
      \<and> rt_port (if served_via p peer x then snd (busy_route dl x) else x) = rt_port x" if "route_ok x" for x
    using busy_ok [OF that] that by simp
  have b: "route_ok (if served_via p peer x then available_route x else x) \<and> rt_direct (if served_via p peer x then available_route x else x) = rt_direct x
      \<and> rt_port (if served_via p peer x then available_route x else x) = rt_port x" if "route_ok x" for x
    using available_ok [OF that] that by simp
  have c: "route_ok (lift_busy now x) \<and> rt_direct (lift_busy now x) = rt_direct x \<and> rt_port (lift_busy now x) = rt_port x"
    if "route_ok x" for x using lift_busy_ok [OF that] by simp
  show "table_wf r h (snd (mark_busy_via_peer p peer dl t))"
    "route_lookup m (snd (mark_busy_via_peer p peer dl t))
       = map_option (\<lambda>x. if served_via p peer x then snd (busy_route dl x) else x) (route_lookup m t)"
    unfolding mark_busy_via_peer_def snd_conv using lookup_each_slot [OF wf, of "\<lambda>x. if served_via p peer x then snd (busy_route dl x) else x"] a by blast+
  show "table_wf r h (snd (mark_available_via_peer p peer t))"
    "route_lookup m (snd (mark_available_via_peer p peer t))
       = map_option (\<lambda>x. if served_via p peer x then available_route x else x) (route_lookup m t)"
    unfolding mark_available_via_peer_def snd_conv using lookup_each_slot [OF wf, of "\<lambda>x. if served_via p peer x then available_route x else x"] b by blast+
  show "table_wf r h (snd (clear_expired_busy now t))"
    "route_lookup m (snd (clear_expired_busy now t)) = map_option (lift_busy now) (route_lookup m t)"
    unfolding clear_expired_busy_def snd_conv lift_busy_def [symmetric] using lookup_each_slot [OF wf, of "lift_busy now"] c by blast+
qed

section \<open>Rows\<close>

abbreviation table_row :: "u16 \<Rightarrow> table \<Rightarrow> route_slot option" where
  "table_row n t \<equiv> find (\<lambda>s. rw_network s = n) (stored t)"

lemma lookup_row: "table_wf r h t \<Longrightarrow> route_lookup n t = map_option rw_route (table_row n t)"
  using table_rows.find_search [of r h t n] find_stored(3) [of r h t n]
  by (cases "table_find n t") (simp_all add: route_lookup_def)

lemma pending_row: "table_wf r h t \<Longrightarrow> table_pending n t = Option.bind (table_row n t) rw_pending"
  using table_rows.find_search [of r h t n] find_stored(3) [of r h t n]
  by (cases "table_find n t") (simp_all add: table_pending_def)

lemma no_route_no_pending: "table_wf r h t \<Longrightarrow> route_lookup n t = None \<Longrightarrow> table_pending n t = None"
  by (simp add: lookup_row pending_row)

lemma row_iff: "table_wf r h t \<Longrightarrow> table_row n t = Some s \<longleftrightarrow> s \<in> set (stored t) \<and> rw_network s = n"
  by (rule table_rows.lookup_Some_iff)

text \<open>Rows that agree for a network look up alike.\<close>

lemma same_row:
  assumes "table_wf r h t" "table_wf r h t'" "\<And>s. rw_network s = m \<Longrightarrow> s \<in> set (stored t') \<longleftrightarrow> s \<in> set (stored t)"
  shows "route_lookup m t' = route_lookup m t" "table_pending m t' = table_pending m t"
proof -
  have "table_row m t' = table_row m t" using table_rows.lookup_same_rows [OF assms(2,1)] assms(3) by blast
  then show "route_lookup m t' = route_lookup m t" "table_pending m t' = table_pending m t"
    by (simp_all add: lookup_row [OF assms(1)] lookup_row [OF assms(2)] pending_row [OF assms(1)] pending_row [OF assms(2)])
qed

lemma pending_other [simp]:
  "table_pending n (t\<lparr>tb_counters := c\<rparr>) = table_pending n t" "table_pending n (t\<lparr>tb_convergence := v\<rparr>) = table_pending n t"
  "table_pending n (t\<lparr>tb_holds := hs\<rparr>) = table_pending n t"
  by (simp_all add: table_pending_def split: sum.split)

lemma install_others:
  assumes wf: "table_wf r h t" and ok: "\<not> is_reserved n" "route_ok x"
    and put: "table_put n x (t\<lparr>tb_holds := holds_forget n (tb_holds t)\<rparr>) = (installed, t')" and "m \<noteq> n"
  shows "table_pending m t' = table_pending m t"
proof -
  let ?t = "t\<lparr>tb_holds := holds_forget n (tb_holds t)\<rparr>"
  note f = forget_wf [OF wf, of n]
  have "rt_direct x \<Longrightarrow> n \<notin> ho_network ` set (holds_stored (tb_holds ?t))" using f(2) by simp
  note p = table_put_rows [OF f(1) ok this put]
  have "table_pending m t' = table_pending m ?t"
  proof (cases installed)
    case True
    show ?thesis by (rule same_row(2) [OF f(1) p(1)]) (use p(4) True \<open>m \<noteq> n\<close> in auto)
  qed (use p(3) in simp)
  then show ?thesis by simp
qed

section \<open>Learning\<close>

text \<open>What a claim does to the route of its network.\<close>

definition learn_spec :: "bool \<Rightarrow> u16 \<Rightarrow> port_id \<Rightarrow> mac \<Rightarrow> instant \<Rightarrow> route option \<Rightarrow> learned \<times> route option" where
  "learn_spec full n port next_hop now old =
     (if is_reserved n then (LearnRefused Reserved, old)
      else case old of
             None \<Rightarrow> if full then (LearnRefused TableFull, None) else (LearnApplied, Some (route_learned port next_hop now))
           | Some x \<Rightarrow>
               if rt_direct x then (LearnRefused DirectRoute, old)
               else if rt_port x \<noteq> port
               then (LearnMoved (rt_port x) (flaps_after now x),
                     Some ((route_learned port next_hop now)\<lparr>rt_flap_count := flaps_after now x, rt_last_port_change := Some now\<rparr>))
               else (LearnApplied, Some ((route_learned port next_hop now)\<lparr>rt_last_used := rt_last_used x\<rparr>)))"

lemma add_learned_result:
  assumes wf: "table_wf r h t" and a: "add_learned n port nh now t = (installed, t')"
  shows "table_wf r h t'"
    "installed \<longleftrightarrow> \<not> is_reserved n \<and> (case route_lookup n t of Some x \<Rightarrow> \<not> rt_direct x | None \<Rightarrow> tb_len t < r)"
    "route_lookup m t' = (if m = n \<and> installed
       then Some ((route_learned port nh now)\<lparr>rt_last_used :=
         (case route_lookup n t of Some x \<Rightarrow> if rt_port x = port then rt_last_used x else None | None \<Rightarrow> None)\<rparr>)
       else route_lookup m t)"
    "installed \<Longrightarrow> table_pending n t' = None" "m \<noteq> n \<Longrightarrow> table_pending m t' = table_pending m t"
    "tb_convergence t' = tb_convergence t"
proof -
  let ?u = "case route_lookup n t of Some x \<Rightarrow> if rt_port x = port then rt_last_used x else None | None \<Rightarrow> None"
  let ?x = "(route_learned port nh now)\<lparr>rt_last_used := ?u\<rparr>"
  have "table_wf r h t' \<and> (installed \<longleftrightarrow> \<not> is_reserved n \<and> (case route_lookup n t of Some x \<Rightarrow> \<not> rt_direct x | None \<Rightarrow> tb_len t < r))
      \<and> route_lookup m t' = (if m = n \<and> installed then Some ?x else route_lookup m t)
      \<and> (installed \<longrightarrow> table_pending n t' = None) \<and> (m \<noteq> n \<longrightarrow> table_pending m t' = table_pending m t)
      \<and> tb_convergence t' = tb_convergence t"
  proof (cases "is_reserved n \<or> (case route_lookup n t of Some x \<Rightarrow> rt_direct x | None \<Rightarrow> False)")
    case True
    then have "installed = False" "t' = t" using a by (auto simp: add_learned_def Let_def split: option.splits if_splits)
    then show ?thesis using wf True by (auto split: option.splits)
  next
    case False
    then have put: "table_put n ?x (t\<lparr>tb_holds := holds_forget n (tb_holds t)\<rparr>) = (installed, t')"
      using a by (auto simp: add_learned_def Let_def split: option.splits if_splits)
    have ok: "\<not> is_reserved n" "route_ok ?x" using False by simp_all
    note i = install_rows [OF wf ok put] and o = install_others [OF wf ok put]
    show ?thesis using i(1-4,7) o False by (auto split: option.splits)
  qed
  then show "table_wf r h t'"
    "installed \<longleftrightarrow> \<not> is_reserved n \<and> (case route_lookup n t of Some x \<Rightarrow> \<not> rt_direct x | None \<Rightarrow> tb_len t < r)"
    "route_lookup m t' = (if m = n \<and> installed then Some ?x else route_lookup m t)"
    "installed \<Longrightarrow> table_pending n t' = None" "m \<noteq> n \<Longrightarrow> table_pending m t' = table_pending m t"
    "tb_convergence t' = tb_convergence t" by simp_all
qed

lemma learn_result:
  assumes wf: "table_wf r h t" and l: "learn n port nh now t = (res, t')"
  defines "spec \<equiv> learn_spec (tb_len t = r) n port nh now (route_lookup n t)"
  shows "table_wf r h t'" "res = fst spec" "route_lookup m t' = (if m = n then snd spec else route_lookup m t)"
    "table_pending n t = None \<Longrightarrow> table_pending n t' = None" "m \<noteq> n \<Longrightarrow> table_pending m t' = table_pending m t"
    "tb_convergence t' = tb_convergence t"
proof -
  have le: "tb_len t \<le> r" by (rule table_wfD(2) [OF wf])
  have "table_wf r h t' \<and> res = fst spec \<and> route_lookup m t' = (if m = n then snd spec else route_lookup m t)
      \<and> (table_pending n t = None \<longrightarrow> table_pending n t' = None) \<and> (m \<noteq> n \<longrightarrow> table_pending m t' = table_pending m t)
      \<and> tb_convergence t' = tb_convergence t"
  proof (cases "is_reserved n \<or> (case route_lookup n t of Some x \<Rightarrow> rt_direct x | None \<Rightarrow> False)")
    case True
    then have "t' = t" "res = fst spec" "snd spec = route_lookup n t"
      using l by (auto simp: learn_def Let_def spec_def learn_spec_def split: option.splits if_splits)
    then show ?thesis using wf by simp
  next
    case False
    show ?thesis
    proof (cases "case route_lookup n t of Some x \<Rightarrow> rt_port x \<noteq> port | None \<Rightarrow> False")
      case True
      then obtain x where x: "route_lookup n t = Some x" "rt_port x \<noteq> port" by (auto split: option.splits)
      let ?y = "(route_learned port nh now)\<lparr>rt_flap_count := flaps_after now x, rt_last_port_change := Some now\<rparr>"
      define u where "u = (if flaps_after now x \<ge> FLAP_WARNING
          then tally_claim (\<lambda>c. c\<lparr>cc_flap_warned := one_more (cc_flap_warned c)\<rparr>) t else t)"
      have uw: "table_wf r h u" "route_lookup k u = route_lookup k t" "table_pending k u = table_pending k t"
          "tb_convergence u = tb_convergence t" "tb_len u = tb_len t" for k
        using wf by (simp_all add: u_def)
      obtain d where put: "table_put n ?y (u\<lparr>tb_holds := holds_forget n (tb_holds u)\<rparr>) = (d, t')"
          and res: "res = LearnMoved (rt_port x) (flaps_after now x)"
        using l x False by (cases "table_put n ?y (u\<lparr>tb_holds := holds_forget n (tb_holds u)\<rparr>)") (auto simp: learn_def Let_def u_def)
      have ok: "\<not> is_reserved n" "route_ok ?y" using False by simp_all
      note i = install_rows [OF uw(1) ok put] and o = install_others [OF uw(1) ok put]
      have "d" using i(2) x(1) uw(2) by simp
      then show ?thesis using i(1,3,4,7) o x False uw res by (simp add: spec_def learn_spec_def)
    next
      case same: False
      obtain installed where a: "add_learned n port nh now t = (installed, t')" "res = (if installed then LearnApplied else LearnRefused TableFull)"
        using l same False by (cases "add_learned n port nh now t") (auto simp: learn_def Let_def split: option.splits bool.splits if_splits)
      note i = add_learned_result [OF wf a(1)]
      have "table_pending n t' = None" if "\<not> installed"
        using that i(2) i(3) [of n] same False no_route_no_pending [OF i(1), of n] by (auto split: option.splits)
      then show ?thesis using i(1-6) a(2) same False le
        by (cases "route_lookup n t"; cases installed)
          (auto simp: spec_def learn_spec_def route_learned_def ROUTE_ZERO_def dest: add_learned_result(4) [OF wf a(1)])
    qed
  qed
  then show "table_wf r h t'" "res = fst spec" "route_lookup m t' = (if m = n then snd spec else route_lookup m t)"
    "table_pending n t = None \<Longrightarrow> table_pending n t' = None" "m \<noteq> n \<Longrightarrow> table_pending m t' = table_pending m t"
    "tb_convergence t' = tb_convergence t" by simp_all
qed

text \<open>What a claim does to the route and the pending claim of its network, in either mode.\<close>

definition claim_spec :: "convergence \<Rightarrow> timing \<Rightarrow> bool \<Rightarrow> u16 \<Rightarrow> port_id \<Rightarrow> mac \<Rightarrow> instant
    \<Rightarrow> route option \<Rightarrow> pending_claim option \<Rightarrow> learned \<times> route option \<times> pending_claim option" where
  "claim_spec mode timing full n port next_hop now old pend =
     (let go = (let (res, new) = learn_spec full n port next_hop now old in (res, new, None)) in
      case (mode, old) of
        (Hardened, Some x) \<Rightarrow>
          if rt_direct x \<or> rt_port x = port then go
          else (case pend of
                  Some p \<Rightarrow> if \<not> claim_expired now timing p \<and> pe_port p = port then go
                            else (LearnHeld, old, Some \<lparr>pe_port = port, pe_first_seen = now\<rparr>)
                | None \<Rightarrow> (LearnHeld, old, Some \<lparr>pe_port = port, pe_first_seen = now\<rparr>))
      | _ \<Rightarrow> go)"

text \<open>Setting the pending claim of a row.\<close>

lemma set_pending_rows:
  assumes wf: "table_wf r h t" and i: "table_find n t = Inr i"
    and p: "\<forall>p. pend = Some p \<longrightarrow> \<not> rt_direct (rw_route (tb_slots t ! i)) \<and> pe_port p \<noteq> rt_port (rw_route (tb_slots t ! i))"
  defines "t' \<equiv> t\<lparr>tb_slots := (tb_slots t)[i := (tb_slots t ! i)\<lparr>rw_pending := pend\<rparr>]\<rparr>"
  shows "table_wf r h t'" "route_lookup m t' = route_lookup m t" "table_pending n t' = pend"
    "m \<noteq> n \<Longrightarrow> table_pending m t' = table_pending m t" "table_find n t' = Inr i" "tb_slots t' ! i = (tb_slots t ! i)\<lparr>rw_pending := pend\<rparr>"
proof -
  let ?f = "\<lambda>s. s\<lparr>rw_pending := pend\<rparr>"
  note d = table_wfD [OF wf] and f = find_stored [OF wf i]
  have t': "t' = slot_update n ?f t" by (simp add: t'_def slot_update_def i)
  have "rw_network (?f s) = n \<and> row_ok (?f s) \<and> (rt_direct (rw_route (?f s)) \<longrightarrow> rt_direct (rw_route s))"
    if "s \<in> set (stored t)" "rw_network s = n" for s
  proof -
    have "s = tb_slots t ! i" using table_rows.row_unique [OF wf that(1) f(4)] that(2) f(2) by simp
    then show ?thesis using d(4) [OF that(1)] that(2) p by (auto simp: row_ok_def)
  qed
  then have u: "table_wf r h t'" "stored t' = map (\<lambda>s. if rw_network s = n then ?f s else s) (stored t)"
    unfolding t' by (rule slot_update_rows [OF wf]; blast)+
  show w: "table_wf r h t'" by (rule u(1))
  have row: "table_row m t' = map_option (\<lambda>s. if rw_network s = n then ?f s else s) (table_row m t)" for m
  proof -
    have "find (\<lambda>s. rw_network s = m) (map (\<lambda>s. if rw_network s = n then ?f s else s) ss)
        = map_option (\<lambda>s. if rw_network s = n then ?f s else s) (find (\<lambda>s. rw_network s = m) ss)" for ss
      by (induction ss) auto
    then show ?thesis by (simp add: u(2))
  qed
  have net: "table_row m t = Some s \<Longrightarrow> rw_network s = m" for m s using row_iff [OF wf] by blast
  show "route_lookup m t' = route_lookup m t"
    unfolding lookup_row [OF w] lookup_row [OF wf] row by (cases "table_row m t") simp_all
  have "table_row n t = Some (tb_slots t ! i)" using row_iff [OF wf] f(2,4) by blast
  then show "table_pending n t' = pend" unfolding pending_row [OF w] row by (simp add: f(2))
  show "table_pending m t' = table_pending m t" if "m \<noteq> n"
  proof (cases "table_row m t")
    case (Some s)
    then show ?thesis using net [OF Some] that unfolding pending_row [OF w] pending_row [OF wf] row by simp
  qed (simp add: pending_row [OF w] pending_row [OF wf] row)
  have il: "i < length (tb_slots t)" using f(1) d(1,2) by simp
  show at: "tb_slots t' ! i = (tb_slots t ! i)\<lparr>rw_pending := pend\<rparr>" using il by (simp add: t'_def)
  have "i < length (stored t')" using f(1) by (simp add: u(2) length_stored [OF wf])
  then show "table_find n t' = Inr i"
    using table_rows.search_Inr [OF w, of n i] at f(2) by (simp add: stored_nth)
qed

lemma stored_claim_cases:
  fixes u :: table and i :: nat and port :: port_id and now :: instant
  defines "x \<equiv> rw_route (tb_slots u ! i)" and "p' \<equiv> \<lparr>pe_port = port, pe_first_seen = now\<rparr>"
  shows "tb_convergence u = Standard \<or> rt_direct x \<or> rt_port x = port
      \<or> (\<exists>p. pend = Some p \<and> \<not> claim_expired now timing p \<and> pe_port p = port) \<Longrightarrow>
      \<exists>c. apply_stored_claim i pend n port nh now timing u = learn n port nh now (u\<lparr>tb_counters := c\<rparr>)"
    and "tb_convergence u = Hardened \<Longrightarrow> \<not> rt_direct x \<Longrightarrow> rt_port x \<noteq> port
      \<Longrightarrow> \<not> (\<exists>p. pend = Some p \<and> \<not> claim_expired now timing p \<and> pe_port p = port) \<Longrightarrow>
      \<exists>c. apply_stored_claim i pend n port nh now timing u
        = (LearnHeld, (u\<lparr>tb_slots := (tb_slots u)[i := (tb_slots u ! i)\<lparr>rw_pending := Some p'\<rparr>]\<rparr>)\<lparr>tb_counters := c\<rparr>)"
proof -
  have same: "\<exists>c. learn n port nh now u = learn n port nh now (u\<lparr>tb_counters := c\<rparr>)" by (rule exI [of _ "tb_counters u"]) simp
  assume a: "tb_convergence u = Standard \<or> rt_direct x \<or> rt_port x = port
      \<or> (\<exists>p. pend = Some p \<and> \<not> claim_expired now timing p \<and> pe_port p = port)"
  show "\<exists>c. apply_stored_claim i pend n port nh now timing u = learn n port nh now (u\<lparr>tb_counters := c\<rparr>)"
    using a same unfolding apply_stored_claim_def x_def
    by (cases "tb_convergence u"; cases pend) (auto simp: Let_def)
next
  assume "tb_convergence u = Hardened" "\<not> rt_direct x" "rt_port x \<noteq> port"
    "\<not> (\<exists>p. pend = Some p \<and> \<not> claim_expired now timing p \<and> pe_port p = port)"
  then show "\<exists>c. apply_stored_claim i pend n port nh now timing u
        = (LearnHeld, (u\<lparr>tb_slots := (tb_slots u)[i := (tb_slots u ! i)\<lparr>rw_pending := Some p'\<rparr>]\<rparr>)\<lparr>tb_counters := c\<rparr>)"
    by (cases pend) (auto simp: apply_stored_claim_def x_def p'_def)
qed

lemma apply_claim_result:
  assumes wf: "table_wf r h t" and a: "apply_claim n port nh now timing t = (res, t')"
  shows "table_wf r h t'"
    "(res, route_lookup n t', table_pending n t')
       = claim_spec (tb_convergence t) timing (tb_len t = r) n port nh now (route_lookup n t) (table_pending n t)"
    "m \<noteq> n \<Longrightarrow> route_lookup m t' = route_lookup m t \<and> table_pending m t' = table_pending m t"
    "tb_convergence t' = tb_convergence t"
proof -
  let ?spec = "claim_spec (tb_convergence t) timing (tb_len t = r) n port nh now (route_lookup n t) (table_pending n t)"
  have "table_wf r h t' \<and> (res, route_lookup n t', table_pending n t') = ?spec
      \<and> (m \<noteq> n \<longrightarrow> route_lookup m t' = route_lookup m t \<and> table_pending m t' = table_pending m t) \<and> tb_convergence t' = tb_convergence t"
  proof (cases "table_find n t")
    case (Inl i)
    then have none: "route_lookup n t = None" "table_pending n t = None" by (simp_all add: route_lookup_def table_pending_def)
    have "learn n port nh now t = (res, t')" using a by (simp add: apply_claim_def Inl)
    note l = learn_result [OF wf this]
    show ?thesis using l(1,2,4,5,6) l(3) [of n] l(3) [of m] none
      by (cases "tb_convergence t") (simp_all add: claim_spec_def Let_def split_beta)
  next
    case (Inr i)
    let ?s = "tb_slots t ! i"
    define u where "u = t\<lparr>tb_slots := (tb_slots t)[i := ?s\<lparr>rw_pending := None\<rparr>]\<rparr>"
    have u: "table_wf r h u" "route_lookup k u = route_lookup k t" "table_pending n u = None"
        "k \<noteq> n \<Longrightarrow> table_pending k u = table_pending k t" "table_find n u = Inr i" "tb_slots u ! i = ?s\<lparr>rw_pending := None\<rparr>" for k
      unfolding u_def using set_pending_rows [OF wf Inr, of None] by simp_all
    have x: "route_lookup n t = Some (rw_route ?s)" "table_pending n t = rw_pending ?s" by (simp_all add: route_lookup_def table_pending_def Inr)
    have same: "tb_convergence u = tb_convergence t" "tb_len u = tb_len t" by (simp_all add: u_def)
    let ?go = "let (res, new) = learn_spec (tb_len t = r) n port nh now (route_lookup n t) in (res, new, None)"
    have learned: "table_wf r h t' \<and> (res, route_lookup n t', table_pending n t') = ?go
      \<and> (m \<noteq> n \<longrightarrow> route_lookup m t' = route_lookup m t \<and> table_pending m t' = table_pending m t) \<and> tb_convergence t' = tb_convergence t"
      if "learn n port nh now v = (res, t')" "v = u\<lparr>tb_counters := c\<rparr>" for v c
    proof -
      have v: "table_wf r h v" "route_lookup k v = route_lookup k t" "table_pending n v = None"
          "k \<noteq> n \<Longrightarrow> table_pending k v = table_pending k t" "tb_len v = tb_len t" "tb_convergence v = tb_convergence t" for k
        using u same that(2) by simp_all
      note l = learn_result [OF v(1) that(1)]
      show ?thesis using l(1,2,4,5,6) l(3) [of n] l(3) [of m] v by (simp add: split_beta)
    qed
    show ?thesis
    proof (cases "tb_convergence t = Standard \<or> rt_direct (rw_route ?s) \<or> rt_port (rw_route ?s) = port
        \<or> (\<exists>p. rw_pending ?s = Some p \<and> \<not> claim_expired now timing p \<and> pe_port p = port)")
      case True
      have "\<exists>c. apply_stored_claim i (rw_pending ?s) n port nh now timing u = learn n port nh now (u\<lparr>tb_counters := c\<rparr>)"
        by (rule stored_claim_cases(1)) (use True u(6) same in auto)
      then obtain c where "learn n port nh now (u\<lparr>tb_counters := c\<rparr>) = (res, t')" using a by (auto simp: apply_claim_def Inr u_def)
      note l = learned [OF this refl]
      have "?spec = ?go" using True x by (cases "tb_convergence t") (auto simp: claim_spec_def Let_def split: option.split)
      with l show ?thesis by metis
    next
      case False
      let ?p = "\<lparr>pe_port = port, pe_first_seen = now\<rparr>"
      have "\<exists>c. apply_stored_claim i (rw_pending ?s) n port nh now timing u
          = (LearnHeld, (u\<lparr>tb_slots := (tb_slots u)[i := (tb_slots u ! i)\<lparr>rw_pending := Some ?p\<rparr>]\<rparr>)\<lparr>tb_counters := c\<rparr>)"
        by (rule stored_claim_cases(2)) (use False u(6) same in \<open>cases "tb_convergence t"; auto\<close>)+
      then have "\<exists>c. res = LearnHeld \<and> t' = (u\<lparr>tb_slots := (tb_slots u)[i := (tb_slots u ! i)\<lparr>rw_pending := Some ?p\<rparr>]\<rparr>)\<lparr>tb_counters := c\<rparr>"
        using a by (auto simp: apply_claim_def Inr u_def)
      then obtain c where c: "res = LearnHeld"
          "t' = (u\<lparr>tb_slots := (tb_slots u)[i := (tb_slots u ! i)\<lparr>rw_pending := Some ?p\<rparr>]\<rparr>)\<lparr>tb_counters := c\<rparr>" by blast
      define v where "v = u\<lparr>tb_slots := (tb_slots u)[i := (tb_slots u ! i)\<lparr>rw_pending := Some ?p\<rparr>]\<rparr>"
      have ok: "\<forall>p. Some ?p = Some p \<longrightarrow> \<not> rt_direct (rw_route (tb_slots u ! i)) \<and> pe_port p \<noteq> rt_port (rw_route (tb_slots u ! i))"
        using False u(6) by auto
      have s: "table_wf r h v" "route_lookup k v = route_lookup k t" "table_pending n v = Some ?p"
          "k \<noteq> n \<Longrightarrow> table_pending k v = table_pending k t" for k
        using set_pending_rows [OF u(1,5) ok] u(2,4) unfolding v_def by metis+
      have spec: "?spec = (LearnHeld, route_lookup n t, Some ?p)"
        using False x by (cases "tb_convergence t") (auto simp: claim_spec_def Let_def split: option.split)
      show ?thesis unfolding spec c v_def [symmetric] using s same by (simp add: v_def)
    qed
  qed
  then show "table_wf r h t'" "(res, route_lookup n t', table_pending n t') = ?spec"
    "m \<noteq> n \<Longrightarrow> route_lookup m t' = route_lookup m t \<and> table_pending m t' = table_pending m t"
    "tb_convergence t' = tb_convergence t" by simp_all
qed

section \<open>Rejects\<close>

text \<open>What a reject does to the route of its network, with the hold-down of its arrival port on or off.\<close>

definition reject_spec :: "timing \<Rightarrow> reject_message_reason \<Rightarrow> instant \<Rightarrow> bool \<Rightarrow> route option \<Rightarrow> reject_effect \<times> route option" where
  "reject_spec timing reason now held old =
     (case old of
        None \<Rightarrow> (RejectSameState, None)
      | Some x \<Rightarrow>
          if rt_direct x then (RejectSameState, old)
          else if reason \<noteq> NOT_DIRECTLY_CONNECTED \<and> reason \<noteq> ROUTER_BUSY then (RejectKept, old)
          else if \<not> reject_changes reason now x then (RejectSameState, old)
          else if held then (RejectHeldDown, old)
          else (RejectApplied, Some (if reason = NOT_DIRECTLY_CONNECTED then unreachable_route x
                 else snd (busy_route (instant_saturating_add now (tm_busy_for timing)) x))))"

lemma slot_update_others: "tb_holds (slot_update n f t) = tb_holds t" "tb_convergence (slot_update n f t) = tb_convergence t"
  by (simp_all add: slot_update_def split: sum.split)

lemma apply_reject_result:
  assumes wf: "table_wf r h t" and a: "apply_reject n port reason now timing t = (eff, t')"
  defines "held \<equiv> is_held_down n port now timing (tb_holds t)"
  shows "table_wf r h t'" "eff = fst (reject_spec timing reason now held (route_lookup n t))"
    "route_lookup m t' = (if m = n then snd (reject_spec timing reason now held (route_lookup n t)) else route_lookup m t)"
    "eff = RejectApplied \<Longrightarrow> 0 < h \<Longrightarrow> holds_since n port (tb_holds t') = Some now"
proof -
  let ?spec = "reject_spec timing reason now held (route_lookup n t)"
  let ?changes = "case route_lookup n t of Some x \<Rightarrow> reject_changes reason now x | None \<Rightarrow> False"
  have "table_wf r h t' \<and> eff = fst ?spec \<and> route_lookup m t' = (if m = n then snd ?spec else route_lookup m t)
      \<and> (eff = RejectApplied \<longrightarrow> 0 < h \<longrightarrow> holds_since n port (tb_holds t') = Some now)"
  proof (cases "?changes \<and> \<not> held")
    case False
    then have "\<exists>c. t' = t\<lparr>tb_counters := c\<rparr>" "eff = fst ?spec" "snd ?spec = route_lookup n t" "eff \<noteq> RejectApplied"
      using a unfolding apply_reject_def Let_def held_def [symmetric]
      by (auto simp: reject_spec_def reject_changes_def split: option.splits if_splits)
    then show ?thesis using wf by auto
  next
    case True
    then obtain x where x: "route_lookup n t = Some x" "reject_changes reason now x" "\<not> held" by (auto split: option.splits)
    let ?f = "if reason = NOT_DIRECTLY_CONNECTED then unreachable_route
        else (\<lambda>x. snd (busy_route (instant_saturating_add now (tm_busy_for timing)) x))"
    have kind: "\<not> rt_direct x" "reason = NOT_DIRECTLY_CONNECTED \<or> reason = ROUTER_BUSY"
      using x(2) by (auto simp: reject_changes_def split: if_splits)
    define u where "u = slot_update n (on_route ?f) (tally_claim (\<lambda>c. c\<lparr>cc_reject_applied := one_more (cc_reject_applied c)\<rparr>) t)"
    have marked: "(if reason = NOT_DIRECTLY_CONNECTED then mark_unreachable n v
        else mark_busy n (instant_saturating_add now (tm_busy_for timing)) v) = slot_update n (on_route ?f) v" for v
      by (simp add: mark_unreachable_def mark_busy_def)
    have u: "table_wf r h u" "route_lookup k u = (if k = n then map_option ?f (route_lookup k t) else route_lookup k t)" for k
    proof -
      have "route_ok (?f y) \<and> rt_direct (?f y) = rt_direct y \<and> rt_port (?f y) = rt_port y" if "route_ok y" for y
        using busy_ok [OF that] unreachable_ok [OF that] by simp
      then show "table_wf r h u" "route_lookup k u = (if k = n then map_option ?f (route_lookup k t) else route_lookup k t)"
        unfolding u_def using lookup_slot_update [of r h "tally_claim (\<lambda>c. c\<lparr>cc_reject_applied := one_more (cc_reject_applied c)\<rparr>) t" n ?f]
          lookup_row_ok [OF wf] wf by simp_all
    qed
    have ho: "tb_holds u = tb_holds t" by (simp add: u_def slot_update_others)
    obtain ev hs where rec: "holds_record n port now (tb_holds t) = (ev, hs)" by fastforce
    have "eff = RejectApplied \<and> (t' = u\<lparr>tb_holds := hs\<rparr> \<or> (\<exists>c. t' = (u\<lparr>tb_holds := hs\<rparr>)\<lparr>tb_counters := c\<rparr>))"
      using a x kind rec ho unfolding apply_reject_def Let_def held_def [symmetric] marked u_def [symmetric]
      by (auto split: if_splits)
    moreover have "u\<lparr>tb_holds := hs\<rparr> = (u\<lparr>tb_holds := hs\<rparr>)\<lparr>tb_counters := tb_counters u\<rparr>" by simp
    ultimately obtain c where t': "t' = (u\<lparr>tb_holds := hs\<rparr>)\<lparr>tb_counters := c\<rparr>" and eff: "eff = RejectApplied" by blast
    note hr = holds_record_result [OF table_wfD(6) [OF wf] rec]
    have learned: "n \<in> learned_networks u" "learned_networks t \<subseteq> learned_networks u"
    proof -
      have "\<not> rt_direct (?f x)" using busy_ok unreachable_ok lookup_row_ok [OF wf x(1)] kind(1) by simp
      then show "n \<in> learned_networks u" using u(2) x(1) by (simp add: learned_networks_iff [OF u(1)])
      then show "learned_networks t \<subseteq> learned_networks u"
        using u(2) by (auto simp: learned_networks_iff [OF u(1)] learned_networks_iff [OF wf])
    qed
    have "set (holds_stored hs) \<subseteq> insert \<lparr>ho_network = n, ho_port = port, ho_since = now\<rparr> (set (holds_stored (tb_holds t)))"
      using hr by (cases ev; cases "h = 0") auto
    then have "ho_network ` set (holds_stored hs) \<subseteq> insert n (ho_network ` set (holds_stored (tb_holds t)))" by force
    then have "ho_network ` set (holds_stored hs) \<subseteq> learned_networks u" using learned table_wfD(7) [OF wf] by blast
    then have "table_wf r h t'" unfolding t' using holds_wf [OF u(1)] hr by simp
    moreover have "holds_since n port hs = Some now" if "0 < h"
    proof -
      have "\<lparr>ho_network = n, ho_port = port, ho_since = now\<rparr> \<in> set (holds_stored hs)" using hr that by (cases ev) auto
      then show ?thesis using holds_since_iff hr by blast
    qed
    moreover have "snd ?spec = map_option ?f (route_lookup n t)" "fst ?spec = RejectApplied"
      using x kind by (auto simp: reject_spec_def)
    ultimately show ?thesis using u(2) eff by (simp add: t')
  qed
  then show "table_wf r h t'" "eff = fst ?spec" "route_lookup m t' = (if m = n then snd ?spec else route_lookup m t)"
    "eff = RejectApplied \<Longrightarrow> 0 < h \<Longrightarrow> holds_since n port (tb_holds t') = Some now" by simp_all
qed

section \<open>Every sequence of calls\<close>

lemma fold_tally: "\<exists>c. fold (\<lambda>_. tally_claim f) xs t = t\<lparr>tb_counters := c\<rparr>"
proof (induction xs arbitrary: t)
  case Nil
  show ?case by (rule exI [of _ "tb_counters t"]) simp
next
  case (Cons x xs)
  obtain c where "fold (\<lambda>_. tally_claim f) xs (tally_claim f t) = (tally_claim f t)\<lparr>tb_counters := c\<rparr>" using Cons.IH by blast
  then show ?case by (intro exI [of _ c]) simp
qed

lemma expire_pending_result:
  assumes wf: "table_wf r h t"
  shows "table_wf r h (snd (expire_pending now timing t))" "route_lookup m (snd (expire_pending now timing t)) = route_lookup m t"
proof -
  let ?f = "\<lambda>s. if pending_past now timing s then s\<lparr>rw_pending := None\<rparr> else s"
  have ok: "rw_network (?f s) = rw_network s \<and> row_ok (?f s) \<and> (rt_direct (rw_route (?f s)) \<longrightarrow> rt_direct (rw_route s))"
    if "s \<in> set (stored t)" for s using table_wfD(4) [OF wf that] by (auto simp: row_ok_def)
  have e: "table_wf r h (each_slot ?f t)" "stored (each_slot ?f t) = map ?f (stored t)"
    by (rule each_slot_rows [OF wf]; use ok in blast)+
  obtain c where c: "snd (expire_pending now timing t) = (each_slot ?f t)\<lparr>tb_counters := c\<rparr>"
  proof -
    have "snd (expire_pending now timing t)
        = fold (\<lambda>_. tally_claim (\<lambda>c. c\<lparr>cc_pending_expired := one_more (cc_pending_expired c)\<rparr>))
            (filter (pending_past now timing) (stored t)) (each_slot ?f t)"
      unfolding expire_pending_def Let_def snd_conv by (rule refl)
    with fold_tally [of "\<lambda>c. c\<lparr>cc_pending_expired := one_more (cc_pending_expired c)\<rparr>"
        "filter (pending_past now timing) (stored t)" "each_slot ?f t"] that show thesis by auto
  qed
  show "table_wf r h (snd (expire_pending now timing t))" unfolding c using e(1) by simp
  have "table_row m (each_slot ?f t) = map_option ?f (table_row m t)"
  proof -
    have "find (\<lambda>s. rw_network s = m) (map ?f ss) = map_option ?f (find (\<lambda>s. rw_network s = m) ss)" for ss
      by (induction ss) auto
    then show ?thesis by (simp add: e(2))
  qed
  then have "route_lookup m (each_slot ?f t) = route_lookup m t"
    unfolding lookup_row [OF wf] lookup_row [OF e(1)] by (cases "table_row m t") simp_all
  then show "route_lookup m (snd (expire_pending now timing t)) = route_lookup m t" unfolding c by simp
qed

lemma add_direct_result:
  assumes wf: "table_wf r h t" and a: "add_direct n port t = (installed, t')"
  shows "table_wf r h t'" "installed \<longleftrightarrow> \<not> is_reserved n \<and> (route_lookup n t \<noteq> None \<or> tb_len t < r)"
    "route_lookup m t' = (if m = n \<and> installed then Some (route_direct port) else route_lookup m t)"
proof -
  have "table_wf r h t' \<and> (installed \<longleftrightarrow> \<not> is_reserved n \<and> (route_lookup n t \<noteq> None \<or> tb_len t < r))
      \<and> route_lookup m t' = (if m = n \<and> installed then Some (route_direct port) else route_lookup m t)"
  proof (cases "is_reserved n")
    case True
    then show ?thesis using a wf by (simp add: add_direct_def)
  next
    case False
    then have "table_put n (route_direct port) (t\<lparr>tb_holds := holds_forget n (tb_holds t)\<rparr>) = (installed, t')"
      using a by (simp add: add_direct_def)
    note i = install_rows [OF wf False route_ok_fresh(1) this]
    show ?thesis using i(1-3) False by simp
  qed
  then show "table_wf r h t'" "installed \<longleftrightarrow> \<not> is_reserved n \<and> (route_lookup n t \<noteq> None \<or> tb_len t < r)"
    "route_lookup m t' = (if m = n \<and> installed then Some (route_direct port) else route_lookup m t)" by simp_all
qed

lemma removal_result:
  assumes wf: "table_wf r h t"
  shows "table_wf r h (snd (apply_management_removal n t))"
    "route_lookup m (snd (apply_management_removal n t))
       = (if m = n \<and> (\<exists>x. route_lookup n t = Some x \<and> \<not> rt_direct x) then None else route_lookup m t)"
  using table_remove_rows(1,2) [OF wf surjective_pairing, of n] table_remove_rows(3) [OF wf surjective_pairing, of m n] wf
  by (auto simp: apply_management_removal_def split_beta split: option.split)

lemma new_clear_wf:
  shows "table_wf r h (table_new r h)" "route_lookup m (table_new r h) = None"
    and "table_wf r h t \<Longrightarrow> table_wf r h (table_clear t)" "table_wf r h t \<Longrightarrow> route_lookup m (table_clear t) = None"
proof -
  show n: "table_wf r h (table_new r h)"
    by (simp add: table_wf_def table_new_def stored_def holds_ok_def holds_new_def holds_stored_def)
  show "route_lookup m (table_new r h) = None" by (simp add: lookup_row [OF n]) (simp add: table_new_def stored_def)
  assume wf: "table_wf r h t"
  note d = table_wfD [OF wf]
  show c: "table_wf r h (table_clear t)"
    using d by (simp add: table_wf_def table_clear_def stored_def holds_ok_def holds_clear_def holds_stored_def fill_rows_def
        flip: replicate_add)
  show "route_lookup m (table_clear t) = None" by (simp add: lookup_row [OF c]) (simp add: table_clear_def stored_def)
qed

text \<open>What the messages a router receives, the traffic it carries and the time that passes do to its table.\<close>

inductive peer_step :: "table \<Rightarrow> table \<Rightarrow> bool" where
  claim: "peer_step t (snd (apply_claim n port nh now timing t))"
| learns: "peer_step t (snd (learn n port nh now t))"
| update: "peer_step t (snd (apply_management_update n port nh now t))"
| removal: "peer_step t (snd (apply_management_removal n t))"
| rejected: "peer_step t (snd (apply_reject n port reason now timing t))"
| busy: "peer_step t (mark_busy n deadline t)"
| available: "peer_step t (mark_available n t)"
| unreachable: "peer_step t (mark_unreachable n t)"
| busy_peer: "peer_step t (snd (mark_busy_via_peer port peer deadline t))"
| available_peer: "peer_step t (snd (mark_available_via_peer port peer t))"
| lapsed: "peer_step t (snd (clear_expired_busy now t))"
| used: "peer_step t (table_touch n now t)"
| aged: "peer_step t (snd (purge_stale now max_age t))"
| expired: "peer_step t (snd (expire_pending now timing t))"
| mode: "peer_step t (set_convergence c t)"
| counted: "peer_step t (t\<lparr>tb_counters := c\<rparr>)"

inductive table_reach :: "nat \<Rightarrow> nat \<Rightarrow> table \<Rightarrow> bool" for r h where
  new: "table_reach r h (table_new r h)"
| step: "table_reach r h t \<Longrightarrow> peer_step t t' \<Longrightarrow> table_reach r h t'"
| direct: "table_reach r h t \<Longrightarrow> table_reach r h (snd (add_direct n port t))"
| removed: "table_reach r h t \<Longrightarrow> table_reach r h (snd (table_remove n t))"
| cleared: "table_reach r h t \<Longrightarrow> table_reach r h (table_clear t)"

lemma step_wf:
  assumes "peer_step t t'" "table_wf r h t"
  shows "table_wf r h t'"
  using assms
proof cases
  case (claim n port nh now timing)
  then show ?thesis using apply_claim_result(1) [OF assms(2) surjective_pairing] by simp
next
  case (learns n port nh now)
  then show ?thesis using learn_result(1) [OF assms(2) surjective_pairing] by simp
next
  case (update n port nh now)
  then show ?thesis using add_learned_result(1) [OF assms(2) surjective_pairing] by (simp add: apply_management_update_def)
next
  case (rejected n port reason now timing)
  then show ?thesis using apply_reject_result(1) [OF assms(2) surjective_pairing] by simp
next
  case (aged now max_age)
  obtain q where q: "purge_stale now max_age t = q" by blast
  then show ?thesis using purge_stale_rows(1) [OF assms(2), of now max_age "fst (fst q)" "snd (fst q)" "snd q"] aged by simp
qed (use assms(2) in \<open>simp_all add: removal_result marks_result sweeps_result expire_pending_result set_convergence_def\<close>)

lemma reach_wf: "table_reach r h t \<Longrightarrow> table_wf r h t"
proof (induction rule: table_reach.induct)
  case (direct t n port)
  then show ?case using add_direct_result(1) [OF _ surjective_pairing] by blast
next
  case (removed t n)
  then show ?case using table_remove_rows(1) [OF _ surjective_pairing] by blast
qed (auto intro: step_wf new_clear_wf)

text \<open>
  C11: The routing table's storage over every sequence of calls. It never holds more routes than
  it has room for; its rows are in strictly ascending order of network, which is what the binary
  search needs, so a lookup finds exactly the rows that are listed; no row is for network 0 or
  0xFFFF; a directly attached network has a route with no next router, mark or age; every other
  route is dated and carries a deadline exactly while it is busy; and a hold-down record stands
  only for a learned route, at most one for each network and arrival port.
\<close>

theorem route_table_invariant:
  assumes "table_reach r h t"
  shows "tb_len t \<le> r \<and> sorted_wrt (<) (table_networks t)
    \<and> (\<forall>n x. route_lookup n t = Some x \<longleftrightarrow> (n, x) \<in> set (table_routes t))
    \<and> (\<forall>n x. route_lookup n t = Some x \<longrightarrow> n \<noteq> 0 \<and> n \<noteq> 0xFFFF
         \<and> (if rt_direct x then x = route_direct (rt_port x)
            else rt_last_seen x \<noteq> None \<and> (rt_reachability x = Busy \<longleftrightarrow> rt_busy_until x \<noteq> None)))
    \<and> length (holds_stored (tb_holds t)) \<le> h
    \<and> distinct (map (\<lambda>x. (ho_network x, ho_port x)) (holds_stored (tb_holds t)))
    \<and> (\<forall>x \<in> set (holds_stored (tb_holds t)). \<exists>y. route_lookup (ho_network x) t = Some y \<and> \<not> rt_direct y)"
proof -
  note wf = reach_wf [OF assms] and d = table_wfD [OF reach_wf [OF assms]]
  have "\<forall>n x. route_lookup n t = Some x \<longleftrightarrow> (n, x) \<in> set (table_routes t)"
    unfolding route_lookup_iff [OF wf] by (auto simp: table_routes_def)
  moreover have "\<forall>n x. route_lookup n t = Some x \<longrightarrow> n \<noteq> 0 \<and> n \<noteq> 0xFFFF
         \<and> (if rt_direct x then x = route_direct (rt_port x)
            else rt_last_seen x \<noteq> None \<and> (rt_reachability x = Busy \<longleftrightarrow> rt_busy_until x \<noteq> None))"
    using lookup_row_ok [OF wf] unfolding route_ok_def is_reserved_def by blast
  moreover have "\<forall>x \<in> set (holds_stored (tb_holds t)). \<exists>y. route_lookup (ho_network x) t = Some y \<and> \<not> rt_direct y"
    using d(7) learned_networks_iff [OF wf] by blast
  moreover have "length (holds_stored (tb_holds t)) \<le> h" using d(6) by (simp add: holds_ok_def holds_stored_def)
  ultimately show ?thesis using d(2,3,6) unfolding table_networks_def holds_ok_def by blast
qed

lemma step_direct:
  assumes wf: "table_wf r h t" and "peer_step t t'" "route_lookup n t = Some x" "rt_direct x"
  shows "route_lookup n t' = Some x"
proof -
  have ok: "route_ok x" "\<not> is_reserved n" using lookup_row_ok [OF wf assms(3)] by simp_all
  note fields = direct_fields [OF ok(1) assms(4)]
  note kept = busy_ok [OF ok(1)] available_ok [OF ok(1)] unreachable_ok [OF ok(1)] lift_busy_ok [OF ok(1)] used_ok [OF ok(1)]
  show ?thesis using assms(2)
  proof cases
    case (claim m port nh now timing)
    note c = apply_claim_result [OF wf surjective_pairing, where n = m and port = port and nh = nh and now = now and timing = timing]
    show ?thesis
    proof (cases "m = n")
      case True
      have "claim_spec (tb_convergence t) timing (tb_len t = r) n port nh now (Some x) (table_pending n t)
          = (LearnRefused DirectRoute, Some x, None)"
        using assms(4) ok(2) by (cases "tb_convergence t") (simp_all add: claim_spec_def learn_spec_def)
      then show ?thesis using c(2) claim True assms(3) by simp
    qed (use c(3) claim assms(3) in simp)
  next
    case (learns m port nh now)
    then show ?thesis using learn_result(3) [OF wf surjective_pairing, of n m port nh now] assms(3,4) ok(2)
      by (auto simp: learn_spec_def)
  next
    case (update m port nh now)
    then show ?thesis using add_learned_result(2,3) [OF wf surjective_pairing, where n = m and port = port and nh = nh and now = now] assms(3,4)
      by (auto simp: apply_management_update_def)
  next
    case (rejected m port reason now timing)
    then show ?thesis using apply_reject_result(3) [OF wf surjective_pairing, of n m port reason now timing] assms(3,4)
      by (auto simp: reject_spec_def)
  next
    case (aged now max_age)
    obtain a b t1 where q: "purge_stale now max_age t = ((a, b), t1)" by (metis surjective_pairing)
    have "\<not> is_stale now max_age s" if "s \<in> set (stored t)" "rw_network s = n" for s
    proof -
      have "rw_route s = x" using that assms(3) route_lookup_iff [OF wf, of n "rw_route s"] by auto
      then show ?thesis using assms(4) by (simp add: is_stale_def)
    qed
    then show ?thesis using purge_stale_rows(2) [OF wf q, of n] aged q assms(3) by auto
  qed (use assms(3,4) kept wf in \<open>auto simp: removal_result marks_result sweeps_result expire_pending_result set_convergence_def served_via_def\<close>)
qed

text \<open>
  C12: Nothing that happens on the wire changes the route to a directly attached network: no
  learning claim in either mode, no management write, no reject, no flow-control message, no
  traffic and no aging. Its row stays exactly as it was configured.
\<close>

theorem direct_routes_fixed:
  assumes "table_reach r h t" "peer_step t t'" "route_lookup n t = Some x" "rt_direct x"
  shows "route_lookup n t' = Some x"
  by (rule step_direct [OF reach_wf [OF assms(1)] assms(2-4)])

text \<open>
  C13: Learning implements its rule on the map from networks to routes. A claim that a network
  lies beyond a router changes at most the claimed network: network 0, 0xFFFF, a directly
  attached network and a new network with the table full are refused; a new route and a refresh
  through the same port apply at once, in both modes; and a move to another port applies at once
  under standard convergence, while under hardened convergence it is held as a pending claim
  until one for the same port finds it there and not expired. What the call returns, the route
  and the pending claim afterwards are those of the rule.
\<close>

theorem claim_refines:
  assumes "table_reach r h t" "apply_claim n port next_hop now timing t = (res, t')"
  shows "(res, route_lookup n t', table_pending n t')
      = claim_spec (tb_convergence t) timing (tb_len t = r) n port next_hop now (route_lookup n t) (table_pending n t)
    \<and> (\<forall>m. m \<noteq> n \<longrightarrow> route_lookup m t' = route_lookup m t \<and> table_pending m t' = table_pending m t)"
  using apply_claim_result [OF reach_wf [OF assms(1)] assms(2)] by blast

text \<open>
  C14: Hardened convergence never moves a learned route on the word of a single claim. The first
  claim for another port is held and leaves every route as it was; a second claim for that port
  moves the route, with the second claim's next router, if and only if it comes within the
  corroboration window of the first, the last instant included. A later one only starts the wait
  again.
\<close>

theorem hardened_two_claims:
  assumes "table_reach r h t" "tb_convergence t = Hardened"
    and "route_lookup n t = Some x" "\<not> rt_direct x" "rt_port x \<noteq> port"
    and "\<not> (\<exists>p. table_pending n t = Some p \<and> \<not> claim_expired first timing p \<and> pe_port p = port)"
    and "apply_claim n port hop first timing t = (res, t')" "apply_claim n port hop' second timing t' = (res', t'')"
  shows "res = LearnHeld \<and> (\<forall>m. route_lookup m t' = route_lookup m t)
    \<and> (if saturating_duration_since second first \<le> tm_corroboration timing
       then res' = LearnMoved (rt_port x) (flaps_after second x)
         \<and> (\<exists>y. route_lookup n t'' = Some y \<and> rt_port y = port \<and> rt_next_hop y = hop' \<and> rt_last_seen y = Some second)
       else res' = LearnHeld \<and> (\<forall>m. route_lookup m t'' = route_lookup m t))"
proof -
  note wf = reach_wf [OF assms(1)]
  note one = apply_claim_result [OF wf assms(7)]
  note two = apply_claim_result [OF one(1) assms(8)]
  have nr: "\<not> is_reserved n" using lookup_row_ok [OF wf assms(3)] by simp
  have "claim_spec Hardened timing (tb_len t = r) n port hop first (Some x) (table_pending n t)
      = (LearnHeld, Some x, Some \<lparr>pe_port = port, pe_first_seen = first\<rparr>)"
    using assms(4-6) by (auto simp: claim_spec_def Let_def split: option.split)
  then have a: "res = LearnHeld" "route_lookup n t' = Some x" "table_pending n t' = Some \<lparr>pe_port = port, pe_first_seen = first\<rparr>"
    using one(2) assms(2,3) by simp_all
  have same: "route_lookup m t' = route_lookup m t" for m using one(3) [of m] a(2) assms(3) by (cases "m = n") simp_all
  have conv: "tb_convergence t' = Hardened" using one(4) assms(2) by simp
  have "claim_spec Hardened timing (tb_len t' = r) n port hop' second (Some x) (Some \<lparr>pe_port = port, pe_first_seen = first\<rparr>)
      = (if saturating_duration_since second first \<le> tm_corroboration timing
         then (LearnMoved (rt_port x) (flaps_after second x),
               Some ((route_learned port hop' second)\<lparr>rt_flap_count := flaps_after second x, rt_last_port_change := Some second\<rparr>), None)
         else (LearnHeld, Some x, Some \<lparr>pe_port = port, pe_first_seen = second\<rparr>))"
    using assms(4,5) nr by (auto simp: claim_spec_def learn_spec_def Let_def claim_expired_def not_le)
  then have b: "(res', route_lookup n t'', table_pending n t'') = \<dots>" using two(2) conv a(2,3) by simp
  have "route_lookup m t'' = route_lookup m t" if "res' = LearnHeld" for m
    using two(3) [of m] same that b assms(3) by (cases "m = n") (simp_all split: if_splits)
  then show ?thesis using a(1) same b by (simp add: route_learned_def ROUTE_ZERO_def split: if_splits)
qed


lemma marks_holds [simp]:
  "tb_holds (mark_busy n dl t) = tb_holds t" "tb_holds (mark_available n t) = tb_holds t" "tb_holds (mark_unreachable n t) = tb_holds t"
  "tb_holds (table_touch n now t) = tb_holds t" "tb_holds (snd (mark_busy_via_peer p peer dl t)) = tb_holds t"
  "tb_holds (snd (mark_available_via_peer p peer t)) = tb_holds t" "tb_holds (snd (clear_expired_busy now t)) = tb_holds t"
  by (simp_all add: mark_busy_def mark_available_def mark_unreachable_def table_touch_def slot_update_others mark_busy_via_peer_def
      mark_available_via_peer_def clear_expired_busy_def each_slot_def)

lemma expire_pending_holds [simp]: "tb_holds (snd (expire_pending now timing t)) = tb_holds t"
proof -
  obtain c where "snd (expire_pending now timing t)
      = (each_slot (\<lambda>s. if pending_past now timing s then s\<lparr>rw_pending := None\<rparr> else s) t)\<lparr>tb_counters := c\<rparr>"
    unfolding expire_pending_def Let_def snd_conv
    using fold_tally [of "\<lambda>c. c\<lparr>cc_pending_expired := one_more (cc_pending_expired c)\<rparr>" "filter (pending_past now timing) (stored t)"
        "each_slot (\<lambda>s. if pending_past now timing s then s\<lparr>rw_pending := None\<rparr> else s) t"] by auto
  then show ?thesis by (simp add: each_slot_def)
qed















text \<open>
  Aging removes exactly the learned routes that no claim or management write has confirmed for
  longer than the limit, and reports them in ascending order; carrying traffic keeps no route.
\<close>

lemma aging_exact:
  assumes wf: "table_wf r h t" and purge: "purge_stale now max_age t = ((removed, purged), t')"
  shows "route_lookup n t' = (case route_lookup n t of
        Some x \<Rightarrow> if \<not> rt_direct x \<and> (\<exists>seen. rt_last_seen x = Some seen \<and> saturating_duration_since now seen > max_age) then None else Some x
      | None \<Rightarrow> None)"
    and "n \<in> set purged \<longleftrightarrow> route_lookup n t \<noteq> None \<and> route_lookup n t' = None" and "sorted_wrt (<) purged"
    and "snd (fst (purge_stale now max_age (table_touch m used t))) = purged"
proof -
  note p = purge_stale_rows [OF wf purge]
  have stale: "is_stale now max_age s \<longleftrightarrow> \<not> rt_direct x \<and> (\<exists>seen. rt_last_seen x = Some seen \<and> saturating_duration_since now seen > max_age)"
    if "rw_route s = x" for s x using that by (auto simp: is_stale_def split: option.splits)
  show eq: "route_lookup n t' = (case route_lookup n t of
        Some x \<Rightarrow> if \<not> rt_direct x \<and> (\<exists>seen. rt_last_seen x = Some seen \<and> saturating_duration_since now seen > max_age) then None else Some x
      | None \<Rightarrow> None)" for n
  proof (cases "route_lookup n t")
    case (Some x)
    then obtain s where s: "s \<in> set (stored t)" "rw_network s = n" "rw_route s = x" using route_lookup_iff [OF wf] by blast
    have "(\<exists>s \<in> set (stored t). rw_network s = n \<and> is_stale now max_age s) \<longleftrightarrow> is_stale now max_age s"
      using s table_rows.row_unique [OF wf] by blast
    then show ?thesis using p(2) [of n] stale [OF s(3)] Some by simp
  qed (use p(2) [of n] in simp)
  show "n \<in> set purged \<longleftrightarrow> route_lookup n t \<noteq> None \<and> route_lookup n t' = None"
  proof -
    have "n \<in> set purged \<longleftrightarrow> (\<exists>s \<in> set (stored t). rw_network s = n \<and> is_stale now max_age s)" unfolding p(3) by auto
    also have "\<dots> \<longleftrightarrow> route_lookup n t \<noteq> None \<and> route_lookup n t' = None"
      using p(2) [of n] route_lookup_None [OF wf, of n] by auto
    finally show ?thesis .
  qed
  show "sorted_wrt (<) purged"
    using table_rows.sorted_filtered [OF wf, of "is_stale now max_age"] unfolding p(3) .
  let ?f = "\<lambda>s. if rw_network s = m then on_route (\<lambda>r. if \<not> rt_direct r then r\<lparr>rt_last_used := Some used\<rparr> else r) s else s"
  have "stored (table_touch m used t) = map ?f (stored t)"
  proof -
    have "rw_network (on_route (\<lambda>r. if \<not> rt_direct r then r\<lparr>rt_last_used := Some used\<rparr> else r) s) = m
        \<and> row_ok (on_route (\<lambda>r. if \<not> rt_direct r then r\<lparr>rt_last_used := Some used\<rparr> else r) s)
        \<and> (rt_direct (rw_route (on_route (\<lambda>r. if \<not> rt_direct r then r\<lparr>rt_last_used := Some used\<rparr> else r) s)) \<longrightarrow> rt_direct (rw_route s))"
      if "s \<in> set (stored t)" "rw_network s = m" for s
      using table_wfD(4) [OF wf that(1)] that(2) by (auto simp: row_ok_def route_ok_def)
    then show ?thesis unfolding table_touch_def by (intro slot_update_rows(2) [OF wf]) blast
  qed
  moreover have "is_stale now max_age (?f s) \<longleftrightarrow> is_stale now max_age s" "rw_network (?f s) = rw_network s" for s
    by (simp_all add: is_stale_def)
  ultimately have "map rw_network (filter (is_stale now max_age) (stored (table_touch m used t)))
      = map rw_network (filter (is_stale now max_age) (stored t))"
    by (simp add: filter_map comp_def del: if_image_distrib)
  then show "snd (fst (purge_stale now max_age (table_touch m used t))) = purged"
    unfolding p(3) by (simp add: purge_stale_def Let_def split_beta)
qed


text \<open>
  C40: Whether a busy mark is swept as soon as it lapses or never, the router forwards alike. A
  sweep of the lapsed marks at one instant changes no answer to how far a network can be used at
  that instant or any later one, so a router that is slow to sweep neither refuses traffic it
  should carry nor carries traffic it should refuse.
\<close>

theorem sweep_invisible:
  assumes "table_reach r h t" "now \<le> later"
  shows "effective_reachability n later (snd (clear_expired_busy now t)) = effective_reachability n later t"
proof (cases "route_lookup n t")
  case None
  then show ?thesis by (simp add: effective_reachability_def sweeps_result(6) [OF reach_wf [OF assms(1)]])
next
  case (Some x)
  note wf = reach_wf [OF assms(1)]
  have "route_ok x" using lookup_row_ok [OF wf Some] by simp
  then have "rt_busy_until x \<noteq> None \<longleftrightarrow> rt_reachability x = Busy"
  proof (cases "rt_direct x")
    case True
    then show ?thesis using direct_fields [OF \<open>route_ok x\<close>] by simp
  qed (simp add: route_ok_def)
  moreover have "busy_lapsed now x \<longrightarrow> busy_lapsed later x"
    using assms(2) by (auto simp: busy_lapsed_def split: option.splits)
  ultimately show ?thesis using Some
    by (cases "busy_lapsed now x") (simp_all add: effective_reachability_def sweeps_result(6) [OF wf] lift_busy_def busy_lapsed_def split: option.splits)
qed

section \<open>A router with one attached and one learned network\<close>

definition timing_example :: timing where
  "timing_example = \<lparr>tm_busy_for = Duration 5, tm_hold_down = Duration 10, tm_corroboration = Duration 20\<rparr>"

definition attached_example :: table where
  "attached_example = snd (add_direct 1 (PortId 0) (table_new 4 2))"

definition table_example :: table where
  "table_example = set_convergence Hardened (snd (learn 5 (PortId 1) MAC_EMPTY (Instant 3) attached_example))"

lemma example_table:
  shows "table_reach 4 2 table_example" "tb_convergence table_example = Hardened"
    "route_lookup 1 table_example = Some (route_direct (PortId 0))"
    "route_lookup 5 table_example = Some (route_learned (PortId 1) MAC_EMPTY (Instant 3))" "table_pending 5 table_example = None"
proof -
  note a = add_direct_result [OF new_clear_wf(1) [of 4 2] surjective_pairing, where n = 1 and port = "PortId 0"]
  have a1: "table_reach 4 2 attached_example" unfolding attached_example_def by (rule table_reach.direct) (rule table_reach.new)
  have "\<not> is_reserved 1" "\<not> is_reserved 5" by (simp_all add: is_reserved_def)
  then have "fst (add_direct 1 (PortId 0) (table_new 4 2))" using a(2) by (simp add: table_new_def)
  then have a2: "route_lookup 1 attached_example = Some (route_direct (PortId 0))" "route_lookup 5 attached_example = None"
    using a(3) [of 1] a(3) [of 5] by (simp_all add: attached_example_def new_clear_wf(2))
  have len: "tb_len attached_example = 1" by (simp add: attached_example_def) code_simp
  note l = learn_result [OF reach_wf [OF a1] surjective_pairing, where n = 5 and port = "PortId 1" and nh = MAC_EMPTY and now = "Instant 3"]
  show "table_reach 4 2 table_example" unfolding table_example_def
    by (rule table_reach.step [OF table_reach.step [OF a1 peer_step.learns] peer_step.mode])
  show "tb_convergence table_example = Hardened" by (simp add: table_example_def set_convergence_def)
  show "route_lookup 1 table_example = Some (route_direct (PortId 0))"
    using l(3) [of 1] a2 by (simp add: table_example_def set_convergence_def)
  show "route_lookup 5 table_example = Some (route_learned (PortId 1) MAC_EMPTY (Instant 3))"
    using l(3) [of 5] a2 len \<open>\<not> is_reserved 5\<close> by (simp add: table_example_def set_convergence_def learn_spec_def)
  show "table_pending 5 table_example = None"
    using l(4) no_route_no_pending [OF reach_wf [OF a1] a2(2)] by (simp add: table_example_def set_convergence_def)
qed


theorem route_table_invariant_witness:
  "table_reach 4 2 table_example \<and> tb_len table_example \<le> 4 \<and> (5, route_learned (PortId 1) MAC_EMPTY (Instant 3)) \<in> set (table_routes table_example)"
  using route_table_invariant [OF example_table(1)] example_table(1,4) by blast

theorem direct_routes_fixed_witness:
  "route_lookup 1 (snd (apply_claim 1 (PortId 1) MAC_EMPTY (Instant 4) timing_example table_example)) = Some (route_direct (PortId 0))"
  by (rule direct_routes_fixed [OF example_table(1) peer_step.claim example_table(3)]) (simp add: route_direct_def)

theorem claim_refines_witness:
  "fst (apply_claim 5 (PortId 2) MAC_EMPTY (Instant 4) timing_example table_example) = LearnHeld"
  using claim_refines [OF example_table(1) surjective_pairing, where n = 5 and port = "PortId 2" and next_hop = MAC_EMPTY and now = "Instant 4"
      and timing = timing_example] example_table(2,4,5)
  by (simp add: claim_spec_def Let_def route_learned_def ROUTE_ZERO_def)

theorem hardened_two_claims_witness:
  "let t = snd (apply_claim 5 (PortId 2) MAC_EMPTY (Instant 4) timing_example table_example) in
   fst (apply_claim 5 (PortId 2) MAC_EMPTY (Instant 24) timing_example t) = LearnMoved (PortId 1) 1
   \<and> fst (apply_claim 5 (PortId 2) MAC_EMPTY (Instant 25) timing_example t) = LearnHeld"
proof -
  let ?x = "route_learned (PortId 1) MAC_EMPTY (Instant 3)"
  have x: "\<not> rt_direct ?x" "rt_port ?x \<noteq> PortId 2" "rt_port ?x = PortId 1" "flaps_after now ?x = 1" for now
    by (simp_all add: route_learned_def ROUTE_ZERO_def flaps_after_def)
  have p: "\<not> (\<exists>p. table_pending 5 table_example = Some p \<and> \<not> claim_expired (Instant 4) timing_example p \<and> pe_port p = PortId 2)"
    by (simp add: example_table(5))
  have "saturating_duration_since (Instant 24) (Instant 4) \<le> tm_corroboration timing_example"
    "\<not> saturating_duration_since (Instant 25) (Instant 4) \<le> tm_corroboration timing_example"
    by (simp_all add: timing_example_def saturating_duration_since_def less_eq_duration_def u64_saturating_sub_def u64_checked_sub_def)
  then show ?thesis
    using hardened_two_claims [OF example_table(1,2,4) x(1,2) p surjective_pairing surjective_pairing,
        where hop = MAC_EMPTY and hop' = MAC_EMPTY and second = "Instant 24"]
      hardened_two_claims [OF example_table(1,2,4) x(1,2) p surjective_pairing surjective_pairing,
        where hop = MAC_EMPTY and hop' = MAC_EMPTY and second = "Instant 25"]
    unfolding Let_def x(3,4) by argo
qed


theorem sweep_invisible_witness:
  "effective_reachability 5 (Instant 9) (snd (clear_expired_busy (Instant 9) (mark_busy 5 (Instant 9) table_example)))
     = effective_reachability 5 (Instant 9) (mark_busy 5 (Instant 9) table_example)"
  by (rule sweep_invisible [OF table_reach.step [OF example_table(1) peer_step.busy]]) simp

end
