(* ===== verification/Spec2Isabelle.thy ===== *)
theory Spec2Isabelle
  imports Npdu Bip6_Codec Mstp_Queue_Contract Mstp_Token_Slots Bbmd_Forward Bip_Node_Inv Route_Rules
begin

text \<open>
  A verification library for rusty-bacnet, a BACnet protocol stack in Rust. It models the
  crates without I/O on which the data links rest: the codecs, the MS/TP master node, the
  tables and decisions of a BBMD, the B/IP node, and the routing table of a router.

  \<^bold>\<open>The parts and how they meet.\<close> Octets come off a serial line into the MS/TP core
  (\<open>MasterCore::on_octet\<close>), which feeds its stream decoder, acts on every frame by the state
  machine of Clause 9.5.6, and gives its adapter actions to poll: a direction to switch to, a
  frame to send, a received NPDU to hand up. NPDUs to send wait in a queue storage until the
  core holds the token. The NPDU codec reads and writes what such frames carry, and the
  B/IP and B/IPv6 codecs the datagrams that carry the same NPDUs over UDP. A BBMD joins B/IP
  subnets into one network: it keeps a table of its peers and one of the foreign devices
  registered with it, and decides from them where each broadcast goes on. A B/IP node decides
  what a received datagram is (an NPDU to deliver, a request to refuse, a response, something
  to drop) and where its own NPDUs go, matches BVLC responses to its requests, and as a foreign
  device keeps itself registered with a BBMD. A router between such links keeps a table of the
  networks it reaches, learnt from the messages of other routers.

  \<^bold>\<open>Theories, in the order of the code.\<close>
  \<^item> \<open>Bacnet_Prelude\<close>: octets, big- and little-endian words, results as sums (\<open>Inl\<close> the
    error), the \<open>?\<close> operator, slices, copying into buffers.
  \<^item> \<open>Bacnet_Time\<close> (\<open>bacnet-time/src\<close>): durations and instants of 64 bits, checked and
    saturating, the shift-and-subtract division, the earliest deadline.
  \<^item> \<open>Network_Priority\<close>, \<open>Npdu\<close> (\<open>bacnet-npdu/src\<close>): codes, addresses, decoder, encoder,
    reject data. Round trips both ways and every outcome of the encoder.
  \<^item> \<open>Mstp_Crc\<close>, \<open>Mstp_Sink\<close>, \<open>Mstp_Cobs\<close>, \<open>Mstp_Frame\<close>, \<open>Mstp_Stream\<close>
    (\<open>bacnet-mstp-codec/src\<close>): checksums, byte sinks, COBS encoded fields, frames, and the
    incremental decoder, which refines a decoder over lists.
  \<^item> \<open>Bip_Codec\<close>, \<open>Bip6_Codec\<close> (\<open>bacnet-bip-codec/src\<close>): BVLL messages over IPv4 and IPv6.
  \<^item> \<open>Mstp_Config\<close>, \<open>Mstp_Config_Valid\<close> (\<open>bacnet-mstp-core/src/config.rs\<close>, \<open>counters.rs\<close>,
    \<open>errors.rs\<close>): parameters, configuration, counters; what validation accepts.
  \<^item> \<open>Mstp_Queue\<close>, \<open>Mstp_Queue_Contract\<close> (\<open>queue.rs\<close>, \<open>queue/\<close>): the trait \<open>QueueStorage\<close>
    as a record of operations, both storages, the locale that is the trait's contract and its
    two interpretations; every accepted NPDU is handed out, expired, dropped as oversize or
    waiting, counted once, and the next one served is the first under starvation, priority
    and age.
  \<^item> \<open>Mstp_Actions\<close> (\<open>actions.rs\<close>, \<open>storage.rs\<close>): the actions to poll, a refinement of a list.
  \<^item> \<open>Mstp_Master\<close> (\<open>state.rs\<close>, \<open>state/\<close>): the whole state machine, one definition per handler,
    over any queue storage. Going idle and using the token call each other; the model closes
    the cycle with \<open>enter_idle\<close> and proves the code's recursive equation (\<open>enter_idle_unfold\<close>).
  \<^item> \<open>Mstp_Master_Inv\<close>, \<open>Mstp_Master_Steady\<close>, \<open>Mstp_Master_Safety\<close>, \<open>Mstp_Master_Calls\<close>: the
    invariant and that every handler and every call keeps it.
  \<^item> \<open>Mstp_Master_Runs\<close>: the relation of the calls, reachable cores, and the theorems on them.
  \<^item> \<open>Mstp_Token_Slots\<close>: who generates a lost token, and whom a search asks.
  \<^item> \<open>Bbmd_Table\<close>: the locale of a table with a key per row, interpreted on both tables below.
  \<^item> \<open>Bbmd_Fdt\<close> (\<open>bacnet-bip-core/src/bbmd/fdt.rs\<close>): the foreign device table; its array refines
    a list, a registration lasts exactly its time, the limits hold in every reachable table.
  \<^item> \<open>Bbmd_Bdt\<close> (\<open>bbmd/bdt.rs\<close>, \<open>bbmd/nat.rs\<close>, \<open>subnet.rs\<close>): the broadcast distribution table;
    which rows and tables are taken, and the invariant every operation keeps.
  \<^item> \<open>Bbmd_Forward\<close> (\<open>bbmd/forward.rs\<close>, \<open>bbmd/serve.rs\<close>): the forwarding decisions and the
    management requests over both tables; who a broadcast reaches, and that it stops.
  \<^item> \<open>Bip_Link\<close> (\<open>bacnet-bip-core/src/node/config.rs\<close>, \<open>addressing.rs\<close>, \<open>receive.rs\<close>, \<open>send.rs\<close>):
    a node's link; exactly which datagrams are delivered and which refused with a NAK, and that
    what one node sends another delivers, through a BBMD too.
  \<^item> \<open>Bip_Registration\<close> (\<open>node/registration.rs\<close>): a foreign device's registration lifecycle; its
    lease does not outlast the BBMD's entry, but after a move to a longer time-to-live at the
    same BBMD (\<open>raised_ttl_outlives_entry\<close>), and when the next attempt is due.
  \<^item> \<open>Bip_Exchange\<close> (\<open>node/exchange.rs\<close>, \<open>node/counters.rs\<close>): BVLC requests waiting for a response.
  \<^item> \<open>Bip_Node\<close> (\<open>node/actions.rs\<close>, \<open>node/engine.rs\<close>): the node over the three, one definition
    per call; \<open>Bip_Node_Inv\<close>: its invariant, reachable nodes, and that it never falls behind.
  \<^item> \<open>Router_Rows\<close>, \<open>Route_Table\<close>, \<open>Route_Rules\<close> (\<open>bacnet-router-core/src/table.rs\<close>,
    \<open>table/claims.rs\<close>, \<open>table/holds.rs\<close>): the router's sorted arrays, its routing table and what
    each call does to the map from networks to routes: learning in both convergence modes,
    rejects with their hold-down, marks and aging, and that attached networks never change.
  \<^item> this theory: what holds across components.

  \<^bold>\<open>Conventions.\<close> A Rust struct is a record, an enum a datatype, \<open>Result\<close> a sum, an integer
  of w bits a word; \<open>usize\<close> is \<open>nat\<close> where the code's buffers bound it. \<open>&mut self\<close> is state
  passed and returned. The const parameter \<open>NPDU\<close> of the core is the argument \<open>n\<close>, the queue
  storage the argument \<open>ops\<close>. Constant assertions that fail the build are hypotheses
  (\<open>action_buffers_sizes\<close>).

  \<^bold>\<open>Fuel.\<close> \<open>drain_decoder\<close> has the capacity of the receive storage and three, one
  more than the pushes that can answer something else than \<open>NeedMore\<close>, since each such
  push drops an octet; \<open>on_octet_returns\<close> shows that it suffices in every reachable core.
  \<open>catch_up\<close> of the node has twice the exchange slots and three: each step ends a sent exchange,
  a lease or a due attempt, and a release that ends can make one more attempt due.
  \<open>node_never_behind\<close> shows that more fuel changes nothing and that no deadline passed is left,
  but at the last instant of the clock, where saturating deadlines cannot lie ahead.

  \<^bold>\<open>Not modelled.\<close> Formatting (\<open>Display\<close>, \<open>Debug\<close>), hashing, and plain field accessors. The
  host clock of \<open>bacnet-time\<close>. The crates above the data links (\<open>bacnet-encoding\<close>,
  \<open>bacnet-services\<close>, \<open>bacnet-objects\<close>, \<open>bacnet-client\<close>, \<open>bacnet-server\<close>, \<open>bacnet-endpoint\<close>),
  the rest of the router core (\<open>bacnet-router-core\<close>), the ports of \<open>bacnet-bip-core\<close>, and
  the crates that are sockets, tasks, tools or bindings; the manifest names them one by one.
\<close>

section \<open>From one station's core to another's decoder\<close>

text \<open>
  C19: What a core puts on the line, the line's other stations hear. The octets a reachable
  core hands over at a confirmed start, cut anyhow and pushed into any drained stream decoder
  with room for them, come out once, at the last piece, as a frame from the core's station.
\<close>

theorem started_frame_is_heard:
  assumes "reachable ops n c" "on_transmit_started ops n tid now c = (Inr octets, d)"
    and "stream_inv r" "abs_state r = (0, [])" "length octets \<le> capacity r"
    and "octets = concat cs @ s" "s \<noteq> []"
  shows "\<exists>f. fh_source (fr_header f) = cf_station (mc_config c)
       \<and> fst (feed (cs @ [s]) r) = replicate (length cs) NeedMore @ [FrameEvent f (length octets)]"
proof -
  obtain f k where f: "checked_length f = Inr k" "fh_source (fr_header f) = cf_station (mc_config c)"
      "octets = frame_octets f"
    using start_succeeds [OF reachable_ok [OF assms(1)] assms(2)] by (auto simp: holds_frame_def)
  have "length octets = wire_length k" by (simp add: f(3) length_frame_octets checked_length_eq [OF f(1)])
  with feed_prefix [OF f(1) assms(3), of s 0 cs] assms f show ?thesis by auto
qed

theorem started_frame_is_heard_witness:
  "\<exists>octets d f r. on_transmit_started (fixed_ops 501) 501 0 half_second polled_core = (Inr octets, d)
     \<and> fst (feed [octets] r) = [FrameEvent f (length octets)]"
proof -
  obtain octets d where s: "on_transmit_started (fixed_ops 501) 501 0 half_second polled_core = (Inr octets, d)"
    using polled_starts by blast
  obtain f where "octets = frame_octets f"
    using start_succeeds [OF reachable_ok [OF polled_reachable] s] by (auto simp: holds_frame_def)
  then have ne: "octets \<noteq> []" using length_frame_octets [of f] by (auto simp: wire_length_def codec split: if_splits)
  let ?r = "new_decoder (replicate (length octets) 0)"
  have "stream_inv ?r" "abs_state ?r = (0, [])" "length octets \<le> capacity ?r"
    by (simp_all add: new_decoder_def stream_inv_def abs_state_def buffered_def capacity_def)
  from started_frame_is_heard [OF polled_reachable s this, of "[]" octets] ne s show ?thesis by auto
qed

section \<open>One NPDU over two data links\<close>

text \<open>
  C24: An NPDU survives the data links that carry it. Encoded, put into an MS/TP frame and
  read back from the line, the frame's data decode to the canonical form of the NPDU; and
  the same octets put into an Original-Unicast-NPDU or Original-Broadcast-NPDU datagram come
  out of it unchanged.
\<close>

theorem npdu_carried:
  assumes "npdu_encode_into p out = (out', Inr k)"
    and "encode_into (new_frame t dst src (take k out')) buffer = (Inr m, wire)"
    and "bvll_encode_into msg datagram = (datagram', Inr j)"
    and "msg = OriginalUnicastNpdu (take k out') \<or> msg = OriginalBroadcastNpdu (take k out')"
  shows "\<exists>f. fst (decode_frame_in_place (take m wire)) = Inr (f, m) \<and> npdu_decode (fr_data f) = Inr (canonical p)
       \<and> bvll_decode (take j datagram') = Inr msg \<and> bvll_npdu msg = Some (fr_data f)"
proof -
  let ?f = "new_frame t dst src (take k out')"
  have dec: "npdu_decode (take k out') = Inr (canonical p)"
    using assms(1) by (cases p out rule: npdu_encode_cases) (auto simp: npdu_decode_octets length_npdu_octets [symmetric])
  obtain len where len: "checked_length ?f = Inr len" "m = wire_length len" "wire = frame_octets ?f @ drop m buffer"
    using assms(2) by (auto simp: encode_into_eq split: sum.splits if_splits)
  then have "take m wire = frame_octets ?f" by (simp add: length_frame_octets checked_length_eq [OF len(1)])
  then have "fst (decode_frame_in_place (take m wire)) = Inr (?f, m)" using octets_decode(1) [OF len(1), of "[]"] len(2) by simp
  moreover have wf: "bvll_wf msg" using assms(4) by auto
  have j: "bvll_encoded_len msg = Inr j" "j \<le> length datagram"
    using assms(3) by (auto simp: bvll_encode_into_def bvll_encode_to_sink_def slice_ops_def
        split: sum.splits prod.splits if_splits)
  have "take j datagram' = bvll_octets msg"
    using bvll_encode_into_ok [OF wf j] assms(3) length_bvll_octets [OF wf] j(1) by (auto simp: bvll_encoded_len_iff)
  then have "bvll_decode (take j datagram') = Inr msg"
    using bvll_decode_octets [OF wf j(1)] assms(4) by (auto elim: bvll_eq.elims)
  ultimately show ?thesis using dec assms(4) by (intro exI [of _ ?f]) (auto simp: new_frame_def)
qed

text \<open>The example: a routed Who-Is, in a broadcast frame from station 5 and in a unicast datagram.\<close>

theorem npdu_carried_witness:
  "\<exists>out' k wire m datagram' j f. npdu_encode_into sample_npdu (replicate 16 0) = (out', Inr k)
     \<and> encode_into (new_frame BACNET_DATA_NOT_EXPECTING_REPLY 255 5 (take k out')) (replicate 80 0) = (Inr m, wire)
     \<and> bvll_encode_into (OriginalUnicastNpdu (take k out')) (replicate 80 0) = (datagram', Inr j)
     \<and> fst (decode_frame_in_place (take m wire)) = Inr (f, m) \<and> npdu_decode (fr_data f) = Inr (canonical sample_npdu)
     \<and> bvll_decode (take j datagram') = Inr (OriginalUnicastNpdu (take k out'))"
proof -
  let ?data = "take 12 [1, 0x28, 0xFF, 0xFF, 0, 0, 5, 1, 7, 254, 0x10, 8, 0, 0, 0, 0] :: octets"
  have len: "length ?data = 12" by simp
  have "checked_length (new_frame BACNET_DATA_NOT_EXPECTING_REPLY 255 5 ?data) = Inr 12"
    by (simp add: checked_length_def check_header_fields_def new_frame_def frame_type_consts is_cobs_def
        is_extended_data_def is_proprietary_def allows_data_def frame_consts)
  then obtain wire where w: "encode_into (new_frame BACNET_DATA_NOT_EXPECTING_REPLY 255 5 ?data) (replicate 80 0)
      = (Inr (wire_length 12), wire)"
    by (simp add: encode_into_eq wire_length_def codec)
  have b: "bvll_encode_into (OriginalUnicastNpdu ?data) (replicate 80 0)
      = (bvll_octets (OriginalUnicastNpdu ?data) @ drop 16 (replicate 80 0), Inr 16)"
    by (rule bvll_encode_into_ok)
      (simp_all add: bvll_encoded_len_iff undefined_result_def BVLL_HEADER_LENGTH_def MAX_BVLL_LENGTH_def)
  from npdu_carried [OF sample_npdu_encodes w b] sample_npdu_encodes w b show ?thesis by blast
qed

end
